(* ===== verification/Prelude.thy ===== *)
theory Prelude
  imports Main "HOL-Library.Word" "HOL-Library.AList"
begin

text \<open>
  What the components share: the machine integer types of the Rust code, its \<open>Result\<close>
  type as a sum (\<open>Inl\<close> the error), its \<open>HashMap\<close> as an association list (the order of
  the list stands for the unspecified iteration order, lookups go through \<open>map_of\<close>), and
  generic lemmas on these that every component uses.
\<close>

unbundle bit_operations_syntax

section \<open>Types\<close>

type_synonym u8 = "8 word"
type_synonym u32 = "32 word"
type_synonym u64 = "64 word"

type_synonym ('e, 'a) result = "'e + 'a"
type_synonym ('k, 'v) hashmap = "('k \<times> 'v) list"

named_theorems hashmap_simps \<open>lookups and key sets after the operations of a HashMap\<close>
named_theorems result_simps \<open>inversion of results of the ? operator\<close>

section \<open>The ? operator on results\<close>

definition and_then :: "('e, 'a) result \<Rightarrow> ('a \<Rightarrow> ('e, 'b) result) \<Rightarrow> ('e, 'b) result" where
  "and_then r f = (case r of Inl e \<Rightarrow> Inl e | Inr x \<Rightarrow> f x)"

lemma and_then_simps [simp]:
  "and_then (Inl e) f = Inl e"
  "and_then (Inr x) f = f x"
  by (simp_all add: and_then_def)

lemma and_then_Inr_iff [result_simps]:
  "and_then r f = Inr y \<longleftrightarrow> (\<exists>x. r = Inr x \<and> f x = Inr y)"
  by (cases r) auto

lemma and_then_Inl_iff [result_simps]:
  "and_then r f = Inl e \<longleftrightarrow> r = Inl e \<or> (\<exists>x. r = Inr x \<and> f x = Inl e)"
  by (cases r) auto

section \<open>HashMap\<close>

abbreviation hm_keys :: "('k, 'v) hashmap \<Rightarrow> 'k list" where
  "hm_keys m \<equiv> map fst m"

abbreviation hm_wf :: "('k, 'v) hashmap \<Rightarrow> bool" where
  "hm_wf m \<equiv> distinct (hm_keys m)"

lemma map_of_update [hashmap_simps]:
  "map_of (AList.update k v m) = (map_of m)(k \<mapsto> v)"
  by (rule AList.update_conv')

lemma map_of_delete [hashmap_simps]:
  "map_of (AList.delete k m) = (map_of m)(k := None)"
  by (rule AList.delete_conv')

lemma hm_wf_update [simp]: "hm_wf m \<Longrightarrow> hm_wf (AList.update k v m)"
  by (rule AList.distinct_update)

lemma hm_wf_delete [simp]: "hm_wf m \<Longrightarrow> hm_wf (AList.delete k m)"
  by (rule AList.distinct_delete)

lemma hm_keys_dom: "set (hm_keys m) = dom (map_of m)"
  by (simp add: dom_map_of_conv_image_fst)

lemma in_map_of: "hm_wf m \<Longrightarrow> (k, v) \<in> set m \<longleftrightarrow> map_of m k = Some v"
  by (auto intro: map_of_is_SomeI map_of_SomeD)

lemma hm_empty_iff: "m = [] \<longleftrightarrow> map_of m = Map.empty"
  by (cases m) (auto simp: fun_eq_iff)

lemma map_of_map_values:
  "map_of (map (\<lambda>(k, v). (k, f v)) m) = map_option f \<circ> map_of m"
  by (rule map_of_map)

lemma hm_wf_map_values [simp]: "hm_wf (map (\<lambda>(k, v). (k, f v)) m) = hm_wf m"
  by (simp add: comp_def case_prod_beta)

section \<open>Machine words\<close>

lemma word64_Suc:
  fixes x :: u64
  assumes "x \<noteq> - 1"
  shows "unat (x + 1) = Suc (unat x)"
  using assms by (metis Suc_eq_plus1 add.commute unatSuc add_eq_0_iff minus_equation_iff)

lemma word64_succ_le_iff:
  fixes x y :: u64
  assumes "x \<noteq> - 1"
  shows "y \<le> x + 1 \<longleftrightarrow> y \<le> x \<or> y = x + 1"
  using word64_Suc [OF assms] by (auto simp: word_le_nat_alt word_unat_eq_iff)

lemma word64_less_succ_iff:
  fixes x y :: u64
  assumes "x \<noteq> - 1"
  shows "y < x + 1 \<longleftrightarrow> y \<le> x"
  using word64_Suc [OF assms] by (auto simp: word_le_nat_alt word_less_nat_alt)

section \<open>Binary search\<close>

text \<open>\<open>slice::binary_search_by\<close> of the standard library over the \<open>n\<close> elements whose comparisons
  are \<open>f 0, \<dots>, f (n - 1)\<close>: \<open>Inr\<close> an index that compares equal, or \<open>Inl\<close> the insertion point.\<close>

datatype ordering = Less | Equal | Greater

function bsearch_loop :: "(nat \<Rightarrow> ordering) \<Rightarrow> nat \<Rightarrow> nat \<Rightarrow> nat" where
  "bsearch_loop f base sz =
     (if sz \<le> 1 then base
      else (let half = sz div 2; mid = base + half
            in bsearch_loop f (if f mid = Greater then base else mid) (sz - half)))"
  by pat_completeness auto
termination by (relation "measure (\<lambda>(f, base, sz). sz)") auto

declare bsearch_loop.simps [simp del]

definition binary_search_by :: "(nat \<Rightarrow> ordering) \<Rightarrow> nat \<Rightarrow> nat + nat" where
  "binary_search_by f n =
     (if n = 0 then Inl 0
      else (let base = bsearch_loop f 0 n
            in case f base of Equal \<Rightarrow> Inr base | Less \<Rightarrow> Inl (base + 1) | Greater \<Rightarrow> Inl base))"

definition cmp_sorted :: "(nat \<Rightarrow> ordering) \<Rightarrow> nat \<Rightarrow> bool" where
  "cmp_sorted f n \<longleftrightarrow> (\<forall>i j. i < j \<and> j < n \<longrightarrow>
     (f i = Greater \<longrightarrow> f j = Greater) \<and> (f j = Less \<longrightarrow> f i = Less))"

lemma cmp_sortedD:
  assumes "cmp_sorted f n" "i < j" "j < n"
  shows "f i = Greater \<Longrightarrow> f j = Greater" "f j = Less \<Longrightarrow> f i = Less"
  using assms unfolding cmp_sorted_def by blast+

lemma bsearch_loop_spec:
  assumes "cmp_sorted f n" "0 < sz" "base + sz \<le> n"
    "\<forall>i. base + sz \<le> i \<and> i < n \<longrightarrow> f i = Greater" "base = 0 \<or> f base \<noteq> Greater"
  shows "bsearch_loop f base sz < n \<and>
    (\<forall>i. bsearch_loop f base sz < i \<and> i < n \<longrightarrow> f i = Greater) \<and>
    (bsearch_loop f base sz = 0 \<or> f (bsearch_loop f base sz) \<noteq> Greater)"
  using assms
proof (induction f base sz rule: bsearch_loop.induct)
  case (1 f base sz)
  let ?half = "sz div 2"
  show ?case
  proof (cases "sz \<le> 1")
    case True
    then show ?thesis using "1.prems" by (auto simp: bsearch_loop.simps [of f base sz])
  next
    case False
    let ?base = "if f (base + ?half) = Greater then base else base + ?half"
    have bnds: "0 < sz - ?half" "?base + (sz - ?half) \<le> n"
      using False "1.prems" by auto
    have up: "\<forall>i. ?base + (sz - ?half) \<le> i \<and> i < n \<longrightarrow> f i = Greater"
    proof (intro allI impI, elim conjE)
      fix i assume i: "?base + (sz - ?half) \<le> i" "i < n"
      show "f i = Greater"
      proof (cases "f (base + ?half) = Greater")
        case True
        have "base + ?half \<le> i" using i True by auto
        then show ?thesis
          using True i cmp_sortedD(1) [OF "1.prems"(1), of "base + ?half" i]
          by (cases "i = base + ?half") auto
      next
        case False
        then show ?thesis using i "1.prems"(4) by auto
      qed
    qed
    have eq: "bsearch_loop f base sz = bsearch_loop f ?base (sz - ?half)"
      using False by (subst bsearch_loop.simps) (simp only: Let_def if_False)
    from "1.prems"(5) have "?base = 0 \<or> f ?base \<noteq> Greater" by auto
    from "1.IH" [OF False refl refl "1.prems"(1) bnds up this] show ?thesis unfolding eq .
  qed
qed

lemma bsearch_whole:
  assumes "cmp_sorted f n" "n \<noteq> 0"
  shows "bsearch_loop f 0 n < n"
    "\<forall>i. bsearch_loop f 0 n < i \<and> i < n \<longrightarrow> f i = Greater"
    "bsearch_loop f 0 n = 0 \<or> f (bsearch_loop f 0 n) \<noteq> Greater"
proof -
  have "\<forall>i. 0 + n \<le> i \<and> i < n \<longrightarrow> f i = Greater" by auto
  from bsearch_loop_spec [OF assms(1) _ _ this] assms(2)
  show "bsearch_loop f 0 n < n"
    "\<forall>i. bsearch_loop f 0 n < i \<and> i < n \<longrightarrow> f i = Greater"
    "bsearch_loop f 0 n = 0 \<or> f (bsearch_loop f 0 n) \<noteq> Greater" by auto
qed

lemma binary_search_by_Inr:
  assumes "cmp_sorted f n" "binary_search_by f n = Inr i"
  shows "i < n \<and> f i = Equal"
proof -
  have "n \<noteq> 0" using assms(2) by (cases "n = 0") (simp_all add: binary_search_by_def)
  then have "bsearch_loop f 0 n < n" using bsearch_whole(1) [OF assms(1)] by simp
  with assms(2) show ?thesis
    by (auto simp: binary_search_by_def Let_def split: if_splits ordering.splits)
qed

lemma binary_search_by_Inl:
  assumes "cmp_sorted f n" "binary_search_by f n = Inl i"
  shows "i \<le> n \<and> (\<forall>j < i. f j = Less) \<and> (\<forall>j. i \<le> j \<and> j < n \<longrightarrow> f j = Greater)"
proof (cases "n = 0")
  case True
  with assms(2) show ?thesis by (simp add: binary_search_by_def)
next
  case False
  let ?b = "bsearch_loop f 0 n"
  have b: "?b < n" "\<forall>i. ?b < i \<and> i < n \<longrightarrow> f i = Greater" "?b = 0 \<or> f ?b \<noteq> Greater"
    using bsearch_whole [OF assms(1) False] by blast+
  show ?thesis
  proof (cases "f ?b")
    case Less
    then have "i = Suc ?b" using assms(2) False by (simp add: binary_search_by_def Let_def)
    moreover have "f j = Less" if "j < Suc ?b" for j
      using that Less cmp_sortedD(2) [OF assms(1) _ b(1), of j] by (cases "j = ?b") auto
    ultimately show ?thesis using b by auto
  next
    case Greater
    with b have "?b = 0" by simp
    moreover from this Greater have "i = 0"
      using assms(2) False by (simp add: binary_search_by_def Let_def)
    ultimately show ?thesis using b Greater by (metis gr_zeroI not_less_zero zero_le)
  qed (use assms(2) False in \<open>simp add: binary_search_by_def Let_def\<close>)
qed

end
