(* ===== verification/JsonPath.thy ===== *)
theory JsonPath
  imports Prelude "HOL-Library.Multiset"
begin

text \<open>
  \<open>lib/segment/src/json_path\<close> of qdrant: paths into the JSON payload of a point, reading, setting, removing
  and filtering values with them, and their text form. A \<open>serde_json::Map\<close> is an association list with
  distinct keys in insertion order, as the crate is built with \<open>preserve_order\<close>: \<open>remove\<close> swaps the last
  entry in. The numbers of JSON are a type parameter, nothing here looks into them. Characters are the
  first 256 code points.
\<close>

section \<open>JSON\<close>

datatype 'n json = JNull | JBool bool | JNumber 'n | JString string | JArray "'n json list"
  | JObject "(string \<times> 'n json) list"

type_synonym 'n json_map = "(string, 'n json) hashmap"

definition is_object :: "'n json \<Rightarrow> bool" where "is_object v = (case v of JObject _ \<Rightarrow> True | _ \<Rightarrow> False)"
definition is_array :: "'n json \<Rightarrow> bool" where "is_array v = (case v of JArray _ \<Rightarrow> True | _ \<Rightarrow> False)"
definition object_or_new :: "'n json \<Rightarrow> 'n json_map" where
  "object_or_new v = (case v of JObject m \<Rightarrow> m | _ \<Rightarrow> [])"
definition array_or_new :: "'n json \<Rightarrow> 'n json list" where
  "array_or_new v = (case v of JArray a \<Rightarrow> a | _ \<Rightarrow> [])"

text \<open>\<open>swap_remove\<close> of an index map.\<close>

fun swap_remove :: "'k \<Rightarrow> ('k, 'v) hashmap \<Rightarrow> ('k, 'v) hashmap" where
  "swap_remove k [] = []"
| "swap_remove k ((k1, v1) # m) =
     (if k = k1 then (if m = [] then [] else last m # butlast m) else (k1, v1) # swap_remove k m)"

fun merge_map :: "'n json_map \<Rightarrow> 'n json_map \<Rightarrow> 'n json_map" where
  "merge_map dest [] = dest"
| "merge_map dest ((key, val) # src) =
     merge_map (case val of JNull \<Rightarrow> swap_remove key dest | _ \<Rightarrow> AList.update key val dest) src"

section \<open>Paths\<close>

datatype path_item = Key string | Index nat | WildcardIndex

record json_path =
  first_key :: string
  rest_items :: "path_item list"

fun value_get_items :: "path_item list \<Rightarrow> 'n json option \<Rightarrow> 'n json list" where
  "value_get_items [] (Some v) = [v]"
| "value_get_items [] None = []"
| "value_get_items (Key k # tail) (Some (JObject m)) = value_get_items tail (map_of m k)"
| "value_get_items (Index i # tail) (Some (JArray a)) =
     (if i < length a then value_get_items tail (Some (a ! i)) else [])"
| "value_get_items (WildcardIndex # tail) (Some (JArray a)) = concat (map (\<lambda>v. value_get_items tail (Some v)) a)"
| "value_get_items (_ # _) _ = []"

definition value_get :: "json_path \<Rightarrow> 'n json_map \<Rightarrow> 'n json list" where
  "value_get p m = (case map_of m (first_key p) of None \<Rightarrow> [] | Some v \<Rightarrow> value_get_items (rest_items p) (Some v))"

function (sequential)
  value_set_items :: "path_item list \<Rightarrow> 'n json \<Rightarrow> 'n json_map \<Rightarrow> 'n json" and
  value_set_map :: "string \<Rightarrow> path_item list \<Rightarrow> 'n json_map \<Rightarrow> 'n json_map \<Rightarrow> 'n json_map" where
  "value_set_items (Key k # rest) dest src = JObject (value_set_map k rest (object_or_new dest) src)"
| "value_set_items (Index i # rest) dest src =
     (let a = array_or_new dest in JArray (if i < length a then a[i := value_set_items rest (a ! i) src] else a))"
| "value_set_items (WildcardIndex # rest) dest src =
     JArray (map (\<lambda>v. value_set_items rest v src) (array_or_new dest))"
| "value_set_items [] dest src = JObject (merge_map (object_or_new dest) src)"
| "value_set_map k path dest src =
     (case map_of dest k of
        Some v \<Rightarrow> AList.update k (value_set_items path v src) dest
      | None \<Rightarrow> AList.update k (value_set_items path JNull src) dest)"
  by pat_completeness auto
termination
  by (relation "measure (\<lambda>x. case x of Inl (p, _, _) \<Rightarrow> 2 * length p | Inr (_, p, _, _) \<Rightarrow> 2 * length p + 1)") auto

definition value_set :: "json_path option \<Rightarrow> 'n json_map \<Rightarrow> 'n json_map \<Rightarrow> 'n json_map" where
  "value_set path dest src =
     (case path of Some p \<Rightarrow> value_set_map (first_key p) (rest_items p) dest src | None \<Rightarrow> merge_map dest src)"

text \<open>The value after the removal and the removed values.\<close>

fun value_remove_items :: "path_item \<Rightarrow> path_item list \<Rightarrow> 'n json \<Rightarrow> 'n json \<times> 'n json list" where
  "value_remove_items (Key k) (r1 # rn) (JObject m) =
     (case map_of m k of
        None \<Rightarrow> (JObject m, [])
      | Some v \<Rightarrow> (case value_remove_items r1 rn v of (v1, removed) \<Rightarrow> (JObject (AList.update k v1 m), removed)))"
| "value_remove_items (Index i) (r1 # rn) (JArray a) =
     (if i < length a then (case value_remove_items r1 rn (a ! i) of (v1, removed) \<Rightarrow> (JArray (a[i := v1]), removed))
      else (JArray a, []))"
| "value_remove_items WildcardIndex (r1 # rn) (JArray a) =
     (let rs = map (value_remove_items r1 rn) a in (JArray (map fst rs), concat (map snd rs)))"
| "value_remove_items (Key k) [] (JObject m) =
     (case map_of m k of None \<Rightarrow> (JObject m, []) | Some v \<Rightarrow> (JObject (swap_remove k m), [v]))"
| "value_remove_items WildcardIndex [] (JArray a) = (JArray [], [JArray a])"
| "value_remove_items _ _ v = (v, [])"

definition value_remove :: "json_path \<Rightarrow> 'n json_map \<Rightarrow> 'n json_map \<times> 'n json list" where
  "value_remove p m =
     (case rest_items p of
        r1 # rn \<Rightarrow>
          (case map_of m (first_key p) of
             None \<Rightarrow> (m, [])
           | Some v \<Rightarrow> (case value_remove_items r1 rn v of (v1, removed) \<Rightarrow> (AList.update (first_key p) v1 m, removed)))
      | [] \<Rightarrow>
          (case map_of m (first_key p) of None \<Rightarrow> (m, []) | Some v \<Rightarrow> (swap_remove (first_key p) m, [v])))"

text \<open>The code pushes an item to the path, filters, and pops it again.\<close>

definition push_item :: "json_path \<Rightarrow> path_item \<Rightarrow> json_path" where
  "push_item p x = p\<lparr>rest_items := rest_items p @ [x]\<rparr>"

text \<open>For the recursions over objects.\<close>

lemma size_pair_in_list: "(k, v) \<in> set m \<Longrightarrow> size v \<le> size_list (size_prod (\<lambda>_. 0) size) m"
proof -
  assume "(k, v) \<in> set m"
  then have "size_prod (\<lambda>_. 0) size (k, v) \<le> size_list (size_prod (\<lambda>_. 0) size) m"
    by (rule size_list_estimation') simp
  then show ?thesis by simp
qed

function run_filter :: "(json_path \<Rightarrow> 'n json \<Rightarrow> bool) \<Rightarrow> json_path \<Rightarrow> 'n json \<Rightarrow> 'n json" where
  "run_filter f p JNull = JNull"
| "run_filter f p (JBool b) = JBool b"
| "run_filter f p (JNumber n) = JNumber n"
| "run_filter f p (JString s) = JString s"
| "run_filter f p (JArray a) =
     (let p1 = push_item p WildcardIndex in JArray (map (\<lambda>v. run_filter f p1 v) (filter (f p1) a)))"
| "run_filter f p (JObject m) =
     JObject (map (\<lambda>(k, v). (k, run_filter f (push_item p (Key k)) v)) (filter (\<lambda>(k, v). f (push_item p (Key k)) v) m))"
  by pat_completeness auto
termination
proof (relation "measure (\<lambda>(f, p, v). size v)", goal_cases)
  case (2 f p a v)
  then show ?case by (auto simp: less_Suc_eq_le size_list_estimation')
next
  case (3 f p m x k v)
  then show ?case using size_pair_in_list [of k v m] by auto
qed simp

definition value_filter :: "(json_path \<Rightarrow> 'n json \<Rightarrow> bool) \<Rightarrow> 'n json_map \<Rightarrow> 'n json_map" where
  "value_filter f m =
     map (\<lambda>(k, v). (k, run_filter f \<lparr>first_key = k, rest_items = []\<rparr> v))
       (filter (\<lambda>(k, v). f \<lparr>first_key = k, rest_items = []\<rparr> v) m)"

section \<open>Operations on paths\<close>

definition strip_wildcard_suffix :: "json_path \<Rightarrow> json_path" where
  "strip_wildcard_suffix p =
     (if rest_items p \<noteq> [] \<and> last (rest_items p) = WildcardIndex then p\<lparr>rest_items := butlast (rest_items p)\<rparr> else p)"

fun strip_prefix_loop :: "path_item list \<Rightarrow> path_item list \<Rightarrow> json_path option" where
  "strip_prefix_loop (x # xs) (y # ys) = (if x = y then strip_prefix_loop xs ys else None)"
| "strip_prefix_loop (Key k # xs) [] = Some \<lparr>first_key = k, rest_items = xs\<rparr>"
| "strip_prefix_loop (_ # _) [] = None"
| "strip_prefix_loop [] (_ # _) = None"
| "strip_prefix_loop [] [] = None"

definition strip_prefix :: "json_path \<Rightarrow> json_path \<Rightarrow> json_path option" where
  "strip_prefix p pre =
     (if first_key p \<noteq> first_key pre then None else strip_prefix_loop (rest_items p) (rest_items pre))"

definition extend :: "json_path \<Rightarrow> json_path \<Rightarrow> json_path" where
  "extend p other =
     \<lparr>first_key = first_key p, rest_items = rest_items p @ [Key (first_key other)] @ rest_items other\<rparr>"

definition has_wildcard_suffix :: "json_path \<Rightarrow> bool" where
  "has_wildcard_suffix p = (rest_items p \<noteq> [] \<and> last (rest_items p) = WildcardIndex)"

definition array_key :: "json_path \<Rightarrow> json_path" where
  "array_key p =
     (if rest_items p \<noteq> [] \<and> last (rest_items p) = WildcardIndex then p
      else p\<lparr>rest_items := rest_items p @ [WildcardIndex]\<rparr>)"

definition check_include_pattern :: "json_path \<Rightarrow> json_path \<Rightarrow> bool" where
  "check_include_pattern p pattern =
     (first_key p = first_key pattern \<and> list_all (\<lambda>(a, b). a = b) (zip (rest_items p) (rest_items pattern)))"

definition check_exclude_pattern :: "json_path \<Rightarrow> json_path \<Rightarrow> bool" where
  "check_exclude_pattern p pattern =
     (first_key p = first_key pattern \<and> take (length (rest_items p)) (rest_items pattern) = rest_items p)"

definition extend_or_new :: "json_path option \<Rightarrow> json_path \<Rightarrow> json_path" where
  "extend_or_new base other = (case base of None \<Rightarrow> other | Some b \<Rightarrow> extend b other)"

fun compatible_item :: "path_item \<Rightarrow> path_item \<Rightarrow> bool" where
  "compatible_item (Key a) (Key b) = (a = b)"
| "compatible_item (Index a) (Index b) = (a = b)"
| "compatible_item WildcardIndex WildcardIndex = True"
| "compatible_item (Index _) WildcardIndex = True"
| "compatible_item WildcardIndex (Index _) = True"
| "compatible_item _ _ = False"

definition compatible :: "json_path \<Rightarrow> json_path \<Rightarrow> bool" where
  "compatible p other =
     (if first_key p \<noteq> first_key other then False
      else list_all (\<lambda>(a, b). compatible_item a b) (zip (rest_items p) (rest_items other)))"

definition is_affected_by_value_remove :: "json_path \<Rightarrow> json_path \<Rightarrow> bool" where
  "is_affected_by_value_remove p path_to_remove = compatible path_to_remove p"

fun affected_by_set_loop :: "'n json_map \<Rightarrow> path_item list \<Rightarrow> path_item list \<Rightarrow> bool" where
  "affected_by_set_loop payload [] _ = True"
| "affected_by_set_loop payload (Key a # _) [] = (map_of payload a \<noteq> None)"
| "affected_by_set_loop payload (Index _ # _) [] = True"
| "affected_by_set_loop payload (WildcardIndex # _) [] = True"
| "affected_by_set_loop payload (Key a # xs) (Key b # ys) = (if a = b then affected_by_set_loop payload xs ys else False)"
| "affected_by_set_loop payload (Index a # xs) (Index b # ys) = (if a = b then affected_by_set_loop payload xs ys else False)"
| "affected_by_set_loop payload (WildcardIndex # xs) (WildcardIndex # ys) = affected_by_set_loop payload xs ys"
| "affected_by_set_loop payload (Index _ # xs) (WildcardIndex # ys) = affected_by_set_loop payload xs ys"
| "affected_by_set_loop payload (WildcardIndex # xs) (Index _ # ys) = affected_by_set_loop payload xs ys"
| "affected_by_set_loop payload (Key _ # _) (_ # _) = True"
| "affected_by_set_loop payload (_ # _) (Key _ # _) = True"

definition is_affected_by_value_set :: "json_path \<Rightarrow> 'n json_map \<Rightarrow> json_path option \<Rightarrow> bool" where
  "is_affected_by_value_set p payload path_to_set =
     (case path_to_set of
        None \<Rightarrow> map_of payload (first_key p) \<noteq> None
      | Some s \<Rightarrow>
          if first_key p \<noteq> first_key s then False else affected_by_set_loop payload (rest_items p) (rest_items s))"

text \<open>\<open>PayloadSelector::process\<close> of \<open>types.rs\<close>.\<close>

datatype payload_selector = Include "json_path list" | Exclude "json_path list"

definition selector_process :: "payload_selector \<Rightarrow> 'n json_map \<Rightarrow> 'n json_map" where
  "selector_process sel x =
     (case sel of
        Include include \<Rightarrow> value_filter (\<lambda>key _. list_ex (\<lambda>pattern. check_include_pattern pattern key) include) x
      | Exclude exclude \<Rightarrow> value_filter (\<lambda>key _. list_all (\<lambda>pattern. \<not> check_exclude_pattern pattern key) exclude) x)"

section \<open>Well-formed JSON: the keys of every object are distinct\<close>

function json_wf :: "'n json \<Rightarrow> bool" where
  "json_wf JNull = True"
| "json_wf (JBool _) = True"
| "json_wf (JNumber _) = True"
| "json_wf (JString _) = True"
| "json_wf (JArray a) = list_all json_wf a"
| "json_wf (JObject m) = (hm_wf m \<and> list_all (\<lambda>(k, v). json_wf v) m)"
  by pat_completeness auto
termination
proof (relation "measure size", goal_cases)
  case (2 a v)
  then show ?case by (auto simp: less_Suc_eq_le size_list_estimation')
next
  case (3 m x k v)
  then show ?case using size_pair_in_list [of k v m] by simp
qed simp

definition map_wf :: "'n json_map \<Rightarrow> bool" where "map_wf m = json_wf (JObject m)"

lemma map_wf_alt: "map_wf m \<longleftrightarrow> hm_wf m \<and> (\<forall>k v. map_of m k = Some v \<longrightarrow> json_wf v)"
  by (auto simp: map_wf_def list_all_iff dest: map_of_SomeD)

lemma json_wf_JObject: "json_wf (JObject m) = map_wf m"
  by (simp add: map_wf_def)

lemma json_wf_JArray: "json_wf (JArray a) = (\<forall>v \<in> set a. json_wf v)"
  by (simp add: list_all_iff)

declare json_wf.simps(5,6) [simp del]
declare json_wf_JObject [simp] json_wf_JArray [simp]

lemma object_or_new_wf [simp]: "json_wf v \<Longrightarrow> map_wf (object_or_new v)"
  by (cases v) (auto simp: object_or_new_def map_wf_alt)

lemma array_or_new_wf [simp]: "json_wf v \<Longrightarrow> x \<in> set (array_or_new v) \<Longrightarrow> json_wf x"
  by (cases v) (auto simp: array_or_new_def)

subsection \<open>\<open>swap_remove\<close> and \<open>merge_map\<close>\<close>

lemma swap_remove_mset: "hm_wf m \<Longrightarrow> mset (swap_remove k m) = mset (AList.delete k m)"
proof (induction m)
  case (Cons x m)
  obtain k1 v1 where x: "x = (k1, v1)" by (cases x)
  show ?case
  proof (cases "k = k1")
    case True
    then have "k \<notin> fst ` set m" using Cons.prems x by auto
    then have "AList.delete k m = m" by (simp add: AList.delete_idem)
    then show ?thesis using True x by (cases m rule: rev_cases) auto
  next
    case False
    then show ?thesis using Cons x by auto
  qed
qed simp

lemma map_of_mset_eq: "mset m = mset m1 \<Longrightarrow> hm_wf m \<Longrightarrow> map_of m = map_of m1"
  by (metis map_of_inject_set mset_eq_setD mset_map mset_eq_imp_distinct_iff)

lemma map_of_swap_remove [hashmap_simps]:
  "hm_wf m \<Longrightarrow> map_of (swap_remove k m) = (map_of m)(k := None)"
  using map_of_mset_eq [OF swap_remove_mset [symmetric], of m k] by (simp add: map_of_delete)

lemma hm_wf_swap_remove [simp]: "hm_wf m \<Longrightarrow> hm_wf (swap_remove k m)"
  using swap_remove_mset [of m k] hm_wf_delete [of m k]
  by (metis mset_map mset_eq_imp_distinct_iff)

lemma map_wf_update [simp]: "map_wf m \<Longrightarrow> json_wf v \<Longrightarrow> map_wf (AList.update k v m)"
  by (auto simp: map_wf_alt map_of_update split: if_splits)

lemma map_wf_swap_remove [simp]: "map_wf m \<Longrightarrow> map_wf (swap_remove k m)"
  by (auto simp: map_wf_alt map_of_swap_remove split: if_splits)

lemma map_wf_lookup: "map_wf m \<Longrightarrow> map_of m k = Some v \<Longrightarrow> json_wf v"
  by (auto simp: map_wf_alt)

lemma map_wf_hm_wf: "map_wf m \<Longrightarrow> hm_wf m"
  by (auto simp: map_wf_alt)

lemma map_wf_Cons: "map_wf ((k, v) # m) \<longleftrightarrow> k \<notin> set (hm_keys m) \<and> json_wf v \<and> map_wf m"
  by (auto simp: map_wf_def json_wf.simps(6) simp del: json_wf_JObject)

lemma merge_map_wf [simp]: "map_wf d \<Longrightarrow> map_wf s \<Longrightarrow> map_wf (merge_map d s)"
  by (induction d s rule: merge_map.induct) (auto simp: map_wf_Cons split: json.splits)

text \<open>What merging does to a key: a null removes it, another value replaces it.\<close>

lemma map_of_merge_map:
  "hm_wf d \<Longrightarrow> hm_wf s \<Longrightarrow>
   map_of (merge_map d s) k =
     (case map_of s k of None \<Rightarrow> map_of d k | Some JNull \<Rightarrow> None | Some v \<Rightarrow> Some v)"
proof (induction d s rule: merge_map.induct)
  case (2 dest key val src)
  have "map_of src key = None" using 2(3) by (simp add: map_of_eq_None_iff)
  then show ?case using 2 by (cases val) (auto simp: hashmap_simps split: option.splits)
qed simp

subsection \<open>The operations keep JSON well formed\<close>

lemma value_set_wf:
  shows "json_wf dest \<Longrightarrow> map_wf src \<Longrightarrow> json_wf (value_set_items path dest src)"
    and "map_wf m \<Longrightarrow> map_wf src \<Longrightarrow> map_wf (value_set_map k path m src)"
proof (induction path dest src and k path m src rule: value_set_items_value_set_map.induct)
  case (2 i rest dest src)
  then show ?case
    by (auto simp: Let_def in_set_conv_nth nth_list_update split: if_splits dest: array_or_new_wf)
      (metis array_or_new_wf nth_mem)+
next
  case (5 k path dest src)
  then show ?case by (auto split: option.splits simp: map_wf_lookup)
qed (auto simp: Let_def)

lemma value_remove_items_wf: "json_wf v \<Longrightarrow> json_wf (fst (value_remove_items x rest v))"
proof (induction x rest v rule: value_remove_items.induct)
  case (1 k r1 rn m)
  then show ?case by (auto split: option.splits prod.splits simp: map_wf_lookup)
next
  case (2 i r1 rn a)
  then show ?case
    by (auto split: prod.splits dest!: set_update_subset_insert [THEN subsetD])
next
  case (4 k m)
  then show ?case by (auto split: option.splits)
qed (auto simp: Let_def)

subsection \<open>Reading what a write at another path leaves alone\<close>

lemma value_get_items_None [simp]: "value_get_items path None = []"
  by (cases path) auto

lemma value_get_items_not_object: "\<not> is_object v \<Longrightarrow> value_get_items (Key k # path) (Some v) = []"
  by (cases v) (auto simp: is_object_def)

lemma value_get_items_Key:
  "value_get_items (Key k # path) (Some v) = value_get_items path (map_of (object_or_new v) k)"
  by (cases v) (auto simp: object_or_new_def)

lemma value_get_items_Index:
  "value_get_items (Index i # path) (Some v) =
     (if i < length (array_or_new v) then value_get_items path (Some (array_or_new v ! i)) else [])"
  by (cases v) (auto simp: array_or_new_def)

lemma value_get_items_Wildcard:
  "value_get_items (WildcardIndex # path) (Some v) =
     concat (map (\<lambda>x. value_get_items path (Some x)) (array_or_new v))"
  by (cases v) (auto simp: array_or_new_def)

lemma value_get_value_get_items:
  "value_get p m = value_get_items (rest_items p) (map_of m (first_key p))"
  by (auto simp: value_get_def split: option.splits)

lemma array_or_new_JArray [simp]: "array_or_new (JArray a) = a" by (simp add: array_or_new_def)
lemma object_or_new_JObject [simp]: "object_or_new (JObject m) = m" by (simp add: object_or_new_def)

lemma array_or_new_JObject [simp]: "array_or_new (JObject m) = []" by (simp add: array_or_new_def)
lemma object_or_new_JArray [simp]: "object_or_new (JArray a) = []" by (simp add: object_or_new_def)

lemma map_of_value_set_map:
  "map_of (value_set_map k path m src) k1 =
     (if k1 = k then Some (value_set_items path (case map_of m k of None \<Rightarrow> JNull | Some v \<Rightarrow> v) src) else map_of m k1)"
  by (simp add: value_set_map.simps map_of_update split: option.split)

lemma value_get_JNull: "path \<noteq> [] \<Longrightarrow> value_get_items path (Some JNull) = []"
  by (cases path) auto

declare value_set_map.simps [simp del] value_get_items.simps(3-5) [simp del]

lemmas value_get_items_cons = value_get_items_Key value_get_items_Index value_get_items_Wildcard

lemma concat_map_list_update:
  "i < length a \<Longrightarrow> f y = f (a ! i) \<Longrightarrow> concat (map f (a[i := y])) = concat (map f a)"
  by (metis list_update_id map_update)

lemma value_get_items_unaffected:
  "\<not> affected_by_set_loop src path spath \<Longrightarrow> json_wf dest \<Longrightarrow> map_wf src \<Longrightarrow>
   value_get_items path (Some (value_set_items spath dest src)) = value_get_items path (Some dest)"
proof (induction src path spath arbitrary: dest rule: affected_by_set_loop.induct)
  case (2 payload a xs)
  then have "map_of payload a = None" by (simp only: affected_by_set_loop.simps not_not)
  then show ?case using 2(2,3)
    by (simp add: value_get_items_cons map_of_merge_map map_wf_hm_wf)
next
  case (5 payload a xs b ys)
  have "value_get_items xs (Some (value_set_items ys (case map_of (object_or_new dest) b of None \<Rightarrow> JNull | Some v \<Rightarrow> v) payload)) =
        value_get_items xs (map_of (object_or_new dest) b)" if "a = b"
  proof (cases "map_of (object_or_new dest) b")
    case None
    then show ?thesis using 5 that by (cases xs) (auto simp: value_get_JNull)
  next
    case (Some v)
    then have "json_wf v" using object_or_new_wf [OF 5(3)] map_wf_lookup by blast
    then show ?thesis using 5 that Some by auto
  qed
  then show ?case by (auto simp: value_get_items_cons map_of_value_set_map)
next
  case (6 payload a xs b ys)
  then show ?case
    by (auto simp: value_get_items_cons Let_def nth_list_update intro!: array_or_new_wf [OF 6(3)] split: if_splits)
next
  case (7 payload xs ys)
  then show ?case
    by (auto simp: value_get_items_cons comp_def intro!: arg_cong [where f = concat] array_or_new_wf [OF 7(3)])
next
  case (8 payload a xs ys)
  then show ?case
    by (auto simp: value_get_items_cons intro!: array_or_new_wf [OF 8(3)])
next
  case (9 payload xs b ys)
  then show ?case
    by (auto simp: value_get_items_cons Let_def intro!: concat_map_list_update array_or_new_wf [OF 9(3)])
qed auto

lemma value_get_unaffected_by_set:
  assumes "\<not> is_affected_by_value_set p src path" "map_wf m" "map_wf src"
  shows "value_get p (value_set path m src) = value_get p m"
proof (cases path)
  case None
  then have "map_of src (first_key p) = None"
    using assms(1) by (simp only: is_affected_by_value_set_def option.case not_not)
  then show ?thesis using assms(2,3) None
    by (simp add: value_set_def is_affected_by_value_set_def value_get_value_get_items map_of_merge_map map_wf_hm_wf)
next
  case (Some s)
  then show ?thesis
  proof (cases "first_key p = first_key s")
    case True
    then have "\<not> affected_by_set_loop src (Key (first_key p) # rest_items p) (Key (first_key s) # rest_items s)"
      using assms(1) Some by (simp add: is_affected_by_value_set_def)
    from value_get_items_unaffected [OF this, of "JObject m"] show ?thesis
      using assms(2,3) Some by (simp add: value_set_def value_get_value_get_items value_get_items_cons)
  qed (use Some in \<open>simp add: value_set_def value_get_value_get_items map_of_value_set_map\<close>)
qed

abbreviation items_compatible :: "path_item list \<Rightarrow> path_item list \<Rightarrow> bool" where
  "items_compatible xs ys \<equiv> list_all (\<lambda>(a, b). compatible_item a b) (zip xs ys)"

lemma value_get_items_unaffected_by_remove:
  "\<not> items_compatible (x # rest) path \<Longrightarrow> json_wf v \<Longrightarrow>
   value_get_items path (Some (fst (value_remove_items x rest v))) = value_get_items path (Some v)"
proof (induction x rest v arbitrary: path rule: value_remove_items.induct)
  case (1 k r1 rn m)
  then obtain y ys where path: "path = y # ys" by (cases path) auto
  show ?case
  proof (cases "map_of m k")
    case (Some w)
    have "json_wf w" using 1(3) Some by (auto intro: map_wf_lookup)
    then show ?thesis using 1 path Some
      by (cases y) (auto simp: value_get_items_cons map_of_update case_prod_unfold)
  qed simp
next
  case (2 i r1 rn a)
  then obtain y ys where path: "path = y # ys" by (cases path) auto
  show ?case
  proof (cases "i < length a")
    case True
    have "json_wf (a ! i)" using 2(3) True by simp
    then show ?thesis using 2 path True
      by (cases y) (auto simp: value_get_items_cons nth_list_update case_prod_unfold intro!: concat_map_list_update)
  qed simp
next
  case (3 r1 rn a)
  then obtain y ys where path: "path = y # ys" by (cases path) auto
  show ?case using 3 path
    by (cases y) (auto simp: value_get_items_cons Let_def comp_def intro!: arg_cong [where f = concat])
next
  case (4 k m)
  then obtain y ys where path: "path = y # ys" by (cases path) auto
  show ?case using 4 path
    by (cases y) (auto simp: value_get_items_cons hashmap_simps map_wf_hm_wf split: option.split)
next
  case (5 a)
  then obtain y ys where path: "path = y # ys" by (cases path) auto
  show ?case using 5 path by (cases y) (auto simp: value_get_items_cons)
qed auto

lemma value_remove_Key:
  "value_remove p m =
     (case value_remove_items (Key (first_key p)) (rest_items p) (JObject m) of (v, removed) \<Rightarrow> (object_or_new v, removed))"
  by (auto simp: value_remove_def split: list.splits option.splits prod.splits)

lemma fst_value_remove: "fst (value_remove p m) =
    object_or_new (fst (value_remove_items (Key (first_key p)) (rest_items p) (JObject m)))"
  by (simp add: value_remove_Key split: prod.split)

lemma value_remove_items_JObject:
  "JObject (object_or_new (fst (value_remove_items x rest (JObject m)))) = fst (value_remove_items x rest (JObject m))"
  by (cases x; cases rest) (auto split: option.split prod.split)

lemma value_remove_wf: "map_wf m \<Longrightarrow> map_wf (fst (value_remove p m))"
  using value_remove_items_wf [of "JObject m"] by (simp add: fst_value_remove)

lemma value_get_unaffected_by_remove:
  assumes "\<not> is_affected_by_value_remove p path" "map_wf m"
  shows "value_get p (fst (value_remove path m)) = value_get p m"
proof -
  have get: "value_get p m = value_get_items (Key (first_key p) # rest_items p) (Some (JObject m))" for m :: "'a json_map"
    by (simp add: value_get_value_get_items value_get_items_cons)
  have "\<not> items_compatible (Key (first_key path) # rest_items path) (Key (first_key p) # rest_items p)"
    using assms(1) by (auto simp: is_affected_by_value_remove_def compatible_def split: if_splits)
  from value_get_items_unaffected_by_remove [OF this, of "JObject m"] assms(2) show ?thesis
    by (simp only: get fst_value_remove value_remove_items_JObject json_wf_JObject)
qed

section \<open>Reading back what was written\<close>

definition path_keys_only :: "json_path \<Rightarrow> bool" where
  "path_keys_only p = list_all (\<lambda>x. case x of Key _ \<Rightarrow> True | _ \<Rightarrow> False) (rest_items p)"

lemma value_get_items_set_keys:
  "list_all (\<lambda>x. case x of Key _ \<Rightarrow> True | _ \<Rightarrow> False) path \<Longrightarrow>
   value_get_items path (Some (value_set_items path dest src)) =
     [JObject (merge_map (case value_get_items path (Some dest) of [] \<Rightarrow> [] | v # _ \<Rightarrow> object_or_new v) src)]"
proof (induction path arbitrary: dest)
  case (Cons x path)
  then obtain k where "x = Key k" by (cases x) auto
  then show ?case using Cons
    by (cases path)
      (auto simp: value_get_items_cons map_of_value_set_map value_get_JNull object_or_new_def split: option.split)
qed (simp add: object_or_new_def)

lemma value_get_items_set_merged:
  "v \<in> set (value_get_items path (Some (value_set_items path dest src))) \<Longrightarrow> \<exists>old. v = JObject (merge_map old src)"
proof (induction path arbitrary: dest)
  case (Cons x path)
  then show ?case
    by (cases x)
      (auto simp: value_get_items_cons map_of_value_set_map Let_def split: if_splits)
qed auto

section \<open>What a removal returns\<close>

lemma value_remove_items_key:
  "(\<exists>k. last (x # rest) = Key k) \<Longrightarrow> json_wf v \<Longrightarrow>
   snd (value_remove_items x rest v) = value_get_items (x # rest) (Some v) \<and>
   value_get_items (x # rest) (Some (fst (value_remove_items x rest v))) = []"
proof (induction x rest v rule: value_remove_items.induct)
  case (1 k r1 rn m)
  show ?case
  proof (cases "map_of m k")
    case (Some w)
    have "json_wf w" using 1(3) Some by (auto intro: map_wf_lookup)
    then show ?thesis using 1(1)[OF Some] 1(2) Some
      by (auto simp: value_get_items_Key map_of_update case_prod_unfold)
  qed (simp add: value_get_items_Key)
next
  case (2 i r1 rn a)
  show ?case
  proof (cases "i < length a")
    case True
    have "json_wf (a ! i)" using 2(3) True by simp
    then show ?thesis using 2(1)[OF True] 2(2) True
      by (auto simp: value_get_items_Index case_prod_unfold)
  qed (simp add: value_get_items_Index)
next
  case (3 r1 rn a)
  then show ?case
    by (auto simp: value_get_items_Wildcard Let_def comp_def intro!: arg_cong [where f = concat])
next
  case (4 k m)
  then show ?case
    by (auto simp: value_get_items_Key hashmap_simps map_wf_hm_wf split: option.split)
qed auto

lemma update_same: "map_of m k = Some v \<Longrightarrow> AList.update k v m = m"
  by (induction m) (auto split: if_splits)

lemma value_remove_items_index:
  "(\<exists>i. last (x # rest) = Index i) \<Longrightarrow> value_remove_items x rest v = (v, [])"
proof (induction x rest v rule: value_remove_items.induct)
  case (3 r1 rn a)
  then have "map (value_remove_items r1 rn) a = map (\<lambda>v. (v, [])) a" by auto
  then show ?case by (simp add: Let_def comp_def concat_eq_Nil_conv del: map_eq_conv)
qed (auto simp: update_same split: option.split)

lemma value_remove_items_wildcard:
  "last (x # rest) = WildcardIndex \<Longrightarrow> json_wf v \<Longrightarrow>
   snd (value_remove_items x rest v) = filter is_array (value_get_items (butlast (x # rest)) (Some v)) \<and>
   value_get_items (x # rest) (Some (fst (value_remove_items x rest v))) = []"
proof (induction x rest v rule: value_remove_items.induct)
  case (1 k r1 rn m)
  show ?case
  proof (cases "map_of m k")
    case (Some w)
    have "json_wf w" using 1(3) Some by (auto intro: map_wf_lookup)
    then show ?thesis using 1(1)[OF Some] 1(2) Some
      by (auto simp: value_get_items_Key map_of_update case_prod_unfold)
  qed (simp add: value_get_items_Key)
next
  case (2 i r1 rn a)
  show ?case
  proof (cases "i < length a")
    case True
    have "json_wf (a ! i)" using 2(3) True by simp
    then show ?thesis using 2(1)[OF True] 2(2) True
      by (auto simp: value_get_items_Index case_prod_unfold)
  qed (simp add: value_get_items_Index)
next
  case (3 r1 rn a)
  then show ?case
    by (auto simp: value_get_items_Wildcard Let_def comp_def filter_concat intro!: arg_cong [where f = concat])
qed (auto simp: is_array_def value_get_items_Wildcard)

section \<open>Filtering\<close>

lemma run_filter_wf: "json_wf v \<Longrightarrow> json_wf (run_filter f p v)"
proof (induction f p v rule: run_filter.induct)
  case (6 f p m)
  have "hm_wf (filter (\<lambda>(k, v). f (push_item p (Key k)) v) m)"
    using 6(2) by (simp add: map_wf_hm_wf distinct_map_filter)
  moreover have "json_wf (run_filter f (push_item p (Key k)) v)" if "(k, v) \<in> set (filter (\<lambda>(k, v). f (push_item p (Key k)) v) m)" for k v
    using 6(1) [OF that refl] 6(2) that by (auto simp: map_wf_alt dest!: in_map_of [THEN iffD1, rotated])
  ultimately show ?case
    by (simp add: map_wf_def json_wf.simps(6) comp_def case_prod_beta list_all_iff del: json_wf_JObject)
qed (auto simp: Let_def)

lemma map_of_filter_map:
  "hm_wf m \<Longrightarrow>
   map_of (map (\<lambda>(k, v). (k, g k v)) (filter (\<lambda>(k, v). P k v) m)) k =
     (case map_of m k of None \<Rightarrow> None | Some v \<Rightarrow> if P k v then Some (g k v) else None)"
proof (induction m)
  case (Cons x m)
  then show ?case
    by (cases x) (auto split: option.split simp: map_of_eq_None_iff, force)
qed simp

lemma value_filter_wf: "map_wf m \<Longrightarrow> map_wf (value_filter f m)"
  by (auto simp: map_wf_alt value_filter_def map_of_filter_map distinct_map_filter comp_def case_prod_beta
      intro: run_filter_wf split: option.splits if_splits)

abbreviation path_at :: "string \<Rightarrow> path_item list \<Rightarrow> json_path" where
  "path_at k xs \<equiv> \<lparr>first_key = k, rest_items = xs\<rparr>"

lemma push_item_path_at [simp]: "push_item (path_at k xs) x = path_at k (xs @ [x])"
  by (simp add: push_item_def)

lemma map_id_on: "(\<And>x. x \<in> set xs \<Longrightarrow> f x = x) \<Longrightarrow> map f xs = xs"
  by (induction xs) auto

lemma run_filter_all:
  "(\<And>ys v. f (path_at k (xs @ ys)) v) \<Longrightarrow> run_filter f (path_at k xs) v = v"
proof (induction v arbitrary: xs)
  case (JArray a)
  then show ?case by (simp add: Let_def map_id_on)
next
  case (JObject m)
  have "filter (\<lambda>(k1, v). f (path_at k (xs @ [Key k1])) v) m = m"
    using JObject.prems by (auto simp: filter_id_conv)
  moreover have "map (\<lambda>(k1, v). (k1, run_filter f (path_at k (xs @ [Key k1])) v)) m = m"
    using JObject by (intro map_id_on) auto
  ultimately show ?case by simp
qed auto

definition no_index :: "path_item list \<Rightarrow> bool" where
  "no_index xs = list_all (\<lambda>x. case x of Index _ \<Rightarrow> False | _ \<Rightarrow> True) xs"

lemma value_get_items_run_filter:
  assumes "\<And>ys v. f (path_at k (pre @ path @ ys)) v" "\<And>ys zs v. path = ys @ zs \<Longrightarrow> f (path_at k (pre @ ys)) v"
    and "no_index path" "json_wf v"
  shows "value_get_items path (Some (run_filter f (path_at k pre) v)) = value_get_items path (Some v)"
  using assms
proof (induction path arbitrary: pre v)
  case Nil
  then show ?case by (simp add: run_filter_all)
next
  case (Cons x path)
  have all: "f (path_at k (pre @ [x])) v" for v using Cons(3) [of "[x]"] by simp
  have IH: "value_get_items path (Some (run_filter f (path_at k (pre @ [x])) w)) = value_get_items path (Some w)"
    if "json_wf w" for w
    by (rule Cons.IH) (use Cons.prems that in \<open>auto simp: no_index_def\<close>)
  show ?case
  proof (cases x)
    case (Key k1)
    then show ?thesis
    proof (cases v)
      case (JObject m)
      then have "hm_wf m" using Cons.prems(4) by (simp add: map_wf_hm_wf)
      then show ?thesis using IH all Key JObject Cons.prems(4)
        by (auto simp: value_get_items_Key map_of_filter_map map_wf_lookup split: option.split)
    qed (auto simp: value_get_items_Key Let_def)
  next
    case WildcardIndex
    then show ?thesis
    proof (cases v)
      case (JArray a)
      then have "filter (f (path_at k (pre @ [x]))) a = a" using all by (simp add: filter_id_conv)
      then show ?thesis using IH WildcardIndex JArray Cons.prems(4)
        by (auto simp: value_get_items_Wildcard Let_def intro!: arg_cong [where f = concat])
    qed (auto simp: value_get_items_Wildcard)
  qed (use Cons.prems(3) in \<open>simp add: no_index_def\<close>)
qed

lemma value_get_filter:
  assumes "map_wf m"
    and "\<And>v. map_of m k = Some v \<Longrightarrow> json_wf v \<Longrightarrow>
      (if f (path_at k []) v then value_get_items xs (Some (run_filter f (path_at k []) v)) else []) = g (Some v)"
    and "g None = []"
  shows "value_get (path_at k xs) (value_filter f m) = g (map_of m k)"
proof (cases "map_of m k")
  case None
  then show ?thesis using assms(1,3)
    by (simp add: value_get_value_get_items value_filter_def map_of_filter_map map_wf_hm_wf)
next
  case (Some v)
  have "json_wf v" by (rule map_wf_lookup [OF assms(1) Some])
  with assms(2) [OF Some this] show ?thesis using Some assms(1)
    by (simp add: value_get_value_get_items value_filter_def map_of_filter_map map_wf_hm_wf split: if_splits)
qed

lemma list_all_zip_append_same:
  "list_all (\<lambda>(a, b). a = b) (zip xs (xs @ ys))" "list_all (\<lambda>(a, b). a = b) (zip (xs @ ys) xs)"
  by (induction xs) auto

lemma check_include_pattern_extends: "check_include_pattern (path_at k xs) (path_at k (xs @ ys))"
  by (simp add: check_include_pattern_def list_all_zip_append_same)

lemma check_include_pattern_prefix: "check_include_pattern (path_at k (xs @ ys)) (path_at k xs)"
  by (simp add: check_include_pattern_def list_all_zip_append_same)

lemma value_get_filter_include:
  assumes "p \<in> set pats" "no_index (rest_items p)" "map_wf m"
  shows "value_get p (value_filter (\<lambda>key _. list_ex (\<lambda>pat. check_include_pattern pat key) pats) m) = value_get p m"
proof -
  let ?f = "\<lambda>key _. list_ex (\<lambda>pat. check_include_pattern pat key) pats"
  obtain k xs where p: "p = path_at k xs" by (cases p)
  have ext: "?f (path_at k (xs @ ys)) v" "xs = ys @ zs \<Longrightarrow> ?f (path_at k ys) v" for ys zs v
    using assms(1) p check_include_pattern_extends [of k xs ys] check_include_pattern_prefix [of k ys zs]
    by (auto simp: list_ex_iff)
  have "value_get_items xs (Some (run_filter ?f (path_at k []) v)) = value_get_items xs (Some v)" if "json_wf v" for v
    by (rule value_get_items_run_filter) (use ext assms p that in auto)
  then have "value_get (path_at k xs) (value_filter ?f m) = value_get_items xs (map_of m k)"
    using ext(2) [of "[]" xs] by (intro value_get_filter [OF assms(3)]) auto
  then show ?thesis using p by (simp add: value_get_value_get_items)
qed

text \<open>An excluded path is gone, whatever else the filter lets through.\<close>

lemma value_get_items_run_filter_excluded:
  assumes "\<And>v. \<not> f (path_at k (pre @ path)) v" "no_index path" "path \<noteq> []" "json_wf v"
  shows "value_get_items path (Some (run_filter f (path_at k pre) v)) = []"
  using assms
proof (induction path arbitrary: pre v)
  case (Cons x path)
  have IH: "value_get_items path (Some (run_filter f (path_at k (pre @ [x])) w)) = []" if "path \<noteq> []" "json_wf w" for w
    by (rule Cons.IH) (use Cons.prems that in \<open>auto simp: no_index_def\<close>)
  have last: "\<not> f (path_at k (pre @ [x])) w" if "path = []" for w using Cons.prems(1) that by simp
  show ?case
  proof (cases x)
    case (Key k1)
    then show ?thesis
    proof (cases v)
      case (JObject m)
      then have "hm_wf m" using Cons.prems(4) by (simp add: map_wf_hm_wf)
      then show ?thesis using IH last Key JObject Cons.prems(4)
        by (cases "path = []") (auto simp: value_get_items_Key map_of_filter_map map_wf_lookup split: option.split)
    qed (auto simp: value_get_items_Key Let_def)
  next
    case WildcardIndex
    then show ?thesis
    proof (cases v)
      case (JArray a)
      then show ?thesis using IH last WildcardIndex Cons.prems(4)
        by (cases "path = []") (auto simp: value_get_items_Wildcard Let_def)
    qed (auto simp: value_get_items_Wildcard)
  qed (use Cons.prems(2) in \<open>simp add: no_index_def\<close>)
qed simp

lemma value_get_filter_exclude:
  assumes "p \<in> set pats" "no_index (rest_items p)" "map_wf m"
  shows "value_get p (value_filter (\<lambda>key _. list_all (\<lambda>pat. \<not> check_exclude_pattern pat key) pats) m) = []"
proof -
  let ?f = "\<lambda>key _. list_all (\<lambda>pat. \<not> check_exclude_pattern pat key) pats"
  obtain k xs where p: "p = path_at k xs" by (cases p)
  have "check_exclude_pattern p p" by (simp add: check_exclude_pattern_def)
  then have ex: "\<not> ?f (path_at k xs) v" for v using assms(1) p by (auto simp: list_all_iff)
  have "value_get_items xs (Some (run_filter ?f (path_at k []) v)) = []" if "json_wf v" "xs \<noteq> []" for v
    by (rule value_get_items_run_filter_excluded) (use ex assms p that in auto)
  then have "value_get (path_at k xs) (value_filter ?f m) = (\<lambda>_. []) (map_of m k)"
    using ex by (intro value_get_filter [OF assms(3)]) (cases "xs = []"; auto)+
  then show ?thesis using p by simp
qed

text \<open>A value that is neither below nor above an excluded pattern comes through unchanged.\<close>

lemma value_get_filter_exclude_other:
  assumes "\<And>pat. pat \<in> set pats \<Longrightarrow> \<not> check_include_pattern p pat" "no_index (rest_items p)" "map_wf m"
  shows "value_get p (value_filter (\<lambda>key _. list_all (\<lambda>pat. \<not> check_exclude_pattern pat key) pats) m) = value_get p m"
proof -
  let ?f = "\<lambda>key _. list_all (\<lambda>pat. \<not> check_exclude_pattern pat key) pats"
  obtain k xs where p: "p = path_at k xs" by (cases p)
  have no: "\<not> check_exclude_pattern pat (path_at k ys)" if "pat \<in> set pats" "ys = xs @ zs \<or> xs = ys @ zs" for pat ys zs
  proof
    assume "check_exclude_pattern pat (path_at k ys)"
    then obtain us where us: "pat = path_at k (rest_items pat)" "ys = rest_items pat @ us"
      by (cases pat) (metis check_exclude_pattern_def append_take_drop_id json_path.select_convs)
    have "list_all (\<lambda>(a, b). a = b) (zip xs (rest_items pat))"
      using that(2) us(2) list_all_zip_append_same by (auto simp: append_eq_append_conv2)
    then show False using assms(1) [OF that(1)] us(1) p by (cases pat) (auto simp: check_include_pattern_def)
  qed
  have "value_get_items xs (Some (run_filter ?f (path_at k []) v)) = value_get_items xs (Some v)" if "json_wf v" for v
    by (rule value_get_items_run_filter) (use no assms p that in \<open>auto simp: list_all_iff\<close>)
  then have "value_get (path_at k xs) (value_filter ?f m) = value_get_items xs (map_of m k)"
    using no [of _ "[]" xs] by (intro value_get_filter [OF assms(3)]) (auto simp: list_all_iff)
  then show ?thesis using p by (simp add: value_get_value_get_items)
qed

section \<open>Properties\<close>

lemma value_remove_nothing: "json_wf v \<Longrightarrow> snd (value_remove_items x rest v) = [] \<Longrightarrow> fst (value_remove_items x rest v) = v"
proof (induction x rest v rule: value_remove_items.induct)
  case (1 k r1 rn m)
  then show ?case
    by (cases "map_of m k") (auto simp: case_prod_unfold update_same map_wf_lookup)
next
  case (2 i r1 rn a)
  then show ?case by (auto simp: case_prod_unfold)
next
  case (3 r1 rn a)
  then show ?case by (auto simp: Let_def comp_def intro!: map_id_on)
qed (auto split: option.splits)

lemma value_remove_unchanged: "map_wf m \<Longrightarrow> snd (value_remove p m) = [] \<Longrightarrow> fst (value_remove p m) = m"
  using value_remove_nothing [of "JObject m" "Key (first_key p)" "rest_items p"]
  by (auto simp: value_remove_Key split: prod.splits)

definition demo_map :: "nat json_map" where
  "demo_map = [(''a'', JArray [JObject [(''b'', JNumber 1), (''c'', JNumber 2)], JNull]), (''d'', JBool True)]"

definition demo_path :: "json_path" where
  "demo_path = \<lparr>first_key = ''a'', rest_items = [WildcardIndex, Key ''b'']\<rparr>"

text \<open>C14: The indexes may skip what they skip: when a field path is not reported as affected by a write of a payload
  under a path, or by a removal, it reads the same values before and after, for paths with keys, indices and
  wildcards, whatever the types of the values on the way.\<close>

theorem index_skip_is_sound:
  assumes "map_wf m" "map_wf payload"
  shows "(\<not> is_affected_by_value_set field payload key \<longrightarrow> value_get field (value_set key m payload) = value_get field m) \<and>
    (\<not> is_affected_by_value_remove field removed \<longrightarrow> value_get field (fst (value_remove removed m)) = value_get field m)"
  using value_get_unaffected_by_set [OF _ assms] value_get_unaffected_by_remove [OF _ assms(1)] by blast

theorem index_skip_is_sound_witness:
  "value_get demo_path (value_set (Some (path_at ''a'' [Index 0, Key ''c''])) demo_map [(''x'', JNull)]) = [JNumber 1] \<and>
   value_get demo_path (fst (value_remove (path_at ''a'' [WildcardIndex, Key ''c'']) demo_map)) = [JNumber 1]"
proof -
  let ?key = "Some (path_at ''a'' [Index 0, Key ''c''])" and ?rem = "path_at ''a'' [WildcardIndex, Key ''c'']"
  have "map_wf demo_map" "map_wf [(''x'', JNull :: nat json)]" by code_simp+
  note t = index_skip_is_sound [OF this, of demo_path ?key ?rem]
  have "\<not> is_affected_by_value_set demo_path [(''x'', JNull :: nat json)] ?key"
    "\<not> is_affected_by_value_remove demo_path ?rem" "value_get demo_path demo_map = [JNumber 1]" by code_simp+
  then show ?thesis using t by simp
qed

text \<open>C37: Writing under a path and reading it back: along keys exactly one value is found, the old object (or a new one)
  merged with the payload; along any path every value found is an object the payload has been merged into. In a
  merged object a null of the payload has removed its key and any other value has replaced what was there.\<close>

theorem value_set_functional:
  assumes "map_wf m" "map_wf payload"
  shows "(list_all (\<lambda>x. case x of Key _ \<Rightarrow> True | _ \<Rightarrow> False) (rest_items p) \<longrightarrow>
      value_get p (value_set (Some p) m payload) =
        [JObject (merge_map (case value_get p m of [] \<Rightarrow> [] | v # _ \<Rightarrow> object_or_new v) payload)]) \<and>
    (\<forall>v \<in> set (value_get p (value_set (Some p) m payload)). \<exists>old. v = JObject (merge_map old payload)) \<and>
    map_of (value_set None m payload) k =
      (case map_of payload k of None \<Rightarrow> map_of m k | Some JNull \<Rightarrow> None | Some v \<Rightarrow> Some v)"
proof -
  have get: "value_get p m = value_get_items (Key (first_key p) # rest_items p) (Some (JObject m))" for m :: "'a json_map"
    by (simp add: value_get_value_get_items value_get_items_cons)
  have set: "JObject (value_set (Some p) m payload) = value_set_items (Key (first_key p) # rest_items p) (JObject m) payload"
    by (simp add: value_set_def)
  have 1: "list_all (\<lambda>x. case x of Key _ \<Rightarrow> True | _ \<Rightarrow> False) (rest_items p) \<longrightarrow>
      value_get p (value_set (Some p) m payload) =
        [JObject (merge_map (case value_get p m of [] \<Rightarrow> [] | v # _ \<Rightarrow> object_or_new v) payload)]"
    unfolding get set by (intro impI value_get_items_set_keys) simp
  have 2: "\<forall>v \<in> set (value_get p (value_set (Some p) m payload)). \<exists>old. v = JObject (merge_map old payload)"
    unfolding get set using value_get_items_set_merged by blast
  have 3: "map_of (value_set None m payload) k =
      (case map_of payload k of None \<Rightarrow> map_of m k | Some JNull \<Rightarrow> None | Some v \<Rightarrow> Some v)"
    using assms by (simp add: value_set_def map_of_merge_map map_wf_hm_wf)
  show ?thesis using 1 2 3 by blast
qed

theorem value_set_functional_witness:
  "value_get (path_at ''d'' [Key ''e'']) (value_set (Some (path_at ''d'' [Key ''e''])) demo_map [(''x'', JBool False)]) =
     [JObject [(''x'', JBool False)]]"
proof -
  have "map_wf demo_map" "map_wf [(''x'', JBool False :: nat json)]" by code_simp+
  note t = value_set_functional [OF this, of "path_at ''d'' [Key ''e'']"]
  have "value_get (path_at ''d'' [Key ''e'']) demo_map = []" by code_simp
  then show ?thesis using t by simp
qed

lemma value_remove_last:
  assumes "map_wf m"
  shows "case last (Key (first_key p) # rest_items p) of
        Key _ \<Rightarrow> snd (value_remove p m) = value_get p m \<and> value_get p (fst (value_remove p m)) = []
      | WildcardIndex \<Rightarrow>
          snd (value_remove p m) = filter is_array (value_get (strip_wildcard_suffix p) m) \<and>
          value_get p (fst (value_remove p m)) = []
      | Index _ \<Rightarrow> value_remove p m = (m, [])"
proof -
  let ?x = "Key (first_key p)" and ?r = "rest_items p"
  have get: "value_get p m = value_get_items (Key (first_key p) # rest_items p) (Some (JObject m))" for p and m :: "'a json_map"
    by (simp add: value_get_value_get_items value_get_items_cons)
  have wf: "json_wf (JObject m)" using assms by simp
  have snd: "snd (value_remove p m) = snd (value_remove_items ?x ?r (JObject m))"
    and fst: "JObject (fst (value_remove p m)) = fst (value_remove_items ?x ?r (JObject m))"
    by (simp_all add: fst_value_remove value_remove_items_JObject) (simp add: value_remove_Key split: prod.split)
  show ?thesis
  proof (cases "last (?x # ?r)")
    case (Key k)
    then show ?thesis using value_remove_items_key [OF _ wf, of ?x ?r] by (simp add: get snd fst)
  next
    case (Index i)
    then show ?thesis using value_remove_items_index [of ?x ?r "JObject m"] by (simp add: value_remove_Key)
  next
    case WildcardIndex
    then have "?r \<noteq> []" "last ?r = WildcardIndex" by (auto split: if_splits)
    then have "value_get (strip_wildcard_suffix p) m = value_get_items (butlast (?x # ?r)) (Some (JObject m))"
      by (simp add: get strip_wildcard_suffix_def)
    then show ?thesis using value_remove_items_wildcard [OF WildcardIndex wf] WildcardIndex by (simp add: get snd fst)
  qed
qed

text \<open>What a removal returns and leaves. A path that ends in a key returns what it read before and reads nothing
  afterwards; one that ends in a wildcard returns the arrays it empties; one that ends in an index removes nothing.
  A removal that returns nothing has changed nothing.\<close>

lemma value_remove_functional:
  assumes "map_wf m"
  shows "(case last (Key (first_key p) # rest_items p) of
        Key _ \<Rightarrow> snd (value_remove p m) = value_get p m \<and> value_get p (fst (value_remove p m)) = []
      | WildcardIndex \<Rightarrow>
          snd (value_remove p m) = filter is_array (value_get (strip_wildcard_suffix p) m) \<and>
          value_get p (fst (value_remove p m)) = []
      | Index _ \<Rightarrow> value_remove p m = (m, [])) \<and>
    (snd (value_remove p m) = [] \<longrightarrow> fst (value_remove p m) = m)"
  using value_remove_last [OF assms] value_remove_unchanged [OF assms] by blast



text \<open>What a payload selector answers at a path without indices: everything that was there, if the path is included or
  is neither above nor below an excluded path, and nothing, if it is excluded.\<close>

lemma payload_selector_functional:
  assumes "map_wf m" "no_index (rest_items p)"
  shows "(p \<in> set pats \<longrightarrow> value_get p (selector_process (Include pats) m) = value_get p m) \<and>
    (p \<in> set pats \<longrightarrow> value_get p (selector_process (Exclude pats) m) = []) \<and>
    ((\<forall>pat \<in> set pats. \<not> check_include_pattern p pat) \<longrightarrow> value_get p (selector_process (Exclude pats) m) = value_get p m)"
  using value_get_filter_include [OF _ assms(2,1)] value_get_filter_exclude [OF _ assms(2,1)]
    value_get_filter_exclude_other [OF _ assms(2,1)]
  by (simp add: selector_process_def)

text \<open>An included path with an index answers no element of the array: the filter walks arrays with wildcards only.\<close>

lemma include_index_answers_nothing:
  "value_get (path_at ''a'' [Index 0, Key ''b'']) demo_map = [JNumber 1] \<and>
   value_get (path_at ''a'' [Index 0, Key ''b'']) (selector_process (Include [path_at ''a'' [Index 0, Key ''b'']]) demo_map) = []"
  by code_simp

end
