(* ===== verification/ConsensusState.thy ===== *)
theory ConsensusState
  imports JsonPath
begin

text \<open>
  \<open>content_manager/consensus/persistent.rs\<close> and \<open>entry_queue.rs\<close>: what a peer keeps of the Raft consensus between
  restarts. The state file holds the serialized fields; it is replaced atomically, and a save can fail: the
  outcomes of the saves to come are a field of the state (\<open>save_outcomes\<close>, an empty list stands for success).
  Addresses and the metadata of a peer are type parameters. Legacy CBOR files are read like the JSON ones.
\<close>

section \<open>Errors (\<open>errors.rs\<close>)\<close>

text \<open>\<open>StorageError\<close> without the descriptions.\<close>

datatype toc_error =
    BadInput
  | AlreadyExists
  | NotFound
  | ServiceError
  | BadRequest
  | Locked
  | TimedOut
  | ChecksumMismatch
  | Forbidden
  | PreconditionFailed
  | InferenceError
  | RateLimitExceeded
  | ShardUnavailable
  | EmptyPartialSnapshot

section \<open>The queue of entries to apply (\<open>entry_queue.rs\<close>)\<close>

type_synonym entry_queue = "(nat \<times> nat) option"

definition queue_new :: "nat \<Rightarrow> nat \<Rightarrow> entry_queue" where "queue_new first_id last_id = Some (first_id, last_id)"

definition queue_current :: "entry_queue \<Rightarrow> nat option" where
  "queue_current q =
     (case q of Some (current_index, last_index) \<Rightarrow> if last_index < current_index then None else Some current_index
      | None \<Rightarrow> None)"

definition queue_applied :: "entry_queue \<Rightarrow> entry_queue" where
  "queue_applied q = (case q of Some (current_index, last_index) \<Rightarrow> Some (current_index + 1, last_index) | None \<Rightarrow> None)"

definition get_last_applied :: "entry_queue \<Rightarrow> nat option" where
  "get_last_applied q =
     (case q of Some (current, _) \<Rightarrow> if current = 0 then None else Some (current - 1) | None \<Rightarrow> None)"

definition set_from_snapshot :: "nat \<Rightarrow> entry_queue" where
  "set_from_snapshot snapshot_at_commit = Some (snapshot_at_commit + 1, snapshot_at_commit)"

text \<open>The length is computed in \<open>isize\<close> and cast to \<open>usize\<close>: it wraps when the queue is past its end.\<close>

definition queue_len :: "entry_queue \<Rightarrow> nat" where
  "queue_len q =
     (case q of None \<Rightarrow> 0 | Some (current, last_id) \<Rightarrow> nat ((int last_id - int current + 1) mod 2 ^ 64))"

definition queue_is_empty :: "entry_queue \<Rightarrow> bool" where "queue_is_empty q = (queue_len q = 0)"

lemmas queue_defs = queue_new_def queue_current_def queue_applied_def get_last_applied_def set_from_snapshot_def

lemma queue_len_current:
  assumes "q = Some (current, last_id)" "current \<le> last_id + 1" "last_id < 2 ^ 63"
  shows "queue_len q = length [current..<Suc last_id]" "queue_is_empty q \<longleftrightarrow> queue_current q = None"
proof -
  have "(int last_id - int current + 1) mod 2 ^ 64 = int last_id - int current + 1"
    using assms(2,3) by (intro mod_pos_pos_trivial) auto
  then show l: "queue_len q = length [current..<Suc last_id]" using assms(1,2) by (auto simp: queue_len_def nat_eq_iff)
  show "queue_is_empty q \<longleftrightarrow> queue_current q = None"
    using l assms(1,2) by (auto simp: queue_is_empty_def queue_current_def)
qed

section \<open>The state\<close>

text \<open>\<open>HardState\<close> and \<open>ConfState\<close> are messages of the \<open>raft\<close> crate; their fields are those the code serializes.\<close>

record hard_state =
  hs_term :: nat
  hs_vote :: nat
  hs_commit :: nat

record conf_state =
  voters :: "nat list"
  learners :: "nat list"
  voters_outgoing :: "nat list"
  learners_next :: "nat list"
  auto_leave :: bool

record raft_state =
  rs_hard :: hard_state
  rs_conf :: conf_state

record snapshot_meta =
  sm_term :: nat
  sm_index :: nat

text \<open>The serialized fields of \<open>Persistent\<close>.\<close>

record ('a, 'm, 'n) persistent_data =
  p_state :: raft_state
  latest_snapshot_meta :: snapshot_meta
  apply_progress_queue :: entry_queue
  first_voter :: "nat option"
  peer_address_by_id :: "(nat, 'a) hashmap"
  peer_metadata_by_id :: "(nat, 'm) hashmap"
  cluster_metadata :: "'n json_map"
  this_peer_id :: nat

datatype 'd state_file = NoFile | Unreadable | Holds 'd

record ('a, 'm, 'n) persistent = "('a, 'm, 'n) persistent_data" +
  p_file :: "('a, 'm, 'n) persistent_data state_file"
  dirty :: bool
  save_outcomes :: "bool list"

abbreviation p_data :: "('a, 'm, 'n) persistent \<Rightarrow> ('a, 'm, 'n) persistent_data" where
  "p_data p \<equiv> persistent_data.truncate p"

section \<open>Saving\<close>

definition p_save :: "('a, 'm, 'n) persistent \<Rightarrow> ('a, 'm, 'n) persistent \<times> (toc_error, unit) result" where
  "p_save p =
     (let ok = (case save_outcomes p of [] \<Rightarrow> True | b # _ \<Rightarrow> b)
      in (p\<lparr>p_file := (if ok then Holds (p_data p) else p_file p), dirty := \<not> ok, save_outcomes := tl (save_outcomes p)\<rparr>,
          if ok then Inr () else Inl ServiceError))"

definition save_if_dirty :: "('a, 'm, 'n) persistent \<Rightarrow> ('a, 'm, 'n) persistent \<times> (toc_error, unit) result" where
  "save_if_dirty p = (if dirty p then p_save p else (p, Inr ()))"

section \<open>Updates\<close>

text \<open>The metadata of a snapshot of Raft carries the configuration, the term and the index.\<close>

definition update_from_snapshot ::
  "('a, 'm, 'n) persistent \<Rightarrow> conf_state \<Rightarrow> nat \<Rightarrow> nat \<Rightarrow> (nat, 'a) hashmap \<Rightarrow> (nat, 'm) hashmap \<Rightarrow> 'n json_map \<Rightarrow>
   ('a, 'm, 'n) persistent \<times> (toc_error, unit) result" where
  "update_from_snapshot p meta_conf_state meta_term meta_index address_by_id metadata_by_id new_cluster_metadata =
     p_save (p\<lparr>
       p_state := \<lparr>rs_hard = (rs_hard (p_state p))\<lparr>hs_term := max (hs_term (rs_hard (p_state p))) meta_term, hs_commit := meta_index\<rparr>,
                   rs_conf = meta_conf_state\<rparr>,
       apply_progress_queue := set_from_snapshot meta_index,
       latest_snapshot_meta := \<lparr>sm_term = meta_term, sm_index = meta_index\<rparr>,
       peer_address_by_id := address_by_id,
       peer_metadata_by_id := filter (\<lambda>(peer_id, _). map_of address_by_id peer_id \<noteq> None) metadata_by_id,
       cluster_metadata := new_cluster_metadata\<rparr>)"

definition unapplied_entities_count :: "('a, 'm, 'n) persistent \<Rightarrow> nat" where
  "unapplied_entities_count p = queue_len (apply_progress_queue p)"

definition apply_state_update ::
  "(raft_state \<Rightarrow> raft_state) \<Rightarrow> ('a, 'm, 'n) persistent \<Rightarrow> ('a, 'm, 'n) persistent \<times> (toc_error, unit) result" where
  "apply_state_update update p = p_save (p\<lparr>p_state := update (p_state p)\<rparr>)"

definition current_unapplied_entry :: "('a, 'm, 'n) persistent \<Rightarrow> nat option" where
  "current_unapplied_entry p = queue_current (apply_progress_queue p)"

definition entry_applied :: "('a, 'm, 'n) persistent \<Rightarrow> ('a, 'm, 'n) persistent \<times> (toc_error, unit) result" where
  "entry_applied p = p_save (p\<lparr>apply_progress_queue := queue_applied (apply_progress_queue p)\<rparr>)"

definition set_unapplied_entries ::
  "nat \<Rightarrow> nat \<Rightarrow> ('a, 'm, 'n) persistent \<Rightarrow> ('a, 'm, 'n) persistent \<times> (toc_error, unit) result" where
  "set_unapplied_entries first_index last_index p = p_save (p\<lparr>apply_progress_queue := queue_new first_index last_index\<rparr>)"

definition set_peer_address_by_id ::
  "(nat, 'a) hashmap \<Rightarrow> ('a, 'm, 'n) persistent \<Rightarrow> ('a, 'm, 'n) persistent \<times> (toc_error, unit) result" where
  "set_peer_address_by_id addresses p = p_save (p\<lparr>peer_address_by_id := addresses\<rparr>)"

definition insert_peer :: "nat \<Rightarrow> 'a \<Rightarrow> ('a, 'm, 'n) persistent \<Rightarrow> ('a, 'm, 'n) persistent \<times> (toc_error, unit) result" where
  "insert_peer peer_id address p = p_save (p\<lparr>peer_address_by_id := AList.update peer_id address (peer_address_by_id p)\<rparr>)"

definition update_peer_metadata ::
  "nat \<Rightarrow> 'm \<Rightarrow> ('a, 'm, 'n) persistent \<Rightarrow> ('a, 'm, 'n) persistent \<times> (toc_error, unit) result" where
  "update_peer_metadata peer_id metadata p =
     p_save (p\<lparr>peer_metadata_by_id := AList.update peer_id metadata (peer_metadata_by_id p)\<rparr>)"

definition get_cluster_metadata_key :: "string \<Rightarrow> ('a, 'm, 'n) persistent \<Rightarrow> 'n json" where
  "get_cluster_metadata_key key p = (case map_of (cluster_metadata p) key of Some v \<Rightarrow> v | None \<Rightarrow> JNull)"

text \<open>Null removes the key. The change is not saved here.\<close>

definition update_cluster_metadata_key :: "string \<Rightarrow> 'n json \<Rightarrow> ('a, 'm, 'n) persistent \<Rightarrow> ('a, 'm, 'n) persistent" where
  "update_cluster_metadata_key key val p =
     (if val \<noteq> JNull then p\<lparr>cluster_metadata := AList.update key val (cluster_metadata p)\<rparr>
      else p\<lparr>cluster_metadata := AList.delete key (cluster_metadata p)\<rparr>)"

definition last_applied_entry :: "('a, 'm, 'n) persistent \<Rightarrow> nat option" where
  "last_applied_entry p = get_last_applied (apply_progress_queue p)"

definition applied_commit_term :: "('a, 'm, 'n) persistent \<Rightarrow> nat \<times> nat" where
  "applied_commit_term p =
     (case last_applied_entry p of Some i \<Rightarrow> i | None \<Rightarrow> 0, hs_term (rs_hard (p_state p)))"

definition set_first_voter_id :: "nat \<Rightarrow> ('a, 'm, 'n) persistent \<Rightarrow> ('a, 'm, 'n) persistent \<times> (toc_error, unit) result" where
  "set_first_voter_id peer_id p = p_save (p\<lparr>first_voter := Some peer_id\<rparr>)"

definition is_our_metadata_outdated :: "('m \<Rightarrow> bool) \<Rightarrow> ('a, 'm, 'n) persistent \<Rightarrow> bool" where
  "is_our_metadata_outdated is_different_version p =
     (case map_of (peer_metadata_by_id p) (this_peer_id p) of None \<Rightarrow> True | Some metadata \<Rightarrow> is_different_version metadata)"

section \<open>Loading\<close>

text \<open>A new peer draws a random id of at most 53 bits unless it is given one.\<close>

definition p_init ::
  "('a, 'm, 'n) persistent_data state_file \<Rightarrow> bool list \<Rightarrow> bool \<Rightarrow> nat option \<Rightarrow> nat \<Rightarrow> (toc_error, ('a, 'm, 'n) persistent) result" where
  "p_init file outcomes first_peer peer_id random =
     (let this = (case peer_id of Some i \<Rightarrow> i | None \<Rightarrow> random mod 2 ^ 53 + 1);
          state = \<lparr>p_state = \<lparr>rs_hard = \<lparr>hs_term = 0, hs_vote = 0, hs_commit = 0\<rparr>,
                              rs_conf = \<lparr>voters = (if first_peer then [this] else []), learners = [], voters_outgoing = [],
                                         learners_next = [], auto_leave = False\<rparr>\<rparr>,
                   latest_snapshot_meta = \<lparr>sm_term = 0, sm_index = 0\<rparr>, apply_progress_queue = None,
                   first_voter = (if first_peer then Some this else None), peer_address_by_id = [],
                   peer_metadata_by_id = [], cluster_metadata = [], this_peer_id = this,
                   p_file = file, dirty = False, save_outcomes = outcomes\<rparr>
      in case p_save state of (_, Inl e) \<Rightarrow> Inl e | (s, Inr _) \<Rightarrow> Inr s)"

text \<open>Reading a file gives a clean state; the two formats differ in their syntax only.\<close>

definition p_load ::
  "('a, 'm, 'n) persistent_data state_file \<Rightarrow> ('a, 'm, 'n) persistent_data state_file \<Rightarrow> bool list \<Rightarrow>
   (toc_error, ('a, 'm, 'n) persistent) result" where
  "p_load file json_file outcomes =
     (case file of
        Holds d \<Rightarrow> Inr (persistent_data.extend d (persistent.fields json_file False outcomes))
      | _ \<Rightarrow> Inl ServiceError)"

definition remove_unknown_peer_metadata ::
  "('a, 'm, 'n) persistent \<Rightarrow> ('a, 'm, 'n) persistent \<times> (toc_error, unit) result" where
  "remove_unknown_peer_metadata p =
     (let known = filter (\<lambda>(peer_id, _). map_of (peer_address_by_id p) peer_id \<noteq> None) (peer_metadata_by_id p);
          p1 = p\<lparr>peer_metadata_by_id := known\<rparr>
      in if length known \<noteq> length (peer_metadata_by_id p) then p_save p1 else (p1, Inr ()))"

definition ok_state :: "('a, 'm, 'n) persistent \<times> (toc_error, unit) result \<Rightarrow> (toc_error, ('a, 'm, 'n) persistent) result" where
  "ok_state r = (case r of (_, Inl e) \<Rightarrow> Inl e | (p, Inr _) \<Rightarrow> Inr p)"

definition load_or_init ::
  "('a, 'm, 'n) persistent_data state_file \<Rightarrow> ('a, 'm, 'n) persistent_data state_file \<Rightarrow> bool list \<Rightarrow>
   bool \<Rightarrow> bool \<Rightarrow> nat option \<Rightarrow> nat \<Rightarrow> (toc_error, ('a, 'm, 'n) persistent) result" where
  "load_or_init json_file legacy_file outcomes first_peer reinit peer_id random =
     and_then (if json_file \<noteq> NoFile then p_load json_file json_file outcomes
               else if legacy_file \<noteq> NoFile
               then and_then (p_load legacy_file json_file outcomes) (\<lambda>state. ok_state (p_save state))
               else p_init json_file outcomes first_peer peer_id random) (\<lambda>state.
     and_then (if reinit
               then if first_peer
                    then ok_state (p_save (state\<lparr>p_state :=
                           \<lparr>rs_hard = (rs_hard (p_state state))\<lparr>hs_vote := this_peer_id state\<rparr>,
                            rs_conf = (rs_conf (p_state state))\<lparr>voters := [this_peer_id state], learners := []\<rparr>\<rparr>\<rparr>))
                    else p_init (p_file state) (save_outcomes state) first_peer (Some (this_peer_id state)) random
               else Inr state) (\<lambda>state. ok_state (remove_unknown_peer_metadata state)))"

section \<open>What the files hold\<close>

text \<open>A peer has restarted from its file when it is clean and holds what the file holds.\<close>

definition saved_as :: "('a, 'm, 'n) persistent \<Rightarrow> ('a, 'm, 'n) persistent_data \<Rightarrow> bool" where
  "saved_as p d \<longleftrightarrow> p_file p = Holds d"

definition restarted :: "('a, 'm, 'n) persistent \<Rightarrow> bool list \<Rightarrow> ('a, 'm, 'n) persistent \<Rightarrow> bool" where
  "restarted p outcomes q \<longleftrightarrow> p_load (p_file p) (p_file p) outcomes = Inr q"

lemma p_data_simps [simp]:
  "p_state (p_data p) = p_state p" "latest_snapshot_meta (p_data p) = latest_snapshot_meta p"
  "apply_progress_queue (p_data p) = apply_progress_queue p" "first_voter (p_data p) = first_voter p"
  "peer_address_by_id (p_data p) = peer_address_by_id p" "peer_metadata_by_id (p_data p) = peer_metadata_by_id p"
  "cluster_metadata (p_data p) = cluster_metadata p" "this_peer_id (p_data p) = this_peer_id p"
  by (simp_all add: persistent_data.defs)

lemma p_data_env [simp]:
  "p_data (p\<lparr>p_file := f\<rparr>) = p_data p" "p_data (p\<lparr>dirty := b\<rparr>) = p_data p" "p_data (p\<lparr>save_outcomes := os\<rparr>) = p_data p"
  by (simp_all add: persistent_data.defs)

lemma p_save_data [simp]: "p_data (fst (p_save p)) = p_data p"
  by (simp add: p_save_def Let_def persistent_data.defs)

lemma p_save_cases:
  obtains (saved) "p_save p = (p\<lparr>p_file := Holds (p_data p), dirty := False, save_outcomes := tl (save_outcomes p)\<rparr>, Inr ())"
  | (failed) "save_outcomes p \<noteq> []" "\<not> hd (save_outcomes p)"
      "p_save p = (p\<lparr>dirty := True, save_outcomes := tl (save_outcomes p)\<rparr>, Inl ServiceError)"
proof (cases "save_outcomes p")
  case Nil
  then show thesis by (intro saved) (simp add: p_save_def)
next
  case (Cons b bs)
  show thesis
  proof (cases b)
    case True
    with Cons show thesis by (intro saved) (simp add: p_save_def)
  next
    case False
    with Cons show thesis by (intro failed) (simp_all add: p_save_def)
  qed
qed

lemma p_save_ok: "save_outcomes p = [] \<Longrightarrow>
    p_save p = (p\<lparr>p_file := Holds (p_data p), dirty := False\<rparr>, Inr ())"
  by (simp add: p_save_def)

lemma p_load_data: "p_load (Holds d) f os = Inr p \<longleftrightarrow>
    p_data p = d \<and> p_file p = f \<and> \<not> dirty p \<and> save_outcomes p = os"
  by (cases p) (auto simp: p_load_def persistent_data.defs persistent.defs)

lemma load_after_save:
  assumes "p_save p = (q, Inr ())"
  shows "p_load (p_file q) (p_file q) os = Inr (q\<lparr>save_outcomes := os\<rparr>)"
  using assms by (cases p rule: p_save_cases) (auto simp: p_load_data persistent_data.defs)

end
