(* ===== verification/Bytes.thy ===== *)
theory Bytes
  imports Prelude
begin

text \<open>
  Byte buffers: reading and overwriting a range of a buffer (a mapped file) and the
  little-endian integers the storage formats use. A write past the end of the buffer is
  excluded by the callers' capacity checks.
\<close>

section \<open>Ranges of a buffer\<close>

text \<open>\<open>slice m a b\<close> is \<open>&m[a..b]\<close>; \<open>blit off bs m\<close> copies \<open>bs\<close> over \<open>m[off..]\<close>.\<close>

definition slice :: "'a list \<Rightarrow> nat \<Rightarrow> nat \<Rightarrow> 'a list" where
  "slice m a b = take (b - a) (drop a m)"

definition blit :: "nat \<Rightarrow> 'a list \<Rightarrow> 'a list \<Rightarrow> 'a list" where
  "blit off bs m = take off m @ bs @ drop (off + length bs) m"

lemma length_slice [simp]: "b \<le> length m \<Longrightarrow> length (slice m a b) = b - a"
  by (simp add: slice_def)

lemma length_blit [simp]: "off + length bs \<le> length m \<Longrightarrow> length (blit off bs m) = length m"
  by (simp add: blit_def)

lemma blit_Nil [simp]: "blit off [] m = m"
  by (simp add: blit_def)

lemma take_blit [simp]: "k \<le> off \<Longrightarrow> off \<le> length m \<Longrightarrow> take k (blit off bs m) = take k m"
  by (simp add: blit_def)

lemma take_eq_le: "take n m = take n m' \<Longrightarrow> k \<le> n \<Longrightarrow> take k m = take k m'"
  by (metis min.absorb1 take_take)

lemma slice_eq_drop_take: "slice m a b = drop a (take b m)"
  by (simp add: slice_def drop_take)

lemma slice_take_eq:
  assumes "take k m = take k m'" "b \<le> k"
  shows "slice m a b = slice m' a b"
proof -
  from assms have "take b m = take b m'" by (metis min.absorb1 take_take)
  then show ?thesis by (simp add: slice_eq_drop_take)
qed

lemma slice_blit_before [simp]:
  "b \<le> off \<Longrightarrow> off \<le> length m \<Longrightarrow> slice (blit off bs m) a b = slice m a b"
  by (rule slice_take_eq [where k = off]) simp_all

lemma slice_blit_inside:
  "off + length bs \<le> length m \<Longrightarrow> a + n \<le> length bs \<Longrightarrow>
    slice (blit off bs m) (off + a) (off + a + n) = take n (drop a bs)"
  by (simp add: slice_def blit_def)

lemma blit_blit_adjacent:
  assumes "off + length bs + length cs \<le> length m"
  shows "blit (off + length bs) cs (blit off bs m) = blit off (bs @ cs) m"
  using assms by (simp add: blit_def ac_simps)

lemma slice_append_left: "b \<le> length m \<Longrightarrow> slice (m @ z) a b = slice m a b"
  by (rule slice_take_eq [where k = "length m"]) simp_all

section \<open>Little-endian integers\<close>

fun le_bytes :: "nat \<Rightarrow> nat \<Rightarrow> u8 list" where
  "le_bytes 0 v = []"
| "le_bytes (Suc n) v = of_nat (v mod 256) # le_bytes n (v div 256)"

fun le_value :: "u8 list \<Rightarrow> nat" where
  "le_value [] = 0"
| "le_value (b # bs) = unat b + 256 * le_value bs"

lemma length_le_bytes [simp]: "length (le_bytes n v) = n"
  by (induction n arbitrary: v) auto

lemma le_value_le_bytes: "v < 256 ^ n \<Longrightarrow> le_value (le_bytes n v) = v"
proof (induction n arbitrary: v)
  case 0
  then show ?case by simp
next
  case (Suc n)
  have "v div 256 < 256 ^ n"
    using Suc.prems by (simp add: less_mult_imp_div_less mult.commute)
  moreover have "unat (of_nat (v mod 256) :: u8) = v mod 256"
    by (simp add: unat_of_nat)
  ultimately show ?case using Suc.IH by simp
qed

lemma le_value_bound: "le_value bs < 256 ^ length bs"
proof (induction bs)
  case Nil
  then show ?case by simp
next
  case (Cons b bs)
  have "unat b < 256" using unsigned_less [of b, where ?'a = nat] by simp
  with Cons show ?case by simp
qed

section \<open>Reversing the bits of a word\<close>

text \<open>\<open>u32::reverse_bits\<close>.\<close>

definition reverse_bits :: "u32 \<Rightarrow> u32" where
  "reverse_bits w = horner_sum of_bool 2 (rev (map (bit w) [0..<32]))"

end
