(* ===== verification/WalSegment.thy ===== *)
theory WalSegment
  imports Bytes
begin

text \<open>
  \<open>lib/wal/src/segment.rs\<close>: one file of the write-ahead log at the byte level. A segment is
  the mapped file, the index of (offset, length) pairs of its entries, the running CRC and
  the offset up to which it was flushed. The CRC-32C routine (the \<open>crc32c\<close> crate) is the
  parameter \<open>crcf\<close>: \<open>crcf c bs\<close> stands for \<open>crc32c_append(c, bs)\<close>. \<open>disk\<close> is what the
  file is known to hold on disk: the image that is left after a power loss. System calls
  (create, rename, msync, ftruncate) succeed in the model.
\<close>

section \<open>Layout\<close>

definition HEADER_LEN :: nat where "HEADER_LEN = 8"
definition CRC_LEN :: nat where "CRC_LEN = 4"

definition SEGMENT_MAGIC :: "u8 list" where "SEGMENT_MAGIC = [119, 97, 108]"
definition SEGMENT_VERSION :: u8 where "SEGMENT_VERSION = 0"

text \<open>\<open>4usize.wrapping_sub(len) & 7\<close>\<close>

definition padding :: "nat \<Rightarrow> nat" where
  "padding len = unat ((4 - of_nat len :: u64) AND 7)"

record segment =
  mmap :: "u8 list"
  index :: "(nat \<times> nat) list"
  crc :: u32
  flush_offset :: nat
  disk :: "u8 list"

datatype segment_error =
    InvalidCapacity nat
  | IllegalHeader
  | VersionUnsupported u8

section \<open>Sizes\<close>

definition seg_len :: "segment \<Rightarrow> nat" where
  "seg_len s = length (index s)"

definition seg_is_empty :: "segment \<Rightarrow> bool" where
  "seg_is_empty s = (index s = [])"

definition capacity :: "segment \<Rightarrow> nat" where
  "capacity s = length (mmap s)"

definition seg_size :: "segment \<Rightarrow> nat" where
  "seg_size s = (if index s = [] then HEADER_LEN
     else (case last (index s) of (offset, len) \<Rightarrow> offset + len + padding len + CRC_LEN))"

definition sufficient_capacity :: "segment \<Rightarrow> nat \<Rightarrow> bool" where
  "sufficient_capacity s entry_len =
     (let avail = capacity s - seg_size s
      in HEADER_LEN + CRC_LEN \<le> avail \<and>
         entry_len + padding entry_len \<le> avail - (HEADER_LEN + CRC_LEN))"

section \<open>Creating and opening\<close>

text \<open>
  \<open>create\<close>: the capacity is rounded down to 8 bytes, the header is written to a temporary
  file, flushed and renamed. \<open>old\<close> is what the reused file held beyond the header (zeros
  for a fresh file), \<open>seed\<close> the random CRC seed.
\<close>

definition seg_create ::
  "u32 \<Rightarrow> u8 list \<Rightarrow> nat \<Rightarrow> (segment_error, segment) result" where
  "seg_create seed old cap0 =
     (let cap = cap0 - cap0 mod 8
      in if cap < HEADER_LEN then Inl (InvalidCapacity cap)
         else (let file = take cap (old @ replicate cap 0);
                   file = blit 0 (SEGMENT_MAGIC @ [SEGMENT_VERSION] @ le_bytes 4 (unat seed)) file
               in Inr \<lparr>mmap = file, index = [], crc = seed, flush_offset = 0, disk = file\<rparr>))"

text \<open>
  The loop of \<open>open\<close>: it parses entries from \<open>offset\<close> on until the file ends or the CRC
  chain breaks; result: the index it pushes and the CRC of the last entry. Offsets are
  unbounded here: a corrupt length close to \<open>2 ^ 64\<close> takes the first \<open>break\<close>.
\<close>

function parse_entries ::
  "(u32 \<Rightarrow> u8 list \<Rightarrow> u32) \<Rightarrow> u8 list \<Rightarrow> nat \<Rightarrow> u32 \<Rightarrow> (nat \<times> nat) list \<times> u32" where
  "parse_entries crcf m offset c =
     (if offset + HEADER_LEN + CRC_LEN < length m then
        (let len = le_value (slice m offset (offset + 8));
             padded_len = len + padding len
         in if length m < offset + HEADER_LEN + padded_len + CRC_LEN then ([], c)
            else
              (let entry_crc = crcf (NOT (reverse_bits c))
                     (slice m offset (offset + HEADER_LEN + padded_len));
                   stored_crc = le_value (slice m (offset + HEADER_LEN + padded_len)
                     (offset + HEADER_LEN + padded_len + 4))
               in if unat entry_crc \<noteq> stored_crc then ([], c)
                  else (let (idx, c') = parse_entries crcf m
                              (offset + (HEADER_LEN + padded_len + CRC_LEN)) entry_crc
                        in ((offset + HEADER_LEN, len) # idx, c'))))
      else ([], c))"
  by pat_completeness auto
termination
  by (relation "measure (\<lambda>(crcf, m, offset, c). length m - offset)")
    (auto simp: HEADER_LEN_def CRC_LEN_def)

declare parse_entries.simps [simp del]

definition seg_open ::
  "(u32 \<Rightarrow> u8 list \<Rightarrow> u32) \<Rightarrow> u8 list \<Rightarrow> (segment_error, segment) result" where
  "seg_open crcf file =
     (if length file < HEADER_LEN then Inl (InvalidCapacity (length file))
      else
        (let m = take (length file - length file mod 8) file
         in if slice m 0 3 \<noteq> SEGMENT_MAGIC then Inl IllegalHeader
            else if m ! 3 \<noteq> 0 then Inl (VersionUnsupported (m ! 3))
            else
              (let (idx, c) = parse_entries crcf m HEADER_LEN (of_nat (le_value (slice m 4 8)));
                   s = \<lparr>mmap = m, index = idx, crc = c, flush_offset = 0, disk = m\<rparr>
               in Inr (s\<lparr>flush_offset := seg_size s\<rparr>))))"

section \<open>Entries\<close>

definition seg_entry :: "segment \<Rightarrow> nat \<Rightarrow> u8 list option" where
  "seg_entry s i =
     (if i < length (index s)
      then (case index s ! i of (offset, len) \<Rightarrow> Some (slice (mmap s) offset (offset + len)))
      else None)"

definition seg_append ::
  "(u32 \<Rightarrow> u8 list \<Rightarrow> u32) \<Rightarrow> segment \<Rightarrow> u8 list \<Rightarrow> (segment \<times> nat) option" where
  "seg_append crcf s entry =
     (if \<not> sufficient_capacity s (length entry) then None
      else
        (let pad = padding (length entry);
             padded_len = length entry + pad;
             offset = seg_size s;
             m = blit offset (le_bytes 8 (length entry)) (mmap s);
             m = blit (offset + HEADER_LEN) entry m;
             m = (if 0 < pad
                  then blit (offset + HEADER_LEN + length entry) (replicate pad 0) m else m);
             c = crcf (NOT (reverse_bits (crc s)))
                   (slice m offset (offset + HEADER_LEN + padded_len));
             m = blit (offset + HEADER_LEN + padded_len) (le_bytes 4 (unat c)) m;
             s' = s\<lparr>mmap := m, crc := c, index := index s @ [(offset + HEADER_LEN, length entry)]\<rparr>
         in Some (s', length (index s') - 1)))"

definition read_seed_crc :: "segment \<Rightarrow> u32" where
  "read_seed_crc s = of_nat (le_value (slice (mmap s) 4 8))"

definition read_entry_crc :: "segment \<Rightarrow> nat \<Rightarrow> u32" where
  "read_entry_crc s entry_id =
     (case index s ! entry_id of (offset, len) \<Rightarrow>
        (let padded_len = len + padding len
         in of_nat (le_value (slice (mmap s) (offset + padded_len) (offset + padded_len + 4)))))"

definition seg_truncate :: "segment \<Rightarrow> nat \<Rightarrow> segment" where
  "seg_truncate s from_idx =
     (if length (index s) \<le> from_idx then s
      else
        (let zero_end = seg_size s;
             s1 = s\<lparr>index := take from_idx (index s)\<rparr>;
             s2 = s1\<lparr>crc := (if index s1 = [] then read_seed_crc s1
                              else read_entry_crc s1 (length (index s1) - 1))\<rparr>;
             zero_start = seg_size s2
         in s2\<lparr>mmap := blit zero_start (replicate (zero_end - zero_start) 0) (mmap s2),
               flush_offset := min (flush_offset s2) zero_start\<rparr>))"

text \<open>
  \<open>flush\<close>: only the bytes from the flush offset to the end of the last entry reach the disk;
  a flush offset behind the end writes everything.
\<close>

definition seg_flush :: "segment \<Rightarrow> segment" where
  "seg_flush s =
     (let start = flush_offset s; fin = seg_size s;
          d = (if start = fin then disk s
               else if start < fin then blit start (slice (mmap s) start fin) (disk s)
               else mmap s)
      in s\<lparr>disk := d, flush_offset := fin\<rparr>)"

text \<open>\<open>ensure_capacity\<close>: a larger file is the old one extended with zeros (ftruncate).\<close>

definition ensure_capacity :: "segment \<Rightarrow> nat \<Rightarrow> segment" where
  "ensure_capacity s entry_size =
     (let required = entry_size + padding entry_size + HEADER_LEN + CRC_LEN + seg_size s
      in if capacity s < required
         then (let s' = seg_flush s; z = replicate (required - capacity s) 0
               in s'\<lparr>mmap := mmap s' @ z, disk := disk s' @ z\<rparr>)
         else s)"

text \<open>\<open>copy_to_path\<close>: a new file of the same capacity receives all the mapped bytes.\<close>

definition copy_to_path :: "u32 \<Rightarrow> segment \<Rightarrow> (segment_error, u8 list) result" where
  "copy_to_path seed s =
     and_then (seg_create seed [] (capacity s)) (\<lambda>other. Inr (blit 0 (mmap s) (mmap other)))"

section \<open>Alignment\<close>

lemma padding_eq: "int (padding len) = (4 - int len) mod 8"
proof -
  let ?w = "4 - of_nat len :: u64"
  have "(7 :: u64) = mask 3" by (simp add: mask_eq_exp_minus_1)
  then have w: "?w AND 7 = take_bit 3 ?w" by (simp add: take_bit_eq_mask)
  have "int (padding len) = uint (take_bit 3 ?w)"
    unfolding padding_def w by simp
  also have "\<dots> = take_bit 3 (uint ?w)" by (simp add: unsigned_take_bit_eq)
  also have "\<dots> = uint ?w mod 8" by (simp add: take_bit_eq_mod)
  also have "uint ?w = (4 - int len) mod 2 ^ 64"
    by (simp add: uint_word_ariths unsigned_of_nat take_bit_eq_mod zmod_int mod_diff_right_eq)
  also have "(4 - int len) mod 2 ^ 64 mod 8 = (4 - int len) mod 8"
    by (rule mod_mod_cancel) simp
  finally show ?thesis .
qed

lemma padding_less: "padding len < 8"
  using padding_eq [of len] by linarith

lemma padding_aligns: "(len + padding len) mod 8 = 4"
proof -
  have "int ((len + padding len) mod 8) = (int len + (4 - int len) mod 8) mod 8"
    by (simp add: zmod_int padding_eq)
  also have "\<dots> = 4" by (simp add: mod_add_right_eq)
  finally show ?thesis by simp
qed

lemma padded_ge_4: "4 \<le> len + padding len"
  using padding_aligns [of len] mod_less_eq_dividend [of "len + padding len" 8] by simp

text \<open>The bytes one entry takes in the file.\<close>

abbreviation entry_size :: "nat \<Rightarrow> nat" where
  "entry_size len \<equiv> HEADER_LEN + (len + padding len) + CRC_LEN"

lemma entry_size_aligned: "entry_size len mod 8 = 0"
proof -
  have "entry_size len mod 8 = ((len + padding len) mod 8 + 12) mod 8"
    unfolding HEADER_LEN_def CRC_LEN_def mod_add_left_eq by (simp add: ac_simps)
  then show ?thesis by (simp only: padding_aligns) simp
qed

section \<open>The entry chain\<close>

text \<open>
  \<open>chain crcf m off c idx off' c'\<close>: from offset \<open>off\<close> with running CRC \<open>c\<close>, the buffer
  holds exactly the entries \<open>idx\<close>, correctly framed and checksummed, up to \<open>off'\<close> with
  running CRC \<open>c'\<close>.
\<close>

fun chain ::
  "(u32 \<Rightarrow> u8 list \<Rightarrow> u32) \<Rightarrow> u8 list \<Rightarrow> nat \<Rightarrow> u32 \<Rightarrow> (nat \<times> nat) list \<Rightarrow> nat \<Rightarrow> u32 \<Rightarrow> bool"
where
  "chain crcf m off c [] off' c' = (off' = off \<and> c' = c)"
| "chain crcf m off c ((o1, l) # idx) off' c' =
     (let padded = l + padding l;
          c1 = crcf (NOT (reverse_bits c)) (slice m off (off + HEADER_LEN + padded))
      in o1 = off + HEADER_LEN \<and>
         off + entry_size l \<le> length m \<and>
         le_value (slice m off (off + 8)) = l \<and>
         le_value (slice m (off + HEADER_LEN + padded) (off + HEADER_LEN + padded + 4)) = unat c1 \<and>
         chain crcf m (off + entry_size l) c1 idx off' c')"

lemma chain_le: "chain crcf m off c idx off' c' \<Longrightarrow> off \<le> off'"
  by (induction idx arbitrary: off c) (fastforce simp: Let_def)+

lemma chain_bound:
  "chain crcf m off c idx off' c' \<Longrightarrow> off \<le> length m \<Longrightarrow> off' \<le> length m"
  by (induction idx arbitrary: off c) (fastforce simp: Let_def)+

lemma chain_append:
  "chain crcf m off c (xs @ ys) off' c' \<longleftrightarrow>
     (\<exists>o1 c1. chain crcf m off c xs o1 c1 \<and> chain crcf m o1 c1 ys off' c')"
proof (induction xs arbitrary: off c)
  case Nil
  then show ?case by simp
next
  case (Cons x xs)
  then show ?case by (cases x) (simp add: Let_def)
qed

lemma chain_unique:
  "chain crcf m off c idx o1 c1 \<Longrightarrow> chain crcf m off c idx o2 c2 \<Longrightarrow> o1 = o2 \<and> c1 = c2"
  by (induction idx arbitrary: off c) (auto simp: Let_def)

text \<open>A chain only depends on the bytes it covers.\<close>

lemma chain_cong:
  assumes "chain crcf m off c idx off' c'" "take off' m = take off' m'"
  shows "chain crcf m' off c idx off' c'"
  using assms
proof (induction idx arbitrary: off c)
  case Nil
  then show ?case by simp
next
  case (Cons x idx)
  obtain o1 l where x: "x = (o1, l)" by (cases x)
  let ?e = "off + entry_size l"
  from Cons.prems x obtain c1 where tail: "chain crcf m ?e c1 idx off' c'"
    and len: "?e \<le> length m" by (auto simp: Let_def)
  from chain_le [OF tail] have le: "?e \<le> off'" .
  have eq: "slice m a b = slice m' a b" if "b \<le> ?e" for a b
    using slice_take_eq [OF Cons.prems(2)] that le by simp
  have eqs: "slice m off (off + 8) = slice m' off (off + 8)"
    "slice m off (off + HEADER_LEN + (l + padding l)) =
       slice m' off (off + HEADER_LEN + (l + padding l))"
    "slice m (off + HEADER_LEN + (l + padding l)) (off + HEADER_LEN + (l + padding l) + 4) =
       slice m' (off + HEADER_LEN + (l + padding l)) (off + HEADER_LEN + (l + padding l) + 4)"
    by (rule eq; simp add: HEADER_LEN_def CRC_LEN_def)+
  have "length (take off' m) = length (take off' m')" using Cons.prems(2) by simp
  with le len have len': "?e \<le> length m'" by simp
  from Cons x show ?case
    by (simp add: Let_def len' eqs)
qed

text \<open>Parsing reads a whole chain back and goes on behind it.\<close>

lemma parse_chain:
  assumes "chain crcf m off c idx off' c'"
  shows "parse_entries crcf m off c =
    (idx @ fst (parse_entries crcf m off' c'), snd (parse_entries crcf m off' c'))"
  using assms
proof (induction idx arbitrary: off c)
  case Nil
  then show ?case by simp
next
  case (Cons x idx)
  obtain o1 l where x: "x = (o1, l)" by (cases x)
  have guard: "off + HEADER_LEN + CRC_LEN < length m"
    using Cons.prems x padded_ge_4 [of l] by (auto simp: Let_def)
  from Cons x guard show ?case
    by (subst parse_entries.simps) (auto simp: Let_def add.assoc split_beta)
qed

section \<open>The segment invariant\<close>

definition seg_inv :: "(u32 \<Rightarrow> u8 list \<Rightarrow> u32) \<Rightarrow> segment \<Rightarrow> bool" where
  "seg_inv crcf s \<longleftrightarrow>
     capacity s mod 8 = 0 \<and> HEADER_LEN \<le> capacity s \<and>
     slice (mmap s) 0 3 = SEGMENT_MAGIC \<and> mmap s ! 3 = SEGMENT_VERSION \<and>
     chain crcf (mmap s) HEADER_LEN (read_seed_crc s) (index s) (seg_size s) (crc s) \<and>
     length (disk s) = capacity s \<and> flush_offset s \<le> seg_size s \<and>
     take (max HEADER_LEN (flush_offset s)) (disk s) =
       take (max HEADER_LEN (flush_offset s)) (mmap s)"

definition seg_entries :: "segment \<Rightarrow> u8 list list" where
  "seg_entries s = map (\<lambda>(offset, len). slice (mmap s) offset (offset + len)) (index s)"

abbreviation size_of :: "(nat \<times> nat) list \<Rightarrow> nat" where
  "size_of idx \<equiv> (if idx = [] then HEADER_LEN
     else (case last idx of (offset, len) \<Rightarrow> offset + len + padding len + CRC_LEN))"

lemma chain_size:
  assumes "chain crcf m HEADER_LEN c idx off' c'"
  shows "off' = size_of idx"
proof (cases idx rule: rev_cases)
  case Nil
  with assms show ?thesis by simp
next
  case (snoc xs x)
  obtain o1 l where x: "x = (o1, l)" by (cases x)
  from assms obtain o2 c2 where "chain crcf m o2 c2 [x] off' c'"
    unfolding snoc chain_append by blast
  with snoc x show ?thesis by (simp add: Let_def)
qed

lemma chain_crc:
  assumes "chain crcf m off c (xs @ [(o1, l)]) off' c'"
  shows "c' = of_nat (le_value (slice m (o1 + (l + padding l)) (o1 + (l + padding l) + 4)))"
  using assms by (auto simp: chain_append Let_def)

lemma chain_inside:
  "chain crcf m off c idx off' c' \<Longrightarrow> (o1, l) \<in> set idx \<Longrightarrow>
     off + HEADER_LEN \<le> o1 \<and> o1 + l \<le> off'"
proof (induction idx arbitrary: off c)
  case Nil
  then show ?case by simp
next
  case (Cons x idx)
  obtain o2 l2 where x: "x = (o2, l2)" by (cases x)
  from Cons.prems(1) x obtain c1 where o2: "o2 = off + HEADER_LEN"
    and tail: "chain crcf m (off + entry_size l2) c1 idx off' c'"
    by (auto simp: Let_def)
  from chain_le [OF tail] Cons.IH [OF tail] Cons.prems(2) x o2 show ?case by auto
qed

lemma chain_aligned:
  "chain crcf m off c idx off' c' \<Longrightarrow> off mod 8 = 0 \<Longrightarrow> off' mod 8 = 0"
proof (induction idx arbitrary: off c)
  case Nil
  then show ?case by simp
next
  case (Cons x idx)
  obtain o2 l2 where x: "x = (o2, l2)" by (cases x)
  from Cons.prems(1) x obtain c1 where
    tail: "chain crcf m (off + entry_size l2) c1 idx off' c'"
    by (auto simp: Let_def)
  have "(off + entry_size l2) mod 8 = 0"
    using Cons.prems(2) entry_size_aligned [of l2] by (metis add.right_neutral mod_add_eq mod_0)
  with Cons.IH [OF tail] show ?case .
qed

lemma seg_size_def': "seg_size s = size_of (index s)"
  by (simp add: seg_size_def)

lemma seg_invD:
  assumes "seg_inv crcf s"
  shows "capacity s mod 8 = 0" "HEADER_LEN \<le> capacity s"
    "slice (mmap s) 0 3 = SEGMENT_MAGIC" "mmap s ! 3 = SEGMENT_VERSION"
    "chain crcf (mmap s) HEADER_LEN (read_seed_crc s) (index s) (seg_size s) (crc s)"
    "length (disk s) = capacity s" "flush_offset s \<le> seg_size s"
    "take (max HEADER_LEN (flush_offset s)) (disk s) =
       take (max HEADER_LEN (flush_offset s)) (mmap s)"
  using assms by (simp_all add: seg_inv_def)

lemma seg_size_bounds:
  assumes "seg_inv crcf s"
  shows "HEADER_LEN \<le> seg_size s" "seg_size s \<le> length (mmap s)" "seg_size s mod 8 = 0"
  using chain_le [OF seg_invD(5) [OF assms]] chain_bound [OF seg_invD(5) [OF assms]]
    chain_aligned [OF seg_invD(5) [OF assms]] seg_invD(2) [OF assms]
  by (simp_all add: capacity_def HEADER_LEN_def)

lemma seg_entry_eq:
  "seg_entry s i = (if i < length (seg_entries s) then Some (seg_entries s ! i) else None)"
  by (simp add: seg_entry_def seg_entries_def split_beta)

lemma length_seg_entries [simp]: "length (seg_entries s) = seg_len s"
  by (simp add: seg_entries_def seg_len_def)

lemma seg_entries_cong:
  assumes "chain crcf m HEADER_LEN c idx n c'" "take n m = take n m'"
  shows "map (\<lambda>(offset, len). slice m offset (offset + len)) idx =
         map (\<lambda>(offset, len). slice m' offset (offset + len)) idx"
  using chain_inside [OF assms(1)] slice_take_eq [OF assms(2)] by (auto intro!: map_cong)

text \<open>The header survives whatever happens behind it.\<close>

lemma header_cong:
  assumes "take n m = take n m'" "HEADER_LEN \<le> n" "n \<le> length m" "n \<le> length m'"
  shows "slice m 0 3 = slice m' 0 3" "slice m 4 8 = slice m' 4 8" "m ! 3 = m' ! 3"
proof -
  show "slice m 0 3 = slice m' 0 3" "slice m 4 8 = slice m' 4 8"
    using assms(2) by (auto intro!: slice_take_eq [OF assms(1)] simp: HEADER_LEN_def)
  have "3 < n" using assms(2) by (simp add: HEADER_LEN_def)
  then have "m ! 3 = take n m ! 3" "m' ! 3 = take n m' ! 3" by simp_all
  with assms(1) show "m ! 3 = m' ! 3" by simp
qed

text \<open>How the operations establish the invariant: same header, a chain, a durable prefix.\<close>

lemma seg_invI:
  assumes inv: "seg_inv crcf s"
    and hdr: "take HEADER_LEN (mmap s') = take HEADER_LEN (mmap s)"
    and len: "length (mmap s') mod 8 = 0" "HEADER_LEN \<le> length (mmap s')"
      "length (disk s') = length (mmap s')"
    and chain: "chain crcf (mmap s') HEADER_LEN (read_seed_crc s) (index s') (seg_size s') (crc s')"
    and fo: "flush_offset s' \<le> seg_size s'"
      "take (max HEADER_LEN (flush_offset s')) (disk s') =
       take (max HEADER_LEN (flush_offset s')) (mmap s')"
  shows "seg_inv crcf s'"
proof -
  note d = seg_invD [OF inv]
  note h = header_cong [OF hdr le_refl len(2) d(2) [unfolded capacity_def]]
  have seed: "read_seed_crc s' = read_seed_crc s" by (simp add: read_seed_crc_def h(2))
  show ?thesis
    unfolding seg_inv_def seed
    using d(3,4) h(1,3) len chain fo by (simp add: capacity_def)
qed

lemma size_of_take_le:
  assumes "seg_inv crcf s"
  shows "size_of (take k (index s)) \<le> seg_size s"
proof -
  have "chain crcf (mmap s) HEADER_LEN (read_seed_crc s) (take k (index s) @ drop k (index s))
      (seg_size s) (crc s)" using seg_invD(5) [OF assms] by simp
  then obtain o1 c1 where
    pre: "chain crcf (mmap s) HEADER_LEN (read_seed_crc s) (take k (index s)) o1 c1"
    and post: "chain crcf (mmap s) o1 c1 (drop k (index s)) (seg_size s) (crc s)"
    unfolding chain_append by blast
  show ?thesis using chain_le [OF post] unfolding chain_size [OF pre] .
qed

section \<open>Appending\<close>

text \<open>The three writes and the CRC of \<open>append\<close> are one write of the framed entry.\<close>

definition frame :: "u32 \<Rightarrow> u8 list \<Rightarrow> u8 list" where
  "frame c entry = le_bytes 8 (length entry) @ entry @
     replicate (padding (length entry)) 0 @ le_bytes 4 (unat c)"

definition entry_crc :: "(u32 \<Rightarrow> u8 list \<Rightarrow> u32) \<Rightarrow> u32 \<Rightarrow> u8 list \<Rightarrow> u32" where
  "entry_crc crcf c entry = crcf (NOT (reverse_bits c))
     (le_bytes 8 (length entry) @ entry @ replicate (padding (length entry)) 0)"

lemma length_frame [simp]: "length (frame c entry) = entry_size (length entry)"
  by (simp add: frame_def HEADER_LEN_def CRC_LEN_def)

lemma seg_append_eq:
  assumes fit: "seg_size s + entry_size (length entry) \<le> length (mmap s)"
  shows "seg_append crcf s entry =
    (let c = entry_crc crcf (crc s) entry
     in Some (s\<lparr>mmap := blit (seg_size s) (frame c entry) (mmap s), crc := c,
                index := index s @ [(seg_size s + HEADER_LEN, length entry)]\<rparr>,
              length (index s)))"
proof -
  let ?off = "seg_size s" and ?l = "length entry" and ?pad = "padding (length entry)"
  let ?body = "le_bytes 8 ?l @ entry @ replicate ?pad 0"
  let ?m1 = "blit ?off (le_bytes 8 ?l) (mmap s)"
  let ?m2 = "blit (?off + HEADER_LEN) entry ?m1"
  let ?m3 = "if 0 < ?pad then blit (?off + HEADER_LEN + ?l) (replicate ?pad 0) ?m2 else ?m2"
  have suff: "sufficient_capacity s ?l"
    using fit by (auto simp: sufficient_capacity_def capacity_def Let_def)
  have m2: "?m2 = blit ?off (le_bytes 8 ?l @ entry) (mmap s)"
    using blit_blit_adjacent [of ?off "le_bytes 8 ?l" entry "mmap s"] fit
    by (simp add: HEADER_LEN_def)
  have m3: "?m3 = blit ?off ?body (mmap s)"
    using blit_blit_adjacent [of ?off "le_bytes 8 ?l @ entry" "replicate ?pad 0" "mmap s"] fit
    unfolding m2 by (auto simp: HEADER_LEN_def add.assoc)
  have sl: "slice ?m3 ?off (?off + HEADER_LEN + (?l + ?pad)) = ?body"
    unfolding m3 using slice_blit_inside [of ?off ?body "mmap s" 0 "length ?body"] fit
    by (simp add: HEADER_LEN_def add.assoc)
  have m4: "blit (?off + HEADER_LEN + (?l + ?pad)) (le_bytes 4 v) ?m3 =
      blit ?off (?body @ le_bytes 4 v) (mmap s)" for v
    unfolding m3 using blit_blit_adjacent [of ?off ?body "le_bytes 4 v" "mmap s"] fit
    by (simp add: HEADER_LEN_def CRC_LEN_def add.assoc)
  show ?thesis
    unfolding seg_append_def Let_def sl m4 using suff
    by (simp add: entry_crc_def frame_def)
qed

lemma chain_frame:
  assumes fit: "off + entry_size (length e) \<le> length m" and small: "length e < 2 ^ 64"
  shows "chain crcf (blit off (frame (entry_crc crcf c e) e) m) off c [(off + HEADER_LEN, length e)]
    (off + entry_size (length e)) (entry_crc crcf c e)"
proof -
  let ?c = "entry_crc crcf c e" and ?l = "length e" and ?pad = "padding (length e)"
  let ?m = "blit off (frame ?c e) m"
  have inside: "slice ?m (off + a) (off + a + n) = take n (drop a (frame ?c e))"
    if "a + n \<le> entry_size ?l" for a n
    using that slice_blit_inside [of off "frame ?c e" m a n] fit by simp
  have len: "slice ?m off (off + 8) = le_bytes 8 ?l"
    using inside [of 0 8] by (simp add: frame_def HEADER_LEN_def)
  have body: "slice ?m off (off + HEADER_LEN + (?l + ?pad)) =
      le_bytes 8 ?l @ e @ replicate ?pad 0"
    using inside [of 0 "HEADER_LEN + (?l + ?pad)"] by (simp add: frame_def HEADER_LEN_def add.assoc)
  have stored: "slice ?m (off + HEADER_LEN + (?l + ?pad)) (off + HEADER_LEN + (?l + ?pad) + 4) =
      le_bytes 4 (unat ?c)"
    using inside [of "HEADER_LEN + (?l + ?pad)" 4]
    by (simp add: frame_def HEADER_LEN_def CRC_LEN_def add.assoc)
  have "unat ?c < 256 ^ 4" using unsigned_less [of ?c, where ?'a = nat] by simp
  then have "le_value (le_bytes 4 (unat ?c)) = unat ?c" by (rule le_value_le_bytes)
  moreover have "le_value (le_bytes 8 ?l) = ?l"
    using small by (intro le_value_le_bytes) simp
  ultimately show ?thesis
    using fit unfolding chain.simps Let_def len body stored by (simp add: entry_crc_def)
qed

lemma slice_frame:
  assumes "off + entry_size (length e) \<le> length m"
  shows "slice (blit off (frame c e) m) (off + HEADER_LEN) (off + HEADER_LEN + length e) = e"
  using slice_blit_inside [of off "frame c e" m HEADER_LEN "length e"] assms
  by (simp add: frame_def HEADER_LEN_def CRC_LEN_def)

lemma seg_append_spec:
  assumes inv: "seg_inv crcf s" and small: "length entry < 2 ^ 64"
    and suff: "sufficient_capacity s (length entry)"
  obtains s' where "seg_append crcf s entry = Some (s', seg_len s)" "seg_inv crcf s'"
    "seg_entries s' = seg_entries s @ [entry]" "disk s' = disk s"
    "flush_offset s' = flush_offset s" "index s' = index s @ [(seg_size s + HEADER_LEN, length entry)]"
proof -
  let ?c = "entry_crc crcf (crc s) entry"
  let ?m = "blit (seg_size s) (frame ?c entry) (mmap s)"
  let ?s = "s\<lparr>mmap := ?m, crc := ?c, index := index s @ [(seg_size s + HEADER_LEN, length entry)]\<rparr>"
  note b = seg_size_bounds [OF inv] and d = seg_invD [OF inv]
  have fit: "seg_size s + entry_size (length entry) \<le> length (mmap s)"
    using suff b by (auto simp: sufficient_capacity_def capacity_def Let_def)
  have keep: "take (seg_size s) (mmap s) = take (seg_size s) ?m" using b by simp
  have len: "length ?m = length (mmap s)" using fit by simp
  have size: "seg_size ?s = seg_size s + entry_size (length entry)"
    by (simp add: seg_size_def' add.assoc)
  have ch: "chain crcf ?m HEADER_LEN (read_seed_crc s) (index ?s) (seg_size ?s) ?c"
    using chain_cong [OF d(5) keep] chain_frame [OF fit small, of crcf "crc s"]
    unfolding size by (simp add: chain_append del: chain.simps) blast
  have "seg_inv crcf ?s"
  proof (rule seg_invI [OF inv])
    show "take (max HEADER_LEN (flush_offset ?s)) (disk ?s) =
        take (max HEADER_LEN (flush_offset ?s)) (mmap ?s)"
      using d(7,8) b(1,2) by simp
    show "flush_offset ?s \<le> seg_size ?s" using d(7) unfolding size by simp
    show "chain crcf (mmap ?s) HEADER_LEN (read_seed_crc s) (index ?s) (seg_size ?s) (crc ?s)"
      using ch by simp
  qed (use b d len in \<open>simp_all add: capacity_def\<close>)
  moreover have "seg_entries ?s = seg_entries s @ [entry]"
    using seg_entries_cong [OF d(5) keep] slice_frame [OF fit, of ?c]
    by (simp add: seg_entries_def)
  ultimately show ?thesis
    using that [of ?s] seg_append_eq [OF fit, of crcf] by (simp add: Let_def seg_len_def)
qed

lemma seg_append_None:
  "seg_append crcf s entry = None \<longleftrightarrow> \<not> sufficient_capacity s (length entry)"
  by (simp add: seg_append_def Let_def)

section \<open>Truncating, flushing, growing\<close>

lemma seg_truncate_spec:
  assumes inv: "seg_inv crcf s"
  shows "seg_inv crcf (seg_truncate s k)"
    and "seg_entries (seg_truncate s k) = take k (seg_entries s)"
    and "index (seg_truncate s k) = take k (index s)"
    and "capacity (seg_truncate s k) = capacity s"
    and "disk (seg_truncate s k) = disk s"
proof -
  note b = seg_size_bounds [OF inv] and d = seg_invD [OF inv]
  have "seg_inv crcf (seg_truncate s k) \<and> seg_entries (seg_truncate s k) = take k (seg_entries s) \<and>
    index (seg_truncate s k) = take k (index s) \<and> capacity (seg_truncate s k) = capacity s \<and>
    disk (seg_truncate s k) = disk s"
  proof (cases "length (index s) \<le> k")
    case True
    then show ?thesis using inv by (simp add: seg_truncate_def seg_entries_def)
  next
    case False
    define zs where "zs = size_of (take k (index s))"
    let ?idx = "take k (index s)"
    let ?m = "blit zs (replicate (seg_size s - zs) 0) (mmap s)"
    have "chain crcf (mmap s) HEADER_LEN (read_seed_crc s) (?idx @ drop k (index s))
        (seg_size s) (crc s)" using d(5) by simp
    then obtain o1 c1 where pre: "chain crcf (mmap s) HEADER_LEN (read_seed_crc s) ?idx o1 c1"
      and post: "chain crcf (mmap s) o1 c1 (drop k (index s)) (seg_size s) (crc s)"
      unfolding chain_append by blast
    have o1: "o1 = zs" unfolding zs_def by (rule chain_size [OF pre])
    have zs: "HEADER_LEN \<le> zs" "zs \<le> seg_size s"
      using chain_le [OF pre] chain_le [OF post] o1 by simp_all
    have keep: "take zs (mmap s) = take zs ?m" using zs b(2) by (simp del: take_blit add: blit_def)
    have len: "length ?m = length (mmap s)" using zs b(2) by simp
    let ?c = "if ?idx = [] then read_seed_crc s
      else read_entry_crc (s\<lparr>index := ?idx\<rparr>) (length ?idx - 1)"
    have c1: "c1 = ?c"
    proof (cases ?idx rule: rev_cases)
      case Nil
      with pre show ?thesis by simp
    next
      case (snoc xs x)
      obtain o2 l2 where x: "x = (o2, l2)" by (cases x)
      show ?thesis
        using chain_crc [OF pre [unfolded snoc x]]
        unfolding snoc x by (simp add: read_entry_crc_def nth_append Let_def)
    qed
    have tr: "seg_truncate s k = s\<lparr>index := ?idx, crc := c1, mmap := ?m,
        flush_offset := min (flush_offset s) zs\<rparr>"
      using False unfolding c1
      by (simp add: seg_truncate_def Let_def read_seed_crc_def read_entry_crc_def
          seg_size_def [of "_\<lparr>crc := _\<rparr>"] zs_def)
    have zs': "zs \<le> length (mmap s)" using zs b by simp
    have size: "seg_size (seg_truncate s k) = zs" by (simp add: tr zs_def seg_size_def)
    have "seg_inv crcf (seg_truncate s k)"
    proof (rule seg_invI [OF inv])
      show "take (max HEADER_LEN (flush_offset (seg_truncate s k))) (disk (seg_truncate s k)) =
          take (max HEADER_LEN (flush_offset (seg_truncate s k))) (mmap (seg_truncate s k))"
        using take_eq_le [OF d(8), of "max HEADER_LEN (min (flush_offset s) zs)"] zs(1) zs'
        unfolding tr by (simp add: min_def max_def)
      show "chain crcf (mmap (seg_truncate s k)) HEADER_LEN (read_seed_crc s)
          (index (seg_truncate s k)) (seg_size (seg_truncate s k)) (crc (seg_truncate s k))"
        using chain_cong [OF pre, of ?m] keep o1 unfolding size by (simp add: tr)
      show "flush_offset (seg_truncate s k) \<le> seg_size (seg_truncate s k)"
        unfolding size by (simp add: tr)
      show "take HEADER_LEN (mmap (seg_truncate s k)) = take HEADER_LEN (mmap s)"
        using take_blit [OF zs(1) zs'] by (simp add: tr)
    qed (use b d len in \<open>simp_all add: capacity_def tr\<close>)
    moreover have "seg_entries (seg_truncate s k) = take k (seg_entries s)"
      using seg_entries_cong [OF pre, of ?m] keep o1
      by (simp add: tr seg_entries_def take_map)
    ultimately show ?thesis using len by (simp add: tr capacity_def)
  qed
  then show "seg_inv crcf (seg_truncate s k)"
    and "seg_entries (seg_truncate s k) = take k (seg_entries s)"
    and "index (seg_truncate s k) = take k (index s)"
    and "capacity (seg_truncate s k) = capacity s"
    and "disk (seg_truncate s k) = disk s" by blast+
qed

lemma blit_slice_prefix:
  assumes "take a d = take a m" "a \<le> b" "b \<le> length m" "length d = length m"
  shows "take b (blit a (slice m a b) d) = take b m"
proof -
  have "take b (blit a (slice m a b) d) = take a d @ slice m a b"
    using assms by (simp add: blit_def)
  also have "\<dots> = take a m @ drop a (take b m)" using assms(1) by (simp add: slice_eq_drop_take)
  also have "\<dots> = take b m" by (metis append_take_drop_id assms(2) min.absorb1 take_take)
  finally show ?thesis .
qed

lemma seg_flush_frame [simp]:
  "mmap (seg_flush s) = mmap s" "index (seg_flush s) = index s" "crc (seg_flush s) = crc s"
  "flush_offset (seg_flush s) = seg_size s" "seg_entries (seg_flush s) = seg_entries s"
  "capacity (seg_flush s) = capacity s" "seg_size (seg_flush s) = seg_size s"
  by (simp_all add: seg_flush_def Let_def seg_entries_def capacity_def seg_size_def)

text \<open>After a flush every byte up to the last entry is on disk.\<close>

lemma seg_flush_disk:
  assumes inv: "seg_inv crcf s"
  shows "take (seg_size s) (disk (seg_flush s)) = take (seg_size s) (mmap s)"
    and "length (disk (seg_flush s)) = length (mmap s)"
proof -
  note b = seg_size_bounds [OF inv] and d = seg_invD [OF inv]
  have pre: "take (flush_offset s) (disk s) = take (flush_offset s) (mmap s)"
    using take_eq_le [OF d(8), of "flush_offset s"] by simp
  show "take (seg_size s) (disk (seg_flush s)) = take (seg_size s) (mmap s)"
    using blit_slice_prefix [OF pre d(7) b(2)] d(6,7) pre
    by (auto simp: seg_flush_def Let_def capacity_def)
  show "length (disk (seg_flush s)) = length (mmap s)"
    using d(6,7) b(2) by (simp add: seg_flush_def Let_def capacity_def)
qed

lemma seg_flush_inv:
  assumes inv: "seg_inv crcf s"
  shows "seg_inv crcf (seg_flush s)"
proof (rule seg_invI [OF inv])
  note b = seg_size_bounds [OF inv] and d = seg_invD [OF inv] and f = seg_flush_disk [OF inv]
  show "take (max HEADER_LEN (flush_offset (seg_flush s))) (disk (seg_flush s)) =
      take (max HEADER_LEN (flush_offset (seg_flush s))) (mmap (seg_flush s))"
    using f(1) b(1) by (simp add: max_absorb2)
qed (use seg_invD [OF inv] seg_flush_disk [OF inv] in \<open>simp_all add: capacity_def\<close>)

lemma ensure_capacity_spec:
  assumes inv: "seg_inv crcf s"
  shows "seg_inv crcf (ensure_capacity s n)"
    and "seg_entries (ensure_capacity s n) = seg_entries s"
    and "sufficient_capacity (ensure_capacity s n) n"
    and "index (ensure_capacity s n) = index s"
proof -
  let ?req = "n + padding n + HEADER_LEN + CRC_LEN + seg_size s"
  have "seg_inv crcf (ensure_capacity s n) \<and> seg_entries (ensure_capacity s n) = seg_entries s \<and>
    sufficient_capacity (ensure_capacity s n) n \<and> index (ensure_capacity s n) = index s"
  proof (cases "capacity s < ?req")
    case False
    then show ?thesis
      using inv by (auto simp: ensure_capacity_def Let_def sufficient_capacity_def)
  next
    case True
    let ?z = "replicate (?req - capacity s) 0"
    let ?s = "ensure_capacity s n"
    have e: "?s = (seg_flush s)\<lparr>mmap := mmap s @ ?z, disk := disk (seg_flush s) @ ?z\<rparr>"
      using True by (simp add: ensure_capacity_def Let_def)
    note b = seg_size_bounds [OF inv] and d = seg_invD [OF inv] and f = seg_flush_disk [OF inv]
    have len: "length (mmap ?s) = ?req" using True by (simp add: e capacity_def)
    have keep: "take (seg_size s) (mmap s) = take (seg_size s) (mmap ?s)" using b by (simp add: e)
    have size: "seg_size ?s = seg_size s" by (simp add: e seg_size_def)
    have al: "?req mod 8 = 0"
      using entry_size_aligned [of n] b(3) mod_add_eq [of "entry_size n" 8 "seg_size s"]
      by (simp add: ac_simps)
    have "seg_inv crcf ?s"
    proof (rule seg_invI [OF inv])
      show "take HEADER_LEN (mmap ?s) = take HEADER_LEN (mmap s)"
        using d(2) by (simp add: e capacity_def)
      show "length (mmap ?s) mod 8 = 0" unfolding len by (rule al)
      show "HEADER_LEN \<le> length (mmap ?s)" unfolding len by simp
      show "length (disk ?s) = length (mmap ?s)" using f(2) by (simp add: e)
      show "chain crcf (mmap ?s) HEADER_LEN (read_seed_crc s) (index ?s) (seg_size ?s) (crc ?s)"
        using chain_cong [OF d(5) keep] unfolding size by (simp add: e)
      show "flush_offset ?s \<le> seg_size ?s" unfolding size by (simp add: e)
      show "take (max HEADER_LEN (flush_offset ?s)) (disk ?s) =
          take (max HEADER_LEN (flush_offset ?s)) (mmap ?s)"
        using f b(1,2) by (simp add: e max_absorb2)
    qed
    moreover have "seg_entries ?s = seg_entries s"
      using seg_entries_cong [OF d(5) keep] by (simp add: seg_entries_def e)
    moreover have "sufficient_capacity ?s n"
      using len by (simp add: sufficient_capacity_def Let_def size capacity_def)
    ultimately show ?thesis by (simp add: e)
  qed
  then show "seg_inv crcf (ensure_capacity s n)" "seg_entries (ensure_capacity s n) = seg_entries s"
    "sufficient_capacity (ensure_capacity s n) n" "index (ensure_capacity s n) = index s"
    by blast+
qed

section \<open>Creating and reopening\<close>

lemma of_nat_unat_id [simp]: "(of_nat (unat w) :: u32) = w"
  by simp

lemma seg_create_spec:
  assumes "HEADER_LEN \<le> cap"
  obtains s where "seg_create seed old cap = Inr s" "seg_inv crcf s" "seg_entries s = []"
    "index s = []" "capacity s = cap - cap mod 8"
proof -
  define n where "n = cap - cap mod 8"
  define hdr where "hdr = SEGMENT_MAGIC @ [SEGMENT_VERSION] @ le_bytes 4 (unat seed)"
  define base where "base = take n (old @ replicate n 0)"
  define img where "img = blit 0 hdr base"
  let ?s = "\<lparr>mmap = img, index = [], crc = seed, flush_offset = 0, disk = img\<rparr>"
  have n8: "8 \<le> n" "n mod 8 = 0"
    using assms by (simp_all add: n_def HEADER_LEN_def minus_mod_eq_mult_div)
  have hdr: "length hdr = 8" by (simp add: hdr_def SEGMENT_MAGIC_def)
  have base: "length base = n" by (simp add: base_def)
  have len: "length img = n" using n8 hdr base by (simp add: img_def)
  have sl: "slice img a (a + k) = take k (drop a hdr)" if "a + k \<le> 8" for a k
  proof -
    have "slice img (0 + a) (0 + a + k) = take k (drop a hdr)"
      unfolding img_def by (rule slice_blit_inside) (use that hdr base n8 in simp_all)
    then show ?thesis by simp
  qed
  have "slice img 0 3 = SEGMENT_MAGIC" using sl [of 0 3] by (simp add: hdr_def SEGMENT_MAGIC_def)
  moreover have "img ! 3 = SEGMENT_VERSION"
    by (simp add: img_def blit_def hdr_def SEGMENT_MAGIC_def)
  moreover have "slice img 4 8 = le_bytes 4 (unat seed)"
    using sl [of 4 4] by (simp add: hdr_def SEGMENT_MAGIC_def)
  moreover have "unat seed < 256 ^ 4" using unsigned_less [of seed, where ?'a = nat] by simp
  ultimately have "seg_inv crcf ?s"
    using n8 len by (simp add: seg_inv_def capacity_def HEADER_LEN_def read_seed_crc_def
        seg_size_def le_value_le_bytes)
  moreover have "seg_create seed old cap = Inr ?s"
    using n8 by (simp add: seg_create_def Let_def HEADER_LEN_def n_def img_def hdr_def base_def)
  ultimately show ?thesis
    using that [of ?s] len by (simp add: seg_entries_def capacity_def n_def)
qed

text \<open>What parsing returns is a chain, so an opened segment satisfies the invariant.\<close>

lemma parse_is_chain:
  "parse_entries crcf m off c = (idx, c') \<Longrightarrow> \<exists>off'. chain crcf m off c idx off' c'"
proof (induction crcf m off c arbitrary: idx c' rule: parse_entries.induct)
  case (1 crcf m off c)
  let ?l = "le_value (slice m off (off + 8))"
  let ?p = "?l + padding ?l"
  let ?e = "crcf (NOT (reverse_bits c)) (slice m off (off + HEADER_LEN + ?p))"
  let ?stored = "le_value (slice m (off + HEADER_LEN + ?p) (off + HEADER_LEN + ?p + 4))"
  show ?case
  proof (cases "off + HEADER_LEN + CRC_LEN < length m \<and>
      off + HEADER_LEN + ?p + CRC_LEN \<le> length m \<and> unat ?e = ?stored")
    case False
    then have "idx = [] \<and> c' = c"
      using "1.prems" by (subst (asm) parse_entries.simps) (auto simp: Let_def split: if_splits)
    then show ?thesis by simp
  next
    case True
    obtain idx2 where rest: "parse_entries crcf m (off + (HEADER_LEN + ?p + CRC_LEN)) ?e = (idx2, c')"
      and idx: "idx = (off + HEADER_LEN, ?l) # idx2"
      using "1.prems" True
      by (subst (asm) parse_entries.simps) (auto simp: Let_def split: prod.splits)
    have "\<exists>off'. chain crcf m (off + (HEADER_LEN + ?p + CRC_LEN)) ?e idx2 off' c'"
      using "1.IH" [OF _ refl refl _ refl refl _ rest] True by simp
    then show ?thesis using True idx by (auto simp: Let_def add.assoc)
  qed
qed


text \<open>
  Opening any image that agrees with the segment up to its last entry: all entries are
  there, followed by whatever the bytes behind them parse as.
\<close>

lemma seg_open_image:
  assumes inv: "seg_inv crcf s"
    and len: "length d = length (mmap s)"
    and same: "take (seg_size s) d = take (seg_size s) (mmap s)"
  obtains s' where "seg_open crcf d = Inr s'" "seg_inv crcf s'"
    "index s' = index s @ fst (parse_entries crcf d (seg_size s) (crc s))"
    "take (seg_len s) (seg_entries s') = seg_entries s"
proof -
  note b = seg_size_bounds [OF inv] and i = seg_invD [OF inv]
  have len8: "length d mod 8 = 0" "HEADER_LEN \<le> length d"
    using len i(1,2) by (simp_all add: capacity_def)
  note h = header_cong [OF same b(1)]
  have h': "slice d 0 3 = SEGMENT_MAGIC" "d ! 3 = 0" "slice d 4 8 = slice (mmap s) 4 8"
    using h len b i(3,4) by (simp_all add: SEGMENT_VERSION_def)
  let ?seed = "read_seed_crc s"
  obtain idx c where p: "parse_entries crcf d HEADER_LEN ?seed = (idx, c)"
    by (cases "parse_entries crcf d HEADER_LEN ?seed")
  let ?s0 = "\<lparr>mmap = d, index = idx, crc = c, flush_offset = 0, disk = d\<rparr>"
  let ?s = "?s0\<lparr>flush_offset := seg_size ?s0\<rparr>"
  have old: "chain crcf d HEADER_LEN ?seed (index s) (seg_size s) (crc s)"
    using chain_cong [OF i(5) same [symmetric]] .
  have idx: "idx = index s @ fst (parse_entries crcf d (seg_size s) (crc s))"
    using parse_chain [OF old] p by simp
  obtain off' where ch: "chain crcf d HEADER_LEN ?seed idx off' c"
    using parse_is_chain [OF p] by blast
  have size: "seg_size ?s = off'" using chain_size [OF ch] by (simp add: seg_size_def)
  have seed: "read_seed_crc ?s = ?seed" using h'(3) by (simp add: read_seed_crc_def)
  have op: "seg_open crcf d = Inr ?s"
    using len8 h' p by (simp add: seg_open_def Let_def read_seed_crc_def)
  moreover have "seg_inv crcf ?s"
    unfolding seg_inv_def seed size
    using ch len8 h' by (simp add: capacity_def SEGMENT_VERSION_def)
      (simp add: chain_size [OF ch] seg_size_def)
  moreover have "take (seg_len s) (seg_entries ?s) = seg_entries s"
    using seg_entries_cong [OF i(5) same [symmetric]] unfolding idx
    by (simp add: seg_entries_def seg_len_def)
  ultimately show ?thesis using that [of ?s] idx by simp
qed

section \<open>The interface the log uses\<close>

text \<open>
  What \<open>Wal\<close> relies on in a segment: an append-only file that holds a list of entries. The
  log never looks at bytes, CRCs or flush offsets.
\<close>

locale segment_file =
  fixes ents :: "'s \<Rightarrow> 'e list"
    and slen :: "'s \<Rightarrow> nat"
    and entry :: "'s \<Rightarrow> nat \<Rightarrow> 'e option"
    and append :: "'s \<Rightarrow> 'e \<Rightarrow> ('s \<times> nat) option"
    and truncate :: "'s \<Rightarrow> nat \<Rightarrow> 's"
    and ensure :: "'s \<Rightarrow> nat \<Rightarrow> 's"
    and flush :: "'s \<Rightarrow> 's"
    and fits :: "'s \<Rightarrow> nat \<Rightarrow> bool"
    and ok :: "'s \<Rightarrow> bool"
    and esize :: "'e \<Rightarrow> nat"
    and admissible :: "'e \<Rightarrow> bool"
  assumes slen: "ok s \<Longrightarrow> slen s = length (ents s)"
    and entry: "ok s \<Longrightarrow> entry s i = (if i < length (ents s) then Some (ents s ! i) else None)"
    and append: "ok s \<Longrightarrow> admissible e \<Longrightarrow> fits s (esize e) \<Longrightarrow>
      \<exists>s'. append s e = Some (s', length (ents s)) \<and> ok s' \<and> ents s' = ents s @ [e]"
    and truncate: "ok s \<Longrightarrow> ok (truncate s k) \<and> ents (truncate s k) = take k (ents s)"
    and ensure: "ok s \<Longrightarrow> ok (ensure s n) \<and> ents (ensure s n) = ents s \<and> fits (ensure s n) n"
    and flush: "ok s \<Longrightarrow> ok (flush s) \<and> ents (flush s) = ents s"
begin

text \<open>Growing first makes every append succeed.\<close>

lemma append_ensured:
  assumes "ok s" "admissible e"
  obtains s' where "append (ensure s (esize e)) e = Some (s', length (ents s))"
    "ok s'" "ents s' = ents s @ [e]"
  using append [of "ensure s (esize e)" e] ensure [OF assms(1), of "esize e"] assms(2) by auto

lemma append_fits:
  assumes "ok s" "admissible e" "fits s (esize e)"
  obtains s' where "append s e = Some (s', length (ents s))" "ok s'" "ents s' = ents s @ [e]"
  using append [OF assms] by blast

lemma truncate_zero: "ok s \<Longrightarrow> ents (truncate s 0) = []"
  using truncate [of s 0] by simp

lemma truncate_len: "ok s \<Longrightarrow> slen (truncate s k) = min (slen s) k"
  using truncate [of s k] slen [of s] slen [of "truncate s k"] by (simp add: min.commute)

end

interpretation seg: segment_file seg_entries seg_len seg_entry "seg_append crcf"
  seg_truncate ensure_capacity seg_flush sufficient_capacity "seg_inv crcf" length
  "\<lambda>e. length e < 2 ^ 64" for crcf :: "u32 \<Rightarrow> u8 list \<Rightarrow> u32"
proof unfold_locales
  fix s and e :: "u8 list"
  assume "seg_inv crcf s" "length e < 2 ^ 64" "sufficient_capacity s (length e)"
  then show "\<exists>s'. seg_append crcf s e = Some (s', length (seg_entries s)) \<and> seg_inv crcf s' \<and>
    seg_entries s' = seg_entries s @ [e]"
    by (metis seg_append_spec length_seg_entries)
qed (simp_all add: seg_entry_eq seg_truncate_spec ensure_capacity_spec seg_flush_inv)

section \<open>Reachable segments\<close>

inductive seg_reach :: "(u32 \<Rightarrow> u8 list \<Rightarrow> u32) \<Rightarrow> segment \<Rightarrow> bool" for crcf where
  create: "seg_create seed old cap = Inr s \<Longrightarrow> seg_reach crcf s"
| append: "seg_reach crcf s \<Longrightarrow> length e < 2 ^ 64 \<Longrightarrow> seg_append crcf s e = Some (s', i) \<Longrightarrow>
     seg_reach crcf s'"
| truncate: "seg_reach crcf s \<Longrightarrow> seg_reach crcf (seg_truncate s k)"
| flush: "seg_reach crcf s \<Longrightarrow> seg_reach crcf (seg_flush s)"
| ensure: "seg_reach crcf s \<Longrightarrow> seg_reach crcf (ensure_capacity s n)"
| reopen: "seg_reach crcf s \<Longrightarrow> seg_open crcf (mmap s) = Inr s' \<Longrightarrow> seg_reach crcf s'"
| crash: "seg_reach crcf s \<Longrightarrow> seg_open crcf (disk (seg_flush s)) = Inr s' \<Longrightarrow> seg_reach crcf s'"

lemma seg_reach_inv: "seg_reach crcf s \<Longrightarrow> seg_inv crcf s"
proof (induction rule: seg_reach.induct)
  case (create seed old cap s)
  then have "HEADER_LEN \<le> cap" by (auto simp: seg_create_def Let_def split: if_splits)
  from seg_create_spec [OF this, of seed old crcf] create show ?case by auto
next
  case (append s e s' i)
  then have "sufficient_capacity s (length e)" using seg_append_None [of crcf s e] by auto
  from seg_append_spec [OF append.IH append.hyps(2) this] append.hyps(3) show ?case by auto
next
  case (reopen s s')
  from seg_open_image [OF reopen.IH refl refl] reopen.hyps show ?case by auto
next
  case (crash s s')
  from seg_open_image [OF crash.IH seg_flush_disk(2) [OF crash.IH] seg_flush_disk(1) [OF crash.IH]]
    crash.hyps
  show ?case by auto
qed (simp_all add: seg_truncate_spec seg_flush_inv ensure_capacity_spec)

section \<open>Properties\<close>


text \<open>Appending to a reachable segment either reports that the entry does not fit and
  nothing else, or returns the index behind the last entry; then that index reads the entry
  back and every other index reads what it read before.\<close>

lemma segment_append_functional:
  assumes "seg_reach crcf s" "length e < 2 ^ 64"
  shows "case seg_append crcf s e of
      None \<Rightarrow> \<not> sufficient_capacity s (length e)
    | Some (s', i) \<Rightarrow> i = seg_len s \<and> seg_len s' = seg_len s + 1 \<and>
        (\<forall>j. seg_entry s' j = (if j = i then Some e else seg_entry s j))"
proof (cases "sufficient_capacity s (length e)")
  case False
  then show ?thesis using seg_append_None [of crcf s e] by simp
next
  case True
  from seg_append_spec [OF seg_reach_inv [OF assms(1)] assms(2) True]
  obtain s' where s': "seg_append crcf s e = Some (s', seg_len s)"
    "seg_entries s' = seg_entries s @ [e]" by metis
  then have "seg_len s' = seg_len s + 1" by (metis length_append_singleton length_seg_entries Suc_eq_plus1)
  with s' show ?thesis by (auto simp: seg_entry_eq nth_append)
qed

text \<open>Truncating a reachable segment at \<open>k\<close> keeps exactly the first \<open>k\<close> entries, keeps
  the segment reachable, and lets the next append continue at index \<open>min k len\<close>.\<close>

lemma segment_truncate_functional:
  assumes "seg_reach crcf s"
  shows "seg_reach crcf (seg_truncate s k) \<and>
    seg_len (seg_truncate s k) = min (seg_len s) k \<and>
    (\<forall>j. seg_entry (seg_truncate s k) j = (if j < k then seg_entry s j else None))"
  using seg_truncate_spec(2) [OF seg_reach_inv [OF assms], of k]
    seg.truncate_len [OF seg_reach_inv [OF assms], of k] seg_reach.truncate [OF assms]
  by (simp add: seg_entry_eq)

text \<open>A truncation is not made durable by the flush that follows it. The flush offset was
  moved back to the new end of the segment, so the flush finds nothing to write and the
  zeroed range only exists in memory: opening the disk image after truncate and flush finds
  every entry the truncation removed.\<close>

lemma segment_truncate_not_flushed:
  assumes "seg_reach crcf s"
  shows "\<exists>s'. seg_open crcf (disk (seg_flush (seg_truncate (seg_flush s) k))) = Inr s' \<and>
    take (seg_len s) (seg_entries s') = seg_entries s"
proof -
  have "disk (seg_flush (seg_truncate (seg_flush s) k)) = disk (seg_flush s)"
  proof (cases "length (index s) \<le> k")
    case True
    then show ?thesis by (simp add: seg_truncate_def seg_flush_def Let_def seg_size_def)
  next
    case False
    have "flush_offset (seg_truncate (seg_flush s) k) = size_of (take k (index s))"
      using False size_of_take_le [OF seg_reach_inv [OF assms], of k]
      by (auto simp: seg_truncate_def Let_def seg_size_def [of "_\<lparr>crc := _\<rparr>"] min_def
          split: if_splits)
    moreover have "seg_size (seg_truncate (seg_flush s) k) = size_of (take k (index s))"
      using False by (simp add: seg_truncate_def Let_def seg_size_def [of "_\<lparr>flush_offset := _\<rparr>"])
    ultimately show ?thesis
      using seg_truncate_spec(5) [OF seg_flush_inv [OF seg_reach_inv [OF assms]], of k]
      by (simp add: seg_flush_def [of "seg_truncate _ _"] Let_def)
  qed
  note eq = this
  note inv = seg_reach_inv [OF assms]
  from seg_open_image [OF inv seg_flush_disk(2) [OF inv] seg_flush_disk(1) [OF inv]]
  show ?thesis unfolding eq by metis
qed

section \<open>Witnesses\<close>

text \<open>A CRC function to run the model with (any function does: the proofs assume nothing).\<close>

definition crc_example :: "u32 \<Rightarrow> u8 list \<Rightarrow> u32" where
  "crc_example c bs = of_nat (length bs) + 1"

definition seg_example0 :: segment where
  "seg_example0 = projr (seg_create 5 [] 64)"

definition seg_example :: segment where
  "seg_example = fst (the (seg_append crc_example seg_example0 [1, 2]))"

lemma seg_reach_example0: "seg_reach crc_example seg_example0"
proof (rule seg_reach.create)
  show "seg_create 5 [] 64 = Inr seg_example0"
    by (simp add: seg_example0_def seg_create_def Let_def HEADER_LEN_def)
qed

lemma seg_reach_example: "seg_reach crc_example seg_example"
proof -
  have "sufficient_capacity seg_example0 (length [1 :: u8, 2])" by code_simp
  then have "seg_append crc_example seg_example0 [1, 2] \<noteq> None" by (simp add: seg_append_None)
  then have "seg_append crc_example seg_example0 [1, 2] =
      Some (seg_example, snd (the (seg_append crc_example seg_example0 [1, 2])))"
    by (auto simp: seg_example_def)
  from seg_reach.append [OF seg_reach_example0 _ this] show ?thesis by simp
qed

lemma seg_example_entries: "seg_entries seg_example = [[1, 2]]"
  by code_simp


end
