(* ===== verification/WalLog.thy ===== *)
theory WalLog
  imports WalSegment
begin

text \<open>
  \<open>lib/wal/src/lib.rs\<close> and \<open>segment_creator.rs\<close>: a log is one open segment, a list of
  closed segments with the index of their first entry, and a creator of fresh segments. Log
  positions are \<open>u64\<close> in the code and \<open>nat\<close> here (a log never holds \<open>2 ^ 64\<close> entries).
  Panics (\<open>assert!\<close>, \<open>unwrap\<close>, \<open>unimplemented!\<close>) are the error \<open>Panic\<close>; system calls
  succeed. A retired segment is flushed by a thread that \<open>retire_open_segment\<close> joins before
  it starts the next: in the model the flush is done when the segment is closed.
\<close>

section \<open>The segment creator\<close>

text \<open>
  \<open>thread\<close> is the running creation task as (first id, count); \<open>seeds\<close> gives the random CRC
  seed the file with an id will get.
\<close>

record segment_creator =
  pending_segments :: "(nat \<times> segment) list"
  segment_capacity :: nat
  segment_queue_len :: nat
  current_id :: nat
  thread :: "(nat \<times> nat) option"
  seeds :: "nat \<Rightarrow> u32"

datatype wal_error =
    SegmentError segment_error
  | NoSegmentsAvailable
  | MissingSegments nat nat
  | Panic

fun create_segments ::
  "(nat \<Rightarrow> u32) \<Rightarrow> nat \<Rightarrow> nat \<Rightarrow> nat \<Rightarrow> (wal_error, (nat \<times> segment) list) result" where
  "create_segments sd start_id 0 cap = Inr []"
| "create_segments sd start_id (Suc n) cap =
     (case seg_create (sd start_id) [] cap of
        Inl e \<Rightarrow> Inl (SegmentError e)
      | Inr s \<Rightarrow> and_then (create_segments sd (start_id + 1) n cap)
                  (\<lambda>rest. Inr ((start_id, s) # rest)))"

definition schedule_creation :: "segment_creator \<Rightarrow> segment_creator" where
  "schedule_creation c =
     (if thread c = None \<and> length (pending_segments c) < segment_queue_len c
      then c\<lparr>thread := Some (current_id c, segment_queue_len c - length (pending_segments c))\<rparr>
      else c)"

text \<open>\<open>finished\<close>: what \<open>thread.is_finished()\<close> answered.\<close>

definition refill_pending :: "bool \<Rightarrow> segment_creator \<Rightarrow> (wal_error, segment_creator) result" where
  "refill_pending finished c =
     (case thread c of
        None \<Rightarrow> Inr c
      | Some (start_id, count) \<Rightarrow>
          if pending_segments c = [] \<or> finished
          then and_then (create_segments (seeds c) start_id count (segment_capacity c))
                 (\<lambda>new. Inr (c\<lparr>thread := None, current_id := current_id c + length new,
                              pending_segments := pending_segments c @ new\<rparr>))
          else Inr c)"

definition creator_next ::
  "bool \<Rightarrow> segment_creator \<Rightarrow> (wal_error, (nat \<times> segment) \<times> segment_creator) result" where
  "creator_next finished c =
     and_then (refill_pending finished c)
       (\<lambda>c'. case pending_segments c' of
           [] \<Rightarrow> Inl NoSegmentsAvailable
         | seg # rest \<Rightarrow> Inr (seg, schedule_creation (c'\<lparr>pending_segments := rest\<rparr>)))"

definition creator_new ::
  "(nat \<Rightarrow> u32) \<Rightarrow> (nat \<times> segment) option \<Rightarrow> (nat \<times> segment) list \<Rightarrow> nat \<Rightarrow> nat \<Rightarrow> segment_creator"
where
  "creator_new sd open_seg unused cap queue_len =
     (let unused' = sort_key fst unused;
          cur = (case (if unused' = [] then open_seg else Some (last unused')) of
                   None \<Rightarrow> 1 | Some (i, _) \<Rightarrow> i + 1)
      in schedule_creation \<lparr>pending_segments = unused', segment_capacity = cap,
           segment_queue_len = max queue_len 1, current_id = cur, thread = None, seeds = sd\<rparr>)"

section \<open>The log\<close>

record closed_segment =
  start_index :: nat
  c_segment :: segment

record wal =
  open_id :: nat
  open_segment :: segment
  closed_segments :: "closed_segment list"
  creator :: segment_creator
  retain_closed :: nat

definition open_segment_start_index :: "wal \<Rightarrow> nat" where
  "open_segment_start_index w =
     (if closed_segments w = [] then 0
      else (let c = last (closed_segments w) in start_index c + seg_len (c_segment c)))"

definition closed_cmp :: "nat \<Rightarrow> closed_segment \<Rightarrow> ordering" where
  "closed_cmp i c =
     (if i < start_index c then Greater
      else if start_index c + seg_len (c_segment c) \<le> i then Less
      else Equal)"

definition find_closed_segment :: "wal \<Rightarrow> nat \<Rightarrow> nat + nat" where
  "find_closed_segment w i =
     binary_search_by (\<lambda>j. closed_cmp i (closed_segments w ! j)) (length (closed_segments w))"

definition first_index :: "wal \<Rightarrow> nat" where
  "first_index w = (case closed_segments w of [] \<Rightarrow> 0 | c # _ \<Rightarrow> start_index c)"

definition num_entries :: "wal \<Rightarrow> nat" where
  "num_entries w = open_segment_start_index w - first_index w + seg_len (open_segment w)"

definition last_index :: "wal \<Rightarrow> nat" where
  "last_index w = first_index w + (num_entries w - 1)"

definition num_segments :: "wal \<Rightarrow> nat" where
  "num_segments w = length (closed_segments w) + 1"

definition close_segment :: "segment \<Rightarrow> nat \<Rightarrow> closed_segment" where
  "close_segment s start = \<lparr>start_index = start, c_segment = s\<rparr>"

definition retire_open_segment :: "bool \<Rightarrow> wal \<Rightarrow> (wal_error, wal) result" where
  "retire_open_segment finished w =
     and_then (creator_next finished (creator w))
       (\<lambda>((new_id, new_seg), cr).
          let segment = seg_flush (open_segment w);
              start = open_segment_start_index w;
              closed = (if closed_segments w \<noteq> [] \<and> seg_is_empty (c_segment (last (closed_segments w)))
                        then butlast (closed_segments w) else closed_segments w)
          in Inr (w\<lparr>open_id := new_id, open_segment := new_seg, creator := cr,
                    closed_segments := closed @ [close_segment segment start]\<rparr>))"

definition wal_append ::
  "(u32 \<Rightarrow> u8 list \<Rightarrow> u32) \<Rightarrow> bool \<Rightarrow> wal \<Rightarrow> u8 list \<Rightarrow> (wal_error, wal \<times> nat) result" where
  "wal_append crcf finished w entry =
     and_then
       (if \<not> sufficient_capacity (open_segment w) (length entry)
        then and_then (if \<not> seg_is_empty (open_segment w) then retire_open_segment finished w
                       else Inr w)
               (\<lambda>w'. Inr (w'\<lparr>open_segment := ensure_capacity (open_segment w') (length entry)\<rparr>))
        else Inr w)
       (\<lambda>w'. case seg_append crcf (open_segment w') entry of
           None \<Rightarrow> Inl Panic
         | Some (s, i) \<Rightarrow> Inr (w'\<lparr>open_segment := s\<rparr>, open_segment_start_index w' + i))"

definition flush_open_segment :: "wal \<Rightarrow> wal" where
  "flush_open_segment w = w\<lparr>open_segment := seg_flush (open_segment w)\<rparr>"

definition wal_entry :: "wal \<Rightarrow> nat \<Rightarrow> (wal_error, u8 list option) result" where
  "wal_entry w i =
     (let open_start = open_segment_start_index w
      in if open_start \<le> i then Inr (seg_entry (open_segment w) (i - open_start))
         else (case find_closed_segment w i of
                 Inr k \<Rightarrow> (let c = closed_segments w ! k
                           in Inr (seg_entry (c_segment c) (i - start_index c)))
               | Inl k \<Rightarrow> if k = 0 then Inr None else Inl Panic))"

definition wal_truncate :: "wal \<Rightarrow> nat \<Rightarrow> (wal_error, wal) result" where
  "wal_truncate w from_idx =
     (let open_start = open_segment_start_index w
      in if open_start \<le> from_idx
         then Inr (w\<lparr>open_segment := seg_truncate (open_segment w) (from_idx - open_start)\<rparr>)
         else
           (let w0 = w\<lparr>open_segment := seg_truncate (open_segment w) 0\<rparr>
            in case find_closed_segment w0 from_idx of
                 Inr k \<Rightarrow>
                   (let c = closed_segments w0 ! k
                    in if from_idx = start_index c
                       then Inr (w0\<lparr>closed_segments := take k (closed_segments w0)\<rparr>)
                       else (let c' = c\<lparr>c_segment :=
                               seg_flush (seg_truncate (c_segment c) (from_idx - start_index c))\<rparr>
                             in Inr (w0\<lparr>closed_segments := take k (closed_segments w0) @ [c']\<rparr>)))
               | Inl k \<Rightarrow>
                   (if from_idx \<le> (if k < length (closed_segments w0)
                                   then start_index (closed_segments w0 ! k) else 0)
                    then Inr (w0\<lparr>closed_segments := []\<rparr>)
                    else Inl Panic)))"

definition prefix_truncate :: "wal \<Rightarrow> nat \<Rightarrow> (wal_error, wal) result" where
  "prefix_truncate w until =
     (if until \<le> first_index w then Inr w
      else
        (let retain_start = length (closed_segments w) - retain_closed w
         in if open_segment_start_index w \<le> until
            then Inr (w\<lparr>closed_segments := drop retain_start (closed_segments w)\<rparr>)
            else (case find_closed_segment w until of
                    Inl _ \<Rightarrow> Inl Panic
                  | Inr k \<Rightarrow>
                      Inr (w\<lparr>closed_segments := drop (min k retain_start) (closed_segments w)\<rparr>))))"

definition wal_clear :: "wal \<Rightarrow> (wal_error, wal) result" where
  "wal_clear w = wal_truncate w (first_index w)"

definition set_retention :: "wal \<Rightarrow> nat \<Rightarrow> wal" where
  "set_retention w n = w\<lparr>retain_closed := max n 1\<rparr>"

section \<open>Opening a directory\<close>

text \<open>
  \<open>with_options\<close> on the segments found in the directory: closed segments must be contiguous,
  of the open segments that hold entries all but the last are closed, the rest is handed to
  the creator.
\<close>

fun validate_closed :: "nat \<Rightarrow> closed_segment list \<Rightarrow> (wal_error, nat) result" where
  "validate_closed next_start [] = Inr next_start"
| "validate_closed next_start (c # cs) =
     (if start_index c < next_start then Inl Panic
      else if start_index c = next_start
      then validate_closed (start_index c + seg_len (c_segment c)) cs
      else Inl (MissingSegments next_start (start_index c)))"

fun pick_open ::
  "(nat \<times> segment) list \<Rightarrow> (nat \<times> segment) option \<Rightarrow> (nat \<times> segment) list \<Rightarrow>
   closed_segment list \<Rightarrow> nat \<Rightarrow>
   (nat \<times> segment) option \<times> (nat \<times> segment) list \<times> closed_segment list" where
  "pick_open [] op unused closed next_start = (op, unused, closed)"
| "pick_open (s # ss) op unused closed next_start =
     (if \<not> seg_is_empty (snd s)
      then (case op of
              Some (_, stranded) \<Rightarrow>
                pick_open ss (Some s) unused (closed @ [close_segment stranded next_start])
                  (next_start + seg_len stranded)
            | None \<Rightarrow> pick_open ss (Some s) unused closed next_start)
      else (case op of
              None \<Rightarrow> pick_open ss (Some s) unused closed next_start
            | Some _ \<Rightarrow> pick_open ss op (unused @ [s]) closed next_start))"

definition with_options ::
  "(nat \<Rightarrow> u32) \<Rightarrow> bool \<Rightarrow> nat \<Rightarrow> nat \<Rightarrow> nat \<Rightarrow> (nat \<times> segment) list \<Rightarrow> closed_segment list \<Rightarrow>
   (wal_error, wal) result" where
  "with_options sd finished cap queue_len retain opens closed0 =
     (let closed = sort_key start_index closed0;
          next0 = (case closed of [] \<Rightarrow> 0 | c # _ \<Rightarrow> start_index c)
      in and_then (validate_closed next0 closed)
           (\<lambda>next_start.
              let (op, unused, closed') = pick_open (sort_key fst opens) None [] closed next_start;
                  cr = creator_new sd op unused cap queue_len
              in and_then (case op of
                     Some s \<Rightarrow> Inr (s, cr)
                   | None \<Rightarrow> creator_next finished cr)
                   (\<lambda>((i, s), cr').
                      Inr \<lparr>open_id = i, open_segment = s, closed_segments = closed',
                           creator = cr', retain_closed = retain\<rparr>)))"

section \<open>The invariant\<close>

fun contiguous :: "nat \<Rightarrow> closed_segment list \<Rightarrow> bool" where
  "contiguous s [] = True"
| "contiguous s (c # cs) = (start_index c = s \<and> contiguous (s + seg_len (c_segment c)) cs)"

definition creator_inv :: "(u32 \<Rightarrow> u8 list \<Rightarrow> u32) \<Rightarrow> segment_creator \<Rightarrow> bool" where
  "creator_inv crcf c \<longleftrightarrow>
     HEADER_LEN \<le> segment_capacity c \<and> 1 \<le> segment_queue_len c \<and>
     (\<forall>s \<in> snd ` set (pending_segments c). seg_inv crcf s \<and> seg_entries s = []) \<and>
     (case thread c of None \<Rightarrow> pending_segments c \<noteq> [] | Some (_, n) \<Rightarrow> 1 \<le> n)"

definition wal_inv :: "(u32 \<Rightarrow> u8 list \<Rightarrow> u32) \<Rightarrow> wal \<Rightarrow> bool" where
  "wal_inv crcf w \<longleftrightarrow>
     seg_inv crcf (open_segment w) \<and>
     (\<forall>c \<in> set (closed_segments w). seg_inv crcf (c_segment c)) \<and>
     contiguous (first_index w) (closed_segments w) \<and>
     1 \<le> retain_closed w \<and> creator_inv crcf (creator w)"

abbreviation closed_entries :: "closed_segment list \<Rightarrow> u8 list list" where
  "closed_entries cs \<equiv> concat (map (\<lambda>c. seg_entries (c_segment c)) cs)"

definition wal_entries :: "wal \<Rightarrow> u8 list list" where
  "wal_entries w = closed_entries (closed_segments w) @ seg_entries (open_segment w)"

lemma contiguous_append:
  "contiguous s (xs @ ys) \<longleftrightarrow>
     contiguous s xs \<and> contiguous (s + length (closed_entries xs)) ys"
  by (induction xs arbitrary: s) (auto simp: add.assoc)

lemma contiguous_nth:
  assumes "contiguous s cs" "k < length cs"
  shows "start_index (cs ! k) = s + length (closed_entries (take k cs))"
proof -
  have "contiguous s (take k cs @ cs ! k # drop (Suc k) cs)"
    using assms by (simp add: id_take_nth_drop [symmetric])
  then show ?thesis by (simp only: contiguous_append contiguous.simps)
qed

lemma open_start_eq:
  assumes "contiguous (first_index w) (closed_segments w)"
  shows "open_segment_start_index w = first_index w + length (closed_entries (closed_segments w))"
proof (cases "closed_segments w" rule: rev_cases)
  case Nil
  then show ?thesis by (simp add: open_segment_start_index_def first_index_def)
next
  case (snoc cs c)
  with assms show ?thesis
    by (simp add: open_segment_start_index_def contiguous_append Let_def)
qed

lemma first_index_Nil: "closed_segments w = [] \<Longrightarrow> first_index w = 0"
  by (simp add: first_index_def)

lemma length_wal_entries:
  assumes "contiguous (first_index w) (closed_segments w)"
  shows "num_entries w = length (wal_entries w)"
  using open_start_eq [OF assms] by (simp add: num_entries_def wal_entries_def)

lemma closed_nth:
  assumes "k < length cs" "j < seg_len (c_segment (cs ! k))"
  shows "closed_entries cs ! (length (closed_entries (take k cs)) + j) =
    seg_entries (c_segment (cs ! k)) ! j"
proof -
  have "closed_entries cs = closed_entries (take k cs) @ seg_entries (c_segment (cs ! k)) @
      closed_entries (drop (Suc k) cs)"
    using assms(1) by (metis concat.simps(2) concat_append id_take_nth_drop list.simps(9) map_append)
  then show ?thesis using assms(2) by (simp add: nth_append)
qed

lemma closed_entries_take_Suc:
  "k < length cs \<Longrightarrow> closed_entries (take (Suc k) cs) =
     closed_entries (take k cs) @ seg_entries (c_segment (cs ! k))"
  by (simp add: take_Suc_conv_app_nth)

lemma closed_entries_take_le:
  assumes "j \<le> k"
  shows "length (closed_entries (take j cs)) \<le> length (closed_entries (take k cs))"
proof -
  have "take k cs = take j cs @ drop j (take k cs)"
    using assms by (metis append_take_drop_id min.absorb1 take_take)
  then show ?thesis by (metis concat_append length_append map_append le_add1)
qed

section \<open>Finding a closed segment\<close>

lemma closed_cmp_sorted:
  assumes "contiguous s cs"
  shows "cmp_sorted (\<lambda>j. closed_cmp i (cs ! j)) (length cs)"
  unfolding cmp_sorted_def
proof (intro allI impI, elim conjE)
  fix a b assume ab: "a < b" "b < length cs"
  have "start_index (cs ! a) + seg_len (c_segment (cs ! a)) =
      s + length (closed_entries (take (Suc a) cs))"
    using contiguous_nth [OF assms, of a] closed_entries_take_Suc [of a cs] ab by simp
  also have "\<dots> \<le> start_index (cs ! b)"
    using closed_entries_take_le [of "Suc a" b cs] contiguous_nth [OF assms ab(2)] ab(1) by simp
  finally show "(closed_cmp i (cs ! a) = Greater \<longrightarrow> closed_cmp i (cs ! b) = Greater) \<and>
      (closed_cmp i (cs ! b) = Less \<longrightarrow> closed_cmp i (cs ! a) = Less)"
    by (auto simp: closed_cmp_def split: if_splits)
qed

lemma find_closed_Inr:
  assumes "contiguous (first_index w) (closed_segments w)" "find_closed_segment w i = Inr k"
  shows "k < length (closed_segments w) \<and>
    start_index (closed_segments w ! k) \<le> i \<and>
    i < start_index (closed_segments w ! k) + seg_len (c_segment (closed_segments w ! k))"
  using binary_search_by_Inr [OF closed_cmp_sorted [OF assms(1), of i]] assms(2)
  unfolding find_closed_segment_def
  by (force simp: closed_cmp_def split: if_splits)

lemma find_closed_Inl:
  assumes "contiguous (first_index w) (closed_segments w)" "find_closed_segment w i = Inl k"
    "i < open_segment_start_index w"
  shows "k = 0 \<and> i < first_index w"
proof -
  let ?cs = "closed_segments w"
  have k: "k \<le> length ?cs" "\<And>j. j < k \<Longrightarrow> closed_cmp i (?cs ! j) = Less"
    "\<And>j. k \<le> j \<Longrightarrow> j < length ?cs \<Longrightarrow> closed_cmp i (?cs ! j) = Greater"
    using binary_search_by_Inl [OF closed_cmp_sorted [OF assms(1), of i]] assms(2)
    unfolding find_closed_segment_def by blast+
  have "k = 0"
  proof (rule ccontr)
    assume "k \<noteq> 0"
    then obtain j where j: "k = Suc j" by (cases k) auto
    then have "start_index (?cs ! j) + seg_len (c_segment (?cs ! j)) \<le> i"
      using k(2) [of j] by (auto simp: closed_cmp_def split: if_splits)
    then have le: "first_index w + length (closed_entries (take k ?cs)) \<le> i"
      using contiguous_nth [OF assms(1), of j] closed_entries_take_Suc [of j ?cs] k(1) j by simp
    show False
    proof (cases "k = length ?cs")
      case True
      with le assms(3) open_start_eq [OF assms(1)] show ?thesis by simp
    next
      case False
      with k(1) have "k < length ?cs" by simp
      with le k(3) [of k] contiguous_nth [OF assms(1), of k] show ?thesis
        by (simp add: closed_cmp_def split: if_splits)
    qed
  qed
  moreover have "?cs \<noteq> []"
    using assms(3) by (auto simp: open_segment_start_index_def split: if_splits)
  ultimately show ?thesis
    using k(3) [of 0] by (cases ?cs) (auto simp: closed_cmp_def first_index_def split: if_splits)
qed

section \<open>Reading\<close>

lemma wal_invD:
  assumes "wal_inv crcf w"
  shows "seg_inv crcf (open_segment w)"
    "c \<in> set (closed_segments w) \<Longrightarrow> seg_inv crcf (c_segment c)"
    "contiguous (first_index w) (closed_segments w)"
    "1 \<le> retain_closed w" "creator_inv crcf (creator w)"
  using assms by (simp_all add: wal_inv_def)

lemma wal_entry_spec:
  assumes inv: "wal_inv crcf w"
  shows "wal_entry w i = Inr
    (if first_index w \<le> i \<and> i < first_index w + length (wal_entries w)
     then Some (wal_entries w ! (i - first_index w)) else None)"
proof -
  note ct = wal_invD(3) [OF inv] and os = open_start_eq [OF wal_invD(3) [OF inv]]
  let ?cs = "closed_segments w"
  show ?thesis
  proof (cases "open_segment_start_index w \<le> i")
    case True
    then have "wal_entry w i = Inr (seg_entry (open_segment w) (i - open_segment_start_index w))"
      by (simp add: wal_entry_def Let_def)
    with True os show ?thesis
      by (auto simp: seg_entry_eq wal_entries_def nth_append)
  next
    case False
    show ?thesis
    proof (cases "find_closed_segment w i")
      case (Inl k)
      with find_closed_Inl [OF ct Inl] False show ?thesis
        by (simp add: wal_entry_def Let_def)
    next
      case (Inr k)
      note f = find_closed_Inr [OF ct Inr]
      let ?pre = "length (closed_entries (take k ?cs))"
      have st: "start_index (?cs ! k) = first_index w + ?pre"
        using contiguous_nth [OF ct] f by blast
      have j: "i - start_index (?cs ! k) < seg_len (c_segment (?cs ! k))" using f by auto
      have lt: "?pre + seg_len (c_segment (?cs ! k)) \<le> length (closed_entries ?cs)"
        using closed_entries_take_le [of "Suc k" "length ?cs" ?cs] f
          closed_entries_take_Suc [of k ?cs] by simp
      have "closed_entries ?cs ! (i - first_index w) =
          seg_entries (c_segment (?cs ! k)) ! (i - start_index (?cs ! k))"
        using closed_nth [of k ?cs "i - start_index (?cs ! k)"] f st j by simp
      with Inr False f st lt j show ?thesis
        by (auto simp: wal_entry_def Let_def seg_entry_eq wal_entries_def nth_append)
    qed
  qed
qed

section \<open>The creator always delivers\<close>

lemma create_segments_spec:
  assumes "HEADER_LEN \<le> cap"
  shows "\<exists>xs. create_segments sd st n cap = Inr xs \<and> length xs = n \<and>
    map fst xs = [st..<st + n] \<and> (\<forall>s \<in> snd ` set xs. seg_inv crcf s \<and> seg_entries s = [])"
proof (induction n arbitrary: st)
  case 0
  then show ?case by simp
next
  case (Suc n)
  obtain s where s: "seg_create (sd st) [] cap = Inr s" "seg_inv crcf s" "seg_entries s = []"
    using seg_create_spec [OF assms, of "sd st" "[]" crcf] by metis
  obtain xs where "create_segments sd (st + 1) n cap = Inr xs" "length xs = n"
    "map fst xs = [st + 1..<st + 1 + n]"
    "\<forall>s \<in> snd ` set xs. seg_inv crcf s \<and> seg_entries s = []"
    using Suc.IH by blast
  with s show ?case by (auto simp: upt_conv_Cons)
qed

lemma creator_inv_schedule:
  assumes "HEADER_LEN \<le> segment_capacity c" "1 \<le> segment_queue_len c"
    "\<forall>s \<in> snd ` set (pending_segments c). seg_inv crcf s \<and> seg_entries s = []"
    "case thread c of None \<Rightarrow> True | Some (_, n) \<Rightarrow> 1 \<le> n"
  shows "creator_inv crcf (schedule_creation c)"
  using assms by (auto simp: creator_inv_def schedule_creation_def split: option.splits)

lemma creator_next_spec:
  assumes inv: "creator_inv crcf c"
  obtains i s c' where "creator_next fin c = Inr ((i, s), c')" "seg_inv crcf s"
    "seg_entries s = []" "creator_inv crcf c'" "segment_capacity c' = segment_capacity c"
proof -
  have cap: "HEADER_LEN \<le> segment_capacity c" and q: "1 \<le> segment_queue_len c"
    and pend: "\<forall>s \<in> snd ` set (pending_segments c). seg_inv crcf s \<and> seg_entries s = []"
    and th: "case thread c of None \<Rightarrow> pending_segments c \<noteq> [] | Some (_, n) \<Rightarrow> 1 \<le> n"
    using inv by (simp_all add: creator_inv_def)
  obtain c1 where c1: "refill_pending fin c = Inr c1" "pending_segments c1 \<noteq> []"
    "segment_capacity c1 = segment_capacity c" "segment_queue_len c1 = segment_queue_len c"
    "\<forall>s \<in> snd ` set (pending_segments c1). seg_inv crcf s \<and> seg_entries s = []"
    "case thread c1 of None \<Rightarrow> True | Some (_, n) \<Rightarrow> 1 \<le> n"
  proof (cases "thread c")
    case None
    with th pend show ?thesis using that [of c] by (simp add: refill_pending_def)
  next
    case (Some t)
    obtain st n where t: "t = (st, n)" by (cases t)
    show ?thesis
    proof (cases "pending_segments c = [] \<or> fin")
      case False
      with Some t pend th show ?thesis using that [of c] by (simp add: refill_pending_def)
    next
      case True
      obtain xs where xs: "create_segments (seeds c) st n (segment_capacity c) = Inr xs"
        "length xs = n" "\<forall>s \<in> snd ` set xs. seg_inv crcf s \<and> seg_entries s = []"
        using create_segments_spec [OF cap, of "seeds c" st n crcf] by blast
      then have ne: "xs \<noteq> []" using Some t th by auto
      from xs True Some t th pend show ?thesis
        using ne that [of "c\<lparr>thread := None, current_id := current_id c + length xs,
          pending_segments := pending_segments c @ xs\<rparr>"]
        by (auto simp: refill_pending_def)
    qed
  qed
  then obtain i s rest where p: "pending_segments c1 = (i, s) # rest"
    by (cases "pending_segments c1") auto
  let ?c' = "schedule_creation (c1\<lparr>pending_segments := rest\<rparr>)"
  have "creator_inv crcf ?c'"
    by (rule creator_inv_schedule) (use c1 p cap q in auto)
  moreover have "segment_capacity ?c' = segment_capacity c"
    using c1 by (simp add: schedule_creation_def)
  ultimately show ?thesis
    using that [of i s ?c'] c1 p by (simp add: creator_next_def)
qed

section \<open>Writing and truncating\<close>

lemma closed_entries_snoc: "closed_entries (cs @ [c]) = closed_entries cs @ seg_entries (c_segment c)"
  by simp

lemma retire_spec:
  assumes inv: "wal_inv crcf w" and ne: "\<not> seg_is_empty (open_segment w)"
  obtains w' where "retire_open_segment fin w = Inr w'" "wal_inv crcf w'"
    "wal_entries w' = wal_entries w" "first_index w' = first_index w"
    "seg_entries (open_segment w') = []"
proof -
  note d = wal_invD [OF inv] and os = open_start_eq [OF wal_invD(3) [OF inv]]
  obtain i s cr where nx: "creator_next fin (creator w) = Inr ((i, s), cr)" "seg_inv crcf s"
    "seg_entries s = []" "creator_inv crcf cr"
    using creator_next_spec [OF d(5)] by metis
  let ?cs = "closed_segments w"
  define closed where "closed = (if ?cs \<noteq> [] \<and> seg_is_empty (c_segment (last ?cs)) then butlast ?cs else ?cs)"
  define c where "c = close_segment (seg_flush (open_segment w)) (open_segment_start_index w)"
  let ?w = "w\<lparr>open_id := i, open_segment := s, creator := cr, closed_segments := closed @ [c]\<rparr>"
  have eq: "retire_open_segment fin w = Inr ?w"
    using nx by (simp add: retire_open_segment_def Let_def closed_def c_def)
  have ents: "closed_entries closed = closed_entries ?cs"
  proof (cases ?cs rule: rev_cases)
    case (snoc ys y)
    then show ?thesis by (auto simp: closed_def seg_is_empty_def seg_entries_def)
  qed (simp add: closed_def)
  have sub: "set closed \<subseteq> set ?cs" by (auto simp: closed_def dest: in_set_butlastD)
  have ct: "contiguous (first_index w) closed"
  proof (cases ?cs rule: rev_cases)
    case (snoc ys y)
    with d(3) show ?thesis by (auto simp: closed_def contiguous_append)
  qed (simp add: closed_def)
  have first: "first_index ?w = first_index w"
  proof (cases closed)
    case Nil
    then have "open_segment_start_index w = first_index w" using ents os by simp
    with Nil show ?thesis by (simp add: first_index_def c_def close_segment_def)
  next
    case (Cons y ys)
    with ct show ?thesis by (simp add: first_index_def)
  qed
  have "wal_inv crcf ?w"
    using d nx ct sub os ents seg_flush_inv [OF d(1)] unfolding wal_inv_def first
    by (auto simp: contiguous_append c_def close_segment_def)
  moreover have "wal_entries ?w = wal_entries w"
    using ents nx(3) by (simp add: wal_entries_def c_def close_segment_def)
  ultimately show ?thesis using that [OF eq] first nx(3) by simp
qed

lemma wal_inv_open:
  assumes "wal_inv crcf w" "seg_inv crcf s"
  shows "wal_inv crcf (w\<lparr>open_segment := s\<rparr>)" "first_index (w\<lparr>open_segment := s\<rparr>) = first_index w"
    "wal_entries (w\<lparr>open_segment := s\<rparr>) = closed_entries (closed_segments w) @ seg_entries s"
  using assms by (simp_all add: wal_inv_def first_index_def wal_entries_def)

lemma wal_append_spec:
  assumes inv: "wal_inv crcf w" and small: "length e < 2 ^ 64"
  obtains w' where "wal_append crcf fin w e = Inr (w', first_index w + length (wal_entries w))"
    "wal_inv crcf w'" "wal_entries w' = wal_entries w @ [e]" "first_index w' = first_index w"
proof -
  obtain w1 where w1: "wal_inv crcf w1" "wal_entries w1 = wal_entries w"
    "first_index w1 = first_index w" "sufficient_capacity (open_segment w1) (length e)"
    "wal_append crcf fin w e = (case seg_append crcf (open_segment w1) e of
           None \<Rightarrow> Inl Panic
         | Some (s, i) \<Rightarrow> Inr (w1\<lparr>open_segment := s\<rparr>, open_segment_start_index w1 + i))"
  proof (cases "sufficient_capacity (open_segment w) (length e)")
    case True
    then show ?thesis using that [of w] inv by (simp add: wal_append_def)
  next
    case False
    obtain w0 where w0: "wal_inv crcf w0" "wal_entries w0 = wal_entries w"
      "first_index w0 = first_index w"
      "(if \<not> seg_is_empty (open_segment w) then retire_open_segment fin w else Inr w) = Inr w0"
    proof (cases "seg_is_empty (open_segment w)")
      case True
      then show ?thesis using that [of w] inv by simp
    next
      case False
      from retire_spec [OF inv False, of fin] obtain w' where
        "retire_open_segment fin w = Inr w'" "wal_inv crcf w'" "wal_entries w' = wal_entries w"
        "first_index w' = first_index w" by metis
      then show ?thesis using that [of w'] False by simp
    qed
    let ?s = "ensure_capacity (open_segment w0) (length e)"
    note en = ensure_capacity_spec [OF wal_invD(1) [OF w0(1)], of "length e"]
    note wo = wal_inv_open [OF w0(1) en(1)]
    show ?thesis
      using that [of "w0\<lparr>open_segment := ?s\<rparr>"] wo en w0 False
      by (simp add: wal_append_def wal_entries_def)
  qed
  obtain s where s: "seg_append crcf (open_segment w1) e = Some (s, length (seg_entries (open_segment w1)))"
    "seg_inv crcf s" "seg_entries s = seg_entries (open_segment w1) @ [e]"
    using seg.append_fits [OF wal_invD(1) [OF w1(1)] small w1(4)] by metis
  note wo = wal_inv_open [OF w1(1) s(2)]
  have "open_segment_start_index w1 + length (seg_entries (open_segment w1)) =
      first_index w1 + length (wal_entries w1)"
    using open_start_eq [OF wal_invD(3) [OF w1(1)]] by (simp add: wal_entries_def)
  then have "wal_append crcf fin w e =
      Inr (w1\<lparr>open_segment := s\<rparr>, first_index w + length (wal_entries w))"
    using w1(2,3,5) s(1) by simp
  moreover have "wal_entries (w1\<lparr>open_segment := s\<rparr>) = wal_entries w @ [e]"
    using w1(2) s(3) by (simp add: wal_entries_def)
  ultimately show ?thesis using that wo(1,2) w1(3) by simp
qed

text \<open>Dropping a tail or a prefix of the closed segments.\<close>

lemma contiguous_take: "contiguous s cs \<Longrightarrow> contiguous s (take k cs)"
  by (metis append_take_drop_id contiguous_append)

lemma first_index_take:
  "contiguous (first_index w) (closed_segments w) \<Longrightarrow> 0 < k \<Longrightarrow>
   first_index (w\<lparr>closed_segments := take k (closed_segments w)\<rparr>) = first_index w"
  by (cases "closed_segments w"; cases k) (simp_all add: first_index_def)

lemma first_index_drop:
  assumes "contiguous (first_index w) (closed_segments w)" "k < length (closed_segments w)"
  shows "first_index (w\<lparr>closed_segments := drop k (closed_segments w)\<rparr>) =
      first_index w + length (closed_entries (take k (closed_segments w)))"
    and "contiguous (first_index (w\<lparr>closed_segments := drop k (closed_segments w)\<rparr>))
      (drop k (closed_segments w))"
proof -
  let ?cs = "closed_segments w"
  show *: "first_index (w\<lparr>closed_segments := drop k ?cs\<rparr>) =
      first_index w + length (closed_entries (take k ?cs))"
    using contiguous_nth [OF assms] Cons_nth_drop_Suc [OF assms(2), symmetric]
    by (simp add: first_index_def [of "w\<lparr>closed_segments := _\<rparr>"])
  have "contiguous (first_index w) (take k ?cs @ drop k ?cs)" using assms(1) by simp
  then show "contiguous (first_index (w\<lparr>closed_segments := drop k ?cs\<rparr>)) (drop k ?cs)"
    unfolding * contiguous_append by blast
qed

lemma closed_entries_take:
  "closed_entries (take k cs) = take (length (closed_entries (take k cs))) (closed_entries cs)"
  by (metis append_eq_conv_conj append_take_drop_id concat_append map_append)

lemma wal_truncate_spec:
  assumes inv: "wal_inv crcf w"
  obtains w' where "wal_truncate w i = Inr w'" "wal_inv crcf w'"
    "wal_entries w' = take (i - first_index w) (wal_entries w)"
    "first_index w' = first_index w \<or> first_index w' = 0 \<and> i \<le> first_index w"
    "first_index w < i \<Longrightarrow> first_index w' = first_index w"
proof -
  note d = wal_invD [OF inv] and os = open_start_eq [OF wal_invD(3) [OF inv]]
  let ?cs = "closed_segments w"
  show ?thesis
  proof (cases "open_segment_start_index w \<le> i")
    case True
    let ?s = "seg_truncate (open_segment w) (i - open_segment_start_index w)"
    note wo = wal_inv_open [OF inv seg_truncate_spec(1) [OF d(1), of "i - open_segment_start_index w"]]
    show ?thesis
    proof (rule that [of "w\<lparr>open_segment := ?s\<rparr>"])
      show "wal_entries (w\<lparr>open_segment := ?s\<rparr>) = take (i - first_index w) (wal_entries w)"
        using seg_truncate_spec(2) [OF d(1), of "i - open_segment_start_index w"] True os
        by (simp add: wal_entries_def)
    qed (use wo True in \<open>simp_all add: wal_truncate_def Let_def\<close>)
  next
    case False
    let ?w0 = "w\<lparr>open_segment := seg_truncate (open_segment w) 0\<rparr>"
    note t0 = seg_truncate_spec [OF d(1), of 0]
    have w0: "wal_inv crcf ?w0" "first_index ?w0 = first_index w" "closed_segments ?w0 = ?cs"
      using wal_inv_open [OF inv t0(1)] by simp_all
    have nx: "wal_truncate w i = (case find_closed_segment ?w0 i of
        Inr k \<Rightarrow> if i = start_index (?cs ! k) then Inr (?w0\<lparr>closed_segments := take k ?cs\<rparr>)
          else Inr (?w0\<lparr>closed_segments := take k ?cs @ [(?cs ! k)\<lparr>c_segment :=
                 seg_flush (seg_truncate (c_segment (?cs ! k)) (i - start_index (?cs ! k)))\<rparr>]\<rparr>)
      | Inl k \<Rightarrow> if i \<le> (if k < length ?cs then start_index (?cs ! k) else 0)
          then Inr (?w0\<lparr>closed_segments := []\<rparr>) else Inl Panic)"
      using False by (simp add: wal_truncate_def Let_def split: sum.split)
    have lt': "i < open_segment_start_index w" using False by simp
    have lt: "i < open_segment_start_index ?w0" using False by (auto simp: open_segment_start_index_def)
    show ?thesis
    proof (cases "find_closed_segment ?w0 i")
      case (Inl k)
      with find_closed_Inl [OF wal_invD(3) [OF w0(1)] Inl lt] w0
      have k: "k = 0" "i < first_index w" by auto
      then have "?cs \<noteq> []" using first_index_Nil by fastforce
      then have "i \<le> (if k < length ?cs then start_index (?cs ! k) else 0)"
        using k by (cases ?cs) (auto simp: first_index_def)
      then have eq: "wal_truncate w i = Inr (?w0\<lparr>closed_segments := []\<rparr>)" using nx Inl by simp
      show ?thesis
        by (rule that [OF eq]) (use d t0 k in \<open>auto simp: wal_inv_def wal_entries_def first_index_def\<close>)
    next
      case (Inr k)
      note f = find_closed_Inr [OF wal_invD(3) [OF w0(1)] Inr, unfolded w0(3)]
      have kl: "k < length ?cs" using f by blast
      note st = contiguous_nth [OF d(3) kl]
      have ck: "seg_inv crcf (c_segment (?cs ! k))" using d(2) kl by simp
      show ?thesis
      proof (cases "i = start_index (?cs ! k)")
        case True
        let ?w = "?w0\<lparr>closed_segments := take k ?cs\<rparr>"
        have eq: "wal_truncate w i = Inr ?w" using nx Inr True by simp
        have ents: "wal_entries ?w = take (i - first_index w) (wal_entries w)"
          using closed_entries_take [of k ?cs] True st t0(2) closed_entries_take_le [of k "length ?cs" ?cs] kl
          by (simp add: wal_entries_def)
        have ct: "contiguous (first_index ?w) (take k ?cs)"
          using contiguous_take [OF d(3), of k] first_index_take [OF d(3), of k]
          by (cases k) (simp_all add: first_index_def)
        then have inv': "wal_inv crcf ?w"
          using d t0 by (auto simp: wal_inv_def dest: in_set_takeD)
        show ?thesis
        proof (rule that [OF eq inv' ents])
          show "first_index ?w = first_index w \<or> first_index ?w = 0 \<and> i \<le> first_index w"
            using first_index_take [OF d(3), of k] True st by (cases k) (simp_all add: first_index_def)
          show "first_index ?w = first_index w" if "first_index w < i"
            using first_index_take [OF d(3), of k] True st that by (cases k) (simp_all add: first_index_def)
        qed
      next
        case False
        let ?n = "i - start_index (?cs ! k)"
        let ?c = "(?cs ! k)\<lparr>c_segment := seg_flush (seg_truncate (c_segment (?cs ! k)) ?n)\<rparr>"
        let ?w = "?w0\<lparr>closed_segments := take k ?cs @ [?c]\<rparr>"
        have eq: "wal_truncate w i = Inr ?w" using nx Inr False by simp
        note tk = seg_truncate_spec [OF ck, of ?n]
        have i: "i - first_index w = length (closed_entries (take k ?cs)) + ?n" using f st by simp
        have "take (i - first_index w) (closed_entries ?cs) =
            closed_entries (take k ?cs) @ take ?n (seg_entries (c_segment (?cs ! k)))"
        proof -
          have "closed_entries ?cs = closed_entries (take k ?cs) @ seg_entries (c_segment (?cs ! k)) @
              closed_entries (drop (Suc k) ?cs)"
            using kl by (metis concat.simps(2) concat_append id_take_nth_drop list.simps(9) map_append)
          moreover have "?n \<le> seg_len (c_segment (?cs ! k))" using f by auto
          ultimately show ?thesis unfolding i by simp
        qed
        moreover have "i - first_index w \<le> length (closed_entries ?cs)"
          using lt' os by simp
        ultimately have ents: "wal_entries ?w = take (i - first_index w) (wal_entries w)"
          using tk(2) t0(2) by (simp add: wal_entries_def)
        have fi: "first_index ?w = first_index w"
          using kl d(3) by (cases ?cs; cases k) (simp_all add: first_index_def)
        have "contiguous (first_index w) (take k ?cs @ [?c])"
          using contiguous_take [OF d(3), of k] st by (simp add: contiguous_append)
        then have inv': "wal_inv crcf ?w"
          using d t0(1) seg_flush_inv [OF tk(1)] unfolding wal_inv_def fi
          by (auto dest: in_set_takeD)
        show ?thesis by (rule that [OF eq inv' ents]) (simp_all add: fi)
      qed
    qed
  qed
qed

lemma wal_truncate_first_restarts:
  assumes inv: "wal_inv crcf w" and cs: "closed_segments w = c # cs" "\<not> seg_is_empty (c_segment c)"
  obtains w' where "wal_truncate w (first_index w) = Inr w'" "wal_inv crcf w'"
    "wal_entries w' = []" "first_index w' = 0"
proof -
  note d = wal_invD [OF inv] and os = open_start_eq [OF wal_invD(3) [OF inv]]
  have len: "0 < seg_len (c_segment c)" using cs(2) by (simp add: seg_is_empty_def seg_len_def)
  have lt: "first_index w < open_segment_start_index w" using os cs(1) len by simp
  let ?w0 = "w\<lparr>open_segment := seg_truncate (open_segment w) 0\<rparr>"
  have w0: "wal_inv crcf ?w0" "first_index ?w0 = first_index w"
    using wal_inv_open [OF inv seg_truncate_spec(1) [OF d(1), of 0]] by simp_all
  have "open_segment_start_index ?w0 = open_segment_start_index w"
    by (simp add: open_segment_start_index_def)
  with lt find_closed_Inl [OF wal_invD(3) [OF w0(1)], of "first_index w"] w0(2)
  obtain k where k: "find_closed_segment ?w0 (first_index w) = Inr k"
    by (cases "find_closed_segment ?w0 (first_index w)") auto
  note f = find_closed_Inr [OF wal_invD(3) [OF w0(1)] k]
  have kl: "k < length (c # cs)" using f cs(1) by simp
  have "k = 0"
  proof (rule ccontr)
    assume "k \<noteq> 0"
    then obtain j where "k = Suc j" by (cases k) auto
    then have "start_index ((c # cs) ! k) = first_index w + length (closed_entries (take (Suc j) (c # cs)))"
      using contiguous_nth [OF d(3)] cs(1) kl by metis
    then show False using f cs(1) len by simp
  qed
  moreover have "first_index w = start_index c" using cs(1) by (simp add: first_index_def)
  ultimately have eq: "wal_truncate w (first_index w) = Inr (?w0\<lparr>closed_segments := []\<rparr>)"
    using lt k cs(1) by (simp add: wal_truncate_def Let_def)
  show ?thesis
    using wal_truncate_spec [OF inv, of "first_index w"] eq
    by (intro that [OF eq]) (auto simp: first_index_def)
qed

lemma prefix_truncate_spec:
  assumes inv: "wal_inv crcf w"
  obtains w' n where "prefix_truncate w i = Inr w'" "wal_inv crcf w'"
    "first_index w' = first_index w + n" "wal_entries w' = drop n (wal_entries w)"
    "n \<le> i - first_index w" "n \<le> length (wal_entries w)"
proof -
  note concl = that
  note d = wal_invD [OF inv] and os = open_start_eq [OF wal_invD(3) [OF inv]]
  let ?cs = "closed_segments w" and ?rs = "length (closed_segments w) - retain_closed w"
  have drop: thesis
    if eq: "prefix_truncate w i = Inr (w\<lparr>closed_segments := drop m ?cs\<rparr>)" and m: "m < length ?cs"
      and le: "length (closed_entries (take m ?cs)) \<le> i - first_index w" for m
  proof -
    let ?w = "w\<lparr>closed_segments := drop m ?cs\<rparr>" and ?n = "length (closed_entries (take m ?cs))"
    note fd = first_index_drop [OF d(3) m]
    have n: "?n \<le> length (closed_entries ?cs)"
      using closed_entries_take_le [of m "length ?cs" ?cs] m by simp
    have "closed_entries (drop m ?cs) = drop ?n (closed_entries ?cs)"
      by (metis append_eq_conv_conj append_take_drop_id concat_append map_append)
    then have "wal_entries ?w = drop ?n (wal_entries w)" using n by (simp add: wal_entries_def)
    moreover have "wal_inv crcf ?w"
      using d fd(2) by (auto simp: wal_inv_def dest: in_set_dropD)
    ultimately show thesis using concl [OF eq _ fd(1)] le n by (simp add: wal_entries_def)
  qed
  show ?thesis
  proof (cases "i \<le> first_index w")
    case True
    then show ?thesis using that [of w 0] inv by (simp add: prefix_truncate_def)
  next
    case False
    show ?thesis
    proof (cases "open_segment_start_index w \<le> i")
      case True
      then have eq: "prefix_truncate w i = Inr (w\<lparr>closed_segments := drop ?rs ?cs\<rparr>)"
        using False by (simp add: prefix_truncate_def Let_def)
      show ?thesis
      proof (cases "?cs = []")
        case True
        then have "w\<lparr>closed_segments := drop ?rs ?cs\<rparr> = w" by simp
        with eq show ?thesis using that [of w 0] inv by simp
      next
        case ne: False
        then have m: "?rs < length ?cs" using d(4) by (cases ?cs) auto
        have "length (closed_entries (take ?rs ?cs)) \<le> i - first_index w"
          using closed_entries_take_le [of ?rs "length ?cs" ?cs] os True by simp
        from drop [OF eq m this] show ?thesis .
      qed
    next
      case lt: False
      show ?thesis
      proof (cases "find_closed_segment w i")
        case (Inl k)
        with find_closed_Inl [OF d(3) Inl] lt False show ?thesis by simp
      next
        case (Inr k)
        note f = find_closed_Inr [OF d(3) Inr]
        have eq: "prefix_truncate w i = Inr (w\<lparr>closed_segments := drop (min k ?rs) ?cs\<rparr>)"
          using False lt Inr by (simp add: prefix_truncate_def Let_def)
        have "length (closed_entries (take (min k ?rs) ?cs)) \<le> length (closed_entries (take k ?cs))"
          by (rule closed_entries_take_le) simp
        also have "\<dots> \<le> i - first_index w" using f contiguous_nth [OF d(3), of k] by auto
        finally show ?thesis using drop [OF eq] f by fastforce
      qed
    qed
  qed
qed

section \<open>Opening\<close>

abbreviation opt_entries :: "(nat \<times> segment) option \<Rightarrow> u8 list list" where
  "opt_entries op \<equiv> (case op of None \<Rightarrow> [] | Some (_, s) \<Rightarrow> seg_entries s)"

abbreviation segs_inv :: "(u32 \<Rightarrow> u8 list \<Rightarrow> u32) \<Rightarrow> (nat \<times> segment) list \<Rightarrow> bool" where
  "segs_inv crcf ss \<equiv> (\<forall>s \<in> snd ` set ss. seg_inv crcf s)"

lemma seg_is_empty_entries: "seg_is_empty s \<longleftrightarrow> seg_entries s = []"
  by (simp add: seg_is_empty_def seg_entries_def)

lemma validate_closed_contiguous:
  "validate_closed n cs = Inr m \<Longrightarrow> contiguous n cs \<and> m = n + length (closed_entries cs)"
  by (induction n cs rule: validate_closed.induct) (auto split: if_splits)

definition pick_ok :: "(u32 \<Rightarrow> u8 list \<Rightarrow> u32) \<Rightarrow> nat \<Rightarrow> (nat \<times> segment) option \<Rightarrow>
    (nat \<times> segment) list \<Rightarrow> closed_segment list \<Rightarrow> bool" where
  "pick_ok crcf b op unused closed \<longleftrightarrow>
     (case op of None \<Rightarrow> True | Some (_, s) \<Rightarrow> seg_inv crcf s) \<and>
     (\<forall>s \<in> snd ` set unused. seg_inv crcf s \<and> seg_entries s = []) \<and>
     (\<forall>c \<in> set closed. seg_inv crcf (c_segment c)) \<and> contiguous b closed"

lemma pick_open_spec:
  assumes "pick_open ss op unused closed n = (op', unused', closed')"
    "segs_inv crcf ss" "pick_ok crcf b op unused closed"
    "n = b + length (closed_entries closed)"
  shows "closed_entries closed' @ opt_entries op' =
      closed_entries closed @ opt_entries op @ concat (map (seg_entries \<circ> snd) ss) \<and>
    pick_ok crcf b op' unused' closed'"
  using assms
proof (induction ss arbitrary: op unused closed n)
  case Nil
  then show ?case by simp
next
  case (Cons s ss)
  obtain i sg where s: "s = (i, sg)" by (cases s)
  have sg: "seg_inv crcf sg" and ss: "segs_inv crcf ss" using Cons.prems(2) s by auto
  consider (empty) "seg_entries sg = []" "op = None" | (extra) o1 where "seg_entries sg = []" "op = Some o1"
    | (first) "seg_entries sg \<noteq> []" "op = None"
    | (stranded) j st where "seg_entries sg \<noteq> []" "op = Some (j, st)"
    by (metis option.exhaust prod.exhaust)
  then show ?case
  proof cases
    case empty
    then have step: "pick_open ss (Some s) unused closed n = (op', unused', closed')"
      using Cons.prems(1) s by (simp add: seg_is_empty_entries)
    have ok: "pick_ok crcf b (Some s) unused closed"
      using Cons.prems(3) s sg by (simp add: pick_ok_def)
    show ?thesis
      unfolding Cons.IH [OF step ss ok Cons.prems(4), THEN conjunct1]
      using Cons.IH [OF step ss ok Cons.prems(4), THEN conjunct2] empty s by (simp add: comp_def)
  next
    case extra
    then have step: "pick_open ss op (unused @ [s]) closed n = (op', unused', closed')"
      using Cons.prems(1) s by (simp add: seg_is_empty_entries)
    have ok: "pick_ok crcf b op (unused @ [s]) closed"
      using Cons.prems(3) s sg extra by (simp add: pick_ok_def)
    show ?thesis
      unfolding Cons.IH [OF step ss ok Cons.prems(4), THEN conjunct1]
      using Cons.IH [OF step ss ok Cons.prems(4), THEN conjunct2] extra s by (simp add: comp_def)
  next
    case first
    then have step: "pick_open ss (Some s) unused closed n = (op', unused', closed')"
      using Cons.prems(1) s by (simp add: seg_is_empty_entries)
    have ok: "pick_ok crcf b (Some s) unused closed"
      using Cons.prems(3) s sg by (simp add: pick_ok_def)
    show ?thesis
      unfolding Cons.IH [OF step ss ok Cons.prems(4), THEN conjunct1]
      using Cons.IH [OF step ss ok Cons.prems(4), THEN conjunct2] first s by (simp add: comp_def)
  next
    case stranded
    let ?closed = "closed @ [close_segment st n]"
    have step: "pick_open ss (Some s) unused ?closed (n + seg_len st) = (op', unused', closed')"
      using Cons.prems(1) s stranded by (simp add: seg_is_empty_entries)
    have "pick_ok crcf b (Some s) unused ?closed"
      using Cons.prems(3,4) stranded s sg
      by (simp add: pick_ok_def close_segment_def contiguous_append)
    from Cons.IH [OF step ss this] Cons.prems(4) stranded s
    show ?thesis by (simp add: close_segment_def comp_def)
  qed
qed

lemma pick_open_prefix:
  "pick_open ss op unused closed n = (op', unused', closed') \<Longrightarrow> \<exists>zs. closed' = closed @ zs"
proof (induction ss arbitrary: op unused closed n)
  case Nil
  then show ?case by simp
next
  case (Cons s ss)
  then show ?case by (fastforce split: if_splits option.splits prod.splits)
qed

lemma creator_new_inv:
  assumes "HEADER_LEN \<le> cap" "\<forall>s \<in> snd ` set unused. seg_inv crcf s \<and> seg_entries s = []"
  shows "creator_inv crcf (creator_new sd op unused cap q)"
  unfolding creator_new_def Let_def
  by (rule creator_inv_schedule) (use assms in auto)

lemma with_options_spec:
  assumes op: "with_options sd fin cap q retain opens closed0 = Inr w"
    and cap: "HEADER_LEN \<le> cap" and ret: "1 \<le> retain"
    and inv: "segs_inv crcf opens" "\<forall>c \<in> set closed0. seg_inv crcf (c_segment c)"
  shows "wal_inv crcf w \<and>
    wal_entries w = closed_entries (sort_key start_index closed0) @
      concat (map (seg_entries \<circ> snd) (sort_key fst opens)) \<and>
    (closed0 \<noteq> [] \<longrightarrow> first_index w = start_index (hd (sort_key start_index closed0)))"
proof -
  let ?cl = "sort_key start_index closed0" and ?os = "sort_key fst opens"
  let ?b = "case ?cl of [] \<Rightarrow> 0 | c # _ \<Rightarrow> start_index c"
  from op obtain n where v: "validate_closed ?b ?cl = Inr n"
    by (auto simp: with_options_def Let_def result_simps)
  obtain op' unused' closed' where pk: "pick_open ?os None [] ?cl n = (op', unused', closed')"
    by (cases "pick_open ?os None [] ?cl n") auto
  note vc = validate_closed_contiguous [OF v]
  have P: "closed_entries closed' @ opt_entries op' =
      closed_entries ?cl @ concat (map (seg_entries \<circ> snd) ?os)"
    and ok: "pick_ok crcf ?b op' unused' closed'"
    using pick_open_spec [OF pk, of crcf ?b] inv vc by (simp_all add: pick_ok_def)
  note ok = ok [unfolded pick_ok_def]
  let ?cr = "creator_new sd op' unused' cap q"
  have cr: "creator_inv crcf ?cr" using creator_new_inv [OF cap] ok by blast
  obtain i s cr' where fin: "(case op' of Some s \<Rightarrow> Inr (s, ?cr) | None \<Rightarrow> creator_next fin ?cr) =
      Inr ((i, s), cr')"
    and s: "seg_inv crcf s" "seg_entries s = opt_entries op'" "creator_inv crcf cr'"
  proof (cases op')
    case None
    with creator_next_spec [OF cr, of fin] that show ?thesis by auto
  next
    case (Some o1)
    with ok cr that show ?thesis by (cases o1) auto
  qed
  have w: "w = \<lparr>open_id = i, open_segment = s, closed_segments = closed',
      creator = cr', retain_closed = retain\<rparr>"
    using op v pk fin by (simp add: with_options_def Let_def)
  have b: "closed' \<noteq> [] \<Longrightarrow> first_index w = ?b"
    using ok by (cases closed') (auto simp: w first_index_def)
  have ct: "contiguous (first_index w) closed'"
    using ok b by (cases "closed' = []") auto
  have "closed' \<noteq> [] \<and> ?b = start_index (hd ?cl)" if "closed0 \<noteq> []"
  proof -
    have "?cl \<noteq> []" using that by (metis length_0_conv length_sort)
    then show ?thesis using pick_open_prefix [OF pk] by (cases ?cl) auto
  qed
  then show ?thesis
    using P ok s ct ret b by (simp add: w wal_inv_def wal_entries_def)
qed

lemma validate_closed_ok:
  "contiguous n cs \<Longrightarrow> validate_closed n cs = Inr (n + length (closed_entries cs))"
  by (induction n cs rule: validate_closed.induct) auto

lemma with_options_ok:
  fixes closed0 :: "closed_segment list"
  assumes cap: "HEADER_LEN \<le> cap"
    and inv: "segs_inv crcf opens" "\<forall>c \<in> set closed0. seg_inv crcf (c_segment c)"
    and ct: "contiguous (start_index (hd (sort_key start_index closed0))) (sort_key start_index closed0)"
  shows "\<exists>w. with_options sd fin cap q retain opens closed0 = Inr w"
proof -
  let ?cl = "sort_key start_index closed0" and ?os = "sort_key fst opens"
  let ?b = "case ?cl of [] \<Rightarrow> 0 | c # _ \<Rightarrow> start_index c"
  have ctb: "contiguous ?b ?cl" using ct by (cases ?cl) auto
  note v = validate_closed_ok [OF ctb]
  obtain op' unused' closed' where pk: "pick_open ?os None [] ?cl (?b + length (closed_entries ?cl)) =
      (op', unused', closed')"
    by (cases "pick_open ?os None [] ?cl (?b + length (closed_entries ?cl))") auto
  have "pick_ok crcf ?b op' unused' closed'"
    using pick_open_spec [OF pk, of crcf ?b] inv ctb by (simp add: pick_ok_def)
  then have cr: "creator_inv crcf (creator_new sd op' unused' cap q)"
    using creator_new_inv [OF cap, of unused' crcf sd op' q] by (auto simp: pick_ok_def)
  obtain i s cr' where nx: "creator_next fin (creator_new sd op' unused' cap q) = Inr ((i, s), cr')"
    using creator_next_spec [OF cr, of fin] by metis
  show ?thesis
    using v pk nx by (cases op') (auto simp: with_options_def Let_def result_simps)
qed

section \<open>The interface of an indexed log\<close>

text \<open>
  What \<open>SerdeWal\<close> and \<open>ConsensusOpWal\<close> rely on: a log is a list of entries with the index of
  the first; truncation keeps what is below the given index, prefix truncation keeps at least
  what is at or above it.
\<close>

locale indexed_log =
  fixes ents :: "'w \<Rightarrow> 'e list"
    and first :: "'w \<Rightarrow> nat"
    and num :: "'w \<Rightarrow> nat"
    and entry :: "'w \<Rightarrow> nat \<Rightarrow> ('x, 'e option) result"
    and append :: "'w \<Rightarrow> 'e \<Rightarrow> ('x, 'w \<times> nat) result"
    and truncate :: "'w \<Rightarrow> nat \<Rightarrow> ('x, 'w) result"
    and prefix :: "'w \<Rightarrow> nat \<Rightarrow> ('x, 'w) result"
    and flush :: "'w \<Rightarrow> 'w"
    and ok :: "'w \<Rightarrow> bool"
    and admissible :: "'e \<Rightarrow> bool"
  assumes num: "ok w \<Longrightarrow> num w = length (ents w)"
    and entry: "ok w \<Longrightarrow> entry w i = Inr
      (if first w \<le> i \<and> i < first w + length (ents w) then Some (ents w ! (i - first w)) else None)"
    and append: "ok w \<Longrightarrow> admissible e \<Longrightarrow> \<exists>w'. append w e = Inr (w', first w + length (ents w)) \<and>
      ok w' \<and> ents w' = ents w @ [e] \<and> first w' = first w"
    and truncate: "ok w \<Longrightarrow> \<exists>w'. truncate w i = Inr w' \<and> ok w' \<and>
      ents w' = take (i - first w) (ents w) \<and> (first w < i \<longrightarrow> first w' = first w)"
    and prefix: "ok w \<Longrightarrow> \<exists>w' n. prefix w i = Inr w' \<and> ok w' \<and> first w' = first w + n \<and>
      ents w' = drop n (ents w) \<and> n \<le> i - first w \<and> n \<le> length (ents w)"
    and flush: "ok w \<Longrightarrow> ok (flush w) \<and> ents (flush w) = ents w \<and> first (flush w) = first w"
begin

lemma append_reads_back:
  assumes "ok w" "admissible e"
  obtains w' where "append w e = Inr (w', first w + num w)" "ok w'" "ents w' = ents w @ [e]"
    "first w' = first w" "num w' = num w + 1" "entry w' (first w + num w) = Inr (Some e)"
    "\<And>j. j \<noteq> first w + num w \<Longrightarrow> entry w' j = entry w j"
proof -
  obtain w' where w': "append w e = Inr (w', first w + length (ents w))" "ok w'"
    "ents w' = ents w @ [e]" "first w' = first w"
    using append [OF assms] by blast
  show ?thesis
    by (rule that [of w']) (use w' num [OF assms(1)] num [OF w'(2)] entry [OF assms(1)]
      entry [OF w'(2)] in \<open>auto simp: nth_append\<close>)
qed

lemma truncate_reads:
  assumes "ok w" "first w < i"
  obtains w' where "truncate w i = Inr w'" "ok w'" "first w' = first w"
    "num w' = min (num w) (i - first w)"
    "\<And>j. entry w' j = (if j < i then entry w j else Inr None)"
proof -
  obtain w' where w': "truncate w i = Inr w'" "ok w'" "first w' = first w"
    "ents w' = take (i - first w) (ents w)"
    using truncate [OF assms(1), of i] assms(2) by blast
  show ?thesis
    by (rule that [of w']) (use w' num [OF assms(1)] num [OF w'(2)] entry [OF assms(1)]
      entry [OF w'(2)] in auto)
qed

lemma prefix_reads:
  assumes "ok w"
  obtains w' where "prefix w i = Inr w'" "ok w'" "first w \<le> first w'" "first w' \<le> max i (first w)"
    "first w' + num w' = first w + num w" "\<And>j. first w' \<le> j \<Longrightarrow> entry w' j = entry w j"
proof -
  obtain w' n where w': "prefix w i = Inr w'" "ok w'" "first w' = first w + n"
    "ents w' = drop n (ents w)" "n \<le> i - first w" "n \<le> length (ents w)"
    using prefix [OF assms, of i] by blast
  show ?thesis
    by (rule that [of w']) (use w' num [OF assms] num [OF w'(2)] entry [OF assms]
      entry [OF w'(2)] in auto)
qed

end

interpretation wl: indexed_log wal_entries first_index num_entries wal_entry "wal_append crcf fin"
  wal_truncate prefix_truncate flush_open_segment "wal_inv crcf" "\<lambda>e. length e < 2 ^ 64"
  for crcf fin
proof unfold_locales
  fix w i assume w: "wal_inv crcf w"
  show "\<exists>w'. wal_truncate w i = Inr w' \<and> wal_inv crcf w' \<and>
      wal_entries w' = take (i - first_index w) (wal_entries w) \<and>
      (first_index w < i \<longrightarrow> first_index w' = first_index w)"
    using wal_truncate_spec [OF w, of i] by metis
  show "\<exists>w' n. prefix_truncate w i = Inr w' \<and> wal_inv crcf w' \<and> first_index w' = first_index w + n \<and>
      wal_entries w' = drop n (wal_entries w) \<and> n \<le> i - first_index w \<and> n \<le> length (wal_entries w)"
    using prefix_truncate_spec [OF w, of i] by metis
next
  fix w :: wal and e :: "u8 list"
  assume "wal_inv crcf w" "length e < 2 ^ 64"
  then show "\<exists>w'. wal_append crcf fin w e = Inr (w', first_index w + length (wal_entries w)) \<and>
      wal_inv crcf w' \<and> wal_entries w' = wal_entries w @ [e] \<and> first_index w' = first_index w"
    by (metis wal_append_spec)
next
  fix w assume w: "wal_inv crcf w"
  show "wal_inv crcf (flush_open_segment w) \<and> wal_entries (flush_open_segment w) = wal_entries w \<and>
      first_index (flush_open_segment w) = first_index w"
    using w wal_inv_open [OF w, of "seg_flush (open_segment w)"]
    by (simp add: flush_open_segment_def seg_flush_inv wal_invD(1) wal_entries_def)
qed (simp_all add: wal_entry_spec length_wal_entries wal_invD(3))

section \<open>Reachable logs\<close>

text \<open>A log opened on valid segments, then operated on in any order.\<close>

inductive wal_reach :: "(u32 \<Rightarrow> u8 list \<Rightarrow> u32) \<Rightarrow> wal \<Rightarrow> bool" for crcf where
  opened: "with_options sd fin cap q retain opens closed0 = Inr w \<Longrightarrow> HEADER_LEN \<le> cap \<Longrightarrow>
    1 \<le> retain \<Longrightarrow> \<forall>s \<in> snd ` set opens. seg_reach crcf s \<Longrightarrow>
    \<forall>c \<in> set closed0. seg_reach crcf (c_segment c) \<Longrightarrow> wal_reach crcf w"
| append: "wal_reach crcf w \<Longrightarrow> length e < 2 ^ 64 \<Longrightarrow> wal_append crcf fin w e = Inr (w', i) \<Longrightarrow>
    wal_reach crcf w'"
| truncate: "wal_reach crcf w \<Longrightarrow> wal_truncate w i = Inr w' \<Longrightarrow> wal_reach crcf w'"
| prefix: "wal_reach crcf w \<Longrightarrow> prefix_truncate w i = Inr w' \<Longrightarrow> wal_reach crcf w'"
| flush: "wal_reach crcf w \<Longrightarrow> wal_reach crcf (flush_open_segment w)"
| retention: "wal_reach crcf w \<Longrightarrow> wal_reach crcf (set_retention w n)"

lemma wal_reach_inv: "wal_reach crcf w \<Longrightarrow> wal_inv crcf w"
proof (induction rule: wal_reach.induct)
  case (opened sd fin cap q retain opens closed0 w)
  then show ?case using with_options_spec [OF opened.hyps(1-3), of crcf] seg_reach_inv by blast
next
  case (append w e fin w' i)
  from wal_append_spec [OF append.IH append.hyps(2), of fin] append.hyps(3) show ?case by auto
next
  case (truncate w i w')
  from wal_truncate_spec [OF truncate.IH, of i] truncate.hyps show ?case by auto
next
  case (prefix w i w')
  from prefix_truncate_spec [OF prefix.IH, of i] prefix.hyps show ?case by auto
next
  case (flush w)
  then show ?case using wl.flush by blast
qed (simp add: wal_inv_def set_retention_def first_index_def)

section \<open>Properties\<close>

text \<open>C19: Appending to a reachable log always succeeds, whatever the open segment can hold and
  whether or not the creator thread was done: the returned index is the one behind the last
  entry, it reads the entry back, and every other index reads what it read before.\<close>

theorem wal_append_reads_back:
  assumes "wal_reach crcf w" "length e < 2 ^ 64"
  shows "\<exists>w'. wal_append crcf fin w e = Inr (w', first_index w + num_entries w) \<and>
    first_index w' = first_index w \<and> num_entries w' = num_entries w + 1 \<and>
    (\<forall>j. wal_entry w' j =
       (if j = first_index w + num_entries w then Inr (Some e) else wal_entry w j))"
  using wl.append_reads_back [OF wal_reach_inv [OF assms(1)] assms(2), of fin] by metis

text \<open>C24: Truncating a reachable log behind its first index removes exactly the entries from
  the given index on, in whichever segment the index lies; the log stays reachable.\<close>

theorem wal_truncate_removes_suffix:
  assumes "wal_reach crcf w" "first_index w < i"
  shows "\<exists>w'. wal_truncate w i = Inr w' \<and> wal_reach crcf w' \<and> first_index w' = first_index w \<and>
    num_entries w' = min (num_entries w) (i - first_index w) \<and>
    (\<forall>j. wal_entry w' j = (if j < i then wal_entry w j else Inr None))"
  using wl.truncate_reads [OF wal_reach_inv [OF assms(1)] assms(2)] wal_reach.truncate [OF assms(1)]
  by metis

text \<open>C33: Prefix truncation never loses an entry at or above the given index: what is left is
  the suffix from some index not above it, which reads as before.\<close>

theorem wal_prefix_truncate_keeps_suffix:
  assumes "wal_reach crcf w" "first_index w \<le> until"
  shows "\<exists>w'. prefix_truncate w until = Inr w' \<and> first_index w \<le> first_index w' \<and>
    first_index w' \<le> until \<and> first_index w' + num_entries w' = first_index w + num_entries w \<and>
    (\<forall>j \<ge> first_index w'. wal_entry w' j = wal_entry w j)"
  using wl.prefix_reads [OF wal_reach_inv [OF assms(1)], of until] assms(2)
  by (metis max.absorb1)


section \<open>Witnesses\<close>

definition wal_example :: wal where
  "wal_example = projr (with_options (\<lambda>i. of_nat i) True 64 1 1 [(4, seg_example)]
     [\<lparr>start_index = 3, c_segment = seg_example\<rparr>])"

lemma wal_example_opened:
  "with_options (\<lambda>i. of_nat i) True 64 1 1 [(4, seg_example)]
     [\<lparr>start_index = 3, c_segment = seg_example\<rparr>] = Inr wal_example"
  using with_options_ok [of 64 "[(4, seg_example)]" crc_example
      "[\<lparr>start_index = 3, c_segment = seg_example\<rparr>]" "\<lambda>i. of_nat i" True 1 1]
    seg_reach_inv [OF seg_reach_example]
  by (auto simp: wal_example_def HEADER_LEN_def)

lemma wal_reach_example: "wal_reach crc_example wal_example"
  by (rule wal_reach.opened [OF wal_example_opened])
    (simp_all add: seg_reach_example HEADER_LEN_def)

lemma wal_example_entries: "wal_entries wal_example = [[1, 2], [1, 2]]" "first_index wal_example = 3"
  using with_options_spec [OF wal_example_opened, of crc_example] seg_reach_inv [OF seg_reach_example]
  by (simp_all add: HEADER_LEN_def seg_example_entries)

lemma wal_example_num: "num_entries wal_example = 2"
  using wl.num [OF wal_reach_inv [OF wal_reach_example]] wal_example_entries by simp

theorem wal_append_reads_back_witness:
  "\<exists>w'. wal_append crc_example True wal_example [9] = Inr (w', 5) \<and> first_index w' = 3 \<and>
     num_entries w' = 3 \<and> wal_entry w' 5 = Inr (Some [9])"
  using wal_append_reads_back [OF wal_reach_example, of "[9]" True] wal_example_num
    wal_example_entries by auto

theorem wal_truncate_removes_suffix_witness:
  "\<exists>w'. wal_truncate wal_example 4 = Inr w' \<and> num_entries w' = 1 \<and>
     wal_entry w' 4 = Inr None \<and> wal_entry w' 3 = wal_entry wal_example 3"
  using wal_truncate_removes_suffix [OF wal_reach_example, of 4] wal_example_num
    wal_example_entries by auto

theorem wal_prefix_truncate_keeps_suffix_witness:
  "\<exists>w'. prefix_truncate wal_example 5 = Inr w' \<and> first_index w' \<le> 5 \<and>
     first_index w' + num_entries w' = 5 \<and> wal_entry w' 5 = wal_entry wal_example 5"
  using wal_prefix_truncate_keeps_suffix [OF wal_reach_example, of 5] wal_example_num
    wal_example_entries by auto


end
