(* ===== verification/ConsensusWal.thy ===== *)
theory ConsensusWal
  imports WalLog
begin

text \<open>
  \<open>lib/storage/src/content_manager/consensus/consensus_wal.rs\<close>: the log of Raft entries. A
  Raft entry comes from the \<open>raft\<close> crate and is encoded by \<open>prost\<close> and \<open>protobuf\<close>: the
  entry type and what the code uses of these crates are parameters. Debug assertions are not
  checked (release build); indices are \<open>nat\<close> with the wrap-around of \<open>u64\<close> written out where
  the code subtracts. A failing method can leave a changed log behind: methods return the state
  next to their result.
\<close>

record 'e raft_codec =
  entry_index :: "'e \<Rightarrow> u64"
  entry_encode :: "'e \<Rightarrow> u8 list option"
  entry_decode :: "u8 list \<Rightarrow> 'e option"
  compute_size :: "'e \<Rightarrow> u32"

abbreviation raft_idx :: "'e raft_codec \<Rightarrow> 'e \<Rightarrow> nat" where
  "raft_idx c e \<equiv> unat (entry_index c e)"

record consensus_op_wal =
  cw_wal :: wal
  compacted_until_raft_index :: nat

datatype storage_error =
    LogicallyCompacted nat nat
  | PhysicallyCompacted nat nat
  | NotSequential nat nat nat
  | WalFailed wal_error
  | DecodeFailed
  | EncodeFailed

datatype raft_error =
    Unavailable
  | Compacted
  | OtherError storage_error

text \<open>Opening an existing log forgets what was compacted logically.\<close>

definition cw_new :: "wal \<Rightarrow> consensus_op_wal" where
  "cw_new w = \<lparr>cw_wal = w, compacted_until_raft_index = 0\<rparr>"

section \<open>Index offsets\<close>

record index_offset =
  wal_index :: nat
  raft_index :: nat
  wal_to_raft_offset :: nat

definition index_offset_new :: "'e raft_codec \<Rightarrow> nat \<Rightarrow> 'e \<Rightarrow> index_offset" where
  "index_offset_new c wi entry =
     \<lparr>wal_index = wi, raft_index = raft_idx c entry,
      wal_to_raft_offset = (raft_idx c entry + 2 ^ 64 - wi) mod 2 ^ 64\<rparr>"

definition try_raft_to_wal :: "index_offset \<Rightarrow> nat \<Rightarrow> nat option" where
  "try_raft_to_wal off ri =
     (if ri < wal_to_raft_offset off then None else Some (ri - wal_to_raft_offset off))"

definition raft_to_wal :: "index_offset \<Rightarrow> nat \<Rightarrow> nat" where
  "raft_to_wal off ri = ri - wal_to_raft_offset off"

definition wal_to_raft :: "index_offset \<Rightarrow> nat \<Rightarrow> nat" where
  "wal_to_raft off wi = (wi + wal_to_raft_offset off) mod 2 ^ 64"

section \<open>Reading\<close>

definition entry_by_wal_index_impl ::
  "'e raft_codec \<Rightarrow> consensus_op_wal \<Rightarrow> nat \<Rightarrow> (storage_error, 'e option) result" where
  "entry_by_wal_index_impl c cw wi =
     (case wal_entry (cw_wal cw) wi of
        Inl e \<Rightarrow> Inl (WalFailed e)
      | Inr None \<Rightarrow> Inr None
      | Inr (Some bs) \<Rightarrow> (case entry_decode c bs of None \<Rightarrow> Inl DecodeFailed | Some e \<Rightarrow> Inr (Some e)))"

definition into_raft_result :: "(storage_error, 'a option) result \<Rightarrow> (raft_error, 'a) result" where
  "into_raft_result r =
     (case r of Inl e \<Rightarrow> Inl (OtherError e) | Inr None \<Rightarrow> Inl Unavailable | Inr (Some a) \<Rightarrow> Inr a)"

definition index_offset_impl ::
  "'e raft_codec \<Rightarrow> consensus_op_wal \<Rightarrow> (storage_error, index_offset option) result" where
  "index_offset_impl c cw =
     (let wi = first_index (cw_wal cw)
      in and_then (entry_by_wal_index_impl c cw wi)
           (\<lambda>e. Inr (map_option (index_offset_new c wi) e)))"

definition cw_entry :: "'e raft_codec \<Rightarrow> consensus_op_wal \<Rightarrow> nat \<Rightarrow> (raft_error, 'e) result" where
  "cw_entry c cw ri =
     (if ri < 1 then Inl Unavailable
      else if ri < compacted_until_raft_index cw then Inl Compacted
      else and_then (into_raft_result (index_offset_impl c cw))
             (\<lambda>off. case try_raft_to_wal off ri of
                 None \<Rightarrow> Inl Compacted
               | Some wi \<Rightarrow> into_raft_result (entry_by_wal_index_impl c cw wi)))"

text \<open>The loop of \<open>entries\<close> over the WAL indices: \<open>size\<close> saturates at the largest \<open>u64\<close>.\<close>

fun entries_loop ::
  "'e raft_codec \<Rightarrow> consensus_op_wal \<Rightarrow> nat option \<Rightarrow> nat \<Rightarrow> 'e list \<Rightarrow> nat list \<Rightarrow>
   (raft_error, 'e list) result" where
  "entries_loop c cw max_size bytes acc [] = Inr acc"
| "entries_loop c cw max_size bytes acc (wi # wis) =
     and_then (into_raft_result (entry_by_wal_index_impl c cw wi))
       (\<lambda>e. case max_size of
           None \<Rightarrow> entries_loop c cw max_size bytes (acc @ [e]) wis
         | Some m \<Rightarrow>
             (let bytes' = min (bytes + unat (compute_size c e)) (2 ^ 64 - 1)
              in if m \<le> bytes' \<and> acc \<noteq> [] then Inr acc
                 else entries_loop c cw max_size bytes' (acc @ [e]) wis))"

definition cw_entries ::
  "'e raft_codec \<Rightarrow> consensus_op_wal \<Rightarrow> nat \<Rightarrow> nat \<Rightarrow> nat option \<Rightarrow> (raft_error, 'e list) result" where
  "cw_entries c cw from_raft_index until_raft_index max_size_bytes =
     and_then (into_raft_result (index_offset_impl c cw))
       (\<lambda>off.
          let from_raft = max from_raft_index (compacted_until_raft_index cw);
              from_wal = max (raft_to_wal off from_raft) (wal_index off);
              until_wal = min (raft_to_wal off until_raft_index) (wal_index off + num_entries (cw_wal cw));
              max_size = (if max_size_bytes = Some (2 ^ 64 - 1) then None else max_size_bytes)
          in entries_loop c cw max_size 0 [] [from_wal..<until_wal])"

definition first_entry ::
  "'e raft_codec \<Rightarrow> consensus_op_wal \<Rightarrow> (storage_error, 'e option) result" where
  "first_entry c cw =
     and_then (entry_by_wal_index_impl c cw (first_index (cw_wal cw)))
       (\<lambda>r. case r of
           None \<Rightarrow> Inr None
         | Some e \<Rightarrow>
             if compacted_until_raft_index cw \<le> raft_idx c e then Inr (Some e)
             else (case try_raft_to_wal (index_offset_new c (first_index (cw_wal cw)) e)
                        (compacted_until_raft_index cw) of
                     None \<Rightarrow> Inr None
                   | Some wi \<Rightarrow> entry_by_wal_index_impl c cw wi))"

definition last_entry ::
  "'e raft_codec \<Rightarrow> consensus_op_wal \<Rightarrow> (storage_error, 'e option) result" where
  "last_entry c cw =
     and_then (entry_by_wal_index_impl c cw (last_index (cw_wal cw)))
       (\<lambda>r. case r of
           None \<Rightarrow> Inr None
         | Some e \<Rightarrow> Inr (if compacted_until_raft_index cw \<le> raft_idx c e then Some e else None))"

section \<open>Writing\<close>

definition lift_wal ::
  "consensus_op_wal \<Rightarrow> (wal_error, wal) result \<Rightarrow> consensus_op_wal \<times> (storage_error, unit) result" where
  "lift_wal cw r =
     (case r of Inl e \<Rightarrow> (cw, Inl (WalFailed e)) | Inr w \<Rightarrow> (cw\<lparr>cw_wal := w\<rparr>, Inr ()))"

definition cw_clear :: "consensus_op_wal \<Rightarrow> consensus_op_wal \<times> (storage_error, unit) result" where
  "cw_clear cw =
     (case lift_wal cw (wal_clear (cw_wal cw)) of
        (cw', Inl e) \<Rightarrow> (cw', Inl e)
      | (cw', Inr _) \<Rightarrow> (cw'\<lparr>cw_wal := flush_open_segment (cw_wal cw')\<rparr>, Inr ()))"

text \<open>The checks on one new entry against the offset computed for the batch, and the truncation
  of what it overwrites.\<close>

definition prepare_append ::
  "'e raft_codec \<Rightarrow> consensus_op_wal \<Rightarrow> index_offset option \<Rightarrow> 'e \<Rightarrow>
   consensus_op_wal \<times> (storage_error, unit) result" where
  "prepare_append c cw current new =
     (if raft_idx c new < compacted_until_raft_index cw
      then (cw, Inl (LogicallyCompacted (raft_idx c new) (compacted_until_raft_index cw)))
      else (case current of
              None \<Rightarrow> (cw, Inr ())
            | Some off \<Rightarrow>
                (case try_raft_to_wal off (raft_idx c new) of
                   None \<Rightarrow> (cw, Inl (PhysicallyCompacted (raft_idx c new) (raft_index off)))
                 | Some wi \<Rightarrow>
                     (let next = last_index (cw_wal cw) + 1
                      in if next < wi
                         then (cw, Inl (NotSequential (raft_idx c new) wi (last_index (cw_wal cw))))
                         else if wi < next then lift_wal cw (wal_truncate (cw_wal cw) wi)
                         else (cw, Inr ())))))"

fun append_loop ::
  "'e raft_codec \<Rightarrow> (u32 \<Rightarrow> u8 list \<Rightarrow> u32) \<Rightarrow> bool \<Rightarrow> consensus_op_wal \<Rightarrow> index_offset option \<Rightarrow>
   'e list \<Rightarrow> consensus_op_wal \<times> (storage_error, unit) result" where
  "append_loop c crcf fin cw current [] = (cw, Inr ())"
| "append_loop c crcf fin cw current (new # news) =
     (case prepare_append c cw current new of
        (cw1, Inl e) \<Rightarrow> (cw1, Inl e)
      | (cw1, Inr _) \<Rightarrow>
          (case entry_encode c new of
             None \<Rightarrow> (cw1, Inl EncodeFailed)
           | Some buf \<Rightarrow>
               (case wal_append crcf fin (cw_wal cw1) buf of
                  Inl e \<Rightarrow> (cw1, Inl (WalFailed e))
                | Inr (w, _) \<Rightarrow>
                    (let cw2 = cw1\<lparr>cw_wal := w\<rparr>
                     in case current of
                          Some off \<Rightarrow> append_loop c crcf fin cw2 current news
                        | None \<Rightarrow>
                            (case index_offset_impl c cw2 of
                               Inl e \<Rightarrow> (cw2, Inl e)
                             | Inr off \<Rightarrow> append_loop c crcf fin cw2 off news)))))"

definition append_entries ::
  "'e raft_codec \<Rightarrow> (u32 \<Rightarrow> u8 list \<Rightarrow> u32) \<Rightarrow> bool \<Rightarrow> consensus_op_wal \<Rightarrow> 'e list \<Rightarrow>
   consensus_op_wal \<times> (storage_error, unit) result" where
  "append_entries c crcf fin cw new_entries =
     (if new_entries = [] then (cw, Inr ())
      else (case index_offset_impl c cw of
              Inl e \<Rightarrow> (cw, Inl e)
            | Inr current \<Rightarrow>
                (case append_loop c crcf fin cw current new_entries of
                   (cw', Inl e) \<Rightarrow> (cw', Inl e)
                 | (cw', Inr _) \<Rightarrow> (cw'\<lparr>cw_wal := flush_open_segment (cw_wal cw')\<rparr>, Inr ()))))"

definition cw_compact ::
  "'e raft_codec \<Rightarrow> consensus_op_wal \<Rightarrow> nat \<Rightarrow> consensus_op_wal \<times> (storage_error, unit) result" where
  "cw_compact c cw until_raft_index =
     (case index_offset_impl c cw of
        Inl e \<Rightarrow> (cw, Inl e)
      | Inr None \<Rightarrow> (cw, Inr ())
      | Inr (Some off) \<Rightarrow>
          if until_raft_index \<le> compacted_until_raft_index cw then (cw, Inr ())
          else (case try_raft_to_wal off until_raft_index of
                  None \<Rightarrow> (cw\<lparr>compacted_until_raft_index := until_raft_index\<rparr>, Inr ())
                | Some wi \<Rightarrow>
                    (let wi' = min wi (wal_index off + num_entries (cw_wal cw) - 1);
                         cw' = cw\<lparr>compacted_until_raft_index := wal_to_raft off wi'\<rparr>
                     in lift_wal cw' (prefix_truncate (cw_wal cw') wi'))))"

section \<open>The invariant\<close>

text \<open>The entries read from the log, and the invariant: they decode, their Raft indices are
  consecutive, and WAL indices stay below Raft indices.\<close>

definition codec_roundtrip :: "'e raft_codec \<Rightarrow> bool" where
  "codec_roundtrip c \<longleftrightarrow> (\<forall>e bs. entry_encode c e = Some bs \<longrightarrow>
     entry_decode c bs = Some e \<and> length bs < 2 ^ 64)"

definition consecutive :: "'e raft_codec \<Rightarrow> 'e list \<Rightarrow> bool" where
  "consecutive c es \<longleftrightarrow> (\<forall>i < length es. raft_idx c (es ! i) = raft_idx c (es ! 0) + i)"

definition log_of :: "'e raft_codec \<Rightarrow> consensus_op_wal \<Rightarrow> 'e list \<Rightarrow> bool" where
  "log_of c cw es \<longleftrightarrow> map (entry_decode c) (wal_entries (cw_wal cw)) = map Some es"

definition cw_inv :: "'e raft_codec \<Rightarrow> (u32 \<Rightarrow> u8 list \<Rightarrow> u32) \<Rightarrow> consensus_op_wal \<Rightarrow> 'e list \<Rightarrow> bool" where
  "cw_inv c crcf cw es \<longleftrightarrow> wal_inv crcf (cw_wal cw) \<and> log_of c cw es \<and> consecutive c es \<and>
     (es \<noteq> [] \<longrightarrow> first_index (cw_wal cw) < raft_idx c (hd es))"

lemma raft_idx_less: "raft_idx c e < 2 ^ 64"
  using unsigned_less [of "entry_index c e"] by simp

lemma cw_inv_length: "log_of c cw es \<Longrightarrow> length (wal_entries (cw_wal cw)) = length es"
  unfolding log_of_def by (metis length_map)

lemma entry_impl_spec:
  assumes "cw_inv c crcf cw es"
  shows "entry_by_wal_index_impl c cw wi = Inr
    (if first_index (cw_wal cw) \<le> wi \<and> wi < first_index (cw_wal cw) + length es
     then Some (es ! (wi - first_index (cw_wal cw))) else None)"
proof -
  have w: "wal_inv crcf (cw_wal cw)" and l: "log_of c cw es" using assms by (simp_all add: cw_inv_def)
  have "entry_decode c (wal_entries (cw_wal cw) ! i) = Some (es ! i)" if "i < length es" for i
    using l that cw_inv_length [OF l] unfolding log_of_def by (metis nth_map)
  then show ?thesis
    using wal_entry_spec [OF w, of wi] cw_inv_length [OF l]
    by (auto simp: entry_by_wal_index_impl_def)
qed

text \<open>With a non-empty log, WAL indices and Raft indices differ by a constant.\<close>

definition the_offset :: "'e raft_codec \<Rightarrow> consensus_op_wal \<Rightarrow> 'e list \<Rightarrow> index_offset" where
  "the_offset c cw es = \<lparr>wal_index = first_index (cw_wal cw), raft_index = raft_idx c (hd es),
     wal_to_raft_offset = raft_idx c (hd es) - first_index (cw_wal cw)\<rparr>"

lemma index_offset_spec:
  assumes "cw_inv c crcf cw es"
  shows "index_offset_impl c cw = Inr (if es = [] then None else Some (the_offset c cw es))"
proof (cases "es = []")
  case True
  then show ?thesis by (simp add: index_offset_impl_def entry_impl_spec [OF assms])
next
  case False
  have lt: "first_index (cw_wal cw) < raft_idx c (hd es)" using assms False by (simp add: cw_inv_def)
  have "(raft_idx c (hd es) + 2 ^ 64 - first_index (cw_wal cw)) mod 2 ^ 64 =
      raft_idx c (hd es) - first_index (cw_wal cw)"
    using lt raft_idx_less [of c "hd es"] by (simp add: mod_if)
  then show ?thesis
    using False by (simp add: index_offset_impl_def entry_impl_spec [OF assms] the_offset_def
        index_offset_new_def hd_conv_nth Let_def)
qed

section \<open>Appending\<close>

text \<open>The contract of Raft: a batch is consecutive, it starts in the log or right behind it, and
  not below what is compacted. (At the very first retained entry the code only copes while the
  WAL was never truncated from the front.)\<close>

definition can_append :: "'e raft_codec \<Rightarrow> consensus_op_wal \<Rightarrow> 'e list \<Rightarrow> 'e list \<Rightarrow> bool" where
  "can_append c cw es news \<longleftrightarrow> news \<noteq> [] \<and> consecutive c news \<and>
     (\<forall>e \<in> set news. entry_encode c e \<noteq> None) \<and>
     compacted_until_raft_index cw \<le> raft_idx c (hd news) \<and>
     first_index (cw_wal cw) < raft_idx c (hd news) \<and>
     (es \<noteq> [] \<longrightarrow> raft_idx c (hd news) \<le> raft_idx c (hd es) + length es \<and>
        (raft_idx c (hd es) < raft_idx c (hd news) \<or>
         raft_idx c (hd es) = raft_idx c (hd news) \<and> first_index (cw_wal cw) = 0))"

definition raft_append :: "'e raft_codec \<Rightarrow> 'e list \<Rightarrow> 'e list \<Rightarrow> 'e list" where
  "raft_append c es news = take (raft_idx c (hd news) - raft_idx c (hd es)) es @ news"

definition cur_ok :: "'e raft_codec \<Rightarrow> consensus_op_wal \<Rightarrow> 'e list \<Rightarrow> index_offset option \<Rightarrow> bool" where
  "cur_ok c cw es current \<longleftrightarrow>
     (case current of None \<Rightarrow> es = []
      | Some off \<Rightarrow> es \<noteq> [] \<and> wal_to_raft_offset off = raft_idx c (hd es) - first_index (cw_wal cw))"

lemma consecutive_Cons:
  "consecutive c (e # es) \<longleftrightarrow> consecutive c es \<and> (es \<noteq> [] \<longrightarrow> raft_idx c (hd es) = raft_idx c e + 1)"
proof (cases es)
  case Nil
  then show ?thesis by (simp add: consecutive_def)
next
  case (Cons d ds)
  show ?thesis
  proof
    assume l: "consecutive c (e # es)"
    have d: "raft_idx c d = raft_idx c e + 1"
      using l [unfolded consecutive_def, rule_format, of 1] Cons by simp
    have "raft_idx c (es ! i) = raft_idx c (es ! 0) + i" if "i < length es" for i
      using l [unfolded consecutive_def, rule_format, of "Suc i"] that d Cons by simp
    with d Cons show "consecutive c es \<and> (es \<noteq> [] \<longrightarrow> raft_idx c (hd es) = raft_idx c e + 1)"
      by (simp add: consecutive_def)
  next
    assume r: "consecutive c es \<and> (es \<noteq> [] \<longrightarrow> raft_idx c (hd es) = raft_idx c e + 1)"
    have "raft_idx c ((e # es) ! i) = raft_idx c e + i" if "i < length (e # es)" for i
    proof (cases i)
      case (Suc j)
      then show ?thesis using r [unfolded consecutive_def] that Cons by auto
    qed simp
    then show "consecutive c (e # es)" unfolding consecutive_def by simp
  qed
qed

lemma consecutive_Nil [simp]: "consecutive c []"
  by (simp add: consecutive_def)

lemma consecutive_nth:
  "consecutive c es \<Longrightarrow> i < length es \<Longrightarrow> raft_idx c (es ! i) = raft_idx c (hd es) + i"
  by (cases es) (auto simp: consecutive_def)

lemma consecutive_take: "consecutive c es \<Longrightarrow> consecutive c (take n es)"
  by (cases "n = 0") (auto simp: consecutive_def)

lemma consecutive_drop: "consecutive c es \<Longrightarrow> consecutive c (drop n es)"
  by (auto simp: consecutive_def)

lemma consecutive_snoc:
  assumes "consecutive c es" "es \<noteq> [] \<Longrightarrow> raft_idx c e = raft_idx c (hd es) + length es"
  shows "consecutive c (es @ [e])"
proof (cases es)
  case Nil
  then show ?thesis by (simp add: consecutive_def)
next
  case (Cons d ds)
  have "raft_idx c ((es @ [e]) ! i) = raft_idx c d + i" if "i < length es \<or> i = length es" for i
    using that
  proof
    assume i: "i < length es"
    then have "raft_idx c (es ! i) = raft_idx c (es ! 0) + i" using assms(1) by (simp add: consecutive_def)
    moreover have "(es @ [e]) ! i = es ! i" using i by (simp add: nth_append)
    ultimately show ?thesis using Cons by simp
  next
    assume "i = length es"
    then show ?thesis using assms(2) Cons by simp
  qed
  then show ?thesis unfolding consecutive_def using Cons by (simp add: less_Suc_eq)
qed

lemma cw_inv_append:
  assumes inv: "cw_inv c crcf cw es" and c: "codec_roundtrip c" and e: "entry_encode c e = Some buf"
    and idx: "es \<noteq> [] \<Longrightarrow> raft_idx c e = raft_idx c (hd es) + length es"
    and lt: "first_index (cw_wal cw) < raft_idx c e"
  obtains w i where "wal_append crcf fin (cw_wal cw) buf = Inr (w, i)"
    "cw_inv c crcf (cw\<lparr>cw_wal := w\<rparr>) (es @ [e])" "first_index w = first_index (cw_wal cw)"
proof -
  have w: "wal_inv crcf (cw_wal cw)" and l: "log_of c cw es" and k: "consecutive c es"
    using inv by (simp_all add: cw_inv_def)
  have buf: "entry_decode c buf = Some e" "length buf < 2 ^ 64" using c e by (auto simp: codec_roundtrip_def)
  obtain w' where w': "wal_append crcf fin (cw_wal cw) buf = Inr (w', first_index (cw_wal cw) + length (wal_entries (cw_wal cw)))"
    "wal_inv crcf w'" "wal_entries w' = wal_entries (cw_wal cw) @ [buf]"
    "first_index w' = first_index (cw_wal cw)"
    using wl.append [OF w buf(2), of fin] by blast
  have "cw_inv c crcf (cw\<lparr>cw_wal := w'\<rparr>) (es @ [e])"
    unfolding cw_inv_def
  proof (intro conjI)
    show "consecutive c (es @ [e])" using consecutive_snoc [OF k] idx by blast
    show "es @ [e] \<noteq> [] \<longrightarrow> first_index (cw_wal (cw\<lparr>cw_wal := w'\<rparr>)) < raft_idx c (hd (es @ [e]))"
      using inv lt w'(4) by (cases es) (simp_all add: cw_inv_def)
  qed (use w' l buf(1) in \<open>simp_all add: log_of_def\<close>)
  with w' show ?thesis by (intro that)
qed

lemma cw_inv_truncate:
  assumes inv: "cw_inv c crcf cw es" and i: "first_index (cw_wal cw) < i \<or> first_index (cw_wal cw) = 0"
  obtains w where "wal_truncate (cw_wal cw) i = Inr w" "first_index w = first_index (cw_wal cw)"
    "cw_inv c crcf (cw\<lparr>cw_wal := w\<rparr>) (take (i - first_index (cw_wal cw)) es)"
proof -
  have w: "wal_inv crcf (cw_wal cw)" using inv by (simp add: cw_inv_def)
  obtain w' where w': "wal_truncate (cw_wal cw) i = Inr w'" "wal_inv crcf w'"
    "wal_entries w' = take (i - first_index (cw_wal cw)) (wal_entries (cw_wal cw))"
    "first_index w' = first_index (cw_wal cw)"
    using wal_truncate_spec [OF w, of i] i by metis
  have "cw_inv c crcf (cw\<lparr>cw_wal := w'\<rparr>) (take (i - first_index (cw_wal cw)) es)"
    using w' inv consecutive_take [of c es]
    by (auto simp: cw_inv_def log_of_def take_map [symmetric])
  with w' that show ?thesis by blast
qed

lemma prepare_append_spec:
  assumes inv: "cw_inv c crcf cw es" and cur: "cur_ok c cw es current"
    and can: "can_append c cw es (new # news)"
  obtains cw' where "prepare_append c cw current new = (cw', Inr ())"
    "cw_inv c crcf cw' (take (raft_idx c new - raft_idx c (hd es)) es)"
    "first_index (cw_wal cw') = first_index (cw_wal cw)"
    "compacted_until_raft_index cw' = compacted_until_raft_index cw"
proof (cases current)
  case None
  then have es: "es = []" using cur by (simp add: cur_ok_def)
  show ?thesis
    by (rule that [of cw]) (use can inv None es in \<open>auto simp: prepare_append_def can_append_def\<close>)
next
  case (Some off)
  let ?f = "first_index (cw_wal cw)" and ?h = "raft_idx c (hd es)"
  have es: "es \<noteq> []" and off: "wal_to_raft_offset off = ?h - ?f" using cur Some by (simp_all add: cur_ok_def)
  have fh: "?f < ?h" and w: "wal_inv crcf (cw_wal cw)" and l: "log_of c cw es"
    using inv es by (simp_all add: cw_inv_def)
  have can': "compacted_until_raft_index cw \<le> raft_idx c new" "raft_idx c new \<le> ?h + length es"
    "?h < raft_idx c new \<or> ?h = raft_idx c new \<and> ?f = 0"
    using can es by (simp_all add: can_append_def)
  have wi: "try_raft_to_wal off (raft_idx c new) = Some (raft_idx c new - (?h - ?f))"
    using can'(3) off fh by (auto simp: try_raft_to_wal_def)
  have nxt: "last_index (cw_wal cw) + 1 = ?f + length es"
    using es wl.num [OF w] cw_inv_length [OF l] by (simp add: last_index_def Suc_leI)
  show ?thesis
  proof (cases "raft_idx c new = ?h + length es")
    case True
    then have "prepare_append c cw current new = (cw, Inr ())"
      using can'(1) Some wi nxt fh by (simp add: prepare_append_def Let_def)
    then show ?thesis using that [of cw] True inv by simp
  next
    case False
    let ?wi = "raft_idx c new - (?h - ?f)"
    have "?wi < ?f + length es" "?wi - ?f = raft_idx c new - ?h" "?f < ?wi \<or> ?f = 0"
      using False can'(2,3) fh by auto
    note wi' = this
    obtain w' where w': "wal_truncate (cw_wal cw) ?wi = Inr w'" "first_index w' = ?f"
      "cw_inv c crcf (cw\<lparr>cw_wal := w'\<rparr>) (take (raft_idx c new - ?h) es)"
      using cw_inv_truncate [OF inv wi'(3)] wi'(2) by metis
    have "prepare_append c cw current new = (cw\<lparr>cw_wal := w'\<rparr>, Inr ())"
      using can'(1) Some wi nxt wi'(1) w'(1) by (simp add: prepare_append_def Let_def lift_wal_def)
    then show ?thesis using that w' by simp
  qed
qed

lemma append_one_spec:
  assumes inv: "cw_inv c crcf cw es" and cur: "cur_ok c cw es current"
    and can: "can_append c cw es (new # news)" and c: "codec_roundtrip c"
  obtains cw' current' where
    "append_loop c crcf fin cw current (new # news) = append_loop c crcf fin cw' current' news"
    "cw_inv c crcf cw' (raft_append c es [new])" "cur_ok c cw' (raft_append c es [new]) current'"
    "first_index (cw_wal cw') = first_index (cw_wal cw)"
    "compacted_until_raft_index cw' = compacted_until_raft_index cw"
proof -
  let ?es1 = "take (raft_idx c new - raft_idx c (hd es)) es"
  have es2: "raft_append c es [new] = ?es1 @ [new]" by (simp add: raft_append_def)
  have k: "es \<noteq> [] \<Longrightarrow> raft_idx c (hd es) \<le> raft_idx c new \<and> raft_idx c new \<le> raft_idx c (hd es) + length es"
    "first_index (cw_wal cw) < raft_idx c new"
    using can by (auto simp: can_append_def)
  obtain cw1 where cw1: "prepare_append c cw current new = (cw1, Inr ())" "cw_inv c crcf cw1 ?es1"
    "first_index (cw_wal cw1) = first_index (cw_wal cw)"
    "compacted_until_raft_index cw1 = compacted_until_raft_index cw"
    using prepare_append_spec [OF inv cur can] by blast
  obtain buf where buf: "entry_encode c new = Some buf" using can by (auto simp: can_append_def)
  have idx: "?es1 \<noteq> [] \<Longrightarrow> raft_idx c new = raft_idx c (hd ?es1) + length ?es1"
    using k(1) by (cases es) auto
  obtain w i where w: "wal_append crcf fin (cw_wal cw1) buf = Inr (w, i)"
    "cw_inv c crcf (cw1\<lparr>cw_wal := w\<rparr>) (?es1 @ [new])" "first_index w = first_index (cw_wal cw1)"
    using cw_inv_append [OF cw1(2) c buf idx, of fin] k(2) cw1(3) by auto
  let ?cw2 = "cw1\<lparr>cw_wal := w\<rparr>"
  have hd: "raft_idx c (hd (?es1 @ [new])) = (if es = [] then raft_idx c new else raft_idx c (hd es))"
    using k(1) by (cases es; cases "raft_idx c new - raft_idx c (hd es)") auto
  show ?thesis
  proof (cases current)
    case None
    have "cur_ok c ?cw2 (?es1 @ [new]) (Some (the_offset c ?cw2 (?es1 @ [new])))"
      by (simp add: cur_ok_def the_offset_def)
    with None cw1 w buf index_offset_spec [OF w(2)] show ?thesis
      by (intro that [of ?cw2 "Some (the_offset c ?cw2 (?es1 @ [new]))"]) (simp_all add: es2 Let_def)
  next
    case (Some off)
    have "cur_ok c ?cw2 (?es1 @ [new]) current"
      using cur Some hd cw1(3) w(3) by (auto simp: cur_ok_def)
    with Some cw1 w buf show ?thesis
      by (intro that [of ?cw2 current]) (simp_all add: es2 Let_def)
  qed
qed

lemma raft_append_step:
  assumes can: "can_append c cw es (new # n2 # news)"
    and cw': "first_index (cw_wal cw') = first_index (cw_wal cw)"
    "compacted_until_raft_index cw' = compacted_until_raft_index cw"
  shows "can_append c cw' (raft_append c es [new]) (n2 # news)"
    "raft_append c (raft_append c es [new]) (n2 # news) = raft_append c es (new # n2 # news)"
proof -
  let ?es1 = "take (raft_idx c new - raft_idx c (hd es)) es"
  have k: "es \<noteq> [] \<Longrightarrow> raft_idx c (hd es) \<le> raft_idx c new \<and> raft_idx c new \<le> raft_idx c (hd es) + length es"
    and n2: "raft_idx c n2 = raft_idx c new + 1" "consecutive c (n2 # news)"
    using can by (auto simp: can_append_def consecutive_Cons)
  have es2: "raft_append c es [new] = ?es1 @ [new]" by (simp add: raft_append_def)
  have hd: "raft_idx c (hd (?es1 @ [new])) = (if es = [] then raft_idx c new else raft_idx c (hd es))"
    using k by (cases es; cases "raft_idx c new - raft_idx c (hd es)") auto
  have len: "raft_idx c (hd (?es1 @ [new])) + length (?es1 @ [new]) = raft_idx c n2"
    unfolding hd using k n2 by (cases "es = []") (auto simp: min_def)
  have le: "raft_idx c (hd (?es1 @ [new])) \<le> raft_idx c new"
    unfolding hd using k by (cases "es = []") auto
  show "can_append c cw' (raft_append c es [new]) (n2 # news)"
    using can n2 len le unfolding es2 can_append_def cw' by (auto simp del: hd_append)
  have all: "raft_append c xs (n2 # news) = xs @ n2 # news"
    if "raft_idx c n2 - raft_idx c (hd xs) = length xs" for xs
    using that by (simp add: raft_append_def)
  have "raft_idx c n2 - raft_idx c (hd (?es1 @ [new])) = length (?es1 @ [new])"
    unfolding len [symmetric] by (rule diff_add_inverse)
  from all [OF this] show "raft_append c (raft_append c es [new]) (n2 # news) = raft_append c es (new # n2 # news)"
    unfolding es2 by (simp add: raft_append_def)
qed

lemma append_loop_spec:
  assumes "cw_inv c crcf cw es" "cur_ok c cw es current" "can_append c cw es news" "codec_roundtrip c"
  obtains cw' where "append_loop c crcf fin cw current news = (cw', Inr ())"
    "cw_inv c crcf cw' (raft_append c es news)" "first_index (cw_wal cw') = first_index (cw_wal cw)"
    "compacted_until_raft_index cw' = compacted_until_raft_index cw"
  using assms
proof (induction news arbitrary: cw es current thesis)
  case Nil
  then show ?case by (simp add: can_append_def)
next
  case (Cons new news)
  obtain cw1 current1 where s:
    "append_loop c crcf fin cw current (new # news) = append_loop c crcf fin cw1 current1 news"
    "cw_inv c crcf cw1 (raft_append c es [new])" "cur_ok c cw1 (raft_append c es [new]) current1"
    "first_index (cw_wal cw1) = first_index (cw_wal cw)"
    "compacted_until_raft_index cw1 = compacted_until_raft_index cw"
    using append_one_spec [OF Cons.prems(2-5)] by metis
  show ?case
  proof (cases news)
    case Nil
    with s show ?thesis by (intro Cons.prems(1) [of cw1]) auto
  next
    case (Cons n2 ns)
    note st = raft_append_step [OF Cons.prems(4) [unfolded Cons] s(4,5)]
    obtain cw' where x: "append_loop c crcf fin cw1 current1 news = (cw', Inr ())"
      "cw_inv c crcf cw' (raft_append c es (new # news))"
      "first_index (cw_wal cw') = first_index (cw_wal cw1)"
      "compacted_until_raft_index cw' = compacted_until_raft_index cw1"
      using Cons.IH [OF _ s(2,3) _ Cons.prems(5)] st unfolding Cons by metis
    show ?thesis
      by (rule Cons.prems(1) [OF s(1) [unfolded x(1)] x(2) x(3) [unfolded s(4)] x(4) [unfolded s(5)]])
  qed
qed

lemma append_entries_spec:
  assumes inv: "cw_inv c crcf cw es" and can: "can_append c cw es news" and c: "codec_roundtrip c"
  obtains cw' where "append_entries c crcf fin cw news = (cw', Inr ())"
    "cw_inv c crcf cw' (raft_append c es news)" "first_index (cw_wal cw') = first_index (cw_wal cw)"
    "compacted_until_raft_index cw' = compacted_until_raft_index cw"
proof -
  have cur: "cur_ok c cw es (if es = [] then None else Some (the_offset c cw es))"
    by (simp add: cur_ok_def the_offset_def)
  obtain cw' where cw': "append_loop c crcf fin cw (if es = [] then None else Some (the_offset c cw es)) news = (cw', Inr ())"
    "cw_inv c crcf cw' (raft_append c es news)" "first_index (cw_wal cw') = first_index (cw_wal cw)"
    "compacted_until_raft_index cw' = compacted_until_raft_index cw"
    using append_loop_spec [OF inv cur can c] by metis
  let ?w = "flush_open_segment (cw_wal cw')"
  have "wal_inv crcf (cw_wal cw')" using cw'(2) by (simp add: cw_inv_def)
  from wl.flush [OF this] cw' have "cw_inv c crcf (cw'\<lparr>cw_wal := ?w\<rparr>) (raft_append c es news)"
    "first_index ?w = first_index (cw_wal cw)"
    by (simp_all add: cw_inv_def log_of_def)
  with cw' can index_offset_spec [OF inv] show ?thesis
    by (intro that [of "cw'\<lparr>cw_wal := ?w\<rparr>"]) (simp_all add: append_entries_def can_append_def)
qed

section \<open>Compacting and reading by Raft index\<close>

lemma min_shift:
  fixes f h u l :: nat
  assumes "f < h" "h \<le> u" "0 < l"
  shows "min (u - (h - f)) (f + l - 1) + (h - f) = min u (h + l - 1)"
  using assms unfolding min_def by (split if_split)+ linarith

lemma min_shift_bound:
  fixes f h u l n :: nat
  assumes "n \<le> min (u - (h - f)) (f + l - 1) - f" "f < h" "h \<le> u" "0 < l"
  shows "n < l \<and> h + n \<le> min u (h + l - 1)"
proof -
  have "n \<le> u - (h - f) - f" "n \<le> f + l - 1 - f" using assms(1) by (auto simp: min_def split: if_splits)
  with assms(2-4) show ?thesis by (simp add: min_def) linarith
qed

lemma compact_spec:
  assumes inv: "cw_inv c crcf cw es" and es: "es \<noteq> []"
    and u: "compacted_until_raft_index cw < u" "raft_idx c (hd es) \<le> u"
  obtains cw' n where "cw_compact c cw u = (cw', Inr ())" "cw_inv c crcf cw' (drop n es)"
    "compacted_until_raft_index cw' = min u (raft_idx c (hd es) + length es - 1)"
    "n < length es" "raft_idx c (hd es) + n \<le> compacted_until_raft_index cw'"
    "first_index (cw_wal cw') = first_index (cw_wal cw) + n"
proof -
  let ?f = "first_index (cw_wal cw)" and ?h = "raft_idx c (hd es)"
  have w: "wal_inv crcf (cw_wal cw)" and l: "log_of c cw es" and k: "consecutive c es" and fh: "?f < ?h"
    using inv es by (simp_all add: cw_inv_def)
  have num: "num_entries (cw_wal cw) = length es" using wl.num [OF w] cw_inv_length [OF l] by simp
  let ?wi = "min (u - (?h - ?f)) (?f + length es - 1)"
  have tr: "try_raft_to_wal (the_offset c cw es) u = Some (u - (?h - ?f))"
    using u fh by (simp add: try_raft_to_wal_def the_offset_def)
  have len: "0 < length es" using es by simp
  then have "length es - 1 < length es" by simp
  from consecutive_nth [OF k this] have "raft_idx c (last es) = ?h + (length es - 1)"
    unfolding last_conv_nth [OF es] .
  then have "?h + length es - 1 < 2 ^ 64" using raft_idx_less [of c "last es"] len by simp
  then have "min u (?h + length es - 1) < 2 ^ 64" by (simp only: min_less_iff_disj) simp
  moreover have "?wi + (?h - ?f) = min u (?h + length es - 1)" by (rule min_shift [OF fh u(2) len])
  ultimately have raft: "wal_to_raft (the_offset c cw es) ?wi = min u (?h + length es - 1)"
    unfolding wal_to_raft_def the_offset_def index_offset.simps by (simp only: mod_less)
  obtain w' n where w': "prefix_truncate (cw_wal cw) ?wi = Inr w'" "wal_inv crcf w'"
    "first_index w' = ?f + n" "wal_entries w' = drop n (wal_entries (cw_wal cw))" "n \<le> ?wi - ?f"
    using wl.prefix [OF w, of ?wi] by blast
  have n: "n < length es" "?h + n \<le> min u (?h + length es - 1)" using min_shift_bound [OF w'(5) fh u(2) len] by simp_all
  have hd: "raft_idx c (hd (drop n es)) = ?h + n"
    using n(1) consecutive_nth [OF k n(1)] by (simp add: hd_drop_conv_nth)
  define cw' where "cw' = cw\<lparr>cw_wal := w', compacted_until_raft_index := min u (?h + length es - 1)\<rparr>"
  have sel: "cw_wal cw' = w'" "compacted_until_raft_index cw' = min u (?h + length es - 1)"
    by (simp_all add: cw'_def)
  have "cw_inv c crcf cw' (drop n es)"
    using w'(2-4) l consecutive_drop [OF k, of n] fh hd
    unfolding cw_inv_def log_of_def sel by (simp add: drop_map [symmetric])
  moreover have "cw_compact c cw u = (cw', Inr ())"
    using index_offset_spec [OF inv] es u tr raft w'(1) num
    by (simp add: cw_compact_def lift_wal_def Let_def the_offset_def cw'_def)
  ultimately show ?thesis using that [of cw' n] n sel w'(3) by simp
qed

lemma cw_entry_spec:
  assumes inv: "cw_inv c crcf cw es" and es: "es \<noteq> []" and ri: "raft_idx c (hd es) \<le> ri" "compacted_until_raft_index cw \<le> ri"
  shows "cw_entry c cw ri =
    (if ri < raft_idx c (hd es) + length es then Inr (es ! (ri - raft_idx c (hd es))) else Inl Unavailable)"
proof -
  let ?f = "first_index (cw_wal cw)" and ?h = "raft_idx c (hd es)"
  have fh: "?f < ?h" using inv es by (simp add: cw_inv_def)
  have "try_raft_to_wal (the_offset c cw es) ri = Some (ri - (?h - ?f))"
    using ri fh by (simp add: try_raft_to_wal_def the_offset_def)
  moreover have "?f \<le> ri - (?h - ?f)" "ri - (?h - ?f) < ?f + length es \<longleftrightarrow> ri < ?h + length es"
    "ri - (?h - ?f) - ?f = ri - ?h" using ri fh by auto
  ultimately show ?thesis
    using ri fh es entry_impl_spec [OF inv, of "ri - (?h - ?f)"]
    by (auto simp: cw_entry_def index_offset_spec [OF inv] into_raft_result_def)
qed

lemma entries_loop_unbounded:
  assumes "\<And>wi. wi \<in> set wis \<Longrightarrow> entry_by_wal_index_impl c cw wi = Inr (Some (f wi))"
  shows "entries_loop c cw None b acc wis = Inr (acc @ map f wis)"
  using assms by (induction wis arbitrary: acc b) (auto simp: into_raft_result_def)

lemma map_nth_window:
  "map (\<lambda>wi. es ! (wi - f)) [f + k..<min y (f + length es)] = take (y - (f + k)) (drop k es)"
  (is "?l = ?r")
proof (rule nth_equalityI)
  show len: "length ?l = length ?r" by (simp add: min_def) arith
  fix i assume i: "i < length ?l"
  then have "i < min y (f + length es) - (f + k)" by simp
  then have lt: "f + k + i < min y (f + length es)" by linarith
  have "[f + k..<min y (f + length es)] ! i = f + k + i" by (rule nth_upt [OF lt])
  moreover have "i < y - (f + k)" "i < length es - k" using lt by (simp_all add: less_diff_conv ac_simps)
  ultimately show "?l ! i = ?r ! i" using i by (simp add: ac_simps)
qed

text \<open>With a size limit a non-empty prefix is returned.\<close>

lemma entries_loop_bounded:
  assumes "\<And>wi. wi \<in> set wis \<Longrightarrow> entry_by_wal_index_impl c cw wi = Inr (Some (f wi))"
  shows "\<exists>n \<le> length wis. entries_loop c cw (Some m) b acc wis = Inr (acc @ map f (take n wis)) \<and>
    (acc = [] \<longrightarrow> wis \<noteq> [] \<longrightarrow> 0 < n)"
  using assms
proof (induction wis arbitrary: acc b)
  case Nil
  then show ?case by simp
next
  case (Cons wi wis)
  let ?b = "min (b + unat (compute_size c (f wi))) (2 ^ 64 - 1)"
  have e: "into_raft_result (entry_by_wal_index_impl c cw wi) = Inr (f wi)"
    using Cons.prems by (simp add: into_raft_result_def)
  show ?case
  proof (cases "m \<le> ?b \<and> acc \<noteq> []")
    case True
    then show ?thesis using e by (intro exI [of _ 0]) (simp add: Let_def)
  next
    case False
    obtain n where n: "n \<le> length wis" "entries_loop c cw (Some m) ?b (acc @ [f wi]) wis = Inr ((acc @ [f wi]) @ map f (take n wis))"
      using Cons.IH [of ?b "acc @ [f wi]"] Cons.prems by auto
    from False have "entries_loop c cw (Some m) b acc (wi # wis) = entries_loop c cw (Some m) ?b (acc @ [f wi]) wis"
      using e by (auto simp: Let_def)
    with n show ?thesis by (intro exI [of _ "Suc n"]) simp
  qed
qed

section \<open>Reachable logs\<close>

text \<open>The second argument is the abstract Raft log. A log is opened on a directory that holds a
  valid log (an empty one in particular).\<close>

inductive cw_reach ::
  "'e raft_codec \<Rightarrow> (u32 \<Rightarrow> u8 list \<Rightarrow> u32) \<Rightarrow> consensus_op_wal \<Rightarrow> 'e list \<Rightarrow> bool" for c crcf where
  start: "wal_reach crcf w \<Longrightarrow> log_of c (cw_new w) es \<Longrightarrow> consecutive c es \<Longrightarrow>
    (es \<noteq> [] \<Longrightarrow> first_index w < raft_idx c (hd es)) \<Longrightarrow> cw_reach c crcf (cw_new w) es"
| restarted: "cw_reach c crcf cw es \<Longrightarrow> cw_reach c crcf (cw_new (cw_wal cw)) es"
| appended: "cw_reach c crcf cw es \<Longrightarrow> can_append c cw es news \<Longrightarrow>
    append_entries c crcf fin cw news = (cw', Inr ()) \<Longrightarrow> cw_reach c crcf cw' (raft_append c es news)"
| compacted: "cw_reach c crcf cw es \<Longrightarrow> cw_compact c cw u = (cw', Inr ()) \<Longrightarrow>
    cw_reach c crcf cw' (drop (first_index (cw_wal cw') - first_index (cw_wal cw)) es)"
| cleared: "cw_reach c crcf cw es \<Longrightarrow> cw_clear cw = (cw', Inr ()) \<Longrightarrow> cw_reach c crcf cw' []"

lemma cw_compact_below_first:
  assumes inv: "cw_inv c crcf cw es" and es: "es \<noteq> []" and comp: "cw_compact c cw u = (cw', Inr ())"
    and lt: "u < raft_idx c (hd es)"
  shows "compacted_until_raft_index cw' = max u (compacted_until_raft_index cw) \<and> cw_wal cw' = cw_wal cw"
proof (cases "u \<le> compacted_until_raft_index cw")
  case True
  then show ?thesis using comp index_offset_spec [OF inv] es by (auto simp: cw_compact_def)
next
  case gt: False
  show ?thesis
  proof (cases "try_raft_to_wal (the_offset c cw es) u")
    case None
    then show ?thesis using comp index_offset_spec [OF inv] es gt by (auto simp: cw_compact_def)
  next
    case (Some wi)
    have f: "first_index (cw_wal cw) < raft_idx c (hd es)" using inv es by (simp add: cw_inv_def)
    have num: "num_entries (cw_wal cw) = length es"
      using inv wl.num [of crcf "cw_wal cw"] cw_inv_length [of c cw es] by (simp add: cw_inv_def)
    have wi: "wi \<le> first_index (cw_wal cw)" "wi + (raft_idx c (hd es) - first_index (cw_wal cw)) = u"
      using Some lt f by (auto simp: try_raft_to_wal_def the_offset_def split: if_splits)
    have m: "min wi (first_index (cw_wal cw) + num_entries (cw_wal cw) - 1) = wi"
      using wi(1) num es by (cases es) auto
    have "u < 2 ^ 64" using lt raft_idx_less [of c "hd es"] by simp
    then have "wal_to_raft (the_offset c cw es) wi = u"
      unfolding wal_to_raft_def the_offset_def index_offset.simps wi(2) by (rule mod_less)
    moreover have "prefix_truncate (cw_wal cw) wi = Inr (cw_wal cw)"
      using wi(1) by (simp add: prefix_truncate_def)
    ultimately show ?thesis
      using comp index_offset_spec [OF inv] es gt Some m
      by (auto simp: cw_compact_def Let_def lift_wal_def the_offset_def)
  qed
qed

lemma cw_compact_inv:
  assumes inv: "cw_inv c crcf cw es" and comp: "cw_compact c cw u = (cw', Inr ())"
  shows "cw_inv c crcf cw' (drop (first_index (cw_wal cw') - first_index (cw_wal cw)) es)"
proof (cases "es = [] \<or> u \<le> compacted_until_raft_index cw")
  case True
  then have "cw' = cw" using comp index_offset_spec [OF inv] by (auto simp: cw_compact_def split: if_splits)
  then show ?thesis using inv by simp
next
  case False
  show ?thesis
  proof (cases "raft_idx c (hd es) \<le> u")
    case True
    have es: "es \<noteq> []" and u: "compacted_until_raft_index cw < u" using False by simp_all
    obtain cw2 n where "cw_compact c cw u = (cw2, Inr ())" "cw_inv c crcf cw2 (drop n es)"
      "first_index (cw_wal cw2) = first_index (cw_wal cw) + n"
      using compact_spec [OF inv es u True] by metis
    with comp show ?thesis by simp
  next
    case lt: False
    then have "cw_wal cw' = cw_wal cw" using cw_compact_below_first [OF inv _ comp] False by simp
    then show ?thesis using inv by (simp add: cw_inv_def log_of_def)
  qed
qed

lemma cw_reach_inv:
  assumes "cw_reach c crcf cw es" "codec_roundtrip c"
  shows "cw_inv c crcf cw es"
  using assms
proof (induction rule: cw_reach.induct)
  case (start w es)
  then show ?case using wal_reach_inv by (simp add: cw_inv_def log_of_def cw_new_def)
next
  case (restarted cw es)
  then show ?case by (simp add: cw_inv_def log_of_def cw_new_def)
next
  case (appended cw es news fin cw')
  then have "cw_inv c crcf cw es" by simp
  from append_entries_spec [OF this appended.hyps(2) appended.prems, of fin] appended.hyps(3)
  show ?case by auto
next
  case (compacted cw es u cw')
  then show ?case by (blast intro: cw_compact_inv)
next
  case (cleared cw es cw')
  then have w: "wal_inv crcf (cw_wal cw)" by (simp add: cw_inv_def)
  obtain w' where w': "wal_truncate (cw_wal cw) (first_index (cw_wal cw)) = Inr w'" "wal_inv crcf w'"
    "wal_entries w' = []"
    using wl.truncate [OF w, of "first_index (cw_wal cw)"] by auto
  then have "cw_wal cw' = flush_open_segment w'"
    using cleared.hyps(2) by (auto simp: cw_clear_def wal_clear_def lift_wal_def)
  then show ?case using wl.flush [OF w'(2)] w'(3) by (simp add: cw_inv_def log_of_def)
qed

lemma cw_reach_compacted:
  assumes "cw_reach c crcf cw es" "codec_roundtrip c" "es \<noteq> []"
  shows "compacted_until_raft_index cw < raft_idx c (hd es) + length es"
  using assms
proof (induction rule: cw_reach.induct)
  case (appended cw es news fin cw')
  obtain cw2 where cw2: "append_entries c crcf fin cw news = (cw2, Inr ())"
    "cw_inv c crcf cw2 (raft_append c es news)"
    "compacted_until_raft_index cw2 = compacted_until_raft_index cw"
    using append_entries_spec [OF cw_reach_inv [OF appended.hyps(1) appended.prems(1)] appended.hyps(2) appended.prems(1), of fin]
    by metis
  then have k: "consecutive c (raft_append c es news)" and eq: "cw2 = cw'"
    using appended.hyps(3) by (simp_all add: cw_inv_def)
  let ?n = "length (take (raft_idx c (hd news) - raft_idx c (hd es)) es)"
  have news: "news \<noteq> []" using appended.hyps(2) by (simp add: can_append_def)
  then have "raft_append c es news ! ?n = hd news" "?n < length (raft_append c es news)"
    by (simp_all add: raft_append_def nth_append hd_conv_nth)
  then have "raft_idx c (hd news) < raft_idx c (hd (raft_append c es news)) + length (raft_append c es news)"
    using consecutive_nth [OF k, of ?n] by simp
  moreover have "compacted_until_raft_index cw' \<le> raft_idx c (hd news)"
    using appended.hyps(2) cw2(3) eq by (simp add: can_append_def)
  ultimately show ?case by simp
next
  case (compacted cw es u cw')
  note inv = cw_reach_inv [OF compacted.hyps(1) compacted.prems(1)]
  have es: "es \<noteq> []" using compacted.prems(2) by auto
  note IH = compacted.IH [OF compacted.prems(1) es]
  consider "u \<le> compacted_until_raft_index cw" | "u < raft_idx c (hd es)"
    | "compacted_until_raft_index cw < u" "raft_idx c (hd es) \<le> u" by linarith
  then show ?case
  proof cases
    case 1
    then have "cw' = cw" using compacted.hyps(2) index_offset_spec [OF inv] es by (simp add: cw_compact_def)
    then show ?thesis using IH by simp
  next
    case 2
    from cw_compact_below_first [OF inv es compacted.hyps(2) 2] IH es 2 show ?thesis
      by (cases es) auto
  next
    case 3
    obtain n where n: "compacted_until_raft_index cw' = min u (raft_idx c (hd es) + length es - 1)"
      "n < length es" "first_index (cw_wal cw') = first_index (cw_wal cw) + n"
      using compact_spec [OF inv es 3] compacted.hyps(2) by (metis prod.inject)
    have "consecutive c es" using inv by (simp add: cw_inv_def)
    then have "raft_idx c (hd (drop n es)) = raft_idx c (hd es) + n"
      using consecutive_nth n(2) by (simp add: hd_drop_conv_nth)
    then show ?thesis using n by simp
  qed
next
  case (start w es)
  then show ?case by (cases es) (simp_all add: cw_new_def)
next
  case (restarted cw es)
  then show ?case by (cases es) (simp_all add: cw_new_def)
qed simp_all

text \<open>Compacting a non-empty log up to an index at or behind its first entry never loses an
  entry at or above the (bounded) index, keeps at least one entry, and makes everything below
  the index unreadable.\<close>

lemma cw_compact_entries:
  assumes "cw_reach c crcf cw es" "codec_roundtrip c" "es \<noteq> []"
    "compacted_until_raft_index cw < u" "raft_idx c (hd es) \<le> u"
  shows "\<exists>cw'. cw_compact c cw u = (cw', Inr ()) \<and>
    compacted_until_raft_index cw' = min u (raft_idx c (hd es) + length es - 1) \<and>
    (\<forall>ri. cw_entry c cw' ri =
       (if ri = 0 then Inl Unavailable
        else if ri < compacted_until_raft_index cw' then Inl Compacted else cw_entry c cw ri))"
proof -
  note inv = cw_reach_inv [OF assms(1,2)]
  let ?h = "raft_idx c (hd es)"
  obtain cw' n where cw': "cw_compact c cw u = (cw', Inr ())" "cw_inv c crcf cw' (drop n es)"
    "compacted_until_raft_index cw' = min u (?h + length es - 1)"
    "n < length es" "?h + n \<le> compacted_until_raft_index cw'"
    using compact_spec [OF inv assms(3-5)] by metis
  have k: "consecutive c es" using inv by (simp add: cw_inv_def)
  have hd: "raft_idx c (hd (drop n es)) = ?h + n"
    using consecutive_nth [OF k cw'(4)] cw'(4) by (simp add: hd_drop_conv_nth)
  have "cw_entry c cw' ri = cw_entry c cw ri" if "compacted_until_raft_index cw' \<le> ri" for ri
  proof -
    have ge: "?h + n \<le> ri" by (rule order_trans [OF cw'(5) that])
    have ge2: "compacted_until_raft_index cw \<le> ri"
      using that assms(4) cw_reach_compacted [OF assms(1-3)] unfolding cw'(3) min_def
      by (simp split: if_splits)
    have "cw_entry c cw' ri = (if ri < ?h + n + (length es - n) then Inr (drop n es ! (ri - (?h + n))) else Inl Unavailable)"
      using cw_entry_spec [OF cw'(2)] that ge cw'(4) hd by simp
    also have "\<dots> = cw_entry c cw ri"
      using cw_entry_spec [OF inv assms(3), of ri] ge ge2 cw'(4) by auto
    finally show ?thesis .
  qed
  moreover have "cw_entry c cw' ri = (if ri = 0 then Inl Unavailable else Inl Compacted)"
    if "ri < compacted_until_raft_index cw'" for ri
    using that by (simp add: cw_entry_def)
  moreover have "cw_entry c cw' 0 = Inl Unavailable" by (simp add: cw_entry_def)
  ultimately show ?thesis using cw'(1,3) by (metis linorder_not_le)
qed

section \<open>Properties\<close>

text \<open>C6: Appending a batch as Raft does refines the abstract log: it always succeeds, the entries
  from the batch's first index on are replaced by the batch and everything before is kept, and
  every index that is not compacted then reads from the new abstract log.\<close>

theorem consensus_append_refines:
  assumes "cw_reach c crcf cw es" "codec_roundtrip c" "can_append c cw es news"
  shows "\<exists>cw'. append_entries c crcf fin cw news = (cw', Inr ()) \<and>
    cw_reach c crcf cw' (raft_append c es news) \<and>
    (\<forall>ri. raft_idx c (hd (raft_append c es news)) \<le> ri \<longrightarrow> compacted_until_raft_index cw \<le> ri \<longrightarrow>
       cw_entry c cw' ri =
         (if ri < raft_idx c (hd (raft_append c es news)) + length (raft_append c es news)
          then Inr (raft_append c es news ! (ri - raft_idx c (hd (raft_append c es news))))
          else Inl Unavailable))"
proof -
  obtain cw' where cw': "append_entries c crcf fin cw news = (cw', Inr ())"
    "cw_inv c crcf cw' (raft_append c es news)"
    "compacted_until_raft_index cw' = compacted_until_raft_index cw"
    using append_entries_spec [OF cw_reach_inv [OF assms(1,2)] assms(3,2), of fin] by metis
  have "raft_append c es news \<noteq> []" using assms(3) by (simp add: raft_append_def can_append_def)
  with cw' cw_entry_spec [OF cw'(2)] cw_reach.appended [OF assms(1,3) cw'(1)] show ?thesis by auto
qed

text \<open>Reading a range of retained entries without a size limit (none, or the largest \<open>u64\<close>)
  gives exactly the entries of the range that exist; with a limit it gives a prefix of them,
  which is not empty when the range is not.\<close>

lemma consensus_entries_functional:
  assumes "cw_reach c crcf cw es" "codec_roundtrip c" "es \<noteq> []"
    "raft_idx c (hd es) \<le> a" "compacted_until_raft_index cw \<le> a"
  shows "let slice = take (b - a) (drop (a - raft_idx c (hd es)) es) in
    cw_entries c cw a b None = Inr slice \<and>
    cw_entries c cw a b (Some (2 ^ 64 - 1)) = Inr slice \<and>
    (\<exists>n. cw_entries c cw a b (Some m) = Inr (take n slice) \<and> (slice \<noteq> [] \<longrightarrow> 0 < n))"
proof -
  note inv = cw_reach_inv [OF assms(1,2)]
  let ?f = "first_index (cw_wal cw)" and ?h = "raft_idx c (hd es)"
  let ?d = "?h - ?f" and ?g = "\<lambda>wi. es ! (wi - ?f)"
  have fh: "?f < ?h" using inv assms(3) by (simp add: cw_inv_def)
  have num: "num_entries (cw_wal cw) = length es"
    using inv wl.num [of crcf "cw_wal cw"] cw_inv_length [of c cw es] by (simp add: cw_inv_def)
  let ?r = "[a - ?d..<min (b - ?d) (?f + length es)]"
  have eq: "cw_entries c cw a b mx =
      entries_loop c cw (if mx = Some (2 ^ 64 - 1) then None else mx) 0 [] ?r" for mx
  proof -
    have "max a (compacted_until_raft_index cw) = a" using assms(5) by simp
    moreover have "max (a - ?d) ?f = a - ?d" using assms(4) fh by simp
    ultimately show ?thesis
      using index_offset_spec [OF inv] assms(3) num
      by (simp add: cw_entries_def into_raft_result_def Let_def the_offset_def raft_to_wal_def)
  qed
  have e: "entry_by_wal_index_impl c cw wi = Inr (Some (?g wi))" if "wi \<in> set ?r" for wi
    using that entry_impl_spec [OF inv, of wi] assms(4) fh by auto
  have "a - ?d = ?f + (a - ?h)" "b - ?d - (?f + (a - ?h)) = b - a" using assms(4) fh by linarith+
  then have slice: "map ?g ?r = take (b - a) (drop (a - ?h) es)"
    using map_nth_window [of es ?f "a - ?h" "b - ?d"] by simp
  obtain n where n: "entries_loop c cw (Some m) 0 [] ?r = Inr (map ?g (take n ?r))" "?r \<noteq> [] \<longrightarrow> 0 < n"
    using entries_loop_bounded [where c = c and cw = cw and wis = ?r and f = ?g and m = m and b = 0 and acc = "[]"] e
    by auto
  have ne: "?r \<noteq> [] \<longleftrightarrow> map ?g ?r \<noteq> []" by (simp only: map_is_Nil_conv)
  have none: "entries_loop c cw None 0 [] ?r = Inr (map ?g ?r)"
    using entries_loop_unbounded [where c = c and cw = cw and wis = ?r and f = ?g] e by auto
  have "\<exists>n. cw_entries c cw a b (Some m) = Inr (take n (map ?g ?r)) \<and> (map ?g ?r \<noteq> [] \<longrightarrow> 0 < n)"
  proof (cases "m = 2 ^ 64 - 1")
    case True
    have "cw_entries c cw a b (Some m) = Inr (take (Suc (length ?r)) (map ?g ?r))"
      unfolding eq True using none by simp
    then show ?thesis by blast
  next
    case False
    then have "cw_entries c cw a b (Some m) = Inr (take n (map ?g ?r))"
      unfolding eq using n(1) by (simp add: take_map)
    with n(2) ne show ?thesis by blast
  qed
  then show ?thesis using none unfolding Let_def slice [symmetric] eq by simp
qed

text \<open>A batch of at least two entries that overwrites the log from its very first retained
  entry fails half-way once the WAL was truncated from the front: truncating at that index
  restarts the WAL's own numbering at 0, but the offset computed before is still used, so the
  second entry is refused as not sequential. The log is left with the first entry only.\<close>

lemma consensus_append_stale_offset:
  assumes "cw_reach c crcf cw es" "codec_roundtrip c" "es \<noteq> []"
    "closed_segments (cw_wal cw) = d # ds" "\<not> seg_is_empty (c_segment d)" "0 < first_index (cw_wal cw)"
    "raft_idx c e1 = raft_idx c (hd es)" "raft_idx c e2 = raft_idx c e1 + 1"
    "compacted_until_raft_index cw \<le> raft_idx c e1"
    "entry_encode c e1 \<noteq> None"
  shows "\<exists>cw' x y z. append_entries c crcf fin cw (e1 # e2 # rest) = (cw', Inl (NotSequential x y z)) \<and>
    log_of c cw' [e1]"
proof -
  note inv = cw_reach_inv [OF assms(1,2)]
  let ?f = "first_index (cw_wal cw)" and ?h = "raft_idx c (hd es)"
  have w: "wal_inv crcf (cw_wal cw)" and l: "log_of c cw es" and fh: "?f < ?h"
    using inv assms(3) by (simp_all add: cw_inv_def)
  obtain buf where buf: "entry_encode c e1 = Some buf" using assms(10) by auto
  have dec: "entry_decode c buf = Some e1" "length buf < 2 ^ 64"
    using assms(2) buf by (auto simp: codec_roundtrip_def)
  obtain w1 where w1: "wal_truncate (cw_wal cw) ?f = Inr w1" "wal_inv crcf w1" "wal_entries w1 = []" "first_index w1 = 0"
    using wal_truncate_first_restarts [OF w assms(4,5)] by metis
  obtain w2 where w2: "wal_append crcf fin w1 buf = Inr (w2, 0)" "wal_inv crcf w2" "wal_entries w2 = [buf]" "first_index w2 = 0"
    using wl.append [OF w1(2) dec(2), of fin] w1(3,4) by auto
  have last: "?f < last_index (cw_wal cw) + 1" by (simp add: last_index_def)
  have wi: "try_raft_to_wal (the_offset c cw es) (raft_idx c e1) = Some ?f"
    "try_raft_to_wal (the_offset c cw es) (raft_idx c e2) = Some (?f + 1)"
    using fh assms(7,8) by (auto simp: try_raft_to_wal_def the_offset_def)
  have "last_index w2 = 0" using wl.num [OF w2(2)] w2(3,4) by (simp add: last_index_def)
  then have "append_loop c crcf fin cw (Some (the_offset c cw es)) (e1 # e2 # rest) =
      (cw\<lparr>cw_wal := w2\<rparr>, Inl (NotSequential (raft_idx c e2) (?f + 1) 0))"
    using assms(6,8,9) wi last w1(1) w2(1) buf
    by (simp add: prepare_append_def lift_wal_def Let_def)
  then have "append_entries c crcf fin cw (e1 # e2 # rest) =
      (cw\<lparr>cw_wal := w2\<rparr>, Inl (NotSequential (raft_idx c e2) (?f + 1) 0))"
    using index_offset_spec [OF inv] assms(3) by (simp add: append_entries_def)
  moreover have "log_of c (cw\<lparr>cw_wal := w2\<rparr>) [e1]" using w2(3) dec(1) by (simp add: log_of_def)
  ultimately show ?thesis by blast
qed

text \<open>The check that an entry is not below the first physical entry only refuses indices
  below the WAL's offset. An entry between the offset and the first retained entry is accepted,
  and accepting it silently drops the whole retained log.\<close>

lemma consensus_append_below_first_drops_log:
  assumes "cw_reach c crcf cw es" "codec_roundtrip c" "es \<noteq> []"
    "raft_idx c (hd es) - first_index (cw_wal cw) \<le> raft_idx c e" "raft_idx c e < raft_idx c (hd es)"
    "compacted_until_raft_index cw \<le> raft_idx c e" "entry_encode c e \<noteq> None"
  shows "\<exists>cw'. append_entries c crcf fin cw [e] = (cw', Inr ()) \<and> log_of c cw' [e]"
proof -
  note inv = cw_reach_inv [OF assms(1,2)]
  let ?f = "first_index (cw_wal cw)" and ?h = "raft_idx c (hd es)"
  have w: "wal_inv crcf (cw_wal cw)" and fh: "?f < ?h"
    using inv assms(3) by (simp_all add: cw_inv_def)
  obtain buf where buf: "entry_encode c e = Some buf" using assms(7) by auto
  have dec: "entry_decode c buf = Some e" "length buf < 2 ^ 64"
    using assms(2) buf by (auto simp: codec_roundtrip_def)
  let ?wi = "raft_idx c e - (?h - ?f)"
  have wi: "try_raft_to_wal (the_offset c cw es) (raft_idx c e) = Some ?wi" "?wi < ?f"
    using fh assms(4,5) by (auto simp: try_raft_to_wal_def the_offset_def)
  obtain w1 where w1: "wal_truncate (cw_wal cw) ?wi = Inr w1" "wal_inv crcf w1" "wal_entries w1 = []"
    using wl.truncate [OF w, of ?wi] wi(2) by auto
  obtain w2 i where w2: "wal_append crcf fin w1 buf = Inr (w2, i)" "wal_inv crcf w2" "wal_entries w2 = [buf]"
    using wl.append [OF w1(2) dec(2), of fin] w1(3) by auto
  have "?wi < last_index (cw_wal cw) + 1" using wi(2) by (simp add: last_index_def)
  then have "append_loop c crcf fin cw (Some (the_offset c cw es)) [e] = (cw\<lparr>cw_wal := w2\<rparr>, Inr ())"
    using assms(6) wi(1) w1(1) w2(1) buf by (simp add: prepare_append_def lift_wal_def Let_def)
  then have "append_entries c crcf fin cw [e] = (cw\<lparr>cw_wal := flush_open_segment w2\<rparr>, Inr ())"
    using index_offset_spec [OF inv] assms(3) by (simp add: append_entries_def)
  moreover have "log_of c (cw\<lparr>cw_wal := flush_open_segment w2\<rparr>) [e]"
    using wl.flush [OF w2(2)] w2(3) dec(1) by (simp add: log_of_def)
  ultimately show ?thesis by blast
qed

section \<open>Witnesses\<close>

text \<open>Entries that are just their index, in a log with WAL indices 4 and 5.\<close>

definition raft_codec_example :: "u64 raft_codec" where
  "raft_codec_example = \<lparr>entry_index = id,
     entry_encode = (\<lambda>e. if e < 256 then Some [ucast e] else None),
     entry_decode = (\<lambda>bs. case bs of [b] \<Rightarrow> Some (ucast b) | _ \<Rightarrow> None), compute_size = (\<lambda>_. 8)\<rparr>"

definition seg_of_byte :: "u8 \<Rightarrow> segment" where
  "seg_of_byte b = fst (the (seg_append crc_example seg_example0 [b]))"

definition cw_example :: consensus_op_wal where
  "cw_example = cw_new (projr (with_options (\<lambda>i. of_nat i) True 64 1 1 [(4, seg_of_byte 6)]
     [\<lparr>start_index = 4, c_segment = seg_of_byte 5\<rparr>]))"

lemma raft_codec_example_ok: "codec_roundtrip raft_codec_example"
proof -
  have "ucast (ucast e :: u8) = e" if "e < 256" for e :: u64
  proof -
    have "unat e < 2 ^ 8" using that by (simp add: word_less_nat_alt)
    then show ?thesis by (simp add: word_unat_eq_iff unsigned_ucast_eq unsigned_take_bit_eq take_bit_nat_eq_self)
  qed
  then show ?thesis
    by (auto simp: codec_roundtrip_def raft_codec_example_def split: if_splits)
qed

lemma seg_of_byte: "seg_reach crc_example (seg_of_byte b)" "seg_entries (seg_of_byte b) = [[b]]"
proof -
  have "sufficient_capacity seg_example0 (length [b])" "seg_entries seg_example0 = []" by code_simp+
  then obtain s' where s': "seg_append crc_example seg_example0 [b] = Some (s', 0)"
    "seg_entries s' = [] @ [[b]]" "seg_inv crc_example s'"
    using seg_append_spec [OF seg_reach_inv [OF seg_reach_example0], of "[b]"] length_seg_entries [of seg_example0]
    by (metis One_nat_def length_Cons list.size(3) one_less_numeral_iff semiring_norm(76) one_less_power zero_less_numeral)
  then have "seg_append crc_example seg_example0 [b] = Some (seg_of_byte b, 0)" by (simp add: seg_of_byte_def)
  from seg_reach.append [OF seg_reach_example0 _ this] s' show "seg_reach crc_example (seg_of_byte b)"
    "seg_entries (seg_of_byte b) = [[b]]" by (simp_all add: seg_of_byte_def)
qed

lemma cw_example_opened:
  "with_options (\<lambda>i. of_nat i) True 64 1 1 [(4, seg_of_byte 6)]
     [\<lparr>start_index = 4, c_segment = seg_of_byte 5\<rparr>] = Inr (cw_wal cw_example)"
  using with_options_ok [of 64 "[(4, seg_of_byte 6)]" crc_example
      "[\<lparr>start_index = 4, c_segment = seg_of_byte 5\<rparr>]" "\<lambda>i. of_nat i" True 1 1]
    seg_reach_inv [OF seg_of_byte(1)]
  by (auto simp: cw_example_def cw_new_def HEADER_LEN_def)

lemma cw_example_entries: "wal_entries (cw_wal cw_example) = [[5], [6]]"
  "first_index (cw_wal cw_example) = 4"
  using with_options_spec [OF cw_example_opened, of crc_example] seg_reach_inv [OF seg_of_byte(1)]
  by (simp_all add: HEADER_LEN_def seg_of_byte(2))

lemma cw_example_new: "cw_example = cw_new (cw_wal cw_example)"
  by (simp add: cw_example_def cw_new_def)

lemma cw_example_compacted: "compacted_until_raft_index cw_example = 0"
  by (simp add: cw_example_def cw_new_def)

lemma cw_example_reach: "cw_reach raft_codec_example crc_example cw_example [5, 6]"
proof -
  have "wal_reach crc_example (cw_wal cw_example)"
    by (rule wal_reach.opened [OF cw_example_opened]) (simp_all add: seg_of_byte(1) HEADER_LEN_def)
  moreover have "log_of raft_codec_example (cw_new (cw_wal cw_example)) [5, 6]"
    using cw_example_entries(1) by (simp add: log_of_def cw_new_def raft_codec_example_def)
  moreover have "consecutive raft_codec_example [5, 6]"
    by (simp add: consecutive_Cons raft_codec_example_def)
  ultimately have "cw_reach raft_codec_example crc_example (cw_new (cw_wal cw_example)) [5, 6]"
    by (rule cw_reach.start) (simp add: cw_example_entries(2) raft_codec_example_def)
  then show ?thesis using cw_example_new by simp
qed

lemma cw_example_closed:
  "closed_segments (cw_wal cw_example) = [\<lparr>start_index = 4, c_segment = seg_of_byte 5\<rparr>]"
  using arg_cong [OF cw_example_opened, of "\<lambda>r. closed_segments (projr r)"]
  by (simp add: with_options_def result_simps seg_is_empty_entries seg_of_byte(2) Let_def)

theorem consensus_append_refines_witness:
  "\<exists>cw'. append_entries raft_codec_example crc_example True cw_example [6, 7] = (cw', Inr ()) \<and>
     cw_reach raft_codec_example crc_example cw' [5, 6, 7] \<and>
     cw_entry raft_codec_example cw' 7 = Inr 7"
proof -
  have can: "can_append raft_codec_example cw_example [5, 6] [6, 7]"
    by (simp add: can_append_def consecutive_Cons cw_example_entries(2) cw_example_compacted raft_codec_example_def)
  have "raft_append raft_codec_example [5, 6] [6, 7] = [5, 6, 7]"
    by (simp add: raft_append_def raft_codec_example_def)
  with consensus_append_refines [OF cw_example_reach raft_codec_example_ok can, of True]
  show ?thesis by (auto simp: cw_example_compacted raft_codec_example_def)
qed

end
