(* ===== verification/ConsensusManager.thy ===== *)
theory ConsensusManager
  imports ConsensusState ConsensusWal
begin

text \<open>
  \<open>content_manager/consensus_manager.rs\<close> of qdrant, the state machine of Raft on one peer: the persistent state,
  the log of \<open>ConsensusWal\<close> and the container of collections, which is a trait in the code and a record of functions
  here. The messages of the \<open>raft\<close> crate are records of the fields the code reads, its node and the (de)serializers
  are parameters. A caller that waits for an operation is a number; it gets the result, or nothing when the sender
  is dropped. Debug assertions are not checked (release build), monitoring (thread status, send failures) is left out.
\<close>

section \<open>Entries, operations and parameters\<close>

datatype entry_type = EntryNormal | EntryConfChange | EntryConfChangeV2
datatype conf_change_type = AddNode | RemoveNode | AddLearnerNode

record raft_entry =
  re_type :: entry_type
  re_term :: nat
  re_index :: u64
  re_data :: "u8 list"
  re_context :: "u8 list"

datatype snapshot_status = Finish | Failure

datatype ('o, 'm, 'n) consensus_operations =
    CollectionMeta 'o
  | AddPeer nat string
  | RemovePeer nat
  | UpdatePeerMetadata nat 'm
  | UpdateClusterMetadata string "'n json"
  | RequestSnapshot
  | ReportSnapshot nat snapshot_status

record ('s, 'a, 'm, 'n) snapshot_data =
  collections_data :: 's
  address_by_id :: "(nat, 'a) hashmap"
  metadata_by_id :: "(nat, 'm) hashmap"
  sd_cluster_metadata :: "'n json_map"

record raft_snapshot =
  sn_data :: "u8 list"
  sn_conf_state :: conf_state
  sn_index :: nat
  sn_term :: nat

text \<open>The formats: CBOR and protobuf messages, and the text of a URI.\<close>

record ('o, 's, 'a, 'm, 'n) formats =
  decode_operation :: "u8 list \<Rightarrow> ('o, 'm, 'n) consensus_operations option"
  decode_conf_change :: "u8 list \<Rightarrow> (conf_change_type \<times> nat) list option"
  decode_conf_change_v1 :: "u8 list \<Rightarrow> (conf_change_type \<times> nat) option"
  parse_uri :: "u8 list \<Rightarrow> 'a option"
  parse_uri_lossy :: "u8 list \<Rightarrow> 'a option"
  uri_text :: "'a \<Rightarrow> string"
  encode_snapshot :: "('s, 'a, 'm, 'n) snapshot_data \<Rightarrow> u8 list option"
  decode_snapshot :: "u8 list \<Rightarrow> ('s, 'a, 'm, 'n) snapshot_data option"

text \<open>The trait \<open>CollectionContainer\<close>. Removing a peer also changes the shared map of addresses.\<close>

record ('t, 'o, 's, 'a) collection_container =
  perform_collection_meta_op :: "'t \<Rightarrow> 'o \<Rightarrow> 't \<times> (toc_error, bool) result"
  collections_snapshot :: "'t \<Rightarrow> 's"
  apply_collections_snapshot :: "'t \<Rightarrow> 's \<Rightarrow> 't \<times> (toc_error, unit) result"
  toc_remove_peer :: "'t \<Rightarrow> (nat, 'a) hashmap \<Rightarrow> nat \<Rightarrow> ('t \<times> (nat, 'a) hashmap) \<times> (toc_error, unit) result"

section \<open>The state\<close>

record ('t, 'o, 'a, 'm, 'n) manager =
  cm_persistent :: "('a, 'm, 'n) persistent"
  cm_wal :: consensus_op_wal
  cm_toc :: 't
  on_consensus_op_apply :: "(('o, 'm, 'n) consensus_operations, nat list) hashmap"
  cm_answers :: "(nat \<times> (toc_error, bool) result option) list"
  cm_proposed :: "('o, 'm, 'n) consensus_operations list"

definition with_persistent ::
  "(('a, 'm, 'n) persistent \<Rightarrow> ('a, 'm, 'n) persistent \<times> (toc_error, unit) result) \<Rightarrow>
   ('t, 'o, 'a, 'm, 'n) manager \<Rightarrow> ('t, 'o, 'a, 'm, 'n) manager \<times> (toc_error, unit) result" where
  "with_persistent f m = (case f (cm_persistent m) of (p, r) \<Rightarrow> (m\<lparr>cm_persistent := p\<rparr>, r))"

definition with_wal ::
  "(consensus_op_wal \<Rightarrow> consensus_op_wal \<times> (storage_error, unit) result) \<Rightarrow>
   ('t, 'o, 'a, 'm, 'n) manager \<Rightarrow> ('t, 'o, 'a, 'm, 'n) manager \<times> (toc_error, unit) result" where
  "with_wal f m =
     (case f (cm_wal m) of
        (w, Inl _) \<Rightarrow> (m\<lparr>cm_wal := w\<rparr>, Inl ServiceError)
      | (w, Inr _) \<Rightarrow> (m\<lparr>cm_wal := w\<rparr>, Inr ()))"

text \<open>A log left over by a crash inside \<open>apply_snapshot\<close> is cleared.\<close>

definition manager_new ::
  "raft_entry raft_codec \<Rightarrow> ('a, 'm, 'n) persistent \<Rightarrow> 't \<Rightarrow> consensus_op_wal \<Rightarrow>
   (toc_error, ('t, 'o, 'a, 'm, 'n) manager) result" where
  "manager_new c persistent_state toc cw =
     (let raft_index = hs_commit (rs_hard (p_state persistent_state));
          snapshot_index = sm_index (latest_snapshot_meta persistent_state);
          last_operation_was_snapshot = raft_index = snapshot_index;
          new = (\<lambda>w. \<lparr>cm_persistent = persistent_state, cm_wal = w, cm_toc = toc, on_consensus_op_apply = [],
                     cm_answers = [], cm_proposed = []\<rparr>)
      in if last_operation_was_snapshot \<and>
            (case last_entry c cw of Inr (Some last_e) \<Rightarrow> raft_idx c last_e < snapshot_index | _ \<Rightarrow> False)
         then (case cw_clear cw of (_, Inl _) \<Rightarrow> Inl ServiceError | (w, Inr _) \<Rightarrow> Inr (new w))
         else Inr (new cw))"

section \<open>Callers that wait\<close>

text \<open>\<open>broadcast::Sender\<close>: removing it from the map and sending, or dropping it without.\<close>

definition waiters :: "('o, 'm, 'n) consensus_operations \<Rightarrow> ('t, 'o, 'a, 'm, 'n) manager \<Rightarrow> nat list" where
  "waiters operation m = (case map_of (on_consensus_op_apply m) operation of Some ws \<Rightarrow> ws | None \<Rightarrow> [])"

definition remove_sender :: "('o, 'm, 'n) consensus_operations \<Rightarrow> ('t, 'o, 'a, 'm, 'n) manager \<Rightarrow> ('t, 'o, 'a, 'm, 'n) manager" where
  "remove_sender operation m = m\<lparr>on_consensus_op_apply := AList.delete operation (on_consensus_op_apply m)\<rparr>"

definition send_answer ::
  "nat list \<Rightarrow> (toc_error, bool) result option \<Rightarrow> ('t, 'o, 'a, 'm, 'n) manager \<Rightarrow> ('t, 'o, 'a, 'm, 'n) manager" where
  "send_answer ws answer m = m\<lparr>cm_answers := cm_answers m @ map (\<lambda>w. (w, answer)) ws\<rparr>"

text \<open>The part of \<open>propose_consensus_op_with_await\<close> before it waits, for the caller \<open>w\<close>. The channel to the
  consensus thread is open.\<close>

definition propose_consensus_op ::
  "nat \<Rightarrow> ('o, 'm, 'n) consensus_operations \<Rightarrow> ('t, 'o, 'a, 'm, 'n) manager \<Rightarrow> ('t, 'o, 'a, 'm, 'n) manager" where
  "propose_consensus_op w operation m =
     (case map_of (on_consensus_op_apply m) operation of
        Some ws \<Rightarrow> m\<lparr>on_consensus_op_apply := AList.update operation (ws @ [w]) (on_consensus_op_apply m)\<rparr>
      | None \<Rightarrow> m\<lparr>cm_proposed := cm_proposed m @ [operation],
                 on_consensus_op_apply := AList.update operation [w] (on_consensus_op_apply m)\<rparr>)"

text \<open>The caller \<open>w\<close> runs into its timeout in \<open>await_receiver\<close>; the others are left with a dropped sender.\<close>

definition await_timeout ::
  "nat \<Rightarrow> ('o, 'm, 'n) consensus_operations \<Rightarrow> ('t, 'o, 'a, 'm, 'n) manager \<Rightarrow> ('t, 'o, 'a, 'm, 'n) manager" where
  "await_timeout w operation m =
     send_answer (filter (\<lambda>v. v \<noteq> w) (waiters operation m)) None
       (send_answer [w] (Some (Inl ServiceError)) (remove_sender operation m))"

section \<open>Peers\<close>

definition add_peer :: "nat \<Rightarrow> 'a \<Rightarrow> ('t, 'o, 'a, 'm, 'n) manager \<Rightarrow> ('t, 'o, 'a, 'm, 'n) manager \<times> (toc_error, unit) result" where
  "add_peer peer_id uri m = with_persistent (insert_peer peer_id uri) m"

definition remove_peer ::
  "('t, 'o, 's, 'a) collection_container \<Rightarrow> nat \<Rightarrow> ('t, 'o, 'a, 'm, 'n) manager \<Rightarrow>
   ('t, 'o, 'a, 'm, 'n) manager \<times> (toc_error, unit) result" where
  "remove_peer tc peer_id m =
     (case toc_remove_peer tc (cm_toc m) (peer_address_by_id (cm_persistent m)) peer_id of
        ((t, addresses), r) \<Rightarrow>
          let m1 = m\<lparr>cm_toc := t, cm_persistent := (cm_persistent m)\<lparr>peer_address_by_id := addresses\<rparr>\<rparr> in
          (case r of
             Inl e \<Rightarrow> (m1, Inl e)
           | Inr _ \<Rightarrow> with_persistent (\<lambda>p. p_save (p\<lparr>peer_metadata_by_id := AList.delete peer_id (peer_metadata_by_id p)\<rparr>)) m1))"

definition on_peer_remove ::
  "('t, 'o, 's, 'a) collection_container \<Rightarrow> nat \<Rightarrow> ('t, 'o, 'a, 'm, 'n) manager \<Rightarrow>
   ('t, 'o, 'a, 'm, 'n) manager \<times> (toc_error, bool) result" where
  "on_peer_remove tc peer_id m =
     (case remove_peer tc peer_id m of
        (m1, Inl ServiceError) \<Rightarrow> (m1, Inl ServiceError)
      | (m1, r) \<Rightarrow>
          let stop_consensus = (r = Inr () \<and> this_peer_id (cm_persistent m1) = peer_id);
              report = (case r of Inr _ \<Rightarrow> Inr True | Inl e \<Rightarrow> Inl e);
              operation = RemovePeer peer_id
          in (send_answer (waiters operation m1) (Some report) (remove_sender operation m1), Inr stop_consensus))"

section \<open>Applying committed entries\<close>

datatype apply_error =
    SaveFailed
  | NoEntry raft_error
  | ApplyFailed toc_error
  | UnexpectedEntryType
  | Unreachable

text \<open>The node of the \<open>raft\<close> crate, as far as it is called; it reads the store it was given.\<close>

datatype state_role = Follower | Candidate | Leader | PreCandidate

record soft_state =
  ss_leader_id :: nat
  ss_raft_state :: state_role

record 'g ready =
  rd_messages :: "'g list"
  rd_snapshot :: "raft_snapshot option"
  rd_entries :: "raft_entry list"
  rd_hs :: "hard_state option"
  rd_ss :: "soft_state option"
  rd_persisted_messages :: "'g list"
  rd_committed_entries :: "raft_entry list"

record 'g light_ready =
  lr_commit_index :: "nat option"
  lr_messages :: "'g list"
  lr_committed_entries :: "raft_entry list"

record ('r, 'st, 'g) raft_node =
  rn_apply_conf_change :: "'st \<Rightarrow> 'r \<Rightarrow> (conf_change_type \<times> nat) list \<Rightarrow> 'r \<times> conf_state option"
  rn_has_ready :: "'st \<Rightarrow> 'r \<Rightarrow> bool"
  rn_ready :: "'st \<Rightarrow> 'r \<Rightarrow> 'r \<times> 'g ready"
  rn_advance :: "'st \<Rightarrow> 'r \<Rightarrow> 'g ready \<Rightarrow> 'r \<times> 'g light_ready"
  rn_advance_apply :: "'st \<Rightarrow> 'r \<Rightarrow> 'r"
  rn_leader_id :: "'r \<Rightarrow> nat"

text \<open>The loop over the single changes of one entry.\<close>

fun conf_changes_loop ::
  "('o, 's, 'a, 'm, 'n) formats \<Rightarrow> ('t, 'o, 's, 'a) collection_container \<Rightarrow> raft_entry \<Rightarrow> bool \<Rightarrow>
   (conf_change_type \<times> nat) list \<Rightarrow> ('t, 'o, 'a, 'm, 'n) manager \<Rightarrow> ('t, 'o, 'a, 'm, 'n) manager \<times> (toc_error, bool) result" where
  "conf_changes_loop fm tc entry stop [] m = (m, Inr stop)"
| "conf_changes_loop fm tc entry stop ((AddNode, node_id) # changes) m =
     (if re_context entry \<noteq> []
      then (case parse_uri fm (re_context entry) of
              None \<Rightarrow> (m, Inl ServiceError)
            | Some peer_uri \<Rightarrow>
                (case add_peer node_id peer_uri m of
                   (m1, Inl e) \<Rightarrow> (m1, Inl e)
                 | (m1, Inr _) \<Rightarrow> conf_changes_loop fm tc entry stop changes m1))
      else conf_changes_loop fm tc entry stop changes m)"
| "conf_changes_loop fm tc entry stop ((RemoveNode, node_id) # changes) m =
     (case on_peer_remove tc node_id m of
        (m1, Inl e) \<Rightarrow> (m1, Inl e)
      | (m1, Inr s) \<Rightarrow> conf_changes_loop fm tc entry (stop \<or> s) changes m1)"
| "conf_changes_loop fm tc entry stop ((AddLearnerNode, node_id) # changes) m =
     (case parse_uri_lossy fm (re_context entry) of
        Some peer_uri \<Rightarrow>
          (case add_peer node_id peer_uri m of
             (m1, Inl e) \<Rightarrow> (m1, Inl e)
           | (m1, Inr _) \<Rightarrow>
               let operation = AddPeer node_id (uri_text fm peer_uri) in
               conf_changes_loop fm tc entry stop changes
                 (send_answer (waiters operation m1) (Some (Inr True)) (remove_sender operation m1)))
      | None \<Rightarrow>
          if re_context entry = [] then conf_changes_loop fm tc entry stop changes m else (m, Inl ServiceError))"

definition apply_conf_change_entry ::
  "('o, 's, 'a, 'm, 'n) formats \<Rightarrow> ('t, 'o, 's, 'a) collection_container \<Rightarrow> ('r, ('t, 'o, 'a, 'm, 'n) manager, 'g) raft_node \<Rightarrow>
   raft_entry \<Rightarrow> ('t, 'o, 'a, 'm, 'n) manager \<Rightarrow> 'r \<Rightarrow> ('t, 'o, 'a, 'm, 'n) manager \<times> 'r \<times> (toc_error, bool) result" where
  "apply_conf_change_entry fm tc rn entry m node =
     (case decode_conf_change fm (re_data entry) of
        None \<Rightarrow> (m, node, Inl ServiceError)
      | Some changes \<Rightarrow>
          (case rn_apply_conf_change rn m node changes of
             (node1, None) \<Rightarrow> (m, node1, Inl ServiceError)
           | (node1, Some conf) \<Rightarrow>
               (case with_persistent (apply_state_update (\<lambda>state. state\<lparr>rs_conf := conf\<rparr>)) m of
                  (m1, Inl e) \<Rightarrow> (m1, node1, Inl e)
                | (m1, Inr _) \<Rightarrow>
                    (case conf_changes_loop fm tc entry False changes m1 of (m2, r) \<Rightarrow> (m2, node1, r)))))"

text \<open>A failing update of peer metadata returns early and drops the sender.\<close>

definition apply_normal_entry ::
  "('o, 's, 'a, 'm, 'n) formats \<Rightarrow> ('t, 'o, 's, 'a) collection_container \<Rightarrow> raft_entry \<Rightarrow>
   ('t, 'o, 'a, 'm, 'n) manager \<Rightarrow> ('t, 'o, 'a, 'm, 'n) manager \<times> (apply_error, (toc_error, bool) result) result" where
  "apply_normal_entry fm tc entry m =
     (case decode_operation fm (re_data entry) of
        None \<Rightarrow> (m, Inr (Inl ServiceError))
      | Some operation \<Rightarrow>
          let ws = waiters operation m; m1 = remove_sender operation m;
              finish = (\<lambda>(m2, r). (send_answer ws (Some r) m2, Inr r))
          in (case operation of
                CollectionMeta op \<Rightarrow>
                  (case perform_collection_meta_op tc (cm_toc m1) op of (t, r) \<Rightarrow> finish (m1\<lparr>cm_toc := t\<rparr>, r))
              | AddPeer _ _ \<Rightarrow> finish (m1, Inr False)
              | RemovePeer _ \<Rightarrow> finish (m1, Inr False)
              | UpdatePeerMetadata peer_id metadata \<Rightarrow>
                  (case with_persistent (update_peer_metadata peer_id metadata) m1 of
                     (m2, Inl e) \<Rightarrow> (send_answer ws None m2, Inr (Inl e))
                   | (m2, Inr _) \<Rightarrow> finish (m2, Inr True))
              | UpdateClusterMetadata key val \<Rightarrow>
                  finish (m1\<lparr>cm_persistent := update_cluster_metadata_key key val (cm_persistent m1)\<rparr>, Inr True)
              | RequestSnapshot \<Rightarrow> (m1, Inl Unreachable)
              | ReportSnapshot _ _ \<Rightarrow> (m1, Inl Unreachable)))"

text \<open>The body of the loop of \<open>apply_entries\<close> up to the decision to stop: \<open>Inr True\<close> stops the consensus, \<open>Inl\<close> fails.\<close>

definition apply_one_entry ::
  "('o, 's, 'a, 'm, 'n) formats \<Rightarrow> ('t, 'o, 's, 'a) collection_container \<Rightarrow> ('r, ('t, 'o, 'a, 'm, 'n) manager, 'g) raft_node \<Rightarrow>
   raft_entry \<Rightarrow> ('t, 'o, 'a, 'm, 'n) manager \<Rightarrow> 'r \<Rightarrow> ('t, 'o, 'a, 'm, 'n) manager \<times> 'r \<times> (apply_error, bool) result" where
  "apply_one_entry fm tc rn entry m node =
     (if re_data entry = [] then (m, node, Inr False)
      else case re_type entry of
        EntryNormal \<Rightarrow>
          (case apply_normal_entry fm tc entry m of
             (m1, Inl e) \<Rightarrow> (m1, node, Inl e)
           | (m1, Inr (Inr _)) \<Rightarrow> (m1, node, Inr False)
           | (m1, Inr (Inl ServiceError)) \<Rightarrow> (m1, node, Inl (ApplyFailed ServiceError))
           | (m1, Inr (Inl _)) \<Rightarrow> (m1, node, Inr False))
      | EntryConfChangeV2 \<Rightarrow>
          (case apply_conf_change_entry fm tc rn entry m node of
             (m1, node1, Inl e) \<Rightarrow> (m1, node1, Inl (ApplyFailed e))
           | (m1, node1, Inr stop) \<Rightarrow> (m1, node1, Inr stop))
      | EntryConfChange \<Rightarrow> (m, node, Inl UnexpectedEntryType))"

abbreviation queue_of :: "('t, 'o, 'a, 'm, 'n) manager \<Rightarrow> entry_queue" where
  "queue_of m \<equiv> apply_progress_queue (cm_persistent m)"

text \<open>Applying an entry does not touch the queue, so the loop ends with it.\<close>

lemma p_save_queue [simp]: "apply_progress_queue (fst (p_save p)) = apply_progress_queue p"
  by (simp add: p_save_def Let_def)

lemma add_peer_queue: "queue_of (fst (add_peer i u m)) = queue_of m"
  by (simp add: add_peer_def with_persistent_def insert_peer_def case_prod_beta)

lemma send_answer_queue [simp]: "queue_of (send_answer ws a m) = queue_of m" "queue_of (remove_sender op m) = queue_of m"
  by (simp_all add: send_answer_def remove_sender_def)

lemma on_peer_remove_queue: "queue_of (fst (on_peer_remove tc i m)) = queue_of m"
  by (auto simp: on_peer_remove_def remove_peer_def with_persistent_def case_prod_beta Let_def split: sum.splits toc_error.splits)

lemma conf_changes_loop_queue: "queue_of (fst (conf_changes_loop fm tc e stop cs m)) = queue_of m"
proof (induction cs arbitrary: stop m)
  case (Cons c cs)
  obtain ty i where c: "c = (ty, i)" by (cases c)
  show ?case
    by (cases ty) (auto simp: c Cons.IH add_peer_queue on_peer_remove_queue case_prod_beta Let_def split: option.splits sum.splits)
qed simp

lemma apply_one_entry_queue: "queue_of (fst (apply_one_entry fm tc rn e m node)) = queue_of m"
  by (auto simp: apply_one_entry_def apply_normal_entry_def apply_conf_change_entry_def with_persistent_def
      update_peer_metadata_def update_cluster_metadata_key_def apply_state_update_def case_prod_beta Let_def
      conf_changes_loop_queue
      split: option.splits sum.splits entry_type.splits consensus_operations.splits toc_error.splits)

function apply_loop ::
  "('o, 's, 'a, 'm, 'n) formats \<Rightarrow> ('t, 'o, 's, 'a) collection_container \<Rightarrow> ('r, ('t, 'o, 'a, 'm, 'n) manager, 'g) raft_node \<Rightarrow>
   raft_entry raft_codec \<Rightarrow> ('t, 'o, 'a, 'm, 'n) manager \<Rightarrow> 'r \<Rightarrow> ('t, 'o, 'a, 'm, 'n) manager \<times> 'r \<times> (apply_error, bool) result" where
  "apply_loop fm tc rn c m node =
     (case current_unapplied_entry (cm_persistent m) of
        None \<Rightarrow> (m, node, Inr False)
      | Some entry_id \<Rightarrow>
          (case cw_entry c (cm_wal m) entry_id of
             Inl e \<Rightarrow> (m, node, Inl (NoEntry e))
           | Inr entry \<Rightarrow>
               (case apply_one_entry fm tc rn entry m node of
                  (m1, node1, Inl e) \<Rightarrow> (m1, node1, Inl e)
                | (m1, node1, Inr stop_consensus) \<Rightarrow>
                    if stop_consensus then (m1, node1, Inr True)
                    else (case with_persistent entry_applied m1 of
                            (m2, Inl _) \<Rightarrow> (m2, node1, Inl SaveFailed)
                          | (m2, Inr _) \<Rightarrow> apply_loop fm tc rn c m2 node1))))"
  by pat_completeness auto

definition queue_left :: "entry_queue \<Rightarrow> nat" where
  "queue_left q = (case q of Some (current, last_id) \<Rightarrow> last_id + 1 - current | None \<Rightarrow> 0)"

lemma queue_left_applied: "queue_current q = Some i \<Longrightarrow> queue_left (queue_applied q) < queue_left q"
  by (auto simp: queue_current_def queue_applied_def queue_left_def split: option.splits if_splits)

lemma entry_applied_queue: "queue_of (fst (with_persistent entry_applied m)) = queue_applied (queue_of m)"
  by (simp add: with_persistent_def entry_applied_def case_prod_beta)

lemma apply_one_entry_queueD: "apply_one_entry fm tc rn e m node = (m1, x) \<Longrightarrow> queue_of m1 = queue_of m"
  using apply_one_entry_queue [of fm tc rn e m node] by simp

lemma entry_applied_queueD: "with_persistent entry_applied m = (m1, x) \<Longrightarrow> queue_of m1 = queue_applied (queue_of m)"
  using entry_applied_queue [of m] by simp

termination apply_loop
  by (relation "measure (\<lambda>(fm, tc, rn, c, m, node). queue_left (queue_of m))")
    (auto dest!: apply_one_entry_queueD [OF sym] entry_applied_queueD [OF sym]
      simp: current_unapplied_entry_def queue_left_applied)

declare apply_loop.simps [simp del]

definition apply_entries ::
  "('o, 's, 'a, 'm, 'n) formats \<Rightarrow> ('t, 'o, 's, 'a) collection_container \<Rightarrow> ('r, ('t, 'o, 'a, 'm, 'n) manager, 'g) raft_node \<Rightarrow>
   raft_entry raft_codec \<Rightarrow> ('t, 'o, 'a, 'm, 'n) manager \<Rightarrow> 'r \<Rightarrow> ('t, 'o, 'a, 'm, 'n) manager \<times> 'r \<times> (apply_error, bool) result" where
  "apply_entries fm tc rn c m node =
     (case with_persistent save_if_dirty m of
        (m1, Inl _) \<Rightarrow> (m1, node, Inl SaveFailed)
      | (m1, Inr _) \<Rightarrow> apply_loop fm tc rn c m1 node)"

section \<open>Snapshots, compaction and the storage of Raft\<close>

definition apply_snapshot ::
  "('o, 's, 'a, 'm, 'n) formats \<Rightarrow> ('t, 'o, 's, 'a) collection_container \<Rightarrow> raft_snapshot \<Rightarrow>
   ('t, 'o, 'a, 'm, 'n) manager \<Rightarrow> ('t, 'o, 'a, 'm, 'n) manager \<times> (toc_error, unit) result" where
  "apply_snapshot fm tc sn m =
     (case decode_snapshot fm (sn_data sn) of
        None \<Rightarrow> (m, Inl ServiceError)
      | Some data \<Rightarrow>
          (case apply_collections_snapshot tc (cm_toc m) (collections_data data) of
             (t, Inl e) \<Rightarrow> (m\<lparr>cm_toc := t\<rparr>, Inl e)
           | (t, Inr _) \<Rightarrow>
               (case with_persistent (\<lambda>p. update_from_snapshot p (sn_conf_state sn) (sn_term sn) (sn_index sn)
                        (address_by_id data) (metadata_by_id data) (sd_cluster_metadata data)) (m\<lparr>cm_toc := t\<rparr>) of
                  (m1, Inl e) \<Rightarrow> (m1, Inl e)
                | (m1, Inr _) \<Rightarrow> with_wal cw_clear m1)))"

definition set_hard_state :: "hard_state \<Rightarrow> ('t, 'o, 'a, 'm, 'n) manager \<Rightarrow> ('t, 'o, 'a, 'm, 'n) manager \<times> (toc_error, unit) result" where
  "set_hard_state hs = with_persistent (apply_state_update (\<lambda>state. state\<lparr>rs_hard := hs\<rparr>))"

definition set_conf_state :: "conf_state \<Rightarrow> ('t, 'o, 'a, 'm, 'n) manager \<Rightarrow> ('t, 'o, 'a, 'm, 'n) manager \<times> (toc_error, unit) result" where
  "set_conf_state conf = with_persistent (apply_state_update (\<lambda>state. state\<lparr>rs_conf := conf\<rparr>))"

definition set_commit_index :: "nat \<Rightarrow> ('t, 'o, 'a, 'm, 'n) manager \<Rightarrow> ('t, 'o, 'a, 'm, 'n) manager \<times> (toc_error, unit) result" where
  "set_commit_index i = with_persistent (apply_state_update (\<lambda>state. state\<lparr>rs_hard := (rs_hard state)\<lparr>hs_commit := i\<rparr>\<rparr>))"

definition is_new_deployment :: "('t, 'o, 'a, 'm, 'n) manager \<Rightarrow> bool" where
  "is_new_deployment m = (hs_term (rs_hard (p_state (cm_persistent m))) = 0)"

definition compact_wal ::
  "raft_entry raft_codec \<Rightarrow> nat \<Rightarrow> ('t, 'o, 'a, 'm, 'n) manager \<Rightarrow> ('t, 'o, 'a, 'm, 'n) manager \<times> (toc_error, bool) result" where
  "compact_wal c min_entries_to_compact m =
     (if min_entries_to_compact = 0 then (m, Inr False)
      else case first_entry c (cm_wal m) of
        Inl _ \<Rightarrow> (m, Inl ServiceError)
      | Inr None \<Rightarrow> (m, Inr False)
      | Inr (Some first) \<Rightarrow>
          (case last_applied_entry (cm_persistent m) of
             None \<Rightarrow> (m, Inr False)
           | Some last_applied_index \<Rightarrow>
               if last_applied_index - raft_idx c first < min_entries_to_compact then (m, Inr False)
               else (case with_wal (\<lambda>w. cw_compact c w last_applied_index) m of
                       (m1, Inl e) \<Rightarrow> (m1, Inl e)
                     | (m1, Inr _) \<Rightarrow> (m1, Inr True))))"

text \<open>The trait \<open>Storage\<close> of the \<open>raft\<close> crate.\<close>

definition st_first_index :: "raft_entry raft_codec \<Rightarrow> ('t, 'o, 'a, 'm, 'n) manager \<Rightarrow> (raft_error, nat) result" where
  "st_first_index c m =
     (case first_entry c (cm_wal m) of
        Inl e \<Rightarrow> Inl (OtherError e)
      | Inr (Some entry) \<Rightarrow> Inr (raft_idx c entry)
      | Inr None \<Rightarrow> Inr (sm_index (latest_snapshot_meta (cm_persistent m)) + 1))"

definition st_last_index :: "raft_entry raft_codec \<Rightarrow> ('t, 'o, 'a, 'm, 'n) manager \<Rightarrow> (raft_error, nat) result" where
  "st_last_index c m =
     (case last_entry c (cm_wal m) of
        Inl e \<Rightarrow> Inl (OtherError e)
      | Inr (Some entry) \<Rightarrow> Inr (raft_idx c entry)
      | Inr None \<Rightarrow> Inr (sm_index (latest_snapshot_meta (cm_persistent m))))"

datatype storage_failure = RaftError raft_error | IndexOutOfBound

definition st_entries ::
  "raft_entry raft_codec \<Rightarrow> nat \<Rightarrow> nat \<Rightarrow> nat option \<Rightarrow> ('t, 'o, 'a, 'm, 'n) manager \<Rightarrow> (storage_failure, raft_entry list) result" where
  "st_entries c low high max_size m =
     (case st_first_index c m of
        Inl e \<Rightarrow> Inl (RaftError e)
      | Inr first \<Rightarrow>
          if low < first then Inl (RaftError Compacted)
          else (case st_last_index c m of
                  Inl e \<Rightarrow> Inl (RaftError e)
                | Inr last_id \<Rightarrow>
                    if last_id + 1 < high then Inl IndexOutOfBound
                    else map_sum RaftError id (cw_entries c (cm_wal m) low high max_size)))"

definition st_term :: "raft_entry raft_codec \<Rightarrow> nat \<Rightarrow> ('t, 'o, 'a, 'm, 'n) manager \<Rightarrow> (raft_error, nat) result" where
  "st_term c i m =
     (let snapshot_meta = latest_snapshot_meta (cm_persistent m) in
      if i = sm_index snapshot_meta then Inr (sm_term snapshot_meta)
      else and_then (cw_entry c (cm_wal m) i) (\<lambda>entry. Inr (re_term entry)))"

text \<open>The snapshot of a peer; \<open>None\<close> in the error is a snapshot that is temporarily unavailable or cannot be
  serialized.\<close>

definition st_snapshot ::
  "('o, 's, 'a, 'm, 'n) formats \<Rightarrow> ('t, 'o, 's, 'a) collection_container \<Rightarrow> raft_entry raft_codec \<Rightarrow> nat \<Rightarrow>
   ('t, 'o, 'a, 'm, 'n) manager \<Rightarrow> (raft_error option, raft_snapshot) result" where
  "st_snapshot fm tc c request_index m =
     (let persistent = cm_persistent m; index = hs_commit (rs_hard (p_state persistent)) in
      if index < request_index then Inl None
      else case (if index = sm_index (latest_snapshot_meta persistent) then Inr (sm_term (latest_snapshot_meta persistent))
                 else and_then (cw_entry c (cm_wal m) index) (\<lambda>entry. Inr (re_term entry))) of
             Inl e \<Rightarrow> Inl (Some e)
           | Inr term \<Rightarrow>
               (case encode_snapshot fm \<lparr>collections_data = collections_snapshot tc (cm_toc m),
                       address_by_id = peer_address_by_id persistent, metadata_by_id = peer_metadata_by_id persistent,
                       sd_cluster_metadata = cluster_metadata persistent\<rparr> of
                  None \<Rightarrow> Inl None
                | Some data \<Rightarrow> Inr \<lparr>sn_data = data, sn_conf_state = rs_conf (p_state persistent), sn_index = index, sn_term = term\<rparr>))"

section \<open>The first voter\<close>

text \<open>\<open>PeerId::MAX\<close> stands for a first voter that cannot be found any more.\<close>

definition PEER_ID_MAX :: nat where "PEER_ID_MAX = 2 ^ 64 - 1"

definition first_voter_of :: "('t, 'o, 'a, 'm, 'n) manager \<Rightarrow> nat" where
  "first_voter_of m =
     (case first_voter (cm_persistent m) of
        Some peer_id \<Rightarrow> if peer_id \<noteq> PEER_ID_MAX then peer_id else this_peer_id (cm_persistent m)
      | None \<Rightarrow> this_peer_id (cm_persistent m))"

definition added_nodes :: "(conf_change_type \<times> nat) list \<Rightarrow> nat list" where
  "added_nodes changes = map snd (filter (\<lambda>(ty, _). ty \<noteq> RemoveNode) changes)"

text \<open>The nodes an entry adds, which cannot be the first voter.\<close>

definition entry_added_nodes :: "('o, 's, 'a, 'm, 'n) formats \<Rightarrow> raft_entry \<Rightarrow> (toc_error, nat list) result" where
  "entry_added_nodes fm entry =
     (case re_type entry of
        EntryConfChangeV2 \<Rightarrow>
          (case decode_conf_change fm (re_data entry) of None \<Rightarrow> Inl ServiceError | Some changes \<Rightarrow> Inr (added_nodes changes))
      | EntryConfChange \<Rightarrow>
          (case decode_conf_change_v1 fm (re_data entry) of None \<Rightarrow> Inl ServiceError | Some change \<Rightarrow> Inr (added_nodes [change]))
      | EntryNormal \<Rightarrow> Inr [])"

fun first_voter_loop ::
  "('o, 's, 'a, 'm, 'n) formats \<Rightarrow> raft_entry raft_codec \<Rightarrow> consensus_op_wal \<Rightarrow> nat list \<Rightarrow> nat list \<Rightarrow> (toc_error, nat list) result" where
  "first_voter_loop fm c cw [] peers = Inr peers"
| "first_voter_loop fm c cw (i # ids) peers =
     (case cw_entry c cw i of
        Inl _ \<Rightarrow> Inl ServiceError
      | Inr entry \<Rightarrow>
          and_then (entry_added_nodes fm entry) (\<lambda>added.
            first_voter_loop fm c cw ids (filter (\<lambda>p. p \<notin> set added) peers)))"

definition recover_first_voter_impl ::
  "('o, 's, 'a, 'm, 'n) formats \<Rightarrow> raft_entry raft_codec \<Rightarrow> consensus_op_wal \<Rightarrow> nat list \<Rightarrow> (toc_error, nat option) result" where
  "recover_first_voter_impl fm c cw peers =
     (case first_entry c cw of
        Inl _ \<Rightarrow> Inl ServiceError
      | Inr None \<Rightarrow> Inr None
      | Inr (Some first) \<Rightarrow>
          (case last_entry c cw of
             Inl _ \<Rightarrow> Inl ServiceError
           | Inr None \<Rightarrow> Inr None
           | Inr (Some last_e) \<Rightarrow>
               if raft_idx c first \<noteq> 1 then Inr (Some PEER_ID_MAX)
               else and_then (first_voter_loop fm c cw [raft_idx c first..<raft_idx c last_e + 1] (remdups peers)) (\<lambda>rest.
                      if 1 < length rest then Inr (Some PEER_ID_MAX)
                      else Inr (case rest of [] \<Rightarrow> None | peer # _ \<Rightarrow> Some peer))))"

definition recover_first_voter ::
  "('o, 's, 'a, 'm, 'n) formats \<Rightarrow> raft_entry raft_codec \<Rightarrow> ('t, 'o, 'a, 'm, 'n) manager \<Rightarrow>
   ('t, 'o, 'a, 'm, 'n) manager \<times> (toc_error, unit) result" where
  "recover_first_voter fm c m =
     (if first_voter (cm_persistent m) = None
      then (case recover_first_voter_impl fm c (cm_wal m) (hm_keys (peer_address_by_id (cm_persistent m))) of
              Inl e \<Rightarrow> (m, Inl e)
            | Inr None \<Rightarrow> (m, Inr ())
            | Inr (Some peer_id) \<Rightarrow> with_persistent (set_first_voter_id peer_id) m)
      else (m, Inr ()))"

end
