(* ===== verification/ConsensusApply.thy ===== *)
theory ConsensusApply
  imports ConsensusManager
begin

text \<open>
  Applying committed entries across failing saves and restarts: the state file and the container advance together,
  an operation on the collections may run again after a restart and none is skipped or reordered.
\<close>

section \<open>What an entry does\<close>

text \<open>Empty entries, and operations other than requests for snapshots, which are never proposed as entries.\<close>

definition normal_entry :: "('o, 's, 'a, 'm, 'n) formats \<Rightarrow> raft_entry \<Rightarrow> bool" where
  "normal_entry fm e \<longleftrightarrow> re_data e = [] \<or>
     (re_type e = EntryNormal \<and> (case decode_operation fm (re_data e) of
        None \<Rightarrow> False | Some RequestSnapshot \<Rightarrow> False | Some (ReportSnapshot _ _) \<Rightarrow> False | Some _ \<Rightarrow> True))"

definition entry_op :: "('o, 's, 'a, 'm, 'n) formats \<Rightarrow> raft_entry \<Rightarrow> ('o, 'm, 'n) consensus_operations option" where
  "entry_op fm e = (if re_data e = [] then None else decode_operation fm (re_data e))"

definition toc_effect :: "('o, 's, 'a, 'm, 'n) formats \<Rightarrow> ('t, 'o, 's, 'a) collection_container \<Rightarrow> raft_entry \<Rightarrow> 't \<Rightarrow> 't" where
  "toc_effect fm tc e t =
     (case entry_op fm e of Some (CollectionMeta op) \<Rightarrow> fst (perform_collection_meta_op tc t op) | _ \<Rightarrow> t)"

definition cluster_effect :: "('o, 's, 'a, 'm, 'n) formats \<Rightarrow> raft_entry \<Rightarrow> 'n json_map \<Rightarrow> 'n json_map" where
  "cluster_effect fm e cl =
     (case entry_op fm e of
        Some (UpdateClusterMetadata key val) \<Rightarrow> if val \<noteq> JNull then AList.update key val cl else AList.delete key cl
      | _ \<Rightarrow> cl)"

text \<open>What the file holds that matters for the progress.\<close>

definition holds_progress :: "('a, 'm, 'n) persistent \<Rightarrow> entry_queue \<Rightarrow> 'n json_map \<Rightarrow> snapshot_meta \<Rightarrow> bool" where
  "holds_progress p q cl sm \<longleftrightarrow> (\<exists>d. p_file p = Holds d \<and> apply_progress_queue d = q \<and>
     cluster_metadata d = cl \<and> latest_snapshot_meta d = sm)"

definition in_memory :: "('a, 'm, 'n) persistent \<Rightarrow> entry_queue \<Rightarrow> 'n json_map \<Rightarrow> snapshot_meta \<Rightarrow> bool" where
  "in_memory p q cl sm \<longleftrightarrow> apply_progress_queue p = q \<and> cluster_metadata p = cl \<and> latest_snapshot_meta p = sm"

lemma p_save_progress:
  assumes "in_memory p q cl sm" "p_save p = (p1, r)"
  shows "in_memory p1 q cl sm" "r = Inr () \<Longrightarrow> holds_progress p1 q cl sm \<and> \<not> dirty p1"
    "r \<noteq> Inr () \<Longrightarrow> p_file p1 = p_file p"
    "save_outcomes p = [] \<Longrightarrow> r = Inr () \<and> save_outcomes p1 = []"
  using assms by (auto simp: in_memory_def holds_progress_def p_save_def Let_def persistent_data.defs split: if_splits list.splits)

lemma holds_progress_file: "p_file p1 = p_file p \<Longrightarrow> holds_progress p1 q cl sm = holds_progress p q cl sm"
  by (simp add: holds_progress_def)

text \<open>One entry: the container and the metadata in memory change, what the file holds does not yet.\<close>

lemma apply_one_normal:
  assumes n: "normal_entry fm e" and mem: "in_memory (cm_persistent m) q cl sm"
    and f: "holds_progress (cm_persistent m) q cl sm" and run: "apply_one_entry fm tc rn e m node = (m1, node1, r)"
  shows "node1 = node \<and> cm_wal m1 = cm_wal m \<and> cm_toc m1 = toc_effect fm tc e (cm_toc m) \<and>
    holds_progress (cm_persistent m1) q cl sm \<and>
    (r = Inr False \<and> in_memory (cm_persistent m1) q (cluster_effect fm e cl) sm \<or> (\<exists>x. r = Inl x))"
proof (cases "re_data e = []")
  case True
  then show ?thesis using run mem f by (auto simp: apply_one_entry_def toc_effect_def cluster_effect_def entry_op_def)
next
  case False
  with n obtain op where op: "decode_operation fm (re_data e) = Some op" "re_type e = EntryNormal"
    by (auto simp: normal_entry_def split: option.splits)
  then have eo: "entry_op fm e = Some op" using False by (simp add: entry_op_def)
  note defs = apply_one_entry_def apply_normal_entry_def toc_effect_def cluster_effect_def remove_sender_def send_answer_def
  show ?thesis
  proof (cases op)
    case (CollectionMeta o1)
    obtain t r1 where "perform_collection_meta_op tc (cm_toc m) o1 = (t, r1)" by fastforce
    then show ?thesis using run op False CollectionMeta eo mem f
      by (auto simp: defs in_memory_def split: sum.splits toc_error.splits)
  next
    case (UpdatePeerMetadata i md)
    let ?p = "(cm_persistent m)\<lparr>peer_metadata_by_id := AList.update i md (peer_metadata_by_id (cm_persistent m))\<rparr>"
    obtain p1 r1 where s: "p_save ?p = (p1, r1)" by fastforce
    have m1: "in_memory ?p q cl sm" using mem by (simp add: in_memory_def)
    note sp = p_save_progress [OF m1 s]
    have h: "holds_progress p1 q cl sm" using sp(2,3) f holds_progress_file [of p1 "cm_persistent m" q cl sm] by auto
    have e: "r1 = Inr () \<or> r1 = Inl ServiceError" using s by (auto simp: p_save_def Let_def split: if_splits)
    show ?thesis using run op False UpdatePeerMetadata eo h sp(1) s e
      by (auto simp: defs with_persistent_def update_peer_metadata_def)
  next
    case (UpdateClusterMetadata key val)
    then show ?thesis using run op False eo mem f
      by (auto simp: defs in_memory_def update_cluster_metadata_key_def holds_progress_def)
  qed (use run op False eo mem f n in \<open>auto simp: defs normal_entry_def in_memory_def\<close>)
qed

text \<open>Nothing fails: the saves succeed and the container reports user errors only.\<close>

definition no_service_errors :: "('t, 'o, 's, 'a) collection_container \<Rightarrow> bool" where
  "no_service_errors tc \<longleftrightarrow> (\<forall>t op. snd (perform_collection_meta_op tc t op) \<noteq> Inl ServiceError)"

lemma apply_one_succeeds:
  assumes n: "normal_entry fm e" and ok: "no_service_errors tc" "save_outcomes (cm_persistent m) = []"
    and run: "apply_one_entry fm tc rn e m node = (m1, node1, r)"
  shows "r = Inr False \<and> save_outcomes (cm_persistent m1) = []"
proof (cases "re_data e = []")
  case True
  then show ?thesis using run ok by (auto simp: apply_one_entry_def)
next
  case False
  with n obtain op where op: "decode_operation fm (re_data e) = Some op" "re_type e = EntryNormal"
    by (auto simp: normal_entry_def split: option.splits)
  note defs = apply_one_entry_def apply_normal_entry_def remove_sender_def send_answer_def
  show ?thesis
  proof (cases op)
    case (CollectionMeta o1)
    obtain t r1 where p: "perform_collection_meta_op tc (cm_toc m) o1 = (t, r1)" by fastforce
    then have "r1 \<noteq> Inl ServiceError" using ok(1) unfolding no_service_errors_def by (metis snd_conv)
    then show ?thesis using run op False CollectionMeta p ok
      by (auto simp: defs split: sum.splits toc_error.splits)
  next
    case (UpdatePeerMetadata i md)
    then show ?thesis using run op False ok
      by (auto simp: defs with_persistent_def update_peer_metadata_def p_save_ok)
  next
    case (UpdateClusterMetadata key val)
    then show ?thesis using run op False ok
      by (auto simp: defs update_cluster_metadata_key_def Let_def)
  qed (use run op False ok n in \<open>auto simp: defs normal_entry_def\<close>)
qed

section \<open>One run of the loop\<close>

definition entries_in_log :: "raft_entry raft_codec \<Rightarrow> consensus_op_wal \<Rightarrow> nat \<Rightarrow> nat \<Rightarrow> (nat \<Rightarrow> raft_entry) \<Rightarrow> bool" where
  "entries_in_log c cw j l E \<longleftrightarrow> (\<forall>i. j \<le> i \<longrightarrow> i \<le> l \<longrightarrow> cw_entry c cw i = Inr (E i))"

text \<open>The operations that were tried, in the order of the log: one that was tried may be tried again before the
  next one.\<close>

fun in_order :: "nat \<Rightarrow> nat list \<Rightarrow> nat \<Rightarrow> bool" where
  "in_order j [] f = (f = j)"
| "in_order j (i # tr) f = (i = j \<and> (in_order j tr f \<or> in_order (Suc j) tr f))"

lemma in_order_append: "in_order j tr f \<Longrightarrow> in_order f tr2 g \<Longrightarrow> in_order j (tr @ tr2) g"
  by (induction tr arbitrary: j) auto

lemma in_order_covers: "in_order j tr f \<Longrightarrow> j \<le> f \<and> sorted tr \<and> {j..<f} \<subseteq> set tr \<and> set tr \<subseteq> {j..f}"
proof (induction tr arbitrary: j)
  case (Cons i tr)
  from Cons.prems have i: "i = j" and "in_order j tr f \<or> in_order (Suc j) tr f" by simp_all
  then have s: "j \<le> f \<and> sorted tr \<and> {Suc j..<f} \<subseteq> set tr \<and> set tr \<subseteq> {j..f}"
    using Cons.IH [of j] Cons.IH [of "Suc j"] by fastforce
  have "x \<in> insert j (set tr)" if "x \<in> {j..<f}" for x
  proof (cases "x = j")
    case False
    with that have "x \<in> {Suc j..<f}" by simp
    with s show ?thesis by blast
  qed simp
  then have "{j..<f} \<subseteq> insert j (set tr)" by blast
  with s i show ?case by auto
qed simp

abbreviation toc_run ::
  "('o, 's, 'a, 'm, 'n) formats \<Rightarrow> ('t, 'o, 's, 'a) collection_container \<Rightarrow> (nat \<Rightarrow> raft_entry) \<Rightarrow> nat list \<Rightarrow> 't \<Rightarrow> 't" where
  "toc_run fm tc E is t \<equiv> fold (\<lambda>i. toc_effect fm tc (E i)) is t"

abbreviation cluster_run :: "('o, 's, 'a, 'm, 'n) formats \<Rightarrow> (nat \<Rightarrow> raft_entry) \<Rightarrow> nat list \<Rightarrow> 'n json_map \<Rightarrow> 'n json_map" where
  "cluster_run fm E is cl \<equiv> fold (\<lambda>i. cluster_effect fm (E i)) is cl"

lemma entry_applied_progress:
  assumes "in_memory (cm_persistent m) (Some (j, l)) cl sm" "with_persistent entry_applied m = (m1, r)"
  shows "cm_toc m1 = cm_toc m" "cm_wal m1 = cm_wal m" "in_memory (cm_persistent m1) (Some (Suc j, l)) cl sm"
    "r = Inr () \<Longrightarrow> holds_progress (cm_persistent m1) (Some (Suc j, l)) cl sm"
    "r \<noteq> Inr () \<Longrightarrow> p_file (cm_persistent m1) = p_file (cm_persistent m)"
    "save_outcomes (cm_persistent m) = [] \<Longrightarrow> r = Inr () \<and> save_outcomes (cm_persistent m1) = []"
proof -
  let ?p = "(cm_persistent m)\<lparr>apply_progress_queue := queue_applied (apply_progress_queue (cm_persistent m))\<rparr>"
  obtain p1 where s: "p_save ?p = (p1, r)" "m1 = m\<lparr>cm_persistent := p1\<rparr>"
    using assms(2) by (auto simp: with_persistent_def entry_applied_def split: prod.splits)
  have "in_memory ?p (Some (Suc j, l)) cl sm" using assms(1) by (simp add: in_memory_def queue_applied_def)
  note p_save_progress [OF this s(1)]
  then show "cm_toc m1 = cm_toc m" "cm_wal m1 = cm_wal m" "in_memory (cm_persistent m1) (Some (Suc j, l)) cl sm"
    "r = Inr () \<Longrightarrow> holds_progress (cm_persistent m1) (Some (Suc j, l)) cl sm"
    "r \<noteq> Inr () \<Longrightarrow> p_file (cm_persistent m1) = p_file (cm_persistent m)"
    "save_outcomes (cm_persistent m) = [] \<Longrightarrow> r = Inr () \<and> save_outcomes (cm_persistent m1) = []"
    by (simp_all add: s(2))
qed

lemma apply_loop_progress:
  assumes "in_memory (cm_persistent m) (Some (j, l)) cl sm" "holds_progress (cm_persistent m) (Some (j, l)) cl sm" "j \<le> Suc l"
    "entries_in_log c (cm_wal m) j l E" "\<forall>i. j \<le> i \<longrightarrow> i \<le> l \<longrightarrow> normal_entry fm (E i)"
    "apply_loop fm tc rn c m node = (m', node', r)"
  shows "\<exists>f tr. in_order j tr f \<and> f \<le> Suc l \<and> cm_wal m' = cm_wal m \<and> cm_toc m' = toc_run fm tc E tr (cm_toc m) \<and>
    holds_progress (cm_persistent m') (Some (f, l)) (cluster_run fm E [j..<f] cl) sm \<and>
    (no_service_errors tc \<and> save_outcomes (cm_persistent m) = [] \<longrightarrow> f = Suc l \<and> r = Inr False \<and> node' = node)"
  using assms
proof (induction "Suc l - j" arbitrary: m j cl)
  case 0
  then have "j = Suc l" by simp
  then have "apply_loop fm tc rn c m node = (m, node, Inr False)"
    using 0(2) by (simp add: apply_loop.simps [of fm tc rn c m] current_unapplied_entry_def in_memory_def queue_current_def)
  with 0(7) have "m' = m" "node' = node" "r = Inr False" by simp_all
  with 0(3) \<open>j = Suc l\<close> show ?case by (intro exI [of _ j] exI [of _ "[]"]) simp
next
  case (Suc n)
  then have jl: "j \<le> l" by simp
  then have cur: "current_unapplied_entry (cm_persistent m) = Some j"
    using Suc.prems(1) by (simp add: current_unapplied_entry_def in_memory_def queue_current_def)
  have e: "cw_entry c (cm_wal m) j = Inr (E j)" using Suc.prems(4) jl by (simp add: entries_in_log_def)
  obtain m1 node1 r1 where one: "apply_one_entry fm tc rn (E j) m node = (m1, node1, r1)" by (cases "apply_one_entry fm tc rn (E j) m node") auto
  have nj: "normal_entry fm (E j)" using Suc.prems(5) jl by simp
  note o = apply_one_normal [OF nj Suc.prems(1,2) one]
  show ?case
  proof (cases r1)
    case (Inl x)
    then have "m' = m1" "node' = node1"
      using Suc.prems(6) one e cur by (simp_all add: apply_loop.simps [of fm tc rn c m])
    then show ?thesis
      using o jl Inl apply_one_succeeds [OF nj _ _ one] by (intro exI [of _ j] exI [of _ "[j]"]) auto
  next
    case (Inr b)
    with o have r1: "r1 = Inr False" and mem1: "in_memory (cm_persistent m1) (Some (j, l)) (cluster_effect fm (E j) cl) sm" by auto
    obtain m2 r2 where ap: "with_persistent entry_applied m1 = (m2, r2)" by fastforce
    note ea = entry_applied_progress [OF mem1 ap]
    have ok1: "no_service_errors tc \<and> save_outcomes (cm_persistent m) = [] \<Longrightarrow> save_outcomes (cm_persistent m1) = []"
      using apply_one_succeeds [OF nj _ _ one] by blast
    show ?thesis
    proof (cases r2)
      case (Inl x)
      then have "m' = m2" "node' = node1"
        using Suc.prems(6) one e cur r1 ap by (simp_all add: apply_loop.simps [of fm tc rn c m])
      moreover have "holds_progress (cm_persistent m2) (Some (j, l)) cl sm"
        using o ea(5) Inl holds_progress_file by (metis Inl_Inr_False)
      ultimately show ?thesis
        using o jl Inl ea ok1 by (intro exI [of _ j] exI [of _ "[j]"]) auto
    next
      case (Inr u)
      then have hp: "holds_progress (cm_persistent m2) (Some (Suc j, l)) (cluster_effect fm (E j) cl) sm" using ea(4) by simp
      have run: "apply_loop fm tc rn c m2 node1 = (m', node', r)"
        using Suc.prems(6) one e cur r1 ap Inr by (simp add: apply_loop.simps [of fm tc rn c m])
      have node1: "node1 = node" using o by simp
      have w2: "cm_wal m2 = cm_wal m" "cm_toc m2 = toc_effect fm tc (E j) (cm_toc m)" using ea(1,2) o by simp_all
      have "\<exists>f tr. in_order (Suc j) tr f \<and> f \<le> Suc l \<and> cm_wal m' = cm_wal m2 \<and> cm_toc m' = toc_run fm tc E tr (cm_toc m2) \<and>
        holds_progress (cm_persistent m') (Some (f, l)) (cluster_run fm E [Suc j..<f] (cluster_effect fm (E j) cl)) sm \<and>
        (no_service_errors tc \<and> save_outcomes (cm_persistent m2) = [] \<longrightarrow> f = Suc l \<and> r = Inr False \<and> node' = node)"
      proof (rule Suc.hyps(1))
        show "n = Suc l - Suc j" using Suc.hyps(2) by simp
        show "entries_in_log c (cm_wal m2) (Suc j) l E" using Suc.prems(4) w2 by (simp add: entries_in_log_def)
        show "\<forall>i. Suc j \<le> i \<longrightarrow> i \<le> l \<longrightarrow> normal_entry fm (E i)" using Suc.prems(5) by simp
      qed (use jl ea(3) hp run node1 in auto)
      then obtain f tr where ft: "in_order (Suc j) tr f" "f \<le> Suc l" "cm_wal m' = cm_wal m2"
        "cm_toc m' = toc_run fm tc E tr (cm_toc m2)"
        "holds_progress (cm_persistent m') (Some (f, l)) (cluster_run fm E [Suc j..<f] (cluster_effect fm (E j) cl)) sm"
        "no_service_errors tc \<and> save_outcomes (cm_persistent m2) = [] \<longrightarrow> f = Suc l \<and> r = Inr False \<and> node' = node"
        by blast
      have "j < f" using in_order_covers [OF ft(1)] by simp
      then have "[j..<f] = j # [Suc j..<f]" by (rule upt_conv_Cons)
      then show ?thesis
        using ft w2 ea(6) ok1 by (intro exI [of _ f] exI [of _ "j # tr"]) auto
    qed
  qed
qed

section \<open>Restarts\<close>

text \<open>A peer that stopped starts again: it reads its state file, opens the log, and applies what is left. Its
  collections are as they were. A start that cannot save is given up.\<close>

definition restart ::
  "raft_entry raft_codec \<Rightarrow> bool list \<Rightarrow> ('t, 'o, 'a, 'm, 'n) manager \<Rightarrow> (toc_error, ('t, 'o, 'a, 'm, 'n) manager) result" where
  "restart c outcomes m =
     and_then (load_or_init (p_file (cm_persistent m)) NoFile outcomes False False None 0)
       (\<lambda>p. manager_new c p (cm_toc m) (cw_new (cw_wal (cm_wal m))))"

fun startups ::
  "('o, 's, 'a, 'm, 'n) formats \<Rightarrow> ('t, 'o, 's, 'a) collection_container \<Rightarrow> ('r, ('t, 'o, 'a, 'm, 'n) manager, 'g) raft_node \<Rightarrow>
   raft_entry raft_codec \<Rightarrow> (bool list \<times> 'r) list \<Rightarrow> ('t, 'o, 'a, 'm, 'n) manager \<Rightarrow> ('t, 'o, 'a, 'm, 'n) manager" where
  "startups fm tc rn c [] m = m"
| "startups fm tc rn c ((outcomes, node) # as) m =
     (case restart c outcomes m of
        Inl _ \<Rightarrow> startups fm tc rn c as m
      | Inr m1 \<Rightarrow> startups fm tc rn c as (fst (apply_entries fm tc rn c m1 node)))"

lemma remove_unknown_progress:
  assumes "remove_unknown_peer_metadata p = (p1, Inr ())" "in_memory p q cl sm" "holds_progress p q cl sm" "\<not> dirty p"
  shows "in_memory p1 q cl sm \<and> holds_progress p1 q cl sm \<and> \<not> dirty p1 \<and> (save_outcomes p = [] \<longrightarrow> save_outcomes p1 = [])"
proof -
  let ?p = "p\<lparr>peer_metadata_by_id := filter (\<lambda>(peer_id, _). map_of (peer_address_by_id p) peer_id \<noteq> None) (peer_metadata_by_id p)\<rparr>"
  have mem: "in_memory ?p q cl sm" using assms(2) by (simp add: in_memory_def)
  have "p_save ?p = (p1, Inr ()) \<or> p1 = ?p"
    using assms(1) by (auto simp: remove_unknown_peer_metadata_def Let_def split: if_splits)
  then show ?thesis
  proof
    assume s: "p_save ?p = (p1, Inr ())"
    then show ?thesis using p_save_progress [OF mem s] by simp
  next
    assume "p1 = ?p"
    then show ?thesis using mem assms(3,4) holds_progress_file [of p1 p] by simp
  qed
qed

lemma load_or_init_progress:
  assumes "holds_progress p q cl sm"
  shows "load_or_init (p_file p) NoFile os fp False pid rnd = Inr p1 \<Longrightarrow>
      in_memory p1 q cl sm \<and> holds_progress p1 q cl sm \<and> \<not> dirty p1 \<and> (os = [] \<longrightarrow> save_outcomes p1 = [])"
    and "os = [] \<Longrightarrow> \<exists>p1. load_or_init (p_file p) NoFile os fp False pid rnd = Inr p1"
proof -
  obtain d where d: "p_file p = Holds d" "apply_progress_queue d = q" "cluster_metadata d = cl" "latest_snapshot_meta d = sm"
    using assms unfolding holds_progress_def by blast
  obtain p0 where p0: "p_load (p_file p) (p_file p) os = Inr p0" "p_data p0 = d" "p_file p0 = p_file p" "\<not> dirty p0" "save_outcomes p0 = os"
    using p_load_data [of d "p_file p" os] d(1) by (auto simp: p_load_def)
  then have mem: "in_memory p0 q cl sm" "holds_progress p0 q cl sm"
    using d assms holds_progress_file [of p0 p] by (auto simp: in_memory_def)
  have eq: "load_or_init (p_file p) NoFile os fp False pid rnd = ok_state (remove_unknown_peer_metadata p0)"
    using p0(1) d(1) by (simp add: load_or_init_def)
  obtain p2 r where rm: "remove_unknown_peer_metadata p0 = (p2, r)" by fastforce
  show "load_or_init (p_file p) NoFile os fp False pid rnd = Inr p1 \<Longrightarrow>
      in_memory p1 q cl sm \<and> holds_progress p1 q cl sm \<and> \<not> dirty p1 \<and> (os = [] \<longrightarrow> save_outcomes p1 = [])"
    using eq rm remove_unknown_progress [OF _ mem p0(4), of p1] p0(5) by (auto simp: ok_state_def split: sum.splits)
  show "os = [] \<Longrightarrow> \<exists>p1. load_or_init (p_file p) NoFile os fp False pid rnd = Inr p1"
    using eq p0(5) by (auto simp: ok_state_def remove_unknown_peer_metadata_def Let_def p_save_ok)
qed

lemma reads_reopened: "entry_by_wal_index_impl c (cw_new (cw_wal cw)) = entry_by_wal_index_impl c cw"
  "cw_wal (cw_new (cw_wal cw)) = cw_wal cw"
  by (simp_all add: fun_eq_iff cw_new_def entry_by_wal_index_impl_def)

lemma compacted_reopened: "compacted_until_raft_index (cw_new w) = 0"
  by (simp add: cw_new_def)

lemma cw_entry_reopened: "cw_entry c cw i = Inr e \<Longrightarrow> cw_entry c (cw_new (cw_wal cw)) i = Inr e"
  by (simp add: cw_entry_def index_offset_impl_def Let_def compacted_reopened reads_reopened cong: option.case_cong split: if_splits)

lemma last_entry_reopened: "last_entry c cw = Inr (Some e) \<Longrightarrow> last_entry c (cw_new (cw_wal cw)) = Inr (Some e)"
  by (auto simp: last_entry_def cw_new_def entry_by_wal_index_impl_def result_simps split: option.splits if_splits)

lemma restart_progress:
  fixes m :: "('t, 'o, 'a, 'm, 'n) manager"
  assumes "holds_progress (cm_persistent m) q cl sm" "last_entry c (cm_wal m) = Inr (Some le)" "sm_index sm \<le> raft_idx c le"
  shows "restart c os m = Inr m1 \<Longrightarrow> in_memory (cm_persistent m1) q cl sm \<and> holds_progress (cm_persistent m1) q cl sm \<and>
      \<not> dirty (cm_persistent m1) \<and> cm_toc m1 = cm_toc m \<and> cm_wal m1 = cw_new (cw_wal (cm_wal m)) \<and>
      (os = [] \<longrightarrow> save_outcomes (cm_persistent m1) = [])"
    and "os = [] \<Longrightarrow> \<exists>m1. restart c os m = Inr m1"
proof -
  note le = last_entry_reopened [OF assms(2)]
  have new: "manager_new c p (cm_toc m) (cw_new (cw_wal (cm_wal m))) =
      Inr (\<lparr>cm_persistent = p, cm_wal = cw_new (cw_wal (cm_wal m)), cm_toc = cm_toc m, on_consensus_op_apply = [],
            cm_answers = [], cm_proposed = []\<rparr> :: ('t, 'o, 'a, 'm, 'n) manager)" if "in_memory p q cl sm" for p
    using that le assms(3) by (simp add: manager_new_def in_memory_def Let_def)
  show "in_memory (cm_persistent m1) q cl sm \<and> holds_progress (cm_persistent m1) q cl sm \<and>
      \<not> dirty (cm_persistent m1) \<and> cm_toc m1 = cm_toc m \<and> cm_wal m1 = cw_new (cw_wal (cm_wal m)) \<and>
      (os = [] \<longrightarrow> save_outcomes (cm_persistent m1) = [])" if r: "restart c os m = Inr m1"
  proof -
    obtain p1 where p1: "load_or_init (p_file (cm_persistent m)) NoFile os False False None 0 = Inr p1"
      "manager_new c p1 (cm_toc m) (cw_new (cw_wal (cm_wal m))) = Inr m1"
      using r by (auto simp: restart_def result_simps)
    note li = load_or_init_progress(1) [OF assms(1) p1(1)]
    then show ?thesis using new [of p1] p1(2) by auto
  qed
  show "os = [] \<Longrightarrow> \<exists>m1. restart c os m = Inr m1"
  proof -
    assume os: "os = []"
    obtain p1 where p1: "load_or_init (p_file (cm_persistent m)) NoFile os False False None 0 = Inr p1"
      using load_or_init_progress(2) [OF assms(1) os] by blast
    from new [of p1] load_or_init_progress(1) [OF assms(1) p1] p1 show ?thesis by (simp add: restart_def)
  qed
qed


text \<open>A log with the entries 5, an operation on the collections, and 6, a change of the cluster metadata.\<close>

definition demo_entry :: "u8 \<Rightarrow> raft_entry" where
  "demo_entry b = \<lparr>re_type = EntryNormal, re_term = 1, re_index = ucast b, re_data = [b], re_context = []\<rparr>"

definition demo_codec :: "raft_entry raft_codec" where
  "demo_codec = \<lparr>entry_index = re_index,
     entry_encode = (\<lambda>e. case re_data e of [b] \<Rightarrow> if e = demo_entry b then Some [b] else None | _ \<Rightarrow> None),
     entry_decode = (\<lambda>bs. case bs of [b] \<Rightarrow> Some (demo_entry b) | _ \<Rightarrow> None), compute_size = (\<lambda>_. 8)\<rparr>"

definition demo_formats :: "(nat, nat list, nat, nat, nat) formats" where
  "demo_formats = \<lparr>
     decode_operation = (\<lambda>bs. case bs of [b] \<Rightarrow> Some (if b = 6 then UpdateClusterMetadata ''k'' (JBool True)
                                                      else CollectionMeta (unat b)) | _ \<Rightarrow> None),
     decode_conf_change = (\<lambda>bs. case bs of [b] \<Rightarrow> Some [(AddLearnerNode, unat b)] | _ \<Rightarrow> None),
     decode_conf_change_v1 = (\<lambda>_. None), parse_uri = (\<lambda>_. None), parse_uri_lossy = (\<lambda>_. None), uri_text = (\<lambda>_. []),
     encode_snapshot = (\<lambda>_. Some []),
     decode_snapshot = (\<lambda>_. Some \<lparr>collections_data = [], address_by_id = [], metadata_by_id = [], sd_cluster_metadata = []\<rparr>)\<rparr>"

definition demo_container :: "(nat list, nat, nat list, nat) collection_container" where
  "demo_container = \<lparr>perform_collection_meta_op = (\<lambda>t op. (t @ [op], Inr True)), collections_snapshot = id,
     apply_collections_snapshot = (\<lambda>_ s. (s, Inr ())),
     toc_remove_peer = (\<lambda>t addresses i. ((t, AList.delete i addresses), Inr ()))\<rparr>"

definition demo_node :: "(unit, (nat list, nat, nat, nat, nat) manager, unit) raft_node" where
  "demo_node = \<lparr>rn_apply_conf_change = (\<lambda>_ _ _. ((), None)), rn_has_ready = (\<lambda>_ _. False),
     rn_ready = (\<lambda>_ _. ((), \<lparr>rd_messages = [], rd_snapshot = None, rd_entries = [], rd_hs = None, rd_ss = None,
        rd_persisted_messages = [], rd_committed_entries = []\<rparr>)),
     rn_advance = (\<lambda>_ _ _. ((), \<lparr>lr_commit_index = None, lr_messages = [], lr_committed_entries = []\<rparr>)),
     rn_advance_apply = (\<lambda>_ _. ()), rn_leader_id = (\<lambda>_. 1)\<rparr>"

definition demo_data :: "entry_queue \<Rightarrow> (nat, nat, nat) persistent_data" where
  "demo_data q = \<lparr>p_state = \<lparr>rs_hard = \<lparr>hs_term = 1, hs_vote = 1, hs_commit = 6\<rparr>,
       rs_conf = \<lparr>voters = [1], learners = [], voters_outgoing = [], learners_next = [], auto_leave = False\<rparr>\<rparr>,
     latest_snapshot_meta = \<lparr>sm_term = 0, sm_index = 0\<rparr>, apply_progress_queue = q, first_voter = Some 1,
     peer_address_by_id = [(1, 0)], peer_metadata_by_id = [(1, 0)], cluster_metadata = [], this_peer_id = 1\<rparr>"

definition demo_manager :: "entry_queue \<Rightarrow> (nat list, nat, nat, nat, nat) manager" where
  "demo_manager q = \<lparr>cm_persistent = persistent_data.extend (demo_data q) (persistent.fields (Holds (demo_data q)) False []),
     cm_wal = cw_example, cm_toc = [], on_consensus_op_apply = [], cm_answers = [], cm_proposed = []\<rparr>"

abbreviation demo_entries :: "raft_entry list" where "demo_entries \<equiv> [demo_entry 5, demo_entry 6]"

lemma demo_log: "cw_reach demo_codec crc_example cw_example demo_entries"
proof -
  have "wal_reach crc_example (cw_wal cw_example)"
    by (rule wal_reach.opened [OF cw_example_opened]) (simp_all add: seg_of_byte(1) HEADER_LEN_def)
  moreover have "log_of demo_codec (cw_new (cw_wal cw_example)) demo_entries"
    using cw_example_entries(1) by (simp add: log_of_def cw_new_def demo_codec_def)
  moreover have "consecutive demo_codec demo_entries"
    by (simp add: consecutive_Cons demo_codec_def demo_entry_def)
  ultimately have "cw_reach demo_codec crc_example (cw_new (cw_wal cw_example)) demo_entries"
    by (rule cw_reach.start) (simp add: cw_example_entries(2) demo_codec_def demo_entry_def)
  then show ?thesis using cw_example_new by simp
qed

lemma demo_codec_ok: "codec_roundtrip demo_codec"
  by (auto simp: codec_roundtrip_def demo_codec_def split: list.splits if_splits)

lemma demo_idx: "raft_idx demo_codec (demo_entry b) = unat b"
proof -
  have "unat b < 2 ^ 64" by (rule less_trans [OF unsigned_less]) simp
  then show ?thesis
    by (simp add: demo_codec_def demo_entry_def unsigned_ucast_eq take_bit_nat_eq_self)
qed

lemma demo_cw_entry: "cw_entry demo_codec cw_example 5 = Inr (demo_entry 5)" "cw_entry demo_codec cw_example 6 = Inr (demo_entry 6)"
  using cw_entry_spec [OF cw_reach_inv [OF demo_log demo_codec_ok], of 5] cw_entry_spec [OF cw_reach_inv [OF demo_log demo_codec_ok], of 6]
  by (simp_all add: demo_idx cw_example_compacted)

lemma demo_in_log: "entries_in_log demo_codec cw_example 5 6 (\<lambda>i. demo_entry (of_nat i))"
  unfolding entries_in_log_def
proof (intro allI impI)
  fix i :: nat assume "5 \<le> i" "i \<le> 6"
  then have "i = 5 \<or> i = 6" by linarith
  then show "cw_entry demo_codec cw_example i = Inr (demo_entry (of_nat i))" using demo_cw_entry by auto
qed

lemma demo_last_entry: "last_entry demo_codec cw_example = Inr (Some (demo_entry 6))"
proof -
  have "last_index (cw_wal cw_example) = 5"
    using cw_example_entries cw_reach_inv [OF demo_log demo_codec_ok] wl.num [of crc_example "cw_wal cw_example"]
    by (simp add: last_index_def cw_inv_def)
  then show ?thesis
    using entry_impl_spec [OF cw_reach_inv [OF demo_log demo_codec_ok], of 5]
    by (simp add: last_entry_def cw_example_entries(2) cw_example_compacted)
qed


end
