(* ===== verification/ConsensusSnapshot.thy ===== *)
theory ConsensusSnapshot
  imports ConsensusApply
begin

text \<open>
  The log of a peer next to its applied state: what Raft reads of both, installing a snapshot with a crash before the
  log is cleared, taking a snapshot of what was installed, compaction, and the recovery of the first voter.
\<close>

section \<open>The ends of the log\<close>

lemma first_entry_spec:
  assumes r: "cw_reach c crcf cw es" and co: "codec_roundtrip c"
  shows "first_entry c cw = Inr (if es = [] then None
    else Some (es ! (max (raft_idx c (hd es)) (compacted_until_raft_index cw) - raft_idx c (hd es))))"
proof (cases "es = []")
  case True
  then show ?thesis using entry_impl_spec [OF cw_reach_inv [OF r co]] by (simp add: first_entry_def)
next
  case False
  note inv = cw_reach_inv [OF r co]
  let ?h = "raft_idx c (hd es)" and ?f = "first_index (cw_wal cw)" and ?k = "compacted_until_raft_index cw"
  have fh: "?f < ?h" using inv False by (simp add: cw_inv_def)
  have e: "entry_by_wal_index_impl c cw ?f = Inr (Some (hd es))"
    using entry_impl_spec [OF inv, of ?f] False by (simp add: hd_conv_nth)
  have off: "wal_to_raft_offset (index_offset_new c ?f (hd es)) = ?h - ?f"
    using index_offset_spec [OF inv] False e by (simp add: index_offset_impl_def the_offset_def Let_def)
  show ?thesis
  proof (cases "?k \<le> ?h")
    case True
    then show ?thesis using False e by (simp add: first_entry_def hd_conv_nth max_def)
  next
    case gt: False
    have "?k < ?h + length es" by (rule cw_reach_compacted [OF r co False])
    then have "entry_by_wal_index_impl c cw (?k - (?h - ?f)) = Inr (Some (es ! (?k - ?h)))"
      using entry_impl_spec [OF inv, of "?k - (?h - ?f)"] gt fh by auto
    then show ?thesis using False e gt fh off by (simp add: first_entry_def try_raft_to_wal_def)
  qed
qed

lemma last_entry_spec:
  assumes r: "cw_reach c crcf cw es" and co: "codec_roundtrip c"
  shows "last_entry c cw = Inr (if es = [] then None else Some (last es))"
proof -
  note inv = cw_reach_inv [OF r co]
  have n: "num_entries (cw_wal cw) = length es"
    using inv wl.num [of crcf "cw_wal cw"] cw_inv_length [of c cw es] by (simp add: cw_inv_def)
  show ?thesis
  proof (cases "es = []")
    case True
    then show ?thesis using entry_impl_spec [OF inv] by (simp add: last_entry_def)
  next
    case False
    have k: "consecutive c es" using inv by (simp add: cw_inv_def)
    have "raft_idx c (last es) = raft_idx c (hd es) + (length es - 1)"
      using consecutive_nth [OF k, of "length es - 1"] False by (simp add: last_conv_nth)
    then have "compacted_until_raft_index cw \<le> raft_idx c (last es)"
      using cw_reach_compacted [OF r co False] by (cases es) auto
    then show ?thesis
      using entry_impl_spec [OF inv, of "last_index (cw_wal cw)"] False n
      by (simp add: last_entry_def last_index_def last_conv_nth)
  qed
qed

lemma cw_clear_spec:
  assumes r: "cw_reach c crcf cw es" and co: "codec_roundtrip c"
  obtains cw' where "cw_clear cw = (cw', Inr ())" "cw_reach c crcf cw' []"
proof -
  have w: "wal_inv crcf (cw_wal cw)" using cw_reach_inv [OF r co] by (simp add: cw_inv_def)
  obtain w' where "wal_truncate (cw_wal cw) (first_index (cw_wal cw)) = Inr w'"
    using wl.truncate [OF w, of "first_index (cw_wal cw)"] by auto
  then have c: "cw_clear cw = (cw\<lparr>cw_wal := flush_open_segment w'\<rparr>, Inr ())"
    by (simp add: cw_clear_def wal_clear_def lift_wal_def)
  show thesis by (rule that [OF c cw_reach.cleared [OF r c]])
qed

lemma storage_of_empty_log:
  assumes r: "cw_reach c crcf (cm_wal m) []" and co: "codec_roundtrip c"
  shows "st_first_index c m = Inr (sm_index (latest_snapshot_meta (cm_persistent m)) + 1)"
    "st_last_index c m = Inr (sm_index (latest_snapshot_meta (cm_persistent m)))"
    "st_term c (sm_index (latest_snapshot_meta (cm_persistent m))) m = Inr (sm_term (latest_snapshot_meta (cm_persistent m)))"
  using first_entry_spec [OF r co] last_entry_spec [OF r co] by (simp_all add: st_first_index_def st_last_index_def st_term_def)

section \<open>Installing a snapshot\<close>

text \<open>What a peer looks like that has just installed a snapshot with the index \<open>i\<close> and the term \<open>t\<close>.\<close>

definition at_snapshot :: "raft_entry raft_codec \<Rightarrow> nat \<Rightarrow> nat \<Rightarrow> ('t, 'o, 'a, 'm, 'n) manager \<Rightarrow> bool" where
  "at_snapshot c i t m \<longleftrightarrow>
     st_first_index c m = Inr (i + 1) \<and> st_last_index c m = Inr i \<and> st_term c i m = Inr t \<and>
     last_applied_entry (cm_persistent m) = Some i \<and> current_unapplied_entry (cm_persistent m) = None \<and>
     hs_commit (rs_hard (p_state (cm_persistent m))) = i"

lemma apply_snapshot_spec:
  assumes "cw_reach c crcf (cm_wal m) es" "codec_roundtrip c" "save_outcomes (cm_persistent m) = []"
    "decode_snapshot fm (sn_data sn) = Some d" "apply_collections_snapshot tc (cm_toc m) (collections_data d) = (t, Inr ())"
  obtains p cw' where "apply_snapshot fm tc sn m = (m\<lparr>cm_toc := t, cm_persistent := p, cm_wal := cw'\<rparr>, Inr ())"
    "cw_clear (cm_wal m) = (cw', Inr ())" "cw_reach c crcf cw' []"
    "update_from_snapshot (cm_persistent m) (sn_conf_state sn) (sn_term sn) (sn_index sn) (address_by_id d) (metadata_by_id d)
       (sd_cluster_metadata d) = (p, Inr ())"
proof -
  obtain cw' where cw': "cw_clear (cm_wal m) = (cw', Inr ())" "cw_reach c crcf cw' []"
    using cw_clear_spec [OF assms(1,2)] by blast
  obtain p where p: "update_from_snapshot (cm_persistent m) (sn_conf_state sn) (sn_term sn) (sn_index sn) (address_by_id d)
      (metadata_by_id d) (sd_cluster_metadata d) = (p, Inr ())"
    using assms(3) by (auto simp: update_from_snapshot_def p_save_ok)
  have "apply_snapshot fm tc sn m = (m\<lparr>cm_toc := t, cm_persistent := p, cm_wal := cw'\<rparr>, Inr ())"
    using assms(4,5) p cw'(1) by (simp add: apply_snapshot_def with_persistent_def with_wal_def)
  then show thesis using that cw' p by blast
qed

lemma installed_persistent:
  assumes "update_from_snapshot q conf st si ad md cl = (p, Inr ())"
  shows "latest_snapshot_meta p = \<lparr>sm_term = st, sm_index = si\<rparr>" "apply_progress_queue p = Some (si + 1, si)"
    "hs_commit (rs_hard (p_state p)) = si" "rs_conf (p_state p) = conf" "peer_address_by_id p = ad"
    "peer_metadata_by_id p = filter (\<lambda>(i, _). map_of ad i \<noteq> None) md" "cluster_metadata p = cl" "p_file p = Holds (p_data p)" "\<not> dirty p"
  using assms by (auto simp: update_from_snapshot_def p_save_def set_from_snapshot_def Let_def persistent_data.defs split: if_splits list.splits)

lemma at_snapshot_empty_log:
  assumes "cw_reach c crcf (cm_wal m) []" "codec_roundtrip c" "latest_snapshot_meta (cm_persistent m) = \<lparr>sm_term = t, sm_index = i\<rparr>"
    "apply_progress_queue (cm_persistent m) = Some (i + 1, i)" "hs_commit (rs_hard (p_state (cm_persistent m))) = i"
  shows "at_snapshot c i t m"
  using storage_of_empty_log [OF assms(1,2)] assms(3-5)
  by (simp add: at_snapshot_def last_applied_entry_def current_unapplied_entry_def queue_defs)

text \<open>A start reads back what was saved, less the metadata of peers without an address.\<close>

lemma load_or_init_fields:
  assumes "p_file p = Holds d"
  obtains q where "load_or_init (p_file p) NoFile [] fp False pid rnd = Inr q" "save_outcomes q = []" "\<not> dirty q"
    "p_state q = p_state d" "latest_snapshot_meta q = latest_snapshot_meta d" "apply_progress_queue q = apply_progress_queue d"
    "first_voter q = first_voter d" "peer_address_by_id q = peer_address_by_id d" "cluster_metadata q = cluster_metadata d"
    "peer_metadata_by_id q = filter (\<lambda>(i, _). map_of (peer_address_by_id d) i \<noteq> None) (peer_metadata_by_id d)"
    "this_peer_id q = this_peer_id d"
proof -
  let ?p0 = "persistent_data.extend d (persistent.fields (p_file p) False [])"
  have "load_or_init (p_file p) NoFile [] fp False pid rnd = ok_state (remove_unknown_peer_metadata ?p0)"
    using assms by (simp add: load_or_init_def p_load_def)
  moreover define p1 where "p1 = ?p0\<lparr>peer_metadata_by_id := filter (\<lambda>(i, _). map_of (peer_address_by_id d) i \<noteq> None) (peer_metadata_by_id d)\<rparr>"
  moreover define q where "q = (if length (peer_metadata_by_id p1) \<noteq> length (peer_metadata_by_id d)
    then p1\<lparr>p_file := Holds (p_data p1), dirty := False\<rparr> else p1)"
  moreover have "ok_state (remove_unknown_peer_metadata ?p0) = Inr q"
    by (simp add: remove_unknown_peer_metadata_def ok_state_def p_save_ok Let_def persistent_data.defs persistent.defs q_def p1_def)
  moreover have "save_outcomes q = []" "\<not> dirty q"
    "p_state q = p_state d" "latest_snapshot_meta q = latest_snapshot_meta d" "apply_progress_queue q = apply_progress_queue d"
    "first_voter q = first_voter d" "peer_address_by_id q = peer_address_by_id d" "cluster_metadata q = cluster_metadata d"
    "peer_metadata_by_id q = filter (\<lambda>(i, _). map_of (peer_address_by_id d) i \<noteq> None) (peer_metadata_by_id d)"
    "this_peer_id q = this_peer_id d"
    by (simp_all add: q_def p1_def persistent_data.defs persistent.defs)
  ultimately show thesis using that by metis
qed

lemma restart_at_snapshot:
  fixes m :: "('t, 'o, 'a, 'm, 'n) manager"
  assumes reach: "cw_reach c crcf (cm_wal m) es" and co: "codec_roundtrip c"
    and fl: "p_file (cm_persistent m) = Holds d" "latest_snapshot_meta d = \<lparr>sm_term = st, sm_index = si\<rparr>"
      "apply_progress_queue d = Some (si + 1, si)" "hs_commit (rs_hard (p_state d)) = si"
    and last: "es = [] \<or> raft_idx c (last es) < si"
  shows "\<exists>m2. restart c [] m = Inr m2 \<and> at_snapshot c si st m2 \<and> cm_toc m2 = cm_toc m"
proof -
  obtain q where q: "load_or_init (p_file (cm_persistent m)) NoFile [] False False None 0 = Inr q"
    "p_state q = p_state d" "latest_snapshot_meta q = latest_snapshot_meta d" "apply_progress_queue q = apply_progress_queue d"
    using load_or_init_fields [OF fl(1)] by metis
  have re: "cw_reach c crcf (cw_new (cw_wal (cm_wal m))) es" by (rule cw_reach.restarted [OF reach])
  obtain w where w: "cw_clear (cw_new (cw_wal (cm_wal m))) = (w, Inr ())" "cw_reach c crcf w []"
    using cw_clear_spec [OF re co] by blast
  obtain m2 :: "('t, 'o, 'a, 'm, 'n) manager" where m2: "manager_new c q (cm_toc m) (cw_new (cw_wal (cm_wal m))) = Inr m2"
    "cw_reach c crcf (cm_wal m2) []" "cm_persistent m2 = q" "cm_toc m2 = cm_toc m"
    using last_entry_spec [OF re co] last w re q(2,3) fl(2,4)
    by (cases "es = []") (auto simp: manager_new_def Let_def)
  have "at_snapshot c si st m2"
    using at_snapshot_empty_log [OF m2(2) co] q(2-4) fl(2-4) m2(3) by simp
  then show ?thesis using q(1) m2 by (simp add: restart_def)
qed

text \<open>C16: Installing a snapshot of Raft survives a crash at its weakest point: it leaves the peer at the snapshot, with an
  empty log that continues behind it and nothing left to apply, and a peer that stops after the state was saved and
  before the log is cleared is at the same place when it starts again, provided the old log ended below the
  snapshot.\<close>

theorem snapshot_install_crash_safe:
  assumes "cw_reach c crcf (cm_wal m) es" "codec_roundtrip c" "save_outcomes (cm_persistent m) = []"
    "decode_snapshot fm (sn_data sn) = Some d" "apply_collections_snapshot tc (cm_toc m) (collections_data d) = (t, Inr ())"
    "es = [] \<or> raft_idx c (last es) < sn_index sn"
  shows "\<exists>m'. apply_snapshot fm tc sn m = (m', Inr ()) \<and> at_snapshot c (sn_index sn) (sn_term sn) m' \<and> cm_toc m' = t \<and>
    (\<exists>m2. restart c [] (m'\<lparr>cm_wal := cm_wal m\<rparr>) = Inr m2 \<and> at_snapshot c (sn_index sn) (sn_term sn) m2 \<and> cm_toc m2 = t) \<and>
    (\<exists>m3. restart c [] m' = Inr m3 \<and> at_snapshot c (sn_index sn) (sn_term sn) m3 \<and> cm_toc m3 = t)"
proof -
  obtain p cw' where a: "apply_snapshot fm tc sn m = (m\<lparr>cm_toc := t, cm_persistent := p, cm_wal := cw'\<rparr>, Inr ())"
    "cw_reach c crcf cw' []"
    "update_from_snapshot (cm_persistent m) (sn_conf_state sn) (sn_term sn) (sn_index sn) (address_by_id d) (metadata_by_id d)
       (sd_cluster_metadata d) = (p, Inr ())"
    using apply_snapshot_spec [OF assms(1-5)] by metis
  let ?m = "m\<lparr>cm_toc := t, cm_persistent := p, cm_wal := cw'\<rparr>"
  note ip = installed_persistent [OF a(3)]
  have "at_snapshot c (sn_index sn) (sn_term sn) ?m" by (rule at_snapshot_empty_log) (use a(2) assms(2) ip in simp_all)
  moreover have "\<exists>m2. restart c [] (?m\<lparr>cm_wal := cm_wal m\<rparr>) = Inr m2 \<and> at_snapshot c (sn_index sn) (sn_term sn) m2 \<and>
      cm_toc m2 = cm_toc (?m\<lparr>cm_wal := cm_wal m\<rparr>)"
    by (rule restart_at_snapshot [where crcf = crcf and es = es and d = "p_data p"]) (use assms(1,2,6) ip in simp_all)
  moreover have "\<exists>m3. restart c [] ?m = Inr m3 \<and> at_snapshot c (sn_index sn) (sn_term sn) m3 \<and> cm_toc m3 = cm_toc ?m"
    by (rule restart_at_snapshot [where crcf = crcf and es = "[]" and d = "p_data p"]) (use a(2) assms(2) ip in simp_all)
  ultimately show ?thesis using a(1) by (intro exI [of _ ?m]) simp
qed

text \<open>When the old log reaches as far as the snapshot, the same crash leaves it in place: the start looks at the last
  entry only, and keeps a log whose entries the snapshot has replaced.\<close>

lemma stale_log_after_snapshot_crash:
  assumes "cw_reach c crcf (cm_wal m) es" "codec_roundtrip c" "p_file (cm_persistent m) = Holds d"
    "es \<noteq> []" "sm_index (latest_snapshot_meta d) \<le> raft_idx c (last es)"
  shows "\<exists>m2. restart c [] m = Inr m2 \<and> cm_wal m2 = cw_new (cw_wal (cm_wal m)) \<and>
    st_first_index c m2 = Inr (raft_idx c (hd es)) \<and> st_last_index c m2 = Inr (raft_idx c (last es))"
proof -
  obtain q where q: "load_or_init (p_file (cm_persistent m)) NoFile [] False False None 0 = Inr q"
    "latest_snapshot_meta q = latest_snapshot_meta d"
    using load_or_init_fields [OF assms(3)] by metis
  note re = cw_reach.restarted [OF assms(1)]
  have "last_entry c (cw_new (cw_wal (cm_wal m))) = Inr (Some (last es))" using last_entry_spec [OF re assms(2)] assms(4) by simp
  moreover have "first_entry c (cw_new (cw_wal (cm_wal m))) = Inr (Some (hd es))"
    using first_entry_spec [OF re assms(2)] assms(4) by (simp add: compacted_reopened hd_conv_nth)
  ultimately show ?thesis
    using q assms(5) by (simp add: restart_def manager_new_def Let_def st_first_index_def st_last_index_def)
qed

section \<open>Taking a snapshot of what was installed\<close>


section \<open>Compaction\<close>

text \<open>Compaction forgets applied entries only: the last applied entry and everything behind it read as before, the
  state and the end of the log are untouched, and when it compacts, the log begins at the last applied entry (or at its
  own end, when it is behind).\<close>

lemma compact_wal_keeps_unapplied:
  assumes "cw_reach c crcf (cm_wal m) es" "codec_roundtrip c" "last_applied_entry (cm_persistent m) = Some a"
  shows "\<exists>m' b. compact_wal c n m = (m', Inr b) \<and> m'\<lparr>cm_wal := cm_wal m\<rparr> = m \<and>
    (\<forall>i\<ge>a. cw_entry c (cm_wal m') i = cw_entry c (cm_wal m) i) \<and> st_last_index c m' = st_last_index c m \<and>
    (if b then st_first_index c m' = Inr (min a (raft_idx c (last es))) else m' = m)"
proof (cases "n = 0 \<or> es = [] \<or> a - max (raft_idx c (hd es)) (compacted_until_raft_index (cm_wal m)) < n")
  case True
  have "compact_wal c n m = (m, Inr False)"
  proof (cases "es = []")
    case True
    then show ?thesis using first_entry_spec [OF assms(1,2)] by (simp add: compact_wal_def)
  next
    case False
    have "max (raft_idx c (hd es)) (compacted_until_raft_index (cm_wal m)) - raft_idx c (hd es) < length es"
      using cw_reach_compacted [OF assms(1,2) False] False by (cases es) auto
    moreover have "consecutive c es" using cw_reach_inv [OF assms(1,2)] by (simp add: cw_inv_def)
    ultimately have "raft_idx c (es ! (max (raft_idx c (hd es)) (compacted_until_raft_index (cm_wal m)) - raft_idx c (hd es))) =
        max (raft_idx c (hd es)) (compacted_until_raft_index (cm_wal m))"
      using consecutive_nth [of c es] by fastforce
    then show ?thesis using first_entry_spec [OF assms(1,2)] assms(3) True False by (auto simp: compact_wal_def)
  qed
  then show ?thesis by (intro exI [of _ m] exI [of _ False]) simp
next
  case False
  let ?h = "raft_idx c (hd es)" and ?k = "compacted_until_raft_index (cm_wal m)"
  have es: "es \<noteq> []" and n: "0 < n" and "n \<le> a - max ?h ?k" using False by auto
  then have a: "?k < a" "?h \<le> a" by auto
  have cons: "consecutive c es" using cw_reach_inv [OF assms(1,2)] by (simp add: cw_inv_def)
  have "max ?h ?k - ?h < length es" using cw_reach_compacted [OF assms(1,2) es] es by (cases es) auto
  then have fst: "raft_idx c (es ! (max ?h ?k - ?h)) = max ?h ?k" using consecutive_nth [OF cons] by fastforce
  have "raft_idx c (last es) = ?h + (length es - 1)"
    using consecutive_nth [OF cons, of "length es - 1"] es by (simp add: last_conv_nth)
  then have last: "raft_idx c (last es) = ?h + length es - 1" using es by (cases es) auto
  obtain cw' where cw': "cw_compact c (cm_wal m) a = (cw', Inr ())" "compacted_until_raft_index cw' = min a (?h + length es - 1)"
    "\<And>ri. cw_entry c cw' ri = (if ri = 0 then Inl Unavailable else if ri < compacted_until_raft_index cw' then Inl Compacted
       else cw_entry c (cm_wal m) ri)"
    using cw_compact_entries [OF assms(1,2) es a] by blast
  note re = cw_reach.compacted [OF assms(1) cw'(1)]
  let ?d = "first_index (cw_wal cw') - first_index (cw_wal (cm_wal m))"
  have run: "compact_wal c n m = (m\<lparr>cm_wal := cw'\<rparr>, Inr True)"
    using first_entry_spec [OF assms(1,2)] assms(3) es n fst False cw'(1) by (simp add: compact_wal_def with_wal_def)
  have d: "?d < length es" "?h + ?d \<le> min a (?h + length es - 1)"
  proof -
    obtain cw2 j where c2: "cw_compact c (cm_wal m) a = (cw2, Inr ())"
      "compacted_until_raft_index cw2 = min a (?h + length es - 1)" "j < length es" "?h + j \<le> compacted_until_raft_index cw2"
      "first_index (cw_wal cw2) = first_index (cw_wal (cm_wal m)) + j"
      using compact_spec [OF cw_reach_inv [OF assms(1,2)] es a] by metis
    then have "cw2 = cw'" using cw'(1) by simp
    with c2 show "?d < length es" "?h + ?d \<le> min a (?h + length es - 1)" by simp_all
  qed
  have hd: "raft_idx c (hd (drop ?d es)) = ?h + ?d" using consecutive_nth [OF cons d(1)] d(1) by (simp add: hd_drop_conv_nth)
  have ne: "drop ?d es \<noteq> []" using d(1) by simp
  have ix: "min a (?h + length es - 1) - (?h + ?d) < length (drop ?d es)" using d by (simp add: min_def) linarith
  have "first_entry c cw' = Inr (Some (drop ?d es ! (min a (?h + length es - 1) - (?h + ?d))))"
    using first_entry_spec [OF re assms(2)] ne hd cw'(2) d(2) by (simp add: max_def)
  moreover have "raft_idx c (drop ?d es ! (min a (?h + length es - 1) - (?h + ?d))) = min a (?h + length es - 1)"
    using consecutive_nth [OF consecutive_drop [OF cons, of ?d] ix] hd d(2) by linarith
  ultimately have "st_first_index c (m\<lparr>cm_wal := cw'\<rparr>) = Inr (min a (raft_idx c (last es)))"
    by (simp add: st_first_index_def last)
  moreover have "st_last_index c (m\<lparr>cm_wal := cw'\<rparr>) = st_last_index c m"
    using last_entry_spec [OF re assms(2)] last_entry_spec [OF assms(1,2)] ne es by (simp add: st_last_index_def)
  moreover have "cw_entry c cw' i = cw_entry c (cm_wal m) i" if "a \<le> i" for i
    using that a(1) cw'(2) cw'(3) [of i] by simp
  ultimately show ?thesis using run by (intro exI [of _ "m\<lparr>cm_wal := cw'\<rparr>"] exI [of _ True]) simp
qed

section \<open>The first voter\<close>

lemma first_voter_loop_spec:
  assumes "\<And>i. i \<in> set is \<Longrightarrow> cw_entry c cw i = Inr (E i)" "\<And>i. i \<in> set is \<Longrightarrow> entry_added_nodes fm (E i) = Inr (A (E i))"
  shows "first_voter_loop fm c cw is peers = Inr (filter (\<lambda>p. \<forall>i\<in>set is. p \<notin> set (A (E i))) peers)"
  using assms by (induction "is" arbitrary: peers) (auto intro: filter_cong)

text \<open>The first voter of a cluster is the only known peer that no entry of the log has added: with the log complete
  from the first index, the recovery returns it, nothing when every peer was added, and the marker for a voter that
  cannot be found when several peers were not; a log that starts later gives the marker at once.\<close>

lemma recover_first_voter_functional:
  assumes "cw_reach c crcf cw es" "codec_roundtrip c" "es \<noteq> []" "\<forall>e\<in>set es. entry_added_nodes fm e = Inr (A e)"
  shows "recover_first_voter_impl fm c cw peers =
    (if raft_idx c (hd es) = 1 \<and> compacted_until_raft_index cw \<le> 1
     then let voters = filter (\<lambda>p. \<forall>e\<in>set es. p \<notin> set (A e)) (remdups peers)
          in Inr (case voters of [] \<Rightarrow> None | [p] \<Rightarrow> Some p | _ \<Rightarrow> Some PEER_ID_MAX)
     else Inr (Some PEER_ID_MAX))"
proof -
  let ?h = "raft_idx c (hd es)" and ?k = "compacted_until_raft_index cw"
  note inv = cw_reach_inv [OF assms(1,2)]
  have cons: "consecutive c es" using inv by (simp add: cw_inv_def)
  have "max ?h ?k - ?h < length es" using cw_reach_compacted [OF assms(1-3)] assms(3) by (cases es) auto
  then have first: "first_entry c cw = Inr (Some (es ! (max ?h ?k - ?h)))" "raft_idx c (es ! (max ?h ?k - ?h)) = max ?h ?k"
    using first_entry_spec [OF assms(1,2)] assms(3) consecutive_nth [OF cons, of "max ?h ?k - ?h"] by auto
  have last: "last_entry c cw = Inr (Some (last es))" using last_entry_spec [OF assms(1,2)] assms(3) by simp
  have "0 < ?h" using inv assms(3) by (simp add: cw_inv_def)
  show ?thesis
  proof (cases "?h = 1 \<and> ?k \<le> 1")
    case False
    then have "max ?h ?k \<noteq> 1" using \<open>0 < ?h\<close> by (auto simp: max_def)
    then have "recover_first_voter_impl fm c cw peers = Inr (Some PEER_ID_MAX)"
      using first last by (simp add: recover_first_voter_impl_def)
    then show ?thesis using False by (simp only: if_False)
  next
    case True
    have l: "raft_idx c (last es) = length es"
      using consecutive_nth [OF cons, of "length es - 1"] True assms(3) by (simp add: last_conv_nth)
    have "cw_entry c cw i = Inr (es ! (i - 1))" if "i \<in> set [1..<length es + 1]" for i
      using cw_entry_spec [OF inv assms(3), of i] that True by auto
    then have loop: "first_voter_loop fm c cw [1..<length es + 1] ps =
        Inr (filter (\<lambda>p. \<forall>i\<in>set [1..<length es + 1]. p \<notin> set (A (es ! (i - 1)))) ps)" for ps
      using assms(4) by (intro first_voter_loop_spec) auto
    have idx: "(\<forall>i\<in>set [1..<length es + 1]. p \<notin> set (A (es ! (i - 1)))) = (\<forall>e\<in>set es. p \<notin> set (A e))" for p
    proof
      assume a: "\<forall>i\<in>set [1..<length es + 1]. p \<notin> set (A (es ! (i - 1)))"
      show "\<forall>e\<in>set es. p \<notin> set (A e)"
      proof
        fix e assume "e \<in> set es"
        then obtain j where j: "j < length es" "e = es ! j" by (auto simp: in_set_conv_nth)
        then have "j + 1 \<in> set [1..<length es + 1]" by (simp only: set_upt atLeastLessThan_iff) linarith
        with a have "p \<notin> set (A (es ! (j + 1 - 1)))" by blast
        with j show "p \<notin> set (A e)" by simp
      qed
    qed auto
    have "max ?h ?k = 1" using True by simp
    then show ?thesis
      using True first last l loop [of "remdups peers"] unfolding idx
      by (auto simp: recover_first_voter_impl_def Let_def split: list.splits)
  qed
qed

section \<open>Waiting callers\<close>

text \<open>A caller that runs into its timeout drops the sender, and with it every other caller of the same operation.\<close>

lemma timeout_cancels_others:
  assumes "map_of (on_consensus_op_apply m) operation = None" "v \<noteq> w"
  shows "(v, None) \<in> set (cm_answers (await_timeout w operation (propose_consensus_op v operation (propose_consensus_op w operation m))))"
  using assms by (simp add: await_timeout_def propose_consensus_op_def send_answer_def remove_sender_def waiters_def hashmap_simps)

section \<open>Witnesses\<close>

definition demo_snapshot :: raft_snapshot where
  "demo_snapshot = \<lparr>sn_data = [], sn_conf_state = \<lparr>voters = [2], learners = [], voters_outgoing = [], learners_next = [],
     auto_leave = False\<rparr>, sn_index = 9, sn_term = 3\<rparr>"

lemma demo_manager_simps:
  "cm_wal (demo_manager q) = cw_example" "cm_toc (demo_manager q) = []" "save_outcomes (cm_persistent (demo_manager q)) = []"
  "latest_snapshot_meta (cm_persistent (demo_manager q)) = \<lparr>sm_term = 0, sm_index = 0\<rparr>"
  "apply_progress_queue (cm_persistent (demo_manager q)) = q" "hs_commit (rs_hard (p_state (cm_persistent (demo_manager q)))) = 6"
  "peer_metadata_by_id (cm_persistent (demo_manager q)) = [(1, 0)]" "peer_address_by_id (cm_persistent (demo_manager q)) = [(1, 0)]"
  by (simp_all add: demo_manager_def demo_data_def persistent_data.defs persistent.defs)

theorem snapshot_install_crash_safe_witness:
  "\<exists>m'. apply_snapshot demo_formats demo_container demo_snapshot (demo_manager (Some (5, 6))) = (m', Inr ()) \<and>
     at_snapshot demo_codec 9 3 m' \<and>
     (\<exists>m2. restart demo_codec [] (m'\<lparr>cm_wal := cw_example\<rparr>) = Inr m2 \<and> at_snapshot demo_codec 9 3 m2)"
proof -
  let ?m = "demo_manager (Some (5, 6))"
  have r: "cw_reach demo_codec crc_example (cm_wal ?m) demo_entries" using demo_log by (simp add: demo_manager_simps)
  have d: "decode_snapshot demo_formats (sn_data demo_snapshot) =
      Some \<lparr>collections_data = [], address_by_id = [], metadata_by_id = [], sd_cluster_metadata = []\<rparr>"
    by (simp add: demo_formats_def)
  have a: "apply_collections_snapshot demo_container x y = (y, Inr ())" for x y by (simp add: demo_container_def)
  have sn: "sn_index demo_snapshot = 9" "sn_term demo_snapshot = 3" by (simp_all add: demo_snapshot_def)
  have "demo_entries = [] \<or> raft_idx demo_codec (last demo_entries) < sn_index demo_snapshot" using sn by (simp add: demo_idx)
  from snapshot_install_crash_safe [OF r demo_codec_ok demo_manager_simps(3) d a this] show ?thesis
    unfolding sn demo_manager_simps by blast
qed

text \<open>The snapshot of a peer whose last committed entry is 6, with a format that really encodes it.\<close>

definition one_snapshot_formats :: "(nat list, nat, nat, nat) snapshot_data \<Rightarrow> (nat, nat list, nat, nat, nat) formats" where
  "one_snapshot_formats d = demo_formats\<lparr>encode_snapshot := (\<lambda>x. if x = d then Some [7] else None), decode_snapshot := (\<lambda>_. Some d)\<rparr>"

definition demo_leader_data :: "(nat list, nat, nat, nat) snapshot_data" where
  "demo_leader_data = \<lparr>collections_data = [], address_by_id = [(1, 0)], metadata_by_id = [(1, 0)], sd_cluster_metadata = []\<rparr>"


end
