(* ===== verification/ConsensusLoop.thy ===== *)
theory ConsensusLoop
  imports ConsensusSnapshot
begin

text \<open>
  The part of \<open>src/consensus.rs\<close> that drives the state of \<open>ConsensusManager\<close>: what a peer does when the Raft node is
  ready, in the order the code insists on. The node is a parameter; messages are given to a broker and leave here.
\<close>

section \<open>One round\<close>

datatype loop_error = StoreError toc_error | CommitError apply_error

record ('r, 't, 'o, 'a, 'm, 'n, 'g) consensus =
  cs_node :: 'r
  cs_store :: "('t, 'o, 'a, 'm, 'n) manager"
  cs_soft_state :: "soft_state option"
  cs_leader_established :: bool
  cs_sent :: "'g list"

text \<open>The result of a store operation inside a round.\<close>

definition store_op ::
  "(('t, 'o, 'a, 'm, 'n) manager \<Rightarrow> ('t, 'o, 'a, 'm, 'n) manager \<times> (toc_error, 'x) result) \<Rightarrow>
   ('r, 't, 'o, 'a, 'm, 'n, 'g) consensus \<Rightarrow> ('r, 't, 'o, 'a, 'm, 'n, 'g) consensus \<times> (loop_error, unit) result" where
  "store_op f cs =
     (case f (cs_store cs) of
        (m, Inl e) \<Rightarrow> (cs\<lparr>cs_store := m\<rparr>, Inl (StoreError e))
      | (m, Inr _) \<Rightarrow> (cs\<lparr>cs_store := m\<rparr>, Inr ()))"

text \<open>The \<open>?\<close> operator on a state and a result.\<close>

definition seq :: "'st \<times> ('e, 'x) result \<Rightarrow> ('st \<Rightarrow> 'x \<Rightarrow> 'st \<times> ('e, 'y) result) \<Rightarrow> 'st \<times> ('e, 'y) result" where
  "seq r f = (case r of (s, Inl e) \<Rightarrow> (s, Inl e) | (s, Inr x) \<Rightarrow> f s x)"

definition send_messages :: "'g list \<Rightarrow> ('r, 't, 'o, 'a, 'm, 'n, 'g) consensus \<Rightarrow> ('r, 't, 'o, 'a, 'm, 'n, 'g) consensus" where
  "send_messages messages cs = cs\<lparr>cs_sent := cs_sent cs @ messages\<rparr>"

definition handle_committed_entries ::
  "('o, 's, 'a, 'm, 'n) formats \<Rightarrow> ('t, 'o, 's, 'a) collection_container \<Rightarrow> ('r, ('t, 'o, 'a, 'm, 'n) manager, 'g) raft_node \<Rightarrow>
   raft_entry raft_codec \<Rightarrow> raft_entry list \<Rightarrow> ('r, 't, 'o, 'a, 'm, 'n, 'g) consensus \<Rightarrow>
   ('r, 't, 'o, 'a, 'm, 'n, 'g) consensus \<times> (loop_error, bool) result" where
  "handle_committed_entries fm tc rn c entries cs =
     (if entries = [] then (cs, Inr False)
      else case with_persistent (set_unapplied_entries (raft_idx c (hd entries)) (raft_idx c (last entries))) (cs_store cs) of
        (m, Inl e) \<Rightarrow> (cs\<lparr>cs_store := m\<rparr>, Inl (StoreError e))
      | (m, Inr _) \<Rightarrow>
          (case apply_entries fm tc rn c m (cs_node cs) of
             (m1, node, Inl e) \<Rightarrow> (cs\<lparr>cs_store := m1, cs_node := node\<rparr>, Inl (CommitError e))
           | (m1, node, Inr stop) \<Rightarrow> (cs\<lparr>cs_store := m1, cs_node := node\<rparr>, Inr stop)))"

text \<open>The log is appended to with the checksum and the state of the segment creator that \<open>append_entries\<close> of
  \<open>ConsensusWal\<close> takes. The result is the light ready (none when the consensus has to stop), the new role, and
  whether the round was idle.\<close>

definition process_ready ::
  "('o, 's, 'a, 'm, 'n) formats \<Rightarrow> ('t, 'o, 's, 'a) collection_container \<Rightarrow> ('r, ('t, 'o, 'a, 'm, 'n) manager, 'g) raft_node \<Rightarrow>
   raft_entry raft_codec \<Rightarrow> (u32 \<Rightarrow> u8 list \<Rightarrow> u32) \<Rightarrow> bool \<Rightarrow> 'g ready \<Rightarrow> ('r, 't, 'o, 'a, 'm, 'n, 'g) consensus \<Rightarrow>
   ('r, 't, 'o, 'a, 'm, 'n, 'g) consensus \<times> (loop_error, 'g light_ready option \<times> state_role option \<times> bool) result" where
  "process_ready fm tc rn c crcf fin rd cs0 =
     (let cs = send_messages (rd_messages rd) cs0 in
      seq (case rd_snapshot rd of None \<Rightarrow> (cs, Inr ()) | Some snapshot \<Rightarrow> store_op (apply_snapshot fm tc snapshot) cs) (\<lambda>cs _.
      seq (if rd_entries rd = [] then (cs, Inr ())
           else store_op (with_wal (\<lambda>w. append_entries c crcf fin w (rd_entries rd))) cs) (\<lambda>cs _.
      seq (case rd_hs rd of None \<Rightarrow> (cs, Inr ()) | Some hs \<Rightarrow> store_op (set_hard_state hs) cs) (\<lambda>cs _.
        let role_change = map_option ss_raft_state (rd_ss rd);
            cs1 = (case rd_ss rd of None \<Rightarrow> cs | Some ss \<Rightarrow> cs\<lparr>cs_soft_state := Some ss\<rparr>);
            cs2 = send_messages (rd_persisted_messages rd) cs1;
            is_idle = (rd_snapshot rd = None \<and> rd_entries rd = [] \<and> rd_hs rd = None \<and> rd_ss rd = None \<and>
                       rd_committed_entries rd = [])
        in seq (handle_committed_entries fm tc rn c (rd_committed_entries rd) cs2) (\<lambda>cs stop_consensus.
             if stop_consensus then (cs, Inr (None, None, False))
             else (case rn_advance rn (cs_store cs) (cs_node cs) rd of
                     (node, light_rd) \<Rightarrow> (cs\<lparr>cs_node := node\<rparr>, Inr (Some light_rd, role_change, is_idle))))))))"

definition process_light_ready ::
  "('o, 's, 'a, 'm, 'n) formats \<Rightarrow> ('t, 'o, 's, 'a) collection_container \<Rightarrow> ('r, ('t, 'o, 'a, 'm, 'n) manager, 'g) raft_node \<Rightarrow>
   raft_entry raft_codec \<Rightarrow> 'g light_ready \<Rightarrow> ('r, 't, 'o, 'a, 'm, 'n, 'g) consensus \<Rightarrow>
   ('r, 't, 'o, 'a, 'm, 'n, 'g) consensus \<times> (loop_error, bool \<times> bool) result" where
  "process_light_ready fm tc rn c light_rd cs =
     seq (case lr_commit_index light_rd of None \<Rightarrow> (cs, Inr ()) | Some commit \<Rightarrow> store_op (set_commit_index commit) cs) (\<lambda>cs _.
     seq (handle_committed_entries fm tc rn c (lr_committed_entries light_rd) (send_messages (lr_messages light_rd) cs))
       (\<lambda>cs stop_consensus.
          (cs\<lparr>cs_node := rn_advance_apply rn (cs_store cs) (cs_node cs)\<rparr>,
           Inr (stop_consensus, lr_commit_index light_rd = None \<and> lr_committed_entries light_rd = []))))"

definition process_role_change ::
  "('r, 'st, 'g) raft_node \<Rightarrow> state_role \<Rightarrow> ('r, 't, 'o, 'a, 'm, 'n, 'g) consensus \<Rightarrow> ('r, 't, 'o, 'a, 'm, 'n, 'g) consensus" where
  "process_role_change rn role_change cs =
     cs\<lparr>cs_leader_established := (case role_change of
        Candidate \<Rightarrow> False | PreCandidate \<Rightarrow> False | _ \<Rightarrow> rn_leader_id rn (cs_node cs) \<noteq> 0)\<rparr>"

definition on_ready ::
  "('o, 's, 'a, 'm, 'n) formats \<Rightarrow> ('t, 'o, 's, 'a) collection_container \<Rightarrow> ('r, ('t, 'o, 'a, 'm, 'n) manager, 'g) raft_node \<Rightarrow>
   raft_entry raft_codec \<Rightarrow> (u32 \<Rightarrow> u8 list \<Rightarrow> u32) \<Rightarrow> bool \<Rightarrow> nat \<Rightarrow> ('r, 't, 'o, 'a, 'm, 'n, 'g) consensus \<Rightarrow>
   ('r, 't, 'o, 'a, 'm, 'n, 'g) consensus \<times> (loop_error, bool \<times> bool) result" where
  "on_ready fm tc rn c crcf fin compact_wal_entries cs0 =
     (if \<not> rn_has_ready rn (cs_store cs0) (cs_node cs0) then (cs0, Inr (False, True))
      else case rn_ready rn (cs_store cs0) (cs_node cs0) of
        (node, rd) \<Rightarrow>
          seq (process_ready fm tc rn c crcf fin rd (cs0\<lparr>cs_node := node\<rparr>)) (\<lambda>cs (light, role_change, is_idle_ready).
            case light of
              None \<Rightarrow> (cs, Inr (True, False))
            | Some light_rd \<Rightarrow>
                seq (process_light_ready fm tc rn c light_rd cs) (\<lambda>cs (stop_consensus, is_idle_light_ready).
                  let cs1 = (case role_change of None \<Rightarrow> cs | Some role \<Rightarrow> process_role_change rn role cs) in
                  seq (store_op (compact_wal c compact_wal_entries) cs1) (\<lambda>cs _.
                    (cs, Inr (stop_consensus, is_idle_ready \<and> is_idle_light_ready))))))"

section \<open>Nothing is applied before it is committed\<close>

text \<open>The queue ends at the commit index at the latest, in memory and in the state file.\<close>

definition queue_ok :: "entry_queue \<Rightarrow> nat \<Rightarrow> bool" where
  "queue_ok q commit = (case q of None \<Rightarrow> True | Some (current, last_id) \<Rightarrow> current \<le> last_id + 1 \<and> last_id \<le> commit)"

definition committed_only :: "('a, 'm, 'n) persistent \<Rightarrow> bool" where
  "committed_only p \<longleftrightarrow> queue_ok (apply_progress_queue p) (hs_commit (rs_hard (p_state p))) \<and>
     (case p_file p of Holds d \<Rightarrow> queue_ok (apply_progress_queue d) (hs_commit (rs_hard (p_state d))) | _ \<Rightarrow> True)"

lemma queue_ok_last_applied: "queue_ok q commit \<Longrightarrow> get_last_applied q = Some i \<Longrightarrow> i \<le> commit"
  by (auto simp: queue_ok_def get_last_applied_def split: option.splits if_splits)

lemma queue_ok_mono: "queue_ok q i \<Longrightarrow> i \<le> j \<Longrightarrow> queue_ok q j"
  by (auto simp: queue_ok_def split: option.splits)

lemma committed_only_save:
  assumes "queue_ok (apply_progress_queue p) (hs_commit (rs_hard (p_state p)))"
    "case p_file p of Holds d \<Rightarrow> queue_ok (apply_progress_queue d) (hs_commit (rs_hard (p_state d))) | _ \<Rightarrow> True"
  shows "committed_only (fst (p_save p))"
  using assms by (auto simp: committed_only_def p_save_def Let_def persistent_data.defs)

text \<open>A change that keeps the queue and does not lower the commit index.\<close>

lemma committed_only_update:
  assumes "committed_only p" "apply_progress_queue q = apply_progress_queue p" "p_file q = p_file p"
    "hs_commit (rs_hard (p_state p)) \<le> hs_commit (rs_hard (p_state q))"
  shows "committed_only q" "committed_only (fst (p_save q))"
  using assms committed_only_save [of q] queue_ok_mono by (auto simp: committed_only_def)

abbreviation cm_ok :: "('t, 'o, 'a, 'm, 'n) manager \<Rightarrow> bool" where "cm_ok m \<equiv> committed_only (cm_persistent m)"
abbreviation cm_commit :: "('t, 'o, 'a, 'm, 'n) manager \<Rightarrow> nat" where
  "cm_commit m \<equiv> hs_commit (rs_hard (p_state (cm_persistent m)))"

lemma with_persistent_ok:
  assumes "cm_ok m" "\<And>p. committed_only p \<Longrightarrow> committed_only (fst (f p))"
  shows "cm_ok (fst (with_persistent f m))"
  using assms by (simp add: with_persistent_def case_prod_beta)

lemma with_wal_persistent: "cm_persistent (fst (with_wal f m)) = cm_persistent m"
  by (simp add: with_wal_def case_prod_beta split: sum.splits)

lemma saves_ok [intro]:
  assumes "committed_only p"
  shows "committed_only (fst (insert_peer i u p))" "committed_only (fst (update_peer_metadata i md p))"
    "committed_only (fst (apply_state_update (\<lambda>s. s\<lparr>rs_conf := conf\<rparr>) p))" "committed_only (fst (save_if_dirty p))"
    "committed_only (update_cluster_metadata_key k v p)"
  using assms committed_only_update [OF assms]
  by (simp_all add: insert_peer_def update_peer_metadata_def apply_state_update_def save_if_dirty_def update_cluster_metadata_key_def)

lemma add_peer_ok: "cm_ok m \<Longrightarrow> cm_ok (fst (add_peer i u m))"
  unfolding add_peer_def by (rule with_persistent_ok) auto

lemma answers_persistent [simp]: "cm_persistent (send_answer ws a m) = cm_persistent m" "cm_persistent (remove_sender op m) = cm_persistent m"
  by (simp_all add: send_answer_def remove_sender_def)

lemma remove_peer_ok:
  assumes "cm_ok m"
  shows "cm_ok (fst (remove_peer tc i m))"
proof -
  obtain t ad r where tr: "toc_remove_peer tc (cm_toc m) (peer_address_by_id (cm_persistent m)) i = ((t, ad), r)"
    by (metis surj_pair)
  let ?p = "(cm_persistent m)\<lparr>peer_address_by_id := ad\<rparr>"
  have p: "committed_only ?p" by (rule committed_only_update(1) [OF assms]) simp_all
  have "committed_only (fst (p_save (?p\<lparr>peer_metadata_by_id := AList.delete i (peer_metadata_by_id ?p)\<rparr>)))"
    by (rule committed_only_update(2) [OF p]) simp_all
  then show ?thesis using tr p by (auto simp: remove_peer_def with_persistent_def Let_def case_prod_beta split: sum.splits)
qed

lemma on_peer_remove_ok: "cm_ok m \<Longrightarrow> cm_ok (fst (on_peer_remove tc i m))"
  using remove_peer_ok [of m tc i]
  by (auto simp: on_peer_remove_def case_prod_beta Let_def split: sum.splits toc_error.splits)

lemma conf_changes_loop_ok: "cm_ok m \<Longrightarrow> cm_ok (fst (conf_changes_loop fm tc e stop cs m))"
proof (induction cs arbitrary: stop m)
  case (Cons ch cs)
  obtain ty i where c: "ch = (ty, i)" by (cases ch)
  show ?case
    using Cons.prems
    by (cases ty) (auto simp: c Cons.IH add_peer_ok on_peer_remove_ok case_prod_beta Let_def split: option.splits sum.splits)
qed simp

lemma apply_one_entry_ok:
  assumes "cm_ok m"
  shows "cm_ok (fst (apply_one_entry fm tc rn e m node))"
proof -
  have up: "cm_ok (fst (with_persistent (update_peer_metadata i md) (remove_sender op m)))" for i md op
    by (rule with_persistent_ok) (use assms in auto)
  have cs: "cm_ok (fst (with_persistent (apply_state_update (\<lambda>s. s\<lparr>rs_conf := conf\<rparr>)) m))" for conf
    by (rule with_persistent_ok) (use assms in auto)
  show ?thesis
    using assms up cs
    by (auto simp: apply_one_entry_def apply_normal_entry_def apply_conf_change_entry_def case_prod_beta Let_def
        conf_changes_loop_ok saves_ok
        split: option.splits sum.splits entry_type.splits consensus_operations.splits toc_error.splits)
qed

lemma entry_applied_ok:
  assumes "cm_ok m" "current_unapplied_entry (cm_persistent m) = Some i"
  shows "cm_ok (fst (with_persistent entry_applied m))"
proof -
  let ?p = "cm_persistent m"
  have "queue_ok (queue_applied (apply_progress_queue ?p)) (hs_commit (rs_hard (p_state ?p)))"
    using assms by (auto simp: committed_only_def queue_ok_def queue_applied_def current_unapplied_entry_def queue_current_def
        split: option.splits if_splits)
  then have "committed_only (fst (entry_applied ?p))"
    using assms(1) unfolding entry_applied_def by (intro committed_only_save) (auto simp: committed_only_def)
  then show ?thesis by (simp add: with_persistent_def case_prod_beta)
qed

lemma apply_loop_ok: "cm_ok m \<Longrightarrow> cm_ok (fst (apply_loop fm tc rn c m node)) \<and>
    (snd (snd (apply_loop fm tc rn c m node)) = Inr False \<longrightarrow>
       current_unapplied_entry (cm_persistent (fst (apply_loop fm tc rn c m node))) = None)"
proof (induction "queue_left (queue_of m)" arbitrary: m node rule: less_induct)
  case less
  show ?case
  proof (cases "current_unapplied_entry (cm_persistent m)")
    case None
    then show ?thesis using less.prems by (simp add: apply_loop.simps [of fm tc rn c m])
  next
    case (Some i)
    show ?thesis
    proof (cases "cw_entry c (cm_wal m) i")
      case (Inl e)
      then show ?thesis using less.prems Some by (simp add: apply_loop.simps [of fm tc rn c m])
    next
      case (Inr entry)
      obtain m1 node1 r1 where one: "apply_one_entry fm tc rn entry m node = (m1, node1, r1)"
        by (cases "apply_one_entry fm tc rn entry m node") auto
      have ok1: "cm_ok m1" using apply_one_entry_ok [OF less.prems, of fm tc rn entry node] one by simp
      have q1: "queue_of m1 = queue_of m" by (rule apply_one_entry_queueD [OF one])
      obtain m2 r2 where ap: "with_persistent entry_applied m1 = (m2, r2)" by fastforce
      have "current_unapplied_entry (cm_persistent m1) = Some i" using Some q1 by (simp add: current_unapplied_entry_def)
      then have ok2: "cm_ok m2" using entry_applied_ok [OF ok1] ap by fastforce
      have "queue_left (queue_of m2) < queue_left (queue_of m)"
        using entry_applied_queueD [OF ap] queue_left_applied Some q1 by (simp add: current_unapplied_entry_def)
      note IH = less.hyps [OF this ok2, of node1]
      show ?thesis
        using one ap Some Inr ok1 ok2 IH
        by (cases r1; cases r2) (auto simp: apply_loop.simps [of fm tc rn c m])
    qed
  qed
qed

text \<open>What the \<open>raft\<close> crate promises of a ready: the commit index does not go back, and committed entries end at it.\<close>

definition commits :: "raft_entry raft_codec \<Rightarrow> raft_entry list \<Rightarrow> nat \<Rightarrow> bool" where
  "commits c entries commit \<longleftrightarrow> (entries \<noteq> [] \<longrightarrow>
     raft_idx c (hd entries) \<le> raft_idx c (last entries) + 1 \<and> raft_idx c (last entries) \<le> commit)"

definition ready_ok :: "raft_entry raft_codec \<Rightarrow> ('t, 'o, 'a, 'm, 'n) manager \<Rightarrow> 'g ready \<Rightarrow> bool" where
  "ready_ok c m rd \<longleftrightarrow>
     (let commit1 = (case rd_snapshot rd of Some sn \<Rightarrow> sn_index sn | None \<Rightarrow> cm_commit m);
          commit2 = (case rd_hs rd of Some hs \<Rightarrow> hs_commit hs | None \<Rightarrow> commit1)
      in commit1 \<le> commit2 \<and> commits c (rd_committed_entries rd) commit2)"

definition light_ok :: "raft_entry raft_codec \<Rightarrow> ('t, 'o, 'a, 'm, 'n) manager \<Rightarrow> 'g light_ready \<Rightarrow> bool" where
  "light_ok c m lr \<longleftrightarrow>
     (let commit = (case lr_commit_index lr of Some i \<Rightarrow> i | None \<Rightarrow> cm_commit m)
      in cm_commit m \<le> commit \<and> commits c (lr_committed_entries lr) commit)"

definition idle_queue :: "('t, 'o, 'a, 'm, 'n) manager \<Rightarrow> bool" where
  "idle_queue m \<longleftrightarrow> current_unapplied_entry (cm_persistent m) = None"

lemma set_unapplied_ok:
  assumes "cm_ok m" "commits c es (cm_commit m)" "es \<noteq> []"
  shows "cm_ok (fst (with_persistent (set_unapplied_entries (raft_idx c (hd es)) (raft_idx c (last es))) m))"
proof -
  let ?p = "cm_persistent m"
  have "queue_ok (queue_new (raft_idx c (hd es)) (raft_idx c (last es))) (hs_commit (rs_hard (p_state ?p)))"
    using assms(2,3) by (simp add: queue_ok_def queue_new_def commits_def)
  then have "committed_only (fst (set_unapplied_entries (raft_idx c (hd es)) (raft_idx c (last es)) ?p))"
    using assms(1) unfolding set_unapplied_entries_def by (intro committed_only_save) (auto simp: committed_only_def)
  then show ?thesis by (simp add: with_persistent_def case_prod_beta)
qed

lemma handle_committed_entries_ok:
  assumes "cm_ok (cs_store cs)" "commits c es (cm_commit (cs_store cs))"
  shows "cm_ok (cs_store (fst (handle_committed_entries fm tc rn c es cs))) \<and>
    (snd (handle_committed_entries fm tc rn c es cs) = Inr False \<and> idle_queue (cs_store cs) \<longrightarrow>
       idle_queue (cs_store (fst (handle_committed_entries fm tc rn c es cs))))"
proof (cases "es = []")
  case True
  then show ?thesis using assms by (simp add: handle_committed_entries_def)
next
  case False
  obtain m r where s: "with_persistent (set_unapplied_entries (raft_idx c (hd es)) (raft_idx c (last es))) (cs_store cs) = (m, r)"
    by fastforce
  have ok: "cm_ok m" using set_unapplied_ok [OF assms False] s by simp
  obtain m1 r1 where d: "with_persistent save_if_dirty m = (m1, r1)" by fastforce
  have ok1: "cm_ok m1" using with_persistent_ok [OF ok saves_ok(4)] d by fastforce
  obtain m2 node r2 where l: "apply_loop fm tc rn c m1 (cs_node cs) = (m2, node, r2)" by (cases "apply_loop fm tc rn c m1 (cs_node cs)") auto
  from apply_loop_ok [OF ok1, of fm tc rn c "cs_node cs"] l
  have "cm_ok m2" "r2 = Inr False \<Longrightarrow> idle_queue m2" by (simp_all add: idle_queue_def)
  then show ?thesis using False s d l ok ok1
    by (cases r; cases r1; cases r2) (auto simp: handle_committed_entries_def apply_entries_def)
qed

lemma update_from_snapshot_ok:
  assumes "committed_only p"
  shows "committed_only (fst (update_from_snapshot p conf st si ad md cl))"
  unfolding update_from_snapshot_def
  by (rule committed_only_save) (use assms in \<open>simp_all add: queue_ok_def set_from_snapshot_def committed_only_def\<close>)

lemma apply_snapshot_ok:
  assumes "cm_ok m"
  shows "cm_ok (fst (apply_snapshot fm tc sn m)) \<and>
    (snd (apply_snapshot fm tc sn m) = Inr () \<longrightarrow> cm_commit (fst (apply_snapshot fm tc sn m)) = sn_index sn \<and>
       idle_queue (fst (apply_snapshot fm tc sn m)))"
proof (cases "decode_snapshot fm (sn_data sn)")
  case None
  then show ?thesis using assms by (simp add: apply_snapshot_def)
next
  case (Some d)
  obtain t r where t: "apply_collections_snapshot tc (cm_toc m) (collections_data d) = (t, r)" by fastforce
  let ?u = "\<lambda>p. update_from_snapshot p (sn_conf_state sn) (sn_term sn) (sn_index sn) (address_by_id d) (metadata_by_id d) (sd_cluster_metadata d)"
  obtain p r1 where u: "?u (cm_persistent m) = (p, r1)" by fastforce
  have p: "committed_only p" using update_from_snapshot_ok [OF assms] u by (metis fst_conv)
  have q: "r1 = Inr () \<Longrightarrow> hs_commit (rs_hard (p_state p)) = sn_index sn \<and> current_unapplied_entry p = None"
    using installed_persistent [of "cm_persistent m"] u by (auto simp: current_unapplied_entry_def queue_current_def)
  let ?m = "m\<lparr>cm_toc := t, cm_persistent := p\<rparr>"
  obtain m2 r2 where w: "with_wal cw_clear ?m = (m2, r2)" by fastforce
  have m2: "cm_persistent m2 = p" using with_wal_persistent [of cw_clear ?m] w by simp
  show ?thesis
    using Some t u w assms p q m2
    by (cases r; cases r1) (auto simp: apply_snapshot_def with_persistent_def idle_queue_def)
qed

lemma commit_updates_ok:
  assumes "cm_ok m" "cm_commit m \<le> hs_commit hs"
  shows "cm_ok (fst (set_hard_state hs m)) \<and> cm_commit (fst (set_hard_state hs m)) = hs_commit hs \<and>
    queue_of (fst (set_hard_state hs m)) = queue_of m"
proof -
  let ?p = "cm_persistent m" let ?q = "?p\<lparr>p_state := (p_state ?p)\<lparr>rs_hard := hs\<rparr>\<rparr>"
  have "committed_only (fst (p_save ?q))" by (rule committed_only_update(2) [OF assms(1)]) (use assms(2) in simp_all)
  then show ?thesis
    by (simp add: set_hard_state_def with_persistent_def apply_state_update_def case_prod_beta p_save_def Let_def)
qed

lemma set_commit_index_ok:
  assumes "cm_ok m" "cm_commit m \<le> i"
  shows "cm_ok (fst (set_commit_index i m)) \<and> cm_commit (fst (set_commit_index i m)) = i \<and>
    queue_of (fst (set_commit_index i m)) = queue_of m"
proof -
  let ?p = "cm_persistent m"
  let ?q = "?p\<lparr>p_state := (p_state ?p)\<lparr>rs_hard := (rs_hard (p_state ?p))\<lparr>hs_commit := i\<rparr>\<rparr>\<rparr>"
  have "committed_only (fst (p_save ?q))" by (rule committed_only_update(2) [OF assms(1)]) (use assms(2) in simp_all)
  then show ?thesis
    by (simp add: set_commit_index_def with_persistent_def apply_state_update_def case_prod_beta p_save_def Let_def)
qed

text \<open>One stage of a round: it keeps the invariant, and what it establishes on success.\<close>

definition stage :: "(('r, 't, 'o, 'a, 'm, 'n, 'g) consensus \<Rightarrow> 'x \<Rightarrow> bool) \<Rightarrow>
    ('r, 't, 'o, 'a, 'm, 'n, 'g) consensus \<times> (loop_error, 'x) result \<Rightarrow> bool" where
  "stage Q r \<longleftrightarrow> cm_ok (cs_store (fst r)) \<and> (\<forall>x. snd r = Inr x \<longrightarrow> Q (fst r) x)"

lemma stage_seq:
  assumes "stage Q r" "\<And>s x. cm_ok (cs_store s) \<Longrightarrow> Q s x \<Longrightarrow> stage R (f s x)"
  shows "stage R (seq r f)"
  using assms by (cases r; cases "snd r") (auto simp: stage_def seq_def)

lemma stage_Inr: "cm_ok (cs_store cs) \<Longrightarrow> Q cs x \<Longrightarrow> stage Q (cs, Inr x)"
  by (simp add: stage_def)

lemma stage_store_op:
  assumes "cm_ok (fst (f (cs_store cs)))" "\<And>x. snd (f (cs_store cs)) = Inr x \<Longrightarrow> Q (cs\<lparr>cs_store := fst (f (cs_store cs))\<rparr>) ()"
  shows "stage Q (store_op f cs)"
  using assms by (cases "f (cs_store cs)"; cases "snd (f (cs_store cs))") (auto simp: stage_def store_op_def)

lemma stage_committed:
  assumes "cm_ok (cs_store cs)" "commits c es (cm_commit (cs_store cs))" "idle \<Longrightarrow> idle_queue (cs_store cs)"
  shows "stage (\<lambda>cs1 stop. idle \<and> \<not> stop \<longrightarrow> idle_queue (cs_store cs1)) (handle_committed_entries fm tc rn c es cs)"
  using handle_committed_entries_ok [OF assms(1,2), of fm tc rn] assms(3) by (auto simp: stage_def)

lemma compact_wal_persistent: "cm_persistent (fst (compact_wal c n m)) = cm_persistent m"
  using with_wal_persistent [of "\<lambda>w. cw_compact c w _" m]
  by (auto simp: compact_wal_def case_prod_beta split: sum.splits option.splits)

text \<open>What a round needs to know between its stages: the commit index, and whether the queue is done.\<close>

definition reached :: "nat \<Rightarrow> bool \<Rightarrow> ('r, 't, 'o, 'a, 'm, 'n, 'g) consensus \<Rightarrow> 'x \<Rightarrow> bool" where
  "reached i idle cs x \<longleftrightarrow> cm_commit (cs_store cs) = i \<and> (idle \<longrightarrow> idle_queue (cs_store cs))"

lemma send_messages_store [simp]: "cs_store (send_messages ms cs) = cs_store cs"
  by (simp add: send_messages_def)

lemma stage_snapshot:
  assumes "cm_ok (cs_store cs)" "idle \<Longrightarrow> idle_queue (cs_store cs)"
    "i = (case sn of Some s \<Rightarrow> sn_index s | None \<Rightarrow> cm_commit (cs_store cs))"
  shows "stage (reached i idle)
    (case sn of None \<Rightarrow> (cs, Inr ()) | Some snapshot \<Rightarrow> store_op (apply_snapshot fm tc snapshot) cs)"
proof (cases sn)
  case None
  then show ?thesis using assms by (simp add: stage_Inr reached_def)
next
  case (Some s)
  then show ?thesis using apply_snapshot_ok [OF assms(1), of fm tc s] assms(3)
    by (auto intro!: stage_store_op simp: reached_def)
qed

lemma stage_append:
  assumes "cm_ok (cs_store cs)" "reached i idle cs u"
  shows "stage (reached i idle) (if es = [] then (cs, Inr ()) else store_op (with_wal (\<lambda>w. append_entries c crcf fin w es)) cs)"
  using assms by (auto intro!: stage_store_op stage_Inr simp: reached_def with_wal_persistent idle_queue_def)

lemma stage_hard_state:
  assumes "cm_ok (cs_store cs)" "reached i idle cs u" "i \<le> (case hs of Some h \<Rightarrow> hs_commit h | None \<Rightarrow> i)"
  shows "stage (reached (case hs of Some h \<Rightarrow> hs_commit h | None \<Rightarrow> i) idle)
    (case hs of None \<Rightarrow> (cs, Inr ()) | Some h \<Rightarrow> store_op (set_hard_state h) cs)"
proof (cases hs)
  case None
  then show ?thesis using assms by (auto intro!: stage_Inr simp: reached_def)
next
  case (Some h)
  have "cm_commit (cs_store cs) \<le> hs_commit h" using assms(2,3) Some by (simp add: reached_def)
  from commit_updates_ok [OF assms(1) this] Some assms(2) show ?thesis
    by (auto intro!: stage_store_op simp: reached_def idle_queue_def current_unapplied_entry_def)
qed

definition light_reached ::
  "raft_entry raft_codec \<Rightarrow> bool \<Rightarrow> ('r, 't, 'o, 'a, 'm, 'n, 'g) consensus \<Rightarrow> 'g light_ready option \<times> state_role option \<times> bool \<Rightarrow> bool" where
  "light_reached c idle cs x \<longleftrightarrow> (case fst x of None \<Rightarrow> True
     | Some lr \<Rightarrow> light_ok c (cs_store cs) lr \<and> (idle \<longrightarrow> idle_queue (cs_store cs)))"

lemma process_ready_ok:
  fixes cs :: "('r, 't, 'o, 'a, 'm, 'n, 'g) consensus"
  assumes "cm_ok (cs_store cs)" "ready_ok c (cs_store cs) rd"
    "\<forall>st node node' lr. rn_advance rn st node rd = (node', lr) \<longrightarrow> light_ok c st lr"
    "idle \<Longrightarrow> idle_queue (cs_store cs)"
  shows "stage (light_reached c idle) (process_ready fm tc rn c crcf fin rd cs)"
proof -
  define i where "i = (case rd_snapshot rd of Some sn \<Rightarrow> sn_index sn | None \<Rightarrow> cm_commit (cs_store cs))"
  have le: "i \<le> (case rd_hs rd of Some hs \<Rightarrow> hs_commit hs | None \<Rightarrow> i)"
    and co: "commits c (rd_committed_entries rd) (case rd_hs rd of Some hs \<Rightarrow> hs_commit hs | None \<Rightarrow> i)"
    using assms(2) unfolding ready_ok_def Let_def i_def by blast+
  have i: "i = (case rd_snapshot rd of Some sn \<Rightarrow> sn_index sn | None \<Rightarrow> cm_commit (cs_store (send_messages (rd_messages rd) cs)))"
    by (simp only: i_def send_messages_store)
  have ss: "cs_store (case ss of None \<Rightarrow> cs | Some s \<Rightarrow> cs\<lparr>cs_soft_state := Some s\<rparr>) = cs_store cs" for ss
    and cs :: "('r, 't, 'o, 'a, 'm, 'n, 'g) consensus"
    by (simp split: option.splits)
  show ?thesis unfolding process_ready_def Let_def
    apply (rule stage_seq [OF stage_snapshot [where idle = idle and i = i, OF _ _ i]])
      apply (use assms in simp_all)[2]
    apply (rule stage_seq [OF stage_append], assumption, assumption)
    apply (rule stage_seq [OF stage_hard_state], assumption, assumption, rule le)
    apply (rule stage_seq [OF stage_committed [where idle = idle]])
       apply (use co in \<open>simp_all add: reached_def ss\<close>)[3]
    apply (use assms(3) in \<open>auto simp: stage_def light_reached_def split: prod.splits\<close>)
    done
qed

lemma process_light_ready_ok:
  assumes "cm_ok (cs_store cs)" "light_ok c (cs_store cs) lr" "idle \<Longrightarrow> idle_queue (cs_store cs)"
  shows "stage (\<lambda>cs1 x. idle \<and> \<not> fst x \<longrightarrow> idle_queue (cs_store cs1)) (process_light_ready fm tc rn c lr cs)"
proof -
  have "stage (reached (case lr_commit_index lr of Some i \<Rightarrow> i | None \<Rightarrow> cm_commit (cs_store cs)) idle)
      (case lr_commit_index lr of None \<Rightarrow> (cs, Inr ()) | Some commit \<Rightarrow> store_op (set_commit_index commit) cs)"
  proof (cases "lr_commit_index lr")
    case None
    then show ?thesis using assms by (simp add: stage_Inr reached_def)
  next
    case (Some i)
    have "cm_commit (cs_store cs) \<le> i" using assms(2) Some by (simp add: light_ok_def)
    from set_commit_index_ok [OF assms(1) this] Some assms(3) show ?thesis
      by (auto intro!: stage_store_op simp: reached_def idle_queue_def current_unapplied_entry_def)
  qed
  then show ?thesis unfolding process_light_ready_def
    apply (rule stage_seq)
    apply (rule stage_seq [OF stage_committed [where idle = idle]])
       apply (use assms(2) in \<open>auto simp: reached_def light_ok_def Let_def stage_def split: option.splits\<close>)
    done
qed

lemma stage_weaken: "stage Q r \<Longrightarrow> (\<And>s x. Q s x \<Longrightarrow> R s x) \<Longrightarrow> stage R r"
  by (auto simp: stage_def)

lemma on_ready_stage:
  fixes cs :: "('r, 't, 'o, 'a, 'm, 'n, 'g) consensus"
  assumes "cm_ok (cs_store cs)"
    "\<forall>st node node' rd. rn_ready rn st node = (node', rd) \<longrightarrow> ready_ok c st rd"
    "\<forall>st node rd node' lr. rn_advance rn st node rd = (node', lr) \<longrightarrow> light_ok c st lr"
    "idle \<Longrightarrow> idle_queue (cs_store cs)"
  shows "stage (\<lambda>cs1 x. idle \<and> \<not> fst x \<longrightarrow> idle_queue (cs_store cs1)) (on_ready fm tc rn c crcf fin n cs)"
proof (cases "rn_has_ready rn (cs_store cs) (cs_node cs)")
  case False
  then show ?thesis using assms(1,4) by (simp add: on_ready_def stage_def)
next
  case True
  obtain node rd where rd: "rn_ready rn (cs_store cs) (cs_node cs) = (node, rd)" by fastforce
  have pr: "stage (light_reached c idle) (process_ready fm tc rn c crcf fin rd (cs\<lparr>cs_node := node\<rparr>))"
    by (rule process_ready_ok) (use assms rd in auto)
  have compact: "stage (\<lambda>cs1 x. idle \<and> \<not> fst x \<longrightarrow> idle_queue (cs_store cs1))
      (seq (store_op (compact_wal c n) cs1) (\<lambda>cs _. (cs, Inr (stop, b))))"
    if "cm_ok (cs_store cs1)" "idle \<and> \<not> stop \<longrightarrow> idle_queue (cs_store cs1)"
    for cs1 :: "('r, 't, 'o, 'a, 'm, 'n, 'g) consensus" and stop b
    by (rule stage_seq [OF stage_store_op [where Q = "\<lambda>cs1 _. idle \<and> \<not> stop \<longrightarrow> idle_queue (cs_store cs1)"]])
      (use that in \<open>auto simp: compact_wal_persistent idle_queue_def stage_def\<close>)
  have role: "cs_store (case rc of None \<Rightarrow> cs1 | Some role \<Rightarrow> process_role_change rn role cs1) = cs_store cs1"
    for rc and cs1 :: "('r, 't, 'o, 'a, 'm, 'n, 'g) consensus"
    by (simp add: process_role_change_def split: option.splits)
  have "stage (\<lambda>cs1 x. idle \<and> \<not> fst x \<longrightarrow> idle_queue (cs_store cs1))
      (case light of None \<Rightarrow> (cs1, Inr (True, False))
       | Some light_rd \<Rightarrow>
           seq (process_light_ready fm tc rn c light_rd cs1) (\<lambda>cs (stop_consensus, is_idle_light_ready).
             let cs1 = (case rc of None \<Rightarrow> cs | Some role \<Rightarrow> process_role_change rn role cs) in
             seq (store_op (compact_wal c n) cs1) (\<lambda>cs _. (cs, Inr (stop_consensus, b \<and> is_idle_light_ready)))))"
    if "cm_ok (cs_store cs1)" "light_reached c idle cs1 (light, rc, b)"
    for cs1 :: "('r, 't, 'o, 'a, 'm, 'n, 'g) consensus" and light rc b
  proof (cases light)
    case None
    then show ?thesis using that by (simp add: stage_def)
  next
    case (Some lr)
    have "stage (\<lambda>cs1 x. idle \<and> \<not> fst x \<longrightarrow> idle_queue (cs_store cs1)) (process_light_ready fm tc rn c lr cs1)"
      by (rule process_light_ready_ok) (use that Some in \<open>auto simp: light_reached_def\<close>)
    then show ?thesis unfolding Some option.case
      by (rule stage_seq) (auto simp: Let_def role intro: compact)
  qed
  then show ?thesis using True rd
    by (auto simp: on_ready_def split_beta intro!: stage_seq [OF pr])
qed

text \<open>C11: Nothing is applied before it is committed: whatever a round of the consensus loop meets, failing saves, a failing
  log, a service error, a snapshot, the queue of entries to apply ends at the commit index, in memory and in every
  state of the file, so the last applied entry is never ahead of the commit index; and a round that ends without an
  error has applied every entry it was given. The Raft node is assumed not to take back its commit index and to hand
  out committed entries up to it.\<close>

theorem applied_only_when_committed:
  assumes "cm_ok (cs_store cs)"
    "\<forall>st node node' rd. rn_ready rn st node = (node', rd) \<longrightarrow> ready_ok c st rd"
    "\<forall>st node rd node' lr. rn_advance rn st node rd = (node', lr) \<longrightarrow> light_ok c st lr"
    "on_ready fm tc rn c crcf fin n cs = (cs', r)"
  shows "cm_ok (cs_store cs') \<and>
    (\<forall>i. last_applied_entry (cm_persistent (cs_store cs')) = Some i \<longrightarrow> i \<le> cm_commit (cs_store cs')) \<and>
    (\<forall>d i. p_file (cm_persistent (cs_store cs')) = Holds d \<and> get_last_applied (apply_progress_queue d) = Some i \<longrightarrow>
       i \<le> hs_commit (rs_hard (p_state d))) \<and>
    (idle_queue (cs_store cs) \<and> (\<exists>b. r = Inr (False, b)) \<longrightarrow> idle_queue (cs_store cs'))"
  using on_ready_stage [OF assms(1-3), of "idle_queue (cs_store cs)" fm tc crcf fin n] assms(4)
  by (auto simp: stage_def committed_only_def last_applied_entry_def queue_ok_last_applied)

text \<open>A node that commits the two entries of the example log.\<close>

definition committing_node :: "(unit, (nat list, nat, nat, nat, nat) manager, unit) raft_node" where
  "committing_node = demo_node\<lparr>rn_has_ready := (\<lambda>_ _. True),
     rn_ready := (\<lambda>st _. ((), \<lparr>rd_messages = [], rd_snapshot = None, rd_entries = [],
       rd_hs = Some \<lparr>hs_term = 1, hs_vote = 1, hs_commit = max 6 (cm_commit st)\<rparr>, rd_ss = None,
       rd_persisted_messages = [], rd_committed_entries = demo_entries\<rparr>))\<rparr>"

definition demo_consensus :: "(unit, nat list, nat, nat, nat, nat, unit) consensus" where
  "demo_consensus = \<lparr>cs_node = (), cs_store = demo_manager None, cs_soft_state = None, cs_leader_established = True, cs_sent = []\<rparr>"

theorem applied_only_when_committed_witness:
  "\<exists>cs' r. on_ready demo_formats demo_container committing_node demo_codec crc_example True 0 demo_consensus = (cs', r) \<and>
     cm_ok (cs_store cs') \<and> (\<forall>i. last_applied_entry (cm_persistent (cs_store cs')) = Some i \<longrightarrow> i \<le> cm_commit (cs_store cs'))"
proof -
  have ok: "cm_ok (cs_store demo_consensus)"
    by (simp add: demo_consensus_def demo_manager_def demo_data_def committed_only_def queue_ok_def persistent_data.defs persistent.defs)
  have r: "\<forall>st node node' rd. rn_ready committing_node st node = (node', rd) \<longrightarrow> ready_ok demo_codec st rd"
    by (auto simp: committing_node_def ready_ok_def commits_def demo_idx)
  have l: "\<forall>st node rd node' lr. rn_advance committing_node st node rd = (node', lr) \<longrightarrow> light_ok demo_codec st lr"
    by (auto simp: committing_node_def demo_node_def light_ok_def commits_def)
  obtain cs' x where run: "on_ready demo_formats demo_container committing_node demo_codec crc_example True 0 demo_consensus = (cs', x)"
    by fastforce
  from applied_only_when_committed [OF ok r l run] run show ?thesis by blast
qed

end
