(* ===== verification/SerdeWal.thy ===== *)
theory SerdeWal
  imports WalLog
begin

text \<open>
  \<open>lib/shard/src/wal.rs\<close>: the typed log. Records are serialised with CBOR (reading falls back
  to MessagePack); both libraries are parameters, as partial functions. On top of the physical
  log it keeps the first logical index, mirrored in the file \<open>first-index\<close>. Error messages
  are left out; a panic of the underlying log is \<open>WalPanic\<close>.
\<close>

record 'r codec =
  cbor_to_vec :: "'r \<Rightarrow> u8 list option"
  cbor_from_slice :: "u8 list \<Rightarrow> 'r option"
  rmp_from_slice :: "u8 list \<Rightarrow> 'r option"

datatype serde_error =
    InitWalError wal_error
  | WriteWalError wal_error
  | SerializeError
  | ReadWalError nat
  | DeserializeError
  | TruncateWalError wal_error
  | ClockRejected
  | WalPanic

record serde_options =
  opt_segment_capacity :: nat
  opt_segment_queue_len :: nat
  opt_retain_closed :: nat

record serde_wal =
  s_wal :: wal
  s_options :: serde_options
  s_first_index :: "nat option"
  first_index_file :: "nat option"

definition INCREASED_RETENTION_FACTOR :: nat where
  "INCREASED_RETENTION_FACTOR = 10"

definition raw_record_new :: "'r codec \<Rightarrow> 'r \<Rightarrow> (serde_error, u8 list) result" where
  "raw_record_new c r = (case cbor_to_vec c r of None \<Rightarrow> Inl SerializeError | Some bs \<Rightarrow> Inr bs)"

definition deserialize_from :: "'r codec \<Rightarrow> u8 list \<Rightarrow> (serde_error, 'r) result" where
  "deserialize_from c bs =
     (case cbor_from_slice c bs of
        Some r \<Rightarrow> Inr r
      | None \<Rightarrow> (case rmp_from_slice c bs of Some r \<Rightarrow> Inr r | None \<Rightarrow> Inl DeserializeError))"

definition map_err :: "('e \<Rightarrow> 'f) \<Rightarrow> ('e, 'a) result \<Rightarrow> ('f, 'a) result" where
  "map_err f r = (case r of Inl e \<Rightarrow> Inl (f e) | Inr a \<Rightarrow> Inr a)"

definition serde_new ::
  "(nat \<Rightarrow> u32) \<Rightarrow> bool \<Rightarrow> serde_options \<Rightarrow> (nat \<times> segment) list \<Rightarrow> closed_segment list \<Rightarrow>
   nat option \<Rightarrow> (serde_error, serde_wal) result" where
  "serde_new sd fin opts opens closed ack_file =
     and_then (map_err InitWalError (with_options sd fin (opt_segment_capacity opts)
         (opt_segment_queue_len opts) (opt_retain_closed opts) opens closed))
       (\<lambda>w. let fi = (case ack_file of
              Some ack_index \<Rightarrow> Some (min (max ack_index (first_index w)) (last_index w))
            | None \<Rightarrow> None)
         in Inr \<lparr>s_wal = w, s_options = opts, s_first_index = fi, first_index_file = ack_file\<rparr>)"

definition serde_write ::
  "(u32 \<Rightarrow> u8 list \<Rightarrow> u32) \<Rightarrow> bool \<Rightarrow> serde_wal \<Rightarrow> u8 list \<Rightarrow> (serde_error, serde_wal \<times> nat) result"
where
  "serde_write crcf fin s raw =
     and_then (map_err WriteWalError (wal_append crcf fin (s_wal s) raw))
       (\<lambda>(w, i). Inr (s\<lparr>s_wal := w\<rparr>, i))"

definition first_closed_index :: "serde_wal \<Rightarrow> nat" where
  "first_closed_index s = first_index (s_wal s)"

definition serde_first_index :: "serde_wal \<Rightarrow> nat" where
  "serde_first_index s =
     (case s_first_index s of Some i \<Rightarrow> i | None \<Rightarrow> first_closed_index s)"

definition serde_last_index :: "serde_wal \<Rightarrow> nat" where
  "serde_last_index s = last_index (s_wal s)"

definition truncated_prefix_entries_num :: "serde_wal \<Rightarrow> nat" where
  "truncated_prefix_entries_num s = serde_first_index s - first_index (s_wal s)"

definition serde_len :: "serde_wal \<Rightarrow> bool \<Rightarrow> nat" where
  "serde_len s with_acknowledged =
     (if with_acknowledged then num_entries (s_wal s)
      else num_entries (s_wal s) - truncated_prefix_entries_num s)"

definition serde_is_empty :: "serde_wal \<Rightarrow> bool" where
  "serde_is_empty s \<longleftrightarrow> serde_len s False = 0"

definition read_raw_record :: "serde_wal \<Rightarrow> nat \<Rightarrow> (serde_error, u8 list option) result" where
  "read_raw_record s idx = map_err (\<lambda>_. WalPanic) (wal_entry (s_wal s) idx)"

definition read_range ::
  "'r codec \<Rightarrow> serde_wal \<Rightarrow> nat \<Rightarrow> nat \<Rightarrow> (serde_error, nat \<times> 'r) result list" where
  "read_range c s a b = map (\<lambda>idx.
     and_then (map_err (\<lambda>_. WalPanic) (wal_entry (s_wal s) idx))
       (\<lambda>e. case e of
           None \<Rightarrow> Inl (ReadWalError idx)
         | Some bs \<Rightarrow> and_then (deserialize_from c bs) (\<lambda>r. Inr (idx, r)))) [a..<b]"

definition serde_read :: "'r codec \<Rightarrow> serde_wal \<Rightarrow> nat \<Rightarrow> (serde_error, nat \<times> 'r) result list" where
  "serde_read c s start = read_range c s start (serde_first_index s + serde_len s False)"

definition read_all :: "'r codec \<Rightarrow> serde_wal \<Rightarrow> bool \<Rightarrow> (serde_error, nat \<times> 'r) result list" where
  "read_all c s with_acknowledged =
     (if with_acknowledged then serde_read c s (first_closed_index s)
      else serde_read c s (serde_first_index s))"

definition flush_first_index :: "serde_wal \<Rightarrow> serde_wal" where
  "flush_first_index s =
     (case s_first_index s of None \<Rightarrow> s | Some i \<Rightarrow> s\<lparr>first_index_file := Some i\<rparr>)"

definition serde_ack :: "serde_wal \<Rightarrow> nat \<Rightarrow> (serde_error, serde_wal) result" where
  "serde_ack s until =
     and_then (map_err TruncateWalError (prefix_truncate (s_wal s) until))
       (\<lambda>w. let minimal = (case s_first_index s of Some i \<Rightarrow> i | None \<Rightarrow> first_index w);
                new = Some (min (max until minimal) (last_index w));
                s' = s\<lparr>s_wal := w\<rparr>
            in Inr (if s_first_index s \<noteq> new then flush_first_index (s'\<lparr>s_first_index := new\<rparr>)
                    else s'))"

definition serde_flush :: "serde_wal \<Rightarrow> serde_wal" where
  "serde_flush s = s\<lparr>s_wal := flush_open_segment (s_wal s)\<rparr>"

definition set_extended_retention :: "serde_wal \<Rightarrow> serde_wal" where
  "set_extended_retention s = s\<lparr>s_wal :=
     set_retention (s_wal s) (opt_retain_closed (s_options s) * INCREASED_RETENTION_FACTOR)\<rparr>"

definition set_normal_retention :: "serde_wal \<Rightarrow> serde_wal" where
  "set_normal_retention s = s\<lparr>s_wal := set_retention (s_wal s) (opt_retain_closed (s_options s))\<rparr>"

text \<open>The \<open>debug_assert\<close> of \<open>drop_from\<close> is not checked in release builds.\<close>

definition drop_from :: "serde_wal \<Rightarrow> nat \<Rightarrow> (serde_error, serde_wal) result" where
  "drop_from s from_index =
     and_then (map_err TruncateWalError (wal_truncate (s_wal s) from_index))
       (\<lambda>w. Inr (s\<lparr>s_wal := w\<rparr>))"

section \<open>The invariant\<close>

lemmas map_err_simps [result_simps] = map_err_def

definition serde_inv :: "(u32 \<Rightarrow> u8 list \<Rightarrow> u32) \<Rightarrow> serde_wal \<Rightarrow> bool" where
  "serde_inv crcf s \<longleftrightarrow> wal_inv crcf (s_wal s) \<and>
     first_closed_index s \<le> serde_first_index s \<and>
     serde_first_index s \<le> first_closed_index s + num_entries (s_wal s)"

lemma serde_first_index_wal:
  "first_index w = first_index (s_wal s) \<Longrightarrow> serde_first_index (s\<lparr>s_wal := w\<rparr>) = serde_first_index s"
  by (simp add: serde_first_index_def first_closed_index_def split: option.split)

lemma serde_inv_wal:
  assumes "serde_inv crcf s" "wal_inv crcf w" "first_index w = first_index (s_wal s)"
    "num_entries w = num_entries (s_wal s)"
  shows "serde_inv crcf (s\<lparr>s_wal := w\<rparr>)"
  using assms serde_first_index_wal [OF assms(3)] by (simp add: serde_inv_def first_closed_index_def)

lemma serde_end:
  "serde_inv crcf s \<Longrightarrow>
     serde_first_index s + serde_len s False = first_closed_index s + num_entries (s_wal s)"
  by (auto simp: serde_inv_def serde_len_def truncated_prefix_entries_num_def first_closed_index_def)

text \<open>What one index reads as.\<close>

definition read_one :: "'r codec \<Rightarrow> serde_wal \<Rightarrow> nat \<Rightarrow> (serde_error, nat \<times> 'r) result" where
  "read_one c s idx =
     and_then (map_err (\<lambda>_. WalPanic) (wal_entry (s_wal s) idx))
       (\<lambda>e. case e of
           None \<Rightarrow> Inl (ReadWalError idx)
         | Some bs \<Rightarrow> and_then (deserialize_from c bs) (\<lambda>r. Inr (idx, r)))"

lemma read_range_map: "read_range c s a b = map (read_one c s) [a..<b]"
  by (simp add: read_range_def read_one_def)

lemma read_one_cong:
  "wal_entry (s_wal s) i = wal_entry (s_wal s') i \<Longrightarrow> read_one c s i = read_one c s' i"
  by (simp add: read_one_def)

lemma read_all_eq:
  assumes "serde_inv crcf s"
  shows "read_all c s ack = map (read_one c s)
    [if ack then first_closed_index s else serde_first_index s..<first_closed_index s + num_entries (s_wal s)]"
  using serde_end [OF assms] by (simp add: read_all_def serde_read_def read_range_map)

lemma serde_write_spec:
  assumes inv: "serde_inv crcf s" and small: "length raw < 2 ^ 64"
  obtains s' where
    "serde_write crcf fin s raw = Inr (s', first_closed_index s + num_entries (s_wal s))"
    "serde_inv crcf s'" "serde_first_index s' = serde_first_index s"
    "first_closed_index s' = first_closed_index s" "num_entries (s_wal s') = num_entries (s_wal s) + 1"
    "wal_entry (s_wal s') (first_closed_index s + num_entries (s_wal s)) = Inr (Some raw)"
    "\<And>i. i \<noteq> first_closed_index s + num_entries (s_wal s) \<Longrightarrow>
       wal_entry (s_wal s') i = wal_entry (s_wal s) i"
proof -
  have w: "wal_inv crcf (s_wal s)" using inv by (simp add: serde_inv_def)
  obtain w' where w': "wal_append crcf fin (s_wal s) raw = Inr (w', first_index (s_wal s) + num_entries (s_wal s))"
    "wal_inv crcf w'" "first_index w' = first_index (s_wal s)" "num_entries w' = num_entries (s_wal s) + 1"
    "wal_entry w' (first_index (s_wal s) + num_entries (s_wal s)) = Inr (Some raw)"
    "\<And>j. j \<noteq> first_index (s_wal s) + num_entries (s_wal s) \<Longrightarrow> wal_entry w' j = wal_entry (s_wal s) j"
    using wl.append_reads_back [OF w small, of fin] by metis
  show ?thesis
    by (rule that [of "s\<lparr>s_wal := w'\<rparr>"])
      (use w' inv in \<open>auto simp: serde_write_def result_simps first_closed_index_def
        serde_inv_def serde_first_index_def split: option.splits\<close>)
qed

lemma serde_ack_spec:
  assumes inv: "serde_inv crcf s"
  obtains s' where "serde_ack s until = Inr s'" "serde_inv crcf s'"
    "serde_first_index s' = min (max until (serde_first_index s)) (first_closed_index s' + (num_entries (s_wal s') - 1))"
    "first_closed_index s \<le> first_closed_index s'" "first_closed_index s' \<le> max until (first_closed_index s)"
    "first_closed_index s' + num_entries (s_wal s') = first_closed_index s + num_entries (s_wal s)"
    "\<And>j. first_closed_index s' \<le> j \<Longrightarrow> wal_entry (s_wal s') j = wal_entry (s_wal s) j"
    "s_first_index s' = Some (serde_first_index s')"
    "s_first_index s \<noteq> s_first_index s' \<longrightarrow> first_index_file s' = s_first_index s'"
    "s_first_index s = s_first_index s' \<longrightarrow> first_index_file s' = first_index_file s"
proof -
  have w: "wal_inv crcf (s_wal s)" using inv by (simp add: serde_inv_def)
  obtain w' where w': "prefix_truncate (s_wal s) until = Inr w'" "wal_inv crcf w'"
    "first_index (s_wal s) \<le> first_index w'" "first_index w' \<le> max until (first_index (s_wal s))"
    "first_index w' + num_entries w' = first_index (s_wal s) + num_entries (s_wal s)"
    "\<And>j. first_index w' \<le> j \<Longrightarrow> wal_entry w' j = wal_entry (s_wal s) j"
    using wl.prefix_reads [OF w, of until] by metis
  define new where "new = min (max until (case s_first_index s of Some i \<Rightarrow> i | None \<Rightarrow> first_index w')) (last_index w')"
  define s' where "s' = s\<lparr>s_wal := w', s_first_index := Some new,
    first_index_file := (if s_first_index s \<noteq> Some new then Some new else first_index_file s)\<rparr>"
  have eq: "serde_ack s until = Inr s'"
    using w'(1) by (cases s)
      (simp add: serde_ack_def result_simps s'_def new_def flush_first_index_def Let_def)
  have new: "new = min (max until (serde_first_index s)) (first_index w' + (num_entries w' - 1))"
    using w'(3,4) by (auto simp: new_def serde_first_index_def first_closed_index_def last_index_def
        split: option.splits)
  have "first_index w' \<le> new"
    using w'(3-5) inv new by (auto simp: serde_inv_def first_closed_index_def)
  then have "serde_inv crcf s'"
    using w'(2) new by (auto simp: serde_inv_def s'_def first_closed_index_def serde_first_index_def)
  with eq w' new show ?thesis
    by (intro that [of s']) (simp_all add: s'_def first_closed_index_def serde_first_index_def)
qed

lemma drop_from_spec:
  assumes inv: "serde_inv crcf s" and i: "first_closed_index s < i" "serde_first_index s \<le> i"
  obtains s' where "drop_from s i = Inr s'" "serde_inv crcf s'"
    "serde_first_index s' = serde_first_index s" "first_closed_index s' = first_closed_index s"
    "num_entries (s_wal s') = min (num_entries (s_wal s)) (i - first_closed_index s)"
    "\<And>j. wal_entry (s_wal s') j = (if j < i then wal_entry (s_wal s) j else Inr None)"
proof -
  have w: "wal_inv crcf (s_wal s)" and i': "first_index (s_wal s) < i"
    using inv i by (simp_all add: serde_inv_def first_closed_index_def)
  obtain w' where w': "wal_truncate (s_wal s) i = Inr w'" "wal_inv crcf w'"
    "first_index w' = first_index (s_wal s)"
    "num_entries w' = min (num_entries (s_wal s)) (i - first_index (s_wal s))"
    "\<And>j. wal_entry w' j = (if j < i then wal_entry (s_wal s) j else Inr None)"
    using wl.truncate_reads [OF w i'] by metis
  have fi: "serde_first_index (s\<lparr>s_wal := w'\<rparr>) = serde_first_index s"
    by (rule serde_first_index_wal [OF w'(3)])
  show ?thesis
    by (rule that [of "s\<lparr>s_wal := w'\<rparr>"])
      (use w' inv fi i in \<open>auto simp: drop_from_def result_simps first_closed_index_def serde_inv_def\<close>)
qed

section \<open>Reachable logs\<close>

inductive serde_reach :: "(u32 \<Rightarrow> u8 list \<Rightarrow> u32) \<Rightarrow> serde_wal \<Rightarrow> bool" for crcf where
  opened: "serde_new sd fin opts opens closed f = Inr s \<Longrightarrow> HEADER_LEN \<le> opt_segment_capacity opts \<Longrightarrow>
    1 \<le> opt_retain_closed opts \<Longrightarrow> \<forall>g \<in> snd ` set opens. seg_reach crcf g \<Longrightarrow>
    \<forall>c \<in> set closed. seg_reach crcf (c_segment c) \<Longrightarrow> serde_reach crcf s"
| written: "serde_reach crcf s \<Longrightarrow> length raw < 2 ^ 64 \<Longrightarrow> serde_write crcf fin s raw = Inr (s', i) \<Longrightarrow>
    serde_reach crcf s'"
| ack: "serde_reach crcf s \<Longrightarrow> serde_ack s i = Inr s' \<Longrightarrow> serde_reach crcf s'"
| flush: "serde_reach crcf s \<Longrightarrow> serde_reach crcf (serde_flush s)"
| extended: "serde_reach crcf s \<Longrightarrow> serde_reach crcf (set_extended_retention s)"
| normal: "serde_reach crcf s \<Longrightarrow> serde_reach crcf (set_normal_retention s)"
| drop: "serde_reach crcf s \<Longrightarrow> first_closed_index s < i \<Longrightarrow> serde_first_index s \<le> i \<Longrightarrow>
    drop_from s i = Inr s' \<Longrightarrow> serde_reach crcf s'"

lemma serde_new_inv:
  assumes new: "serde_new sd fin opts opens closed f = Inr s"
    and "HEADER_LEN \<le> opt_segment_capacity opts" "1 \<le> opt_retain_closed opts"
    "\<forall>g \<in> snd ` set opens. seg_reach crcf g" "\<forall>c \<in> set closed. seg_reach crcf (c_segment c)"
  shows "serde_inv crcf s"
proof -
  obtain w where w: "with_options sd fin (opt_segment_capacity opts) (opt_segment_queue_len opts)
      (opt_retain_closed opts) opens closed = Inr w"
    and s: "s = \<lparr>s_wal = w, s_options = opts, s_first_index =
        (case f of None \<Rightarrow> None | Some a \<Rightarrow> Some (min (max a (first_index w)) (last_index w))),
        first_index_file = f\<rparr>"
    using new by (auto simp: serde_new_def result_simps Let_def split: sum.splits)
  have "wal_inv crcf w"
    using with_options_spec [OF w assms(2,3), of crcf] seg_reach_inv assms(4,5) by blast
  then show ?thesis
    by (auto simp: s serde_inv_def first_closed_index_def serde_first_index_def last_index_def
        split: option.splits)
qed

lemma retention_inv:
  assumes "serde_inv crcf s"
  shows "serde_inv crcf (s\<lparr>s_wal := set_retention (s_wal s) n\<rparr>)"
  using assms by (intro serde_inv_wal [OF assms])
    (auto simp: serde_inv_def wal_inv_def set_retention_def first_index_def num_entries_def
      open_segment_start_index_def)

lemma flush_inv: "serde_inv crcf s \<Longrightarrow> serde_inv crcf (serde_flush s)"
  unfolding serde_flush_def using wl.flush [of crcf "s_wal s"] wl.num [of crcf]
  by (intro serde_inv_wal) (auto simp: serde_inv_def)

lemma serde_reach_inv: "serde_reach crcf s \<Longrightarrow> serde_inv crcf s"
proof (induction rule: serde_reach.induct)
  case (opened sd fin opts opens closed f s)
  then show ?case by (rule serde_new_inv)
next
  case (written s raw fin s' i)
  from serde_write_spec [OF written.IH written.hyps(2), of fin] written.hyps(3) show ?case by auto
next
  case (ack s i s')
  from serde_ack_spec [OF ack.IH, of i] ack.hyps(2) show ?case by auto
next
  case (drop s i s')
  from drop_from_spec [OF drop.IH drop.hyps(2,3)] drop.hyps(4) show ?case by auto
qed (simp_all add: flush_inv set_extended_retention_def set_normal_retention_def retention_inv)

section \<open>Properties\<close>

text \<open>The CBOR library reads back what it wrote.\<close>

definition codec_ok :: "'r codec \<Rightarrow> bool" where
  "codec_ok c \<longleftrightarrow> (\<forall>r bs. cbor_to_vec c r = Some bs \<longrightarrow> cbor_from_slice c bs = Some r)"

text \<open>C39: A record written to a reachable log is read back as the newest record: reading the
  whole log, with or without the acknowledged prefix, gives what it gave before followed by the
  new record under the index the write returned.\<close>

theorem serde_write_read_roundtrip:
  assumes "serde_reach crcf s" "codec_ok c" "raw_record_new c r = Inr raw" "length raw < 2 ^ 64"
  shows "\<exists>s' n. serde_write crcf fin s raw = Inr (s', n) \<and>
    read_all c s' ack = read_all c s ack @ [Inr (n, r)] \<and> serde_len s' ack = serde_len s ack + 1"
proof -
  note inv = serde_reach_inv [OF assms(1)]
  let ?n = "first_closed_index s + num_entries (s_wal s)"
  let ?a = "if ack then first_closed_index s else serde_first_index s"
  obtain s' where s': "serde_write crcf fin s raw = Inr (s', ?n)" "serde_inv crcf s'"
    "serde_first_index s' = serde_first_index s" "first_closed_index s' = first_closed_index s"
    "num_entries (s_wal s') = num_entries (s_wal s) + 1" "wal_entry (s_wal s') ?n = Inr (Some raw)"
    "\<And>i. i \<noteq> ?n \<Longrightarrow> wal_entry (s_wal s') i = wal_entry (s_wal s) i"
    using serde_write_spec [OF inv assms(4), of fin] by metis
  have le: "?a \<le> ?n" using inv by (simp add: serde_inv_def)
  have dec: "deserialize_from c raw = Inr r"
    using assms(2,3) by (auto simp: codec_ok_def raw_record_new_def deserialize_from_def
        split: option.splits)
  have "read_all c s' ack = map (read_one c s') [?a..<?n] @ [read_one c s' ?n]"
    using read_all_eq [OF s'(2), of c ack] s'(3-5) le by (cases ack) simp_all
  also have "map (read_one c s') [?a..<?n] = read_all c s ack"
    unfolding read_all_eq [OF inv]
    by (rule map_cong [OF refl], rule read_one_cong, rule s'(7)) auto
  also have "read_one c s' ?n = Inr (?n, r)"
    using s'(6) dec by (simp add: read_one_def result_simps)
  finally have "read_all c s' ack = read_all c s ack @ [Inr (?n, r)]" .
  moreover have "serde_len s' ack = serde_len s ack + 1"
    using s'(3-5) serde_end [OF inv] serde_end [OF s'(2)] by (cases ack) (auto simp: serde_len_def)
  ultimately show ?thesis using s'(1) by blast
qed

text \<open>Acknowledging up to an index inside a reachable log removes exactly the records below
  it from the logical log (the record at the index itself stays), never moves the first index
  back, and remembers the new first index in the \<open>first-index\<close> file.\<close>

lemma serde_ack_functional:
  assumes "serde_reach crcf s" "serde_first_index s \<le> until"
    "until < serde_first_index s + serde_len s False" "s_first_index s = None \<or> first_index_file s = s_first_index s"
  shows "\<exists>s'. serde_ack s until = Inr s' \<and> serde_first_index s' = until \<and>
    read_all c s' False = drop (until - serde_first_index s) (read_all c s False) \<and>
    first_index_file s' = Some until"
proof -
  note inv = serde_reach_inv [OF assms(1)]
  obtain s' where s': "serde_ack s until = Inr s'" "serde_inv crcf s'"
    "serde_first_index s' = min (max until (serde_first_index s)) (first_closed_index s' + (num_entries (s_wal s') - 1))"
    "first_closed_index s' \<le> max until (first_closed_index s)"
    "first_closed_index s' + num_entries (s_wal s') = first_closed_index s + num_entries (s_wal s)"
    "\<And>j. first_closed_index s' \<le> j \<Longrightarrow> wal_entry (s_wal s') j = wal_entry (s_wal s) j"
    "s_first_index s' = Some (serde_first_index s')"
    "s_first_index s \<noteq> s_first_index s' \<longrightarrow> first_index_file s' = s_first_index s'"
    "s_first_index s = s_first_index s' \<longrightarrow> first_index_file s' = first_index_file s"
    using serde_ack_spec [OF inv, of until] by metis
  let ?n = "first_closed_index s + num_entries (s_wal s)"
  have lt: "until < ?n" using assms(3) serde_end [OF inv] by simp
  have le: "first_closed_index s' \<le> until"
    using s'(4) assms(2) inv by (simp add: serde_inv_def)
  have fi: "serde_first_index s' = until"
    using s'(3,5) lt assms(2) le by auto
  have "read_all c s' False = map (read_one c s') [until..<?n]"
    using read_all_eq [OF s'(2), of c False] fi s'(5) by simp
  also have "\<dots> = map (read_one c s) [until..<?n]"
    by (rule map_cong [OF refl], rule read_one_cong, rule s'(6)) (use le in auto)
  also have "\<dots> = drop (until - serde_first_index s) (read_all c s False)"
    using assms(2) by (simp add: read_all_eq [OF inv] drop_map)
  finally have "read_all c s' False = drop (until - serde_first_index s) (read_all c s False)" .
  moreover have "first_index_file s' = Some until"
    using s'(7-9) fi assms(4) by (cases "s_first_index s = s_first_index s'") auto
  ultimately show ?thesis using s'(1) fi by blast
qed

text \<open>Dropping the tail of a reachable log from an index inside it keeps exactly the records
  below the index.\<close>

lemma serde_drop_from_functional:
  assumes "serde_reach crcf s" "first_closed_index s < i" "serde_first_index s \<le> i"
    "i \<le> serde_first_index s + serde_len s False"
  shows "\<exists>s'. drop_from s i = Inr s' \<and>
    read_all c s' False = take (i - serde_first_index s) (read_all c s False)"
proof -
  note inv = serde_reach_inv [OF assms(1)]
  obtain s' where s': "drop_from s i = Inr s'" "serde_inv crcf s'"
    "serde_first_index s' = serde_first_index s" "first_closed_index s' = first_closed_index s"
    "num_entries (s_wal s') = min (num_entries (s_wal s)) (i - first_closed_index s)"
    "\<And>j. wal_entry (s_wal s') j = (if j < i then wal_entry (s_wal s) j else Inr None)"
    using drop_from_spec [OF inv assms(2,3)] by metis
  have n: "first_closed_index s' + num_entries (s_wal s') = i"
    using s'(4,5) assms(2,4) serde_end [OF inv] by simp
  have "read_all c s' False = map (read_one c s') [serde_first_index s..<i]"
    using read_all_eq [OF s'(2), of c False] n s'(3) by simp
  also have "\<dots> = map (read_one c s) [serde_first_index s..<i]"
    by (rule map_cong [OF refl], rule read_one_cong) (use s'(6) in auto)
  also have "\<dots> = take (i - serde_first_index s) (read_all c s False)"
    using assms(3,4) serde_end [OF inv] by (simp add: read_all_eq [OF inv] take_map)
  finally show ?thesis using s'(1) by blast
qed

text \<open>Dropping from the very first physically retained index empties the physical log and
  restarts its numbering at 0, while the logical first index stays: the records written next
  are not part of the logical log until as many were written as the first index says.\<close>

lemma serde_drop_all_hides_writes:
  assumes "serde_reach crcf s" "s_first_index s = Some (first_closed_index s)"
    "closed_segments (s_wal s) = d # ds" "\<not> seg_is_empty (c_segment d)"
    "0 < first_closed_index s" "length raw < 2 ^ 64"
  shows "\<exists>s' s'' n. drop_from s (first_closed_index s) = Inr s' \<and>
    serde_write crcf fin s' raw = Inr (s'', n) \<and> n = 0 \<and>
    wal_entry (s_wal s'') 0 = Inr (Some raw) \<and> read_all c s'' False = []"
proof -
  note inv = serde_reach_inv [OF assms(1)]
  have w: "wal_inv crcf (s_wal s)" using inv by (simp add: serde_inv_def)
  obtain w' where w': "wal_truncate (s_wal s) (first_closed_index s) = Inr w'" "wal_inv crcf w'"
    "wal_entries w' = []" "first_index w' = 0"
    using wal_truncate_first_restarts [OF w assms(3,4)] by (auto simp: first_closed_index_def)
  obtain w'' where w'': "wal_append crcf fin w' raw = Inr (w'', 0)" "num_entries w'' = 1"
    "wal_entry w'' 0 = Inr (Some raw)" "first_index w'' = 0"
    using wl.append_reads_back [OF w'(2) assms(6), of fin] wl.num [OF w'(2)] w'(3,4)
    by (metis One_nat_def add.left_neutral list.size(3) plus_1_eq_Suc add.right_neutral)
  let ?s' = "s\<lparr>s_wal := w'\<rparr>" and ?s'' = "s\<lparr>s_wal := w''\<rparr>"
  have "read_all c ?s'' False = []"
    using w''(2,4) assms(2,5)
    by (simp add: read_all_def serde_read_def read_range_def serde_first_index_def serde_len_def
        truncated_prefix_entries_num_def)
  moreover have "drop_from s (first_closed_index s) = Inr ?s'"
    using w'(1) by (simp add: drop_from_def result_simps)
  moreover have "serde_write crcf fin ?s' raw = Inr (?s'', 0)"
    using w''(1) by (simp add: serde_write_def result_simps)
  ultimately show ?thesis using w''(3) by force
qed

section \<open>Witnesses\<close>

definition codec_example :: "u8 list codec" where
  "codec_example = \<lparr>cbor_to_vec = Some, cbor_from_slice = Some, rmp_from_slice = (\<lambda>_. None)\<rparr>"

definition serde_options_example :: serde_options where
  "serde_options_example = \<lparr>opt_segment_capacity = 64, opt_segment_queue_len = 1, opt_retain_closed = 1\<rparr>"

definition serde_example :: serde_wal where
  "serde_example = \<lparr>s_wal = wal_example, s_options = serde_options_example,
     s_first_index = Some 3, first_index_file = Some 3\<rparr>"

lemma codec_ok_example: "codec_ok codec_example"
  by (simp add: codec_ok_def codec_example_def)

lemma serde_reach_example: "serde_reach crc_example serde_example"
proof (rule serde_reach.opened)
  show "serde_new (\<lambda>i. of_nat i) True serde_options_example [(4, seg_example)]
      [\<lparr>start_index = 3, c_segment = seg_example\<rparr>] (Some 3) = Inr serde_example"
    using wal_example_opened wal_example_num wal_example_entries
    by (simp add: serde_new_def serde_options_example_def result_simps serde_example_def last_index_def)
qed (simp_all add: serde_options_example_def seg_reach_example HEADER_LEN_def)

lemma serde_example_indices: "first_closed_index serde_example = 3" "serde_first_index serde_example = 3"
  "serde_len serde_example b = 2" "s_first_index serde_example = Some 3"
  "first_index_file serde_example = Some 3" "s_wal serde_example = wal_example"
  using wal_example_num wal_example_entries
  by (simp_all add: first_closed_index_def serde_first_index_def serde_len_def
      truncated_prefix_entries_num_def serde_example_def)

lemma wal_example_closed:
  "closed_segments wal_example = [\<lparr>start_index = 3, c_segment = seg_example\<rparr>]"
  using arg_cong [OF wal_example_opened, of "\<lambda>r. closed_segments (projr r)"] seg_example_entries
  by (simp add: with_options_def result_simps seg_is_empty_entries Let_def)

theorem serde_write_read_roundtrip_witness:
  "\<exists>s' n. serde_write crc_example True serde_example [5] = Inr (s', n) \<and>
     read_all codec_example s' True = read_all codec_example serde_example True @ [Inr (n, [5])]"
  using serde_write_read_roundtrip [OF serde_reach_example codec_ok_example, of "[5]" "[5]" True True]
  by (auto simp: raw_record_new_def codec_example_def)

end
