(* ===== verification/ClockMap.thy ===== *)
theory ClockMap
  imports Prelude
begin

text \<open>
  \<open>lib/collection/src/shards/local_shard/clock_map.rs\<close> and \<open>ClockTag\<close> of
  \<open>lib/shard/src/operations/mod.rs\<close>: the logical clocks a replica has seen
  (\<open>ClockMap\<close>), when an operation with a clock tag is accepted, snapshots of the clocks,
  recovery points and their set operations, and the helper types the map is saved as.
  Ticks are \<open>u64\<close> and keep their width: \<open>+\<close> wraps, as in the release profile.
\<close>

section \<open>Clock tags\<close>

record clock_tag =
  ct_peer_id :: u64
  ct_clock_id :: u32
  ct_clock_tick :: u64
  ct_token :: u64
  ct_force :: bool

definition clock_tag_new_with_token :: "u64 \<Rightarrow> u32 \<Rightarrow> u64 \<Rightarrow> u64 \<Rightarrow> clock_tag" where
  "clock_tag_new_with_token peer clock tick tok =
     \<lparr>ct_peer_id = peer, ct_clock_id = clock, ct_clock_tick = tick, ct_token = tok,
      ct_force = False\<rparr>"

definition clock_tag_force :: "clock_tag \<Rightarrow> bool \<Rightarrow> clock_tag" where
  "clock_tag_force tag f = tag\<lparr>ct_force := f\<rparr>"

section \<open>Keys and clocks\<close>

record clock_key =
  key_peer_id :: u64
  key_clock_id :: u32

definition key_new :: "u64 \<Rightarrow> u32 \<Rightarrow> clock_key" where
  "key_new peer clock = \<lparr>key_peer_id = peer, key_clock_id = clock\<rparr>"

definition key_from_tag :: "clock_tag \<Rightarrow> clock_key" where
  "key_from_tag tag = key_new (ct_peer_id tag) (ct_clock_id tag)"

record clock =
  current_tick :: u64
  clock_token :: u64

definition clock_new :: "u64 \<Rightarrow> u64 \<Rightarrow> clock" where
  "clock_new tick tok = \<lparr>current_tick = tick, clock_token = tok\<rparr>"

text \<open>\<open>Clock::advance_to\<close>: the new clock, whether it was accepted, and the current tick.\<close>

definition advance_to :: "clock \<Rightarrow> u64 \<Rightarrow> u64 \<Rightarrow> clock \<times> bool \<times> u64" where
  "advance_to c new_tick new_token =
     (let c' = (if current_tick c < new_tick
                then c\<lparr>current_tick := new_tick, clock_token := new_token\<rparr> else c)
      in (c', current_tick c' = new_tick \<and> clock_token c' = new_token, current_tick c'))"

section \<open>The clock map\<close>

record clock_map =
  clocks :: "(clock_key, clock) hashmap"
  snapshot :: "(clock_key, clock) hashmap option"
  changed :: bool

definition clock_map_default :: clock_map where
  "clock_map_default = \<lparr>clocks = [], snapshot = None, changed = False\<rparr>"

definition advance_clock_impl :: "clock_map \<Rightarrow> clock_tag \<Rightarrow> clock_map \<times> bool \<times> u64" where
  "advance_clock_impl cm tag =
     (let key = key_from_tag tag;
          new_tick = ct_clock_tick tag;
          new_token = ct_token tag;
          (clks, is_accepted, tick) =
            (case map_of (clocks cm) key of
               Some c \<Rightarrow>
                 (let (c', acc, t) = advance_to c new_tick new_token
                  in (AList.update key c' (clocks cm), acc, t))
             | None \<Rightarrow>
                 (let is_non_zero_tick = (0 < new_tick)
                  in (if is_non_zero_tick
                      then AList.update key (clock_new new_tick new_token) (clocks cm)
                      else clocks cm,
                      is_non_zero_tick, new_tick)))
      in (cm\<lparr>clocks := clks, changed := (if is_accepted then True else changed cm)\<rparr>,
          is_accepted, tick))"

definition advance_clock :: "clock_map \<Rightarrow> clock_tag \<Rightarrow> clock_map" where
  "advance_clock cm tag = fst (advance_clock_impl cm tag)"

text \<open>
  The tag is a \<open>&mut\<close> argument: it comes back corrected. Result: the map, the tag, and
  whether the operation is accepted.
\<close>

definition advance_clock_and_correct_tag ::
  "clock_map \<Rightarrow> clock_tag \<Rightarrow> clock_map \<times> clock_tag \<times> bool" where
  "advance_clock_and_correct_tag cm tag =
     (let (cm', clock_accepted, cur) = advance_clock_impl cm tag;
          operation_accepted = (clock_accepted \<or> ct_force tag);
          tag' = (if \<not> operation_accepted then tag\<lparr>ct_clock_tick := cur\<rparr> else tag)
      in (cm', tag', operation_accepted))"

definition take_snapshot :: "clock_map \<Rightarrow> clock_map \<times> bool" where
  "take_snapshot cm =
     (case snapshot cm of
        Some _ \<Rightarrow> (cm, False)
      | None \<Rightarrow> (cm\<lparr>snapshot := Some (clocks cm), changed := True\<rparr>, True))"

definition clear_snapshot :: "clock_map \<Rightarrow> clock_map \<times> bool" where
  "clear_snapshot cm =
     (case snapshot cm of
        None \<Rightarrow> (cm, False)
      | Some _ \<Rightarrow> (cm\<lparr>snapshot := None, changed := True\<rparr>, True))"

section \<open>Recovery points\<close>

type_synonym recovery_point = "(clock_key, u64 \<times> u64) hashmap"

definition to_recovery_point :: "clock_map \<Rightarrow> recovery_point" where
  "to_recovery_point cm =
     (let clks = (case snapshot cm of Some s \<Rightarrow> s | None \<Rightarrow> clocks cm)
      in map (\<lambda>(key, c). (key, (current_tick c, clock_token c))) clks)"

definition rp_is_empty :: "recovery_point \<Rightarrow> bool" where
  "rp_is_empty rp = (rp = [])"

definition iter_as_clock_tags :: "recovery_point \<Rightarrow> clock_tag list" where
  "iter_as_clock_tags rp =
     map (\<lambda>(key, tick, tok).
            clock_tag_new_with_token (key_peer_id key) (key_clock_id key) tick tok) rp"

definition increase_all_clocks_by :: "u64 \<Rightarrow> recovery_point \<Rightarrow> recovery_point" where
  "increase_all_clocks_by ticks rp = map (\<lambda>(key, v). (key, (fst v + ticks, snd v))) rp"

definition has_clocks_not_in :: "recovery_point \<Rightarrow> recovery_point \<Rightarrow> bool" where
  "has_clocks_not_in rp other = list_ex (\<lambda>key. map_of other key = None) (hm_keys rp)"

definition has_any_newer_clocks_than :: "recovery_point \<Rightarrow> recovery_point \<Rightarrow> bool" where
  "has_any_newer_clocks_than rp other =
     list_ex (\<lambda>(key, tick, _). case map_of other key of
                 None \<Rightarrow> True
               | Some (other_tick, _) \<Rightarrow> other_tick < tick) rp"

definition has_any_older_clocks_than :: "recovery_point \<Rightarrow> recovery_point \<Rightarrow> bool" where
  "has_any_older_clocks_than rp other =
     list_ex (\<lambda>(key, tick, _). case map_of other key of
                 None \<Rightarrow> False
               | Some (other_tick, _) \<Rightarrow> tick < other_tick) rp"

text \<open>\<open>random_token\<close> is the value \<open>rand::random()\<close> returned: an argument.\<close>

definition initialize_clocks_missing_from ::
  "u64 \<Rightarrow> recovery_point \<Rightarrow> recovery_point \<Rightarrow> recovery_point" where
  "initialize_clocks_missing_from random_token rp other =
     foldl (\<lambda>acc key. case map_of acc key of
               None \<Rightarrow> AList.update key (1, random_token) acc
             | Some _ \<Rightarrow> acc) rp (hm_keys other)"

definition remove_clocks_equal_to :: "recovery_point \<Rightarrow> recovery_point \<Rightarrow> recovery_point" where
  "remove_clocks_equal_to rp other =
     foldl (\<lambda>acc (key, other_tick, _). case map_of acc key of
               Some (tick, _) \<Rightarrow> if tick = other_tick then AList.delete key acc else acc
             | None \<Rightarrow> acc) rp other"

definition remove_clock_if_newer_or_equal_to_tag ::
  "recovery_point \<Rightarrow> clock_tag \<Rightarrow> recovery_point \<times> bool" where
  "remove_clock_if_newer_or_equal_to_tag rp tag =
     (let key = key_from_tag tag
      in case map_of rp key of
           Some (tick, _) \<Rightarrow>
             if ct_clock_tick tag \<le> tick
             then (AList.delete key rp, tick = ct_clock_tick tag)
             else (rp, False)
         | None \<Rightarrow> (rp, False))"

section \<open>The saved form\<close>

record clock_map_helper =
  helper_clocks :: "(clock_key \<times> clock) list"
  helper_snapshot :: "(clock_key \<times> clock) list option"

definition helper_of_clock_map :: "clock_map \<Rightarrow> clock_map_helper" where
  "helper_of_clock_map cm =
     \<lparr>helper_clocks = clocks cm, helper_snapshot = snapshot cm\<rparr>"

text \<open>Collecting into a \<open>HashMap\<close>: a later entry for a key replaces an earlier one.\<close>

definition hm_collect :: "('k \<times> 'v) list \<Rightarrow> ('k, 'v) hashmap" where
  "hm_collect xs = foldl (\<lambda>acc (k, v). AList.update k v acc) [] xs"

definition clock_map_of_helper :: "clock_map_helper \<Rightarrow> clock_map" where
  "clock_map_of_helper h =
     \<lparr>clocks = hm_collect (helper_clocks h),
      snapshot = map_option hm_collect (helper_snapshot h),
      changed = False\<rparr>"

text \<open>
  \<open>store\<close> writes the map and clears the flag, \<open>store_if_changed\<close> only writes a changed
  map. The file is the helper value: the second component is what the file holds after.
\<close>

definition store :: "clock_map \<Rightarrow> clock_map \<times> clock_map_helper" where
  "store cm = (cm\<lparr>changed := False\<rparr>, helper_of_clock_map cm)"

definition store_if_changed ::
  "clock_map \<Rightarrow> clock_map_helper option \<Rightarrow> clock_map \<times> clock_map_helper option" where
  "store_if_changed cm file =
     (if changed cm then (let (cm', f) = store cm in (cm', Some f)) else (cm, file))"

text \<open>A missing file (\<open>NotFound\<close>) loads as the default map.\<close>

definition load_or_default :: "clock_map_helper option \<Rightarrow> clock_map" where
  "load_or_default file =
     (case file of None \<Rightarrow> clock_map_default | Some h \<Rightarrow> clock_map_of_helper h)"

section \<open>What a clock map holds\<close>

text \<open>The tick a map knows for a clock; an unknown clock counts as tick 0.\<close>

definition tick_of :: "clock_map \<Rightarrow> clock_key \<Rightarrow> u64" where
  "tick_of cm key = (case map_of (clocks cm) key of None \<Rightarrow> 0 | Some c \<Rightarrow> current_tick c)"

text \<open>Keys are distinct and no tracked clock has tick 0.\<close>

definition clock_map_inv :: "clock_map \<Rightarrow> bool" where
  "clock_map_inv cm \<longleftrightarrow>
     hm_wf (clocks cm) \<and> (\<forall>c \<in> snd ` set (clocks cm). 0 < current_tick c) \<and>
     (case snapshot cm of None \<Rightarrow> True | Some s \<Rightarrow> hm_wf s)"

lemma clock_map_inv_default: "clock_map_inv clock_map_default"
  by (simp add: clock_map_inv_def clock_map_default_def)

lemma clock_map_inv_tick:
  "clock_map_inv cm \<Longrightarrow> map_of (clocks cm) k = Some c \<Longrightarrow> 0 < current_tick c"
  by (auto simp: clock_map_inv_def dest!: map_of_SomeD)

lemma advance_to_simps:
  "advance_to c t tok =
     (if current_tick c < t then (c\<lparr>current_tick := t, clock_token := tok\<rparr>, True, t)
      else (c, current_tick c = t \<and> clock_token c = tok, current_tick c))"
  by (simp add: advance_to_def)

lemma advance_clock_impl_map:
  "map_of (clocks (fst (advance_clock_impl cm tag))) =
     (if tick_of cm (key_from_tag tag) < ct_clock_tick tag
      then (map_of (clocks cm))(key_from_tag tag \<mapsto>
              clock_new (ct_clock_tick tag) (ct_token tag))
      else map_of (clocks cm))"
  by (auto simp: advance_clock_impl_def Let_def tick_of_def advance_to_simps
      hashmap_simps clock_new_def fun_eq_iff split: option.splits)

lemma advance_clock_impl_accepted:
  "fst (snd (advance_clock_impl cm tag)) \<longleftrightarrow>
     tick_of cm (key_from_tag tag) < ct_clock_tick tag \<or>
     map_of (clocks cm) (key_from_tag tag) =
       Some (clock_new (ct_clock_tick tag) (ct_token tag))"
  by (auto simp: advance_clock_impl_def Let_def tick_of_def advance_to_simps clock_new_def
      split: option.splits)

lemma advance_clock_impl_frame [simp]:
  "snapshot (fst (advance_clock_impl cm tag)) = snapshot cm"
  by (simp add: advance_clock_impl_def Let_def split_beta)

lemma advance_clock_impl_changed:
  "changed (fst (advance_clock_impl cm tag)) =
     (changed cm \<or> fst (snd (advance_clock_impl cm tag)))"
  by (simp add: advance_clock_impl_def Let_def split_beta)

lemma advance_clock_impl_tick:
  "snd (snd (advance_clock_impl cm tag)) =
     max (tick_of cm (key_from_tag tag)) (ct_clock_tick tag)"
  by (auto simp: advance_clock_impl_def Let_def tick_of_def advance_to_simps max_def
      split: option.splits)

lemma tick_of_advance_impl:
  "tick_of (fst (advance_clock_impl cm tag)) k =
     (if k = key_from_tag tag then max (tick_of cm k) (ct_clock_tick tag) else tick_of cm k)"
  by (auto simp: tick_of_def [of "fst _"] advance_clock_impl_map max_def clock_new_def)
    (auto simp: tick_of_def)

lemma tick_of_advance:
  "tick_of (advance_clock cm tag) k =
     (if k = key_from_tag tag then max (tick_of cm k) (ct_clock_tick tag) else tick_of cm k)"
  by (simp add: advance_clock_def tick_of_advance_impl)

lemma clock_map_inv_advance_impl:
  assumes "clock_map_inv cm"
  shows "clock_map_inv (fst (advance_clock_impl cm tag))"
proof -
  let ?m = "clocks (fst (advance_clock_impl cm tag))"
  have wf: "hm_wf ?m"
    using assms
    by (simp add: clock_map_inv_def advance_clock_impl_def Let_def advance_to_simps
        split: option.split)
  have "0 < current_tick c" if "(k, c) \<in> set ?m" for k c
  proof -
    have "map_of ?m k = Some c" by (rule iffD1 [OF in_map_of [OF wf] that])
    then consider "map_of (clocks cm) k = Some c" |
      "tick_of cm (key_from_tag tag) < current_tick c"
      by (auto simp: advance_clock_impl_map clock_new_def split: if_splits)
    then show ?thesis
      by cases (auto intro: clock_map_inv_tick [OF assms] le_less_trans [OF word_zero_le])
  qed
  with wf assms show ?thesis by (auto simp: clock_map_inv_def)
qed

lemma advance_and_correct_unfold:
  "advance_clock_and_correct_tag cm tag =
     (let r = advance_clock_impl cm tag; ok = (fst (snd r) \<or> ct_force tag)
      in (fst r, if ok then tag else tag\<lparr>ct_clock_tick := snd (snd r)\<rparr>, ok))"
  by (simp add: advance_clock_and_correct_tag_def Let_def split_beta)

section \<open>Recovery points as maps\<close>

lemma map_of_increase [hashmap_simps]:
  "map_of (increase_all_clocks_by n rp) k =
     map_option (\<lambda>v. (fst v + n, snd v)) (map_of rp k)"
  by (simp add: increase_all_clocks_by_def map_of_map_values)

lemma hm_wf_increase [simp]: "hm_wf (increase_all_clocks_by n rp) = hm_wf rp"
  unfolding increase_all_clocks_by_def by (rule hm_wf_map_values)

lemma has_clocks_not_in_iff:
  "has_clocks_not_in rp other \<longleftrightarrow> \<not> dom (map_of rp) \<subseteq> dom (map_of other)"
  by (auto simp: has_clocks_not_in_def list_ex_iff dom_map_of_conv_image_fst subset_iff
      map_of_eq_None_iff)

lemma has_newer_iff:
  assumes "hm_wf rp"
  shows "has_any_newer_clocks_than rp other \<longleftrightarrow>
     (\<exists>k t tok. map_of rp k = Some (t, tok) \<and>
        (case map_of other k of None \<Rightarrow> True | Some (t', _) \<Rightarrow> t' < t))"
  using in_map_of [OF assms] by (fastforce simp: has_any_newer_clocks_than_def list_ex_iff)

lemma has_older_iff:
  assumes "hm_wf rp"
  shows "has_any_older_clocks_than rp other \<longleftrightarrow>
     (\<exists>k t tok t' tok'. map_of rp k = Some (t, tok) \<and> map_of other k = Some (t', tok') \<and> t < t')"
  using in_map_of [OF assms]
  by (fastforce simp: has_any_older_clocks_than_def list_ex_iff split: option.splits)

lemma initialize_missing_foldl:
  "map_of (foldl (\<lambda>acc key. case map_of acc key of
               None \<Rightarrow> AList.update key (1, tok) acc | Some _ \<Rightarrow> acc) rp ks) k =
     (case map_of rp k of Some v \<Rightarrow> Some v
      | None \<Rightarrow> if k \<in> set ks then Some (1, tok) else None)"
  by (induction ks arbitrary: rp) (auto simp: hashmap_simps split: option.splits)

lemma map_of_initialize [hashmap_simps]:
  "map_of (initialize_clocks_missing_from tok rp other) k =
     (case map_of rp k of Some v \<Rightarrow> Some v
      | None \<Rightarrow> if k \<in> dom (map_of other) then Some (1, tok) else None)"
  by (simp add: initialize_clocks_missing_from_def initialize_missing_foldl
      dom_map_of_conv_image_fst split: option.split)

lemma hm_wf_initialize [simp]:
  assumes "hm_wf rp"
  shows "hm_wf (initialize_clocks_missing_from tok rp other)"
proof -
  have "hm_wf (foldl (\<lambda>acc key. case map_of acc key of
           None \<Rightarrow> AList.update key (1, tok) acc | Some _ \<Rightarrow> acc) rp ks)" for ks
    using assms by (induction ks arbitrary: rp) (auto split: option.split)
  then show ?thesis by (simp add: initialize_clocks_missing_from_def)
qed

lemma remove_equal_foldl:
  assumes "hm_wf other"
  shows "map_of (foldl (\<lambda>acc (key, other_tick, _). case map_of acc key of
               Some (tick, _) \<Rightarrow> if tick = other_tick then AList.delete key acc else acc
             | None \<Rightarrow> acc) rp other) k =
     (case (map_of rp k, map_of other k) of
        (Some (t, tok), Some (t', _)) \<Rightarrow> if t = t' then None else Some (t, tok)
      | (v, _) \<Rightarrow> v)"
  using assms
proof (induction other arbitrary: rp)
  case Nil
  then show ?case by (auto split: option.split)
next
  case (Cons x xs)
  obtain key t' tok' where x: "x = (key, t', tok')" by (cases x) auto
  from Cons.prems x have "map_of xs key = None"
    by (auto simp: map_of_eq_None_iff)
  with Cons x show ?case
    by (auto simp: hashmap_simps split: option.split prod.split)
qed

lemma map_of_remove_equal [hashmap_simps]:
  "hm_wf other \<Longrightarrow> map_of (remove_clocks_equal_to rp other) k =
     (case (map_of rp k, map_of other k) of
        (Some (t, tok), Some (t', _)) \<Rightarrow> if t = t' then None else Some (t, tok)
      | (v, _) \<Rightarrow> v)"
  unfolding remove_clocks_equal_to_def by (rule remove_equal_foldl)

lemma hm_wf_remove_equal [simp]:
  assumes "hm_wf rp"
  shows "hm_wf (remove_clocks_equal_to rp other)"
  using assms unfolding remove_clocks_equal_to_def
  by (induction other arbitrary: rp) (auto split: option.split prod.split)

lemma map_of_remove_tag [hashmap_simps]:
  "map_of (fst (remove_clock_if_newer_or_equal_to_tag rp tag)) k =
     (case map_of rp k of
        Some (t, tok) \<Rightarrow> if k = key_from_tag tag \<and> ct_clock_tick tag \<le> t then None
                      else Some (t, tok)
      | None \<Rightarrow> None)"
  by (auto simp: remove_clock_if_newer_or_equal_to_tag_def Let_def hashmap_simps
      split: option.split)

lemma hm_wf_remove_tag [simp]:
  "hm_wf rp \<Longrightarrow> hm_wf (fst (remove_clock_if_newer_or_equal_to_tag rp tag))"
  by (auto simp: remove_clock_if_newer_or_equal_to_tag_def Let_def split: option.split)

lemma remove_tag_equal_iff:
  "snd (remove_clock_if_newer_or_equal_to_tag rp tag) \<longleftrightarrow>
     (\<exists>tok. map_of rp (key_from_tag tag) = Some (ct_clock_tick tag, tok))"
  by (auto simp: remove_clock_if_newer_or_equal_to_tag_def Let_def split: option.split)

lemma map_of_to_recovery_point:
  "map_of (to_recovery_point cm) k =
     map_option (\<lambda>c. (current_tick c, clock_token c))
       (map_of (case snapshot cm of Some s \<Rightarrow> s | None \<Rightarrow> clocks cm) k)"
  by (simp add: to_recovery_point_def map_of_map_values)

lemma hm_wf_to_recovery_point [simp]:
  "clock_map_inv cm \<Longrightarrow> hm_wf (to_recovery_point cm)"
  unfolding to_recovery_point_def Let_def hm_wf_map_values
  by (auto simp: clock_map_inv_def split: option.splits)

lemma hm_collect_distinct:
  assumes "hm_wf xs"
  shows "hm_collect xs = xs"
proof -
  have "foldl (\<lambda>acc (k, v). AList.update k v acc) acc xs = acc @ xs"
    if "hm_wf (acc @ xs)" for acc
    using that
  proof (induction xs arbitrary: acc)
    case Nil
    then show ?case by simp
  next
    case (Cons x xs)
    obtain k v where x: "x = (k, v)" by (cases x)
    from Cons.prems x have "k \<notin> set (hm_keys acc)" by auto
    then have "AList.update k v acc = acc @ [(k, v)]"
      by (induction acc) auto
    with Cons x show ?case by simp
  qed
  from this [of "[]"] assms show ?thesis by (simp add: hm_collect_def)
qed

lemma map_of_to_rp_frozen:
  "snapshot cm \<noteq> None \<Longrightarrow> to_recovery_point (fst (advance_clock_impl cm tag)) = to_recovery_point cm"
  by (auto simp: to_recovery_point_def)

section \<open>Properties\<close>

text \<open>C22: A tagged operation is accepted exactly when it is forced, when its tick is above the one
  known for its clock, or when it is the very tick and token last seen (a retry). The known ticks
  never go back, an accepted tag is returned as it was, and a rejected tag comes back with the
  known tick: the tick after it is then accepted, so the sender makes progress after one
  correction.\<close>

theorem clock_acceptance:
  assumes "advance_clock_and_correct_tag cm tag = (cm', tag', accepted)"
  shows "(accepted \<longleftrightarrow> ct_force tag \<or> tick_of cm (key_from_tag tag) < ct_clock_tick tag \<or>
      map_of (clocks cm) (key_from_tag tag) = Some (clock_new (ct_clock_tick tag) (ct_token tag))) \<and>
    (\<forall>k. tick_of cm k \<le> tick_of cm' k) \<and>
    (if accepted then tag' = tag
     else tick_of cm' = tick_of cm \<and> ct_clock_tick tag' = tick_of cm (key_from_tag tag) \<and>
       (ct_clock_tick tag' \<noteq> - 1 \<longrightarrow>
          snd (snd (advance_clock_and_correct_tag cm' (tag'\<lparr>ct_clock_tick := ct_clock_tick tag' + 1\<rparr>)))))"
proof -
  let ?r = "advance_clock_impl cm tag"
  have e: "cm' = fst ?r" "accepted = (fst (snd ?r) \<or> ct_force tag)"
    "tag' = (if accepted then tag else tag\<lparr>ct_clock_tick := snd (snd ?r)\<rparr>)"
    using assms by (auto simp: advance_and_correct_unfold Let_def)
  have mono: "\<forall>k. tick_of cm k \<le> tick_of cm' k" by (simp add: e(1) tick_of_advance_impl)
  show ?thesis
  proof (cases accepted)
    case True
    then show ?thesis using mono e by (auto simp: advance_clock_impl_accepted)
  next
    case False
    then have le: "ct_clock_tick tag \<le> tick_of cm (key_from_tag tag)"
      using e(2) by (auto simp: advance_clock_impl_accepted)
    then have same: "tick_of cm' = tick_of cm"
      by (auto simp: e(1) tick_of_advance_impl fun_eq_iff)
    have tick: "ct_clock_tick tag' = tick_of cm (key_from_tag tag)" "key_from_tag tag' = key_from_tag tag"
      using False e(3) le by (simp_all add: advance_clock_impl_tick key_from_tag_def)
    have "snd (snd (advance_clock_and_correct_tag cm' (tag'\<lparr>ct_clock_tick := ct_clock_tick tag' + 1\<rparr>)))"
      if "ct_clock_tick tag' \<noteq> - 1"
      using word64_less_succ_iff [OF that, of "ct_clock_tick tag'"] tick same
      by (simp add: advance_and_correct_unfold Let_def advance_clock_impl_accepted key_from_tag_def)
    then show ?thesis using False mono same tick e by (auto simp: advance_clock_impl_accepted)
  qed
qed

text \<open>Once a snapshot of the clocks is taken, no later operation changes the recovery point
  the node hands out, and taking it again does nothing; clearing it makes the recovery point the
  current clocks.\<close>

lemma snapshot_freezes_recovery_point:
  assumes "snd (take_snapshot cm)"
  shows "let cm1 = fst (take_snapshot cm); cm2 = foldl advance_clock cm1 tags
    in to_recovery_point cm2 = to_recovery_point cm \<and> take_snapshot cm2 = (cm2, False) \<and>
       (\<forall>k. tick_of cm2 k = tick_of (foldl advance_clock cm tags) k) \<and>
       (\<forall>k. map_of (to_recovery_point (fst (clear_snapshot cm2))) k =
          map_option (\<lambda>c. (current_tick c, clock_token c)) (map_of (clocks cm2) k))"
proof -
  have none: "snapshot cm = None" using assms by (simp add: take_snapshot_def split: option.splits)
  let ?c1 = "fst (take_snapshot cm)"
  have c1: "snapshot ?c1 = Some (clocks cm)" "clocks ?c1 = clocks cm"
    using none by (simp_all add: take_snapshot_def)
  have run: "snapshot (foldl advance_clock c ts) = snapshot c \<and>
      (snapshot c \<noteq> None \<longrightarrow> to_recovery_point (foldl advance_clock c ts) = to_recovery_point c)" for c ts
    by (induction ts arbitrary: c) (auto simp: advance_clock_def map_of_to_rp_frozen)
  have same: "tick_of (foldl advance_clock a ts) = tick_of (foldl advance_clock b ts)"
    if "tick_of a = tick_of b" for a b ts
    using that by (induction ts arbitrary: a b) (auto simp: tick_of_advance fun_eq_iff)
  have "tick_of ?c1 = tick_of cm" using c1 by (simp add: tick_of_def fun_eq_iff)
  then have "tick_of (foldl advance_clock ?c1 tags) = tick_of (foldl advance_clock cm tags)" by (rule same)
  moreover have "to_recovery_point ?c1 = to_recovery_point cm"
    using c1 none by (simp add: to_recovery_point_def)
  ultimately show ?thesis
    using run [of ?c1 tags] c1
    by (auto simp: Let_def take_snapshot_def clear_snapshot_def map_of_to_recovery_point split: option.splits)
qed

text \<open>Saving and loading gives the clock map back: its clocks, its snapshot, and nothing marked
  as changed; a map without changes is not written again.\<close>

lemma clock_map_store_roundtrip:
  assumes "clock_map_inv cm"
  shows "case store cm of (cm', f) \<Rightarrow> load_or_default (Some f) = cm' \<and> clocks cm' = clocks cm \<and>
    snapshot cm' = snapshot cm \<and> store_if_changed cm' (Some f) = (cm', Some f)"
proof -
  have "hm_collect (clocks cm) = clocks cm" "map_option hm_collect (snapshot cm) = snapshot cm"
    using assms by (auto simp: clock_map_inv_def hm_collect_distinct split: option.splits)
  then show ?thesis
    by (simp add: store_def load_or_default_def clock_map_of_helper_def helper_of_clock_map_def
        store_if_changed_def)
qed

section \<open>Witnesses\<close>

definition clock_map_example :: clock_map where
  "clock_map_example = advance_clock clock_map_default (clock_tag_new_with_token 1 2 5 9)"

theorem clock_acceptance_witness:
  "\<exists>cm' tag'. advance_clock_and_correct_tag clock_map_example (clock_tag_new_with_token 1 2 4 7) =
     (cm', tag', False) \<and> ct_clock_tick tag' = 5 \<and> tick_of cm' = tick_of clock_map_example"
proof -
  obtain cm' tag' acc where e:
    "advance_clock_and_correct_tag clock_map_example (clock_tag_new_with_token 1 2 4 7) = (cm', tag', acc)"
    by (rule prod_cases3)
  have "\<not> snd (snd (advance_clock_and_correct_tag clock_map_example (clock_tag_new_with_token 1 2 4 7)))"
    "tick_of clock_map_example (key_from_tag (clock_tag_new_with_token 1 2 4 7)) = 5"
    by code_simp+
  then show ?thesis using clock_acceptance [OF e] e by auto
qed

end
