(* ===== verification/WalDelta.thy ===== *)
theory WalDelta
  imports SerdeWal ClockMap
begin

text \<open>
  \<open>lib/collection/src/wal_delta.rs\<close>: the log of operations with clock tags, its newest and
  oldest clocks, and the search for the record from which a recovering replica has to be sent
  the log. The mutexes only serialise access: each method is one step on the state.
\<close>

record 'o operation_with_clock_tag =
  operation :: 'o
  clock_tag :: "clock_tag option"

record recoverable_wal =
  rw_wal :: serde_wal
  newest_clocks :: clock_map
  oldest_clocks :: clock_map

datatype wal_delta_error =
    Empty
  | UnknownClocks
  | HigherThanCurrent
  | Cutoff
  | UntaggedRecords
  | NotFound
  | WalReadError serde_error

section \<open>Writing\<close>

text \<open>
  The operation is a \<open>&mut\<close> argument: it comes back, with its tag corrected when it is
  rejected. Clocks that were advanced stay advanced when a later step fails.
\<close>

definition lock_and_write ::
  "'o operation_with_clock_tag codec \<Rightarrow> (u32 \<Rightarrow> u8 list \<Rightarrow> u32) \<Rightarrow> bool \<Rightarrow> recoverable_wal \<Rightarrow>
   'o operation_with_clock_tag \<Rightarrow>
   recoverable_wal \<times> 'o operation_with_clock_tag \<times> (serde_error, nat) result" where
  "lock_and_write c crcf fin rw op =
     (let (rw1, op1, accepted) =
        (case clock_tag op of
           None \<Rightarrow> (rw, op, True)
         | Some tag \<Rightarrow>
             (let (cm, tag', acc) = advance_clock_and_correct_tag (newest_clocks rw) tag
              in (rw\<lparr>newest_clocks := cm\<rparr>, op\<lparr>clock_tag := Some tag'\<rparr>, acc)))
      in if \<not> accepted then (rw1, op1, Inl ClockRejected)
         else (case raw_record_new c op1 of
                 Inl e \<Rightarrow> (rw1, op1, Inl e)
               | Inr raw \<Rightarrow>
                   (case serde_write crcf fin (rw_wal rw1) raw of
                      Inl e \<Rightarrow> (rw1, op1, Inl e)
                    | Inr (s, n) \<Rightarrow> (rw1\<lparr>rw_wal := s\<rparr>, op1, Inr n))))"

definition take_newest_clocks_snapshot :: "recoverable_wal \<Rightarrow> recoverable_wal \<times> bool" where
  "take_newest_clocks_snapshot rw =
     (let (cm, b) = take_snapshot (newest_clocks rw) in (rw\<lparr>newest_clocks := cm\<rparr>, b))"

definition clear_newest_clocks_snapshot :: "recoverable_wal \<Rightarrow> recoverable_wal \<times> bool" where
  "clear_newest_clocks_snapshot rw =
     (let (cm, b) = clear_snapshot (newest_clocks rw) in (rw\<lparr>newest_clocks := cm\<rparr>, b))"

definition update_cutoff :: "recoverable_wal \<Rightarrow> recovery_point \<Rightarrow> recoverable_wal" where
  "update_cutoff rw cutoff =
     rw\<lparr>newest_clocks := foldl advance_clock (newest_clocks rw) (iter_as_clock_tags cutoff),
        oldest_clocks := foldl advance_clock (oldest_clocks rw) (iter_as_clock_tags cutoff)\<rparr>"

definition rw_recovery_point :: "recoverable_wal \<Rightarrow> recovery_point" where
  "rw_recovery_point rw = to_recovery_point (newest_clocks rw)"

definition wal_version :: "recoverable_wal \<Rightarrow> nat option" where
  "wal_version rw =
     (if serde_is_empty (rw_wal rw) then None else Some (serde_last_index (rw_wal rw)))"

section \<open>Resolving a delta\<close>

text \<open>The loop over the records, newest first.\<close>

fun resolve_scan ::
  "recovery_point \<Rightarrow> nat option \<Rightarrow> (serde_error, nat \<times> clock_tag option) result list \<Rightarrow>
   (wal_delta_error, nat option) result" where
  "resolve_scan rp last_op_num [] = Inl NotFound"
| "resolve_scan rp last_op_num (entry # rest) =
     (case entry of
        Inl e \<Rightarrow> Inl (WalReadError e)
      | Inr (op_num, None) \<Rightarrow> Inl UntaggedRecords
      | Inr (op_num, Some tag) \<Rightarrow>
          (let (rp', removed_equal) = remove_clock_if_newer_or_equal_to_tag rp tag
           in if rp_is_empty rp' then Inr (if removed_equal then Some op_num else last_op_num)
              else resolve_scan rp' (Some op_num) rest))"

definition resolve_wal_delta ::
  "u64 \<Rightarrow> (serde_error, nat \<times> clock_tag option) result list \<Rightarrow> recovery_point \<Rightarrow>
   recovery_point \<Rightarrow> recovery_point \<Rightarrow> (wal_delta_error, nat option) result" where
  "resolve_wal_delta random_token ops rp newest oldest =
     (if rp_is_empty rp then Inl Empty
      else if has_clocks_not_in rp newest then Inl UnknownClocks
      else if has_any_newer_clocks_than rp newest then Inl HigherThanCurrent
      else
        (let rp1 = increase_all_clocks_by 1 rp;
             newest1 = increase_all_clocks_by 1 newest;
             oldest1 = increase_all_clocks_by 1 oldest;
             rp2 = initialize_clocks_missing_from random_token rp1 newest1
         in if has_any_older_clocks_than rp2 oldest1 then Inl Cutoff
            else
              (let rp3 = remove_clocks_equal_to rp2 newest1
               in if rp_is_empty rp3 then Inr None
                  else resolve_scan rp3 None (rev ops))))"

definition rw_resolve_wal_delta ::
  "'o operation_with_clock_tag codec \<Rightarrow> u64 \<Rightarrow> recoverable_wal \<Rightarrow> recovery_point \<Rightarrow>
   (wal_delta_error, nat option) result" where
  "rw_resolve_wal_delta c random_token rw rp =
     resolve_wal_delta random_token
       (map (map_sum id (\<lambda>(n, op). (n, clock_tag op))) (read_all c (rw_wal rw) True))
       rp (rw_recovery_point rw) (to_recovery_point (oldest_clocks rw))"

section \<open>Soundness of the scan\<close>

text \<open>The tick a recovery point has for a clock, 0 when it does not know it.\<close>

definition rp_tick :: "recovery_point \<Rightarrow> clock_key \<Rightarrow> u64" where
  "rp_tick rp k = (case map_of rp k of None \<Rightarrow> 0 | Some (t, _) \<Rightarrow> t)"

definition ops_precede :: "nat \<times> clock_tag option \<Rightarrow> nat \<times> clock_tag option \<Rightarrow> bool" where
  "ops_precede a b \<longleftrightarrow> fst a < fst b \<and>
     (\<forall>x y. snd a = Some x \<longrightarrow> snd b = Some y \<longrightarrow> key_from_tag x = key_from_tag y \<longrightarrow>
        ct_clock_tick x \<le> ct_clock_tick y)"

text \<open>What a delta from \<open>r\<close> on carries: a record with this clock and tick.\<close>

definition delta_carries ::
  "nat option \<Rightarrow> (nat \<times> clock_tag option) list \<Rightarrow> clock_tag \<Rightarrow> bool" where
  "delta_carries r ops tag \<longleftrightarrow> (\<exists>m n tag'. r = Some m \<and> m \<le> n \<and> (n, Some tag') \<in> set ops \<and>
     key_from_tag tag' = key_from_tag tag \<and> ct_clock_tick tag' = ct_clock_tick tag)"

lemma delta_carries_mono:
  "delta_carries r ops tag \<Longrightarrow> set ops \<subseteq> set ops' \<Longrightarrow> delta_carries r ops' tag"
  unfolding delta_carries_def by blast

lemma resolve_scan_sound:
  assumes "resolve_scan rp l (rev (map Inr ops)) = Inr r" "hm_wf rp" "sorted_wrt ops_precede ops"
  shows "(\<forall>q. l = Some q \<longrightarrow> (\<forall>x \<in> set ops. fst x < q) \<longrightarrow> (\<exists>m. r = Some m \<and> m \<le> q)) \<and>
    (\<forall>n tag t tok. (n, Some tag) \<in> set ops \<longrightarrow> map_of rp (key_from_tag tag) = Some (t, tok) \<longrightarrow>
       t \<le> ct_clock_tick tag \<longrightarrow> delta_carries r ops tag)"
  using assms
proof (induction ops arbitrary: rp l rule: rev_induct)
  case Nil
  then show ?case by simp
next
  case (snoc x ops)
  obtain n where x: "\<exists>tag. x = (n, Some tag)"
    using snoc.prems(1) by (cases x; cases "snd x") auto
  then obtain tag where x: "x = (n, Some tag)" by blast
  let ?k = "key_from_tag tag"
  define rp' eq where "rp' = fst (remove_clock_if_newer_or_equal_to_tag rp tag)"
    and "eq = snd (remove_clock_if_newer_or_equal_to_tag rp tag)"
  have step: "(if rp' = [] then Inr (if eq then Some n else l)
      else resolve_scan rp' (Some n) (rev (map Inr ops))) = Inr r"
    using snoc.prems(1) x by (simp add: rp'_def eq_def split_beta rp_is_empty_def Let_def split: if_splits)
  have eq: "eq \<longleftrightarrow> (\<exists>tok. map_of rp ?k = Some (ct_clock_tick tag, tok))"
    by (simp add: eq_def remove_tag_equal_iff)
  have rp': "map_of rp' k = (case map_of rp k of
      Some (t, tok) \<Rightarrow> if k = ?k \<and> ct_clock_tick tag \<le> t then None else Some (t, tok)
    | None \<Rightarrow> None)" for k
    by (simp add: rp'_def map_of_remove_tag)
  have wf': "hm_wf rp'" using snoc.prems(2) by (simp add: rp'_def)
  have sorted: "sorted_wrt ops_precede ops"
    and before: "\<And>y. y \<in> set ops \<Longrightarrow> ops_precede y (n, Some tag)"
    using snoc.prems(3) x by (auto simp: sorted_wrt_append)
  have lt: "\<And>y. y \<in> set ops \<Longrightarrow> fst y < n" using before by (simp add: ops_precede_def)
  have le: "ct_clock_tick tag2 \<le> ct_clock_tick tag"
    if "(n2, Some tag2) \<in> set (ops @ [x])" "key_from_tag tag2 = ?k" for n2 tag2
    using that before [of "(n2, Some tag2)"] x by (auto simp: ops_precede_def)
  show ?case
  proof (cases "rp' = []")
    case True
    then have r: "r = (if eq then Some n else l)" using step by simp
    have carries: "delta_carries r (ops @ [x]) tag2"
      if "(n2, Some tag2) \<in> set (ops @ [x])" "map_of rp (key_from_tag tag2) = Some (t, tok)"
        "t \<le> ct_clock_tick tag2" for n2 tag2 t tok
    proof -
      have "map_of rp' (key_from_tag tag2) = None" using True by simp
      then have k: "key_from_tag tag2 = ?k" "ct_clock_tick tag \<le> t"
        using that(2) rp' [of "key_from_tag tag2"] by (auto split: if_splits)
      then have "ct_clock_tick tag2 = t" "t = ct_clock_tick tag" using le [OF that(1)] that(3) by auto
      then have "eq" using eq that(2) k(1) by auto
      then show ?thesis
        using r x k \<open>ct_clock_tick tag2 = t\<close> \<open>t = ct_clock_tick tag\<close>
        by (auto simp: delta_carries_def)
    qed
    have "\<exists>m. r = Some m \<and> m \<le> q" if "l = Some q" "\<forall>x \<in> set (ops @ [x]). fst x < q" for q
      using r that x by auto
    with carries show ?thesis by blast
  next
    case False
    then have step': "resolve_scan rp' (Some n) (rev (map Inr ops)) = Inr r" using step by simp
    note IH = snoc.IH [OF step' wf' sorted]
    obtain m where m: "r = Some m" "m \<le> n" using IH lt by blast
    have here: "delta_carries r (ops @ [x]) tag2" if "key_from_tag tag2 = ?k"
      "ct_clock_tick tag2 = ct_clock_tick tag" for tag2
      using m x that by (auto simp: delta_carries_def)
    have carries: "delta_carries r (ops @ [x]) tag2"
      if "(n2, Some tag2) \<in> set (ops @ [x])" "map_of rp (key_from_tag tag2) = Some (t, tok)"
        "t \<le> ct_clock_tick tag2" for n2 tag2 t tok
    proof (cases "(n2, Some tag2) = x")
      case True
      then show ?thesis using here x by simp
    next
      case other: False
      then have mem: "(n2, Some tag2) \<in> set ops" using that(1) by auto
      show ?thesis
      proof (cases "key_from_tag tag2 = ?k \<and> ct_clock_tick tag \<le> t")
        case True
        then show ?thesis using le [OF that(1)] that(3) by (intro here) auto
      next
        case False
        then have "map_of rp' (key_from_tag tag2) = Some (t, tok)" using rp' that(2) by auto
        then have "delta_carries r ops tag2" using IH mem that(3) by blast
        then show ?thesis by (rule delta_carries_mono) auto
      qed
    qed
    have "\<exists>m. r = Some m \<and> m \<le> q" if "l = Some q" "\<forall>x \<in> set (ops @ [x]). fst x < q" for q
      using m that x by auto
    with carries show ?thesis by blast
  qed
qed

lemma resolve_sound:
  assumes res: "resolve_wal_delta rnd (map Inr ops) rp newest oldest = Inr r"
    and wf: "hm_wf rp" "hm_wf newest" and sorted: "sorted_wrt ops_precede ops"
    and below: "\<And>n tag. (n, Some tag) \<in> set ops \<Longrightarrow> ct_clock_tick tag \<le> rp_tick newest (key_from_tag tag)"
    and mem: "(n, Some tag) \<in> set ops" and missing: "rp_tick rp (key_from_tag tag) < ct_clock_tick tag"
  shows "delta_carries r ops tag"
proof -
  let ?k = "key_from_tag tag"
  define rp2 where "rp2 = initialize_clocks_missing_from rnd (increase_all_clocks_by 1 rp)
      (increase_all_clocks_by 1 newest)"
  define rp3 where "rp3 = remove_clocks_equal_to rp2 (increase_all_clocks_by 1 newest)"
  have wf3: "hm_wf rp3" using wf by (simp add: rp3_def rp2_def)
  have le: "ct_clock_tick tag \<le> rp_tick newest ?k" by (rule below [OF mem])
  with missing have lt: "rp_tick rp ?k < rp_tick newest ?k" by simp
  then have "map_of newest ?k \<noteq> None" by (auto simp: rp_tick_def split: option.splits)
  then obtain tn tokn where new: "map_of newest ?k = Some (tn, tokn)" "rp_tick newest ?k = tn"
    by (auto simp: rp_tick_def)
  obtain tok where "map_of rp2 ?k = Some (rp_tick rp ?k + 1, tok)"
    using new(1) by (cases "map_of rp ?k") (auto simp: rp2_def hashmap_simps rp_tick_def domIff)
  then have rp3: "map_of rp3 ?k = Some (rp_tick rp ?k + 1, tok)"
    using wf new lt by (auto simp: rp3_def hashmap_simps)
  then have "rp3 \<noteq> []" by auto
  then have "resolve_scan rp3 None (rev (map Inr ops)) = Inr r"
    using res unfolding resolve_wal_delta_def Let_def rp2_def [symmetric] rp3_def [symmetric]
    by (simp add: rp_is_empty_def split: if_splits)
  from resolve_scan_sound [OF this wf3 sorted] mem rp3 show ?thesis
    using inc_le [OF missing] by blast
qed

section \<open>Completeness of the scan\<close>

lemma resolve_scan_complete:
  assumes "hm_wf rp" "\<forall>x \<in> set ops. snd x \<noteq> None"
    and "\<And>k t tok. map_of rp k = Some (t, tok) \<Longrightarrow>
      \<exists>n tag. (n, Some tag) \<in> set ops \<and> key_from_tag tag = k \<and> ct_clock_tick tag \<le> t"
    and "rp \<noteq> []"
  shows "\<exists>r. resolve_scan rp l (rev (map Inr ops)) = Inr r"
  using assms
proof (induction ops arbitrary: rp l rule: rev_induct)
  case Nil
  then obtain k v where "(k, v) \<in> set rp" by (cases rp) auto
  with Nil.prems(1) have "map_of rp k = Some (fst v, snd v)" by simp
  with Nil.prems(3) [OF this] show ?case by simp
next
  case (snoc x ops)
  obtain n tag where x: "x = (n, Some tag)" using snoc.prems(2) by (cases x) auto
  define rp' where "rp' = fst (remove_clock_if_newer_or_equal_to_tag rp tag)"
  have wf': "hm_wf rp'" using snoc.prems(1) by (simp add: rp'_def)
  have left: "\<exists>n tag. (n, Some tag) \<in> set ops \<and> key_from_tag tag = k \<and> ct_clock_tick tag \<le> t"
    if "map_of rp' k = Some (t, tok)" for k t tok
  proof -
    have "map_of rp k = Some (t, tok)" "\<not> (k = key_from_tag tag \<and> ct_clock_tick tag \<le> t)"
      using that by (auto simp: rp'_def map_of_remove_tag split: option.splits if_splits)
    with snoc.prems(3) [OF this(1)] x show ?thesis by auto
  qed
  show ?case
  proof (cases "rp' = []")
    case True
    then show ?thesis using x by (simp add: rp'_def split_beta rp_is_empty_def Let_def)
  next
    case False
    from snoc.IH [OF wf' _ left False] snoc.prems(2) have
      "\<exists>r. resolve_scan rp' (Some n) (rev (map Inr ops)) = Inr r" by auto
    then show ?thesis using False x by (simp add: rp'_def split_beta rp_is_empty_def Let_def)
  qed
qed

section \<open>The invariant of the log and its clocks\<close>

lemma serde_ack_read_all:
  assumes inv: "serde_inv crcf s" and ack: "serde_ack s i = Inr s'"
  shows "read_all c s' True = drop (first_closed_index s' - first_closed_index s) (read_all c s True)"
proof -
  obtain s'' where s': "serde_ack s i = Inr s''" "serde_inv crcf s''"
    "first_closed_index s \<le> first_closed_index s''"
    "first_closed_index s'' + num_entries (s_wal s'') = first_closed_index s + num_entries (s_wal s)"
    "\<And>j. first_closed_index s'' \<le> j \<Longrightarrow> wal_entry (s_wal s'') j = wal_entry (s_wal s) j"
    using serde_ack_spec [OF inv, of i] by metis
  have "s'' = s'" using s'(1) ack by simp
  note s' = s' [unfolded this]
  have "read_all c s' True = map (read_one c s) [first_closed_index s'..<first_closed_index s' + num_entries (s_wal s')]"
    unfolding read_all_eq [OF s'(2)] if_True
    by (rule map_cong [OF refl], rule read_one_cong, rule s'(5)) simp
  then show ?thesis
    using s'(3,4) by (simp add: read_all_eq [OF inv] drop_map)
qed

lemma drop_from_read_all:
  assumes inv: "serde_inv crcf s" and d: "drop_from s i = Inr s'"
    and i: "first_closed_index s < i" "serde_first_index s \<le> i"
  shows "read_all c s' True = take (i - first_closed_index s) (read_all c s True)"
proof -
  obtain s'' where s': "drop_from s i = Inr s''" "serde_inv crcf s''"
    "first_closed_index s'' = first_closed_index s"
    "num_entries (s_wal s'') = min (num_entries (s_wal s)) (i - first_closed_index s)"
    "\<And>j. wal_entry (s_wal s'') j = (if j < i then wal_entry (s_wal s) j else Inr None)"
    using drop_from_spec [OF inv i] by metis
  have "s'' = s'" using s'(1) d by simp
  note s' = s' [unfolded this]
  have "read_all c s' True = map (read_one c s) [first_closed_index s..<first_closed_index s' + num_entries (s_wal s')]"
    unfolding read_all_eq [OF s'(2)] s'(3) if_True
    by (rule map_cong [OF refl], rule read_one_cong) (use s'(4,5) in auto)
  then show ?thesis
    using s'(3,4) i(1) by (simp add: read_all_eq [OF inv] take_map min_def)
qed

definition tagged :: "(nat \<times> 'o operation_with_clock_tag) list \<Rightarrow> (nat \<times> clock_tag option) list" where
  "tagged recs = map (\<lambda>(n, op). (n, clock_tag op)) recs"

definition log_ok ::
  "'o operation_with_clock_tag codec \<Rightarrow> serde_wal \<Rightarrow> (clock_key \<Rightarrow> u64) \<Rightarrow> bool" where
  "log_ok c s tick \<longleftrightarrow> (\<exists>recs. read_all c s True = map Inr recs \<and>
     sorted_wrt ops_precede (tagged recs) \<and>
     (\<forall>x \<in> set recs. fst x < first_closed_index s + num_entries (s_wal s)) \<and>
     (\<forall>n tag. (n, Some tag) \<in> set (tagged recs) \<longrightarrow> ct_clock_tick tag \<le> tick (key_from_tag tag)))"

definition rw_inv :: "'o operation_with_clock_tag codec \<Rightarrow> (u32 \<Rightarrow> u8 list \<Rightarrow> u32) \<Rightarrow> recoverable_wal \<Rightarrow> bool"
where
  "rw_inv c crcf rw \<longleftrightarrow> serde_inv crcf (rw_wal rw) \<and> clock_map_inv (newest_clocks rw) \<and>
     clock_map_inv (oldest_clocks rw) \<and> log_ok c (rw_wal rw) (tick_of (newest_clocks rw))"

lemma log_ok_mono: "log_ok c s f \<Longrightarrow> (\<And>k. f k \<le> g k) \<Longrightarrow> log_ok c s g"
  unfolding log_ok_def by (meson order_trans)

lemma log_ok_sub:
  assumes ok: "log_ok c s f" and sub: "read_all c s' True = take m (drop n (read_all c s True))"
    and bound: "\<And>x. Inr x \<in> set (read_all c s' True) \<Longrightarrow> fst x < first_closed_index s' + num_entries (s_wal s')"
  shows "log_ok c s' f"
proof -
  obtain recs where r: "read_all c s True = map Inr recs" "sorted_wrt ops_precede (tagged recs)"
    "\<And>n tag. (n, Some tag) \<in> set (tagged recs) \<Longrightarrow> ct_clock_tick tag \<le> f (key_from_tag tag)"
    using ok unfolding log_ok_def by blast
  let ?recs = "take m (drop n recs)"
  have tg: "tagged ?recs = take m (drop n (tagged recs))" by (simp add: tagged_def take_map drop_map)
  have "read_all c s' True = map Inr ?recs" using sub r(1) by (simp add: take_map drop_map)
  moreover have "sorted_wrt ops_precede (tagged ?recs)"
    unfolding tg by (intro sorted_wrt_take sorted_wrt_drop r(2))
  moreover have "\<forall>n tag. (n, Some tag) \<in> set (tagged ?recs) \<longrightarrow> ct_clock_tick tag \<le> f (key_from_tag tag)"
    unfolding tg using r(3) by (meson in_set_takeD in_set_dropD)
  moreover have "\<forall>x \<in> set ?recs. fst x < first_closed_index s' + num_entries (s_wal s')"
    using bound calculation(1) by (metis imageI list.set_map)
  ultimately show ?thesis unfolding log_ok_def by blast
qed

lemma read_all_bound:
  assumes "serde_inv crcf s" "Inr x \<in> set (read_all c s ack)"
  shows "fst x < first_closed_index s + num_entries (s_wal s)"
proof -
  have *: "fst y = i" if "read_one c s i = Inr y" for i y
    using that by (auto simp: read_one_def result_simps split: option.splits)
  from assms(2) obtain i where "read_one c s i = Inr x" "i < first_closed_index s + num_entries (s_wal s)"
    by (auto simp: read_all_eq [OF assms(1)] dest: sym)
  with * show ?thesis by blast
qed

definition codec_small :: "'r codec \<Rightarrow> bool" where
  "codec_small c \<longleftrightarrow> (\<forall>r bs. cbor_to_vec c r = Some bs \<longrightarrow> length bs < 2 ^ 64)"

definition not_forced :: "'o operation_with_clock_tag \<Rightarrow> bool" where
  "not_forced op = (case clock_tag op of None \<Rightarrow> True | Some tag \<Rightarrow> \<not> ct_force tag)"

lemma log_ok_write:
  assumes inv: "serde_inv crcf s" and ok: "log_ok c s f" and c: "codec_ok c" "codec_small c"
    and raw: "raw_record_new c op = Inr raw" and w: "serde_write crcf fin s raw = Inr (s', n)"
    and old: "\<And>tag. clock_tag op = Some tag \<Longrightarrow> f (key_from_tag tag) \<le> ct_clock_tick tag"
    and new: "\<And>k. f k \<le> g k" "\<And>tag. clock_tag op = Some tag \<Longrightarrow> ct_clock_tick tag \<le> g (key_from_tag tag)"
  shows "serde_inv crcf s' \<and> log_ok c s' g"
proof -
  obtain recs where r: "read_all c s True = map Inr recs" "sorted_wrt ops_precede (tagged recs)"
    "\<And>x. x \<in> set recs \<Longrightarrow> fst x < first_closed_index s + num_entries (s_wal s)"
    "\<And>n tag. (n, Some tag) \<in> set (tagged recs) \<Longrightarrow> ct_clock_tick tag \<le> f (key_from_tag tag)"
    using ok unfolding log_ok_def by blast
  have small: "length raw < 2 ^ 64"
    using raw c(2) by (auto simp: raw_record_new_def codec_small_def split: option.splits)
  have dec: "deserialize_from c raw = Inr op"
    using c(1) raw by (auto simp: codec_ok_def raw_record_new_def deserialize_from_def split: option.splits)
  let ?n = "first_closed_index s + num_entries (s_wal s)"
  have n: "n = ?n" and inv': "serde_inv crcf s'" and fc: "first_closed_index s' = first_closed_index s"
    and num: "num_entries (s_wal s') = num_entries (s_wal s) + 1"
    and en: "wal_entry (s_wal s') ?n = Inr (Some raw)"
    and eo: "\<And>i. i \<noteq> ?n \<Longrightarrow> wal_entry (s_wal s') i = wal_entry (s_wal s) i"
    using serde_write_spec [OF inv small, of fin] w by auto
  have "read_all c s' True = map (read_one c s') [first_closed_index s..<?n] @ [read_one c s' ?n]"
    using read_all_eq [OF inv', of c True] fc num by simp
  also have "map (read_one c s') [first_closed_index s..<?n] = read_all c s True"
    unfolding read_all_eq [OF inv] if_True
    by (rule map_cong [OF refl], rule read_one_cong, rule eo) auto
  also have "read_one c s' ?n = Inr (?n, op)" using en dec by (simp add: read_one_def result_simps)
  finally have ra: "read_all c s' True = map Inr (recs @ [(?n, op)])" using r(1) by simp
  have tg: "tagged (recs @ [(?n, op)]) = tagged recs @ [(?n, clock_tag op)]" by (simp add: tagged_def)
  have "ops_precede y (?n, clock_tag op)" if y: "y \<in> set (tagged recs)" for y
  proof -
    have "fst y < ?n" using y r(3) by (auto simp: tagged_def)
    moreover have "ct_clock_tick a \<le> ct_clock_tick b"
      if "snd y = Some a" "clock_tag op = Some b" "key_from_tag a = key_from_tag b" for a b
    proof -
      have "(fst y, Some a) \<in> set (tagged recs)" using y that(1) by (metis prod.collapse)
      from r(4) [OF this] old [OF that(2)] that(3) show ?thesis by simp
    qed
    ultimately show ?thesis by (simp add: ops_precede_def)
  qed
  then have "sorted_wrt ops_precede (tagged (recs @ [(?n, op)]))"
    unfolding tg using r(2) by (simp add: sorted_wrt_append)
  moreover have "ct_clock_tick tag \<le> g (key_from_tag tag)"
    if "(m, Some tag) \<in> set (tagged (recs @ [(?n, op)]))" for m tag
    using that r(4) new order_trans unfolding tg by fastforce
  moreover have "\<forall>x \<in> set (recs @ [(?n, op)]). fst x < first_closed_index s' + num_entries (s_wal s')"
    using r(3) fc num by fastforce
  ultimately show ?thesis using ra inv' unfolding log_ok_def by blast
qed

lemma lock_and_write_inv:
  assumes inv: "rw_inv c crcf rw" and c: "codec_ok c" "codec_small c" and nf: "not_forced op"
    and w: "lock_and_write c crcf fin rw op = (rw', op', res)"
  shows "rw_inv c crcf rw'"
proof -
  have i: "serde_inv crcf (rw_wal rw)" "clock_map_inv (newest_clocks rw)" "clock_map_inv (oldest_clocks rw)"
    "log_ok c (rw_wal rw) (tick_of (newest_clocks rw))"
    using inv by (simp_all add: rw_inv_def)
  define cm where "cm = (case clock_tag op of None \<Rightarrow> newest_clocks rw
    | Some tag \<Rightarrow> fst (advance_clock_impl (newest_clocks rw) tag))"
  have cm: "clock_map_inv cm" "\<And>k. tick_of (newest_clocks rw) k \<le> tick_of cm k"
    using i(2) by (auto simp: cm_def clock_map_inv_advance_impl tick_of_advance_impl split: option.split)
  have base: "rw_inv c crcf (rw\<lparr>newest_clocks := cm\<rparr>)"
    using i cm log_ok_mono [OF i(4) cm(2)] by (simp add: rw_inv_def)
  show ?thesis
  proof (cases "rw' = rw\<lparr>newest_clocks := cm\<rparr>")
    case True
    with base show ?thesis by simp
  next
    case False
    then obtain raw s n where raw: "raw_record_new c op = Inr raw"
      and s: "serde_write crcf fin (rw_wal rw) raw = Inr (s, n)"
      and rw': "rw' = rw\<lparr>newest_clocks := cm, rw_wal := s\<rparr>"
      and acc: "\<And>tag. clock_tag op = Some tag \<Longrightarrow>
        fst (snd (advance_clock_impl (newest_clocks rw) tag))"
      using w nf
      by (cases rw; cases "clock_tag op"; cases op)
        (auto simp: lock_and_write_def cm_def advance_and_correct_unfold Let_def not_forced_def
          split: if_splits sum.splits)
    have "tick_of (newest_clocks rw) (key_from_tag tag) \<le> ct_clock_tick tag" if "clock_tag op = Some tag" for tag
      using acc [OF that]
      by (auto simp: advance_clock_impl_accepted tick_of_def clock_new_def)
    moreover have "ct_clock_tick tag \<le> tick_of cm (key_from_tag tag)" if "clock_tag op = Some tag" for tag
      using that by (simp add: cm_def tick_of_advance_impl)
    ultimately have "serde_inv crcf s \<and> log_ok c s (tick_of cm)"
      using log_ok_write [OF i(1,4) c raw s _ cm(2)] by blast
    then show ?thesis using cm(1) i(3) by (simp add: rw_inv_def rw')
  qed
qed

lemma foldl_advance_clock:
  assumes "clock_map_inv cm"
  shows "clock_map_inv (foldl advance_clock cm tags) \<and>
    tick_of cm k \<le> tick_of (foldl advance_clock cm tags) k"
  using assms
proof (induction tags arbitrary: cm)
  case (Cons t ts)
  have "clock_map_inv (advance_clock cm t)"
    using clock_map_inv_advance_impl [OF Cons.prems] by (simp add: advance_clock_def)
  from Cons.IH [OF this] show ?case by (auto simp: tick_of_advance split: if_splits)
qed simp

section \<open>Reachable states\<close>

text \<open>
  A log that starts empty, with any clocks, then takes operations whose tags do not force
  acceptance.
\<close>

inductive rw_reach ::
  "'o operation_with_clock_tag codec \<Rightarrow> (u32 \<Rightarrow> u8 list \<Rightarrow> u32) \<Rightarrow> recoverable_wal \<Rightarrow> bool"
  for c crcf where
  start: "serde_reach crcf s \<Longrightarrow> serde_len s True = 0 \<Longrightarrow> clock_map_inv newest \<Longrightarrow>
    clock_map_inv oldest \<Longrightarrow>
    rw_reach c crcf \<lparr>rw_wal = s, newest_clocks = newest, oldest_clocks = oldest\<rparr>"
| written: "rw_reach c crcf rw \<Longrightarrow> not_forced op \<Longrightarrow>
    lock_and_write c crcf fin rw op = (rw', op', res) \<Longrightarrow> rw_reach c crcf rw'"
| cutoff: "rw_reach c crcf rw \<Longrightarrow> rw_reach c crcf (update_cutoff rw rp)"
| snap: "rw_reach c crcf rw \<Longrightarrow> rw_reach c crcf (fst (take_newest_clocks_snapshot rw))"
| unsnap: "rw_reach c crcf rw \<Longrightarrow> rw_reach c crcf (fst (clear_newest_clocks_snapshot rw))"
| acked: "rw_reach c crcf rw \<Longrightarrow> serde_ack (rw_wal rw) i = Inr s \<Longrightarrow> rw_reach c crcf (rw\<lparr>rw_wal := s\<rparr>)"
| dropped: "rw_reach c crcf rw \<Longrightarrow> first_closed_index (rw_wal rw) < i \<Longrightarrow>
    serde_first_index (rw_wal rw) \<le> i \<Longrightarrow> drop_from (rw_wal rw) i = Inr s \<Longrightarrow>
    rw_reach c crcf (rw\<lparr>rw_wal := s\<rparr>)"

lemma take_snapshot_inv:
  "clock_map_inv cm \<Longrightarrow> clock_map_inv (fst (take_snapshot cm))" "tick_of (fst (take_snapshot cm)) = tick_of cm"
  by (auto simp: take_snapshot_def clock_map_inv_def tick_of_def fun_eq_iff split: option.splits)

lemma clear_snapshot_inv:
  "clock_map_inv cm \<Longrightarrow> clock_map_inv (fst (clear_snapshot cm))" "tick_of (fst (clear_snapshot cm)) = tick_of cm"
  by (auto simp: clear_snapshot_def clock_map_inv_def tick_of_def fun_eq_iff split: option.splits)

lemma rw_reach_inv:
  assumes "rw_reach c crcf rw" "codec_ok c" "codec_small c"
  shows "rw_inv c crcf rw"
  using assms
proof (induction rule: rw_reach.induct)
  case (start s newest oldest)
  have "read_all c s True = []"
    using start.hyps(2) by (simp add: read_all_eq [OF serde_reach_inv [OF start.hyps(1)]] serde_len_def)
  then have "log_ok c s (tick_of newest)"
    unfolding log_ok_def by (intro exI [of _ "[]"]) (simp add: tagged_def)
  with start serde_reach_inv show ?case by (simp add: rw_inv_def)
next
  case (written rw op fin rw' op' res)
  then show ?case using lock_and_write_inv by blast
next
  case (cutoff rw rp)
  then have i: "rw_inv c crcf rw" by simp
  then show ?case
    using foldl_advance_clock [of "newest_clocks rw"] foldl_advance_clock [of "oldest_clocks rw"]
      log_ok_mono [of c "rw_wal rw" "tick_of (newest_clocks rw)"]
    by (auto simp: rw_inv_def update_cutoff_def)
next
  case (snap rw)
  then show ?case using take_snapshot_inv [of "newest_clocks rw"]
    by (simp add: rw_inv_def take_newest_clocks_snapshot_def split_beta)
next
  case (unsnap rw)
  then show ?case using clear_snapshot_inv [of "newest_clocks rw"]
    by (simp add: rw_inv_def clear_newest_clocks_snapshot_def split_beta)
next
  case (acked rw i s)
  then have i: "rw_inv c crcf rw" by simp
  then have si: "serde_inv crcf (rw_wal rw)" by (simp add: rw_inv_def)
  have s: "serde_inv crcf s" using serde_ack_spec [OF si, of i] acked.hyps(2) by auto
  have "log_ok c s (tick_of (newest_clocks rw))"
  proof (rule log_ok_sub)
    show "read_all c s True = take (length (read_all c (rw_wal rw) True))
        (drop (first_closed_index s - first_closed_index (rw_wal rw)) (read_all c (rw_wal rw) True))"
      using serde_ack_read_all [OF si acked.hyps(2)] by simp
  qed (use i read_all_bound [OF s] in \<open>auto simp: rw_inv_def\<close>)
  with i s show ?case by (simp add: rw_inv_def)
next
  case (dropped rw i s)
  then have i: "rw_inv c crcf rw" by simp
  then have si: "serde_inv crcf (rw_wal rw)" by (simp add: rw_inv_def)
  have s: "serde_inv crcf s" using drop_from_spec [OF si dropped.hyps(2,3)] dropped.hyps(4) by auto
  have "log_ok c s (tick_of (newest_clocks rw))"
  proof (rule log_ok_sub)
    show "read_all c s True = take (i - first_closed_index (rw_wal rw)) (drop 0 (read_all c (rw_wal rw) True))"
      using drop_from_read_all [OF si dropped.hyps(4,2,3)] by simp
  qed (use i read_all_bound [OF s] in \<open>auto simp: rw_inv_def\<close>)
  with i s show ?case by (simp add: rw_inv_def)
qed

lemma rp_tick_to_recovery_point:
  "snapshot cm = None \<Longrightarrow> rp_tick (to_recovery_point cm) k = tick_of cm k"
  by (simp add: rp_tick_def map_of_to_recovery_point tick_of_def split: option.split)

section \<open>Properties\<close>

text \<open>C1: A resolved delta is complete: when a reachable log without a clock snapshot resolves a
  recovery point to "start at \<open>m\<close>" or "nothing to send", every record in the log whose tick is
  above what the recovery point has for its clock is sent (itself, or a record with the same
  clock and tick). In particular the answer "nothing to send" is only given when no such record
  exists.\<close>

theorem wal_delta_sound:
  assumes "rw_reach c crcf rw" "codec_ok c" "codec_small c" "snapshot (newest_clocks rw) = None"
    "hm_wf rp" "rw_resolve_wal_delta c random_token rw rp = Inr r"
    "Inr (n, op) \<in> set (read_all c (rw_wal rw) True)" "clock_tag op = Some tag"
    "rp_tick rp (key_from_tag tag) < ct_clock_tick tag"
  shows "\<exists>m n' op' tag'. r = Some m \<and> m \<le> n' \<and>
    Inr (n', op') \<in> set (read_all c (rw_wal rw) True) \<and> clock_tag op' = Some tag' \<and>
    key_from_tag tag' = key_from_tag tag \<and> ct_clock_tick tag' = ct_clock_tick tag"
proof -
  note inv = rw_reach_inv [OF assms(1-3)]
  then obtain recs where r: "read_all c (rw_wal rw) True = map Inr recs"
    "sorted_wrt ops_precede (tagged recs)"
    "\<And>n tag. (n, Some tag) \<in> set (tagged recs) \<Longrightarrow>
       ct_clock_tick tag \<le> tick_of (newest_clocks rw) (key_from_tag tag)"
    unfolding rw_inv_def log_ok_def by blast
  have wf: "hm_wf (rw_recovery_point rw)" using inv by (simp add: rw_inv_def rw_recovery_point_def)
  have res: "resolve_wal_delta random_token (map Inr (tagged recs)) rp (rw_recovery_point rw)
      (to_recovery_point (oldest_clocks rw)) = Inr r"
    using assms(6) unfolding rw_resolve_wal_delta_def r(1)
    by (simp add: tagged_def comp_def split_beta)
  have "(n, Some tag) \<in> set (tagged recs)" using assms(7,8) r(1) by (force simp: tagged_def)
  from resolve_sound [OF res assms(5) wf r(2) _ this assms(9)] r(3)
  have "delta_carries r (tagged recs) tag"
    by (simp add: rw_recovery_point_def rp_tick_to_recovery_point assms(4))
  then show ?thesis unfolding delta_carries_def r(1) by (force simp: tagged_def)
qed

text \<open>C34: The search does not give up early: when the recovery point is not empty, names no clock
  the node does not know or has at a lower tick, and is not below the cutoff, and all records are
  readable and tagged, then it finds a delta as soon as the log holds, for each clock that is
  behind, some record at or below the first missing tick.\<close>

theorem wal_delta_complete:
  assumes "hm_wf rp" "hm_wf newest" "hm_wf oldest" "rp \<noteq> []"
    and "\<And>k t tok. map_of rp k = Some (t, tok) \<Longrightarrow>
      map_of newest k \<noteq> None \<and> t \<le> rp_tick newest k"
    and "\<And>k. rp_tick newest k \<noteq> - 1"
    and "\<And>k. map_of newest k \<noteq> None \<Longrightarrow> rp_tick oldest k \<le> rp_tick rp k"
    and "\<forall>x \<in> set ops. snd x \<noteq> None"
    and "\<And>k. rp_tick rp k \<noteq> rp_tick newest k \<Longrightarrow> \<exists>n tag. (n, Some tag) \<in> set ops \<and>
      key_from_tag tag = k \<and> ct_clock_tick tag \<le> rp_tick rp k + 1"
  shows "\<exists>r. resolve_wal_delta random_token (map Inr ops) rp newest oldest = Inr r"
proof -
  define rp2 where "rp2 = initialize_clocks_missing_from random_token (increase_all_clocks_by 1 rp)
      (increase_all_clocks_by 1 newest)"
  define rp3 where "rp3 = remove_clocks_equal_to rp2 (increase_all_clocks_by 1 newest)"
  have wf: "hm_wf rp2" "hm_wf rp3" using assms(1) by (simp_all add: rp3_def rp2_def)
  have rp2: "map_of rp2 k = Some (t, tok) \<Longrightarrow> t = rp_tick rp k + 1 \<and> map_of newest k \<noteq> None" for k t tok
    using assms(5) [of k] by (auto simp: rp2_def hashmap_simps rp_tick_def domIff split: option.splits if_splits)
  have rp3: "rp_tick rp k \<noteq> rp_tick newest k \<and> t = rp_tick rp k + 1" if "map_of rp3 k = Some (t, tok)" for k t tok
  proof -
    have m: "map_of rp2 k = Some (t, tok)"
      and ne: "\<And>tn tokn. map_of newest k = Some (tn, tokn) \<Longrightarrow> t \<noteq> tn + 1"
      using that map_of_remove_equal [of "increase_all_clocks_by 1 newest" rp2 k] assms(2)
      unfolding rp3_def map_of_increase by (auto split: option.splits if_splits)
    from rp2 [OF m] obtain tn tokn where "map_of newest k = Some (tn, tokn)" by (cases "map_of newest k") auto
    with rp2 [OF m] ne show ?thesis by (auto simp: rp_tick_def)
  qed
  have le: "rp_tick rp k \<le> rp_tick newest k" for k
    using assms(5) [of k] by (cases "map_of rp k") (auto simp: rp_tick_def)
  have ok: "\<not> has_clocks_not_in rp newest" "\<not> has_any_newer_clocks_than rp newest"
    using assms(5) unfolding has_clocks_not_in_iff has_newer_iff [OF assms(1)] rp_tick_def
    by (fastforce split: option.splits)+
  have "\<not> has_any_older_clocks_than rp2 (increase_all_clocks_by 1 oldest)"
  proof
    assume "has_any_older_clocks_than rp2 (increase_all_clocks_by 1 oldest)"
    then obtain k t tok to tokn where k: "map_of rp2 k = Some (t, tok)" "map_of oldest k = Some (to, tokn)" "t < to + 1"
      by (auto simp: has_older_iff [OF wf(1)] hashmap_simps)
    then have o: "to \<le> rp_tick rp k" "t = rp_tick rp k + 1" using rp2 [OF k(1)] assms(7) [of k] by (auto simp: rp_tick_def)
    have m: "rp_tick rp k \<noteq> - 1" "to \<noteq> - 1"
      using le [of k] o(1) assms(6) [of k] by (metis word_order.extremum_unique)+
    from k(3) o(2) m o(1) show False by (simp add: word_less_nat_alt word_le_nat_alt word64_Suc)
  qed
  moreover have "rp3 = [] \<or> (\<exists>r. resolve_scan rp3 None (rev (map Inr ops)) = Inr r)"
    using resolve_scan_complete [OF wf(2) assms(8)] rp3 assms(9) by metis
  ultimately show ?thesis
    using ok assms(4) unfolding resolve_wal_delta_def Let_def rp2_def [symmetric] rp3_def [symmetric]
    by (auto simp: rp_is_empty_def)
qed

text \<open>An operation that comes with a clock tick the node has already seen from another write
  is rejected without touching the log or the clocks, and comes back with the tick the node
  knows; an accepted tagged operation makes the clock at least that tick.\<close>

lemma lock_and_write_clocks:
  assumes "clock_tag op = Some tag" "lock_and_write c crcf fin rw op = (rw', op', res)"
  shows "if ct_force tag \<or> tick_of (newest_clocks rw) (key_from_tag tag) < ct_clock_tick tag \<or>
       map_of (clocks (newest_clocks rw)) (key_from_tag tag) = Some (clock_new (ct_clock_tick tag) (ct_token tag))
     then op' = op \<and> res \<noteq> Inl ClockRejected \<and>
       ct_clock_tick tag \<le> tick_of (newest_clocks rw') (key_from_tag tag)
     else res = Inl ClockRejected \<and> rw_wal rw' = rw_wal rw \<and>
       tick_of (newest_clocks rw') = tick_of (newest_clocks rw) \<and>
       clock_tag op' = Some (tag\<lparr>ct_clock_tick := tick_of (newest_clocks rw) (key_from_tag tag)\<rparr>)"
proof -
  let ?r = "advance_clock_impl (newest_clocks rw) tag"
  have tick: "tick_of (fst ?r) k = (if k = key_from_tag tag then max (tick_of (newest_clocks rw) k) (ct_clock_tick tag)
     else tick_of (newest_clocks rw) k)" for k by (rule tick_of_advance_impl)
  have write_err: "serde_write crcf fin s raw \<noteq> Inl ClockRejected" "raw_record_new c o2 \<noteq> Inl ClockRejected" for s raw o2
    by (auto simp: serde_write_def raw_record_new_def result_simps split: option.splits sum.splits)
  show ?thesis
  proof (cases "fst (snd ?r) \<or> ct_force tag")
    case True
    have op: "op\<lparr>clock_tag := Some tag\<rparr> = op" using assms(1) by (cases op) simp
    have "op' = op \<and> res \<noteq> Inl ClockRejected \<and> newest_clocks rw' = fst ?r"
      using assms True write_err
      by (auto simp: lock_and_write_def advance_and_correct_unfold Let_def op split: sum.splits)
    then show ?thesis using True tick [of "key_from_tag tag"]
      by (auto simp: advance_clock_impl_accepted)
  next
    case False
    have "res = Inl ClockRejected \<and> rw_wal rw' = rw_wal rw \<and> newest_clocks rw' = fst ?r \<and>
      clock_tag op' = Some (tag\<lparr>ct_clock_tick := snd (snd ?r)\<rparr>)"
      using assms False by (auto simp: lock_and_write_def advance_and_correct_unfold Let_def)
    then show ?thesis using False tick
      by (auto simp: advance_clock_impl_accepted advance_clock_impl_tick max_def fun_eq_iff)
  qed
qed

section \<open>Witnesses\<close>

definition tag_example :: clock_tag where
  "tag_example = clock_tag_new_with_token 1 2 5 9"

definition op_example :: "nat operation_with_clock_tag" where
  "op_example = \<lparr>operation = 7, clock_tag = Some tag_example\<rparr>"

definition op_codec_example :: "nat operation_with_clock_tag codec" where
  "op_codec_example = \<lparr>cbor_to_vec = (\<lambda>op. if op = op_example then Some [1] else None),
     cbor_from_slice = (\<lambda>bs. if bs = [1] then Some op_example else None),
     rmp_from_slice = (\<lambda>_. None)\<rparr>"

definition serde_empty_example :: serde_wal where
  "serde_empty_example = projr (serde_new (\<lambda>i. of_nat i) True serde_options_example [] [] None)"

definition rw_empty_example :: recoverable_wal where
  "rw_empty_example = \<lparr>rw_wal = serde_empty_example, newest_clocks = clock_map_default,
     oldest_clocks = clock_map_default\<rparr>"

definition rw_example :: recoverable_wal where
  "rw_example = fst (lock_and_write op_codec_example crc_example True rw_empty_example op_example)"

definition rp_example :: recovery_point where
  "rp_example = [(key_new 1 2, (4, 9))]"

lemma op_codec_example_ok: "codec_ok op_codec_example" "codec_small op_codec_example"
  by (auto simp: codec_ok_def codec_small_def op_codec_example_def)

lemma serde_empty_example_new:
  "serde_new (\<lambda>i. of_nat i) True serde_options_example [] [] None = Inr serde_empty_example"
proof -
  have "\<not> isl (serde_new (\<lambda>i. of_nat i) True serde_options_example [] [] None)" by code_simp
  then show ?thesis by (simp add: serde_empty_example_def)
qed

lemma rw_reach_example: "rw_reach op_codec_example crc_example rw_example"
proof -
  have "rw_reach op_codec_example crc_example rw_empty_example"
    unfolding rw_empty_example_def
  proof (rule rw_reach.start)
    show "serde_reach crc_example serde_empty_example"
      by (rule serde_reach.opened [OF serde_empty_example_new])
        (simp_all add: serde_options_example_def HEADER_LEN_def)
    show "serde_len serde_empty_example True = 0" by code_simp
  qed (simp_all add: clock_map_inv_default)
  moreover have "not_forced op_example" by code_simp
  moreover obtain op' res where
    "lock_and_write op_codec_example crc_example True rw_empty_example op_example = (rw_example, op', res)"
    unfolding rw_example_def by (metis prod.collapse)
  ultimately show ?thesis by (rule rw_reach.written)
qed

lemma rw_example_records: "read_all op_codec_example (rw_wal rw_example) True = [Inr (0, op_example)]"
  by code_simp

lemma rw_example_resolve:
  "rw_resolve_wal_delta op_codec_example 0 rw_example rp_example = Inr (Some 0)"
  by code_simp

theorem wal_delta_sound_witness:
  "rw_resolve_wal_delta op_codec_example 0 rw_example rp_example = Inr (Some 0) \<and>
   (\<exists>m n' op' tag'. Some 0 = Some m \<and> m \<le> n' \<and>
     Inr (n', op') \<in> set (read_all op_codec_example (rw_wal rw_example) True) \<and>
     clock_tag op' = Some tag' \<and> key_from_tag tag' = key_from_tag tag_example \<and>
     ct_clock_tick tag' = ct_clock_tick tag_example)"
proof -
  have "snapshot (newest_clocks rw_example) = None" by code_simp
  moreover have "rp_tick rp_example (key_from_tag tag_example) < ct_clock_tick tag_example" by code_simp
  moreover have "hm_wf rp_example" by (simp add: rp_example_def)
  ultimately show ?thesis
    using wal_delta_sound [OF rw_reach_example op_codec_example_ok _ _ rw_example_resolve, of 0 op_example tag_example]
      rw_example_resolve rw_example_records
    by (simp add: op_example_def)
qed

theorem wal_delta_complete_witness:
  "\<exists>r. resolve_wal_delta 0 (map Inr [(0, Some tag_example)]) rp_example
     [(key_new 1 2, (5, 9))] [] = Inr r"
proof (rule wal_delta_complete)
  fix k show "rp_tick [(key_new 1 2, (5, 9))] k \<noteq> - 1" by (simp add: rp_tick_def)
next
  fix k assume "rp_tick rp_example k \<noteq> rp_tick [(key_new 1 2, (5, 9))] k"
  then have "k = key_new 1 2" by (simp add: rp_tick_def rp_example_def split: if_splits)
  then show "\<exists>n tag. (n, Some tag) \<in> set [(0, Some tag_example)] \<and> key_from_tag tag = k \<and>
      ct_clock_tick tag \<le> rp_tick rp_example k + 1"
    by (simp add: tag_example_def rp_tick_def rp_example_def key_from_tag_def clock_tag_new_with_token_def)
qed (auto simp: rp_example_def rp_tick_def split: if_splits)

end
