(* ===== verification/ClockSet.thy ===== *)
theory ClockSet
  imports ClockMap
begin

text \<open>
  \<open>lib/collection/src/shards/replica_set/clock_set.rs\<close>: the pool of clocks a peer tags its
  updates with. A clock is taken with a guard, ticks while it is held, and is released when the
  guard is dropped; guards share the clock, so a guard is the clock's index in the pool. The
  atomic operations are the steps; \<open>fetch_add\<close> and \<open>+\<close> wrap.
\<close>

section \<open>Clocks and the pool\<close>

record pool_clock =
  next_tick :: u64
  available :: bool

definition new_locked :: pool_clock where
  "new_locked = \<lparr>next_tick = 0, available = False\<rparr>"

definition pc_current_tick :: "pool_clock \<Rightarrow> u64 option" where
  "pc_current_tick c = (if next_tick c = 0 then None else Some (next_tick c - 1))"

definition tick_once :: "pool_clock \<Rightarrow> pool_clock \<times> u64" where
  "tick_once c =
     (let current = next_tick c;
          c1 = c\<lparr>next_tick := current + 1\<rparr>;
          c2 = (if current = 0 then c1\<lparr>next_tick := 0\<rparr> else c1)
      in (c2, current))"

definition pc_advance_to :: "pool_clock \<Rightarrow> u64 \<Rightarrow> pool_clock" where
  "pc_advance_to c new_tick = c\<lparr>next_tick := max (next_tick c) (new_tick + 1)\<rparr>"

definition try_lock :: "pool_clock \<Rightarrow> pool_clock \<times> bool" where
  "try_lock c = (c\<lparr>available := False\<rparr>, available c)"

definition release :: "pool_clock \<Rightarrow> pool_clock" where
  "release c = c\<lparr>available := True\<rparr>"

record clock_set =
  pool :: "pool_clock list"
  max_clocks :: nat

definition DEFAULT_MAX_CLOCKS :: nat where
  "DEFAULT_MAX_CLOCKS = 64"

definition with_max_clocks :: "nat \<Rightarrow> clock_set" where
  "with_max_clocks n = \<lparr>pool = [], max_clocks = n\<rparr>"

definition clock_set_new :: clock_set where
  "clock_set_new = with_max_clocks DEFAULT_MAX_CLOCKS"

text \<open>The first clock that can be locked, trying each in turn.\<close>

fun lock_first :: "pool_clock list \<Rightarrow> nat \<Rightarrow> pool_clock list \<times> nat option" where
  "lock_first [] i = ([], None)"
| "lock_first (c # cs) i =
     (case try_lock c of
        (c', True) \<Rightarrow> (c' # cs, Some i)
      | (c', False) \<Rightarrow> (let (cs', r) = lock_first cs (i + 1) in (c' # cs', r)))"

definition get_clock :: "clock_set \<Rightarrow> clock_set \<times> nat option" where
  "get_clock s =
     (case lock_first (pool s) 0 of
        (cs, Some i) \<Rightarrow> (s\<lparr>pool := cs\<rparr>, Some i)
      | (cs, None) \<Rightarrow>
          (let i = length cs
           in if max_clocks s \<le> i then (s\<lparr>pool := cs\<rparr>, None)
              else (s\<lparr>pool := cs @ [new_locked]\<rparr>, Some i)))"

text \<open>The operations of a guard on clock \<open>i\<close>.\<close>

definition guard_tick_once :: "clock_set \<Rightarrow> nat \<Rightarrow> clock_set \<times> u64" where
  "guard_tick_once s i = (let (c, t) = tick_once (pool s ! i) in (s\<lparr>pool := (pool s)[i := c]\<rparr>, t))"

definition guard_advance_to :: "clock_set \<Rightarrow> nat \<Rightarrow> u64 \<Rightarrow> clock_set" where
  "guard_advance_to s i t = s\<lparr>pool := (pool s)[i := pc_advance_to (pool s ! i) t]\<rparr>"

definition guard_drop :: "clock_set \<Rightarrow> nat \<Rightarrow> clock_set" where
  "guard_drop s i = s\<lparr>pool := (pool s)[i := release (pool s ! i)]\<rparr>"

section \<open>Locking\<close>

lemma lock_first_None:
  "lock_first cs i = (cs', None) \<Longrightarrow> cs' = cs \<and> (\<forall>c \<in> set cs. \<not> available c)"
proof (induction cs arbitrary: i cs')
  case (Cons c cs)
  then show ?case
    by (cases c) (auto simp: try_lock_def split: bool.splits prod.splits)
qed simp

lemma lock_first_Some:
  "lock_first cs i = (cs', Some k) \<Longrightarrow> i \<le> k \<and> k - i < length cs \<and> available (cs ! (k - i)) \<and>
     cs' = cs[k - i := (cs ! (k - i))\<lparr>available := False\<rparr>] \<and> (\<forall>j < k - i. \<not> available (cs ! j))"
proof (induction cs arbitrary: i cs')
  case (Cons c cs)
  show ?case
  proof (cases "available c")
    case True
    then show ?thesis using Cons.prems by (auto simp: try_lock_def)
  next
    case False
    then obtain cs1 where r: "lock_first cs (i + 1) = (cs1, Some k)" and cs': "cs' = c\<lparr>available := False\<rparr> # cs1"
      using Cons.prems by (auto simp: try_lock_def split: prod.splits)
    from Cons.IH [OF r] obtain m where m: "k - i = Suc m" "k - (i + 1) = m"
      by (metis Suc_diff_le Suc_eq_plus1 diff_Suc_Suc)
    have c: "c\<lparr>available := False\<rparr> = c" using False by (cases c) simp
    show ?thesis
      using Cons.IH [OF r] False unfolding cs' c m by (auto simp: less_Suc_eq_0_disj)
  qed
qed simp

section \<open>Runs of the pool\<close>

text \<open>
  A run: the pool, the guards that are alive, and the ticks handed out so far with the clock
  they came from (newest first). No clock reaches the largest \<open>u64\<close>.
\<close>

inductive cs_run :: "nat \<Rightarrow> clock_set \<Rightarrow> nat list \<Rightarrow> (nat \<times> u64) list \<Rightarrow> bool" for n where
  start: "cs_run n (with_max_clocks n) [] []"
| get: "cs_run n s held h \<Longrightarrow> get_clock s = (s', Some i) \<Longrightarrow> cs_run n s' (i # held) h"
| full: "cs_run n s held h \<Longrightarrow> get_clock s = (s', None) \<Longrightarrow> cs_run n s' held h"
| tick: "cs_run n s held h \<Longrightarrow> i \<in> set held \<Longrightarrow> next_tick (pool s ! i) \<noteq> - 1 \<Longrightarrow>
    guard_tick_once s i = (s', t) \<Longrightarrow> cs_run n s' held ((i, t) # h)"
| advance: "cs_run n s held h \<Longrightarrow> i \<in> set held \<Longrightarrow> t \<noteq> - 1 \<Longrightarrow>
    cs_run n (guard_advance_to s i t) held h"
| dropped: "cs_run n s held h \<Longrightarrow> i \<in> set held \<Longrightarrow> cs_run n (guard_drop s i) (removeAll i held) h"

definition cs_inv :: "nat \<Rightarrow> clock_set \<Rightarrow> nat list \<Rightarrow> (nat \<times> u64) list \<Rightarrow> bool" where
  "cs_inv n s held h \<longleftrightarrow> max_clocks s = n \<and> length (pool s) \<le> n \<and> distinct held \<and>
     (\<forall>i. i \<in> set held \<longleftrightarrow> i < length (pool s) \<and> \<not> available (pool s ! i)) \<and>
     (\<forall>(i, t) \<in> set h. i < length (pool s) \<and> (t = 0 \<or> t < next_tick (pool s ! i)))"

lemma get_clock_cases:
  assumes "get_clock s = (s', r)"
  obtains (reuse) i where "r = Some i" "i < length (pool s)" "available (pool s ! i)"
      "s' = s\<lparr>pool := (pool s)[i := (pool s ! i)\<lparr>available := False\<rparr>]\<rparr>"
    | (fresh) "r = Some (length (pool s))" "\<forall>c \<in> set (pool s). \<not> available c"
      "length (pool s) < max_clocks s" "s' = s\<lparr>pool := pool s @ [new_locked]\<rparr>"
    | (full) "r = None" "\<forall>c \<in> set (pool s). \<not> available c" "max_clocks s \<le> length (pool s)" "s' = s"
proof -
  obtain cs o' where l: "lock_first (pool s) 0 = (cs, o')" by (cases "lock_first (pool s) 0")
  show ?thesis
  proof (cases o')
    case None
    then show ?thesis
      using lock_first_None [of "pool s" 0 cs] l assms fresh full
      by (cases s) (auto simp: get_clock_def Let_def split: if_splits)
  next
    case (Some i)
    then show ?thesis
      using lock_first_Some [of "pool s" 0 cs i] l assms reuse by (auto simp: get_clock_def)
  qed
qed

lemma cs_inv_update:
  assumes inv: "cs_inv n s held h" and i: "i < length (pool s)"
    and mono: "next_tick (pool s ! i) \<le> next_tick c'"
    and held: "available c' \<longleftrightarrow> i \<notin> set held'" "\<And>j. j \<noteq> i \<Longrightarrow> j \<in> set held' \<longleftrightarrow> j \<in> set held"
    "distinct held'"
  shows "cs_inv n (s\<lparr>pool := (pool s)[i := c']\<rparr>) held' h"
proof -
  have "j \<in> set held' \<longleftrightarrow> j < length (pool s) \<and> \<not> available ((pool s)[i := c'] ! j)" for j
    using inv i held by (cases "j = i") (simp_all add: cs_inv_def)
  moreover have "j < length (pool s) \<and> (t = 0 \<or> t < next_tick ((pool s)[i := c'] ! j))"
    if "(j, t) \<in> set h" for j t
  proof -
    have "j < length (pool s)" "t = 0 \<or> t < next_tick (pool s ! j)"
      using inv that by (auto simp: cs_inv_def)
    then show ?thesis using mono i by (cases "j = i") (auto intro: less_le_trans)
  qed
  ultimately show ?thesis using inv held(3) unfolding cs_inv_def by auto
qed

lemma cs_run_inv: "cs_run n s held h \<Longrightarrow> cs_inv n s held h"
proof (induction rule: cs_run.induct)
  case start
  then show ?case by (simp add: cs_inv_def with_max_clocks_def)
next
  case (get s held h s' i)
  from get.hyps(2) show ?case
  proof (cases rule: get_clock_cases)
    case (reuse j)
    then have "i \<notin> set held" using get.IH by (auto simp: cs_inv_def)
    moreover have "distinct held" using get.IH by (simp add: cs_inv_def)
    ultimately show ?thesis using reuse cs_inv_update [OF get.IH, of j] by simp
  next
    case fresh
    have "j \<in> set (i # held) \<longleftrightarrow> j < length (pool s') \<and> \<not> available (pool s' ! j)" for j
      using get.IH fresh by (cases "j < length (pool s)") (auto simp: cs_inv_def nth_append new_locked_def)
    moreover have "\<forall>(j, t) \<in> set h. j < length (pool s') \<and> (t = 0 \<or> t < next_tick (pool s' ! j))"
      using get.IH fresh by (fastforce simp: cs_inv_def nth_append)
    moreover have "distinct (i # held)" using get.IH fresh by (auto simp: cs_inv_def)
    ultimately show ?thesis using get.IH fresh unfolding cs_inv_def by simp
  qed simp
next
  case (full s held h s')
  from full.hyps(2) show ?case
    by (cases rule: get_clock_cases) (use full.IH in simp_all)
next
  case (tick s held h i s' t)
  let ?c = "pool s ! i"
  let ?c' = "?c\<lparr>next_tick := if next_tick ?c = 0 then 0 else next_tick ?c + 1\<rparr>"
  have i: "i < length (pool s)" "\<not> available ?c" "distinct held"
    using tick.IH tick.hyps(2) by (auto simp: cs_inv_def)
  have s': "s' = s\<lparr>pool := (pool s)[i := ?c']\<rparr>" "t = next_tick ?c"
    using tick.hyps(4) by (cases ?c; auto simp: guard_tick_once_def tick_once_def Let_def)+
  have lt: "next_tick ?c < next_tick ?c + 1"
    using word64_less_succ_iff [OF tick.hyps(3)] by simp
  have "next_tick ?c \<le> next_tick ?c'" using lt by auto
  then have "cs_inv n s' held h"
    unfolding s' using cs_inv_update [OF tick.IH i(1), of ?c' held] i tick.hyps(2) by simp
  moreover have "i < length (pool s') \<and> (t = 0 \<or> t < next_tick (pool s' ! i))"
    using i(1) lt unfolding s' by simp
  ultimately show ?case unfolding cs_inv_def by auto
next
  case (advance s held h i t)
  have "i < length (pool s)" "\<not> available (pool s ! i)" "distinct held"
    using advance.IH advance.hyps(2) by (auto simp: cs_inv_def)
  then show ?case
    unfolding guard_advance_to_def
    using cs_inv_update [OF advance.IH, of i "pc_advance_to (pool s ! i) t" held] advance.hyps(2)
    by (simp add: pc_advance_to_def)
next
  case (dropped s held h i)
  have "i < length (pool s)" "distinct held" using dropped.IH dropped.hyps(2) by (auto simp: cs_inv_def)
  then show ?case
    unfolding guard_drop_def
    using cs_inv_update [OF dropped.IH, of i "release (pool s ! i)" "removeAll i held"]
    by (simp add: release_def distinct_removeAll)
qed

section \<open>Properties\<close>

text \<open>Clocks are exclusive: a clock that is handed out is never one whose guard is still
  alive, there are never more clocks than the maximum, and no clock is only handed out when the
  maximum number of guards is alive.\<close>

lemma clock_set_exclusive:
  assumes "cs_run n s held h"
  shows "case get_clock s of
      (s', Some i) \<Rightarrow> i \<notin> set held \<and> i < n \<and> length (pool s') \<le> n
    | (s', None) \<Rightarrow> length held = n \<and> distinct held"
proof -
  have inv: "cs_inv n s held h" by (rule cs_run_inv [OF assms])
  obtain s' r where g: "get_clock s = (s', r)" by (cases "get_clock s")
  from g show ?thesis
  proof (cases rule: get_clock_cases)
    case (reuse i)
    with g inv show ?thesis by (auto simp: cs_inv_def)
  next
    case fresh
    with g inv show ?thesis by (auto simp: cs_inv_def)
  next
    case full
    then have "set held = {..<length (pool s)}" using inv by (auto simp: cs_inv_def)
    then have "length held = length (pool s)" using inv by (metis card_lessThan cs_inv_def distinct_card)
    with full g inv show ?thesis by (auto simp: cs_inv_def)
  qed
qed

text \<open>No tag is handed out twice: a tick of a held clock is 0 (the clock was not synchronised
  yet) or above every tick handed out for this clock before, whoever held it.\<close>

lemma clock_set_ticks_increase:
  assumes "cs_run n s held h" "i \<in> set held" "guard_tick_once s i = (s', t)"
  shows "t = 0 \<or> (\<forall>t'. (i, t') \<in> set h \<longrightarrow> t' < t)"
proof -
  have inv: "cs_inv n s held h" by (rule cs_run_inv [OF assms(1)])
  have "t = next_tick (pool s ! i)"
    using assms(3) by (auto simp: guard_tick_once_def tick_once_def Let_def split_beta)
  then show ?thesis using inv by (force simp: cs_inv_def word_neq_0_conv)
qed

text \<open>C40: Synchronising with a replica takes one correction. When the tick of a held clock is
  rejected by a replica and the clock is advanced to the tick the replica answered with, the
  next tick of the clock is accepted by the replica.\<close>

theorem clock_sync_converges:
  assumes "i < length (pool s)" "guard_tick_once s i = (s1, t)"
    "advance_clock_and_correct_tag cm (clock_tag_new_with_token peer cid t tok) = (cm', tag, False)"
    "guard_tick_once (guard_advance_to s1 i (ct_clock_tick tag)) i = (s2, t2)"
    "ct_clock_tick tag \<noteq> - 1"
  shows "snd (snd (advance_clock_and_correct_tag cm' (clock_tag_new_with_token peer cid t2 tok2)))"
proof -
  let ?k = "key_new peer cid" and ?r = "advance_clock_impl cm (clock_tag_new_with_token peer cid t tok)"
  have k: "key_from_tag (clock_tag_new_with_token peer cid x y) = ?k" for x y
    by (simp add: key_from_tag_def clock_tag_new_with_token_def)
  have ct: "ct_clock_tick (clock_tag_new_with_token peer cid x y) = x" for x y
    by (simp add: clock_tag_new_with_token_def)
  have cm': "cm' = fst ?r" "ct_clock_tick tag = snd (snd ?r)"
    using assms(3) by (auto simp: advance_and_correct_unfold Let_def split: if_splits)
  then have tick: "tick_of cm' ?k = ct_clock_tick tag"
    by (simp add: tick_of_advance_impl advance_clock_impl_tick k ct)
  have "next_tick (pool (guard_advance_to s1 i (ct_clock_tick tag)) ! i) =
      max (next_tick (pool s1 ! i)) (ct_clock_tick tag + 1)"
    using assms(1,2) by (auto simp: guard_advance_to_def pc_advance_to_def guard_tick_once_def split_beta)
  moreover have "t2 = next_tick (pool (guard_advance_to s1 i (ct_clock_tick tag)) ! i)"
    using assms(4) by (auto simp: guard_tick_once_def tick_once_def Let_def split_beta)
  ultimately have "ct_clock_tick tag + 1 \<le> t2" by simp
  then have "ct_clock_tick tag < t2"
    using word64_less_succ_iff [OF assms(5), of "ct_clock_tick tag"] by (metis order.refl less_le_trans)
  then show ?thesis
    by (simp add: advance_and_correct_unfold Let_def advance_clock_impl_accepted k ct tick)
qed

section \<open>Witnesses\<close>

lemma cs_run_example:
  "cs_run 2 \<lparr>pool = [\<lparr>next_tick = 6, available = False\<rparr>], max_clocks = 2\<rparr> [0] [(0, 5)]"
proof -
  have g: "get_clock (with_max_clocks 2) = (\<lparr>pool = [new_locked], max_clocks = 2\<rparr>, Some 0)" by code_simp
  have a: "guard_advance_to \<lparr>pool = [new_locked], max_clocks = 2\<rparr> 0 4 =
      \<lparr>pool = [\<lparr>next_tick = 5, available = False\<rparr>], max_clocks = 2\<rparr>" by code_simp
  have t: "guard_tick_once \<lparr>pool = [\<lparr>next_tick = 5, available = False\<rparr>], max_clocks = 2\<rparr> 0 =
      (\<lparr>pool = [\<lparr>next_tick = 6, available = False\<rparr>], max_clocks = 2\<rparr>, 5)" by code_simp
  have "cs_run 2 \<lparr>pool = [new_locked], max_clocks = 2\<rparr> [0] []" by (rule cs_run.get [OF cs_run.start g])
  from cs_run.advance [OF this, of 0 4] a
  have "cs_run 2 \<lparr>pool = [\<lparr>next_tick = 5, available = False\<rparr>], max_clocks = 2\<rparr> [0] []" by simp
  from cs_run.tick [OF this _ _ t] show ?thesis by simp
qed

theorem clock_sync_converges_witness:
  "snd (snd (advance_clock_and_correct_tag clock_map_example (clock_tag_new_with_token 1 2 6 7)))"
proof -
  let ?s = "\<lparr>pool = [new_locked], max_clocks = 2\<rparr>"
  obtain cm' tag where r: "advance_clock_and_correct_tag clock_map_example (clock_tag_new_with_token 1 2 0 3) =
      (cm', tag, False)" "ct_clock_tick tag = 5" "cm' = clock_map_example"
  proof -
    have "advance_clock_and_correct_tag clock_map_example (clock_tag_new_with_token 1 2 0 3) =
        (clock_map_example, (clock_tag_new_with_token 1 2 0 3)\<lparr>ct_clock_tick := 5\<rparr>, False)" by code_simp
    then show ?thesis by (rule that) simp_all
  qed
  have "guard_tick_once ?s 0 = (?s, 0)"
    "guard_tick_once (guard_advance_to ?s 0 5) 0 = (\<lparr>pool = [\<lparr>next_tick = 7, available = False\<rparr>], max_clocks = 2\<rparr>, 6)"
    by code_simp+
  with clock_sync_converges [of 0 ?s ?s 0 clock_map_example 1 2 3 cm' tag _ 6 7] r
  show ?thesis by (simp add: new_locked_def)
qed

end
