(* ===== verification/ReplicaState.thy ===== *)
theory ReplicaState
  imports Prelude
begin

text \<open>
  \<open>lib/collection/src/shards/replica_set/replica_set_state.rs\<close>: the states of the replicas of a
  shard, what each state allows, and the table of peers a replica set keeps.
\<close>

datatype replica_state =
    Active
  | Dead
  | Partial
  | Initializing
  | Listener
  | PartialSnapshot
  | Recovery
  | Resharding
  | ReshardingScaleDown
  | ActiveRead
  | ManualRecovery

section \<open>What a state allows\<close>

fun is_active :: "replica_state \<Rightarrow> bool" where
  "is_active Active = True"
| "is_active ReshardingScaleDown = True"
| "is_active _ = False"

fun is_readable :: "replica_state \<Rightarrow> bool" where
  "is_readable Active = True"
| "is_readable ReshardingScaleDown = True"
| "is_readable ActiveRead = True"
| "is_readable _ = False"

fun is_updatable :: "replica_state \<Rightarrow> bool" where
  "is_updatable Active = True"
| "is_updatable Partial = True"
| "is_updatable Initializing = True"
| "is_updatable Listener = True"
| "is_updatable Recovery = False"
| "is_updatable PartialSnapshot = False"
| "is_updatable Resharding = True"
| "is_updatable ReshardingScaleDown = True"
| "is_updatable Dead = False"
| "is_updatable ActiveRead = True"
| "is_updatable ManualRecovery = False"

fun can_be_source_of_truth :: "replica_state \<Rightarrow> bool" where
  "can_be_source_of_truth Active = True"
| "can_be_source_of_truth ActiveRead = True"
| "can_be_source_of_truth Resharding = True"
| "can_be_source_of_truth ReshardingScaleDown = True"
| "can_be_source_of_truth _ = False"

fun is_healthy :: "replica_state \<Rightarrow> bool" where
  "is_healthy Active = True"
| "is_healthy Listener = True"
| "is_healthy Resharding = True"
| "is_healthy ManualRecovery = True"
| "is_healthy ReshardingScaleDown = True"
| "is_healthy _ = False"

fun requires_recovery :: "replica_state \<Rightarrow> bool" where
  "requires_recovery Dead = True"
| "requires_recovery _ = False"

fun is_partial_or_recovery :: "replica_state \<Rightarrow> bool" where
  "is_partial_or_recovery Active = False"
| "is_partial_or_recovery Dead = False"
| "is_partial_or_recovery Initializing = False"
| "is_partial_or_recovery Listener = False"
| "is_partial_or_recovery _ = True"

fun is_resharding :: "replica_state \<Rightarrow> bool" where
  "is_resharding Resharding = True"
| "is_resharding ReshardingScaleDown = True"
| "is_resharding _ = False"

section \<open>The table of peers\<close>

record replica_set_state =
  is_local :: bool
  this_peer_id :: u64
  peers :: "(u64, replica_state) hashmap"

definition get_peer_state :: "replica_set_state \<Rightarrow> u64 \<Rightarrow> replica_state option" where
  "get_peer_state r p = map_of (peers r) p"

definition set_peer_state ::
  "replica_set_state \<Rightarrow> u64 \<Rightarrow> replica_state \<Rightarrow> replica_set_state \<times> replica_state option" where
  "set_peer_state r p s = (r\<lparr>peers := AList.update p s (peers r)\<rparr>, map_of (peers r) p)"

definition remove_peer_state ::
  "replica_set_state \<Rightarrow> u64 \<Rightarrow> replica_set_state \<times> replica_state option" where
  "remove_peer_state r p = (r\<lparr>peers := AList.delete p (peers r)\<rparr>, map_of (peers r) p)"

definition check_peers_state_all :: "replica_set_state \<Rightarrow> (replica_state \<Rightarrow> bool) \<Rightarrow> bool" where
  "check_peers_state_all r check = list_all check (map snd (peers r))"

definition active_peers :: "replica_set_state \<Rightarrow> u64 list" where
  "active_peers r = map fst (filter (\<lambda>(p, s). is_active s) (peers r))"

definition readable_peers :: "replica_set_state \<Rightarrow> u64 list" where
  "readable_peers r = map fst (filter (\<lambda>(p, s). is_readable s) (peers r))"

definition active_or_resharding_peers :: "replica_set_state \<Rightarrow> u64 list" where
  "active_or_resharding_peers r =
     map fst (filter (\<lambda>(p, s). s \<in> {Active, Resharding, ReshardingScaleDown}) (peers r))"

definition set_peers :: "replica_set_state \<Rightarrow> (u64, replica_state) hashmap \<Rightarrow> replica_set_state" where
  "set_peers r ps = r\<lparr>peers := ps\<rparr>"

definition switch_peer_id :: "replica_set_state \<Rightarrow> u64 \<Rightarrow> replica_set_state" where
  "switch_peer_id r new_peer_id =
     (let old_peer_id = this_peer_id r;
          r1 = r\<lparr>this_peer_id := new_peer_id\<rparr>;
          ps = AList.delete old_peer_id (peers r)
      in r1\<lparr>peers := (case map_of (peers r) old_peer_id of
                        None \<Rightarrow> ps
                      | Some s \<Rightarrow> AList.update new_peer_id s ps)\<rparr>)"

definition force_local_active :: "replica_set_state \<Rightarrow> replica_set_state" where
  "force_local_active r = r\<lparr>peers := [(this_peer_id r, Active)]\<rparr>"

lemma in_readable_peers:
  "p \<in> set (readable_peers r) \<longleftrightarrow> (\<exists>s. (p, s) \<in> set (peers r) \<and> is_readable s)"
  by (force simp: readable_peers_def)

lemma in_active_peers:
  "p \<in> set (active_peers r) \<longleftrightarrow> (\<exists>s. (p, s) \<in> set (peers r) \<and> is_active s)"
  by (force simp: active_peers_def)

section \<open>Properties\<close>

text \<open>The classes of states fit together: an active replica is readable, updatable, healthy, a
  possible source of truth and needs no recovery; a readable replica takes updates and can be a
  source of truth; what can be a source of truth takes updates; a resharding replica counts as
  partial; what requires recovery is neither healthy nor used for reads or updates. So every
  active peer of a replica set is among its readable peers and its
  \<open>active_or_resharding_peers\<close>.\<close>

lemma replica_state_classes:
  "(is_active s \<longrightarrow> is_readable s \<and> is_healthy s \<and> \<not> requires_recovery s) \<and>
   (is_readable s \<longrightarrow> can_be_source_of_truth s) \<and>
   (can_be_source_of_truth s \<longrightarrow> is_updatable s) \<and>
   (is_resharding s \<longrightarrow> is_partial_or_recovery s \<and> is_healthy s) \<and>
   (requires_recovery s \<longrightarrow> \<not> is_healthy s \<and> \<not> is_updatable s) \<and>
   set (active_peers r) \<subseteq> set (readable_peers r) \<inter> set (active_or_resharding_peers r)"
proof (intro conjI)
  have "is_active x \<Longrightarrow> is_readable x \<and> x \<in> {Active, Resharding, ReshardingScaleDown}" for x
    by (cases x) simp_all
  then show "set (active_peers r) \<subseteq> set (readable_peers r) \<inter> set (active_or_resharding_peers r)"
    by (force simp: active_peers_def readable_peers_def active_or_resharding_peers_def)
qed (cases s; simp)+

text \<open>Switching the peer id moves the state of the local replica to the new id and changes no
  other peer's state, apart from the new id's own when the local replica had a state; forcing the
  local replica active leaves it as the only one.\<close>

lemma switch_peer_id_functional:
  assumes "hm_wf (peers r)" "new \<noteq> this_peer_id r"
  shows "get_peer_state (switch_peer_id r new) p =
      (if p = this_peer_id r then None
       else if p = new \<and> get_peer_state r (this_peer_id r) \<noteq> None then get_peer_state r (this_peer_id r)
       else get_peer_state r p) \<and>
    hm_wf (peers (switch_peer_id r new)) \<and>
    active_peers (force_local_active (switch_peer_id r new)) = [new]"
  using assms
  by (auto simp: switch_peer_id_def get_peer_state_def Let_def hashmap_simps force_local_active_def
      active_peers_def split: option.split)

end
