(* ===== verification/DomTree.thy ===== *)
theory DomTree
  imports Prelude "HOL-Library.Monad_Syntax"
begin

text \<open>
  \<open>crates/obscura-dom/src/tree.rs\<close> of the headless browser: the DOM as an arena of nodes that
  point to parent, siblings and first and last child. Qualified names come from \<open>html5ever\<close>: the
  type and its two functions are parameters. Traversals follow the pointers and may not end, so
  they are partial functions: \<open>None\<close> is "does not return" (or, in \<open>remove\<close>, an index panic).
\<close>

section \<open>The arena\<close>

record 'q qual_ops =
  local_name :: "'q \<Rightarrow> string"
  qual_name_new :: "string \<Rightarrow> 'q"

record 'q attribute =
  attr_name :: 'q
  attr_value :: string

datatype 'q node_data =
    Document
  | Doctype string string string
  | Element 'q "'q attribute list" "nat option" bool
  | Text string
  | Comment string
  | ProcessingInstruction string string

record 'q dom_node =
  node_id :: nat
  parent :: "nat option"
  first_child :: "nat option"
  last_child :: "nat option"
  prev_sibling :: "nat option"
  next_sibling :: "nat option"
  node_data :: "'q node_data"

record 'q dom_tree =
  nodes :: "'q dom_node option list"
  free_list :: "nat list"
  document :: nat
  id_index :: "(string, nat) hashmap"

definition fresh_node :: "nat \<Rightarrow> 'q node_data \<Rightarrow> 'q dom_node" where
  "fresh_node i d = \<lparr>node_id = i, parent = None, first_child = None, last_child = None,
     prev_sibling = None, next_sibling = None, node_data = d\<rparr>"

definition dom_new :: "'q dom_tree" where
  "dom_new = \<lparr>nodes = [Some (fresh_node 0 Document)], free_list = [], document = 0, id_index = []\<rparr>"

definition get_node :: "'q dom_tree \<Rightarrow> nat \<Rightarrow> 'q dom_node option" where
  "get_node t i = (if i < length (nodes t) then nodes t ! i else None)"

definition with_node_mut :: "'q dom_tree \<Rightarrow> nat \<Rightarrow> ('q dom_node \<Rightarrow> 'q dom_node) \<Rightarrow> 'q dom_tree" where
  "with_node_mut t i f = t\<lparr>nodes := (nodes t)[i := map_option f (get_node t i)]\<rparr>"

section \<open>Nodes\<close>

fun is_document :: "'q node_data \<Rightarrow> bool" where
  "is_document Document = True"
| "is_document _ = False"

fun is_element :: "'q node_data \<Rightarrow> bool" where
  "is_element (Element _ _ _ _) = True"
| "is_element _ = False"

fun is_text :: "'q node_data \<Rightarrow> bool" where
  "is_text (Text _) = True"
| "is_text _ = False"

fun as_element :: "'q node_data \<Rightarrow> 'q option" where
  "as_element (Element name _ _ _) = Some name"
| "as_element _ = None"

fun attrs :: "'q node_data \<Rightarrow> 'q attribute list option" where
  "attrs (Element _ as _ _) = Some as"
| "attrs _ = None"

definition get_attribute :: "'q qual_ops \<Rightarrow> 'q node_data \<Rightarrow> string \<Rightarrow> string option" where
  "get_attribute q d name =
     Option.bind (attrs d) (\<lambda>as. map_option attr_value (find (\<lambda>a. local_name q (attr_name a) = name) as))"

fun set_first_attr :: "'q qual_ops \<Rightarrow> string \<Rightarrow> string \<Rightarrow> 'q attribute list \<Rightarrow> 'q attribute list" where
  "set_first_attr q name v [] = [\<lparr>attr_name = qual_name_new q name, attr_value = v\<rparr>]"
| "set_first_attr q name v (a # as) =
     (if local_name q (attr_name a) = name then a\<lparr>attr_value := v\<rparr> # as
      else a # set_first_attr q name v as)"

fun set_attribute :: "'q qual_ops \<Rightarrow> 'q node_data \<Rightarrow> string \<Rightarrow> string \<Rightarrow> 'q node_data" where
  "set_attribute q (Element n as tc b) name v = Element n (set_first_attr q name v as) tc b"
| "set_attribute q d name v = d"

section \<open>Operations\<close>

definition new_node :: "'q qual_ops \<Rightarrow> 'q dom_tree \<Rightarrow> 'q node_data \<Rightarrow> 'q dom_tree \<times> nat" where
  "new_node q t d =
     (let (t1, i) = (if free_list t \<noteq> []
                     then (t\<lparr>free_list := butlast (free_list t)\<rparr>, last (free_list t))
                     else (t\<lparr>nodes := nodes t @ [None]\<rparr>, length (nodes t)));
          t2 = (case get_attribute q d ''id'' of
                  None \<Rightarrow> t1
                | Some v \<Rightarrow> t1\<lparr>id_index := AList.update v i (id_index t1)\<rparr>)
      in (t2\<lparr>nodes := (nodes t2)[i := Some (fresh_node i d)]\<rparr>, i))"

definition detach :: "'q dom_tree \<Rightarrow> nat \<Rightarrow> 'q dom_tree" where
  "detach t i =
     (case get_node t i of
        None \<Rightarrow> t
      | Some n \<Rightarrow>
          (let t1 = (case prev_sibling n of
                 Some p \<Rightarrow> with_node_mut t p (\<lambda>m. m\<lparr>next_sibling := next_sibling n\<rparr>)
               | None \<Rightarrow> (case parent n of
                     Some par \<Rightarrow> with_node_mut t par (\<lambda>m. m\<lparr>first_child := next_sibling n\<rparr>)
                   | None \<Rightarrow> t));
               t2 = (case next_sibling n of
                 Some x \<Rightarrow> with_node_mut t1 x (\<lambda>m. m\<lparr>prev_sibling := prev_sibling n\<rparr>)
               | None \<Rightarrow> (case parent n of
                     Some par \<Rightarrow> with_node_mut t1 par (\<lambda>m. m\<lparr>last_child := prev_sibling n\<rparr>)
                   | None \<Rightarrow> t1))
           in with_node_mut t2 i
                (\<lambda>m. m\<lparr>parent := None, prev_sibling := None, next_sibling := None\<rparr>)))"

definition append_child :: "'q dom_tree \<Rightarrow> nat \<Rightarrow> nat \<Rightarrow> 'q dom_tree" where
  "append_child t p c =
     (let t0 = detach t c;
          old_last = Option.bind (get_node t0 p) last_child;
          t1 = with_node_mut t0 c (\<lambda>m. m\<lparr>parent := Some p, prev_sibling := old_last, next_sibling := None\<rparr>);
          t2 = (case old_last of
                  Some l \<Rightarrow> with_node_mut t1 l (\<lambda>m. m\<lparr>next_sibling := Some c\<rparr>)
                | None \<Rightarrow> t1)
      in with_node_mut t2 p (\<lambda>m.
           (if first_child m = None then m\<lparr>first_child := Some c\<rparr> else m)\<lparr>last_child := Some c\<rparr>))"

definition insert_before :: "'q dom_tree \<Rightarrow> nat \<Rightarrow> nat \<Rightarrow> 'q dom_tree" where
  "insert_before t e x =
     (case get_node t e of
        None \<Rightarrow> t
      | Some n \<Rightarrow>
          (case parent n of
             None \<Rightarrow> t
           | Some p \<Rightarrow>
               (let prev = prev_sibling n;
                    t0 = detach t x;
                    t1 = with_node_mut t0 x
                      (\<lambda>m. m\<lparr>parent := Some p, prev_sibling := prev, next_sibling := Some e\<rparr>);
                    t2 = with_node_mut t1 e (\<lambda>m. m\<lparr>prev_sibling := Some x\<rparr>)
                in case prev of
                     Some y \<Rightarrow> with_node_mut t2 y (\<lambda>m. m\<lparr>next_sibling := Some x\<rparr>)
                   | None \<Rightarrow> with_node_mut t2 p (\<lambda>m. m\<lparr>first_child := Some x\<rparr>))))"

section \<open>Traversals\<close>

definition first_of :: "'q dom_tree \<Rightarrow> nat \<Rightarrow> nat option" where
  "first_of t i = Option.bind (get_node t i) first_child"

definition next_of :: "'q dom_tree \<Rightarrow> nat \<Rightarrow> nat option" where
  "next_of t i = Option.bind (get_node t i) next_sibling"

definition parent_of :: "'q dom_tree \<Rightarrow> nat \<Rightarrow> nat option" where
  "parent_of t i = Option.bind (get_node t i) parent"

text \<open>Following a pointer until it is \<open>None\<close>.\<close>

partial_function (option) follow :: "(nat \<Rightarrow> nat option) \<Rightarrow> nat option \<Rightarrow> nat list option" where
  "follow step cur =
     (case cur of
        None \<Rightarrow> Some []
      | Some c \<Rightarrow> Option.bind (follow step (step c)) (\<lambda>r. Some (c # r)))"

definition children :: "'q dom_tree \<Rightarrow> nat \<Rightarrow> nat list option" where
  "children t i = follow (next_of t) (first_of t i)"

definition ancestors :: "'q dom_tree \<Rightarrow> nat \<Rightarrow> nat list option" where
  "ancestors t i = follow (parent_of t) (parent_of t i)"

text \<open>The loop of \<open>descendants\<close>, the top of the stack first.\<close>

partial_function (option) descend :: "'q dom_tree \<Rightarrow> nat list \<Rightarrow> nat list option" where
  "descend t stack =
     (case stack of
        [] \<Rightarrow> Some []
      | c # rest \<Rightarrow>
          Option.bind (children t c)
            (\<lambda>cs. Option.bind (descend t (cs @ rest)) (\<lambda>r. Some (c # r))))"

definition descendants :: "'q dom_tree \<Rightarrow> nat \<Rightarrow> nat list option" where
  "descendants t i = Option.bind (children t i) (descend t)"

definition remove_slots :: "'q dom_tree \<Rightarrow> nat list \<Rightarrow> 'q dom_tree" where
  "remove_slots t is = foldl (\<lambda>t i. t\<lparr>nodes := (nodes t)[i := None], free_list := free_list t @ [i]\<rparr>) t is"

definition dom_remove :: "'q qual_ops \<Rightarrow> 'q dom_tree \<Rightarrow> nat \<Rightarrow> 'q dom_tree option" where
  "dom_remove q t i =
     (let t0 = detach t i
      in Option.bind (descendants t0 i) (\<lambda>ds.
           let ids = List.map_filter (\<lambda>d. Option.bind (get_node t0 d)
                         (\<lambda>n. get_attribute q (node_data n) ''id'')) (ds @ [i]);
               t1 = t0\<lparr>id_index := foldl (\<lambda>m v. AList.delete v m) (id_index t0) ids\<rparr>
           in if list_all (\<lambda>d. d < length (nodes t0)) (ds @ [i])
              then Some (remove_slots t1 (ds @ [i])) else None))"

definition get_element_by_id :: "'q dom_tree \<Rightarrow> string \<Rightarrow> nat option" where
  "get_element_by_id t v = map_of (id_index t) v"

text \<open>\<open>collect_text_inner\<close> over the siblings from \<open>cur\<close> on.\<close>

partial_function (option) collect_text :: "'q dom_tree \<Rightarrow> nat option \<Rightarrow> string option" where
  "collect_text t cur =
     (case cur of
        None \<Rightarrow> Some []
      | Some c \<Rightarrow>
          Option.bind
            (case get_node t c of
               None \<Rightarrow> Some []
             | Some n \<Rightarrow> (case node_data n of
                  Text s \<Rightarrow> Some s
                | _ \<Rightarrow> collect_text t (first_child n)))
            (\<lambda>a. Option.bind (collect_text t (next_of t c)) (\<lambda>b. Some (a @ b))))"

definition text_content :: "'q dom_tree \<Rightarrow> nat \<Rightarrow> string option" where
  "text_content t i =
     (case get_node t i of
        None \<Rightarrow> Some []
      | Some n \<Rightarrow> (case node_data n of Text s \<Rightarrow> Some s | _ \<Rightarrow> collect_text t (first_child n)))"

definition append_text :: "'q qual_ops \<Rightarrow> 'q dom_tree \<Rightarrow> nat \<Rightarrow> string \<Rightarrow> 'q dom_tree" where
  "append_text q t p text =
     (case Option.bind (get_node t p) last_child of
        Some l \<Rightarrow>
          (case get_node t l of
             Some n \<Rightarrow>
               (case node_data n of
                  Text s \<Rightarrow> with_node_mut t l (\<lambda>m. m\<lparr>node_data := Text (s @ text)\<rparr>)
                | _ \<Rightarrow> (let (t1, i) = new_node q t (Text text) in append_child t1 p i))
           | None \<Rightarrow> (let (t1, i) = new_node q t (Text text) in append_child t1 p i))
      | None \<Rightarrow> (let (t1, i) = new_node q t (Text text) in append_child t1 p i))"

definition dom_len :: "'q dom_tree \<Rightarrow> nat" where
  "dom_len t = length (filter (\<lambda>n. n \<noteq> None) (nodes t))"

definition dom_is_empty :: "'q dom_tree \<Rightarrow> bool" where
  "dom_is_empty t \<longleftrightarrow> dom_len t \<le> 1"

definition has_local_name :: "'q qual_ops \<Rightarrow> 'q dom_tree \<Rightarrow> string \<Rightarrow> nat \<Rightarrow> bool" where
  "has_local_name q t name i =
     (case get_node t i of
        None \<Rightarrow> False
      | Some n \<Rightarrow> (case as_element (node_data n) of None \<Rightarrow> False | Some x \<Rightarrow> local_name q x = name))"

definition find_body_or_root :: "'q qual_ops \<Rightarrow> 'q dom_tree \<Rightarrow> nat option" where
  "find_body_or_root q t =
     Option.bind (children t (document t)) (\<lambda>cs.
       case find (has_local_name q t ''html'') cs of
         None \<Rightarrow> Some (document t)
       | Some html \<Rightarrow> Option.bind (children t html) (\<lambda>hs.
           case find (has_local_name q t ''body'') hs of
             None \<Rightarrow> Some html
           | Some body \<Rightarrow> Some body))"

text \<open>\<open>import_node_from\<close> for a list of source nodes: a node is copied and then its children.\<close>

partial_function (option) import_nodes_from ::
  "'q qual_ops \<Rightarrow> 'q dom_tree \<Rightarrow> 'q dom_tree \<Rightarrow> nat \<Rightarrow> nat list \<Rightarrow> 'q dom_tree option" where
  "import_nodes_from q src t p is =
     (case is of
        [] \<Rightarrow> Some t
      | i # rest \<Rightarrow>
          Option.bind
            (case get_node src i of
               None \<Rightarrow> Some t
             | Some n \<Rightarrow>
                 (let (t1, new) = new_node q t (node_data n); t2 = append_child t1 p new
                  in Option.bind (children src i) (\<lambda>cs. import_nodes_from q src t2 new cs)))
            (\<lambda>t'. import_nodes_from q src t' p rest))"

definition import_children_from ::
  "'q qual_ops \<Rightarrow> 'q dom_tree \<Rightarrow> nat \<Rightarrow> 'q dom_tree \<Rightarrow> nat \<Rightarrow> 'q dom_tree option" where
  "import_children_from q t p src i =
     Option.bind (children src i) (import_nodes_from q src t p)"

definition update_id_index :: "'q dom_tree \<Rightarrow> nat \<Rightarrow> string option \<Rightarrow> string option \<Rightarrow> 'q dom_tree" where
  "update_id_index t i old_id new_id =
     (let m1 = (case old_id of None \<Rightarrow> id_index t | Some v \<Rightarrow> AList.delete v (id_index t));
          m2 = (case new_id of None \<Rightarrow> m1 | Some v \<Rightarrow> AList.update v i m1)
      in t\<lparr>id_index := m2\<rparr>)"

section \<open>The calls from scripts\<close>

text \<open>The commands of \<open>op_dom\<close> that move nodes, with \<open>arg1\<close> and \<open>arg2\<close> already parsed, and the
  script's \<open>appendChild\<close>, \<open>removeChild\<close> and \<open>insertBefore\<close>. \<open>_dom\<close> passes on two arguments only.\<close>

datatype dom_command = CmdAppendChild | CmdRemoveChild | CmdInsertBefore

fun op_dom :: "'q dom_tree \<Rightarrow> dom_command \<Rightarrow> nat \<Rightarrow> nat \<Rightarrow> 'q dom_tree" where
  "op_dom t CmdAppendChild arg1 arg2 = append_child t arg1 arg2"
| "op_dom t CmdRemoveChild arg1 _ = detach t arg1"
| "op_dom t CmdInsertBefore arg1 arg2 = insert_before t arg2 arg1"

definition js_insert_before :: "'q dom_tree \<Rightarrow> nat \<Rightarrow> nat \<Rightarrow> nat option \<Rightarrow> 'q dom_tree" where
  "js_insert_before t this n ref =
     (case ref of
        None \<Rightarrow> op_dom t CmdAppendChild this n
      | Some _ \<Rightarrow> op_dom t CmdInsertBefore this n)"

section \<open>The forest the pointers represent\<close>

abbreviation hd_opt :: "'a list \<Rightarrow> 'a option" where
  "hd_opt xs \<equiv> (case xs of [] \<Rightarrow> None | x # _ \<Rightarrow> Some x)"

abbreviation last_opt :: "'a list \<Rightarrow> 'a option" where
  "last_opt xs \<equiv> (if xs = [] then None else Some (last xs))"

text \<open>\<open>kids p\<close> is the list of children of \<open>p\<close>: the pointers of every node agree with it.\<close>

definition rep :: "'q dom_tree \<Rightarrow> (nat \<Rightarrow> nat list) \<Rightarrow> bool" where
  "rep t kids \<longleftrightarrow>
     (\<forall>p. distinct (kids p)) \<and>
     (\<forall>p n. get_node t p = Some n \<longrightarrow> first_child n = hd_opt (kids p) \<and> last_child n = last_opt (kids p)) \<and>
     (\<forall>p. kids p \<noteq> [] \<longrightarrow> get_node t p \<noteq> None) \<and>
     (\<forall>p xs c ys. kids p = xs @ c # ys \<longrightarrow> (\<exists>n. get_node t c = Some n \<and> parent n = Some p \<and>
        prev_sibling n = last_opt xs \<and> next_sibling n = hd_opt ys)) \<and>
     (\<forall>c n. get_node t c = Some n \<longrightarrow> (case parent n of
        None \<Rightarrow> prev_sibling n = None \<and> next_sibling n = None
      | Some p \<Rightarrow> c \<in> set (kids p)))"

lemma rep_distinct: "rep t kids \<Longrightarrow> distinct (kids p)"
  unfolding rep_def by (elim conjE) (rule spec)

lemma rep_ends: "rep t kids \<Longrightarrow> get_node t p = Some n \<Longrightarrow>
    first_child n = hd_opt (kids p) \<and> last_child n = last_opt (kids p)"
  unfolding rep_def by (elim conjE) blast

lemma rep_live: "rep t kids \<Longrightarrow> kids p \<noteq> [] \<Longrightarrow> get_node t p \<noteq> None"
  unfolding rep_def by (elim conjE) blast

lemma rep_links: "rep t kids \<Longrightarrow> kids p = xs @ c # ys \<Longrightarrow> \<exists>n. get_node t c = Some n \<and>
    parent n = Some p \<and> prev_sibling n = last_opt xs \<and> next_sibling n = hd_opt ys"
  unfolding rep_def by (elim conjE) blast

lemma rep_root: "rep t kids \<Longrightarrow> get_node t c = Some n \<Longrightarrow> parent n = None \<Longrightarrow>
    prev_sibling n = None \<and> next_sibling n = None"
  unfolding rep_def by (elim conjE) (drule spec, drule spec, drule (1) mp, simp)

lemma rep_child: "rep t kids \<Longrightarrow> get_node t c = Some n \<Longrightarrow> parent n = Some p \<Longrightarrow> c \<in> set (kids p)"
  unfolding rep_def by (elim conjE) (drule spec, drule spec, drule (1) mp, simp)

lemma rep_parent:
  assumes "rep t kids" "c \<in> set (kids p)"
  shows "parent_of t c = Some p"
proof -
  obtain xs ys where "kids p = xs @ c # ys" using assms(2) by (meson split_list)
  from rep_links [OF assms(1) this] show ?thesis by (auto simp: parent_of_def)
qed

lemma rep_in_kids_iff:
  assumes "rep t kids"
  shows "c \<in> set (kids p) \<longleftrightarrow> parent_of t c = Some p"
proof
  assume "parent_of t c = Some p"
  then show "c \<in> set (kids p)"
    using rep_child [OF assms] by (cases "get_node t c") (auto simp: parent_of_def)
qed (rule rep_parent [OF assms])

lemma rep_kids_unique:
  assumes "rep t kids" "c \<in> set (kids p)" "c \<in> set (kids p')"
  shows "p = p'"
  using rep_parent [OF assms(1,2)] rep_parent [OF assms(1,3)] by simp

lemma get_node_with_node_mut:
  "get_node (with_node_mut t i f) j = (if i = j then map_option f (get_node t j) else get_node t j)"
  by (auto simp: get_node_def with_node_mut_def nth_list_update)

lemma dom_new_rep: "rep dom_new (\<lambda>_. [])"
  by (auto simp: rep_def get_node_def dom_new_def fresh_node_def split: if_splits)

section \<open>Traversing\<close>

lemma follow_None [simp]: "follow step None = Some []"
  by (subst follow.simps) simp

lemma follow_Some: "follow step (Some c) = Option.bind (follow step (step c)) (\<lambda>r. Some (c # r))"
  by (subst follow.simps) simp

lemma rep_follow:
  assumes "rep t kids" "kids p = xs @ ys"
  shows "follow (next_of t) (hd_opt ys) = Some ys"
  using assms(2)
proof (induction ys arbitrary: xs)
  case (Cons c ys)
  have "kids p = (xs @ [c]) @ ys" using Cons.prems by simp
  note IH = Cons.IH [OF this]
  from rep_links [OF assms(1) Cons.prems] have "next_of t c = hd_opt ys" by (auto simp: next_of_def)
  with IH show ?case by (simp add: follow_Some)
qed simp

lemma children_rep:
  assumes "rep t kids"
  shows "children t p = Some (kids p)"
proof (cases "get_node t p")
  case None
  then have "kids p = []" using rep_live [OF assms] by blast
  then show ?thesis using None by (simp add: children_def first_of_def)
next
  case (Some n)
  then show ?thesis
    using rep_ends [OF assms Some] rep_follow [OF assms, of p "[]"] by (simp add: children_def first_of_def)
qed

text \<open>A pointer that leads back to where it started is followed forever.\<close>

lemma follow_cycle1:
  assumes "step c = Some c"
  shows "follow step (Some c) = None"
proof (cases "follow step (Some c)")
  case (Some r)
  have "Some r = Some (c # r)"
    using follow_Some [of step c] unfolding assms Some by simp
  then show ?thesis by simp
qed

lemma follow_cycle2:
  assumes "step c = Some d" "step d = Some c"
  shows "follow step (Some c) = None"
proof (cases "follow step (Some c)")
  case (Some r)
  have "follow step (Some d) = Some (d # r)"
    using follow_Some [of step d] assms(2) Some by simp
  then have "follow step (Some c) = Some (c # d # r)"
    using follow_Some [of step c] assms(1) by simp
  then have "length r = Suc (Suc (length r))" using Some by (metis length_Cons option.inject)
  then show ?thesis by simp
qed

lemma follow_prefix_diverges:
  assumes "follow step (Some c) = None" "step b = Some c"
  shows "follow step (Some b) = None"
  using assms by (simp add: follow_Some)

section \<open>Detaching\<close>

text \<open>The fields of every node after a detach.\<close>

lemma get_node_detach:
  assumes i: "get_node t i = Some n"
  shows "get_node (detach t i) d = map_option (\<lambda>m. m\<lparr>
      parent := (if d = i then None else parent m),
      first_child := (if prev_sibling n = None \<and> parent n = Some d then next_sibling n else first_child m),
      last_child := (if next_sibling n = None \<and> parent n = Some d then prev_sibling n else last_child m),
      prev_sibling := (if d = i then None else if next_sibling n = Some d then prev_sibling n else prev_sibling m),
      next_sibling := (if d = i then None else if prev_sibling n = Some d then next_sibling n else next_sibling m)\<rparr>)
    (get_node t d)"
proof -
  define t1 where "t1 = (case prev_sibling n of
       Some p \<Rightarrow> with_node_mut t p (\<lambda>m. m\<lparr>next_sibling := next_sibling n\<rparr>)
     | None \<Rightarrow> (case parent n of
           Some par \<Rightarrow> with_node_mut t par (\<lambda>m. m\<lparr>first_child := next_sibling n\<rparr>)
         | None \<Rightarrow> t))"
  define t2 where "t2 = (case next_sibling n of
       Some x \<Rightarrow> with_node_mut t1 x (\<lambda>m. m\<lparr>prev_sibling := prev_sibling n\<rparr>)
     | None \<Rightarrow> (case parent n of
           Some par \<Rightarrow> with_node_mut t1 par (\<lambda>m. m\<lparr>last_child := prev_sibling n\<rparr>)
         | None \<Rightarrow> t1))"
  have e: "detach t i = with_node_mut t2 i (\<lambda>m. m\<lparr>parent := None, prev_sibling := None, next_sibling := None\<rparr>)"
    unfolding detach_def i t1_def t2_def Let_def by simp
  have 1: "get_node t1 d = map_option (\<lambda>m. m\<lparr>
      first_child := (if prev_sibling n = None \<and> parent n = Some d then next_sibling n else first_child m),
      next_sibling := (if prev_sibling n = Some d then next_sibling n else next_sibling m)\<rparr>) (get_node t d)" for d
    unfolding t1_def by (cases "get_node t d") (simp_all add: get_node_with_node_mut split: option.split)
  have 2: "get_node t2 d = map_option (\<lambda>m. m\<lparr>
      last_child := (if next_sibling n = None \<and> parent n = Some d then prev_sibling n else last_child m),
      prev_sibling := (if next_sibling n = Some d then prev_sibling n else prev_sibling m)\<rparr>) (get_node t1 d)" for d
    unfolding t2_def by (cases "get_node t1 d") (simp_all add: get_node_with_node_mut split: option.split)
  show ?thesis
    unfolding e get_node_with_node_mut 2 1 by (cases "get_node t d") simp_all
qed

lemma last_opt_append: "last_opt (xs @ ys) = (if ys = [] then last_opt xs else Some (last ys))"
  by simp

lemma hd_opt_append: "hd_opt (xs @ ys) = (if xs = [] then hd_opt ys else Some (hd xs))"
  by (cases xs) simp_all

lemma removed_split:
  assumes "xs @ ys = us @ c # vs"
  obtains (right) ws where "us = xs @ ws" "ys = ws @ c # vs"
    | (left) ws where "xs = us @ c # ws" "vs = ws @ ys"
  using assms by (auto simp: append_eq_append_conv2 append_eq_Cons_conv Cons_eq_append_conv)

lemma rep_remove1_other:
  assumes "rep t kids" "i \<in> set (kids p)" "q \<noteq> p"
  shows "remove1 i (kids q) = kids q"
  using rep_kids_unique [OF assms(1,2)] assms(3) by (metis remove1_idem)

lemma remove1_split: "distinct (xs @ i # ys) \<Longrightarrow> remove1 i (xs @ i # ys) = xs @ ys"
  by (simp add: remove1_append)

lemma detach_live: "get_node (detach t i) d = None \<longleftrightarrow> get_node t d = None"
  by (cases "get_node t i") (simp add: detach_def, simp add: get_node_detach)

lemma detach_child_links:
  assumes r: "rep t kids" and n: "get_node t i = Some n" "parent n = Some p" and k: "kids p = xs @ i # ys"
    and c: "xs @ ys = us @ c # vs"
  shows "\<exists>m. get_node (detach t i) c = Some m \<and> parent m = Some p \<and>
    prev_sibling m = last_opt us \<and> next_sibling m = hd_opt vs"
proof -
  have d: "distinct (xs @ i # ys)" using rep_distinct [OF r, of p] k by simp
  have ni: "prev_sibling n = last_opt xs" "next_sibling n = hd_opt ys"
    using rep_links [OF r k] n by auto
  from c show ?thesis
  proof (cases rule: removed_split)
    case (right ws)
    have kc: "kids p = (xs @ i # ws) @ c # vs" using k right by simp
    obtain m where m: "get_node t c = Some m" "parent m = Some p"
      "prev_sibling m = last_opt (xs @ i # ws)" "next_sibling m = hd_opt vs"
      using rep_links [OF r kc] by blast
    have "c \<noteq> i" "prev_sibling n \<noteq> Some c" using d right ni by auto
    moreover have "(if next_sibling n = Some c then prev_sibling n else prev_sibling m) = last_opt us"
      using ni m(3) right d by (cases ws) auto
    ultimately show ?thesis using m by (simp add: get_node_detach [OF n(1)])
  next
    case (left ws)
    have kc: "kids p = us @ c # (ws @ i # ys)" using k left by simp
    obtain m where m: "get_node t c = Some m" "parent m = Some p"
      "prev_sibling m = last_opt us" "next_sibling m = hd_opt (ws @ i # ys)"
      using rep_links [OF r kc] by blast
    have "c \<noteq> i" "next_sibling n \<noteq> Some c" using d left ni by (auto split: list.splits)
    moreover have "(if prev_sibling n = Some c then next_sibling n else next_sibling m) = hd_opt vs"
    proof (cases ws)
      case Nil
      then show ?thesis using ni left by simp
    next
      case (Cons w ws')
      then have "last ws \<in> set ws" by simp
      moreover have "c \<notin> set ws" using d left by simp
      ultimately have "last ws \<noteq> c" by blast
      then show ?thesis using ni(1) m(4) left Cons by simp
    qed
    ultimately show ?thesis using m by (simp add: get_node_detach [OF n(1)])
  qed
qed

lemma detach_noop:
  assumes r: "rep t kids" and "parent_of t i = None"
  shows "get_node (detach t i) d = get_node t d"
proof (cases "get_node t i")
  case None
  then show ?thesis by (simp add: detach_def)
next
  case (Some n)
  then have p: "parent n = None" using assms(2) by (simp add: parent_of_def)
  note pn = rep_root [OF r Some p]
  show ?thesis
    using pn p Some by (cases "get_node t d") (auto simp: get_node_detach [OF Some])
qed

lemma rep_cong: "(\<And>d. get_node t' d = get_node t d) \<Longrightarrow> rep t' kids = rep t kids"
  by (simp add: rep_def)

lemma detach_rep:
  assumes r: "rep t kids"
  shows "rep (detach t i) (\<lambda>q. remove1 i (kids q))"
proof (cases "parent_of t i")
  case None
  then have "remove1 i (kids q) = kids q" for q
    using rep_in_kids_iff [OF r, of i q] by (simp add: remove1_idem)
  then show ?thesis using rep_cong [of "detach t i" t kids] detach_noop [OF r None] r by simp
next
  case (Some p)
  then obtain n where n: "get_node t i = Some n" "parent n = Some p"
    by (cases "get_node t i") (auto simp: parent_of_def)
  have ip: "i \<in> set (kids p)" using rep_child [OF r n] .
  then obtain xs ys where k: "kids p = xs @ i # ys" by (meson split_list)
  have d: "distinct (xs @ i # ys)" using rep_distinct [OF r, of p] k by simp
  have ni: "prev_sibling n = last_opt xs" "next_sibling n = hd_opt ys"
    using rep_links [OF r k] n by auto
  have kp: "remove1 i (kids p) = xs @ ys" using k d by (simp add: remove1_split)
  have ko: "remove1 i (kids q) = kids q" if "q \<noteq> p" for q by (rule rep_remove1_other [OF r ip that])
  have near: "x \<in> set (kids p)" if "prev_sibling n = Some x \<or> next_sibling n = Some x" for x
    using that ni k by (auto split: if_splits list.splits)
  have ends: "first_child m' = hd_opt (remove1 i (kids q)) \<and> last_child m' = last_opt (remove1 i (kids q))"
    if g: "get_node (detach t i) q = Some m'" for q m'
  proof -
    obtain m where m: "get_node t q = Some m" using g detach_live [of t i q] by (cases "get_node t q") auto
    note e = rep_ends [OF r m]
    show ?thesis
    proof (cases "q = p")
      case True
      have "first_child m' = (if prev_sibling n = None then next_sibling n else first_child m)"
        "last_child m' = (if next_sibling n = None then prev_sibling n else last_child m)"
        using g m n(2) True by (auto simp: get_node_detach [OF n(1)])
      moreover have "prev_sibling n = None \<longleftrightarrow> xs = []" "next_sibling n = None \<longleftrightarrow> ys = []"
        using ni by (simp_all split: list.split)
      moreover have "first_child m = hd_opt (xs @ i # ys)" "last_child m = last_opt (xs @ i # ys)"
        using e True k by simp_all
      ultimately have "first_child m' = hd_opt (xs @ ys)" "last_child m' = last_opt (xs @ ys)"
        using ni by (cases xs; simp; fail)+
      then show ?thesis using True kp by simp
    next
      case False
      then show ?thesis using g m e n(2) ko [OF False] by (auto simp: get_node_detach [OF n(1)])
    qed
  qed
  have links: "\<exists>m. get_node (detach t i) c = Some m \<and> parent m = Some q \<and>
      prev_sibling m = last_opt us \<and> next_sibling m = hd_opt vs"
    if s: "remove1 i (kids q) = us @ c # vs" for q us c vs
  proof (cases "q = p")
    case True
    then show ?thesis using detach_child_links [OF r n k] s kp by simp
  next
    case False
    then have kq: "kids q = us @ c # vs" using s ko by simp
    obtain m where m: "get_node t c = Some m" "parent m = Some q"
      "prev_sibling m = last_opt us" "next_sibling m = hd_opt vs"
      using rep_links [OF r kq] by blast
    have "c \<in> set (kids q)" using kq by simp
    then have "c \<notin> set (kids p)" using rep_kids_unique [OF r] False by blast
    then have "c \<noteq> i" "prev_sibling n \<noteq> Some c" "next_sibling n \<noteq> Some c" using near ip by blast+
    with m show ?thesis by (simp add: get_node_detach [OF n(1)])
  qed
  have roots: "case parent m' of None \<Rightarrow> prev_sibling m' = None \<and> next_sibling m' = None
      | Some q \<Rightarrow> c \<in> set (remove1 i (kids q))"
    if g: "get_node (detach t i) c = Some m'" for c m'
  proof -
    obtain m where m: "get_node t c = Some m" using g detach_live [of t i c] by (cases "get_node t c") auto
    show ?thesis
    proof (cases "c = i")
      case True
      then show ?thesis using g m by (auto simp: get_node_detach [OF n(1)])
    next
      case False
      show ?thesis
      proof (cases "parent m")
        case None
        have "c \<notin> set (kids p)" using rep_parent [OF r, of c p] None m by (auto simp: parent_of_def)
        then have "prev_sibling n \<noteq> Some c" "next_sibling n \<noteq> Some c" using near by blast+
        then show ?thesis using g m False None rep_root [OF r m None]
          by (auto simp: get_node_detach [OF n(1)])
      next
        case (Some q)
        have "c \<in> set (remove1 i (kids q))"
          using rep_child [OF r m Some] False rep_distinct [OF r, of q] by simp
        then show ?thesis using g m False Some by (auto simp: get_node_detach [OF n(1)])
      qed
    qed
  qed
  have dist: "distinct (remove1 i (kids q))" for q using rep_distinct [OF r, of q] by (rule distinct_remove1)
  have live: "get_node (detach t i) q \<noteq> None" if "remove1 i (kids q) \<noteq> []" for q
    using that rep_live [OF r, of q] detach_live [of t i q] by fastforce
  show ?thesis unfolding rep_def using dist ends live links roots by blast
qed

section \<open>Attaching\<close>

text \<open>What \<open>append_child\<close> and \<open>insert_before\<close> do after the detach: link \<open>c\<close> between the children
  \<open>xs\<close> and \<open>ys\<close> of \<open>p\<close>.\<close>

definition attached ::
  "'q dom_tree \<Rightarrow> 'q dom_tree \<Rightarrow> nat \<Rightarrow> nat \<Rightarrow> nat list \<Rightarrow> nat list \<Rightarrow> bool" where
  "attached t t' p c xs ys \<longleftrightarrow> (\<forall>d. get_node t' d = map_option (\<lambda>m. m\<lparr>
      parent := (if d = c then Some p else parent m),
      first_child := (if d = p \<and> xs = [] then Some c else first_child m),
      last_child := (if d = p \<and> ys = [] then Some c else last_child m),
      prev_sibling := (if d = c then last_opt xs else if hd_opt ys = Some d then Some c else prev_sibling m),
      next_sibling := (if d = c then hd_opt ys else if last_opt xs = Some d then Some c else next_sibling m)\<rparr>)
    (get_node t d))"

lemma inserted_split:
  assumes "xs @ c # ys = us @ d # vs"
  obtains (here) "us = xs" "d = c" "vs = ys"
    | (right) ws where "us = xs @ c # ws" "ys = ws @ d # vs"
    | (left) ws where "xs = us @ d # ws" "vs = ws @ c # ys"
  using assms by (auto simp: append_eq_append_conv2 append_eq_Cons_conv Cons_eq_append_conv)

lemma attached_child_links:
  assumes r: "rep t kids" and k: "kids p = xs @ ys" and c: "c \<notin> set (kids p)" "get_node t c \<noteq> None"
    and at: "attached t t' p c xs ys" and s: "xs @ c # ys = us @ d # vs"
  shows "\<exists>m. get_node t' d = Some m \<and> parent m = Some p \<and>
    prev_sibling m = last_opt us \<and> next_sibling m = hd_opt vs"
proof -
  have dist: "distinct (xs @ ys)" using rep_distinct [OF r, of p] k by simp
  note at = at [unfolded attached_def, rule_format]
  from s show ?thesis
  proof (cases rule: inserted_split)
    case here
    obtain n0 where "get_node t c = Some n0" using c(2) by blast
    with here at [of c] show ?thesis by simp
  next
    case (right ws)
    have kc: "kids p = (xs @ ws) @ d # vs" using k right by simp
    obtain m where m: "get_node t d = Some m" "parent m = Some p"
      "prev_sibling m = last_opt (xs @ ws)" "next_sibling m = hd_opt vs"
      using rep_links [OF r kc] by blast
    have "d \<noteq> c" using c(1) kc by auto
    moreover have "last_opt xs \<noteq> Some d" using dist right by (auto split: if_splits)
    moreover have "(if hd_opt ys = Some d then Some c else prev_sibling m) = last_opt us"
      using m(3) right dist by (cases ws) auto
    ultimately show ?thesis using m at [of d] by auto
  next
    case (left ws)
    have kc: "kids p = us @ d # (ws @ ys)" using k left by simp
    obtain m where m: "get_node t d = Some m" "parent m = Some p"
      "prev_sibling m = last_opt us" "next_sibling m = hd_opt (ws @ ys)"
      using rep_links [OF r kc] by blast
    have "d \<noteq> c" using c(1) kc by auto
    moreover have "hd_opt ys \<noteq> Some d" using dist left by (auto split: list.splits)
    moreover have "(if last_opt xs = Some d then Some c else next_sibling m) = hd_opt vs"
    proof (cases ws)
      case Nil
      then show ?thesis using left by simp
    next
      case (Cons w ws')
      then have "last ws \<in> set ws" by simp
      moreover have "d \<notin> set ws" using dist left by simp
      ultimately have "last ws \<noteq> d" by blast
      then show ?thesis using m(4) left Cons by simp
    qed
    ultimately show ?thesis using m at [of d] by auto
  qed
qed

lemma attached_rep:
  assumes r: "rep t kids" and k: "kids p = xs @ ys" and root: "parent_of t c = None"
    and live: "get_node t c \<noteq> None" "get_node t p \<noteq> None" and at: "attached t t' p c xs ys"
  shows "rep t' (kids(p := xs @ c # ys))"
proof -
  let ?kids = "kids(p := xs @ c # ys)"
  note atd = at [unfolded attached_def, rule_format]
  have nc: "c \<notin> set (kids q)" for q using rep_in_kids_iff [OF r] root by simp
  have near: "x \<in> set (kids p)" if "last_opt xs = Some x \<or> hd_opt ys = Some x" for x
    using that k by (auto split: if_splits list.splits)
  have dist: "distinct (?kids q)" for q
    using rep_distinct [OF r, of q] rep_distinct [OF r, of p] nc [of p] k by auto
  have ends: "first_child m' = hd_opt (?kids q) \<and> last_child m' = last_opt (?kids q)"
    if g: "get_node t' q = Some m'" for q m'
  proof -
    obtain m where m: "get_node t q = Some m" using g atd [of q] by auto
    note e = rep_ends [OF r m]
    have f: "first_child m' = (if q = p \<and> xs = [] then Some c else first_child m)"
      "last_child m' = (if q = p \<and> ys = [] then Some c else last_child m)"
      using g m atd [of q] by auto
    show ?thesis
    proof (cases "q = p")
      case True
      have "hd_opt (xs @ c # ys) = (if xs = [] then Some c else hd_opt (xs @ ys))" by (cases xs) simp_all
      moreover have "last_opt (xs @ c # ys) = (if ys = [] then Some c else last_opt (xs @ ys))" by simp
      ultimately show ?thesis using f e True k by simp
    next
      case False
      then show ?thesis using f e by simp
    qed
  qed
  have lv: "get_node t' q \<noteq> None" if "?kids q \<noteq> []" for q
    using that rep_live [OF r, of q] live(2) atd [of q] by (cases "q = p") auto
  have links: "\<exists>m. get_node t' d = Some m \<and> parent m = Some q \<and>
      prev_sibling m = last_opt us \<and> next_sibling m = hd_opt vs"
    if s: "?kids q = us @ d # vs" for q us d vs
  proof (cases "q = p")
    case True
    then show ?thesis using attached_child_links [OF r k nc live(1) at] s by simp
  next
    case False
    then have kq: "kids q = us @ d # vs" using s by simp
    obtain m where m: "get_node t d = Some m" "parent m = Some q"
      "prev_sibling m = last_opt us" "next_sibling m = hd_opt vs"
      using rep_links [OF r kq] by blast
    have d: "d \<in> set (kids q)" using kq by simp
    then have "d \<notin> set (kids p)" using rep_kids_unique [OF r] False by blast
    then have "last_opt xs \<noteq> Some d" "hd_opt ys \<noteq> Some d" using near by blast+
    moreover have "d \<noteq> c" using d nc by blast
    ultimately show ?thesis using m atd [of d] by simp
  qed
  have roots: "case parent m' of None \<Rightarrow> prev_sibling m' = None \<and> next_sibling m' = None
      | Some q \<Rightarrow> d \<in> set (?kids q)"
    if g: "get_node t' d = Some m'" for d m'
  proof -
    obtain m where m: "get_node t d = Some m" using g atd [of d] by auto
    show ?thesis
    proof (cases "d = c")
      case True
      then show ?thesis using g m atd [of d] by auto
    next
      case False
      show ?thesis
      proof (cases "parent m")
        case None
        have "d \<notin> set (kids p)" using rep_parent [OF r, of d p] None m by (auto simp: parent_of_def)
        then have "last_opt xs \<noteq> Some d" "hd_opt ys \<noteq> Some d" using near by blast+
        then show ?thesis using g m False None rep_root [OF r m None] atd [of d] by auto
      next
        case (Some q)
        have "d \<in> set (?kids q)" using rep_child [OF r m Some] k by auto
        then show ?thesis using g m False Some atd [of d] by auto
      qed
    qed
  qed
  show ?thesis unfolding rep_def using dist ends lv links roots by blast
qed

lemma append_child_attached:
  assumes r: "rep (detach t c) kids" and live: "get_node t c \<noteq> None" "get_node t p \<noteq> None"
    and c: "c \<notin> set (kids p)"
  shows "attached (detach t c) (append_child t p c) p c (kids p) []"
proof -
  let ?t0 = "detach t c"
  obtain n where n: "get_node ?t0 p = Some n" using live(2) detach_live [of t c p] by auto
  note e = rep_ends [OF r n]
  define t1 where "t1 = with_node_mut ?t0 c
     (\<lambda>m. m\<lparr>parent := Some p, prev_sibling := last_opt (kids p), next_sibling := None\<rparr>)"
  define t2 where "t2 = (case last_opt (kids p) of
     Some l \<Rightarrow> with_node_mut t1 l (\<lambda>m. m\<lparr>next_sibling := Some c\<rparr>) | None \<Rightarrow> t1)"
  have a: "append_child t p c = with_node_mut t2 p (\<lambda>m.
           (if first_child m = None then m\<lparr>first_child := Some c\<rparr> else m)\<lparr>last_child := Some c\<rparr>)"
    using n e unfolding append_child_def Let_def t1_def t2_def by simp
  have l: "last_opt (kids p) \<noteq> Some c" using c by (auto split: if_splits)
  have 1: "get_node t1 d = map_option (\<lambda>m. m\<lparr>parent := (if d = c then Some p else parent m),
      prev_sibling := (if d = c then last_opt (kids p) else prev_sibling m),
      next_sibling := (if d = c then None else next_sibling m)\<rparr>) (get_node ?t0 d)" for d
    unfolding t1_def by (cases "c = d"; cases "get_node ?t0 d"; simp add: get_node_with_node_mut)
  have 2: "get_node t2 d = map_option (\<lambda>m. m\<lparr>next_sibling :=
      (if last_opt (kids p) = Some d then Some c else next_sibling m)\<rparr>) (get_node t1 d)" for d
    unfolding t2_def by (cases "get_node t1 d") (simp_all add: get_node_with_node_mut)
  have "get_node (append_child t p c) d = map_option (\<lambda>m. m\<lparr>
      parent := (if d = c then Some p else parent m),
      first_child := (if d = p \<and> kids p = [] then Some c else first_child m),
      last_child := (if d = p then Some c else last_child m),
      prev_sibling := (if d = c then last_opt (kids p) else prev_sibling m),
      next_sibling := (if d = c then None else if last_opt (kids p) = Some d then Some c else next_sibling m)\<rparr>)
    (get_node ?t0 d)" for d
  proof (cases "get_node ?t0 d")
    case None
    then show ?thesis unfolding a get_node_with_node_mut 2 1 by simp
  next
    case (Some m)
    have "first_child m = None \<longleftrightarrow> kids p = []" if "d = p"
      using that Some n e by (auto split: list.splits)
    then show ?thesis unfolding a get_node_with_node_mut 2 1 Some using l by auto
  qed
  then show ?thesis unfolding attached_def by (auto intro!: option.map_cong)
qed

lemma append_child_rep:
  assumes r: "rep t kids" and live: "get_node t c \<noteq> None" "get_node t p \<noteq> None"
  shows "rep (append_child t p c) ((\<lambda>q. remove1 c (kids q))(p := remove1 c (kids p) @ [c]))"
proof -
  let ?k0 = "\<lambda>q. remove1 c (kids q)"
  note r0 = detach_rep [OF r, of c]
  have nc: "c \<notin> set (?k0 q)" for q using rep_distinct [OF r, of q] by simp
  have root: "parent_of (detach t c) c = None"
    using rep_in_kids_iff [OF r0, of c] nc by (cases "parent_of (detach t c) c") auto
  have live0: "get_node (detach t c) c \<noteq> None" "get_node (detach t c) p \<noteq> None"
    using live detach_live [of t c c] detach_live [of t c p] by simp_all
  have k: "?k0 p = ?k0 p @ []" by simp
  show ?thesis
    by (rule attached_rep [OF r0 k root live0 append_child_attached [OF r0 live nc]])
qed

lemma insert_before_rep:
  assumes r: "rep t kids" and k: "kids p = xs @ e # ys" and live: "get_node t x \<noteq> None"
    and ne: "x \<noteq> e" "last_opt xs \<noteq> Some x"
  shows "rep (insert_before t e x)
    ((\<lambda>q. remove1 x (kids q))(p := remove1 x xs @ x # e # remove1 x ys))"
proof -
  let ?k0 = "\<lambda>q. remove1 x (kids q)"
  note r0 = detach_rep [OF r, of x]
  have dist: "distinct (xs @ e # ys)" using rep_distinct [OF r, of p] k by simp
  have nx: "x \<notin> set (?k0 q)" for q using rep_distinct [OF r, of q] by simp
  have root: "parent_of (detach t x) x = None"
    using rep_in_kids_iff [OF r0, of x] nx by (cases "parent_of (detach t x) x") auto
  have live0: "get_node (detach t x) x \<noteq> None" "get_node (detach t x) p \<noteq> None"
    using live rep_live [OF r, of p] k detach_live [of t x] by auto
  obtain n where n: "get_node t e = Some n" "parent n = Some p" "prev_sibling n = last_opt xs"
    using rep_links [OF r k] by blast
  have k0: "?k0 p = remove1 x xs @ e # remove1 x ys"
  proof (cases "x \<in> set xs")
    case True
    then have "x \<notin> set ys" using dist by auto
    then show ?thesis using True k by (simp add: remove1_append remove1_idem)
  next
    case False
    then show ?thesis using k ne by (simp add: remove1_append remove1_idem)
  qed
  have last: "last_opt (remove1 x xs) = last_opt xs"
  proof (cases xs rule: rev_cases)
    case (snoc ws w)
    then show ?thesis using ne(2) by (simp add: remove1_append)
  qed simp
  let ?t0 = "detach t x"
  define t1 where "t1 = with_node_mut ?t0 x
     (\<lambda>m. m\<lparr>parent := Some p, prev_sibling := last_opt xs, next_sibling := Some e\<rparr>)"
  define t2 where "t2 = with_node_mut t1 e (\<lambda>m. m\<lparr>prev_sibling := Some x\<rparr>)"
  have a: "insert_before t e x = (case last_opt xs of
       Some y \<Rightarrow> with_node_mut t2 y (\<lambda>m. m\<lparr>next_sibling := Some x\<rparr>)
     | None \<Rightarrow> with_node_mut t2 p (\<lambda>m. m\<lparr>first_child := Some x\<rparr>))"
    unfolding insert_before_def t1_def t2_def using n by simp
  have 1: "get_node t1 d = map_option (\<lambda>m. m\<lparr>parent := (if d = x then Some p else parent m),
      prev_sibling := (if d = x then last_opt xs else prev_sibling m),
      next_sibling := (if d = x then Some e else next_sibling m)\<rparr>) (get_node ?t0 d)" for d
    unfolding t1_def by (cases "x = d"; cases "get_node ?t0 d"; simp add: get_node_with_node_mut)
  have 2: "get_node t2 d = map_option (\<lambda>m. m\<lparr>prev_sibling :=
      (if d = e then Some x else prev_sibling m)\<rparr>) (get_node t1 d)" for d
    unfolding t2_def by (cases "e = d"; cases "get_node t1 d"; simp add: get_node_with_node_mut)
  have 3: "get_node (insert_before t e x) d = map_option (\<lambda>m. m\<lparr>
      next_sibling := (if last_opt xs = Some d then Some x else next_sibling m),
      first_child := (if d = p \<and> xs = [] then Some x else first_child m)\<rparr>) (get_node t2 d)" for d
    unfolding a by (cases "get_node t2 d") (auto simp: get_node_with_node_mut split: if_splits)
  have "attached ?t0 (insert_before t e x) p x (remove1 x xs) (e # remove1 x ys)"
    unfolding attached_def last
  proof
    fix d
    have "remove1 x xs = [] \<longleftrightarrow> xs = []" using last by (metis option.distinct(1))
    then show "get_node (insert_before t e x) d = map_option (\<lambda>m. m\<lparr>
      parent := (if d = x then Some p else parent m),
      first_child := (if d = p \<and> remove1 x xs = [] then Some x else first_child m),
      last_child := (if d = p \<and> e # remove1 x ys = [] then Some x else last_child m),
      prev_sibling := (if d = x then last_opt xs else if hd_opt (e # remove1 x ys) = Some d then Some x else prev_sibling m),
      next_sibling := (if d = x then hd_opt (e # remove1 x ys) else if last_opt xs = Some d then Some x else next_sibling m)\<rparr>)
      (get_node ?t0 d)"
      unfolding 3 2 1 using ne by (cases "get_node ?t0 d") auto
  qed
  from attached_rep [OF r0 k0 root live0 this] show ?thesis by simp
qed

section \<open>Walking a subtree\<close>

text \<open>\<open>below kids\<close> relates a node to its children. Under the abstraction every node has at most one
  parent, so a subtree whose root has no parent contains no cycle.\<close>

definition below :: "(nat \<Rightarrow> nat list) \<Rightarrow> (nat \<times> nat) set" where
  "below kids = {(c, d). d \<in> set (kids c)}"

lemma below_iff: "(c, d) \<in> below kids \<longleftrightarrow> d \<in> set (kids c)"
  by (simp add: below_def)

lemma below_parent_unique:
  assumes "rep t kids" "(a, c) \<in> below kids" "(b, c) \<in> below kids"
  shows "a = b"
  using rep_kids_unique [OF assms(1)] assms(2,3) by (simp add: below_iff)

lemma below_rtrancl_parent:
  assumes r: "rep t kids" and ab: "(a, b) \<in> (below kids)\<^sup>*" "a \<noteq> b" and pb: "(p, b) \<in> below kids"
  shows "(a, p) \<in> (below kids)\<^sup>*"
proof -
  obtain z where "(a, z) \<in> (below kids)\<^sup>*" "(z, b) \<in> below kids" using ab by (meson rtranclE)
  then show ?thesis using below_parent_unique [OF r _ pb] by blast
qed

lemma below_root_acyclic:
  assumes r: "rep t kids" and root: "\<And>a. (a, i) \<notin> below kids" and ic: "(i, c) \<in> (below kids)\<^sup>*"
  shows "(c, c) \<notin> (below kids)\<^sup>+"
  using ic
proof (induction rule: rtrancl_induct)
  case base
  then show ?case using root by (meson tranclE)
next
  case (step b c)
  show ?case
  proof
    assume "(c, c) \<in> (below kids)\<^sup>+"
    then obtain z where z: "(c, z) \<in> (below kids)\<^sup>*" "(z, c) \<in> below kids" by (meson tranclD2)
    then have "z = b" using below_parent_unique [OF r] step.hyps(2) by blast
    then have "(b, b) \<in> (below kids)\<^sup>+" using z(1) step.hyps(2) by (meson rtrancl_into_trancl2)
    then show False using step.IH by blast
  qed
qed

text \<open>The nodes the stack of \<open>descendants\<close> still has to visit, and what makes it a forest.\<close>

definition reach :: "(nat \<Rightarrow> nat list) \<Rightarrow> nat list \<Rightarrow> nat set" where
  "reach kids stack = (below kids)\<^sup>* `` set stack"

definition forest :: "(nat \<Rightarrow> nat list) \<Rightarrow> nat list \<Rightarrow> bool" where
  "forest kids stack \<longleftrightarrow> distinct stack \<and>
     (\<forall>c \<in> set stack. \<forall>d \<in> set stack. c \<noteq> d \<longrightarrow> (c, d) \<notin> (below kids)\<^sup>*) \<and>
     (\<forall>c \<in> reach kids stack. (c, c) \<notin> (below kids)\<^sup>+)"

lemma reach_pop: "reach kids (c # rest) = insert c (reach kids (kids c @ rest))"
proof -
  have "(below kids)\<^sup>* `` {c} = insert c ((below kids)\<^sup>* `` set (kids c))"
  proof (intro subset_antisym subsetI)
    fix x assume "x \<in> (below kids)\<^sup>* `` {c}"
    then have "(c, x) \<in> (below kids)\<^sup>*" by simp
    then show "x \<in> insert c ((below kids)\<^sup>* `` set (kids c))"
      by (cases rule: converse_rtranclE) (auto simp: below_iff)
  next
    fix x assume "x \<in> insert c ((below kids)\<^sup>* `` set (kids c))"
    then show "x \<in> (below kids)\<^sup>* `` {c}"
      using converse_rtrancl_into_rtrancl [of c _ "below kids" x] by (auto simp: below_iff)
  qed
  then show ?thesis by (auto simp: reach_def)
qed

lemma forest_pop_notin:
  assumes "forest kids (c # rest)"
  shows "c \<notin> reach kids (kids c @ rest)"
proof
  assume "c \<in> reach kids (kids c @ rest)"
  then consider a where "(c, a) \<in> below kids" "(a, c) \<in> (below kids)\<^sup>*"
    | b where "b \<in> set rest" "(b, c) \<in> (below kids)\<^sup>*"
    by (auto simp: reach_def below_iff)
  then show False
  proof cases
    case 1
    then have "(c, c) \<in> (below kids)\<^sup>+" by (rule rtrancl_into_trancl2)
    then show False using assms by (simp add: forest_def reach_pop)
  next
    case 2
    then show False using assms unfolding forest_def by auto
  qed
qed

lemma forest_pop:
  assumes r: "rep t kids" and f: "forest kids (c # rest)"
  shows "forest kids (kids c @ rest)"
proof -
  note nc = forest_pop_notin [OF f]
  have acyc: "(d, d) \<notin> (below kids)\<^sup>+" if "d \<in> reach kids (kids c @ rest)" for d
    using f that by (simp add: forest_def reach_pop)
  have unrel: "c \<noteq> d \<Longrightarrow> (c, d) \<notin> (below kids)\<^sup>* \<and> (d, c) \<notin> (below kids)\<^sup>*" if "d \<in> set rest" for d
    using f that by (simp add: forest_def)
  have cr: "c \<notin> set rest" using f by (simp add: forest_def)
  have kid: "(c, a) \<in> below kids" if "a \<in> set (kids c)" for a using that by (simp add: below_iff)
  have to_kid: "(b, a) \<notin> (below kids)\<^sup>*" if "a \<in> set (kids c)" "b \<in> set (kids c @ rest)" "b \<noteq> a" for a b
  proof
    assume "(b, a) \<in> (below kids)\<^sup>*"
    then have "(b, c) \<in> (below kids)\<^sup>*"
      using below_rtrancl_parent [OF r _ that(3) kid [OF that(1)]] by blast
    then show False using nc that(2) by (auto simp: reach_def)
  qed
  have to_rest: "(a, b) \<notin> (below kids)\<^sup>*" if "a \<in> set (kids c)" "b \<in> set rest" for a b
  proof
    assume "(a, b) \<in> (below kids)\<^sup>*"
    then have "(c, b) \<in> (below kids)\<^sup>*" using kid [OF that(1)] by (rule converse_rtrancl_into_rtrancl [rotated])
    then show False using unrel [OF that(2)] cr that(2) by blast
  qed
  have "set (kids c) \<inter> set rest = {}" using to_rest by blast
  then have "distinct (kids c @ rest)" using rep_distinct [OF r] f by (simp add: forest_def)
  moreover have "(a, b) \<notin> (below kids)\<^sup>*"
    if "a \<in> set (kids c @ rest)" "b \<in> set (kids c @ rest)" "a \<noteq> b" for a b
    using that to_kid [of b a] to_rest [of a b] f by (auto simp: forest_def)
  ultimately show ?thesis using acyc unfolding forest_def by blast
qed

lemma reach_live:
  assumes "rep t kids" "d \<in> reach kids stack" "\<And>c. c \<in> set stack \<Longrightarrow> get_node t c \<noteq> None"
  shows "get_node t d \<noteq> None"
proof -
  obtain c where c: "c \<in> set stack" "(c, d) \<in> (below kids)\<^sup>*" using assms(2) by (auto simp: reach_def)
  from c(2) show ?thesis
  proof (cases rule: rtranclE)
    case base
    then show ?thesis using assms(3) c(1) by blast
  next
    case (step b)
    then show ?thesis using rep_parent [OF assms(1), of d b]
      by (cases "get_node t d") (auto simp: below_iff parent_of_def)
  qed
qed

lemma live_finite: "finite {d. get_node t d \<noteq> None}"
  by (rule finite_subset [of _ "{..<length (nodes t)}"]) (auto simp: get_node_def split: if_splits)

lemma descend_Nil: "descend t [] = Some []"
  by (subst descend.simps) simp

lemma descend_Cons: "descend t (c # rest) = Option.bind (children t c)
    (\<lambda>cs. Option.bind (descend t (cs @ rest)) (\<lambda>r. Some (c # r)))"
  by (subst descend.simps) simp

lemma descend_forest:
  assumes "rep t kids" "forest kids stack" "\<And>c. c \<in> set stack \<Longrightarrow> get_node t c \<noteq> None"
  shows "\<exists>r. descend t stack = Some r \<and> distinct r \<and> set r = reach kids stack"
  using assms(2,3)
proof (induction "card (reach kids stack)" arbitrary: stack rule: less_induct)
  case less
  show ?case
  proof (cases stack)
    case Nil
    then show ?thesis by (simp add: descend_Nil reach_def)
  next
    case (Cons c rest)
    note f = less.prems(1) [unfolded Cons]
    have live: "get_node t d \<noteq> None" if "d \<in> set (kids c @ rest)" for d
      using that less.prems(2) [of d] rep_parent [OF assms(1), of d c] Cons
      by (cases "get_node t d") (auto simp: parent_of_def)
    have "reach kids stack \<subseteq> {d. get_node t d \<noteq> None}"
      using reach_live [OF assms(1) _ less.prems(2)] by blast
    then have fin: "finite (reach kids stack)" using live_finite finite_subset by blast
    have "reach kids (kids c @ rest) \<subset> reach kids stack"
      using forest_pop_notin [OF f] Cons reach_pop [of kids c rest] by auto
    then have "card (reach kids (kids c @ rest)) < card (reach kids stack)"
      using fin psubset_card_mono by blast
    from less.hyps [OF this forest_pop [OF assms(1) f] live]
    obtain r where r: "descend t (kids c @ rest) = Some r" "distinct r" "set r = reach kids (kids c @ rest)"
      by blast
    have "descend t stack = Some (c # r)"
      using r(1) Cons children_rep [OF assms(1), of c] by (simp add: descend_Cons)
    then show ?thesis using r forest_pop_notin [OF f] Cons reach_pop [of kids c rest] by auto
  qed
qed

lemma descendants_root:
  assumes r: "rep t kids" and live: "get_node t i \<noteq> None" and root: "parent_of t i = None"
  shows "\<exists>ds. descendants t i = Some ds \<and> distinct (i # ds) \<and> insert i (set ds) = reach kids [i]"
proof -
  have nb: "(a, i) \<notin> below kids" for a using rep_parent [OF r, of i a] root by (auto simp: below_iff)
  have f: "forest kids [i]"
    using below_root_acyclic [OF r nb] by (auto simp: forest_def reach_def)
  obtain rs where rs: "descend t [i] = Some rs" "distinct rs" "set rs = reach kids [i]"
    using descend_forest [OF r f] live by auto
  then obtain ds where "descend t (kids i) = Some ds" "rs = i # ds"
    using children_rep [OF r, of i] by (auto simp: descend_Cons bind_eq_Some_conv)
  then show ?thesis using rs children_rep [OF r, of i] by (auto simp: descendants_def)
qed

section \<open>Creating and removing nodes\<close>

text \<open>Slots on the free list are dead, and each is there once.\<close>

definition free_ok :: "'q dom_tree \<Rightarrow> bool" where
  "free_ok t \<longleftrightarrow> distinct (free_list t) \<and>
     (\<forall>i \<in> set (free_list t). i < length (nodes t) \<and> get_node t i = None)"

lemma length_with_node_mut [simp]: "length (nodes (with_node_mut t i f)) = length (nodes t)"
  by (simp add: with_node_mut_def)

lemma free_list_with_node_mut [simp]: "free_list (with_node_mut t i f) = free_list t"
  by (simp add: with_node_mut_def)

lemma id_index_with_node_mut [simp]: "id_index (with_node_mut t i f) = id_index t"
  by (simp add: with_node_mut_def)

lemma live_with_node_mut: "get_node (with_node_mut t i f) d = None \<longleftrightarrow> get_node t d = None"
  by (simp add: get_node_with_node_mut)

lemma detach_frame [simp]:
  "length (nodes (detach t i)) = length (nodes t)" "free_list (detach t i) = free_list t"
  "id_index (detach t i) = id_index t"
  by (auto simp: detach_def Let_def split: option.splits)

lemma append_child_frame [simp]:
  "length (nodes (append_child t p c)) = length (nodes t)" "free_list (append_child t p c) = free_list t"
  "get_node (append_child t p c) d = None \<longleftrightarrow> get_node t d = None"
  by (auto simp: append_child_def Let_def live_with_node_mut detach_live split: option.splits)

lemma insert_before_frame [simp]:
  "length (nodes (insert_before t e x)) = length (nodes t)" "free_list (insert_before t e x) = free_list t"
  "get_node (insert_before t e x) d = None \<longleftrightarrow> get_node t d = None"
  by (auto simp: insert_before_def Let_def live_with_node_mut detach_live split: option.splits)

lemma free_ok_frame:
  assumes "free_list t' = free_list t" "length (nodes t') = length (nodes t)"
    "\<And>d. get_node t' d = None \<longleftrightarrow> get_node t d = None"
  shows "free_ok t' = free_ok t"
  using assms by (simp add: free_ok_def)

lemma get_node_new_node:
  assumes "free_ok t" "new_node q t d = (t', i)"
  shows "get_node t i = None" "get_node t' j = (if j = i then Some (fresh_node i d) else get_node t j)"
    "free_ok t'" "i < length (nodes t')"
proof -
  let ?ns = "if free_list t \<noteq> [] then nodes t else nodes t @ [None]"
  let ?fl = "butlast (free_list t)"
  have i: "i = (if free_list t \<noteq> [] then last (free_list t) else length (nodes t))"
    and n: "nodes t' = ?ns[i := Some (fresh_node i d)]" and fl: "free_list t' = ?fl"
    using assms(2) by (auto simp: new_node_def Let_def split: option.splits if_splits)
  have last: "last (free_list t) \<notin> set ?fl" if "free_list t \<noteq> []"
    using that assms(1) by (metis append_butlast_last_id distinct_append free_ok_def disjoint_iff list.set_intros(1))
  have "i < length ?ns \<and> get_node t i = None"
  proof (cases "free_list t = []")
    case False
    then have "i \<in> set (free_list t)" using i by simp
    then show ?thesis using assms(1) False by (simp add: free_ok_def)
  qed (simp add: i get_node_def)
  then show g: "get_node t i = None" and l: "i < length (nodes t')" using n by auto
  show gj: "get_node t' j = (if j = i then Some (fresh_node i d) else get_node t j)" for j
    using l n by (auto simp: get_node_def nth_append nth_list_update split: if_splits)
  have "a \<in> set ?fl \<Longrightarrow> a \<in> set (free_list t) \<and> a \<noteq> i" for a
    using last i in_set_butlastD [of a "free_list t"] by (cases "free_list t = []") auto
  then show "free_ok t'"
    using assms(1) n fl gj unfolding free_ok_def by (auto simp: distinct_butlast)
qed

lemma new_node_rep:
  assumes r: "rep t kids" and f: "free_ok t" and n: "new_node q t d = (t', i)"
  shows "rep t' kids"
proof -
  note g = get_node_new_node [OF f n]
  have ki: "kids i = []" using rep_live [OF r, of i] g(1) by blast
  have ni: "i \<notin> set (kids p)" for p using rep_parent [OF r, of i p] g(1) by (auto simp: parent_of_def)
  have links: "\<exists>n. get_node t' c = Some n \<and> parent n = Some p \<and>
      prev_sibling n = last_opt xs \<and> next_sibling n = hd_opt ys" if "kids p = xs @ c # ys" for p xs c ys
    using rep_links [OF r that] ni [of p] that g(2) by auto
  have ends: "first_child n = hd_opt (kids p) \<and> last_child n = last_opt (kids p)"
    if "get_node t' p = Some n" for p n
    using that rep_ends [OF r, of p n] g(2) ki by (auto simp: fresh_node_def split: if_splits)
  have roots: "case parent n of None \<Rightarrow> prev_sibling n = None \<and> next_sibling n = None
      | Some p \<Rightarrow> c \<in> set (kids p)" if "get_node t' c = Some n" for c n
    using that rep_root [OF r, of c n] rep_child [OF r, of c n] g(2)
    by (auto simp: fresh_node_def split: if_splits option.split)
  have "get_node t' p \<noteq> None" if "kids p \<noteq> []" for p using rep_live [OF r that] g(2) by simp
  then show ?thesis unfolding rep_def using rep_distinct [OF r] ends links roots by blast
qed

lemma get_node_remove_slots:
  "get_node (remove_slots t is) d = (if d \<in> set is then None else get_node t d)"
proof (induction "is" arbitrary: t)
  case (Cons i "is")
  have "remove_slots t (i # is) = remove_slots (t\<lparr>nodes := (nodes t)[i := None], free_list := free_list t @ [i]\<rparr>) is"
    by (simp add: remove_slots_def)
  moreover have "get_node (t\<lparr>nodes := (nodes t)[i := None], free_list := free_list t @ [i]\<rparr>) d =
      (if d = i then None else get_node t d)"
    by (auto simp: get_node_def nth_list_update)
  ultimately show ?case by (auto simp: Cons.IH simp del: dom_tree.update_convs)
qed (simp add: remove_slots_def)

lemma remove_slots_frame:
  "free_list (remove_slots t is) = free_list t @ is" "length (nodes (remove_slots t is)) = length (nodes t)"
  "id_index (remove_slots t is) = id_index t"
  by (induction "is" arbitrary: t) (simp_all add: remove_slots_def)

lemma remove_slots_rep:
  assumes r: "rep t kids" and closed: "\<And>c d. c \<in> set is \<Longrightarrow> d \<in> set (kids c) \<Longrightarrow> d \<in> set is"
    and up: "\<And>c d. c \<in> set is \<Longrightarrow> c \<in> set (kids d) \<Longrightarrow> d \<in> set is"
  shows "rep (remove_slots t is) (\<lambda>p. if p \<in> set is then [] else kids p)"
proof -
  let ?t = "remove_slots t is" and ?kids = "\<lambda>p. if p \<in> set is then [] else kids p"
  have get: "get_node ?t d = Some n \<longleftrightarrow> d \<notin> set is \<and> get_node t d = Some n" for d n
    by (simp add: get_node_remove_slots)
  have links: "\<exists>n. get_node ?t c = Some n \<and> parent n = Some p \<and>
      prev_sibling n = last_opt xs \<and> next_sibling n = hd_opt ys" if "?kids p = xs @ c # ys" for p xs c ys
  proof -
    have k: "kids p = xs @ c # ys" "p \<notin> set is" using that by (auto split: if_splits)
    then have "c \<notin> set is" using up [of c p] by auto
    then show ?thesis using rep_links [OF r k(1)] get by simp
  qed
  have ends: "first_child n = hd_opt (?kids p) \<and> last_child n = last_opt (?kids p)"
    if "get_node ?t p = Some n" for p n
    using that rep_ends [OF r, of p n] get by simp
  have roots: "case parent n of None \<Rightarrow> prev_sibling n = None \<and> next_sibling n = None
      | Some p \<Rightarrow> c \<in> set (?kids p)" if "get_node ?t c = Some n" for c n
    using that rep_root [OF r, of c n] rep_child [OF r, of c n] closed [of _ c] get
    by (auto split: option.split)
  have "get_node ?t p \<noteq> None" if "?kids p \<noteq> []" for p
    using that rep_live [OF r, of p] get by (auto simp: get_node_remove_slots split: if_splits)
  moreover have "distinct (?kids p)" for p using rep_distinct [OF r] by simp
  ultimately show ?thesis unfolding rep_def using ends links roots by blast
qed

lemma dom_remove_rep:
  assumes r: "rep t kids" and f: "free_ok t" and live: "get_node t i \<noteq> None"
  defines "below_i \<equiv> (below kids)\<^sup>* `` {i}"
  shows "\<exists>t'. dom_remove q t i = Some t' \<and> free_ok t' \<and>
    rep t' (\<lambda>p. if p \<in> below_i then [] else remove1 i (kids p)) \<and>
    (\<forall>d. get_node t' d = (if d \<in> below_i then None else get_node (detach t i) d)) \<and>
    set (free_list t') = set (free_list t) \<union> below_i"
proof -
  let ?k = "\<lambda>p. remove1 i (kids p)" and ?t = "detach t i"
  note r0 = detach_rep [OF r, of i]
  have live0: "get_node ?t i \<noteq> None" using live by (simp add: detach_live)
  have ni: "i \<notin> set (?k p)" for p using rep_distinct [OF r, of p] by simp
  have root: "parent_of ?t i = None"
    using rep_in_kids_iff [OF r0, of i] ni by (cases "parent_of ?t i") auto
  obtain ds where ds: "descendants ?t i = Some ds" "distinct (i # ds)" "insert i (set ds) = reach ?k [i]"
    using descendants_root [OF r0 live0 root] by blast
  let ?is = "ds @ [i]"
  have cut: "below ?k = below kids - UNIV \<times> {i}"
    using rep_distinct [OF r] by (auto simp: below_def)
  have sub: "(below ?k)\<^sup>* \<subseteq> (below kids)\<^sup>*" by (rule rtrancl_mono) (simp add: cut)
  have "(i, c) \<in> (below ?k)\<^sup>*" if "(i, c) \<in> (below kids)\<^sup>*" for c
    using that
  proof (induction rule: rtrancl_induct)
    case (step b c)
    show ?case
    proof (cases "c = i")
      case False
      then have "(b, c) \<in> below ?k" using step.hyps(2) by (simp add: cut)
      then show ?thesis using step.IH by (rule rtrancl_into_rtrancl [rotated])
    qed simp
  qed simp
  then have isb: "set ?is = below_i" using ds(3) sub by (auto simp: reach_def below_i_def)
  have lived: "get_node t d \<noteq> None" if "d \<in> below_i" for d
    using that reach_live [OF r, of d "[i]"] live by (auto simp: reach_def below_i_def)
  have len: "d < length (nodes t)" if "d \<in> below_i" for d
    using lived [OF that] by (simp add: get_node_def split: if_splits)
  obtain m where m: "dom_remove q t i = Some (remove_slots (?t\<lparr>id_index := m\<rparr>) ?is)"
    using len isb unfolding dom_remove_def Let_def ds(1) by (auto simp: list_all_iff)
  let ?t1 = "?t\<lparr>id_index := m\<rparr>"
  let ?t' = "remove_slots ?t1 ?is"
  have r1: "rep ?t1 ?k" using r0 by (rule rep_cong [THEN iffD2, rotated]) (simp add: get_node_def)
  have closed: "d \<in> set ?is" if "c \<in> set ?is" "d \<in> set (?k c)" for c d
  proof -
    have "(c, d) \<in> below ?k" using that(2) unfolding below_iff .
    moreover have "(i, c) \<in> (below ?k)\<^sup>*" using that(1) ds(3) by (auto simp: reach_def)
    ultimately have "(i, d) \<in> (below ?k)\<^sup>*" by (rule rtrancl_into_rtrancl [rotated])
    then show ?thesis using ds(3) by (auto simp: reach_def)
  qed
  have up: "d \<in> set ?is" if "c \<in> set ?is" "c \<in> set (?k d)" for c d
  proof -
    have dc: "(d, c) \<in> below ?k" using that(2) unfolding below_iff .
    have "c \<noteq> i" using that(2) ni by blast
    moreover have "(i, c) \<in> (below ?k)\<^sup>*" using that(1) ds(3) by (auto simp: reach_def)
    ultimately have "(i, d) \<in> (below ?k)\<^sup>*" using below_rtrancl_parent [OF r0 _ _ dc] by blast
    then show ?thesis using ds(3) by (auto simp: reach_def)
  qed
  have rep: "rep ?t' (\<lambda>p. if p \<in> below_i then [] else ?k p)"
    using remove_slots_rep [OF r1 closed up] by (simp only: isb)
  have get: "get_node ?t' d = (if d \<in> below_i then None else get_node ?t d)" for d
  proof -
    have "get_node ?t1 d = get_node ?t d" by (simp add: get_node_def)
    then show ?thesis using get_node_remove_slots [of ?t1 ?is d] unfolding isb by simp
  qed
  have fl: "free_list ?t' = free_list t @ ?is" "length (nodes ?t') = length (nodes t)"
    by (simp_all add: remove_slots_frame)
  have "set (free_list t) \<inter> below_i = {}" using f lived unfolding free_ok_def by blast
  then have "distinct (free_list t @ ?is)"
    using f ds(2) isb unfolding free_ok_def by (auto simp del: set_append simp: distinct_append)
  then have "free_ok ?t'"
    using f len isb get detach_live [of t i] by (auto simp: free_ok_def fl)
  then show ?thesis using m rep get fl(1) isb by auto
qed

section \<open>Reachable trees\<close>

text \<open>The operations as callers use them: links are made between live nodes, a node is not inserted
  before itself or before the sibling that already follows it, and only live nodes are removed.\<close>

inductive dom_step :: "'q qual_ops \<Rightarrow> 'q dom_tree \<Rightarrow> 'q dom_tree \<Rightarrow> bool" for q where
  new: "new_node q t d = (t', i) \<Longrightarrow> dom_step q t t'"
| append: "get_node t c \<noteq> None \<Longrightarrow> get_node t p \<noteq> None \<Longrightarrow> dom_step q t (append_child t p c)"
| insert: "get_node t x \<noteq> None \<Longrightarrow> x \<noteq> e \<Longrightarrow> Option.bind (get_node t e) prev_sibling \<noteq> Some x \<Longrightarrow>
    dom_step q t (insert_before t e x)"
| cut: "dom_step q t (detach t i)"
| remove: "get_node t i \<noteq> None \<Longrightarrow> dom_remove q t i = Some t' \<Longrightarrow> dom_step q t t'"
| add_text: "get_node t p \<noteq> None \<Longrightarrow> dom_step q t (append_text q t p s)"
| set_id: "dom_step q t (update_id_index t i old_id new_id)"

definition dom_wf :: "'q dom_tree \<Rightarrow> bool" where
  "dom_wf t \<longleftrightarrow> (\<exists>kids. rep t kids) \<and> free_ok t"

lemma set_data_rep:
  assumes r: "rep t kids"
  shows "rep (with_node_mut t l (\<lambda>m. m\<lparr>node_data := d\<rparr>)) kids"
proof -
  let ?t = "with_node_mut t l (\<lambda>m. m\<lparr>node_data := d\<rparr>)"
  have get: "get_node ?t c = Some n' \<Longrightarrow> \<exists>n. get_node t c = Some n \<and> parent n' = parent n \<and>
      first_child n' = first_child n \<and> last_child n' = last_child n \<and>
      prev_sibling n' = prev_sibling n \<and> next_sibling n' = next_sibling n" for c n'
    by (auto simp: get_node_with_node_mut split: if_splits)
  have put: "get_node t c = Some n \<Longrightarrow> \<exists>n'. get_node ?t c = Some n' \<and> parent n' = parent n \<and>
      prev_sibling n' = prev_sibling n \<and> next_sibling n' = next_sibling n" for c n
    by (auto simp: get_node_with_node_mut)
  have "\<exists>n. get_node ?t c = Some n \<and> parent n = Some p \<and> prev_sibling n = last_opt xs \<and>
      next_sibling n = hd_opt ys" if "kids p = xs @ c # ys" for p xs c ys
    using rep_links [OF r that] put [of c] by metis
  moreover have "first_child n = hd_opt (kids p) \<and> last_child n = last_opt (kids p)"
    if "get_node ?t p = Some n" for p n
    using get [OF that] rep_ends [OF r, of p] by auto
  moreover have "case parent n of None \<Rightarrow> prev_sibling n = None \<and> next_sibling n = None
      | Some p \<Rightarrow> c \<in> set (kids p)" if "get_node ?t c = Some n" for c n
    using get [OF that] rep_root [OF r, of c] rep_child [OF r, of c] by (auto split: option.split)
  moreover have "get_node ?t p \<noteq> None" if "kids p \<noteq> []" for p
    using rep_live [OF r that] by (simp add: live_with_node_mut)
  ultimately show ?thesis unfolding rep_def using rep_distinct [OF r] by blast
qed

lemma new_append_wf:
  assumes w: "dom_wf t" and p: "get_node t p \<noteq> None" and n: "new_node q t d = (t1, i)"
  shows "dom_wf (append_child t1 p i)"
proof -
  obtain kids where r: "rep t kids" "free_ok t" using w by (auto simp: dom_wf_def)
  note g = get_node_new_node [OF r(2) n]
  have "get_node t1 i \<noteq> None" "get_node t1 p \<noteq> None" using g(2) p by (simp_all split: if_splits)
  then have "rep (append_child t1 p i) ((\<lambda>q. remove1 i (kids q))(p := remove1 i (kids p) @ [i]))"
    by (rule append_child_rep [OF new_node_rep [OF r n]])
  moreover have "free_ok (append_child t1 p i)" using g(3) by (subst free_ok_frame [of _ t1]) simp_all
  ultimately show ?thesis by (auto simp: dom_wf_def)
qed

lemma append_text_wf:
  assumes w: "dom_wf t" and p: "get_node t p \<noteq> None"
  shows "dom_wf (append_text q t p s)"
proof -
  obtain t1 i where n: "new_node q t (Text s) = (t1, i)" by fastforce
  have "(\<exists>l d. append_text q t p s = with_node_mut t l (\<lambda>m. m\<lparr>node_data := d\<rparr>)) \<or>
      append_text q t p s = append_child t1 p i"
    by (auto simp: append_text_def n split: option.split node_data.split)
  then consider (data) l d where "append_text q t p s = with_node_mut t l (\<lambda>m. m\<lparr>node_data := d\<rparr>)"
    | (new) "append_text q t p s = append_child t1 p i"
    by blast
  then show ?thesis
  proof cases
    case data
    obtain kids where r: "rep t kids" "free_ok t" using w by (auto simp: dom_wf_def)
    have "free_ok (with_node_mut t l (\<lambda>m. m\<lparr>node_data := d\<rparr>))"
      using r(2) by (subst free_ok_frame [of _ t]) (simp_all add: live_with_node_mut)
    then show ?thesis using data set_data_rep [OF r(1)] by (auto simp: dom_wf_def)
  next
    case new
    then show ?thesis using new_append_wf [OF w p n] by simp
  qed
qed

lemma insert_before_wf:
  assumes w: "dom_wf t" and x: "get_node t x \<noteq> None" "x \<noteq> e"
    "Option.bind (get_node t e) prev_sibling \<noteq> Some x"
  shows "dom_wf (insert_before t e x)"
proof -
  obtain kids where r: "rep t kids" "free_ok t" using w by (auto simp: dom_wf_def)
  have fr: "free_ok (insert_before t e x)" using r(2) by (subst free_ok_frame [of _ t]) simp_all
  show ?thesis
  proof (cases "parent_of t e")
    case None
    then have "insert_before t e x = t"
      by (auto simp: insert_before_def parent_of_def bind_eq_None_conv split: option.split)
    then show ?thesis using w by simp
  next
    case (Some p)
    then have "e \<in> set (kids p)" using rep_in_kids_iff [OF r(1)] by simp
    then obtain xs ys where k: "kids p = xs @ e # ys" by (meson split_list)
    have "last_opt xs \<noteq> Some x" using rep_links [OF r(1) k] x(3) by auto
    then show ?thesis using insert_before_rep [OF r(1) k x(1,2)] fr by (auto simp: dom_wf_def)
  qed
qed

lemma dom_step_wf:
  assumes "dom_step q t t'" and w: "dom_wf t"
  shows "dom_wf t'"
proof -
  obtain kids where r: "rep t kids" "free_ok t" using w by (auto simp: dom_wf_def)
  from assms(1) show ?thesis
  proof cases
    case (new d i)
    then show ?thesis using new_node_rep [OF r new] get_node_new_node(3) [OF r(2) new] by (auto simp: dom_wf_def)
  next
    case (append c p)
    then have "free_ok t'" using r(2) by (subst free_ok_frame [of _ t]) simp_all
    then show ?thesis using append append_child_rep [OF r(1)] by (auto simp: dom_wf_def)
  next
    case (insert x e)
    then show ?thesis using insert_before_wf [OF w] by simp
  next
    case (cut i)
    then have "free_ok t'" using r(2) by (subst free_ok_frame [of _ t]) (simp_all add: detach_live)
    then show ?thesis using cut detach_rep [OF r(1)] by (auto simp: dom_wf_def)
  next
    case (remove i)
    then show ?thesis using dom_remove_rep [OF r, of i q] by (auto simp: dom_wf_def)
  next
    case (add_text p s)
    then show ?thesis using append_text_wf [OF w] by simp
  next
    case (set_id i old_id new_id)
    then have g: "get_node t' d = get_node t d" "nodes t' = nodes t" "free_list t' = free_list t" for d
      by (simp_all add: update_id_index_def get_node_def Let_def)
    have "rep t' kids" using rep_cong [of t' t kids] g(1) r(1) by simp
    moreover have "free_ok t'" using r(2) by (subst free_ok_frame [of _ t]) (simp_all add: g)
    ultimately show ?thesis by (auto simp: dom_wf_def)
  qed
qed

lemma dom_new_wf: "dom_wf dom_new"
  using dom_new_rep by (auto simp: dom_wf_def free_ok_def dom_new_def)

lemma dom_steps_wf:
  assumes "(dom_step q)\<^sup>*\<^sup>* dom_new t"
  shows "dom_wf t"
  using assms by (induction rule: rtranclp_induct) (auto intro: dom_new_wf dom_step_wf)

section \<open>A document for the examples\<close>

text \<open>The document node with two text children; names are strings.\<close>

definition str_names :: "string qual_ops" where
  "str_names = \<lparr>local_name = (\<lambda>n. n), qual_name_new = (\<lambda>n. n)\<rparr>"

definition demo_tree :: "string dom_tree" where
  "demo_tree =
     (let (t1, a) = new_node str_names dom_new (Text ''a'');
          t2 = append_child t1 0 a;
          (t3, b) = new_node str_names t2 (Text ''b'')
      in append_child t3 0 b)"

definition demo_kids :: "nat \<Rightarrow> nat list" where
  "demo_kids p = (if p = 0 then [1, 2] else [])"

lemma demo_tree_eval: "demo_tree = \<lparr>nodes =
    [Some ((fresh_node 0 Document)\<lparr>first_child := Some 1, last_child := Some 2\<rparr>),
     Some ((fresh_node 1 (Text ''a''))\<lparr>parent := Some 0, next_sibling := Some 2\<rparr>),
     Some ((fresh_node 2 (Text ''b''))\<lparr>parent := Some 0, prev_sibling := Some 1\<rparr>)],
   free_list = [], document = 0, id_index = []\<rparr>"
  by (simp add: demo_tree_def new_node_def dom_new_def append_child_def detach_def with_node_mut_def
      get_node_def get_attribute_def fresh_node_def Let_def)

lemma new_append_rep:
  assumes r: "rep t kids" "free_ok t" and p: "get_node t p \<noteq> None" and n: "new_node q t d = (t1, i)"
  shows "rep (append_child t1 p i) ((\<lambda>q. remove1 i (kids q))(p := remove1 i (kids p) @ [i]))"
    "free_ok (append_child t1 p i)"
proof -
  note g = get_node_new_node [OF r(2) n]
  have "get_node t1 i \<noteq> None" "get_node t1 p \<noteq> None" using g(2) p by (simp_all split: if_splits)
  then show "rep (append_child t1 p i) ((\<lambda>q. remove1 i (kids q))(p := remove1 i (kids p) @ [i]))"
    by (rule append_child_rep [OF new_node_rep [OF r n]])
  show "free_ok (append_child t1 p i)" using g(3) by (subst free_ok_frame [of _ t1]) simp_all
qed

lemma demo_rep: "rep demo_tree demo_kids" "free_ok demo_tree"
proof -
  obtain t1 where 1: "new_node str_names dom_new (Text ''a'') = (t1, 1)"
    by (simp add: new_node_def dom_new_def get_attribute_def)
  have f0: "free_ok (dom_new :: string dom_tree)" by (simp add: free_ok_def dom_new_def)
  have "get_node (dom_new :: string dom_tree) 0 \<noteq> None" by (simp add: dom_new_def get_node_def)
  note s1 = new_append_rep [OF dom_new_rep f0 this 1]
  obtain t3 where 3: "new_node str_names (append_child t1 0 1) (Text ''b'') = (t3, 2)"
    using 1 by (auto simp: new_node_def dom_new_def get_attribute_def split: if_splits)
  have "get_node t1 0 \<noteq> None"
    using get_node_new_node(2) [OF f0 1, of 0] by (simp add: dom_new_def get_node_def)
  then have "get_node (append_child t1 0 1) 0 \<noteq> None" by simp
  note s2 = new_append_rep [OF s1 this 3]
  have t: "append_child t3 0 2 = demo_tree" using 1 3 by (simp add: demo_tree_def)
  show "rep demo_tree demo_kids"
    using s2(1) [unfolded t]
    by (rule back_subst [where P = "rep demo_tree"]) (auto simp: fun_eq_iff demo_kids_def)
  show "free_ok demo_tree" using s2(2) t by simp
qed

section \<open>Properties\<close>

text \<open>In a tree whose pointers represent the child lists \<open>kids\<close>, \<open>append_child\<close> moves a live node
  to the end of a live parent's children and changes no other child list, from wherever the node
  was attached before.\<close>

lemma dom_append_child_functional:
  assumes "rep t kids" "get_node t c \<noteq> None" "get_node t p \<noteq> None"
  shows "children (append_child t p c) p = Some (remove1 c (kids p) @ [c]) \<and>
    (\<forall>q. q \<noteq> p \<longrightarrow> children (append_child t p c) q = Some (remove1 c (kids q))) \<and>
    parent_of (append_child t p c) c = Some p"
proof -
  note r = append_child_rep [OF assms]
  show ?thesis using children_rep [OF r] rep_parent [OF r, of c p] by simp
qed

text \<open>\<open>insert_before\<close> puts a live node right before \<open>e\<close> in the list of \<open>e\<close>'s parent, takes it out of
  the list it was in, and keeps the order of all other children. The node must be neither \<open>e\<close>
  itself nor the sibling that already precedes \<open>e\<close>.\<close>

lemma dom_insert_before_functional:
  assumes "rep t kids" "kids p = xs @ e # ys" "get_node t x \<noteq> None" "x \<noteq> e" "last_opt xs \<noteq> Some x"
  shows "children (insert_before t e x) p = Some (remove1 x xs @ x # e # remove1 x ys) \<and>
    (\<forall>q. q \<noteq> p \<longrightarrow> children (insert_before t e x) q = Some (remove1 x (kids q))) \<and>
    parent_of (insert_before t e x) x = Some p"
proof -
  note r = insert_before_rep [OF assms]
  show ?thesis using children_rep [OF r] rep_parent [OF r, of x p] by simp
qed



text \<open>Removing a live node always returns: the whole subtree below it is dead and on the free list
  afterwards, each slot once, and every other node keeps its children except for the removed one.\<close>

lemma dom_remove_functional:
  assumes "rep t kids" "free_ok t" "get_node t i \<noteq> None"
  shows "\<exists>t'. dom_remove q t i = Some t' \<and>
    (\<forall>d. get_node t' d = None \<longleftrightarrow> get_node t d = None \<or> (i, d) \<in> (below kids)\<^sup>*) \<and>
    (\<forall>p. (i, p) \<notin> (below kids)\<^sup>* \<longrightarrow> children t' p = Some (remove1 i (kids p))) \<and>
    set (free_list t') = set (free_list t) \<union> {d. (i, d) \<in> (below kids)\<^sup>*} \<and> distinct (free_list t')"
proof -
  obtain t' where t': "dom_remove q t i = Some t'" "free_ok t'"
    "rep t' (\<lambda>p. if p \<in> (below kids)\<^sup>* `` {i} then [] else remove1 i (kids p))"
    "\<forall>d. get_node t' d = (if d \<in> (below kids)\<^sup>* `` {i} then None else get_node (detach t i) d)"
    "set (free_list t') = set (free_list t) \<union> (below kids)\<^sup>* `` {i}"
    using dom_remove_rep [OF assms, of q] by blast
  have "set (free_list t') = set (free_list t) \<union> {d. (i, d) \<in> (below kids)\<^sup>*}" using t'(5) by auto
  then show ?thesis
    using t'(1,2,4) children_rep [OF t'(3)] detach_live [of t i] by (auto simp: free_ok_def)
qed

text \<open>The script call \<open>parent.insertBefore(n, ref)\<close> does not insert a newly created \<open>n\<close>: the operation
  takes its first argument, the parent, as the node to insert and its second, \<open>n\<close>, as the
  reference, and as \<open>n\<close> has no parent nothing happens. When \<open>n\<close> does have a parent, it is the
  parent \<open>this\<close> that is moved, before \<open>n\<close>.\<close>

lemma js_insert_before_ignores_new_node:
  "(parent_of t n = None \<longrightarrow> js_insert_before t this n (Some ref) = t) \<and>
   (\<forall>kids p xs ys. rep t kids \<and> kids p = xs @ n # ys \<and> get_node t this \<noteq> None \<and> this \<noteq> n \<and>
      last_opt xs \<noteq> Some this \<longrightarrow>
      children (js_insert_before t this n (Some ref)) p = Some (remove1 this xs @ this # n # remove1 this ys))"
proof (intro conjI impI allI)
  assume "parent_of t n = None"
  then show "js_insert_before t this n (Some ref) = t"
    by (auto simp: js_insert_before_def insert_before_def parent_of_def bind_eq_None_conv split: option.split)
next
  fix kids p xs ys
  assume a: "rep t kids \<and> kids p = xs @ n # ys \<and> get_node t this \<noteq> None \<and> this \<noteq> n \<and> last_opt xs \<noteq> Some this"
  then have "rep (insert_before t n this) ((\<lambda>q. remove1 this (kids q))(p := remove1 this xs @ this # n # remove1 this ys))"
    by (intro insert_before_rep) simp_all
  then show "children (js_insert_before t this n (Some ref)) p = Some (remove1 this xs @ this # n # remove1 this ys)"
    using children_rep by (fastforce simp: js_insert_before_def)
qed

text \<open>Inserting a node before itself makes it its own sibling: as a first child it is then the first
  child of its parent and its own next sibling, so walking the parent's children never ends.\<close>

lemma dom_insert_before_self_diverges:
  assumes "rep t kids" "kids p = e # ys"
  shows "children (insert_before t e e) p = None"
proof -
  obtain n where n: "get_node t e = Some n" "parent n = Some p" "prev_sibling n = None"
    using rep_links [OF assms(1), of p "[]" e ys] assms(2) by auto
  obtain m where m: "get_node t p = Some m" using rep_live [OF assms(1), of p] assms(2) by auto
  have c: "insert_before t e e = with_node_mut (with_node_mut (with_node_mut (detach t e) e
      (\<lambda>m. m\<lparr>parent := Some p, prev_sibling := None, next_sibling := Some e\<rparr>)) e
      (\<lambda>m. m\<lparr>prev_sibling := Some e\<rparr>)) p (\<lambda>m. m\<lparr>first_child := Some e\<rparr>)"
    using n by (simp add: insert_before_def)
  have live: "get_node (detach t e) e \<noteq> None" "get_node (detach t e) p \<noteq> None"
    using n(1) m by (simp_all add: detach_live)
  then have "next_of (insert_before t e e) e = Some e" "first_of (insert_before t e e) p = Some e"
    by (auto simp: c next_of_def first_of_def get_node_with_node_mut)
  then show ?thesis by (simp add: children_def follow_cycle1)
qed

end
