(* ===== verification/JsonPathText.thy ===== *)
theory JsonPathText
  imports JsonPath
begin

text \<open>
  \<open>lib/segment/src/json_path/parse.rs\<close> of qdrant and the \<open>Display\<close> of \<open>JsonPath\<close>: the text form of a path. A
  parser gives the value it read and the rest of the input, or nothing; the combinators of \<open>nom\<close> the code
  uses are written out.
\<close>

section \<open>The text form: printing and parsing\<close>

definition is_digit :: "char \<Rightarrow> bool" where "is_digit c = (48 \<le> (of_char c :: nat) \<and> (of_char c :: nat) \<le> 57)"

text \<open>\<open>char::is_alphanumeric\<close> on the first 256 code points.\<close>

definition is_alphanumeric :: "char \<Rightarrow> bool" where
  "is_alphanumeric c =
     (let n = (of_char c :: nat) in
        is_digit c \<or> 65 \<le> n \<and> n \<le> 90 \<or> 97 \<le> n \<and> n \<le> 122 \<or> n \<in> {170, 178, 179, 181, 185, 186, 188, 189, 190} \<or>
        192 \<le> n \<and> n \<noteq> 215 \<and> n \<noteq> 247)"

definition is_key_char :: "char \<Rightarrow> bool" where
  "is_key_char c = (is_alphanumeric c \<or> c = CHR ''_'' \<or> c = CHR ''-'')"

definition quote_char :: char where "quote_char = CHR 0x22"
definition backslash_char :: char where "backslash_char = CHR 0x5C"

text \<open>A parser gives the value and the rest of the input.\<close>

definition raw_str :: "string \<Rightarrow> (string \<times> string) option" where
  "raw_str s =
     (let k = takeWhile is_key_char s in if k = [] then None else Some (k, dropWhile is_key_char s))"

definition is_quotable :: "char \<Rightarrow> bool" where "is_quotable c = (c \<noteq> backslash_char \<and> c \<noteq> quote_char)"

definition quoted_str :: "string \<Rightarrow> (string \<times> string) option" where
  "quoted_str s =
     (case s of
        [] \<Rightarrow> None
      | c # s1 \<Rightarrow>
          if c \<noteq> quote_char then None
          else (case dropWhile is_quotable s1 of
                  [] \<Rightarrow> None
                | c2 # s2 \<Rightarrow> if c2 = quote_char then Some (takeWhile is_quotable s1, s2) else None))"

definition digits_value :: "string \<Rightarrow> nat" where
  "digits_value s = foldl (\<lambda>n c. 10 * n + (of_char c - 48)) 0 s"

text \<open>\<open>str::parse\<close> into a \<open>usize\<close> fails when the number does not fit.\<close>

definition number :: "string \<Rightarrow> (nat \<times> string) option" where
  "number s =
     (let ds = takeWhile is_digit s in
        if ds = [] then None
        else if digits_value ds < 2 ^ 64 then Some (digits_value ds, dropWhile is_digit s) else None)"

definition char_tag :: "char \<Rightarrow> string \<Rightarrow> string option" where
  "char_tag c s = (case s of [] \<Rightarrow> None | x # r \<Rightarrow> if x = c then Some r else None)"

definition dot_raw :: "string \<Rightarrow> (path_item \<times> string) option" where
  "dot_raw s = Option.bind (char_tag CHR ''.'' s) (\<lambda>s1. map_option (\<lambda>(k, r). (Key k, r)) (raw_str s1))"

definition dot_quoted :: "string \<Rightarrow> (path_item \<times> string) option" where
  "dot_quoted s = Option.bind (char_tag CHR ''.'' s) (\<lambda>s1. map_option (\<lambda>(k, r). (Key k, r)) (quoted_str s1))"

definition bracket_index :: "string \<Rightarrow> (path_item \<times> string) option" where
  "bracket_index s =
     Option.bind (char_tag CHR ''['' s) (\<lambda>s1.
     Option.bind (number s1) (\<lambda>(n, s2).
     map_option (\<lambda>r. (Index n, r)) (char_tag CHR '']'' s2)))"

definition bracket_wildcard :: "string \<Rightarrow> (path_item \<times> string) option" where
  "bracket_wildcard s =
     Option.bind (char_tag CHR ''['' s) (\<lambda>s1. map_option (\<lambda>r. (WildcardIndex, r)) (char_tag CHR '']'' s1))"

definition alt :: "('a \<Rightarrow> 'b option) \<Rightarrow> ('a \<Rightarrow> 'b option) \<Rightarrow> 'a \<Rightarrow> 'b option" where
  "alt f g s = (case f s of Some r \<Rightarrow> Some r | None \<Rightarrow> g s)"

definition parse_item :: "string \<Rightarrow> (path_item \<times> string) option" where
  "parse_item = alt dot_raw (alt dot_quoted (alt bracket_index bracket_wildcard))"

text \<open>\<open>many0\<close>: until the parser fails; a parser that succeeds on nothing is an error.\<close>

function many_items :: "string \<Rightarrow> (path_item list \<times> string) option" where
  "many_items s =
     (case parse_item s of
        None \<Rightarrow> Some ([], s)
      | Some (x, r) \<Rightarrow>
          if length r < length s then map_option (\<lambda>(xs, r1). (x # xs, r1)) (many_items r) else None)"
  by pat_completeness auto
termination by (relation "measure length") auto

declare many_items.simps [simp del]

definition parse_json_path :: "string \<Rightarrow> (json_path \<times> string) option" where
  "parse_json_path s =
     (case alt raw_str quoted_str s of
        None \<Rightarrow> None
      | Some (k, s1) \<Rightarrow>
          (case many_items s1 of
             None \<Rightarrow> None
           | Some (xs, r) \<Rightarrow> Some (\<lparr>first_key = k, rest_items = xs\<rparr>, r)))"

definition from_str :: "string \<Rightarrow> json_path option" where
  "from_str s = (case parse_json_path s of Some (p, r) \<Rightarrow> if r = [] then Some p else None | None \<Rightarrow> None)"

definition key_needs_quoting :: "string \<Rightarrow> bool" where
  "key_needs_quoting s = (case raw_str s of Some (k, r) \<Rightarrow> r \<noteq> [] | None \<Rightarrow> True)"

fun show_nat :: "nat \<Rightarrow> string" where
  "show_nat n = (if n < 10 then [char_of (48 + n)] else show_nat (n div 10) @ [char_of (48 + n mod 10)])"

declare show_nat.simps [simp del]

definition write_key :: "string \<Rightarrow> string" where
  "write_key k = (if key_needs_quoting k then [quote_char] @ k @ [quote_char] else k)"

primrec print_item :: "path_item \<Rightarrow> string" where
  "print_item (Key k) = ''.'' @ write_key k"
| "print_item (Index i) = ''['' @ show_nat i @ '']''"
| "print_item WildcardIndex = ''[]''"

definition print_path :: "json_path \<Rightarrow> string" where
  "print_path p = write_key (first_key p) @ concat (map print_item (rest_items p))"

section \<open>Parsing what was printed\<close>

definition path_printable :: "json_path \<Rightarrow> bool" where
  "path_printable p =
     (list_all is_quotable (first_key p) \<and>
      list_all (\<lambda>x. case x of Key k \<Rightarrow> list_all is_quotable k | Index i \<Rightarrow> i < 2 ^ 64 | WildcardIndex \<Rightarrow> True) (rest_items p))"

lemma takeWhile_all_append: "list_all P xs \<Longrightarrow> takeWhile P (xs @ ys) = xs @ takeWhile P ys"
  by (simp add: list_all_iff)

lemma dropWhile_all_append: "list_all P xs \<Longrightarrow> dropWhile P (xs @ ys) = dropWhile P ys"
  by (simp add: list_all_iff)

lemma key_needs_quoting_iff: "key_needs_quoting k \<longleftrightarrow> k = [] \<or> \<not> list_all is_key_char k"
  by (auto simp: key_needs_quoting_def raw_str_def Let_def list_all_iff dropWhile_eq_Nil_conv takeWhile_eq_Nil_iff)

text \<open>What can follow a key in a printed path does not continue it.\<close>

definition stops_key :: "string \<Rightarrow> bool" where
  "stops_key r = (r = [] \<or> \<not> is_key_char (hd r))"

lemma stops_key_takeWhile: "stops_key r \<Longrightarrow> takeWhile is_key_char r = [] \<and> dropWhile is_key_char r = r"
  by (cases r) (auto simp: stops_key_def)

lemma quote_char_not_key: "\<not> is_key_char quote_char" "is_quotable c \<Longrightarrow> c \<noteq> quote_char"
  by (auto simp: is_key_char_def is_alphanumeric_def is_digit_def quote_char_def Let_def is_quotable_def)

lemma raw_str_write_key:
  "stops_key r \<Longrightarrow> \<not> key_needs_quoting k \<Longrightarrow> raw_str (write_key k @ r) = Some (k, r)"
  by (simp add: key_needs_quoting_iff write_key_def raw_str_def Let_def takeWhile_all_append dropWhile_all_append
      stops_key_takeWhile)

lemma quoted_str_write_key:
  assumes "key_needs_quoting k" "list_all is_quotable k"
  shows "raw_str (write_key k @ r) = None \<and> quoted_str (write_key k @ r) = Some (k, r)"
proof -
  have "\<not> is_quotable quote_char" by (simp add: is_quotable_def)
  then show ?thesis using assms
    by (simp add: write_key_def raw_str_def quoted_str_def Let_def quote_char_not_key takeWhile_all_append
        dropWhile_all_append)
qed

lemma alt_write_key:
  "stops_key r \<Longrightarrow> list_all is_quotable k \<Longrightarrow> alt raw_str quoted_str (write_key k @ r) = Some (k, r)"
  by (cases "key_needs_quoting k") (auto simp: alt_def raw_str_write_key quoted_str_write_key)

lemma digits_value_snoc: "digits_value (s @ [c]) = 10 * digits_value s + (of_char c - 48)"
  by (simp add: digits_value_def)

lemma show_nat_digits: "list_all is_digit (show_nat n) \<and> show_nat n \<noteq> [] \<and> digits_value (show_nat n) = n"
proof (induction n rule: show_nat.induct)
  case (1 n)
  have *: "(of_char (char_of (48 + n mod 10) :: char) :: nat) = 48 + n mod 10" for n :: nat
    by (simp add: of_char_of)
  show ?case
  proof (cases "n < 10")
    case True
    then show ?thesis using * [of n] by (subst (1 2 3) show_nat.simps) (simp add: digits_value_def is_digit_def)
  next
    case False
    moreover have "is_digit (char_of (48 + n mod 10))" using * [of n] by (simp add: is_digit_def)
    ultimately show ?thesis using 1 * [of n]
      by (subst (1 2 3) show_nat.simps) (simp add: digits_value_snoc)
  qed
qed

lemma number_show_nat:
  assumes "n < 2 ^ 64" "r = [] \<or> \<not> is_digit (hd r)"
  shows "number (show_nat n @ r) = Some (n, r)"
proof -
  have "takeWhile is_digit r = [] \<and> dropWhile is_digit r = r" using assms(2) by (cases r) auto
  then show ?thesis using show_nat_digits [of n] assms(1)
    by (simp add: number_def Let_def takeWhile_all_append dropWhile_all_append)
qed

lemma char_tag_Cons [simp]: "char_tag c (x # r) = (if x = c then Some r else None)"
  by (simp add: char_tag_def)

lemma char_tag_Nil [simp]: "char_tag c [] = None"
  by (simp add: char_tag_def)

definition item_printable :: "path_item \<Rightarrow> bool" where
  "item_printable x = (case x of Key k \<Rightarrow> list_all is_quotable k | Index i \<Rightarrow> i < 2 ^ 64 | WildcardIndex \<Rightarrow> True)"

lemma parse_print_item:
  assumes "item_printable x" "stops_key r"
  shows "parse_item (print_item x @ r) = Some (x, r)"
proof (cases x)
  case (Key k)
  then have k: "list_all is_quotable k" using assms(1) by (simp add: item_printable_def)
  show ?thesis
  proof (cases "key_needs_quoting k")
    case True
    then show ?thesis using quoted_str_write_key [OF True k, of r] Key
      by (simp add: parse_item_def alt_def dot_raw_def dot_quoted_def)
  next
    case False
    then show ?thesis using raw_str_write_key [OF assms(2) False] Key
      by (simp add: parse_item_def alt_def dot_raw_def)
  qed
next
  case (Index i)
  then have "number (show_nat i @ CHR '']'' # r) = Some (i, CHR '']'' # r)"
    using assms(1) by (intro number_show_nat) (auto simp: item_printable_def is_digit_def)
  then show ?thesis using Index
    by (simp add: parse_item_def alt_def dot_raw_def dot_quoted_def bracket_index_def)
next
  case WildcardIndex
  have "number (CHR '']'' # r) = None" by (simp add: number_def is_digit_def)
  then show ?thesis using WildcardIndex
    by (simp add: parse_item_def alt_def dot_raw_def dot_quoted_def bracket_index_def bracket_wildcard_def)
qed

lemma print_item_stops_key: "stops_key (print_item x @ r)"
  by (cases x) (auto simp: stops_key_def is_key_char_def is_alphanumeric_def is_digit_def Let_def)

lemma print_items_stop_key: "stops_key (concat (map print_item xs))"
  by (cases xs) (simp_all add: print_item_stops_key, simp add: stops_key_def)

lemma print_item_ne [simp]: "print_item x \<noteq> []" by (cases x) auto

lemma many_items_print:
  "list_all item_printable xs \<Longrightarrow> many_items (concat (map print_item xs)) = Some (xs, [])"
proof (induction xs)
  case Nil
  have "parse_item [] = None"
    by (simp add: parse_item_def alt_def dot_raw_def dot_quoted_def bracket_index_def bracket_wildcard_def)
  then show ?case by (simp add: many_items.simps)
next
  case (Cons x xs)
  then show ?case
    using parse_print_item [OF _ print_items_stop_key, of x xs]
    by (simp add: many_items.simps [of "print_item x @ concat (map print_item xs)"])
qed

lemma path_printable_alt:
  "path_printable p \<longleftrightarrow> list_all is_quotable (first_key p) \<and> list_all item_printable (rest_items p)"
  by (auto simp: path_printable_def item_printable_def list_all_iff split: path_item.splits)

lemma from_str_print_path: "path_printable p \<Longrightarrow> from_str (print_path p) = Some p"
  by (simp add: path_printable_alt from_str_def print_path_def parse_json_path_def alt_write_key print_items_stop_key
      many_items_print)

subsection \<open>Every parsed path is printable\<close>

lemma key_char_quotable: "is_key_char c \<Longrightarrow> is_quotable c"
  by (auto simp: is_quotable_def is_key_char_def is_alphanumeric_def is_digit_def Let_def quote_char_def backslash_char_def)

lemma takeWhile_list_all: "list_all P (takeWhile P s)"
  by (auto simp: list_all_iff dest: set_takeWhileD)

lemma raw_str_quotable: "raw_str s = Some (k, r) \<Longrightarrow> list_all is_quotable k"
  by (auto simp: raw_str_def Let_def list_all_iff key_char_quotable dest: set_takeWhileD split: if_splits)

lemma quoted_str_quotable: "quoted_str s = Some (k, r) \<Longrightarrow> list_all is_quotable k"
  by (auto simp: quoted_str_def takeWhile_list_all split: list.splits if_splits)

lemma alt_Some: "alt f g s = Some y \<Longrightarrow> f s = Some y \<or> g s = Some y"
  by (auto simp: alt_def split: option.splits)

lemma number_bound: "number s = Some (n, r) \<Longrightarrow> n < 2 ^ 64"
  by (auto simp: number_def Let_def split: if_splits)

lemma parse_item_printable: "parse_item s = Some (x, r) \<Longrightarrow> item_printable x"
  by (auto simp: parse_item_def item_printable_def dot_raw_def dot_quoted_def bracket_index_def bracket_wildcard_def
      bind_eq_Some_conv
      dest!: alt_Some raw_str_quotable quoted_str_quotable number_bound)

lemma many_items_printable: "many_items s = Some (xs, r) \<Longrightarrow> list_all item_printable xs"
proof (induction s arbitrary: xs rule: many_items.induct)
  case (1 s)
  show ?case
  proof (cases "parse_item s")
    case None
    then show ?thesis using 1(2) by (simp add: many_items.simps [of s])
  next
    case (Some y)
    then show ?thesis using 1 parse_item_printable [of s]
      by (cases y) (auto simp: many_items.simps [of s] split: if_splits)
  qed
qed

lemma from_str_printable: "from_str s = Some p \<Longrightarrow> path_printable p"
  by (auto simp: from_str_def parse_json_path_def path_printable_alt split: option.splits prod.splits if_splits
      dest: many_items_printable dest!: alt_Some dest: raw_str_quotable quoted_str_quotable)

section \<open>Property\<close>

text \<open>C29: The text form: a path whose keys have no quote and no backslash and whose indices fit in a \<open>usize\<close> is parsed back
  from what it prints, and every path the parser accepts is such a path.\<close>

theorem json_path_text_roundtrip:
  "(path_printable p \<longrightarrow> from_str (print_path p) = Some p) \<and> (from_str s = Some p \<longrightarrow> from_str (print_path p) = Some p)"
  using from_str_print_path from_str_printable by blast

theorem json_path_text_roundtrip_witness:
  "from_str (print_path \<lparr>first_key = ''a b'', rest_items = [Index 50, Key ''c'', WildcardIndex]\<rparr>) =
     Some \<lparr>first_key = ''a b'', rest_items = [Index 50, Key ''c'', WildcardIndex]\<rparr>"
proof -
  have "path_printable \<lparr>first_key = ''a b'', rest_items = [Index 50, Key ''c'', WildcardIndex]\<rparr>"
    by (simp add: path_printable_def is_quotable_def quote_char_def backslash_char_def)
  then show ?thesis using json_path_text_roundtrip by blast
qed

end
