(* ===== verification/GridBits.thy ===== *)
theory GridBits
  imports Prelude
begin

text \<open>
  \<open>lib/gridstore/src/bitmask/mod.rs\<close> of qdrant, the two word-at-a-time searches of the block
  bitmask: the first gap of a given size (\<open>find_available_blocks_in_slice\<close>) and the gaps of a
  region (\<open>calculate_gaps\<close>). A set bit is a used block; bit 0 of the first \<open>usize\<close> is the first
  block. Both searches are proved equal to a search bit by bit. Positions are natural numbers:
  they stay below the number of blocks, which the code keeps in a \<open>u32\<close>.
\<close>

type_synonym u16 = "16 word"

section \<open>The bits of a word\<close>

definition bits_of :: "u64 \<Rightarrow> bool list" where
  "bits_of w = map (bit w) [0..<64]"

text \<open>\<open>trailing_zeros\<close> and the like of the standard library.\<close>

definition zeros_run :: "bool list \<Rightarrow> nat" where
  "zeros_run bs = length (takeWhile Not bs)"

definition ones_run :: "bool list \<Rightarrow> nat" where
  "ones_run bs = length (takeWhile id bs)"

definition trailing_zeros :: "u64 \<Rightarrow> nat" where "trailing_zeros w = zeros_run (bits_of w)"
definition trailing_ones :: "u64 \<Rightarrow> nat" where "trailing_ones w = ones_run (bits_of w)"
definition leading_zeros :: "u64 \<Rightarrow> nat" where "leading_zeros w = zeros_run (rev (bits_of w))"
definition leading_ones :: "u64 \<Rightarrow> nat" where "leading_ones w = ones_run (rev (bits_of w))"

lemma length_bits_of [simp]: "length (bits_of w) = 64"
  by (simp add: bits_of_def)

lemma nth_bits_of [simp]: "i < 64 \<Longrightarrow> bits_of w ! i = bit w i"
  by (simp add: bits_of_def)

lemma bit_oob: "64 \<le> i \<Longrightarrow> \<not> bit (w :: u64) i"
  using bit_imp_le_length [of w i] by auto

lemma bits_of_inject: "bits_of v = bits_of w \<longleftrightarrow> v = w"
proof
  assume "bits_of v = bits_of w"
  then have "bit v i = bit w i" if "i < 64" for i using that by (metis nth_bits_of)
  then show "v = w" by (auto intro: bit_word_eqI)
qed simp

lemma bits_of_0: "bits_of 0 = replicate 64 False"
  by (rule nth_equalityI) simp_all

lemma bits_of_max: "bits_of (- 1) = replicate 64 True"
  by (rule nth_equalityI) simp_all

lemma bits_of_drop_bit: "k \<le> 64 \<Longrightarrow> bits_of (drop_bit k w) = drop k (bits_of w) @ replicate k False"
  by (rule nth_equalityI) (auto simp: bit_drop_bit_eq nth_append bit_oob add.commute)

lemma bits_of_push_bit: "k \<le> 64 \<Longrightarrow> rev (bits_of (push_bit k w)) = drop k (rev (bits_of w)) @ replicate k False"
proof -
  assume k: "k \<le> 64"
  have "bits_of (push_bit k w) = replicate k False @ take (64 - k) (bits_of w)"
    by (rule nth_equalityI) (use k in \<open>auto simp: bit_push_bit_iff nth_append\<close>)
  then show ?thesis by (simp add: drop_rev)
qed

section \<open>Searching bit by bit\<close>

text \<open>\<open>scan\<close> is the search of \<open>find_available_blocks_in_slice\<close> one bit at a time: \<open>cs\<close> free blocks
  precede position \<open>pos\<close>.\<close>

fun scan :: "nat \<Rightarrow> nat \<Rightarrow> nat \<Rightarrow> bool list \<Rightarrow> nat option" where
  "scan n cs pos [] = (if n \<le> cs then Some (pos - cs) else None)"
| "scan n cs pos (b # bs) =
     (if b then (if n \<le> cs then Some (pos - cs) else scan n 0 (pos + 1) bs)
      else scan n (cs + 1) (pos + 1) bs)"

definition free_run :: "bool list \<Rightarrow> nat \<Rightarrow> nat \<Rightarrow> bool" where
  "free_run bs s n \<longleftrightarrow> s + n \<le> length bs \<and> (\<forall>i < n. \<not> bs ! (s + i))"

definition first_fit :: "nat \<Rightarrow> bool list \<Rightarrow> nat option" where
  "first_fit n bs = find (\<lambda>s. free_run bs s n) [0..<Suc (length bs)]"

lemma scan_zeros: "scan n cs pos (replicate k False @ bs) = scan n (cs + k) (pos + k) bs"
  by (induction k arbitrary: cs pos) (simp_all add: add_ac)

lemma scan_ones:
  assumes "0 < n" "0 < k"
  shows "scan n cs pos (replicate k True @ bs) =
    (if n \<le> cs then Some (pos - cs) else scan n 0 (pos + k) bs)"
proof -
  have z: "scan n 0 pos (replicate k True @ bs) = scan n 0 (pos + k) bs" for k pos
    using assms(1) by (induction k arbitrary: pos) (simp_all add: add_ac)
  obtain k' where k: "k = Suc k'" using assms(2) by (cases k) auto
  show ?thesis unfolding k using z [of "pos + 1" k'] by simp
qed

lemma scan_short:
  assumes "0 < n" "cs + length m < n"
  shows "scan n cs pos (m @ True # bs) = scan n 0 (pos + length m + 1) bs"
  using assms(2)
proof (induction m arbitrary: cs pos)
  case (Cons b m)
  then show ?case using assms(1) by (simp add: add_ac)
qed simp

lemma free_run_skip:
  assumes "0 < n" "cs < n"
  shows "free_run (replicate cs False @ True # bs) s n \<longleftrightarrow> Suc cs \<le> s \<and> free_run bs (s - Suc cs) n"
proof
  let ?xs = "replicate cs False @ True # bs"
  assume a: "free_run ?xs s n"
  have "\<not> s \<le> cs"
  proof
    assume s: "s \<le> cs"
    then have "\<not> ?xs ! (s + (cs - s))" using a assms(2) unfolding free_run_def by (metis diff_le_self le_less_trans)
    then show False using s by (simp add: nth_append)
  qed
  moreover from this have "\<not> bs ! (s - Suc cs + i)" if "i < n" for i
    using a that unfolding free_run_def by (auto simp: nth_append Suc_diff_le dest!: spec [of _ i])
  ultimately show "Suc cs \<le> s \<and> free_run bs (s - Suc cs) n" using a by (auto simp: free_run_def)
next
  assume "Suc cs \<le> s \<and> free_run bs (s - Suc cs) n"
  then show "free_run (replicate cs False @ True # bs) s n"
    by (auto simp: free_run_def nth_append Suc_diff_le)
qed

text \<open>The scan returns the first gap that is large enough.\<close>

definition least_run :: "bool list \<Rightarrow> nat \<Rightarrow> nat option \<Rightarrow> bool" where
  "least_run bs n r \<longleftrightarrow> (case r of
     None \<Rightarrow> \<forall>s. \<not> free_run bs s n
   | Some s \<Rightarrow> free_run bs s n \<and> (\<forall>s' < s. \<not> free_run bs s' n))"

lemma scan_least:
  assumes "0 < n" "cs \<le> pos"
  shows "\<exists>r. scan n cs pos bs = map_option ((+) (pos - cs)) r \<and> least_run (replicate cs False @ bs) n r"
  using assms(2)
proof (induction bs arbitrary: cs pos)
  case Nil
  show ?case
    by (rule exI [of _ "if n \<le> cs then Some 0 else None"]) (auto simp: least_run_def free_run_def)
next
  case (Cons b bs)
  show ?case
  proof (cases b)
    case False
    obtain r where r: "scan n (cs + 1) (pos + 1) bs = map_option ((+) (pos - cs)) r"
      "least_run (replicate (cs + 1) False @ bs) n r"
    proof -
      have "cs + 1 \<le> pos + 1" "pos + 1 - (cs + 1) = pos - cs" using Cons.prems by simp_all
      then show ?thesis using Cons.IH [of "cs + 1" "pos + 1"] that by metis
    qed
    have "replicate (cs + 1) False @ bs = replicate cs False @ False # bs"
      by (simp add: replicate_app_Cons_same)
    then show ?thesis using r False by auto
  next
    case True
    show ?thesis
    proof (cases "n \<le> cs")
      case le: True
      have "free_run (replicate cs False @ b # bs) 0 n" using le by (auto simp: free_run_def nth_append)
      then show ?thesis using le True Cons.prems
        by (intro exI [of _ "Some 0"]) (simp add: least_run_def)
    next
      case False
      then have cs: "cs < n" by simp
      obtain r where r: "scan n 0 (pos + 1) bs = map_option ((+) (pos + 1)) r" "least_run bs n r"
      proof -
        have "0 \<le> pos + 1" by simp
        from Cons.IH [OF this] show ?thesis using that by (metis diff_zero append_Nil replicate_0)
      qed
      have e: "pos - cs + Suc cs = Suc pos" using Cons.prems by simp
      let ?r = "map_option ((+) (Suc cs)) r"
      have "scan n cs pos (b # bs) = map_option ((+) (pos - cs)) ?r"
        using r(1) False True e by (cases r) simp_all
      moreover have "least_run (replicate cs False @ b # bs) n ?r"
        using r(2) free_run_skip [OF assms(1) cs] True
        by (cases r) (auto simp: least_run_def)
      ultimately show ?thesis by blast
    qed
  qed
qed

lemma first_fit_least: "least_run bs n (first_fit n bs)"
proof (cases "first_fit n bs")
  case None
  then have "\<not> free_run bs s n" for s
    by (auto simp: first_fit_def find_None_iff free_run_def)
  then show ?thesis using None by (simp add: least_run_def)
next
  case (Some s)
  then obtain i where i: "i < Suc (length bs)" "free_run bs s n" "s = [0..<Suc (length bs)] ! i"
    "\<forall>j < i. \<not> free_run bs ([0..<Suc (length bs)] ! j) n"
    unfolding first_fit_def find_Some_iff by (auto simp del: upt_Suc)
  then have "s = i" by (simp del: upt_Suc)
  then show ?thesis using i Some by (auto simp: least_run_def simp del: upt_Suc)
qed

lemma least_run_unique:
  assumes "least_run bs n r" "least_run bs n r'"
  shows "r = r'"
proof (cases r)
  case None
  then show ?thesis using assms by (cases r') (auto simp: least_run_def)
next
  case (Some s)
  then show ?thesis using assms by (cases r') (auto simp: least_run_def intro: antisym_conv3 [THEN iffD1])
qed

lemma scan_first_fit:
  assumes "0 < n"
  shows "scan n 0 0 bs = first_fit n bs"
proof -
  obtain r where r: "scan n 0 0 bs = map_option ((+) 0) r" "least_run bs n r"
    using scan_least [OF assms, of 0 0 bs] by auto
  have "map_option ((+) 0) r = r" by (cases r) simp_all
  then show ?thesis using r least_run_unique [OF r(2) first_fit_least] by simp
qed

section \<open>The search of a gap\<close>

text \<open>The runs of zeros at the ends of a list of bits.\<close>

lemma zeros_run_le [simp]: "zeros_run bs \<le> length bs"
  unfolding zeros_run_def by (rule length_takeWhile_le)

lemma ones_run_le [simp]: "ones_run bs \<le> length bs"
  unfolding ones_run_def by (rule length_takeWhile_le)

lemma zeros_run_split:
  obtains "bs = replicate (zeros_run bs) False"
  | bs' where "bs = replicate (zeros_run bs) False @ True # bs'"
proof -
  have t: "takeWhile Not bs = replicate (zeros_run bs) False"
    unfolding zeros_run_def by (rule replicate_eqI) (auto dest: set_takeWhileD)
  show ?thesis
  proof (cases "dropWhile Not bs")
    case Nil
    then have "bs = replicate (zeros_run bs) False"
      using t by (metis append_Nil2 takeWhile_dropWhile_id)
    then show ?thesis by (rule that(1))
  next
    case (Cons b bs')
    then have b using hd_dropWhile [of Not bs] by simp
    then have "bs = replicate (zeros_run bs) False @ True # bs'"
      using t Cons takeWhile_dropWhile_id [of Not bs] by simp
    then show ?thesis by (rule that(2))
  qed
qed

lemma ones_run_take: "take (ones_run bs) bs = replicate (ones_run bs) True"
proof -
  have "takeWhile id bs = replicate (ones_run bs) True"
    unfolding ones_run_def by (rule replicate_eqI) (auto dest: set_takeWhileD)
  then show ?thesis by (metis ones_run_def takeWhile_eq_take)
qed

lemma ones_run_True: "0 < ones_run (True # bs)"
  by (simp add: ones_run_def)

lemma nonzero_split:
  assumes "c \<noteq> 0"
  shows "\<exists>rest. bits_of c = replicate (trailing_zeros c) False @ True # rest"
    "\<exists>rest. rev (bits_of c) = replicate (leading_zeros c) False @ True # rest"
proof -
  have ex: "True \<in> set (bits_of c)"
  proof (rule ccontr)
    assume "True \<notin> set (bits_of c)"
    then have "bits_of c = replicate 64 False" by (intro replicate_eqI) auto
    then show False using assms bits_of_0 bits_of_inject by metis
  qed
  show "\<exists>rest. bits_of c = replicate (trailing_zeros c) False @ True # rest"
    unfolding trailing_zeros_def
    by (rule zeros_run_split [of "bits_of c"]) (use ex in \<open>metis in_set_replicate\<close>, blast)
  show "\<exists>rest. rev (bits_of c) = replicate (leading_zeros c) False @ True # rest"
    unfolding leading_zeros_def
    by (rule zeros_run_split [of "rev (bits_of c)"]) (use ex in \<open>metis in_set_replicate set_rev\<close>, blast)
qed

lemma unat_drop_bit: "unat (drop_bit k (c :: u64)) = unat c div 2 ^ k"
proof -
  have "unat c < 2 ^ 64" using unsigned_less [of c, where ?'a = nat] by simp
  then have "take_bit 64 (unat c) = unat c" by (rule take_bit_nat_eq_self)
  then have "unat (drop_bit k c) = drop_bit k (unat c)" by (simp add: unsigned_drop_bit_eq)
  then show ?thesis by (simp only: drop_bit_eq_div)
qed

lemma unat_drop_bit_less:
  assumes "(c :: u64) \<noteq> 0" "0 < k"
  shows "unat (drop_bit k c) < unat c"
proof -
  have "unat (drop_bit k c) = unat c div 2 ^ k" by (rule unat_drop_bit)
  moreover have "0 < unat c" using assms(1) by (simp add: unat_gt_0)
  moreover have "1 < (2 :: nat) ^ k" using one_less_power [OF _ assms(2), of "2 :: nat"] by simp
  ultimately show ?thesis by (simp add: div_less_dividend)
qed

text \<open>The inner loop: the gaps of one word, from bit \<open>shifts\<close> on.\<close>

function gap_in_chunk ::
  "nat \<Rightarrow> nat \<Rightarrow> u64 \<Rightarrow> nat \<Rightarrow> nat \<Rightarrow> nat \<Rightarrow> nat + nat \<times> nat \<times> nat" where
  "gap_in_chunk n idx chunk cur start shifts =
     (if chunk = 0 then Inr (cur, start, shifts)
      else (let z = trailing_zeros chunk; cur1 = cur + z in
        if n \<le> cur1 then Inl start
        else (let chunk1 = drop_bit z chunk;
                  ones = trailing_ones chunk1;
                  chunk2 = (if ones < 64 then drop_bit ones chunk1 else 0);
                  shifts1 = shifts + z + ones
              in gap_in_chunk n idx chunk2 0 (idx * 64 + shifts1) shifts1)))"
  by pat_completeness auto

lemma trailing_ones_after_zeros:
  assumes "chunk \<noteq> 0"
  shows "0 < trailing_ones (drop_bit (trailing_zeros chunk) chunk)" "drop_bit (trailing_zeros chunk) chunk \<noteq> 0"
proof -
  obtain rest where r: "bits_of chunk = replicate (trailing_zeros chunk) False @ True # rest"
    using nonzero_split(1) [OF assms] by blast
  have "trailing_zeros chunk \<le> 64" by (metis length_bits_of trailing_zeros_def zeros_run_le)
  then have b: "bits_of (drop_bit (trailing_zeros chunk) chunk) = True # rest @ replicate (trailing_zeros chunk) False"
    using r by (simp add: bits_of_drop_bit)
  then show "0 < trailing_ones (drop_bit (trailing_zeros chunk) chunk)"
    by (simp add: trailing_ones_def ones_run_True)
  show "drop_bit (trailing_zeros chunk) chunk \<noteq> 0"
    using b bits_of_0 by (metis replicate_Suc list.inject numeral_eq_Suc)
qed

termination gap_in_chunk
proof (relation "measure (\<lambda>(n, idx, chunk, cur, start, shifts). unat chunk)", simp)
  fix n idx chunk cur start shifts z cur1 chunk1 ones chunk2 and shifts1 :: nat
  assume "chunk \<noteq> (0 :: u64)" and z: "z = trailing_zeros chunk" and "chunk1 = drop_bit z chunk"
    "ones = trailing_ones chunk1" "chunk2 = (if ones < 64 then drop_bit ones chunk1 else 0)"
  then have "0 < ones" "chunk1 \<noteq> 0" using trailing_ones_after_zeros by auto
  then have "unat chunk2 < unat chunk1"
    using unat_drop_bit_less [of chunk1 ones] \<open>chunk2 = _\<close> by (simp add: unat_gt_0)
  also have "unat chunk1 \<le> unat chunk"
    using \<open>chunk1 = _\<close> by (simp only: unat_drop_bit div_le_dividend)
  finally show "((n, idx, chunk2, 0, idx * 64 + shifts1, shifts1), n, idx, chunk, cur, start, shifts)
      \<in> measure (\<lambda>(n, idx, chunk, cur, start, shifts). unat chunk)" by simp
qed

declare gap_in_chunk.simps [simp del]

text \<open>The outer loop; \<open>idx\<close> counts the words.\<close>

fun find_in_chunks :: "nat \<Rightarrow> nat \<Rightarrow> nat \<Rightarrow> nat \<Rightarrow> u64 list \<Rightarrow> nat option" where
  "find_in_chunks n idx cur start [] = (if n \<le> cur then Some start else None)"
| "find_in_chunks n idx cur start (chunk # cs) =
     (if chunk = 0 then find_in_chunks n (idx + 1) (cur + 64) start cs
      else if chunk = NOT 0 then
        (if n \<le> cur then Some start else find_in_chunks n (idx + 1) 0 ((idx + 1) * 64) cs)
      else (let leading = trailing_zeros chunk; trailing = leading_zeros chunk;
                max_middle_gap = 64 - leading - trailing - 2 in
        if max_middle_gap < n then
          (if n \<le> cur + leading then Some start
           else find_in_chunks n (idx + 1) trailing (idx * 64 + 64 - trailing) cs)
        else (case gap_in_chunk n idx chunk cur start 0 of
                Inl found \<Rightarrow> Some found
              | Inr (cur1, start1, shifts) \<Rightarrow>
                  find_in_chunks n (idx + 1) (cur1 + (64 - shifts)) start1 cs)))"

definition find_available_blocks_in_slice :: "u64 list \<Rightarrow> nat \<Rightarrow> nat option" where
  "find_available_blocks_in_slice region n = find_in_chunks n 0 0 0 region"

lemma zeros_run_eq: "zeros_run (replicate k False @ True # bs) = k"
  by (induction k) (simp_all add: zeros_run_def)

lemma trailing_zeros_le: "trailing_zeros c \<le> 64" "leading_zeros c \<le> 64"
  unfolding trailing_zeros_def leading_zeros_def
  by (metis length_bits_of zeros_run_le) (metis length_bits_of length_rev zeros_run_le)

text \<open>One round of the inner loops on a list of 64 bits, of which the last \<open>shifts\<close> are zeros shifted
  in: the zeros and the ones at its front, and what is left after shifting them out.\<close>

lemma chunk_step:
  assumes len: "length B = 64" and z: "B = replicate z False @ True # rest"
    and sh: "shifts \<le> 64" "drop (64 - shifts) B = replicate shifts False"
  defines "B1 \<equiv> drop z B @ replicate z False"
  defines "ones \<equiv> ones_run B1"
  defines "B2 \<equiv> drop ones B1 @ replicate ones False"
  shows "take (64 - shifts) B =
      replicate z False @ replicate ones True @ take (64 - (shifts + z + ones)) B2"
    and "drop (64 - (shifts + z + ones)) B2 = replicate (shifts + z + ones) False"
    and "shifts + z + ones \<le> 64" and "0 < ones"
proof -
  let ?rem = "64 - shifts"
  have zl: "z < ?rem"
  proof (rule ccontr)
    assume nz: "\<not> z < ?rem"
    then have "drop ?rem B ! (z - ?rem) = True" using z by (simp add: nth_append)
    moreover have "z - ?rem < shifts" using z len sh(1) nz by auto
    ultimately show False using sh(2) by simp
  qed
  have b1: "B1 = True # rest @ replicate z False" using z by (simp add: B1_def)
  show o1: "0 < ones" unfolding ones_def b1 by (rule ones_run_True)
  have l1: "length B1 = 64" using len zl by (simp add: B1_def)
  have ol: "ones \<le> 64" using ones_run_le [of B1] l1 by (simp add: ones_def)
  have t: "take ones B1 = replicate ones True" unfolding ones_def by (rule ones_run_take)
  have "drop (?rem - z) B1 = drop ?rem B @ replicate z False" using zl len by (simp add: B1_def)
  then have zeros1: "drop (?rem - z) B1 = replicate (shifts + z) False" using sh(2) by (simp add: replicate_add)
  have on: "ones \<le> ?rem - z"
  proof (rule ccontr)
    assume n: "\<not> ones \<le> ?rem - z"
    then have "take ones B1 ! (?rem - z) = True" using t by simp
    then have "B1 ! (?rem - z) = True" using n by simp
    moreover have "B1 ! (?rem - z) = drop (?rem - z) B1 ! 0" using l1 by simp
    moreover have "0 < shifts + z" using n ol by linarith
    ultimately show False unfolding zeros1 by simp
  qed
  show "shifts + z + ones \<le> 64" using on zl by simp
  have e: "64 - (shifts + z + ones) = ?rem - z - ones" by simp
  have "take ?rem B = take z B @ take (?rem - z) (drop z B)"
    using zl by (metis take_add le_add_diff_inverse less_imp_le)
  also have "take z B = replicate z False" by (subst z) simp
  also have "take (?rem - z) (drop z B) = take (?rem - z) B1" using zl len by (simp add: B1_def)
  also have "take (?rem - z) B1 = take ones B1 @ take (?rem - z - ones) (drop ones B1)"
    using on by (metis take_add le_add_diff_inverse)
  also have "take (?rem - z - ones) (drop ones B1) = take (64 - (shifts + z + ones)) B2"
    using l1 by (simp add: B2_def)
  finally show "take ?rem B = replicate z False @ replicate ones True @ take (64 - (shifts + z + ones)) B2"
    unfolding t .
  have "drop (64 - (shifts + z + ones)) B2 = drop (?rem - z) B1 @ replicate ones False"
  proof -
    have "64 - (shifts + z + ones) + ones = ?rem - z" using on zl by presburger
    then show ?thesis using on l1 by (simp add: B2_def del: diff_diff_left)
  qed
  then show "drop (64 - (shifts + z + ones)) B2 = replicate (shifts + z + ones) False"
    using zeros1 by (simp add: replicate_add)
qed

text \<open>The inner loop scans the remaining \<open>64 - shifts\<close> bits, all bits above being shifted out.\<close>

lemma gap_in_chunk_scan:
  assumes "0 < n" "shifts \<le> 64" "drop (64 - shifts) (bits_of chunk) = replicate shifts False"
    "start + cur = idx * 64 + shifts"
  shows "case gap_in_chunk n idx chunk cur start shifts of
      Inl s \<Rightarrow> scan n cur (idx * 64 + shifts) (take (64 - shifts) (bits_of chunk) @ bs) = Some s
    | Inr (cur1, start1, shifts1) \<Rightarrow> shifts1 \<le> 64 \<and> start1 + cur1 = idx * 64 + shifts1 \<and>
        scan n cur (idx * 64 + shifts) (take (64 - shifts) (bits_of chunk) @ bs) =
        scan n (cur1 + (64 - shifts1)) ((idx + 1) * 64) bs"
  using assms
proof (induction n idx chunk cur start shifts rule: gap_in_chunk.induct)
  case (1 n idx chunk cur start shifts)
  let ?rem = "64 - shifts"
  show ?case
  proof (cases "chunk = 0")
    case True
    have "take ?rem (bits_of chunk) = replicate ?rem False" unfolding True bits_of_0 by (simp only: take_replicate) simp
    moreover have "gap_in_chunk n idx chunk cur start shifts = Inr (cur, start, shifts)"
      using True by (subst gap_in_chunk.simps) simp
    ultimately show ?thesis using "1.prems"(2,4) by (simp add: scan_zeros add_ac)
  next
    case nz: False
    define z where "z = trailing_zeros chunk"
    obtain rest where r: "bits_of chunk = replicate z False @ True # rest"
      using nonzero_split(1) [OF nz] z_def by blast
    define chunk1 where "chunk1 = drop_bit z chunk"
    define ones where "ones = trailing_ones chunk1"
    define chunk2 where "chunk2 = (if ones < 64 then drop_bit ones chunk1 else 0)"
    have zl: "z \<le> 64" using trailing_zeros_le z_def by simp
    have b1: "bits_of chunk1 = drop z (bits_of chunk) @ replicate z False"
      using zl by (simp add: chunk1_def bits_of_drop_bit)
    have o: "ones_run (drop z (bits_of chunk) @ replicate z False) = ones"
      by (simp add: ones_def trailing_ones_def b1)
    note step = chunk_step [OF length_bits_of r "1.prems"(2,3), unfolded o]
    have b2: "bits_of chunk2 = drop ones (drop z (bits_of chunk) @ replicate z False) @ replicate ones False"
    proof (cases "ones < 64")
      case False
      then have "ones = 64" using step(3) by simp
      then show ?thesis using zl bits_of_0 by (simp add: chunk2_def)
    qed (simp add: chunk2_def bits_of_drop_bit b1)
    note split = step(1) [folded b2]
    show ?thesis
    proof (cases "n \<le> cur + z")
      case True
      have "gap_in_chunk n idx chunk cur start shifts = Inl start"
        using nz True z_def by (simp add: gap_in_chunk.simps [of n idx chunk])
      moreover have "scan n cur (idx * 64 + shifts) (take ?rem (bits_of chunk) @ bs) = Some start"
        using True "1.prems"(1,4)
        unfolding split append_assoc scan_zeros scan_ones [OF "1.prems"(1) step(4)] by simp
      ultimately show ?thesis by simp
    next
      case False
      let ?s = "shifts + z + ones"
      have g: "gap_in_chunk n idx chunk cur start shifts = gap_in_chunk n idx chunk2 0 (idx * 64 + ?s) ?s"
        using nz False unfolding gap_in_chunk.simps [of n idx chunk cur start shifts]
        by (simp add: Let_def z_def chunk1_def ones_def chunk2_def)
      have sc: "scan n cur (idx * 64 + shifts) (take ?rem (bits_of chunk) @ bs) =
          scan n 0 (idx * 64 + ?s) (take (64 - ?s) (bits_of chunk2) @ bs)"
        unfolding split using False step(4) "1.prems"(1) by (simp add: scan_zeros scan_ones add_ac)
      have "idx * 64 + ?s + 0 = idx * 64 + ?s" by simp
      from "1.IH" [OF nz z_def refl False chunk1_def ones_def chunk2_def refl "1.prems"(1)
          step(3) step(2) [folded b2] this]
      show ?thesis unfolding g sc .
    qed
  qed
qed

text \<open>A word that is not zero: \<open>a\<close> zeros, a middle that begins and ends with a one, \<open>b\<close> zeros.\<close>

lemma middle_split:
  assumes "xs = replicate a False @ True # r" "rev xs = replicate b False @ True # r'"
  obtains (single) "xs = replicate a False @ True # replicate b False"
    | (gap) m where "xs = replicate a False @ True # m @ True # replicate b False"
proof (cases rule: zeros_run_split [of "rev r"])
  case 1
  define k where "k = zeros_run (rev r)"
  have "r = replicate k False" using 1 unfolding k_def by (metis rev_replicate rev_rev_ident)
  then have "xs = replicate a False @ True # replicate k False" using assms(1) by simp
  moreover from this have "k = b" using assms(2) zeros_run_eq by (metis append.assoc append_Cons append_Nil rev.simps(2) rev_append rev_replicate)
  ultimately show ?thesis by (auto intro: single)
next
  case (2 m')
  define k where "k = zeros_run (rev r)"
  have "rev r = replicate k False @ True # m'" using 2 unfolding k_def .
  then have "rev (rev r) = rev m' @ True # replicate k False" by simp
  then have x: "xs = replicate a False @ True # rev m' @ True # replicate k False" using assms(1) by simp
  then have "rev xs = replicate k False @ True # m' @ True # replicate a False" by simp
  then have "k = b" using assms(2) zeros_run_eq by metis
  then show ?thesis using x by (auto intro: gap)
qed

lemma scan_middle:
  assumes "0 < n" "xs = replicate a False @ True # r" "rev xs = replicate b False @ True # r'"
    "length xs - a - b - 2 < n"
  shows "scan n cur pos (xs @ bs) =
    (if n \<le> cur + a then Some (pos - cur) else scan n b (pos + length xs) bs)"
  using assms(2,3)
proof (cases rule: middle_split)
  case single
  then show ?thesis using assms(1) by (simp add: scan_zeros add_ac)
next
  case (gap m)
  have l: "length xs = a + length m + b + 2" using gap by simp
  then have "0 + length m < n" using assms(4) by simp
  then have "scan n 0 (pos + a + 1) (m @ True # replicate b False @ bs) =
      scan n b (pos + a + 1 + length m + 1 + b) bs"
    by (simp only: scan_short [OF assms(1)] scan_zeros add_0)
  moreover have "scan n cur pos (xs @ bs) = scan n (cur + a) (pos + a) (True # m @ True # replicate b False @ bs)"
    unfolding gap by (simp only: append_assoc append_Cons scan_zeros)
  moreover have "pos + length xs = pos + a + 1 + length m + 1 + b" using l by simp
  ultimately show ?thesis by (simp add: add.assoc)
qed

lemma find_in_chunks_scan:
  assumes "0 < n" "start + cur = idx * 64"
  shows "find_in_chunks n idx cur start cs = scan n cur (idx * 64) (concat (map bits_of cs))"
  using assms(2)
proof (induction cs arbitrary: idx cur start)
  case Nil
  then show ?case by auto
next
  case (Cons c cs)
  let ?bs = "concat (map bits_of cs)"
  have st: "start = idx * 64 - cur" "cur \<le> idx * 64" using Cons.prems by simp_all
  consider (zero) "c = 0" | (full) "c \<noteq> 0" "c = NOT 0"
    | (skip) "c \<noteq> 0" "c \<noteq> NOT 0" "64 - trailing_zeros c - leading_zeros c - 2 < n"
    | (walk) "c \<noteq> 0" "c \<noteq> NOT 0" "\<not> 64 - trailing_zeros c - leading_zeros c - 2 < n"
    by blast
  then show ?case
  proof cases
    case zero
    have "start + (cur + 64) = (idx + 1) * 64" using Cons.prems by simp
    from Cons.IH [OF this] show ?thesis using zero by (simp add: bits_of_0 scan_zeros add_ac)
  next
    case full
    have "(idx + 1) * 64 + 0 = (idx + 1) * 64" by simp
    from Cons.IH [OF this]
    have "find_in_chunks n (idx + 1) 0 ((idx + 1) * 64) cs = scan n 0 (idx * 64 + 64) ?bs" by (simp add: add_ac)
    then show ?thesis using full st scan_ones [OF assms(1), of 64 cur "idx * 64" ?bs]
      by (simp add: bits_of_max)
  next
    case skip
    obtain r r' where r: "bits_of c = replicate (trailing_zeros c) False @ True # r"
      "rev (bits_of c) = replicate (leading_zeros c) False @ True # r'"
      using nonzero_split [OF skip(1)] by blast
    have l: "length (bits_of c) - trailing_zeros c - leading_zeros c - 2 < n" using skip(3) by simp
    have "idx * 64 + 64 - leading_zeros c + leading_zeros c = (idx + 1) * 64"
      using trailing_zeros_le(2) [of c] by simp
    note IH = Cons.IH [OF this]
    show ?thesis using skip IH st scan_middle [OF assms(1) r l, of cur "idx * 64" ?bs]
      by (simp add: Let_def add_ac)
  next
    case walk
    have "start + cur = idx * 64 + 0" using Cons.prems by simp
    note g = gap_in_chunk_scan [where shifts = 0 and bs = ?bs and chunk = c, simplified, OF assms(1) this [simplified]]
    show ?thesis
    proof (cases "gap_in_chunk n idx c cur start 0")
      case (Inl s)
      then show ?thesis using g walk by (simp add: Let_def)
    next
      case (Inr x)
      obtain cur1 start1 sh where x: "x = (cur1, start1, sh)" by (cases x)
      have "sh \<le> 64" "start1 + cur1 = idx * 64 + sh" using g Inr x by simp_all
      then have e: "start1 + (cur1 + (64 - sh)) = (idx + 1) * 64" by presburger
      show ?thesis using Cons.IH [OF e] g walk Inr x by (simp add: Let_def add_ac)
    qed
  qed
qed

lemma find_in_slice_first_fit:
  assumes "0 < n"
  shows "find_available_blocks_in_slice region n = first_fit n (concat (map bits_of region))"
  using find_in_chunks_scan [OF assms, of 0 0 0 region] scan_first_fit [OF assms]
  by (simp add: find_available_blocks_in_slice_def)

section \<open>The gaps of a region\<close>

record region_gaps =
  gap_max :: u16
  gap_leading :: u16
  gap_trailing :: u16

text \<open>\<open>RegionGaps::new\<close>; the assertions of a debug build are \<open>region_gaps_asserts\<close>.\<close>

definition region_gaps_new :: "u16 \<Rightarrow> u16 \<Rightarrow> u16 \<Rightarrow> region_gaps" where
  "region_gaps_new leading trailing mx = \<lparr>gap_max = mx, gap_leading = leading, gap_trailing = trailing\<rparr>"

definition region_gaps_asserts :: "u16 \<Rightarrow> u16 \<Rightarrow> u16 \<Rightarrow> u16 \<Rightarrow> bool" where
  "region_gaps_asserts leading trailing mx region_size \<longleftrightarrow>
     mx \<le> region_size \<and> leading \<le> mx \<and> trailing \<le> mx \<and>
     (leading = region_size \<or> trailing = region_size \<longrightarrow> leading = trailing)"

definition all_free :: "u16 \<Rightarrow> region_gaps" where
  "all_free blocks = \<lparr>gap_max = blocks, gap_leading = blocks, gap_trailing = blocks\<rparr>"

definition gaps_is_empty :: "region_gaps \<Rightarrow> u16 \<Rightarrow> bool" where
  "gaps_is_empty g region_size \<longleftrightarrow> gap_max g = region_size"

definition gaps_is_full :: "region_gaps \<Rightarrow> bool" where
  "gaps_is_full g \<longleftrightarrow> gap_max g = 0"

text \<open>The inner loop of \<open>calculate_gaps\<close>, from the top bit of a word down.\<close>

function max_in_chunk :: "u64 \<Rightarrow> nat \<Rightarrow> nat \<Rightarrow> nat \<Rightarrow> nat \<times> nat \<times> nat" where
  "max_in_chunk chunk current mx shifts =
     (if chunk = 0 then (current, mx, shifts)
      else (let z = leading_zeros chunk; current1 = current + z; mx1 = max mx current1;
                chunk1 = push_bit z chunk;
                ones = leading_ones chunk1;
                chunk2 = (if ones < 64 then push_bit ones chunk1 else 0)
            in max_in_chunk chunk2 0 mx1 (shifts + z + ones)))"
  by pat_completeness auto

lemma leading_ones_after_zeros:
  assumes "chunk \<noteq> 0"
  shows "\<exists>rest. rev (bits_of (push_bit (leading_zeros chunk) chunk)) = True # rest"
    "0 < leading_ones (push_bit (leading_zeros chunk) chunk)"
proof -
  obtain rest where "rev (bits_of chunk) = replicate (leading_zeros chunk) False @ True # rest"
    using nonzero_split(2) [OF assms] by blast
  then have "rev (bits_of (push_bit (leading_zeros chunk) chunk)) =
      True # rest @ replicate (leading_zeros chunk) False"
    using trailing_zeros_le(2) [of chunk] by (simp add: bits_of_push_bit)
  then show "\<exists>rest. rev (bits_of (push_bit (leading_zeros chunk) chunk)) = True # rest"
    "0 < leading_ones (push_bit (leading_zeros chunk) chunk)"
    by (auto simp: leading_ones_def ones_run_True)
qed

definition ones_count :: "bool list \<Rightarrow> nat" where
  "ones_count bs = length (filter id bs)"

lemma ones_count_simps [simp]:
  "ones_count [] = 0" "ones_count (True # bs) = Suc (ones_count bs)" "ones_count (False # bs) = ones_count bs"
  "ones_count (xs @ ys) = ones_count xs + ones_count ys" "ones_count (replicate k False) = 0"
  "ones_count (rev bs) = ones_count bs"
  by (simp_all add: ones_count_def rev_filter [symmetric])

lemma ones_count_drop_le: "ones_count (drop k bs) \<le> ones_count bs"
proof -
  have "ones_count (take k bs @ drop k bs) = ones_count (take k bs) + ones_count (drop k bs)"
    by (rule ones_count_simps(4))
  then show ?thesis by simp
qed

termination max_in_chunk
proof (relation "measure (\<lambda>(chunk, current, mx, shifts). ones_count (bits_of chunk))", simp)
  fix chunk :: u64 and current mx shifts z current1 mx1 chunk1 ones chunk2
  assume nz: "chunk \<noteq> 0" and d: "z = leading_zeros chunk" "chunk1 = push_bit z chunk"
    "ones = leading_ones chunk1" "chunk2 = (if ones < 64 then push_bit ones chunk1 else 0)"
  obtain rest where r: "rev (bits_of chunk1) = True # rest"
    using leading_ones_after_zeros(1) [OF nz] d(1,2) by blast
  have o: "0 < ones" "ones \<le> 64"
    using leading_ones_after_zeros(2) [OF nz] d(1-3)
    by (simp, metis d(3) leading_ones_def length_bits_of length_rev ones_run_le)
  have "ones_count (rev (bits_of chunk1)) = ones_count (drop z (rev (bits_of chunk)))"
    using d trailing_zeros_le(2) [of chunk] by (simp add: bits_of_push_bit del: ones_count_simps(6))
  then have le: "ones_count (bits_of chunk1) \<le> ones_count (bits_of chunk)"
    using ones_count_drop_le [of z "rev (bits_of chunk)"] by simp
  obtain k where k: "ones = Suc k" using o by (cases ones) auto
  have "rev (bits_of chunk2) = drop ones (rev (bits_of chunk1)) @ replicate ones False"
    using o d(4) bits_of_0 by (cases "ones < 64") (simp_all add: bits_of_push_bit)
  then have "ones_count (rev (bits_of chunk2)) = ones_count (drop k rest)" using r k
    by (simp del: ones_count_simps(6))
  also have "\<dots> \<le> ones_count rest" by (rule ones_count_drop_le)
  also have "ones_count rest < ones_count (rev (bits_of chunk1))" using r by (simp del: ones_count_simps(6))
  finally have "ones_count (bits_of chunk2) < ones_count (bits_of chunk)" using le by simp
  then show "((chunk2, 0, mx1, shifts + z + ones), chunk, current, mx, shifts)
      \<in> measure (\<lambda>(chunk, current, mx, shifts). ones_count (bits_of chunk))" by simp
qed

declare max_in_chunk.simps [simp del]

fun max_in_chunks :: "nat \<Rightarrow> nat \<Rightarrow> u64 list \<Rightarrow> nat" where
  "max_in_chunks current mx [] = max mx current"
| "max_in_chunks current mx (chunk # cs) =
     (if chunk = 0 then max_in_chunks (current + 64) mx cs
      else if chunk = NOT 0 then max_in_chunks 0 (max mx current) cs
      else (let leading = leading_zeros chunk; trailing = trailing_zeros chunk;
                max_middle_gap = 64 - leading - trailing - 2 in
        if max_middle_gap < mx then max_in_chunks trailing (max mx (current + leading)) cs
        else (case max_in_chunk chunk current mx 0 of
                (current1, mx1, shifts) \<Rightarrow> max_in_chunks (current1 + (64 - shifts)) mx1 cs)))"

text \<open>\<open>take_while_inclusive(chunk == 0)\<close>.\<close>

fun take_zeros_inclusive :: "u64 list \<Rightarrow> u64 list" where
  "take_zeros_inclusive [] = []"
| "take_zeros_inclusive (c # cs) = c # (if c = 0 then take_zeros_inclusive cs else [])"

definition calculate_gaps :: "u64 list \<Rightarrow> nat \<Rightarrow> region_gaps" where
  "calculate_gaps region region_size_blocks =
     (let mx = max_in_chunks 0 0 (rev region);
          (leading, trailing) =
            (if mx = region_size_blocks then (mx, mx)
             else (sum_list (map trailing_zeros (take_zeros_inclusive region)),
                   sum_list (map leading_zeros (take_zeros_inclusive (rev region)))))
      in region_gaps_new (of_nat leading) (of_nat trailing) (of_nat mx))"

text \<open>The longest gap, one bit at a time: \<open>cur\<close> free blocks precede, \<open>mx\<close> is the longest gap so far.\<close>

fun run_max :: "nat \<Rightarrow> nat \<Rightarrow> bool list \<Rightarrow> nat" where
  "run_max cur mx [] = max mx cur"
| "run_max cur mx (b # bs) = (if b then run_max 0 (max mx cur) bs else run_max (cur + 1) mx bs)"

lemma run_max_zeros: "run_max cur mx (replicate k False @ bs) = run_max (cur + k) mx bs"
  by (induction k arbitrary: cur) simp_all

lemma run_max_ones: "0 < k \<Longrightarrow> run_max cur mx (replicate k True @ bs) = run_max 0 (max mx cur) bs"
proof (induction k arbitrary: cur mx)
  case (Suc k)
  then show ?case by (cases k) simp_all
qed simp

lemma run_max_short: "cur + length m \<le> mx \<Longrightarrow> run_max cur mx (m @ True # bs) = run_max 0 mx bs"
  by (induction m arbitrary: cur) auto

lemma max_in_chunk_scan:
  assumes "shifts \<le> 64" "drop (64 - shifts) (rev (bits_of chunk)) = replicate shifts False"
  shows "case max_in_chunk chunk cur mx shifts of (cur1, mx1, shifts1) \<Rightarrow>
    run_max cur mx (take (64 - shifts) (rev (bits_of chunk)) @ bs) = run_max (cur1 + (64 - shifts1)) mx1 bs"
  using assms
proof (induction chunk cur mx shifts rule: max_in_chunk.induct)
  case (1 chunk cur mx shifts)
  let ?rem = "64 - shifts" and ?B = "rev (bits_of chunk)"
  show ?case
  proof (cases "chunk = 0")
    case True
    have "take ?rem ?B = replicate ?rem False"
      unfolding True bits_of_0 rev_replicate by (simp only: take_replicate) simp
    moreover have "max_in_chunk chunk cur mx shifts = (cur, mx, shifts)"
      using True by (subst max_in_chunk.simps) simp
    ultimately show ?thesis by (simp add: run_max_zeros)
  next
    case nz: False
    define z where "z = leading_zeros chunk"
    obtain rest where r: "?B = replicate z False @ True # rest"
      using nonzero_split(2) [OF nz] z_def by blast
    define chunk1 where "chunk1 = push_bit z chunk"
    define ones where "ones = leading_ones chunk1"
    define chunk2 where "chunk2 = (if ones < 64 then push_bit ones chunk1 else 0)"
    have zl: "z \<le> 64" using trailing_zeros_le z_def by simp
    have b1: "rev (bits_of chunk1) = drop z ?B @ replicate z False"
      using zl by (simp add: chunk1_def bits_of_push_bit)
    have o: "ones_run (drop z ?B @ replicate z False) = ones"
      by (simp add: ones_def leading_ones_def b1)
    have lB: "length ?B = 64" by simp
    note step = chunk_step [OF lB r "1.prems"(1,2), unfolded o]
    have b2: "rev (bits_of chunk2) = drop ones (drop z ?B @ replicate z False) @ replicate ones False"
    proof (cases "ones < 64")
      case True
      then show ?thesis by (simp add: chunk2_def bits_of_push_bit b1 del: drop_append)
    next
      case False
      then have "ones = 64" using step(3) by simp
      then show ?thesis using zl bits_of_0 by (simp add: chunk2_def)
    qed
    let ?s = "shifts + z + ones"
    have g: "max_in_chunk chunk cur mx shifts = max_in_chunk chunk2 0 (max mx (cur + z)) ?s"
      using nz unfolding max_in_chunk.simps [of chunk cur mx shifts]
      by (simp add: Let_def z_def chunk1_def ones_def chunk2_def)
    have sc: "run_max cur mx (take ?rem ?B @ bs) =
        run_max 0 (max mx (cur + z)) (take (64 - ?s) (rev (bits_of chunk2)) @ bs)"
      unfolding step(1) [folded b2] append_assoc run_max_zeros run_max_ones [OF step(4)] ..
    from "1.IH" [OF nz z_def refl refl chunk1_def ones_def chunk2_def step(3) step(2) [folded b2]]
    show ?thesis unfolding g sc .
  qed
qed

lemma run_max_middle:
  assumes "xs = replicate a False @ True # r" "rev xs = replicate b False @ True # r'"
    "length xs - a - b - 2 < mx"
  shows "run_max cur mx (xs @ bs) = run_max b (max mx (cur + a)) bs"
  using assms(1,2)
proof (cases rule: middle_split)
  case single
  then show ?thesis by (simp add: run_max_zeros)
next
  case (gap m)
  have "length xs = a + length m + b + 2" using gap by simp
  then have "0 + length m \<le> max mx (cur + a)" using assms(3) by simp
  then have "run_max 0 (max mx (cur + a)) (m @ True # replicate b False @ bs) = run_max b (max mx (cur + a)) bs"
    by (simp only: run_max_short run_max_zeros add_0)
  then show ?thesis unfolding gap by (simp add: run_max_zeros)
qed

lemma max_in_chunks_run_max:
  "max_in_chunks cur mx cs = run_max cur mx (concat (map (\<lambda>c. rev (bits_of c)) cs))"
proof (induction cs arbitrary: cur mx)
  case (Cons c cs)
  let ?bs = "concat (map (\<lambda>c. rev (bits_of c)) cs)"
  consider (zero) "c = 0" | (full) "c \<noteq> 0" "c = NOT 0"
    | (skip) "c \<noteq> 0" "c \<noteq> NOT 0" "64 - leading_zeros c - trailing_zeros c - 2 < mx"
    | (walk) "c \<noteq> 0" "c \<noteq> NOT 0" "\<not> 64 - leading_zeros c - trailing_zeros c - 2 < mx"
    by blast
  then show ?case
  proof cases
    case zero
    then show ?thesis using Cons.IH by (simp add: bits_of_0 run_max_zeros)
  next
    case full
    have "run_max cur mx (replicate 64 True @ ?bs) = run_max 0 (max mx cur) ?bs" by (simp only: run_max_ones)
    then show ?thesis using full Cons.IH by (simp add: bits_of_max comp_def)
  next
    case skip
    obtain r r' where r: "bits_of c = replicate (trailing_zeros c) False @ True # r"
      "rev (bits_of c) = replicate (leading_zeros c) False @ True # r'"
      using nonzero_split [OF skip(1)] by blast
    have "length (rev (bits_of c)) - leading_zeros c - trailing_zeros c - 2 < mx" using skip(3) by simp
    from run_max_middle [OF r(2) _ this] show ?thesis using skip Cons.IH r(1) by (simp add: Let_def)
  next
    case walk
    show ?thesis
      using max_in_chunk_scan [of 0 c cur mx ?bs] walk Cons.IH
      by (simp add: Let_def split: prod.split_asm prod.split)
  qed
qed simp

section \<open>What the gaps of a region are\<close>

definition is_longest :: "bool list \<Rightarrow> nat \<Rightarrow> bool" where
  "is_longest bs m \<longleftrightarrow> (\<exists>s. free_run bs s m) \<and> (\<forall>s n. free_run bs s n \<longrightarrow> n \<le> m)"

lemma is_longest_unique: "is_longest bs m \<Longrightarrow> is_longest bs m' \<Longrightarrow> m = m'"
  unfolding is_longest_def by (meson le_antisym)

lemma run_max_longest:
  "\<exists>m. is_longest (replicate cur False @ bs) m \<and> run_max cur mx bs = max mx m"
proof (induction bs arbitrary: cur mx)
  case Nil
  have "is_longest (replicate cur False) cur" by (auto simp: is_longest_def free_run_def)
  then show ?case by auto
next
  case (Cons b bs)
  show ?case
  proof (cases b)
    case False
    have "replicate (cur + 1) False @ bs = replicate cur False @ False # bs"
      by (simp add: replicate_app_Cons_same)
    then show ?thesis using Cons.IH [of "cur + 1" mx] False by simp
  next
    case True
    let ?xs = "replicate cur False @ True # bs"
    obtain m where m: "is_longest bs m" "run_max 0 (max mx cur) bs = max (max mx cur) m"
      using Cons.IH [of 0 "max mx cur"] by auto
    have "is_longest ?xs (max cur m)"
      unfolding is_longest_def
    proof
      show "\<forall>s n. free_run ?xs s n \<longrightarrow> n \<le> max cur m"
      proof (intro allI impI)
        fix s n assume f: "free_run ?xs s n"
        show "n \<le> max cur m"
        proof (cases "n \<le> cur")
          case False
          then have "free_run bs (s - Suc cur) n" using free_run_skip [of n cur bs s] f by simp
          then show ?thesis using m(1) by (auto simp: is_longest_def le_max_iff_disj)
        qed simp
      qed
      obtain s where s: "free_run bs s m" using m(1) by (auto simp: is_longest_def)
      have "free_run ?xs 0 cur" by (auto simp: free_run_def nth_append)
      moreover have "free_run ?xs (Suc cur + s) m" using s by (auto simp: free_run_def nth_append)
      ultimately show "\<exists>s. free_run ?xs s (max cur m)" by (cases "m \<le> cur") (auto simp: max_def)
    qed
    then show ?thesis using m(2) True by (intro exI [of _ "max cur m"]) (simp add: max.assoc)
  qed
qed

lemma free_run_rev:
  assumes "free_run bs s n"
  shows "free_run (rev bs) (length bs - (s + n)) n"
  unfolding free_run_def
proof (intro conjI allI impI)
  show "length bs - (s + n) + n \<le> length (rev bs)" using assms by (simp add: free_run_def)
  fix i assume i: "i < n"
  have "rev bs ! (length bs - (s + n) + i) = bs ! (s + (n - Suc i))"
    using assms i by (auto simp: free_run_def rev_nth intro!: arg_cong [of _ _ "(!) bs"])
  moreover have "n - Suc i < n" using i by simp
  with assms have "\<not> bs ! (s + (n - Suc i))" unfolding free_run_def by blast
  ultimately show "\<not> rev bs ! (length bs - (s + n) + i)" by simp
qed

lemma is_longest_rev: "is_longest (rev bs) m \<longleftrightarrow> is_longest bs m"
proof -
  have "is_longest (rev xs) m" if "is_longest xs m" for xs
    using that free_run_rev [of xs] free_run_rev [of "rev xs"] unfolding is_longest_def
    by (metis rev_rev_ident)
  from this [of bs] this [of "rev bs"] show ?thesis by auto
qed

definition gaps_ok :: "bool list \<Rightarrow> region_gaps \<Rightarrow> bool" where
  "gaps_ok bs g \<longleftrightarrow> is_longest bs (unat (gap_max g)) \<and>
     unat (gap_leading g) = zeros_run bs \<and> unat (gap_trailing g) = zeros_run (rev bs)"

lemma zeros_run_append:
  "zeros_run (xs @ ys) = (if True \<in> set xs then zeros_run xs else length xs + zeros_run ys)"
  unfolding zeros_run_def by (induction xs) auto

lemma bits_of_nonzero: "c \<noteq> 0 \<Longrightarrow> True \<in> set (bits_of c)"
  using nonzero_split(1) [of c] by auto

lemma trailing_zeros_0 [simp]: "trailing_zeros 0 = 64" "leading_zeros 0 = 64"
  by (simp_all add: trailing_zeros_def leading_zeros_def bits_of_0 zeros_run_def)

lemma leading_sum:
  "sum_list (map trailing_zeros (take_zeros_inclusive cs)) = zeros_run (concat (map bits_of cs))"
proof (induction cs)
  case (Cons c cs)
  then show ?case using bits_of_nonzero [of c]
    by (auto simp: zeros_run_append trailing_zeros_def [symmetric] bits_of_0)
qed (simp add: zeros_run_def)

lemma trailing_sum:
  "sum_list (map leading_zeros (take_zeros_inclusive cs)) =
   zeros_run (concat (map (\<lambda>c. rev (bits_of c)) cs))"
proof (induction cs)
  case (Cons c cs)
  then show ?case using bits_of_nonzero [of c]
    by (auto simp: zeros_run_append leading_zeros_def [symmetric] bits_of_0)
qed (simp add: zeros_run_def)

lemma concat_bits_rev: "concat (map (\<lambda>c. rev (bits_of c)) (rev cs)) = rev (concat (map bits_of cs))"
  by (simp add: rev_concat comp_def rev_map)

lemma zeros_run_free: "free_run bs 0 (zeros_run bs)"
proof -
  have "\<not> bs ! i" if "i < zeros_run bs" for i
    using that nth_length_takeWhile takeWhile_nth [of i Not bs] set_takeWhileD [of "takeWhile Not bs ! i" Not bs]
    by (metis nth_mem zeros_run_def)
  then show ?thesis by (simp add: free_run_def)
qed

lemma full_free_zeros_run:
  assumes "is_longest bs (length bs)"
  shows "zeros_run bs = length bs"
proof -
  obtain s where s: "free_run bs s (length bs)" using assms by (auto simp: is_longest_def)
  then have "s = 0" by (simp add: free_run_def)
  then have "\<not> bs ! i" if "i < length bs" for i using s that by (simp add: free_run_def)
  then have "takeWhile Not bs = bs" by (auto simp: takeWhile_eq_all_conv in_set_conv_nth)
  then show ?thesis unfolding zeros_run_def by (rule arg_cong)
qed

lemma is_longest_le: "is_longest bs m \<Longrightarrow> m \<le> length bs"
  by (auto simp: is_longest_def free_run_def)

lemma is_longest_zeros:
  assumes "is_longest bs m"
  shows "zeros_run bs \<le> m" "zeros_run (rev bs) \<le> m"
  using assms zeros_run_free [of bs] zeros_run_free [of "rev bs"] is_longest_rev [of bs m]
  by (auto simp: is_longest_def)

lemma calculate_gaps_ok:
  assumes "64 * length region = R" "R < 2 ^ 16"
  shows "gaps_ok (concat (map bits_of region)) (calculate_gaps region R) \<and>
    (let g = calculate_gaps region R in
     region_gaps_asserts (gap_leading g) (gap_trailing g) (gap_max g) (of_nat R))"
proof -
  let ?bs = "concat (map bits_of region)"
  have len: "length ?bs = R" using assms(1) by (simp add: length_concat comp_def sum_list_triv)
  define mx where "mx = max_in_chunks 0 0 (rev region)"
  have "mx = run_max 0 0 (rev ?bs)" by (simp add: mx_def max_in_chunks_run_max concat_bits_rev)
  moreover obtain m where "is_longest (rev ?bs) m" "run_max 0 0 (rev ?bs) = max 0 m"
    using run_max_longest [of 0 "rev ?bs" 0] by auto
  ultimately have longest: "is_longest ?bs mx" by (simp add: is_longest_rev)
  let ?l = "zeros_run ?bs" and ?t = "zeros_run (rev ?bs)"
  have g: "calculate_gaps region R = region_gaps_new (of_nat ?l) (of_nat ?t) (of_nat mx)"
  proof (cases "mx = R")
    case True
    then have "?l = R" "?t = R"
      using full_free_zeros_run [of ?bs] full_free_zeros_run [of "rev ?bs"] longest len
      by (simp_all add: is_longest_rev)
    then show ?thesis using True by (simp add: calculate_gaps_def mx_def [symmetric])
  next
    case False
    then show ?thesis
      by (simp add: calculate_gaps_def mx_def [symmetric] leading_sum trailing_sum concat_bits_rev)
  qed
  have le: "mx \<le> R" "?l \<le> mx" "?t \<le> mx"
    using is_longest_le [OF longest] is_longest_zeros [OF longest] len by simp_all
  have u: "unat (of_nat k :: u16) = k" if "k \<le> R" for k
    using that assms(2) by (simp add: unat_of_nat)
  have "?l = R \<or> ?t = R \<Longrightarrow> ?l = ?t"
  proof -
    assume "?l = R \<or> ?t = R"
    then have "is_longest ?bs (length ?bs)" using longest le len by auto
    then show "?l = ?t"
      using full_free_zeros_run [of ?bs] full_free_zeros_run [of "rev ?bs"] by (simp add: is_longest_rev)
  qed
  then have "region_gaps_asserts (of_nat ?l) (of_nat ?t) (of_nat mx) (of_nat R)"
    using le u by (auto simp: region_gaps_asserts_def word_le_nat_alt word_unat_eq_iff)
  moreover have "gaps_ok ?bs (calculate_gaps region R)"
    using longest le u by (simp add: g gaps_ok_def region_gaps_new_def)
  ultimately show ?thesis by (simp add: g region_gaps_new_def)
qed

section \<open>The properties\<close>

text \<open>The word-at-a-time search of \<open>find_available_blocks_in_slice\<close>, with its shortcuts for empty words,
  full words and words that cannot hold the gap, returns the first position of the region at which
  that many blocks are free, and no position exactly when there is none.\<close>

lemma find_available_blocks_in_slice_first_fit:
  assumes "0 < n"
  shows "find_available_blocks_in_slice region n = first_fit n (concat (map bits_of region)) \<and>
    least_run (concat (map bits_of region)) n (find_available_blocks_in_slice region n)"
  using find_in_slice_first_fit [OF assms] first_fit_least by simp

text \<open>The leading, trailing and longest gaps that \<open>calculate_gaps\<close> computes word by word are those of the
  bits of the region, none of the conversions to \<open>u16\<close> loses anything below $2^{16}$ blocks, and the
  assertions of \<open>RegionGaps::new\<close> hold.\<close>

lemma calculate_gaps_correct:
  assumes "64 * length region = R" "R < 2 ^ 16"
  shows "gaps_ok (concat (map bits_of region)) (calculate_gaps region R) \<and>
    (let g = calculate_gaps region R in
     region_gaps_asserts (gap_leading g) (gap_trailing g) (gap_max g) (of_nat R))"
  by (rule calculate_gaps_ok [OF assms])

end
