(* ===== verification/GridBitmask.thy ===== *)
theory GridBitmask
  imports GridBits Bytes
begin

text \<open>
  \<open>lib/gridstore/src/config.rs\<close>, \<open>bitmask/gaps.rs\<close> and \<open>bitmask/mod.rs\<close>: the configuration of a
  grid store, the summary of the gaps of every region, and the bitmask of used blocks. The mapped
  files are their contents; creating and extending a file succeeds. A failing \<open>assert!\<close>,
  \<open>debug_assert!\<close>, \<open>unreachable!\<close> or index is \<open>GridPanic\<close>.
\<close>

section \<open>Configuration\<close>

datatype compression = NoCompression | LZ4

record storage_options =
  opt_page_size_bytes :: "nat option"
  opt_block_size_bytes :: "nat option"
  opt_region_size_blocks :: "nat option"
  opt_compression :: "compression option"

record storage_config =
  page_size_bytes :: nat
  block_size_bytes :: nat
  region_size_blocks :: nat
  cfg_compression :: compression

definition DEFAULT_BLOCK_SIZE_BYTES :: nat where "DEFAULT_BLOCK_SIZE_BYTES = 128"
definition DEFAULT_PAGE_SIZE_BYTES :: nat where "DEFAULT_PAGE_SIZE_BYTES = 32 * 1024 * 1024"
definition DEFAULT_REGION_SIZE_BLOCKS :: nat where "DEFAULT_REGION_SIZE_BLOCKS = 8192"

definition unwrap_or :: "'a option \<Rightarrow> 'a \<Rightarrow> 'a" where
  "unwrap_or x d = (case x of None \<Rightarrow> d | Some y \<Rightarrow> y)"

definition config_of_options :: "storage_options \<Rightarrow> (string, storage_config) result" where
  "config_of_options opts =
     (let page = unwrap_or (opt_page_size_bytes opts) DEFAULT_PAGE_SIZE_BYTES;
          block = unwrap_or (opt_block_size_bytes opts) DEFAULT_BLOCK_SIZE_BYTES;
          region = unwrap_or (opt_region_size_blocks opts) DEFAULT_REGION_SIZE_BLOCKS
      in if block = 0 then Inl ''Block size must be greater than 0''
         else if region = 0 then Inl ''Region size must be greater than 0''
         else if page = 0 then Inl ''Page size must be greater than 0''
         else let region_bytes = block * region in
           if page < region_bytes then Inl ''Page size must be greater than or equal to (block size * region size)''
           else if page mod region_bytes \<noteq> 0 then Inl ''Page size must be a multiple of (block size * region size)''
           else Inr \<lparr>page_size_bytes = page, block_size_bytes = block, region_size_blocks = region,
                  cfg_compression = unwrap_or (opt_compression opts) LZ4\<rparr>)"

definition options_of_config :: "storage_config \<Rightarrow> storage_options" where
  "options_of_config c = \<lparr>opt_page_size_bytes = Some (page_size_bytes c),
     opt_block_size_bytes = Some (block_size_bytes c),
     opt_region_size_blocks = Some (unat (of_nat (region_size_blocks c) :: u16)),
     opt_compression = Some (cfg_compression c)\<rparr>"

section \<open>The gaps of the regions\<close>

datatype grid_error = GridPanic | ServiceError string | FlushCancelled
  | OutOfBounds nat nat | InvalidFileIndex nat nat

fun take_full_inclusive :: "u16 \<Rightarrow> region_gaps list \<Rightarrow> region_gaps list" where
  "take_full_inclusive r [] = []"
| "take_full_inclusive r (g # gs) = g # (if gap_trailing g = r then take_full_inclusive r gs else [])"

definition gaps_trailing_free_blocks :: "nat \<Rightarrow> region_gaps list \<Rightarrow> nat" where
  "gaps_trailing_free_blocks R gaps =
     sum_list (map (unat \<circ> gap_trailing) (take_full_inclusive (of_nat R) (rev gaps)))"

definition gaps_extend :: "region_gaps list \<Rightarrow> region_gaps list \<Rightarrow> region_gaps list" where
  "gaps_extend gaps new = (if new = [] then gaps else gaps @ new)"

definition div_ceil :: "nat \<Rightarrow> nat \<Rightarrow> nat" where
  "div_ceil a b = (if a mod b = 0 then a div b else a div b + 1)"

text \<open>The sum of the two outer gaps is an addition of \<open>u16\<close>: it wraps.\<close>

definition merged_fits :: "nat \<Rightarrow> region_gaps list \<Rightarrow> nat \<Rightarrow> nat \<Rightarrow> nat \<Rightarrow> bool" where
  "merged_fits R gaps window n i =
     (let w = take window (drop i gaps);
          middle = take (window - 2) (drop 1 w);
          merged = unat (gap_trailing (w ! 0) + gap_leading (w ! (window - 1))) + (window - 2) * R
      in \<not> list_ex (\<lambda>g. unat (gap_max g) \<noteq> R) middle \<and> n \<le> merged)"

definition find_merged_gap :: "nat \<Rightarrow> region_gaps list \<Rightarrow> nat \<Rightarrow> nat \<Rightarrow> (nat \<times> nat) option" where
  "find_merged_gap R gaps window n =
     map_option (\<lambda>i. (i, i + window)) (find (merged_fits R gaps window n) [0..<Suc (length gaps) - window])"

definition find_fitting_gap :: "nat \<Rightarrow> region_gaps list \<Rightarrow> nat \<Rightarrow> (grid_error, (nat \<times> nat) option) result" where
  "find_fitting_gap R gaps n =
     (if length gaps = 1 then
        Inr (if n \<le> unat (gap_max (gaps ! 0)) then Some (0, 1) else None)
      else (let regions_needed = div_ceil n R in
        if regions_needed = 0 then Inl GridPanic
        else (let fits =
                (if regions_needed = 1 then
                   map_option (\<lambda>i. (i, i + 1)) (find (\<lambda>i. n \<le> unat (gap_max (gaps ! i))) [0..<length gaps])
                 else find_merged_gap R gaps regions_needed n)
              in Inr (case fits of
                   Some r \<Rightarrow> Some r
                 | None \<Rightarrow> find_merged_gap R gaps (regions_needed + 1) n))))"

section \<open>The bitmask\<close>

record bitmask =
  bm_config :: storage_config
  regions_gaps :: "region_gaps list"
  bitslice :: "bool list"

text \<open>The words under \<open>bitslice[a..b]\<close>; the code expects whole words.\<close>

definition word_of_bits :: "bool list \<Rightarrow> u64" where
  "word_of_bits bs = horner_sum of_bool 2 bs"

fun words_of :: "nat \<Rightarrow> bool list \<Rightarrow> u64 list" where
  "words_of 0 bs = []"
| "words_of (Suc k) bs = word_of_bits (take 64 bs) # words_of k (drop 64 bs)"

definition raw_region :: "bool list \<Rightarrow> nat \<Rightarrow> nat \<Rightarrow> (grid_error, u64 list) result" where
  "raw_region bits a b =
     (if a \<le> b \<and> b \<le> length bits \<and> 64 dvd a \<and> 64 dvd b
      then Inr (words_of ((b - a) div 64) (slice bits a b)) else Inl GridPanic)"

definition bm_trailing_free_blocks :: "bitmask \<Rightarrow> nat" where
  "bm_trailing_free_blocks bm =
     gaps_trailing_free_blocks (region_size_blocks (bm_config bm)) (regions_gaps bm)"

definition length_for_page :: "storage_config \<Rightarrow> (grid_error, nat) result" where
  "length_for_page c =
     (if page_size_bytes c mod block_size_bytes c \<noteq> 0 then Inl GridPanic
      else Inr (page_size_bytes c div block_size_bytes c div 8))"

definition bm_create :: "storage_config \<Rightarrow> (grid_error, bitmask) result" where
  "bm_create c =
     (if page_size_bytes c mod block_size_bytes c * region_size_blocks c \<noteq> 0 then Inl GridPanic
      else and_then (length_for_page c) (\<lambda>len.
        let bits = replicate (len * 8) False;
            num_regions = length bits div region_size_blocks c
        in Inr \<lparr>bm_config = c,
             regions_gaps = replicate num_regions (all_free (of_nat (region_size_blocks c))),
             bitslice = bits\<rparr>))"

definition page_blocks :: "storage_config \<Rightarrow> nat" where
  "page_blocks c = page_size_bytes c div block_size_bytes c"

definition infer_num_pages :: "bitmask \<Rightarrow> nat" where
  "infer_num_pages bm =
     length (bitslice bm) * block_size_bytes (bm_config bm) div page_size_bytes (bm_config bm)"

definition get_storage_size_bytes :: "bitmask \<Rightarrow> nat" where
  "get_storage_size_bytes bm =
     (let R = region_size_blocks (bm_config bm); B = block_size_bytes (bm_config bm) in
      sum_list (map (\<lambda>(gap_id, g).
        if gaps_is_empty g (of_nat R) then 0
        else if gaps_is_full g then R * B
        else ones_count (slice (bitslice bm) (gap_id * R) (gap_id * R + R)) * B)
        (enumerate 0 (regions_gaps bm))))"

definition cover_new_page :: "bitmask \<Rightarrow> (grid_error, bitmask) result" where
  "cover_new_page bm =
     (let c = bm_config bm; R = region_size_blocks c in
      and_then (length_for_page c) (\<lambda>extra.
        let new_length = length (bitslice bm) div 8 + extra;
            bits = take (new_length * 8) (bitslice bm) @ replicate (new_length * 8 - length (bitslice bm)) False;
            new_regions = length bits div R - length (regions_gaps bm);
            gaps = gaps_extend (regions_gaps bm) (replicate new_regions (all_free (of_nat R)))
        in if length bits mod R \<noteq> 0 \<or> length gaps * R \<noteq> length bits then Inl GridPanic
           else Inr (bm\<lparr>bitslice := bits, regions_gaps := gaps\<rparr>)))"

definition range_of_page :: "storage_config \<Rightarrow> nat \<Rightarrow> nat \<times> nat" where
  "range_of_page c page = (page * page_blocks c, page * page_blocks c + page_blocks c)"

definition fragmented_blocks_for_page :: "bitmask \<Rightarrow> nat \<Rightarrow> nat" where
  "fragmented_blocks_for_page bm page =
     (let (a, b) = range_of_page (bm_config bm) page; s = slice (bitslice bm) a b
      in (length s - ones_count s) - zeros_run (rev s))"

definition find_available_blocks :: "bitmask \<Rightarrow> nat \<Rightarrow> (grid_error, (nat \<times> nat) option) result" where
  "find_available_blocks bm n =
     (let c = bm_config bm; R = region_size_blocks c in
      and_then (find_fitting_gap R (regions_gaps bm) n) (\<lambda>range.
        case range of
          None \<Rightarrow> Inr None
        | Some (first, end) \<Rightarrow>
            and_then (raw_region (bitslice bm) (first * R) (end * R)) (\<lambda>region.
              Inr (map_option (\<lambda>local.
                let cursor = local + first * R
                in (cursor div page_blocks c, cursor mod page_blocks c))
                (find_available_blocks_in_slice region n)))))"

definition fill_bits :: "bool list \<Rightarrow> nat \<Rightarrow> nat \<Rightarrow> bool \<Rightarrow> (grid_error, bool list) result" where
  "fill_bits bits a b used =
     (if a \<le> b \<and> b \<le> length bits then Inr (take a bits @ replicate (b - a) used @ drop b bits)
      else Inl GridPanic)"

fun update_region_gaps :: "bitmask \<Rightarrow> nat list \<Rightarrow> (grid_error, bitmask) result" where
  "update_region_gaps bm [] = Inr bm"
| "update_region_gaps bm (i # is) =
     (let R = region_size_blocks (bm_config bm) in
      and_then (raw_region (bitslice bm) (i * R) (i * R + R)) (\<lambda>region.
        if i < length (regions_gaps bm)
        then update_region_gaps (bm\<lparr>regions_gaps := (regions_gaps bm)[i := calculate_gaps region R]\<rparr>) is
        else Inl GridPanic))"

fun mark_ranges ::
  "bitmask \<Rightarrow> nat \<Rightarrow> (nat \<times> nat) list \<Rightarrow> bool \<Rightarrow> nat list \<Rightarrow> (grid_error, bitmask \<times> nat list) result" where
  "mark_ranges bm page_start [] used dirty = Inr (bm, dirty)"
| "mark_ranges bm page_start ((a, b) # rs) used dirty =
     (let R = region_size_blocks (bm_config bm); a' = a + page_start; b' = b + page_start in
      and_then (fill_bits (bitslice bm) a' b' used) (\<lambda>bits.
        mark_ranges (bm\<lparr>bitslice := bits\<rparr>) page_start rs used
          (List.union dirty [a' div R..<div_ceil b' R])))"

definition mark_blocks_batch ::
  "bitmask \<Rightarrow> nat \<Rightarrow> (nat \<times> nat) list \<Rightarrow> bool \<Rightarrow> (grid_error, bitmask) result" where
  "mark_blocks_batch bm page ranges used =
     and_then (mark_ranges bm (fst (range_of_page (bm_config bm) page)) ranges used [])
       (\<lambda>(bm1, dirty). update_region_gaps bm1 dirty)"

definition mark_blocks :: "bitmask \<Rightarrow> nat \<Rightarrow> nat \<Rightarrow> nat \<Rightarrow> bool \<Rightarrow> (grid_error, bitmask) result" where
  "mark_blocks bm page offset n used = mark_blocks_batch bm page [(offset, offset + n)] used"

section \<open>Words and bits\<close>

lemma bits_of_word_of_bits: "length bs = 64 \<Longrightarrow> bits_of (word_of_bits bs) = bs"
  by (rule nth_equalityI) (simp_all add: word_of_bits_def bit_horner_sum_bit_word_iff)

lemma length_words_of [simp]: "length (words_of k bs) = k"
  by (induction k arbitrary: bs) simp_all

lemma concat_words_of: "length bs = 64 * k \<Longrightarrow> concat (map bits_of (words_of k bs)) = bs"
proof (induction k arbitrary: bs)
  case (Suc k)
  then have "length (take 64 bs) = 64" "length (drop 64 bs) = 64 * k" by simp_all
  then show ?case using Suc.IH [of "drop 64 bs"] by (simp add: bits_of_word_of_bits)
qed simp

lemma raw_region_words:
  assumes "a \<le> b" "b \<le> length bits" "64 dvd a" "64 dvd b"
  obtains ws where "raw_region bits a b = Inr ws" "concat (map bits_of ws) = slice bits a b"
    "64 * length ws = b - a"
proof -
  have "64 dvd b - a" by (rule dvd_diff_nat [OF assms(4) assms(3)])
  then have "length (slice bits a b) = 64 * ((b - a) div 64)" using assms(1,2) by simp
  from concat_words_of [OF this] show ?thesis
    using that [of "words_of ((b - a) div 64) (slice bits a b)"] assms \<open>64 dvd b - a\<close> by (simp add: raw_region_def)
qed

section \<open>Free blocks\<close>

text \<open>Block \<open>k\<close> exists and is free.\<close>

definition free_at :: "bool list \<Rightarrow> nat \<Rightarrow> bool" where
  "free_at bits k \<longleftrightarrow> k < length bits \<and> \<not> bits ! k"

lemma free_run_iff: "0 < n \<Longrightarrow> free_run bs s n \<longleftrightarrow> (\<forall>k. s \<le> k \<and> k < s + n \<longrightarrow> free_at bs k)"
proof
  assume f: "free_run bs s n"
  show "\<forall>k. s \<le> k \<and> k < s + n \<longrightarrow> free_at bs k"
  proof (intro allI impI)
    fix k assume k: "s \<le> k \<and> k < s + n"
    then have "k - s < n" "s + (k - s) = k" by auto
    then show "free_at bs k" using f k unfolding free_run_def free_at_def by (metis le_trans less_le_trans)
  qed
next
  assume n: "0 < n" and a: "\<forall>k. s \<le> k \<and> k < s + n \<longrightarrow> free_at bs k"
  then have "free_at bs (s + n - 1)" by auto
  then have "s + n \<le> length bs" using n by (auto simp: free_at_def)
  then show "free_run bs s n" using a by (auto simp: free_run_def free_at_def)
qed

lemma free_run_shorter: "free_run bs s n \<Longrightarrow> k \<le> n \<Longrightarrow> free_run bs s k"
  by (auto simp: free_run_def)

lemma nth_slice: "b \<le> length bs \<Longrightarrow> k < b - a \<Longrightarrow> slice bs a b ! k = bs ! (a + k)"
  by (simp add: slice_def)

lemma free_at_slice: "b \<le> length bs \<Longrightarrow> free_at (slice bs a b) k \<longleftrightarrow> a + k < b \<and> free_at bs (a + k)"
  by (cases "k < b - a") (auto simp: free_at_def nth_slice)

lemma zeros_run_ge:
  assumes "k \<le> length bs" "\<And>i. i < k \<Longrightarrow> \<not> bs ! i"
  shows "k \<le> zeros_run bs"
proof (rule ccontr)
  assume n: "\<not> k \<le> zeros_run bs"
  then have "bs ! zeros_run bs"
    using nth_length_takeWhile [of Not bs] assms(1) by (simp add: zeros_run_def)
  then show False using assms(2) n by simp
qed

lemma zeros_run_rev_iff:
  assumes "k \<le> length bs"
  shows "k \<le> zeros_run (rev bs) \<longleftrightarrow> (\<forall>i. length bs - k \<le> i \<and> i < length bs \<longrightarrow> \<not> bs ! i)"
proof
  assume k: "k \<le> zeros_run (rev bs)"
  have r: "\<not> rev bs ! j" if "j < k" for j
    using zeros_run_free [of "rev bs"] that k by (auto simp: free_run_def)
  show "\<forall>i. length bs - k \<le> i \<and> i < length bs \<longrightarrow> \<not> bs ! i"
  proof (intro allI impI)
    fix i assume i: "length bs - k \<le> i \<and> i < length bs"
    then have "Suc (length bs - Suc i) = length bs - i" "length bs - (length bs - i) = i" by auto
    then have "rev bs ! (length bs - Suc i) = bs ! i" using i by (simp add: rev_nth)
    moreover have "length bs - Suc i < k" using i assms by auto
    ultimately show "\<not> bs ! i" using r by metis
  qed
next
  assume a: "\<forall>i. length bs - k \<le> i \<and> i < length bs \<longrightarrow> \<not> bs ! i"
  have "\<not> rev bs ! i" if "i < k" for i
  proof -
    have "length bs - k \<le> length bs - Suc i" "length bs - Suc i < length bs" using that assms by auto
    then show ?thesis using a that assms by (simp add: rev_nth)
  qed
  then show "k \<le> zeros_run (rev bs)" using assms zeros_run_ge [of k "rev bs"] by simp
qed

lemma zeros_run_iff:
  assumes "k \<le> length bs"
  shows "k \<le> zeros_run bs \<longleftrightarrow> (\<forall>i < k. \<not> bs ! i)"
proof
  assume "k \<le> zeros_run bs"
  then show "\<forall>i < k. \<not> bs ! i" using zeros_run_free [of bs] by (auto simp: free_run_def)
qed (use assms zeros_run_ge in blast)

section \<open>The invariant\<close>

definition config_ok :: "storage_config \<Rightarrow> bool" where
  "config_ok c \<longleftrightarrow> 0 < block_size_bytes c \<and> 0 < region_size_blocks c \<and> 0 < page_size_bytes c \<and>
     block_size_bytes c * region_size_blocks c dvd page_size_bytes c \<and>
     64 dvd region_size_blocks c \<and> region_size_blocks c < 2 ^ 15"

abbreviation bm_R :: "bitmask \<Rightarrow> nat" where "bm_R bm \<equiv> region_size_blocks (bm_config bm)"

definition region_bits :: "nat \<Rightarrow> bool list \<Rightarrow> nat \<Rightarrow> bool list" where
  "region_bits R bits i = slice bits (i * R) (i * R + R)"

definition gaps_match :: "nat \<Rightarrow> bool list \<Rightarrow> region_gaps list \<Rightarrow> bool" where
  "gaps_match R bits gaps \<longleftrightarrow> length gaps * R = length bits \<and>
     (\<forall>i < length gaps. gaps_ok (region_bits R bits i) (gaps ! i))"

definition bm_ok :: "bitmask \<Rightarrow> bool" where
  "bm_ok bm \<longleftrightarrow> config_ok (bm_config bm) \<and> page_blocks (bm_config bm) dvd length (bitslice bm) \<and>
     gaps_match (bm_R bm) (bitslice bm) (regions_gaps bm)"

lemma config_blocks:
  assumes "config_ok c"
  shows "region_size_blocks c dvd page_blocks c" "0 < page_blocks c" "64 dvd page_blocks c"
    "page_size_bytes c mod block_size_bytes c = 0" "page_size_bytes c = page_blocks c * block_size_bytes c"
proof -
  obtain m where m: "page_size_bytes c = block_size_bytes c * region_size_blocks c * m"
    using assms by (auto simp: config_ok_def)
  then have p: "page_blocks c = region_size_blocks c * m"
    using assms by (simp add: page_blocks_def config_ok_def)
  then show "region_size_blocks c dvd page_blocks c" by simp
  show "0 < page_blocks c" using p m assms by (auto simp: config_ok_def)
  show "64 dvd page_blocks c" using p assms by (auto simp: config_ok_def)
  show "page_size_bytes c mod block_size_bytes c = 0" using m by simp
  show "page_size_bytes c = page_blocks c * block_size_bytes c" using m p by simp
qed

lemma region_end:
  assumes "gaps_match R bits gaps" "i < length gaps"
  shows "i * R + R \<le> length bits"
proof -
  have "Suc i * R \<le> length gaps * R" using assms(2) by (intro mult_le_mono1) simp
  then show ?thesis using assms(1) by (simp add: gaps_match_def add.commute)
qed

lemma length_region_bits:
  assumes "gaps_match R bits gaps" "i < length gaps"
  shows "length (region_bits R bits i) = R"
  using region_end [OF assms] by (simp add: region_bits_def)

lemma nth_region_bits:
  assumes "gaps_match R bits gaps" "i < length gaps" "k < R"
  shows "region_bits R bits i ! k = bits ! (i * R + k)"
  using region_end [OF assms(1,2)] assms(3) by (simp add: region_bits_def nth_slice)

lemma free_at_region:
  assumes "gaps_match R bits gaps" "i < length gaps" "k < R"
  shows "free_at bits (i * R + k) \<longleftrightarrow> \<not> region_bits R bits i ! k"
  using nth_region_bits [OF assms] region_end [OF assms(1,2)] assms(3) by (simp add: free_at_def)

lemma gaps_matchD:
  assumes "gaps_match R bits gaps" "i < length gaps"
  shows "gaps_ok (region_bits R bits i) (gaps ! i)"
  using assms by (simp add: gaps_match_def)

text \<open>What the three fields of a region's gaps say about its blocks.\<close>

lemma gap_trailing_iff:
  assumes m: "gaps_match R bits gaps" and i: "i < length gaps" and k: "k \<le> R"
  shows "k \<le> unat (gap_trailing (gaps ! i)) \<longleftrightarrow>
    (\<forall>x. i * R + (R - k) \<le> x \<and> x < i * R + R \<longrightarrow> free_at bits x)"
proof -
  have "k \<le> unat (gap_trailing (gaps ! i)) \<longleftrightarrow>
      (\<forall>j. R - k \<le> j \<and> j < R \<longrightarrow> \<not> region_bits R bits i ! j)"
    using zeros_run_rev_iff [of k "region_bits R bits i"] k gaps_matchD [OF m i]
    by (simp add: length_region_bits [OF m i] gaps_ok_def)
  also have "\<dots> \<longleftrightarrow> (\<forall>x. i * R + (R - k) \<le> x \<and> x < i * R + R \<longrightarrow> free_at bits x)"
  proof (intro iffI allI impI)
    fix x assume a: "\<forall>j. R - k \<le> j \<and> j < R \<longrightarrow> \<not> region_bits R bits i ! j"
      and x: "i * R + (R - k) \<le> x \<and> x < i * R + R"
    obtain j where j: "x = i * R + j" using x by (metis le_iff_add add.assoc)
    then show "free_at bits x" using a x free_at_region [OF m i, of j] by simp
  next
    fix j assume a: "\<forall>x. i * R + (R - k) \<le> x \<and> x < i * R + R \<longrightarrow> free_at bits x" and j: "R - k \<le> j \<and> j < R"
    then have "free_at bits (i * R + j)" by auto
    then show "\<not> region_bits R bits i ! j" using free_at_region [OF m i, of j] j by simp
  qed
  finally show ?thesis .
qed

lemma gap_leading_iff:
  assumes m: "gaps_match R bits gaps" and i: "i < length gaps" and k: "k \<le> R"
  shows "k \<le> unat (gap_leading (gaps ! i)) \<longleftrightarrow> (\<forall>x. i * R \<le> x \<and> x < i * R + k \<longrightarrow> free_at bits x)"
proof -
  have "k \<le> unat (gap_leading (gaps ! i)) \<longleftrightarrow> (\<forall>j < k. \<not> region_bits R bits i ! j)"
    using zeros_run_iff [of k "region_bits R bits i"] k gaps_matchD [OF m i]
    by (simp add: length_region_bits [OF m i] gaps_ok_def)
  also have "\<dots> \<longleftrightarrow> (\<forall>x. i * R \<le> x \<and> x < i * R + k \<longrightarrow> free_at bits x)"
  proof (intro iffI allI impI)
    fix x assume a: "\<forall>j < k. \<not> region_bits R bits i ! j" and x: "i * R \<le> x \<and> x < i * R + k"
    obtain j where j: "x = i * R + j" using x by (metis le_iff_add)
    then show "free_at bits x" using a x k free_at_region [OF m i, of j] by simp
  next
    fix j assume a: "\<forall>x. i * R \<le> x \<and> x < i * R + k \<longrightarrow> free_at bits x" and j: "j < k"
    then have "free_at bits (i * R + j)" by auto
    then show "\<not> region_bits R bits i ! j" using free_at_region [OF m i, of j] j k by simp
  qed
  finally show ?thesis .
qed

lemma free_run_region:
  assumes m: "gaps_match R bits gaps" and i: "i < length gaps" and j: "j + n \<le> R"
  shows "free_run (region_bits R bits i) j n \<longleftrightarrow> free_run bits (i * R + j) n"
proof -
  have "\<not> region_bits R bits i ! (j + k) \<longleftrightarrow> \<not> bits ! (i * R + j + k)" if "k < n" for k
    using nth_region_bits [OF m i, of "j + k"] that j by (simp add: add.assoc)
  then show ?thesis
    using j region_end [OF m i] by (auto simp: free_run_def length_region_bits [OF m i])
qed

lemma gap_max_iff:
  assumes m: "gaps_match R bits gaps" and i: "i < length gaps"
  shows "n \<le> unat (gap_max (gaps ! i)) \<longleftrightarrow> (\<exists>j. j + n \<le> R \<and> free_run bits (i * R + j) n)"
proof -
  have g: "is_longest (region_bits R bits i) (unat (gap_max (gaps ! i)))"
    using gaps_matchD [OF m i] by (simp add: gaps_ok_def)
  have "n \<le> unat (gap_max (gaps ! i)) \<longleftrightarrow> (\<exists>j. free_run (region_bits R bits i) j n)"
    using g free_run_shorter unfolding is_longest_def by blast
  also have "\<dots> \<longleftrightarrow> (\<exists>j. j + n \<le> R \<and> free_run bits (i * R + j) n)"
    using free_run_region [OF m i] length_region_bits [OF m i] by (metis free_run_def)
  finally show ?thesis .
qed

lemma gap_le:
  assumes m: "gaps_match R bits gaps" and i: "i < length gaps"
  shows "unat (gap_max (gaps ! i)) \<le> R" "unat (gap_leading (gaps ! i)) \<le> R" "unat (gap_trailing (gaps ! i)) \<le> R"
  using is_longest_le [of "region_bits R bits i"] is_longest_zeros [of "region_bits R bits i"]
    gaps_matchD [OF m i] length_region_bits [OF m i] by (auto simp: gaps_ok_def intro: le_trans)

section \<open>Finding the regions of a gap\<close>

text \<open>\<open>merged_fits\<close> at region \<open>i\<close>, for regions small enough for the sum of two gaps to be a \<open>u16\<close>.\<close>

lemma merged_sum:
  assumes m: "gaps_match R bits gaps" and R: "R < 2 ^ 15" and w: "2 \<le> w" "i + w \<le> length gaps"
  shows "merged_fits R gaps w n i \<longleftrightarrow>
    (\<forall>j. i < j \<and> j < i + w - 1 \<longrightarrow> unat (gap_max (gaps ! j)) = R) \<and>
    n \<le> unat (gap_trailing (gaps ! i)) + unat (gap_leading (gaps ! (i + w - 1))) + (w - 2) * R"
proof -
  let ?w = "take w (drop i gaps)"
  have first: "?w ! 0 = gaps ! i" and last: "?w ! (w - 1) = gaps ! (i + w - 1)" using w by simp_all
  have "unat (gap_trailing (gaps ! i)) \<le> R" "unat (gap_leading (gaps ! (i + w - 1))) \<le> R"
    using gap_le [OF m, of i] gap_le [OF m, of "i + w - 1"] w by auto
  then have "unat (gap_trailing (gaps ! i)) + unat (gap_leading (gaps ! (i + w - 1))) < 2 ^ 16"
    using R by simp
  then have sum: "unat (gap_trailing (gaps ! i) + gap_leading (gaps ! (i + w - 1))) =
      unat (gap_trailing (gaps ! i)) + unat (gap_leading (gaps ! (i + w - 1)))"
    by (simp add: unat_word_ariths)
  have mid: "take (w - 2) (drop 1 ?w) = map ((!) gaps) [i + 1..<i + w - 1]"
    by (rule nth_equalityI) (use w in auto)
  have "list_ex (\<lambda>g. unat (gap_max g) \<noteq> R) (take (w - 2) (drop 1 ?w)) \<longleftrightarrow>
      (\<exists>j. i < j \<and> j < i + w - 1 \<and> unat (gap_max (gaps ! j)) \<noteq> R)"
    unfolding mid by (auto simp: list_ex_iff Suc_le_eq)
  then show ?thesis unfolding merged_fits_def Let_def first last sum by blast
qed

lemma full_region_iff:
  assumes m: "gaps_match R bits gaps" and i: "i < length gaps" and R: "0 < R"
  shows "unat (gap_max (gaps ! i)) = R \<longleftrightarrow> (\<forall>x. i * R \<le> x \<and> x < i * R + R \<longrightarrow> free_at bits x)"
proof -
  have "unat (gap_max (gaps ! i)) = R \<longleftrightarrow> R \<le> unat (gap_max (gaps ! i))" using gap_le(1) [OF m i] by auto
  also have "\<dots> \<longleftrightarrow> free_run bits (i * R) R" unfolding gap_max_iff [OF m i] by auto
  finally show ?thesis using free_run_iff [OF R] by simp
qed

text \<open>A window that fits holds a gap.\<close>

lemma merged_fits_run:
  assumes m: "gaps_match R bits gaps" and R: "0 < R" "R < 2 ^ 15" and w: "2 \<le> w" "i + w \<le> length gaps"
    and fit: "merged_fits R gaps w n i" and n: "0 < n"
  shows "\<exists>s. i * R \<le> s \<and> s + n \<le> (i + w) * R \<and> free_run bits s n"
proof -
  let ?t = "unat (gap_trailing (gaps ! i))" and ?l = "unat (gap_leading (gaps ! (i + w - 1)))"
  let ?s = "i * R + (R - ?t)" and ?e = "(i + w - 1) * R + ?l"
  have il: "i < length gaps" "i + w - 1 < length gaps" using w by auto
  have mid: "\<And>j. i < j \<and> j < i + w - 1 \<Longrightarrow> unat (gap_max (gaps ! j)) = R"
    and len: "n \<le> ?t + ?l + (w - 2) * R"
    using fit unfolding merged_sum [OF m R(2) w] by auto
  have t: "?t \<le> R" "?l \<le> R" using gap_le [OF m il(1)] gap_le [OF m il(2)] by auto
  have trail: "free_at bits x" if "?s \<le> x" "x < i * R + R" for x
    using gap_trailing_iff [OF m il(1) t(1)] that by simp
  have lead: "free_at bits x" if "(i + w - 1) * R \<le> x" "x < ?e" for x
    using gap_leading_iff [OF m il(2) t(2)] that by simp
  have free: "free_at bits x" if x: "?s \<le> x" "x < ?e" for x
  proof -
    define j where "j = x div R"
    have j: "j * R \<le> x" "x < j * R + R"
      using R(1) by (simp_all add: j_def div_times_less_eq_dividend) (metis add.commute dividend_less_div_times)
    have "i \<le> j" using x(1) R(1) by (simp add: j_def less_eq_div_iff_mult_less_eq)
    have "j \<le> i + w - 1"
    proof (rule ccontr)
      assume "\<not> j \<le> i + w - 1"
      then have "(i + w - 1) * R + R \<le> j * R" using mult_le_mono1 [of "Suc (i + w - 1)" j R] by simp
      then show False using x(2) t(2) j(1) by simp
    qed
    then consider "j = i" | "i < j" "j < i + w - 1" | "j = i + w - 1" using \<open>i \<le> j\<close> by linarith
    then show ?thesis
    proof cases
      case 1
      then show ?thesis using trail x j by simp
    next
      case 2
      then have "j < length gaps" using w by simp
      then show ?thesis using mid [of j] full_region_iff [OF m _ R(1), of j] 2 j by auto
    next
      case 3
      then show ?thesis using lead x j by simp
    qed
  qed
  have "(i + w - 1) * R = i * R + (w - 2) * R + R"
  proof -
    obtain v where v: "w = v + 2" using w(1) by (metis le_add_diff_inverse2)
    show ?thesis unfolding v by (simp add: algebra_simps)
  qed
  then have le: "?s + n \<le> ?e" using len t by simp
  moreover have "?e \<le> (i + w) * R"
  proof -
    have "i + w = Suc (i + w - 1)" using w(1) by simp
    then have "(i + w) * R = (i + w - 1) * R + R" by (metis add.commute mult_Suc)
    then show ?thesis using t(2) by simp
  qed
  moreover have "free_run bits ?s n" using free le unfolding free_run_iff [OF n] by simp
  ultimately show ?thesis by (intro exI [of _ ?s]) simp
qed

text \<open>A gap over several regions makes the window of these regions fit.\<close>

lemma run_merged_fits:
  assumes m: "gaps_match R bits gaps" and R: "0 < R" "R < 2 ^ 15" and n: "0 < n"
    and s: "free_run bits s n" and i: "i = s div R" and j: "j = (s + n - 1) div R" "i < j"
  shows "i + (j - i + 1) \<le> length gaps \<and> merged_fits R gaps (j - i + 1) n i"
proof -
  let ?w = "j - i + 1"
  have free: "free_at bits x" if "s \<le> x" "x < s + n" for x using s that unfolding free_run_iff [OF n] by simp
  have "s + n \<le> length bits" using s by (simp add: free_run_def)
  then have "s + n - 1 < length gaps * R" using m n by (simp add: gaps_match_def)
  then have jl: "j < length gaps" unfolding j(1) by (simp add: less_mult_imp_div_less)
  have il: "i < length gaps" using jl j(2) by simp
  have w: "2 \<le> ?w" "i + ?w \<le> length gaps" and e: "i + ?w - 1 = j" using j(2) jl by auto
  have si: "i * R \<le> s" "s < i * R + R"
    using R(1) unfolding i by (simp_all add: div_times_less_eq_dividend) (metis add.commute dividend_less_div_times)
  have sj: "j * R \<le> s + n - 1" "s + n - 1 < j * R + R"
    using R(1) unfolding j(1) by (simp_all add: div_times_less_eq_dividend) (metis add.commute dividend_less_div_times)
  have ij: "i * R + R \<le> j * R" using mult_le_mono1 [of "Suc i" j R] j(2) by simp
  have kt: "i * R + R - s \<le> R" using si by simp
  have "i * R + R - s \<le> unat (gap_trailing (gaps ! i))"
    unfolding gap_trailing_iff [OF m il kt] using free si sj ij by auto
  moreover have kl: "s + n - j * R \<le> R" using sj n by simp
  have "s + n - j * R \<le> unat (gap_leading (gaps ! j))"
    unfolding gap_leading_iff [OF m jl kl] using free si sj ij by auto
  moreover have "(?w - 2) * R + (i * R + R) = j * R"
  proof -
    obtain v where v: "j = i + Suc v" using j(2) by (metis less_iff_Suc_add add_Suc_right)
    show ?thesis unfolding v by (simp add: algebra_simps)
  qed
  ultimately have "n \<le> unat (gap_trailing (gaps ! i)) + unat (gap_leading (gaps ! j)) + (?w - 2) * R"
    using si sj n by linarith
  moreover have "unat (gap_max (gaps ! k)) = R" if k: "i < k" "k < j" for k
  proof -
    have "k < length gaps" using k jl by simp
    moreover have "i * R + R \<le> k * R" "k * R + R \<le> j * R"
      using mult_le_mono1 [of "Suc i" k R] mult_le_mono1 [of "Suc k" j R] k by simp_all
    then have "free_at bits x" if "k * R \<le> x \<and> x < k * R + R" for x
      using free [of x] that si sj by auto
    ultimately show ?thesis using full_region_iff [OF m _ R(1), of k] by blast
  qed
  ultimately show ?thesis using w merged_sum [OF m R(2) w] e by simp
qed

lemma find_Some_prop: "find P xs = Some x \<Longrightarrow> P x \<and> x \<in> set xs"
  by (induction xs) (auto split: if_splits)

lemma div_ceil_bounds:
  assumes "0 < n" "0 < R"
  shows "n \<le> div_ceil n R * R" "(div_ceil n R - 1) * R < n" "0 < div_ceil n R"
proof -
  have e: "n = n div R * R + n mod R" by simp
  show le: "n \<le> div_ceil n R * R"
  proof (cases "n mod R = 0")
    case True
    then show ?thesis using e by (simp add: div_ceil_def)
  next
    case False
    then have "div_ceil n R * R = n div R * R + R" by (simp add: div_ceil_def)
    then show ?thesis using e mod_less_divisor [OF assms(2), of n] by linarith
  qed
  then show "0 < div_ceil n R" using assms(1) by (cases "div_ceil n R") simp_all
  show "(div_ceil n R - 1) * R < n"
  proof (cases "n mod R = 0")
    case True
    then have "n = n div R * R" using e by simp
    moreover from this have "0 < n div R" using assms(1) by (metis mult_is_0 neq0_conv)
    then have "(n div R - 1) * R < n div R * R" using assms(2) by simp
    ultimately show ?thesis using True by (simp add: div_ceil_def)
  next
    case False
    then have "(div_ceil n R - 1) * R = n div R * R" by (simp add: div_ceil_def)
    then show ?thesis using e False by linarith
  qed
qed

text \<open>A range of regions with a gap of \<open>n\<close> blocks inside.\<close>

definition holds_gap :: "nat \<Rightarrow> bool list \<Rightarrow> nat \<Rightarrow> nat \<times> nat \<Rightarrow> bool" where
  "holds_gap R bits n r \<longleftrightarrow> fst r < snd r \<and> snd r * R \<le> length bits \<and>
     (\<exists>s. fst r * R \<le> s \<and> s + n \<le> snd r * R \<and> free_run bits s n)"

lemma holds_gap_single:
  assumes m: "gaps_match R bits gaps" and i: "i < length gaps" and n: "n \<le> unat (gap_max (gaps ! i))"
  shows "holds_gap R bits n (i, i + 1)"
proof -
  obtain j where "j + n \<le> R" "free_run bits (i * R + j) n" using n gap_max_iff [OF m i] by blast
  then show ?thesis using region_end [OF m i]
    by (auto simp: holds_gap_def add.commute intro!: exI [of _ "i * R + j"])
qed

lemma holds_gap_merged:
  assumes m: "gaps_match R bits gaps" and R: "0 < R" "R < 2 ^ 15" and w: "2 \<le> w" and n: "0 < n"
    and f: "find_merged_gap R gaps w n = Some r"
  shows "holds_gap R bits n r"
proof -
  obtain i where i: "r = (i, i + w)" "merged_fits R gaps w n i" "i < Suc (length gaps) - w"
    using f find_Some_prop by (fastforce simp: find_merged_gap_def)
  then have le: "i + w \<le> length gaps" by simp
  have "(i + w) * R \<le> length gaps * R" using le by (rule mult_le_mono1)
  then have "(i + w) * R \<le> length bits" using m unfolding gaps_match_def by linarith
  then show ?thesis using merged_fits_run [OF m R w le i(2) n] w by (simp add: holds_gap_def i(1))
qed

lemma merged_gap_found:
  assumes "i + w \<le> length gaps" "merged_fits R gaps w n i"
  shows "find_merged_gap R gaps w n \<noteq> None"
proof -
  have "i \<in> set [0..<Suc (length gaps) - w]" using assms(1) by simp
  then have "find (merged_fits R gaps w n) [0..<Suc (length gaps) - w] \<noteq> None"
    using assms(2) unfolding find_None_iff by blast
  then show ?thesis by (simp add: find_merged_gap_def)
qed

lemma find_fitting_gap_sound:
  assumes m: "gaps_match R bits gaps" and R: "0 < R" "R < 2 ^ 15" and n: "0 < n"
    and f: "find_fitting_gap R gaps n = Inr (Some r)"
  shows "holds_gap R bits n r"
proof (cases "length gaps = 1")
  case True
  then have "n \<le> unat (gap_max (gaps ! 0))" "r = (0, 1)" using f by (auto simp: find_fitting_gap_def split: if_splits)
  then show ?thesis using holds_gap_single [OF m, of 0 n] True by simp
next
  case False
  let ?k = "div_ceil n R"
  have k: "0 < ?k" using div_ceil_bounds [OF n R(1)] by blast
  have f': "(case (if ?k = 1 then map_option (\<lambda>i. (i, i + 1)) (find (\<lambda>i. n \<le> unat (gap_max (gaps ! i))) [0..<length gaps])
       else find_merged_gap R gaps ?k n) of
         Some r \<Rightarrow> Some r | None \<Rightarrow> find_merged_gap R gaps (?k + 1) n) = Some r"
    using f False k by (simp add: find_fitting_gap_def Let_def)
  then consider (single) i where "r = (i, i + 1)" "find (\<lambda>i. n \<le> unat (gap_max (gaps ! i))) [0..<length gaps] = Some i"
    | (min) "?k \<noteq> 1" "find_merged_gap R gaps ?k n = Some r"
    | (more) "find_merged_gap R gaps (?k + 1) n = Some r"
    by (auto split: if_splits option.splits)
  then show ?thesis
  proof cases
    case single
    then show ?thesis using holds_gap_single [OF m] find_Some_prop [OF single(2)] by simp
  next
    case min
    then show ?thesis using holds_gap_merged [OF m R _ n, of ?k] k by simp
  next
    case more
    then show ?thesis using holds_gap_merged [OF m R _ n, of "?k + 1"] k by simp
  qed
qed

lemma find_fitting_gap_complete:
  assumes m: "gaps_match R bits gaps" and R: "0 < R" "R < 2 ^ 15" and n: "0 < n" and s: "free_run bits s n"
  shows "\<exists>r. find_fitting_gap R gaps n = Inr (Some r)"
proof -
  define i where "i = s div R"
  define j where "j = (s + n - 1) div R"
  have ij: "i \<le> j" unfolding i_def j_def using n by (intro div_le_mono) simp
  have "s + n \<le> length bits" using s by (simp add: free_run_def)
  then have "s + n - 1 < length gaps * R" using m n by (simp add: gaps_match_def)
  then have jl: "j < length gaps" unfolding j_def by (simp add: less_mult_imp_div_less)
  have si: "i * R \<le> s" "s < i * R + R"
    using R(1) unfolding i_def by (simp_all add: div_times_less_eq_dividend) (metis add.commute dividend_less_div_times)
  have sj: "j * R \<le> s + n - 1" "s + n - 1 < j * R + R"
    using R(1) unfolding j_def by (simp_all add: div_times_less_eq_dividend) (metis add.commute dividend_less_div_times)
  note b = div_ceil_bounds [OF n R(1)]
  let ?k = "div_ceil n R"
  have single: "n \<le> unat (gap_max (gaps ! i))" if "i = j"
  proof -
    have "s - i * R + n \<le> R" using si sj that n by simp
    moreover have "i * R + (s - i * R) = s" using si by simp
    ultimately show ?thesis using gap_max_iff [OF m, of i n] jl that s by metis
  qed
  show ?thesis
  proof (cases "length gaps = 1")
    case True
    then have "j = 0" "i = 0" using jl ij by auto
    then show ?thesis using single True by (simp add: find_fitting_gap_def)
  next
    case len: False
    have "(if ?k = 1 then map_option (\<lambda>i. (i, i + 1)) (find (\<lambda>i. n \<le> unat (gap_max (gaps ! i))) [0..<length gaps])
         else find_merged_gap R gaps ?k n) \<noteq> None \<or> find_merged_gap R gaps (?k + 1) n \<noteq> None"
    proof (cases "i = j")
      case True
      have "n \<le> R" using si sj True n by simp
      then have "(?k - 1) * R < 1 * R" unfolding mult_1 by (rule less_le_trans [OF b(2)])
      then have "?k - 1 < 1" using mult_less_cancel2 [of "?k - 1" R 1] by blast
      then have "?k = 1" using b(3) by simp
      moreover have "i \<in> set [0..<length gaps]" using jl True by simp
      then have "find (\<lambda>i. n \<le> unat (gap_max (gaps ! i))) [0..<length gaps] \<noteq> None"
        using single [OF True] unfolding find_None_iff by blast
      ultimately show ?thesis by simp
    next
      case False
      then have lt: "i < j" using ij by simp
      let ?w = "j - i + 1"
      note fits = run_merged_fits [OF m R n s i_def j_def lt]
      have found: "find_merged_gap R gaps ?w n \<noteq> None" by (rule merged_gap_found) (use fits in auto)
      have "i * R + (?w - 2) * R + R = j * R"
      proof -
        obtain v where v: "j = i + Suc v" using lt by (metis less_iff_Suc_add add_Suc_right)
        show ?thesis unfolding v by (simp add: algebra_simps)
      qed
      then have bounds: "(?w - 2) * R < n" "n \<le> ?w * R" using si sj n lt by (auto simp: algebra_simps)
      have "(?w - 2) * R < ?k * R" using bounds(1) b(1) by linarith
      then have k1: "?w - 2 < ?k" using mult_less_cancel2 by blast
      have "(?k - 1) * R < ?w * R" using bounds(2) b(2) by linarith
      then have "?k - 1 < ?w" using mult_less_cancel2 by blast
      then have "?k = ?w \<or> ?k + 1 = ?w" using k1 b(3) lt by linarith
      then show ?thesis using found lt by auto
    qed
    then show ?thesis using len b(3) by (auto simp: find_fitting_gap_def Let_def split: option.splits)
  qed
qed

lemma find_fitting_gap_total:
  assumes "0 < R" "0 < n"
  shows "\<exists>r. find_fitting_gap R gaps n = Inr r"
  using div_ceil_bounds(3) [OF assms(2,1)] by (simp add: find_fitting_gap_def Let_def)

section \<open>Finding blocks\<close>

lemma free_run_slice:
  assumes "b \<le> length bits" "0 < n"
  shows "free_run (slice bits a b) s n \<longleftrightarrow> a + s + n \<le> b \<and> free_run bits (a + s) n"
proof
  assume f: "free_run (slice bits a b) s n"
  then have l: "a + s + n \<le> b" using assms by (auto simp: free_run_def)
  have "\<not> bits ! (a + s + k)" if "k < n" for k
  proof -
    have "slice bits a b ! (s + k) = bits ! (a + (s + k))" by (rule nth_slice) (use l that assms in auto)
    then show ?thesis using f that by (simp add: free_run_def add.assoc)
  qed
  then show "a + s + n \<le> b \<and> free_run bits (a + s) n" using l assms by (simp add: free_run_def)
next
  assume f: "a + s + n \<le> b \<and> free_run bits (a + s) n"
  have "\<not> slice bits a b ! (s + k)" if "k < n" for k
  proof -
    have "slice bits a b ! (s + k) = bits ! (a + (s + k))" by (rule nth_slice) (use f that assms in auto)
    then show ?thesis using f that by (simp add: free_run_def add.assoc)
  qed
  moreover have "s + n \<le> b - a" using f by linarith
  ultimately show "free_run (slice bits a b) s n" using assms by (simp add: free_run_def)
qed

lemma bm_okD:
  assumes "bm_ok bm"
  shows "gaps_match (bm_R bm) (bitslice bm) (regions_gaps bm)" "0 < bm_R bm" "bm_R bm < 2 ^ 15" "64 dvd bm_R bm"
    "config_ok (bm_config bm)" "page_blocks (bm_config bm) dvd length (bitslice bm)"
  using assms by (simp_all add: bm_ok_def config_ok_def)

lemma find_available_blocks_spec:
  assumes ok: "bm_ok bm" and n: "0 < n"
  shows "\<exists>r. find_available_blocks bm n = Inr r \<and> (case r of
     None \<Rightarrow> \<forall>s. \<not> free_run (bitslice bm) s n
   | Some (page, offset) \<Rightarrow> offset < page_blocks (bm_config bm) \<and>
       free_run (bitslice bm) (page * page_blocks (bm_config bm) + offset) n)"
proof -
  note o = bm_okD [OF ok]
  let ?R = "bm_R bm" and ?P = "page_blocks (bm_config bm)"
  obtain r where r: "find_fitting_gap ?R (regions_gaps bm) n = Inr r"
    using find_fitting_gap_total [OF o(2) n] by blast
  show ?thesis
  proof (cases r)
    case None
    have "\<not> free_run (bitslice bm) s n" for s
      using find_fitting_gap_complete [OF o(1-3) n, of s] r None by auto
    then show ?thesis using r None by (simp add: find_available_blocks_def Let_def)
  next
    case (Some ab)
    obtain a b where ab: "ab = (a, b)" by (cases ab)
    have "holds_gap ?R (bitslice bm) n (a, b)"
      using find_fitting_gap_sound [OF o(1-3) n] r Some ab by simp
    then obtain s0 where h: "a < b" "b * ?R \<le> length (bitslice bm)" "a * ?R \<le> s0" "s0 + n \<le> b * ?R"
      "free_run (bitslice bm) s0 n"
      by (auto simp: holds_gap_def)
    have "a * ?R \<le> b * ?R" "64 dvd a * ?R" "64 dvd b * ?R" using h(1) o(4) by auto
    then obtain ws where ws: "raw_region (bitslice bm) (a * ?R) (b * ?R) = Inr ws"
      "concat (map bits_of ws) = slice (bitslice bm) (a * ?R) (b * ?R)"
      using raw_region_words [of "a * ?R" "b * ?R" "bitslice bm"] h(2) by metis
    have "free_run (slice (bitslice bm) (a * ?R) (b * ?R)) (s0 - a * ?R) n"
      using h free_run_slice [OF h(2) n] by simp
    moreover have least: "least_run (slice (bitslice bm) (a * ?R) (b * ?R)) n (find_available_blocks_in_slice ws n)"
      using first_fit_least [of "concat (map bits_of ws)" n] ws(2)
        find_in_slice_first_fit [OF n, of ws] by simp
    ultimately have "find_available_blocks_in_slice ws n \<noteq> None"
      by (cases "find_available_blocks_in_slice ws n") (auto simp: least_run_def)
    then obtain l where l: "find_available_blocks_in_slice ws n = Some l" by blast
    then have "free_run (slice (bitslice bm) (a * ?R) (b * ?R)) l n" using least by (simp add: least_run_def)
    then have "free_run (bitslice bm) (a * ?R + l) n" using free_run_slice [OF h(2) n] by simp
    moreover have "find_available_blocks bm n = Inr (Some ((l + a * ?R) div ?P, (l + a * ?R) mod ?P))"
      using r Some ab ws(1) l by (simp add: find_available_blocks_def Let_def)
    moreover have "(l + a * ?R) mod ?P < ?P" using config_blocks(2) [OF o(5)] by simp
    ultimately show ?thesis by (simp add: add.commute)
  qed
qed

section \<open>Marking blocks\<close>

definition marked :: "bool list \<Rightarrow> nat \<Rightarrow> nat \<Rightarrow> bool \<Rightarrow> bool list" where
  "marked bits a b used = take a bits @ replicate (b - a) used @ drop b bits"

lemma length_marked [simp]: "a \<le> b \<Longrightarrow> b \<le> length bits \<Longrightarrow> length (marked bits a b used) = length bits"
  by (simp add: marked_def)

lemma nth_marked:
  assumes "a \<le> b" "b \<le> length bits" "k < length bits"
  shows "marked bits a b used ! k = (if a \<le> k \<and> k < b then used else bits ! k)"
proof -
  consider "k < a" | "a \<le> k" "k < b" | "b \<le> k" by linarith
  then show ?thesis using assms by cases (auto simp: marked_def nth_append)
qed

lemma region_bits_cong:
  assumes "length bits' = length bits" "i * R + R \<le> length bits"
    "\<And>k. i * R \<le> k \<Longrightarrow> k < i * R + R \<Longrightarrow> bits' ! k = bits ! k"
  shows "region_bits R bits' i = region_bits R bits i"
  by (rule nth_equalityI) (use assms in \<open>auto simp: region_bits_def nth_slice\<close>)

text \<open>Recomputing the gaps of the dirty regions restores the summary.\<close>

lemma update_region_gaps_spec:
  assumes "config_ok (bm_config bm)" "length (regions_gaps bm) * bm_R bm = length (bitslice bm)"
    "\<forall>i \<in> set is. i < length (regions_gaps bm)"
    "\<forall>i < length (regions_gaps bm). i \<notin> set is \<longrightarrow> gaps_ok (region_bits (bm_R bm) (bitslice bm) i) (regions_gaps bm ! i)"
  shows "\<exists>bm'. update_region_gaps bm is = Inr bm' \<and> bitslice bm' = bitslice bm \<and> bm_config bm' = bm_config bm \<and>
    gaps_match (bm_R bm) (bitslice bm) (regions_gaps bm')"
  using assms
proof (induction "is" arbitrary: bm)
  case Nil
  then show ?case by (simp add: gaps_match_def)
next
  case (Cons i "is")
  let ?R = "bm_R bm" and ?bits = "bitslice bm"
  have il: "i < length (regions_gaps bm)" using Cons.prems(3) by simp
  have e: "i * ?R + ?R \<le> length ?bits"
    using mult_le_mono1 [of "Suc i" "length (regions_gaps bm)" ?R] il Cons.prems(2) by simp
  have R: "64 dvd ?R" "?R < 2 ^ 16" using Cons.prems(1) by (auto simp: config_ok_def)
  then have "64 dvd i * ?R" "64 dvd i * ?R + ?R" by auto
  then obtain ws where ws: "raw_region ?bits (i * ?R) (i * ?R + ?R) = Inr ws"
    "concat (map bits_of ws) = slice ?bits (i * ?R) (i * ?R + ?R)" "64 * length ws = ?R"
    using raw_region_words [of "i * ?R" "i * ?R + ?R" ?bits] e by auto
  let ?bm = "bm\<lparr>regions_gaps := (regions_gaps bm)[i := calculate_gaps ws ?R]\<rparr>"
  have g: "gaps_ok (region_bits ?R ?bits i) (calculate_gaps ws ?R)"
    using calculate_gaps_ok [OF ws(3) R(2)] ws(2) by (simp add: region_bits_def)
  have "\<exists>bm'. update_region_gaps ?bm is = Inr bm' \<and> bitslice bm' = bitslice ?bm \<and> bm_config bm' = bm_config ?bm \<and>
      gaps_match (bm_R ?bm) (bitslice ?bm) (regions_gaps bm')"
  proof (rule Cons.IH)
    show "\<forall>k < length (regions_gaps ?bm). k \<notin> set is \<longrightarrow>
        gaps_ok (region_bits (bm_R ?bm) (bitslice ?bm) k) (regions_gaps ?bm ! k)"
    proof (intro allI impI)
      fix k assume "k < length (regions_gaps ?bm)" "k \<notin> set is"
      then show "gaps_ok (region_bits (bm_R ?bm) (bitslice ?bm) k) (regions_gaps ?bm ! k)"
        using Cons.prems(4) g by (cases "k = i") simp_all
    qed
  qed (use Cons.prems in auto)
  moreover have "update_region_gaps bm (i # is) = update_region_gaps ?bm is"
    using ws(1) il by (simp add: Let_def)
  ultimately show ?case by simp
qed

text \<open>The blocks of some ranges, and the bits after marking all of them.\<close>

definition in_ranges :: "(nat \<times> nat) list \<Rightarrow> nat \<Rightarrow> nat \<Rightarrow> bool" where
  "in_ranges rs base k \<longleftrightarrow> (\<exists>(a, b) \<in> set rs. a + base \<le> k \<and> k < b + base)"

lemma in_ranges_simps [simp]:
  "in_ranges [] base k = False"
  "in_ranges ((a, b) # rs) base k \<longleftrightarrow> a + base \<le> k \<and> k < b + base \<or> in_ranges rs base k"
  by (auto simp: in_ranges_def)

lemma region_of_block:
  assumes "0 < R" "a \<le> k" "k < b"
  shows "k div R \<in> set [a div R..<div_ceil b R]"
proof -
  have "k div R * R \<le> k" by (rule div_times_less_eq_dividend)
  also have "k < div_ceil b R * R" using div_ceil_bounds(1) [of b R] assms by linarith
  finally have "k div R < div_ceil b R" using mult_less_cancel2 by blast
  then show ?thesis using div_le_mono [OF assms(2), of R] by simp
qed

lemma dirty_region_exists:
  assumes "0 < R" "b \<le> g * R" "i \<in> set [a div R..<div_ceil b R]"
  shows "i < g"
proof -
  have i: "i < div_ceil b R" using assms(3) by simp
  then have "b \<noteq> 0" by (cases "b = 0") (simp_all add: div_ceil_def)
  then have "(div_ceil b R - 1) * R < g * R" using div_ceil_bounds(2) [of b R] assms(1,2) by linarith
  then have "div_ceil b R - 1 < g" using mult_less_cancel2 by blast
  then show ?thesis using i by linarith
qed

lemma mark_ranges_spec:
  assumes "0 < bm_R bm" "g * bm_R bm = length (bitslice bm)"
    "\<forall>(a, b) \<in> set rs. a \<le> b \<and> b + base \<le> length (bitslice bm)" "\<forall>i \<in> set dirty. i < g"
  shows "\<exists>bm' dirty'. mark_ranges bm base rs used dirty = Inr (bm', dirty') \<and> bm_config bm' = bm_config bm \<and>
    regions_gaps bm' = regions_gaps bm \<and> length (bitslice bm') = length (bitslice bm) \<and>
    (\<forall>k < length (bitslice bm). bitslice bm' ! k = (if in_ranges rs base k then used else bitslice bm ! k)) \<and>
    set dirty \<subseteq> set dirty' \<and> (\<forall>i \<in> set dirty'. i < g) \<and>
    (\<forall>k. in_ranges rs base k \<longrightarrow> k div bm_R bm \<in> set dirty')"
  using assms
proof (induction rs arbitrary: bm dirty)
  case Nil
  then show ?case by simp
next
  case (Cons r rs)
  obtain a b where r: "r = (a, b)" by (cases r)
  let ?R = "bm_R bm" and ?a = "a + base" and ?b = "b + base"
  have ab: "?a \<le> ?b" "?b \<le> length (bitslice bm)" using Cons.prems(3) r by auto
  let ?bits = "marked (bitslice bm) ?a ?b used"
  let ?bm = "bm\<lparr>bitslice := ?bits\<rparr>" and ?dirty = "List.union dirty [?a div ?R..<div_ceil ?b ?R]"
  have len: "length ?bits = length (bitslice bm)" using ab by (rule length_marked)
  have "i < g" if "i \<in> set [?a div ?R..<div_ceil ?b ?R]" for i
    by (rule dirty_region_exists [OF Cons.prems(1) _ that]) (use ab(2) Cons.prems(2) in simp)
  then have d: "\<forall>i \<in> set ?dirty. i < g" using Cons.prems(4) by auto
  have "\<exists>bm' dirty'. mark_ranges ?bm base rs used ?dirty = Inr (bm', dirty') \<and> bm_config bm' = bm_config ?bm \<and>
    regions_gaps bm' = regions_gaps ?bm \<and> length (bitslice bm') = length (bitslice ?bm) \<and>
    (\<forall>k < length (bitslice ?bm). bitslice bm' ! k = (if in_ranges rs base k then used else bitslice ?bm ! k)) \<and>
    set ?dirty \<subseteq> set dirty' \<and> (\<forall>i \<in> set dirty'. i < g) \<and>
    (\<forall>k. in_ranges rs base k \<longrightarrow> k div bm_R ?bm \<in> set dirty')"
    by (rule Cons.IH) (use Cons.prems len d in auto)
  then obtain bm' dirty' where m: "mark_ranges ?bm base rs used ?dirty = Inr (bm', dirty')"
    "bm_config bm' = bm_config bm" "regions_gaps bm' = regions_gaps bm"
    "length (bitslice bm') = length (bitslice bm)"
    "\<forall>k < length (bitslice bm). bitslice bm' ! k = (if in_ranges rs base k then used else ?bits ! k)"
    "set ?dirty \<subseteq> set dirty'" "\<forall>i \<in> set dirty'. i < g"
    "\<forall>k. in_ranges rs base k \<longrightarrow> k div ?R \<in> set dirty'"
    using len by auto
  have "mark_ranges bm base (r # rs) used dirty = Inr (bm', dirty')"
    using m(1) ab unfolding r by (simp add: fill_bits_def marked_def Let_def)
  moreover have "bitslice bm' ! k = (if in_ranges (r # rs) base k then used else bitslice bm ! k)"
    if "k < length (bitslice bm)" for k
    using m(5) that nth_marked [OF ab that, of used] unfolding r by auto
  moreover have "k div ?R \<in> set dirty'" if k: "in_ranges (r # rs) base k" for k
  proof (cases "in_ranges rs base k")
    case False
    then have "k div ?R \<in> set [?a div ?R..<div_ceil ?b ?R]"
      using region_of_block [OF Cons.prems(1), of ?a k ?b] k unfolding r by simp
    then show ?thesis using m(6) by auto
  qed (use m(8) in simp)
  moreover have "set dirty \<subseteq> set dirty'" using m(6) by auto
  ultimately show ?case using m(2-4,7) by blast
qed

lemma mark_blocks_batch_spec:
  assumes ok: "bm_ok bm" and rs: "\<forall>(a, b) \<in> set rs. a \<le> b \<and> b + page * page_blocks (bm_config bm) \<le> length (bitslice bm)"
  shows "\<exists>bm'. mark_blocks_batch bm page rs used = Inr bm' \<and> bm_ok bm' \<and> bm_config bm' = bm_config bm \<and>
    length (bitslice bm') = length (bitslice bm) \<and>
    (\<forall>k < length (bitslice bm). bitslice bm' ! k =
       (if in_ranges rs (page * page_blocks (bm_config bm)) k then used else bitslice bm ! k))"
proof -
  note o = bm_okD [OF ok]
  let ?R = "bm_R bm" and ?base = "page * page_blocks (bm_config bm)" and ?g = "length (regions_gaps bm)"
  have gl: "?g * ?R = length (bitslice bm)" using o(1) by (simp add: gaps_match_def)
  have "\<forall>i \<in> set ([] :: nat list). i < ?g" by simp
  from mark_ranges_spec [OF o(2) gl rs this, of used]
  obtain bm1 dirty where m: "mark_ranges bm ?base rs used [] = Inr (bm1, dirty)" "bm_config bm1 = bm_config bm"
    "regions_gaps bm1 = regions_gaps bm" "length (bitslice bm1) = length (bitslice bm)"
    "\<forall>k < length (bitslice bm). bitslice bm1 ! k = (if in_ranges rs ?base k then used else bitslice bm ! k)"
    "\<forall>i \<in> set dirty. i < ?g" "\<forall>k. in_ranges rs ?base k \<longrightarrow> k div ?R \<in> set dirty"
    by auto
  have clean: "gaps_ok (region_bits ?R (bitslice bm1) i) (regions_gaps bm ! i)"
    if i: "i < ?g" "i \<notin> set dirty" for i
  proof -
    have "region_bits ?R (bitslice bm1) i = region_bits ?R (bitslice bm) i"
    proof (rule region_bits_cong [OF m(4) region_end [OF o(1) i(1)]])
      fix k assume k: "i * ?R \<le> k" "k < i * ?R + ?R"
      then have "k div ?R = i" using o(2) by (metis add.commute div_nat_eqI mult.commute mult_Suc)
      then have "\<not> in_ranges rs ?base k" using m(7) i(2) by blast
      then show "bitslice bm1 ! k = bitslice bm ! k" using m(5) k region_end [OF o(1) i(1)] by simp
    qed
    then show ?thesis using gaps_matchD [OF o(1) i(1)] by simp
  qed
  have "\<exists>bm'. update_region_gaps bm1 dirty = Inr bm' \<and> bitslice bm' = bitslice bm1 \<and> bm_config bm' = bm_config bm1 \<and>
      gaps_match (bm_R bm1) (bitslice bm1) (regions_gaps bm')"
    by (rule update_region_gaps_spec) (use o(5) m gl clean in auto)
  then obtain bm' where u: "update_region_gaps bm1 dirty = Inr bm'" "bitslice bm' = bitslice bm1"
    "bm_config bm' = bm_config bm" "gaps_match ?R (bitslice bm1) (regions_gaps bm')"
    using m(2) by auto
  have "mark_blocks_batch bm page rs used = Inr bm'"
    using m(1) u(1) by (simp add: mark_blocks_batch_def range_of_page_def)
  moreover have "bm_ok bm'" using u o(5,6) m(4) by (simp add: bm_ok_def)
  ultimately show ?thesis using u m(4,5) by auto
qed

lemma mark_blocks_spec:
  assumes ok: "bm_ok bm" and len: "page * page_blocks (bm_config bm) + offset + n \<le> length (bitslice bm)"
  defines "a \<equiv> page * page_blocks (bm_config bm) + offset"
  shows "\<exists>bm'. mark_blocks bm page offset n used = Inr bm' \<and> bm_ok bm' \<and> bm_config bm' = bm_config bm \<and>
    length (bitslice bm') = length (bitslice bm) \<and>
    (\<forall>k < length (bitslice bm). bitslice bm' ! k = (if a \<le> k \<and> k < a + n then used else bitslice bm ! k))"
proof -
  have "\<forall>(x, y) \<in> set [(offset, offset + n)]. x \<le> y \<and> y + page * page_blocks (bm_config bm) \<le> length (bitslice bm)"
    using len by simp
  from mark_blocks_batch_spec [OF ok this, of used] show ?thesis
    by (simp add: mark_blocks_def a_def add_ac)
qed

section \<open>Pages\<close>

lemma zeros_run_all_False [simp]: "zeros_run (replicate k False) = k"
  by (simp add: zeros_run_def)

lemma gaps_ok_all_free:
  assumes "R < 2 ^ 15"
  shows "gaps_ok (replicate R False) (all_free (of_nat R))"
proof -
  have "free_run (replicate R False) 0 R" by (simp add: free_run_def)
  moreover have "n \<le> R" if "free_run (replicate R False) s n" for s n using that by (simp add: free_run_def)
  ultimately have "is_longest (replicate R False) R" by (auto simp: is_longest_def)
  moreover have "unat (of_nat R :: u16) = R" using assms by (simp add: unat_of_nat)
  ultimately show ?thesis by (simp add: gaps_ok_def all_free_def)
qed

lemma region_bits_append:
  assumes "length xs = k * R"
  shows "i < k \<Longrightarrow> region_bits R (xs @ ys) i = region_bits R xs i"
    "i \<ge> k \<Longrightarrow> region_bits R (xs @ ys) i = region_bits R ys (i - k)"
proof -
  assume "i < k"
  then have "i * R + R \<le> length xs" using assms mult_le_mono1 [of "Suc i" k R] by simp
  then show "region_bits R (xs @ ys) i = region_bits R xs i" by (simp add: region_bits_def slice_append_left)
next
  assume "i \<ge> k"
  then have "i * R = k * R + (i - k) * R" by (metis add_mult_distrib le_add_diff_inverse)
  then show "region_bits R (xs @ ys) i = region_bits R ys (i - k)"
    using assms by (simp add: region_bits_def slice_def)
qed

lemma region_bits_replicate:
  assumes "i * R + R \<le> m"
  shows "region_bits R (replicate m b) i = replicate R b"
proof -
  have "min R (m - i * R) = R" using assms by simp
  then show ?thesis by (simp add: region_bits_def slice_def)
qed

lemma gaps_match_extend:
  assumes m: "gaps_match R bits gaps" and R: "R < 2 ^ 15"
  shows "gaps_match R (bits @ replicate (k * R) False) (gaps @ replicate k (all_free (of_nat R)))"
proof -
  have len: "length bits = length gaps * R" using m by (simp add: gaps_match_def)
  have "gaps_ok (region_bits R (bits @ replicate (k * R) False) i) ((gaps @ replicate k (all_free (of_nat R))) ! i)"
    if i: "i < length gaps + k" for i
  proof (cases "i < length gaps")
    case True
    then show ?thesis using region_bits_append(1) [OF len True] gaps_matchD [OF m True] by (simp add: nth_append)
  next
    case False
    then have "i - length gaps < k" using i by simp
    then have "(i - length gaps) * R + R \<le> k * R" using mult_le_mono1 [of "Suc (i - length gaps)" k R] by simp
    then show ?thesis
      using False i region_bits_append(2) [OF len, of i] region_bits_replicate [of "i - length gaps" R "k * R" False]
        gaps_ok_all_free [OF R] by (simp add: nth_append)
  qed
  then show ?thesis using len by (simp add: gaps_match_def add_mult_distrib)
qed

lemma length_for_page_ok:
  assumes "config_ok c"
  shows "length_for_page c = Inr (page_blocks c div 8)" "page_blocks c div 8 * 8 = page_blocks c"
proof -
  show "length_for_page c = Inr (page_blocks c div 8)"
    using config_blocks(4) [OF assms] by (simp add: length_for_page_def page_blocks_def)
  have "8 dvd page_blocks c" using config_blocks(3) [OF assms] by (rule dvd_trans [rotated]) simp
  then show "page_blocks c div 8 * 8 = page_blocks c" by simp
qed

lemma bm_create_spec:
  assumes ok: "config_ok c"
  shows "\<exists>bm. bm_create c = Inr bm \<and> bm_ok bm \<and> bm_config bm = c \<and> bitslice bm = replicate (page_blocks c) False"
proof -
  let ?R = "region_size_blocks c"
  obtain k where k: "page_blocks c = k * ?R" using config_blocks(1) [OF ok] by (metis dvdE mult.commute)
  have R: "0 < ?R" "?R < 2 ^ 15" using ok by (simp_all add: config_ok_def)
  have "gaps_match ?R [] []" by (simp add: gaps_match_def)
  from gaps_match_extend [OF this R(2), of k]
  have "gaps_match ?R (replicate (page_blocks c) False) (replicate k (all_free (of_nat ?R)))" by (simp add: k)
  moreover have "page_blocks c div ?R = k" using k R(1) by simp
  ultimately show ?thesis
    using ok config_blocks(4) [OF ok] length_for_page_ok [OF ok] by (simp add: bm_create_def bm_ok_def Let_def)
qed

lemma cover_new_page_spec:
  assumes ok: "bm_ok bm"
  shows "\<exists>bm'. cover_new_page bm = Inr bm' \<and> bm_ok bm' \<and> bm_config bm' = bm_config bm \<and>
    bitslice bm' = bitslice bm @ replicate (page_blocks (bm_config bm)) False"
proof -
  note o = bm_okD [OF ok]
  let ?c = "bm_config bm" and ?R = "bm_R bm" and ?P = "page_blocks (bm_config bm)" and ?L = "length (bitslice bm)"
  obtain k where k: "?P = k * ?R" using config_blocks(1) [OF o(5)] by (metis dvdE mult.commute)
  have gl: "?L = length (regions_gaps bm) * ?R" using o(1) by (simp add: gaps_match_def)
  have "(8 :: nat) dvd 64" by simp
  then have "8 dvd ?L" using config_blocks(3) [OF o(5)] o(6) dvd_trans by blast
  then have nl: "(?L div 8 + ?P div 8) * 8 = ?L + ?P"
    using length_for_page_ok(2) [OF o(5)] by (simp add: add_mult_distrib)
  have nr: "(?L + ?P) div ?R - length (regions_gaps bm) = k"
    using gl k o(2) by (simp add: add_mult_distrib [symmetric])
  have m: "gaps_match ?R (bitslice bm @ replicate ?P False) (regions_gaps bm @ replicate k (all_free (of_nat ?R)))"
    using gaps_match_extend [OF o(1,3), of k] by (simp add: k)
  let ?bm = "bm\<lparr>bitslice := bitslice bm @ replicate ?P False,
    regions_gaps := regions_gaps bm @ replicate k (all_free (of_nat ?R))\<rparr>"
  have "gaps_extend (regions_gaps bm) (replicate k (all_free (of_nat ?R))) =
      regions_gaps bm @ replicate k (all_free (of_nat ?R))" by (simp add: gaps_extend_def)
  moreover have "(?L + ?P) mod ?R = 0" "(length (regions_gaps bm) + k) * ?R = ?L + ?P"
    using gl k by (simp_all add: add_mult_distrib)
  ultimately have "cover_new_page bm = Inr ?bm"
    using length_for_page_ok(1) [OF o(5)] nl nr by (simp add: cover_new_page_def Let_def)
  moreover have "bm_ok ?bm" using m o(5,6) by (simp add: bm_ok_def)
  ultimately show ?thesis by simp
qed

section \<open>Trailing free blocks\<close>

lemma zeros_run_full_iff: "zeros_run bs = length bs \<longleftrightarrow> True \<notin> set bs"
  unfolding zeros_run_def by (induction bs) auto

lemma trailing_free_prefix:
  assumes m: "gaps_match R bits gaps" and R: "R < 2 ^ 15" and k: "k \<le> length gaps"
  shows "gaps_trailing_free_blocks R (take k gaps) = zeros_run (rev (take (k * R) bits))"
  using k
proof (induction k)
  case 0
  then show ?case by (simp add: gaps_trailing_free_blocks_def zeros_run_def)
next
  case (Suc k)
  then have i: "k < length gaps" by simp
  let ?r = "region_bits R bits k"
  note g = gaps_matchD [OF m i]
  have len: "length ?r = R" by (rule length_region_bits [OF m i])
  have "take (Suc k * R) bits = take (k * R) bits @ ?r"
  proof -
    have "Suc k * R = k * R + R" by simp
    then show ?thesis by (simp only: take_add region_bits_def slice_def diff_add_inverse)
  qed
  then have split: "rev (take (Suc k * R) bits) = rev ?r @ rev (take (k * R) bits)" by simp
  have tr: "unat (gap_trailing (gaps ! k)) = zeros_run (rev ?r)" using g by (simp add: gaps_ok_def)
  have full: "gap_trailing (gaps ! k) = of_nat R \<longleftrightarrow> True \<notin> set ?r"
  proof -
    have "gap_trailing (gaps ! k) = of_nat R \<longleftrightarrow> zeros_run (rev ?r) = R"
      using R by (auto simp: word_unat_eq_iff tr unat_of_nat)
    also have "\<dots> \<longleftrightarrow> True \<notin> set ?r"
      using zeros_run_full_iff [of "rev ?r"] len by simp
    finally show ?thesis .
  qed
  have step: "gaps_trailing_free_blocks R (take (Suc k) gaps) = zeros_run (rev ?r) +
      (if gap_trailing (gaps ! k) = of_nat R then gaps_trailing_free_blocks R (take k gaps) else 0)"
    using i by (simp add: gaps_trailing_free_blocks_def take_Suc_conv_app_nth tr)
  show ?case
  proof (cases "True \<in> set ?r")
    case True
    then show ?thesis unfolding split zeros_run_append using step full by simp
  next
    case False
    then have "zeros_run (rev ?r) = R" using zeros_run_full_iff [of "rev ?r"] len by simp
    then show ?thesis unfolding split zeros_run_append using step full False Suc len by simp
  qed
qed

lemma trailing_free_blocks_spec:
  assumes "bm_ok bm"
  shows "bm_trailing_free_blocks bm = zeros_run (rev (bitslice bm))"
proof -
  note o = bm_okD [OF assms]
  have "length (regions_gaps bm) * bm_R bm = length (bitslice bm)" using o(1) by (simp add: gaps_match_def)
  then show ?thesis
    using trailing_free_prefix [OF o(1,3) le_refl] by (simp add: bm_trailing_free_blocks_def)
qed

end
