(* ===== verification/GridTracker.thy ===== *)
theory GridTracker
  imports GridBitmask
begin

text \<open>
  \<open>lib/gridstore/src/tracker.rs\<close>: where the value of every point is stored. The tracker file holds a
  header and one fixed slot per point; changes are kept as pending updates until a flush writes them
  and reports the pointers whose blocks can be freed. The storage backend is the file as bytes: it
  reads, writes and grows without errors; \<open>u32\<close> fields are natural numbers.
\<close>

section \<open>Pointers and their encoding\<close>

record value_pointer =
  vp_page_id :: nat
  vp_block_offset :: nat
  vp_length :: nat

definition value_pointer_new :: "nat \<Rightarrow> nat \<Rightarrow> nat \<Rightarrow> value_pointer" where
  "value_pointer_new page offset len = \<lparr>vp_page_id = page, vp_block_offset = offset, vp_length = len\<rparr>"

text \<open>\<open>Optional<ValuePointer>\<close>, its conversion from \<open>Option\<close>, and the bytes of both.\<close>

record optional_pointer =
  discriminant :: nat
  opt_value :: value_pointer

definition optional_none :: optional_pointer where
  "optional_none = \<lparr>discriminant = 0, opt_value = value_pointer_new 0 0 0\<rparr>"

definition optional_some :: "value_pointer \<Rightarrow> optional_pointer" where
  "optional_some p = \<lparr>discriminant = 1, opt_value = p\<rparr>"

definition optional_of :: "value_pointer option \<Rightarrow> optional_pointer" where
  "optional_of x = (case x of Some p \<Rightarrow> optional_some p | None \<Rightarrow> optional_none)"

definition optional_is_some :: "optional_pointer \<Rightarrow> value_pointer option" where
  "optional_is_some x = (if discriminant x = 0 then None else Some (opt_value x))"

definition slot_bytes :: "optional_pointer \<Rightarrow> u8 list" where
  "slot_bytes x = le_bytes 4 (discriminant x) @ le_bytes 4 (vp_page_id (opt_value x)) @
     le_bytes 4 (vp_block_offset (opt_value x)) @ le_bytes 4 (vp_length (opt_value x))"

definition slot_of_bytes :: "u8 list \<Rightarrow> optional_pointer" where
  "slot_of_bytes bs = \<lparr>discriminant = le_value (take 4 bs),
     opt_value = value_pointer_new (le_value (take 4 (drop 4 bs))) (le_value (take 4 (drop 8 bs)))
       (le_value (take 4 (drop 12 bs)))\<rparr>"

section \<open>Pending updates\<close>

record pointer_updates =
  pu_current :: "value_pointer option"
  pu_to_free :: "value_pointer list"

definition pu_default :: pointer_updates where
  "pu_default = \<lparr>pu_current = None, pu_to_free = []\<rparr>"

definition pu_set :: "pointer_updates \<Rightarrow> value_pointer \<Rightarrow> pointer_updates" where
  "pu_set u p =
     (if pu_current u = Some p then u
      else (case pu_current u of
              Some old \<Rightarrow> u\<lparr>pu_current := Some p, pu_to_free := pu_to_free u @ [old]\<rparr>
            | None \<Rightarrow> u\<lparr>pu_current := Some p\<rparr>))"

definition pu_unset :: "pointer_updates \<Rightarrow> value_pointer \<Rightarrow> pointer_updates" where
  "pu_unset u p =
     (let freed = (case pu_current u of
                     Some old \<Rightarrow> if old \<noteq> p then pu_to_free u @ [old] else pu_to_free u
                   | None \<Rightarrow> pu_to_free u)
      in \<lparr>pu_current = None, pu_to_free = freed @ [p]\<rparr>)"

definition pu_is_empty :: "pointer_updates \<Rightarrow> bool" where
  "pu_is_empty u \<longleftrightarrow> pu_current u = None \<and> pu_to_free u = []"

definition drain_persisted :: "pointer_updates \<Rightarrow> pointer_updates \<Rightarrow> pointer_updates \<times> bool" where
  "drain_persisted u persisted =
     (if u = persisted then (pu_default, True)
      else (let current = (if pu_current u \<noteq> None \<and> pu_current u = pu_current persisted
                           then None else pu_current u);
                u1 = \<lparr>pu_current = current,
                      pu_to_free = filter (\<lambda>p. p \<notin> set (pu_to_free persisted)) (pu_to_free u)\<rparr>
            in (u1, pu_is_empty u1)))"

section \<open>The tracker\<close>

record tracker =
  t_header :: nat
  t_storage :: "u8 list"
  pending_updates :: "(nat, pointer_updates) hashmap"
  next_pointer_offset :: nat

definition HEADER_SIZE :: nat where "HEADER_SIZE = 4"
definition SLOT_SIZE :: nat where "SLOT_SIZE = 16"
definition TRACKER_DEFAULT_SIZE :: nat where "TRACKER_DEFAULT_SIZE = 1024 * 1024"

text \<open>\<open>usize::next_power_of_two\<close>.\<close>

function power_from :: "nat \<Rightarrow> nat \<Rightarrow> nat" where
  "power_from p n = (if p = 0 \<or> n \<le> p then p else power_from (2 * p) n)"
  by pat_completeness auto
termination by (relation "measure (\<lambda>(p, n). n - p)") auto

declare power_from.simps [simp del]

definition next_power_of_two :: "nat \<Rightarrow> nat" where
  "next_power_of_two n = power_from 1 n"

definition write_header :: "tracker \<Rightarrow> tracker" where
  "write_header t = t\<lparr>t_storage := blit 0 (le_bytes 4 (t_header t)) (t_storage t)\<rparr>"

definition tracker_new :: "nat option \<Rightarrow> (grid_error, tracker) result" where
  "tracker_new size_hint =
     (let sz = next_power_of_two (unwrap_or size_hint TRACKER_DEFAULT_SIZE) in
      if sz \<le> HEADER_SIZE then Inl GridPanic
      else Inr (write_header \<lparr>t_header = 0, t_storage = replicate sz 0, pending_updates = [],
             next_pointer_offset = 0\<rparr>))"

definition read_header :: "u8 list \<Rightarrow> (grid_error, nat) result" where
  "read_header file =
     (if length file < HEADER_SIZE then Inl (ServiceError ''read out of range'')
      else Inr (le_value (take 4 file)))"

text \<open>Opening: \<open>None\<close> is a missing file.\<close>

definition tracker_open :: "u8 list option \<Rightarrow> (grid_error, tracker) result" where
  "tracker_open file =
     (case file of
        None \<Rightarrow> Inl (ServiceError ''Tracker file does not exist'')
      | Some bs \<Rightarrow> and_then (read_header bs) (\<lambda>h.
          Inr \<lparr>t_header = h, t_storage = bs, pending_updates = [], next_pointer_offset = h\<rparr>))"

text \<open>\<open>live_reload\<close> of a read-only tracker; \<open>file\<close> is what the file holds by now.\<close>

definition tracker_live_reload :: "tracker \<Rightarrow> u8 list \<Rightarrow> (grid_error, tracker \<times> bool) result" where
  "tracker_live_reload t file =
     and_then (read_header file) (\<lambda>h.
       if h < next_pointer_offset t then
         Inl (ServiceError ''live reload cannot decrease pointer count, possible data loss'')
       else if h = next_pointer_offset t then Inr (t, False)
       else Inr (t\<lparr>t_storage := file, t_header := h, next_pointer_offset := h\<rparr>, True))"

definition get_raw :: "tracker \<Rightarrow> nat \<Rightarrow> value_pointer option option" where
  "get_raw t off =
     (let start_offset = HEADER_SIZE + off * SLOT_SIZE; end_offset = start_offset + SLOT_SIZE in
      if length (t_storage t) < end_offset then None
      else Some (optional_is_some (slot_of_bytes (slice (t_storage t) start_offset end_offset))))"

definition tracker_get :: "tracker \<Rightarrow> nat \<Rightarrow> value_pointer option" where
  "tracker_get t off =
     (case map_of (pending_updates t) off of
        Some pending \<Rightarrow>
          if pu_is_empty pending then Option.bind (get_raw t off) (\<lambda>o'. o') else pu_current pending
      | None \<Rightarrow> Option.bind (get_raw t off) (\<lambda>o'. o'))"

definition iter_pointers :: "tracker \<Rightarrow> nat \<Rightarrow> nat \<Rightarrow> (nat \<times> value_pointer option) list" where
  "iter_pointers t from_offset mx =
     map (\<lambda>i. (i, tracker_get t i)) [from_offset..<min (next_pointer_offset t) (min (mx + 1) (2 ^ 32 - 1))]"

definition has_pointer :: "tracker \<Rightarrow> nat \<Rightarrow> bool" where
  "has_pointer t off \<longleftrightarrow> tracker_get t off \<noteq> None"

definition persist_pointer :: "tracker \<Rightarrow> nat \<Rightarrow> value_pointer option \<Rightarrow> tracker" where
  "persist_pointer t off p =
     (let storage_len = length (t_storage t) in
      if p = None \<and> storage_len \<le> off then t
      else (let start_offset = HEADER_SIZE + off * SLOT_SIZE; end_offset = start_offset + SLOT_SIZE;
                file = (if storage_len < end_offset
                        then t_storage t @ replicate (next_power_of_two end_offset - storage_len) 0
                        else t_storage t)
            in t\<lparr>t_storage := blit start_offset (slot_bytes (optional_of p)) file\<rparr>))"

definition write_pointer_count :: "tracker \<Rightarrow> tracker" where
  "write_pointer_count t = write_header (t\<lparr>t_header := next_pointer_offset t\<rparr>)"

text \<open>One iteration of \<open>write_pending\<close>, and the loop in the order of the map.\<close>

definition write_update :: "tracker \<times> value_pointer list \<Rightarrow> nat \<times> pointer_updates \<Rightarrow> tracker \<times> value_pointer list" where
  "write_update s u =
     (let (t, old) = s; (off, updates) = u;
          (t1, old1) =
            (case pu_current updates of
               Some new \<Rightarrow>
                 (persist_pointer t off (Some new),
                  case get_raw t off of Some (Some old_pointer) \<Rightarrow> old @ [old_pointer] | _ \<Rightarrow> old)
             | None \<Rightarrow> (persist_pointer t off None, old));
          old2 = old1 @ pu_to_free updates
      in case map_of (pending_updates t1) off of
           None \<Rightarrow> (t1, old2)
         | Some latest \<Rightarrow>
             (case drain_persisted latest updates of (latest1, drained) \<Rightarrow>
               (t1\<lparr>pending_updates :=
                  (if drained then AList.delete off (pending_updates t1)
                   else AList.update off latest1 (pending_updates t1))\<rparr>, old2)))"

definition write_pending :: "tracker \<Rightarrow> (nat, pointer_updates) hashmap \<Rightarrow> tracker \<times> value_pointer list" where
  "write_pending t updates =
     (case foldl write_update (t, []) updates of (t1, old) \<Rightarrow> (write_pointer_count t1, old))"

definition pending_of :: "tracker \<Rightarrow> nat \<Rightarrow> pointer_updates" where
  "pending_of t off = (case map_of (pending_updates t) off of Some u \<Rightarrow> u | None \<Rightarrow> pu_default)"

definition tracker_set :: "tracker \<Rightarrow> nat \<Rightarrow> value_pointer \<Rightarrow> tracker" where
  "tracker_set t off p =
     t\<lparr>pending_updates := AList.update off (pu_set (pending_of t off) p) (pending_updates t),
       next_pointer_offset := max (next_pointer_offset t) (off + 1)\<rparr>"

definition tracker_unset :: "tracker \<Rightarrow> nat \<Rightarrow> tracker \<times> value_pointer option" where
  "tracker_unset t off =
     (case tracker_get t off of
        Some p \<Rightarrow> (t\<lparr>pending_updates := AList.update off (pu_unset (pending_of t off) p) (pending_updates t)\<rparr>, Some p)
      | None \<Rightarrow> (t, None))"

section \<open>Reading back what was written\<close>

definition pointer_ok :: "value_pointer \<Rightarrow> bool" where
  "pointer_ok p \<longleftrightarrow> vp_page_id p < 2 ^ 32 \<and> vp_block_offset p < 2 ^ 32 \<and> vp_length p < 2 ^ 32"

lemma length_slot_bytes [simp]: "length (slot_bytes x) = SLOT_SIZE"
  by (simp add: slot_bytes_def SLOT_SIZE_def)

lemma slot_roundtrip:
  assumes "\<And>p. x = Some p \<Longrightarrow> pointer_ok p"
  shows "optional_is_some (slot_of_bytes (slot_bytes (optional_of x))) = x"
proof (cases x)
  case None
  have "le_value (le_bytes 4 0) = 0" by (rule le_value_le_bytes) simp
  then show ?thesis using None
    by (simp add: optional_of_def optional_none_def slot_bytes_def slot_of_bytes_def optional_is_some_def)
next
  case (Some p)
  have "le_value (le_bytes 4 v) = v" if "v < 2 ^ 32" for v by (rule le_value_le_bytes) (use that in simp)
  moreover have "pointer_ok p" using assms Some by simp
  ultimately show ?thesis using Some
    by (simp add: optional_of_def optional_some_def slot_bytes_def slot_of_bytes_def optional_is_some_def
        value_pointer_new_def pointer_ok_def)
qed

lemma power_from_ge:
  assumes "0 < p"
  shows "n \<le> power_from p n"
  using assms by (induction p n rule: power_from.induct) (subst power_from.simps, auto)

lemma next_power_of_two_ge: "n \<le> next_power_of_two n"
  unfolding next_power_of_two_def by (rule power_from_ge) simp

text \<open>Slots of the file are disjoint ranges.\<close>

lemma slot_apart:
  assumes "i \<noteq> j"
  shows "HEADER_SIZE + i * SLOT_SIZE + SLOT_SIZE \<le> HEADER_SIZE + j * SLOT_SIZE \<or>
    HEADER_SIZE + j * SLOT_SIZE + SLOT_SIZE \<le> HEADER_SIZE + i * SLOT_SIZE"
proof (cases "i < j")
  case True
  then show ?thesis using mult_le_mono1 [of "Suc i" j SLOT_SIZE] by simp
next
  case False
  then have "j < i" using assms by simp
  then show ?thesis using mult_le_mono1 [of "Suc j" i SLOT_SIZE] by simp
qed

lemma slice_blit_after:
  assumes "off + length bs \<le> a" "off + length bs \<le> length m"
  shows "slice (blit off bs m) a b = slice m a b"
proof -
  have "drop a (blit off bs m) = drop a m"
    using assms by (simp add: blit_def)
  then show ?thesis by (simp add: slice_def)
qed

lemma slice_blit_exact: "off + length bs \<le> length m \<Longrightarrow> slice (blit off bs m) off (off + length bs) = bs"
  using slice_blit_inside [of off bs m 0 "length bs"] by simp

lemma le_value_zeros [simp]: "le_value (replicate k 0) = 0"
  by (induction k) simp_all

text \<open>Persisting a pointer changes its own slot. Slots the file did not hold read as absent, whether the
  file has grown over them or not.\<close>

definition raw_pointer :: "tracker \<Rightarrow> nat \<Rightarrow> value_pointer option" where
  "raw_pointer t off = Option.bind (get_raw t off) (\<lambda>o'. o')"

text \<open>The file ends with whole slots or with zeros: no slot is cut in the middle of data.\<close>

definition file_ok :: "tracker \<Rightarrow> bool" where
  "file_ok t \<longleftrightarrow> HEADER_SIZE \<le> length (t_storage t) \<and>
     (\<forall>off. length (t_storage t) < HEADER_SIZE + off * SLOT_SIZE + SLOT_SIZE \<longrightarrow>
        (\<forall>i. HEADER_SIZE + off * SLOT_SIZE \<le> i \<and> i < length (t_storage t) \<longrightarrow> t_storage t ! i = 0))"

lemma pending_persist [simp]: "pending_updates (persist_pointer t off p) = pending_updates t"
  "next_pointer_offset (persist_pointer t off p) = next_pointer_offset t"
  by (simp_all add: persist_pointer_def Let_def)

lemma optional_zero: "optional_is_some (slot_of_bytes (replicate SLOT_SIZE 0)) = None"
proof -
  have "take 4 (replicate SLOT_SIZE 0) = (replicate 4 0 :: u8 list)"
    by (simp only: take_replicate SLOT_SIZE_def) simp
  then show ?thesis by (simp only: optional_is_some_def slot_of_bytes_def optional_pointer.simps le_value_zeros simp_thms if_True)
qed

text \<open>Growing the file does not change any pointer.\<close>

lemma raw_pointer_grow:
  fixes k :: nat
  assumes ok: "file_ok t"
  defines "t' \<equiv> t\<lparr>t_storage := t_storage t @ replicate k 0\<rparr>"
  shows "raw_pointer t' off = raw_pointer t off" "file_ok t'"
proof -
  let ?a = "HEADER_SIZE + off * SLOT_SIZE" and ?m = "t_storage t"
  show "raw_pointer t' off = raw_pointer t off"
  proof (cases "?a + SLOT_SIZE \<le> length ?m")
    case True
    then show ?thesis by (simp add: raw_pointer_def get_raw_def t'_def Let_def slice_append_left)
  next
    case False
    have z: "?m ! i = 0" if "?a \<le> i" "i < length ?m" for i
      using ok False that unfolding file_ok_def by (meson not_le)
    have "raw_pointer t' off = None"
    proof (cases "?a + SLOT_SIZE \<le> length ?m + k")
      case True
      have "slice (?m @ replicate k 0) ?a (?a + SLOT_SIZE) = replicate SLOT_SIZE 0"
      proof (rule nth_equalityI)
        fix i assume "i < length (slice (?m @ replicate k 0) ?a (?a + SLOT_SIZE))"
        then have i: "i < SLOT_SIZE" using True by simp
        then have "slice (?m @ replicate k 0) ?a (?a + SLOT_SIZE) ! i = (?m @ replicate k 0) ! (?a + i)"
          using True by (intro nth_slice) auto
        also have "\<dots> = 0" using z [of "?a + i"] i True by (simp add: nth_append)
        finally show "slice (?m @ replicate k 0) ?a (?a + SLOT_SIZE) ! i = replicate SLOT_SIZE 0 ! i" using i by simp
      qed (use True in simp)
      then show ?thesis using True optional_zero
        by (simp add: raw_pointer_def get_raw_def t'_def Let_def)
    next
      case False
      then show ?thesis by (simp add: raw_pointer_def get_raw_def t'_def Let_def)
    qed
    moreover have "raw_pointer t off = None" using False by (simp add: raw_pointer_def get_raw_def Let_def)
    ultimately show ?thesis by simp
  qed
  have "(?m @ replicate k 0) ! i = 0" if j: "length ?m + k < HEADER_SIZE + j * SLOT_SIZE + SLOT_SIZE"
    and i: "HEADER_SIZE + j * SLOT_SIZE \<le> i" "i < length ?m + k" for i j
  proof (cases "i < length ?m")
    case True
    have "length ?m < HEADER_SIZE + j * SLOT_SIZE + SLOT_SIZE" using j by simp
    then have "?m ! i = 0" using ok i(1) True unfolding file_ok_def by blast
    then show ?thesis using True by (simp add: nth_append)
  next
    case False
    then show ?thesis using i by (simp add: nth_append)
  qed
  then show "file_ok t'" using ok by (simp add: file_ok_def t'_def)
qed

lemma nth_blit_after:
  assumes "off + length bs \<le> i" "i < length m"
  shows "blit off bs m ! i = m ! i"
proof -
  have "blit off bs m = (take off m @ bs) @ drop (off + length bs) m" by (simp add: blit_def)
  also have "\<dots> ! i = drop (off + length bs) m ! (i - (off + length bs))"
    by (subst nth_append) (use assms in auto)
  also have "\<dots> = m ! i" using assms by simp
  finally show ?thesis .
qed

lemma raw_pointer_blit:
  assumes ok: "file_ok t" and x: "\<And>p. x = Some p \<Longrightarrow> pointer_ok p"
    and le: "HEADER_SIZE + off * SLOT_SIZE + SLOT_SIZE \<le> length (t_storage t)"
  defines "t' \<equiv> t\<lparr>t_storage := blit (HEADER_SIZE + off * SLOT_SIZE) (slot_bytes (optional_of x)) (t_storage t)\<rparr>"
  shows "raw_pointer t' j = (if j = off then x else raw_pointer t j)" "file_ok t'"
proof -
  let ?a = "\<lambda>j. HEADER_SIZE + j * SLOT_SIZE" and ?m = "t_storage t" and ?bs = "slot_bytes (optional_of x)"
  have len: "length (t_storage t') = length ?m" using le by (simp add: t'_def)
  show "raw_pointer t' j = (if j = off then x else raw_pointer t j)"
  proof (cases "?a j + SLOT_SIZE \<le> length ?m")
    case False
    then show ?thesis using le len by (auto simp: raw_pointer_def get_raw_def Let_def)
  next
    case True
    have "slice (blit (?a off) ?bs ?m) (?a j) (?a j + SLOT_SIZE) =
        (if j = off then ?bs else slice ?m (?a j) (?a j + SLOT_SIZE))"
    proof (cases "j = off")
      case eq: True
      have "slice (blit (?a off) ?bs ?m) (?a off) (?a off + length ?bs) = ?bs"
        by (rule slice_blit_exact) (use le in simp)
      then show ?thesis using eq by simp
    next
      case False
      from slot_apart [OF this] show ?thesis
      proof
        assume a: "?a j + SLOT_SIZE \<le> ?a off"
        have "slice (blit (?a off) ?bs ?m) (?a j) (?a j + SLOT_SIZE) = slice ?m (?a j) (?a j + SLOT_SIZE)"
          by (rule slice_blit_before) (use a le in auto)
        then show ?thesis using False by simp
      next
        assume a: "?a off + SLOT_SIZE \<le> ?a j"
        have "slice (blit (?a off) ?bs ?m) (?a j) (?a j + SLOT_SIZE) = slice ?m (?a j) (?a j + SLOT_SIZE)"
          by (rule slice_blit_after) (use a le in auto)
        then show ?thesis using False by simp
      qed
    qed
    then show ?thesis using True len slot_roundtrip [OF x]
      by (simp add: raw_pointer_def get_raw_def Let_def t'_def)
  qed
  have "t_storage t' ! i = 0"
    if j: "length ?m < ?a j + SLOT_SIZE" and i: "?a j \<le> i" "i < length ?m" for j i
  proof -
    have "j \<noteq> off" using j le by auto
    then have "?a off + SLOT_SIZE \<le> ?a j" using slot_apart [of off j] j le by auto
    then have "t_storage t' ! i = ?m ! i" using i nth_blit_after [of "?a off" ?bs i ?m] by (simp add: t'_def)
    then show ?thesis using ok j i by (simp add: file_ok_def)
  qed
  then show "file_ok t'" using ok unfolding file_ok_def len by blast
qed

lemma persist_pointer_spec:
  assumes ok: "file_ok t" and x: "\<And>p. x = Some p \<Longrightarrow> pointer_ok p"
  shows "raw_pointer (persist_pointer t off x) j = (if j = off then x else raw_pointer t j)"
    "file_ok (persist_pointer t off x)"
proof -
  let ?e = "HEADER_SIZE + off * SLOT_SIZE + SLOT_SIZE" and ?m = "t_storage t"
  let ?k = "if length ?m < ?e then next_power_of_two ?e - length ?m else 0"
  let ?t = "t\<lparr>t_storage := ?m @ replicate ?k 0\<rparr>"
  have le: "?e \<le> length (t_storage ?t)" using next_power_of_two_ge [of ?e] by auto
  note g = raw_pointer_grow [OF ok, of ?k]
  note b = raw_pointer_blit [where x = x, OF g(2) x le]
  have "raw_pointer (persist_pointer t off x) j = (if j = off then x else raw_pointer t j) \<and>
      file_ok (persist_pointer t off x)"
  proof (cases "x = None \<and> length ?m \<le> off")
    case True
    then have p: "persist_pointer t off x = t" by (simp add: persist_pointer_def Let_def)
    have "length ?m < ?e" using True by (simp add: SLOT_SIZE_def)
    then have "raw_pointer t off = None" by (simp add: raw_pointer_def get_raw_def Let_def)
    then show ?thesis using True p ok by simp
  next
    case False
    then have p: "persist_pointer t off x = ?t\<lparr>t_storage :=
        blit (HEADER_SIZE + off * SLOT_SIZE) (slot_bytes (optional_of x)) (t_storage ?t)\<rparr>"
      by (cases x) (simp_all add: persist_pointer_def Let_def)
    show ?thesis unfolding p using b(2) by (simp only: b(1) g(1) simp_thms)
  qed
  then show "raw_pointer (persist_pointer t off x) j = (if j = off then x else raw_pointer t j)"
    "file_ok (persist_pointer t off x)" by blast+
qed

text \<open>The header and the slots do not overlap.\<close>

lemma write_header_spec:
  assumes "file_ok t"
  shows "raw_pointer (write_header t) j = raw_pointer t j" "file_ok (write_header t)"
    "pending_updates (write_header t) = pending_updates t"
    "next_pointer_offset (write_header t) = next_pointer_offset t"
proof -
  let ?m = "t_storage t" and ?bs = "le_bytes 4 (t_header t)"
  have l: "0 + length ?bs \<le> length ?m" using assms by (simp add: file_ok_def HEADER_SIZE_def)
  have "slice (blit 0 ?bs ?m) (HEADER_SIZE + j * SLOT_SIZE) b = slice ?m (HEADER_SIZE + j * SLOT_SIZE) b" for b
    by (rule slice_blit_after) (use l in \<open>auto simp: HEADER_SIZE_def\<close>)
  then show "raw_pointer (write_header t) j = raw_pointer t j"
    using l by (simp add: raw_pointer_def get_raw_def write_header_def Let_def)
  have "blit 0 ?bs ?m ! i = ?m ! i" if "HEADER_SIZE + off * SLOT_SIZE \<le> i" "i < length ?m" for off i
    by (rule nth_blit_after) (use that in \<open>auto simp: HEADER_SIZE_def\<close>)
  then show "file_ok (write_header t)"
    using assms l by (auto simp: file_ok_def write_header_def)
qed (simp_all add: write_header_def)

lemma header_roundtrip:
  assumes "file_ok t" "t_header t < 2 ^ 32"
  shows "read_header (t_storage (write_header t)) = Inr (t_header t)"
proof -
  have l: "4 \<le> length (t_storage t)" using assms(1) by (simp add: file_ok_def HEADER_SIZE_def)
  have "take 4 (blit 0 (le_bytes 4 (t_header t)) (t_storage t)) = le_bytes 4 (t_header t)" by (simp add: blit_def)
  moreover have "le_value (le_bytes 4 (t_header t)) = t_header t" by (rule le_value_le_bytes) (use assms(2) in simp)
  ultimately show ?thesis using l by (simp add: read_header_def write_header_def HEADER_SIZE_def)
qed

section \<open>Flushing\<close>

lemma tracker_get_raw: "tracker_get t off = (case map_of (pending_updates t) off of
    Some u \<Rightarrow> if pu_is_empty u then raw_pointer t off else pu_current u | None \<Rightarrow> raw_pointer t off)"
  by (simp add: tracker_get_def raw_pointer_def split: option.split)

text \<open>The pointers one update of a flush releases, and what it leaves pending.\<close>

definition released :: "tracker \<Rightarrow> nat \<Rightarrow> pointer_updates \<Rightarrow> value_pointer list" where
  "released t off u = (case (pu_current u, raw_pointer t off) of (Some _, Some p) \<Rightarrow> [p] | _ \<Rightarrow> []) @ pu_to_free u"

definition left_pending :: "pointer_updates option \<Rightarrow> pointer_updates \<Rightarrow> pointer_updates option" where
  "left_pending latest u = (case latest of None \<Rightarrow> None | Some l \<Rightarrow>
     (case drain_persisted l u of (l1, drained) \<Rightarrow> if drained then None else Some l1))"

lemma raw_pointer_frame [simp]:
  "raw_pointer (t\<lparr>pending_updates := x\<rparr>) j = raw_pointer t j" "file_ok (t\<lparr>pending_updates := x\<rparr>) = file_ok t"
  "raw_pointer (t\<lparr>next_pointer_offset := n\<rparr>) j = raw_pointer t j" "file_ok (t\<lparr>next_pointer_offset := n\<rparr>) = file_ok t"
  "raw_pointer (t\<lparr>t_header := n\<rparr>) j = raw_pointer t j" "file_ok (t\<lparr>t_header := n\<rparr>) = file_ok t"
  by (simp_all add: raw_pointer_def get_raw_def file_ok_def Let_def)

lemma write_update_spec:
  assumes ok: "file_ok t" "hm_wf (pending_updates t)" and u: "\<And>p. pu_current u = Some p \<Longrightarrow> pointer_ok p"
  obtains t' where "write_update (t, old) (off, u) = (t', old @ released t off u)" "file_ok t'"
    "\<And>j. raw_pointer t' j = (if j = off then pu_current u else raw_pointer t j)"
    "map_of (pending_updates t') =
       (map_of (pending_updates t))(off := left_pending (map_of (pending_updates t) off) u)"
    "hm_wf (pending_updates t')" "next_pointer_offset t' = next_pointer_offset t"
proof -
  let ?t1 = "persist_pointer t off (pu_current u)"
  have r: "get_raw t off = None \<Longrightarrow> raw_pointer t off = None" "get_raw t off = Some x \<Longrightarrow> raw_pointer t off = x" for x
    by (simp_all add: raw_pointer_def)
  have old: "(case pu_current u of
      Some new \<Rightarrow> (persist_pointer t off (Some new),
                  case get_raw t off of Some (Some q) \<Rightarrow> old @ [q] | _ \<Rightarrow> old)
    | None \<Rightarrow> (persist_pointer t off None, old)) =
      (?t1, old @ (case (pu_current u, raw_pointer t off) of (Some _, Some p) \<Rightarrow> [p] | _ \<Rightarrow> []))"
    by (cases "pu_current u"; cases "get_raw t off") (auto simp: r split: option.split)
  define pend where "pend = (case map_of (pending_updates t) off of
      None \<Rightarrow> pending_updates t
    | Some l \<Rightarrow> (case drain_persisted l u of (l1, drained) \<Rightarrow>
        if drained then AList.delete off (pending_updates t) else AList.update off l1 (pending_updates t)))"
  let ?t' = "?t1\<lparr>pending_updates := pend\<rparr>"
  have "write_update (t, old) (off, u) = (?t', old @ released t off u)"
    unfolding write_update_def Let_def prod.case old
    by (cases "map_of (pending_updates t) off") (auto simp: pend_def released_def split: prod.split)
  moreover have "map_of pend = (map_of (pending_updates t))(off := left_pending (map_of (pending_updates t) off) u)"
    by (auto simp: pend_def left_pending_def hashmap_simps fun_eq_iff split: option.split prod.split)
  moreover have "hm_wf pend"
    using ok(2) by (auto simp: pend_def split: option.split prod.split)
  moreover have "raw_pointer ?t' j = (if j = off then pu_current u else raw_pointer t j)" for j
    using persist_pointer_spec(1) [where x = "pu_current u", OF ok(1) u] by simp
  moreover have "file_ok ?t'"
    using persist_pointer_spec(2) [where x = "pu_current u", OF ok(1) u] by simp
  ultimately show ?thesis by (intro that [of ?t']) simp_all
qed

lemma write_updates_spec:
  assumes "file_ok t" "hm_wf (pending_updates t)" "hm_wf U"
    "\<forall>x \<in> set U. \<forall>p. pu_current (snd x) = Some p \<longrightarrow> pointer_ok p"
  shows "\<exists>t'. foldl write_update (t, old) U = (t', old @ concat (map (\<lambda>(off, u). released t off u) U)) \<and>
    file_ok t' \<and> hm_wf (pending_updates t') \<and> next_pointer_offset t' = next_pointer_offset t \<and>
    (\<forall>j. raw_pointer t' j = (case map_of U j of Some u \<Rightarrow> pu_current u | None \<Rightarrow> raw_pointer t j)) \<and>
    (\<forall>j. map_of (pending_updates t') j = (case map_of U j of
       Some u \<Rightarrow> left_pending (map_of (pending_updates t) j) u | None \<Rightarrow> map_of (pending_updates t) j))"
  using assms
proof (induction U arbitrary: t old)
  case Nil
  then show ?case by simp
next
  case (Cons x U)
  obtain off u where x: "x = (off, u)" by (cases x)
  have nk: "map_of U off = None" using Cons.prems(3) x by (simp add: map_of_eq_None_iff)
  have "\<And>p. pu_current u = Some p \<Longrightarrow> pointer_ok p" using Cons.prems(4) x by simp
  from write_update_spec [OF Cons.prems(1,2) this, where off = off and old = old]
  obtain t1 where t1: "write_update (t, old) (off, u) = (t1, old @ released t off u)" "file_ok t1"
    "\<And>j. raw_pointer t1 j = (if j = off then pu_current u else raw_pointer t j)"
    "map_of (pending_updates t1) =
       (map_of (pending_updates t))(off := left_pending (map_of (pending_updates t) off) u)"
    "hm_wf (pending_updates t1)" "next_pointer_offset t1 = next_pointer_offset t"
    by metis
  have "hm_wf U" using Cons.prems(3) by simp
  from Cons.IH [OF t1(2,5) this, where old = "old @ released t off u"] Cons.prems(4)
  obtain t' where t': "foldl write_update (t1, old @ released t off u) U =
      (t', (old @ released t off u) @ concat (map (\<lambda>(off, u). released t1 off u) U))"
    "file_ok t'" "hm_wf (pending_updates t')" "next_pointer_offset t' = next_pointer_offset t1"
    "\<forall>j. raw_pointer t' j = (case map_of U j of Some u \<Rightarrow> pu_current u | None \<Rightarrow> raw_pointer t1 j)"
    "\<forall>j. map_of (pending_updates t') j = (case map_of U j of
       Some u \<Rightarrow> left_pending (map_of (pending_updates t1) j) u | None \<Rightarrow> map_of (pending_updates t1) j)"
    by (metis (no_types, lifting) list.set_intros(2))
  have "released t1 o' u' = released t o' u'" if "(o', u') \<in> set U" for o' u'
  proof -
    have "o' \<noteq> off" using that nk by (force simp: map_of_eq_None_iff)
    then show ?thesis by (simp add: released_def t1(3))
  qed
  then have same: "map (\<lambda>(off, u). released t1 off u) U = map (\<lambda>(off, u). released t off u) U" by auto
  have "foldl write_update (t, old) (x # U) =
      (t', old @ concat (map (\<lambda>(off, u). released t off u) (x # U)))"
    using t1(1) t'(1) x unfolding same by simp
  moreover have "raw_pointer t' j = (case map_of (x # U) j of Some u \<Rightarrow> pu_current u | None \<Rightarrow> raw_pointer t j)" for j
    using t'(5) t1(3) nk x by (cases "j = off") (auto split: option.split)
  moreover have "map_of (pending_updates t') j = (case map_of (x # U) j of
       Some u \<Rightarrow> left_pending (map_of (pending_updates t) j) u | None \<Rightarrow> map_of (pending_updates t) j)" for j
    using t'(6) t1(4) nk x by (cases "j = off") (auto split: option.split)
  ultimately show ?case using t'(2-4) t1(6) by simp
qed

text \<open>How the pending updates of a point can have changed since they were captured for a flush: new
  pointers, never seen before for this point, are set, and the current pointer is unset.\<close>

inductive evolves :: "pointer_updates \<Rightarrow> pointer_updates \<Rightarrow> bool" for u0 where
  captured: "evolves u0 u0"
| set: "evolves u0 u \<Longrightarrow> pu_current u \<noteq> Some p \<Longrightarrow> p \<notin> set (pu_to_free u) \<Longrightarrow> evolves u0 (pu_set u p)"
| unset: "evolves u0 u \<Longrightarrow> pu_current u = Some p \<Longrightarrow> evolves u0 (pu_unset u p)"

definition pu_ok :: "pointer_updates \<Rightarrow> bool" where
  "pu_ok u \<longleftrightarrow> \<not> pu_is_empty u \<and> (\<forall>p. pu_current u = Some p \<longrightarrow> p \<notin> set (pu_to_free u) \<and> pointer_ok p)"

lemma evolves_inv:
  assumes "evolves u0 u" and ok: "pu_ok u0"
  shows "u = u0 \<or> (set (pu_to_free u0) \<subseteq> set (pu_to_free u) \<and>
    (\<forall>p. pu_current u0 = Some p \<longrightarrow> p \<in> set (pu_to_free u)) \<and>
    (\<forall>p. pu_current u = Some p \<longrightarrow> p \<notin> set (pu_to_free u)) \<and>
    (pu_current u = None \<longrightarrow> (\<exists>p \<in> set (pu_to_free u). p \<notin> set (pu_to_free u0))))"
  using assms(1)
proof induction
  case captured
  then show ?case by simp
next
  case (set u p)
  then show ?case by (auto simp: pu_set_def split: option.split)
next
  case (unset u p)
  from unset.IH show ?case
  proof
    assume "u = u0"
    then show ?thesis using ok unset.hyps by (auto simp: pu_unset_def pu_ok_def)
  next
    assume a: "set (pu_to_free u0) \<subseteq> set (pu_to_free u) \<and> (\<forall>p. pu_current u0 = Some p \<longrightarrow> p \<in> set (pu_to_free u)) \<and>
      (\<forall>p. pu_current u = Some p \<longrightarrow> p \<notin> set (pu_to_free u)) \<and>
      (pu_current u = None \<longrightarrow> (\<exists>p \<in> set (pu_to_free u). p \<notin> set (pu_to_free u0)))"
    then have "p \<notin> set (pu_to_free u0)" using unset.hyps(2) by blast
    then show ?thesis using a unset.hyps(2) by (auto simp: pu_unset_def)
  qed
qed

lemma left_pending_evolved:
  assumes "evolves u l" "pu_ok u"
  shows "left_pending (Some l) u = (if l = u then None else
    Some \<lparr>pu_current = pu_current l, pu_to_free = filter (\<lambda>p. p \<notin> set (pu_to_free u)) (pu_to_free l)\<rparr>)"
    and "l \<noteq> u \<Longrightarrow> pu_current l = None \<Longrightarrow> filter (\<lambda>p. p \<notin> set (pu_to_free u)) (pu_to_free l) \<noteq> []"
proof -
  show e: "filter (\<lambda>p. p \<notin> set (pu_to_free u)) (pu_to_free l) \<noteq> []" if "l \<noteq> u" "pu_current l = None"
    using evolves_inv [OF assms] that by (auto simp: filter_empty_conv)
  show "left_pending (Some l) u = (if l = u then None else
    Some \<lparr>pu_current = pu_current l, pu_to_free = filter (\<lambda>p. p \<notin> set (pu_to_free u)) (pu_to_free l)\<rparr>)"
  proof (cases "l = u")
    case True
    then show ?thesis by (simp add: left_pending_def drain_persisted_def)
  next
    case False
    have "\<not> (pu_current l \<noteq> None \<and> pu_current l = pu_current u)"
      using evolves_inv [OF assms] False by (metis not_None_eq)
    then have "drain_persisted l u = (\<lparr>pu_current = pu_current l,
        pu_to_free = filter (\<lambda>p. p \<notin> set (pu_to_free u)) (pu_to_free l)\<rparr>, False)"
      using False e [OF False] by (auto simp: drain_persisted_def pu_is_empty_def Let_def)
    then show ?thesis using False by (simp add: left_pending_def)
  qed
qed

lemma write_pending_spec:
  assumes "file_ok t" "hm_wf (pending_updates t)" "hm_wf U"
    "\<And>off u. map_of U off = Some u \<Longrightarrow> pu_ok u"
  defines "t' \<equiv> fst (write_pending t U)"
  shows "snd (write_pending t U) = concat (map (\<lambda>(off, u). released t off u) U)"
    and "file_ok t'" and "hm_wf (pending_updates t')" and "next_pointer_offset t' = next_pointer_offset t"
    and "raw_pointer t' j = (case map_of U j of Some u \<Rightarrow> pu_current u | None \<Rightarrow> raw_pointer t j)"
    and "map_of (pending_updates t') j = (case map_of U j of
       Some u \<Rightarrow> left_pending (map_of (pending_updates t) j) u | None \<Rightarrow> map_of (pending_updates t) j)"
proof -
  have "\<forall>x \<in> set U. \<forall>p. pu_current (snd x) = Some p \<longrightarrow> pointer_ok p"
  proof (intro ballI allI impI)
    fix x p assume x: "x \<in> set U" "pu_current (snd x) = Some p"
    have "map_of U (fst x) = Some (snd x)" using in_map_of [OF assms(3), of "fst x" "snd x"] x(1) by simp
    then have "pu_ok (snd x)" by (rule assms(4))
    then show "pointer_ok p" using x(2) by (simp add: pu_ok_def)
  qed
  from write_updates_spec [OF assms(1-3) this, where old = "[]"]
  obtain t1 where t1: "foldl write_update (t, []) U = (t1, concat (map (\<lambda>(off, u). released t off u) U))"
    "file_ok t1" "hm_wf (pending_updates t1)" "next_pointer_offset t1 = next_pointer_offset t"
    "\<forall>j. raw_pointer t1 j = (case map_of U j of Some u \<Rightarrow> pu_current u | None \<Rightarrow> raw_pointer t j)"
    "\<forall>j. map_of (pending_updates t1) j = (case map_of U j of
       Some u \<Rightarrow> left_pending (map_of (pending_updates t) j) u | None \<Rightarrow> map_of (pending_updates t) j)"
    unfolding append_Nil by blast
  have ok: "file_ok (t1\<lparr>t_header := next_pointer_offset t1\<rparr>)" using t1(2) by simp
  have t': "t' = write_header (t1\<lparr>t_header := next_pointer_offset t1\<rparr>)"
    by (simp add: t'_def write_pending_def t1(1) write_pointer_count_def)
  show "snd (write_pending t U) = concat (map (\<lambda>(off, u). released t off u) U)"
    by (simp add: write_pending_def t1(1))
  show "file_ok t'" unfolding t' by (rule write_header_spec(2) [OF ok])
  show "hm_wf (pending_updates t')" "next_pointer_offset t' = next_pointer_offset t"
    unfolding t' write_header_spec(3,4) [OF ok] using t1(3,4) by simp_all
  show "raw_pointer t' j = (case map_of U j of Some u \<Rightarrow> pu_current u | None \<Rightarrow> raw_pointer t j)"
    unfolding t' write_header_spec(1) [OF ok] raw_pointer_frame by (rule spec [OF t1(5)])
  have "map_of (pending_updates t') j = map_of (pending_updates t1) j"
    unfolding t' write_header_spec(3) [OF ok] by simp
  also have "\<dots> = (case map_of U j of
       Some u \<Rightarrow> left_pending (map_of (pending_updates t) j) u | None \<Rightarrow> map_of (pending_updates t) j)"
    by (rule spec [OF t1(6)])
  finally show "map_of (pending_updates t') j = (case map_of U j of
       Some u \<Rightarrow> left_pending (map_of (pending_updates t) j) u | None \<Rightarrow> map_of (pending_updates t) j)" .
qed

lemma flush_interleaved:
  assumes "file_ok t" "hm_wf (pending_updates t)" "hm_wf U"
    "\<And>off u. map_of U off = Some u \<Longrightarrow>
      pu_ok u \<and> (\<exists>l. map_of (pending_updates t) off = Some l \<and> evolves u l)"
  shows "tracker_get (fst (write_pending t U)) off = tracker_get t off \<and>
    (\<forall>u l. map_of U off = Some u \<and> map_of (pending_updates (fst (write_pending t U))) off = Some l \<longrightarrow>
       set (pu_to_free l) \<inter> set (pu_to_free u) = {})"
proof -
  have "\<And>off u. map_of U off = Some u \<Longrightarrow> pu_ok u" using assms(4) by blast
  note spec = write_pending_spec [OF assms(1-3) this]
  define t' where "t' = fst (write_pending t U)"
  have w: "fst (write_pending t U) = t'"
    "raw_pointer t' off = (case map_of U off of Some u \<Rightarrow> pu_current u | None \<Rightarrow> raw_pointer t off)"
    "map_of (pending_updates t') off = (case map_of U off of
       Some u \<Rightarrow> left_pending (map_of (pending_updates t) off) u | None \<Rightarrow> map_of (pending_updates t) off)"
    using spec(5) [where j = off] spec(6) [where j = off] by (simp_all only: t'_def)
  show ?thesis
  proof (cases "map_of U off")
    case None
    then show ?thesis using w by (simp add: tracker_get_raw split: option.split)
  next
    case (Some u)
    then obtain l where l: "pu_ok u" "map_of (pending_updates t) off = Some l" "evolves u l"
      using assms(4) by blast
    show ?thesis
    proof (cases "l = u")
      case True
      then have "map_of (pending_updates t') off = None" using w Some l left_pending_evolved(1) by simp
      then show ?thesis using w Some l True by (simp add: tracker_get_raw pu_ok_def)
    next
      case False
      let ?l = "\<lparr>pu_current = pu_current l, pu_to_free = filter (\<lambda>p. p \<notin> set (pu_to_free u)) (pu_to_free l)\<rparr>"
      have p: "map_of (pending_updates t') off = Some ?l"
        using w Some l False left_pending_evolved(1) [OF l(3,1)] by simp
      have "\<not> pu_is_empty ?l" using left_pending_evolved(2) [OF l(3,1) False] by (auto simp: pu_is_empty_def)
      moreover have "\<not> pu_is_empty l"
      proof
        assume e: "pu_is_empty l"
        then show False using left_pending_evolved(2) [OF l(3,1) False] by (simp add: pu_is_empty_def)
      qed
      ultimately show ?thesis using w(1) p l(2) Some by (auto simp: tracker_get_raw)
    qed
  qed
qed

text \<open>A flush may write updates captured earlier than it runs. If every update it writes is the
  captured state of a point whose pending updates have only gone on from there (new pointers set,
  the current one unset), then the flush changes the pointer of no point, and what stays pending
  mentions none of the pointers that were freed.\<close>

lemma tracker_flush_interleaved:
  assumes "file_ok t" "hm_wf (pending_updates t)" "hm_wf U"
    "\<And>off u. map_of U off = Some u \<Longrightarrow>
      pu_ok u \<and> (\<exists>l. map_of (pending_updates t) off = Some l \<and> evolves u l)"
  shows "tracker_get (fst (write_pending t U)) off = tracker_get t off \<and>
    (\<forall>u l. map_of U off = Some u \<and> map_of (pending_updates (fst (write_pending t U))) off = Some l \<longrightarrow>
       set (pu_to_free l) \<inter> set (pu_to_free u) = {})"
  by (rule flush_interleaved [OF assms])

definition demo_pointer :: value_pointer where
  "demo_pointer = value_pointer_new 0 0 10"

definition demo_tracker :: tracker where
  "demo_tracker = \<lparr>t_header = 0, t_storage = replicate 64 0, pending_updates = [], next_pointer_offset = 0\<rparr>"

lemma demo_tracker_ok: "file_ok demo_tracker" "hm_wf (pending_updates demo_tracker)"
  by (simp_all add: file_ok_def demo_tracker_def HEADER_SIZE_def)

section \<open>Flushing everything\<close>

definition tracker_ok :: "tracker \<Rightarrow> bool" where
  "tracker_ok t \<longleftrightarrow> file_ok t \<and> hm_wf (pending_updates t) \<and>
     (\<forall>off u. map_of (pending_updates t) off = Some u \<longrightarrow> pu_ok u)"

lemma flush_all:
  assumes ok: "tracker_ok t"
  defines "t' \<equiv> fst (write_pending t (pending_updates t))"
  shows "tracker_ok t'" "pending_updates t' = []" "raw_pointer t' off = tracker_get t off"
    "tracker_get t' off = tracker_get t off" "next_pointer_offset t' = next_pointer_offset t"
    "snd (write_pending t (pending_updates t)) =
       concat (map (\<lambda>(off, u). released t off u) (pending_updates t))"
proof -
  have a: "file_ok t" "hm_wf (pending_updates t)" "\<And>off u. map_of (pending_updates t) off = Some u \<Longrightarrow> pu_ok u"
    using ok by (simp_all add: tracker_ok_def)
  note spec = write_pending_spec [OF a(1,2,2,3)]
  have "left_pending (Some u) u = None" for u by (simp add: left_pending_def drain_persisted_def)
  then have "map_of (pending_updates t') j = None" for j
    using spec(6) [where j = j] by (simp add: t'_def split: option.splits)
  then have "map_of (pending_updates t') = Map.empty" by (simp add: fun_eq_iff)
  then show p: "pending_updates t' = []" unfolding hm_empty_iff .
  show r: "raw_pointer t' off = tracker_get t off"
    using spec(5) [where j = off] a(3) by (auto simp: t'_def tracker_get_raw pu_ok_def split: option.split)
  then show "tracker_get t' off = tracker_get t off" by (simp add: tracker_get_raw [of t'] p)
  show "tracker_ok t'" using spec(2) p by (simp add: tracker_ok_def t'_def)
  show "next_pointer_offset t' = next_pointer_offset t" using spec(4) by (simp add: t'_def)
  show "snd (write_pending t (pending_updates t)) =
       concat (map (\<lambda>(off, u). released t off u) (pending_updates t))" by (rule spec(1))
qed

lemma write_pending_header:
  assumes "file_ok t" "hm_wf (pending_updates t)" "hm_wf U" "\<And>off u. map_of U off = Some u \<Longrightarrow> pu_ok u"
    and n: "next_pointer_offset t < 2 ^ 32"
  shows "read_header (t_storage (fst (write_pending t U))) = Inr (next_pointer_offset t)"
proof -
  have "\<forall>x \<in> set U. \<forall>p. pu_current (snd x) = Some p \<longrightarrow> pointer_ok p"
  proof (intro ballI allI impI)
    fix x p assume x: "x \<in> set U" "pu_current (snd x) = Some p"
    have "map_of U (fst x) = Some (snd x)" using in_map_of [OF assms(3), of "fst x" "snd x"] x(1) by simp
    then show "pointer_ok p" using assms(4) x(2) by (auto simp: pu_ok_def)
  qed
  from write_updates_spec [OF assms(1-3) this, where old = "[]"]
  obtain t1 old where t1: "foldl write_update (t, []) U = (t1, old)" "file_ok t1"
    "next_pointer_offset t1 = next_pointer_offset t" by blast
  have "fst (write_pending t U) = write_header (t1\<lparr>t_header := next_pointer_offset t1\<rparr>)"
    by (simp add: write_pending_def t1(1) write_pointer_count_def)
  moreover have "file_ok (t1\<lparr>t_header := next_pointer_offset t1\<rparr>)" using t1(2) by simp
  ultimately show ?thesis using header_roundtrip [of "t1\<lparr>t_header := next_pointer_offset t1\<rparr>"] n t1(3) by simp
qed

text \<open>A tracker that has written all its pending updates can be opened again from its file: it has
  the same number of points and the same pointer for every point.\<close>

lemma tracker_reopen_roundtrip:
  assumes "tracker_ok t" "next_pointer_offset t < 2 ^ 32"
  shows "\<exists>t2. tracker_open (Some (t_storage (fst (write_pending t (pending_updates t))))) = Inr t2 \<and>
    next_pointer_offset t2 = next_pointer_offset t \<and> (\<forall>off. tracker_get t2 off = tracker_get t off)"
proof -
  let ?t' = "fst (write_pending t (pending_updates t))"
  have a: "file_ok t" "hm_wf (pending_updates t)" "\<And>off u. map_of (pending_updates t) off = Some u \<Longrightarrow> pu_ok u"
    using assms(1) by (simp_all add: tracker_ok_def)
  let ?t2 = "\<lparr>t_header = next_pointer_offset t, t_storage = t_storage ?t', pending_updates = [],
    next_pointer_offset = next_pointer_offset t\<rparr>"
  have "tracker_open (Some (t_storage ?t')) = Inr ?t2"
    using write_pending_header [OF a(1,2,2,3) assms(2)] by (simp add: tracker_open_def)
  moreover have "tracker_get ?t2 off = tracker_get t off" for off
  proof -
    have "tracker_get ?t2 off = raw_pointer ?t2 off" by (simp add: tracker_get_raw)
    also have "\<dots> = raw_pointer ?t' off" by (simp add: raw_pointer_def get_raw_def Let_def)
    finally show ?thesis using flush_all(3) [OF assms(1)] by simp
  qed
  ultimately show ?thesis by auto
qed

text \<open>A captured update that is written twice frees the pointer it set: the second time, that pointer
  is found in the file as if it were an older value, although it is still the pointer of the point.
  So two flushers captured one after the other must not both be run.\<close>

lemma tracker_stale_flush_frees_live:
  assumes "file_ok t" "hm_wf (pending_updates t)" "pu_ok u" "pu_current u = Some p"
    "map_of (pending_updates t) off = Some u"
  shows "let t1 = fst (write_pending t [(off, u)]); (t2, old) = write_pending t1 [(off, u)] in
    p \<in> set old \<and> tracker_get t2 off = Some p"
proof -
  let ?U = "[(off, u)]" and ?t1 = "fst (write_pending t [(off, u)])"
  have U: "hm_wf ?U" "\<And>o' u'. map_of ?U o' = Some u' \<Longrightarrow> pu_ok u'" using assms(3) by (auto split: if_splits)
  note s1 = write_pending_spec [OF assms(1,2) U]
  note s2 = write_pending_spec [OF s1(2,3) U]
  have "left_pending (Some u) u = None" by (simp add: left_pending_def drain_persisted_def)
  then have p1: "map_of (pending_updates ?t1) off = None" using s1(6) [where j = off] assms(5) by simp
  have r1: "raw_pointer ?t1 off = Some p" using s1(5) [where j = off] assms(4) by simp
  have "snd (write_pending ?t1 ?U) = released ?t1 off u" using s2(1) by simp
  then have "p \<in> set (snd (write_pending ?t1 ?U))" using r1 assms(4) by (simp add: released_def)
  moreover have "map_of (pending_updates (fst (write_pending ?t1 ?U))) off = None"
    using s2(6) [where j = off] p1 by (simp add: left_pending_def)
  then have "tracker_get (fst (write_pending ?t1 ?U)) off = Some p"
    using s2(5) [where j = off] assms(4) by (simp add: tracker_get_raw)
  ultimately show ?thesis by (simp add: Let_def case_prod_beta)
qed

text \<open>A point whose stored value is replaced and then deleted before the next flush leaks the blocks of
  the stored value. A deletion makes \<open>write_pending\<close> take the branch that persists an empty slot, which
  does not report the pointer the slot held: only the replacement is freed. Deleting the stored value
  directly frees it.\<close>

lemma tracker_update_then_delete_leaks:
  assumes "file_ok t" "pending_updates t = []" "tracker_get t off = Some p" "p \<noteq> q"
  shows "let t1 = fst (tracker_unset (tracker_set t off q) off);
             (t2, old) = write_pending t1 (pending_updates t1);
             t3 = fst (tracker_unset t off)
         in tracker_get t2 off = None \<and> pending_updates t2 = [] \<and> old = [q] \<and> p \<notin> set old \<and>
            snd (write_pending t3 (pending_updates t3)) = [p]"
proof -
  let ?t0 = "tracker_set t off q" and ?u = "\<lparr>pu_current = None, pu_to_free = [q]\<rparr>"
  let ?v = "\<lparr>pu_current = None, pu_to_free = [p]\<rparr>"
  let ?t1 = "fst (tracker_unset ?t0 off)" and ?t3 = "fst (tracker_unset t off)"
  have "tracker_get ?t0 off = Some q" "pending_of ?t0 off = \<lparr>pu_current = Some q, pu_to_free = []\<rparr>"
    using assms(2) by (simp_all add: tracker_get_raw tracker_set_def pending_of_def pu_set_def pu_default_def pu_is_empty_def)
  then have P1: "pending_updates ?t1 = [(off, ?u)]" "file_ok ?t1"
    using assms(1,2) by (simp_all add: tracker_unset_def pu_unset_def tracker_set_def)
  have P3: "pending_updates ?t3 = [(off, ?v)]" "file_ok ?t3"
    using assms(1-3) by (simp_all add: tracker_unset_def pu_unset_def pending_of_def pu_default_def)
  have U: "hm_wf [(off, ?u)]" "hm_wf [(off, ?v)]"
    "\<And>o' u. map_of [(off, ?u)] o' = Some u \<Longrightarrow> pu_ok u" "\<And>o' u. map_of [(off, ?v)] o' = Some u \<Longrightarrow> pu_ok u"
    by (auto simp: pu_ok_def pu_is_empty_def split: if_splits)
  have "tracker_ok ?t1" using P1 U by (simp add: tracker_ok_def)
  note f1 = flush_all [OF this]
  have "tracker_ok ?t3" using P3 U by (simp add: tracker_ok_def)
  note f3 = flush_all [OF this]
  have "tracker_get ?t1 off = None" by (simp add: tracker_get_raw P1 pu_is_empty_def)
  then show ?thesis
    using f1(2,4,6) f3(6) assms(4) unfolding P1 P3 by (simp add: Let_def case_prod_beta released_def P1 P3)
qed

end
