(* ===== verification/GridPages.thy ===== *)
theory GridPages
  imports GridTracker
begin

text \<open>
  \<open>lib/gridstore/src/pages.rs\<close> and the memory-mapped files under it
  (\<open>lib/common/common/src/universal_io/\<close>): reading and writing a value that starts in one page and may
  continue in the next ones. A page is the bytes of its file. The lemmas show that the pages are one flat
  array of bytes: a read is a slice of it and a write changes one range.
\<close>

section \<open>Files\<close>

definition file_read :: "u8 list \<Rightarrow> nat \<Rightarrow> nat \<Rightarrow> (grid_error, u8 list) result" where
  "file_read bytes byte_offset items =
     (let start = byte_offset; end = start + items in
      if end \<le> length bytes then Inr (slice bytes start end) else Inl (OutOfBounds start end))"

definition file_write :: "u8 list \<Rightarrow> nat \<Rightarrow> u8 list \<Rightarrow> (grid_error, u8 list) result" where
  "file_write mmap byte_offset items =
     (let start = byte_offset; end = start + length items in
      if end \<le> length mmap then Inr (blit start items mmap) else Inl (OutOfBounds start end))"

section \<open>The ranges of a value\<close>

text \<open>The loop of \<open>get_page_value_ranges\<close>: page, offset and length in the page, offset in the value. It makes
  progress because \<open>start < page_len\<close>, which the assertion before it gives for the first page.\<close>

type_synonym page_range = "nat \<times> nat \<times> nat \<times> nat"

function page_ranges :: "nat \<Rightarrow> nat \<Rightarrow> nat \<Rightarrow> nat \<Rightarrow> nat \<Rightarrow> page_range list" where
  "page_ranges page_len total_length length_so_far page_idx start =
     (if length_so_far < total_length \<and> start < page_len then
        let section_len = min (total_length - length_so_far) (page_len - start)
        in (page_idx, start, section_len, length_so_far) #
           page_ranges page_len total_length (length_so_far + section_len) (page_idx + 1) 0
      else [])"
  by pat_completeness auto
termination by (relation "measure (\<lambda>(page_len, len, so_far, idx, start). len - so_far)") auto

declare page_ranges.simps [simp del]

definition get_page_value_ranges :: "value_pointer \<Rightarrow> storage_config \<Rightarrow> (grid_error, page_range list) result" where
  "get_page_value_ranges p c =
     (let value_start = vp_block_offset p * block_size_bytes c in
      if value_start < page_size_bytes c
      then Inr (page_ranges (page_size_bytes c) (vp_length p) 0 (vp_page_id p) value_start)
      else Inl GridPanic)"

section \<open>Reading and writing\<close>

text \<open>\<open>read_multi\<close> with the callback of \<open>read_from_pages\<close>, which copies into the buffer of the value, and
  \<open>write_multi\<close> over the sections of the value.\<close>

fun read_multi :: "u8 list list \<Rightarrow> page_range list \<Rightarrow> u8 list \<Rightarrow> (grid_error, u8 list) result" where
  "read_multi files [] buf = Inr buf"
| "read_multi files ((file_index, start, len, offset) # rs) buf =
     (if file_index < length files then
        and_then (file_read (files ! file_index) start len) (\<lambda>bytes.
          if offset + length bytes \<le> length buf then read_multi files rs (blit offset bytes buf)
          else Inl GridPanic)
      else Inl (InvalidFileIndex file_index (length files)))"

fun write_multi :: "u8 list list \<Rightarrow> u8 list \<Rightarrow> page_range list \<Rightarrow> (grid_error, u8 list list) result" where
  "write_multi files val [] = Inr files"
| "write_multi files val ((file_index, start, len, offset) # rs) =
     (if length val < offset + len then Inl GridPanic
      else if file_index < length files then
        and_then (file_write (files ! file_index) start (slice val offset (offset + len)))
          (\<lambda>file. write_multi (files[file_index := file]) val rs)
      else Inl (InvalidFileIndex file_index (length files)))"

text \<open>The buffer starts uninitialized; the model fills it with zeros.\<close>

definition read_from_pages :: "u8 list list \<Rightarrow> value_pointer \<Rightarrow> storage_config \<Rightarrow> (grid_error, u8 list) result" where
  "read_from_pages pages p c =
     and_then (get_page_value_ranges p c) (\<lambda>ranges. read_multi pages ranges (replicate (vp_length p) 0))"

definition write_to_pages ::
  "u8 list list \<Rightarrow> value_pointer \<Rightarrow> u8 list \<Rightarrow> storage_config \<Rightarrow> (grid_error, u8 list list) result" where
  "write_to_pages pages p val c =
     and_then (get_page_value_ranges p c) (\<lambda>ranges. write_multi pages val ranges)"

section \<open>The pages as one array\<close>

definition pages_ok :: "nat \<Rightarrow> u8 list list \<Rightarrow> bool" where
  "pages_ok L pages \<longleftrightarrow> (\<forall>p \<in> set pages. length p = L)"

lemma length_concat_pages: "pages_ok L pages \<Longrightarrow> length (concat pages) = length pages * L"
  by (induction pages) (simp_all add: pages_ok_def)

lemma page_in_concat:
  "pages_ok L pages \<Longrightarrow> i < length pages \<Longrightarrow> a \<le> b \<Longrightarrow> b \<le> L \<Longrightarrow>
   slice (pages ! i) a b = slice (concat pages) (i * L + a) (i * L + b)"
proof (induction pages arbitrary: i)
  case (Cons p pages)
  then have p: "length p = L" "pages_ok L pages" by (simp_all add: pages_ok_def)
  show ?case
  proof (cases i)
    case 0
    then show ?thesis using Cons.prems p by (simp add: slice_append_left)
  next
    case (Suc j)
    then show ?thesis using Cons.IH [OF p(2), of j] Cons.prems p(1) by (simp add: slice_def)
  qed
qed simp

lemma blit_in_concat:
  "pages_ok L pages \<Longrightarrow> i < length pages \<Longrightarrow> a + length bs \<le> L \<Longrightarrow>
   concat (pages[i := blit a bs (pages ! i)]) = blit (i * L + a) bs (concat pages)"
proof (induction pages arbitrary: i)
  case (Cons p pages)
  then have p: "length p = L" "pages_ok L pages" by (simp_all add: pages_ok_def)
  show ?case
  proof (cases i)
    case 0
    then show ?thesis using Cons.prems p by (simp add: blit_def)
  next
    case (Suc j)
    then show ?thesis using Cons.IH [OF p(2), of j] Cons.prems p(1) by (simp add: blit_def add.assoc)
  qed
qed simp

lemma pages_ok_update: "pages_ok L pages \<Longrightarrow> length f = L \<Longrightarrow> pages_ok L (pages[i := f])"
  unfolding pages_ok_def using set_update_subset_insert by (metis insertE subsetD)

text \<open>One step of the loop: the section lies in its page, at its place of the array, and the rest of the value
  continues right after it.\<close>

lemma page_section:
  assumes "pages_ok L pages" "so_far < n" "start < L" "idx * L + start + (n - so_far) \<le> length (concat pages)"
  defines "sec \<equiv> min (n - so_far) (L - start)"
  shows "0 < sec" "start + sec \<le> L" "so_far + sec \<le> n" "idx < length pages"
    "so_far + sec < n \<Longrightarrow> (idx + 1) * L = idx * L + start + sec"
proof -
  show "0 < sec" "start + sec \<le> L" "so_far + sec \<le> n" using assms(2,3) by (auto simp: sec_def)
  have "idx * L < length pages * L" using assms(1,2,4) length_concat_pages [OF assms(1)] by linarith
  then show "idx < length pages" by simp
  show "(idx + 1) * L = idx * L + start + sec" if "so_far + sec < n"
    using that assms(3) by (auto simp: sec_def)
qed

lemma slice_append_slice: "a \<le> b \<Longrightarrow> b \<le> c \<Longrightarrow> slice m a b @ slice m b c = slice m a c"
  using take_add [of "b - a" "c - b" "drop a m"] by (simp add: slice_def)

lemma page_ranges_done [simp]: "page_ranges L n n idx start = []"
  by (simp add: page_ranges.simps)

lemma read_ranges:
  assumes "pages_ok L pages" "so_far \<le> n" "start < L" "idx * L + start + (n - so_far) \<le> length (concat pages)"
    "length buf = n"
  shows "read_multi pages (page_ranges L n so_far idx start) buf =
    Inr (blit so_far (slice (concat pages) (idx * L + start) (idx * L + start + (n - so_far))) buf)"
  using assms
proof (induction L n so_far idx start arbitrary: buf rule: page_ranges.induct)
  case (1 L n so_far idx start)
  let ?flat = "concat pages" and ?a = "idx * L + start"
  show ?case
  proof (cases "so_far < n")
    case False
    then have "n = so_far" using "1.prems"(2) by simp
    then show ?thesis by (simp add: slice_def)
  next
    case True
    let ?sec = "min (n - so_far) (L - start)"
    note s = page_section [OF "1.prems"(1) True "1.prems"(3,4)]
    have L: "length (pages ! idx) = L" using "1.prems"(1) s(4) by (simp add: pages_ok_def)
    let ?d = "slice ?flat ?a (?a + ?sec)" and ?so = "so_far + ?sec"
    have d: "file_read (pages ! idx) start ?sec = Inr ?d"
      using page_in_concat [OF "1.prems"(1) s(4), of start "start + ?sec"] s(2) L
      by (simp add: file_read_def add.assoc)
    have "?a + ?sec \<le> length ?flat" using "1.prems"(4) by linarith
    then have ld: "length ?d = ?sec" by simp
    have fits: "so_far + ?sec \<le> length buf" using s(3) "1.prems"(5) by simp
    have unfold: "read_multi pages (page_ranges L n so_far idx start) buf =
        read_multi pages (page_ranges L n ?so (idx + 1) 0) (blit so_far ?d buf)"
      using True "1.prems"(3) s(4) d ld fits
      by (subst page_ranges.simps) (simp add: Let_def)
    show ?thesis
    proof (cases "?so < n")
      case False
      then have sec: "?so = n" "?sec = n - so_far" using s(3) by simp_all
      show ?thesis unfolding unfold sec(1) page_ranges_done read_multi.simps unfolding sec(2) by (rule refl)
    next
      case more: True
      note e = s(5) [OF more]
      have c: "so_far < n \<and> start < L" using True "1.prems"(3) by simp
      have f: "0 < L" "(idx + 1) * L + 0 + (n - ?so) \<le> length ?flat" "length (blit so_far ?d buf) = n"
        using "1.prems"(3,4,5) more fits ld unfolding e by simp_all
      have "read_multi pages (page_ranges L n ?so (idx + 1) 0) (blit so_far ?d buf) =
        Inr (blit ?so (slice ?flat ((idx + 1) * L + 0) ((idx + 1) * L + 0 + (n - ?so))) (blit so_far ?d buf))"
        by (rule "1.IH" [OF c refl "1.prems"(1) s(3) f])
      moreover have "(idx + 1) * L + 0 + (n - ?so) = ?a + (n - so_far)" unfolding e using more by linarith
      moreover have "blit ?so (slice ?flat (?a + ?sec) (?a + (n - so_far))) (blit so_far ?d buf) =
          blit so_far (?d @ slice ?flat (?a + ?sec) (?a + (n - so_far))) buf"
        using blit_blit_adjacent [of so_far ?d "slice ?flat (?a + ?sec) (?a + (n - so_far))" buf]
          ld more "1.prems"(4,5) by simp
      moreover have "?d @ slice ?flat (?a + ?sec) (?a + (n - so_far)) = slice ?flat ?a (?a + (n - so_far))"
        using more by (intro slice_append_slice) simp_all
      ultimately show ?thesis unfolding unfold by (simp only: e add_0_right)
    qed
  qed
qed

lemma write_ranges:
  assumes "pages_ok L pages" "so_far \<le> n" "start < L" "idx * L + start + (n - so_far) \<le> length (concat pages)"
    "length val = n"
  shows "\<exists>pages'. write_multi pages val (page_ranges L n so_far idx start) = Inr pages' \<and> pages_ok L pages' \<and>
    length pages' = length pages \<and> concat pages' = blit (idx * L + start) (drop so_far val) (concat pages)"
  using assms
proof (induction L n so_far idx start arbitrary: pages rule: page_ranges.induct)
  case (1 L n so_far idx start)
  let ?a = "idx * L + start"
  show ?case
  proof (cases "so_far < n")
    case False
    then have "so_far = n" using "1.prems"(2) by simp
    then show ?thesis using "1.prems" by simp
  next
    case True
    let ?sec = "min (n - so_far) (L - start)"
    note s = page_section [OF "1.prems"(1) True "1.prems"(3,4)]
    have L: "length (pages ! idx) = L" using "1.prems"(1) s(4) by (simp add: pages_ok_def)
    let ?so = "so_far + ?sec"
    let ?d = "slice val so_far ?so" and ?f = "blit start (slice val so_far ?so) (pages ! idx)"
    let ?ps = "pages[idx := ?f]"
    have ld: "length ?d = ?sec" using s(3) "1.prems"(5) by simp
    have unfold: "write_multi pages val (page_ranges L n so_far idx start) =
        write_multi ?ps val (page_ranges L n ?so (idx + 1) 0)"
      using True "1.prems"(3,5) s(2,3,4) ld L
      by (subst page_ranges.simps) (simp add: Let_def file_write_def)
    have ps: "pages_ok L ?ps" using pages_ok_update [OF "1.prems"(1)] s(2) ld L by simp
    have flat: "concat ?ps = blit ?a ?d (concat pages)"
      using blit_in_concat [OF "1.prems"(1) s(4)] s(2) ld by simp
    have lf: "length (concat ?ps) = length (concat pages)"
      using length_concat_pages [OF ps] length_concat_pages [OF "1.prems"(1)] by simp
    have split: "?d @ drop ?so val = drop so_far val"
      using append_take_drop_id [of ?sec "drop so_far val"] by (simp add: slice_def add.commute)
    show ?thesis
    proof (cases "?so < n")
      case False
      then have "?so = n" using s(3) by simp
      then show ?thesis using unfold ps flat split "1.prems"(5) by simp
    next
      case more: True
      note e = s(5) [OF more]
      have c: "so_far < n \<and> start < L" using True "1.prems"(3) by simp
      have f: "0 < L" "(idx + 1) * L + 0 + (n - ?so) \<le> length (concat ?ps)"
        using "1.prems"(3,4) more unfolding e lf by simp_all
      from "1.IH" [OF c refl ps s(3) f "1.prems"(5)]
      obtain pages' where p: "write_multi ?ps val (page_ranges L n ?so (idx + 1) 0) = Inr pages'"
        "pages_ok L pages'" "length pages' = length ?ps"
        "concat pages' = blit ((idx + 1) * L + 0) (drop ?so val) (concat ?ps)"
        by blast
      have "concat pages' = blit (?a + length ?d) (drop ?so val) (blit ?a ?d (concat pages))"
        unfolding p(4) flat e using ld by simp
      also have "\<dots> = blit ?a (drop so_far val) (concat pages)"
        using blit_blit_adjacent [of ?a ?d "drop ?so val" "concat pages"] ld s(3) "1.prems"(4,5) split
        by simp
      finally show ?thesis using p(1-3) unfold by simp
    qed
  qed
qed

lemma read_from_pages_flat:
  assumes "pages_ok (page_size_bytes c) pages" "vp_block_offset p * block_size_bytes c < page_size_bytes c"
  defines "a \<equiv> vp_page_id p * page_size_bytes c + vp_block_offset p * block_size_bytes c"
  assumes "a + vp_length p \<le> length (concat pages)"
  shows "read_from_pages pages p c = Inr (slice (concat pages) a (a + vp_length p))"
proof -
  have "length (slice (concat pages) a (a + vp_length p)) = vp_length p" using assms(4) by simp
  then have "blit 0 (slice (concat pages) a (a + vp_length p)) (replicate (vp_length p) 0) =
      slice (concat pages) a (a + vp_length p)"
    by (simp add: blit_def)
  then show ?thesis
    using read_ranges [OF assms(1) _ assms(2), of 0 "vp_length p" "vp_page_id p" "replicate (vp_length p) 0"] assms(2,4)
    by (simp add: read_from_pages_def get_page_value_ranges_def a_def)
qed

lemma write_to_pages_flat:
  assumes "pages_ok (page_size_bytes c) pages" "vp_block_offset p * block_size_bytes c < page_size_bytes c"
    "vp_length p = length val"
  defines "a \<equiv> vp_page_id p * page_size_bytes c + vp_block_offset p * block_size_bytes c"
  assumes "a + length val \<le> length (concat pages)"
  shows "\<exists>pages'. write_to_pages pages p val c = Inr pages' \<and> pages_ok (page_size_bytes c) pages' \<and>
    length pages' = length pages \<and> concat pages' = blit a val (concat pages)"
  using write_ranges [OF assms(1) _ assms(2), of 0 "length val" "vp_page_id p" val] assms
  by (simp add: write_to_pages_def get_page_value_ranges_def)

end
