(* ===== verification/Gridstore.thy ===== *)
theory Gridstore
  imports GridPages
begin

text \<open>
  \<open>lib/gridstore/src/gridstore/mod.rs\<close> and \<open>view.rs\<close>: the store of values by point. A value is written
  to free blocks of the pages, its blocks are marked in the bitmask and its pointer is kept by the
  tracker; a flush persists the pointers and only then frees the blocks of the values they replaced. The
  locks are not modelled: an operation is one step, and a flusher runs some steps after its creation.
  Files are their contents, and creating them succeeds.
\<close>

section \<open>Views\<close>

text \<open>The conversions of a value to bytes and back (\<open>trait Blob\<close>), and LZ4, which is another crate.\<close>

record 'v codec =
  to_bytes :: "'v \<Rightarrow> u8 list"
  from_bytes :: "u8 list \<Rightarrow> 'v"
  compress_lz4 :: "u8 list \<Rightarrow> u8 list"
  decompress_lz4 :: "u8 list \<Rightarrow> u8 list"

record grid_view =
  vw_config :: storage_config
  vw_tracker :: tracker
  vw_pages :: "u8 list list"

definition vw_compress :: "'v codec \<Rightarrow> grid_view \<Rightarrow> u8 list \<Rightarrow> u8 list" where
  "vw_compress co vw val =
     (case cfg_compression (vw_config vw) of NoCompression \<Rightarrow> val | LZ4 \<Rightarrow> compress_lz4 co val)"

definition vw_decompress :: "'v codec \<Rightarrow> grid_view \<Rightarrow> u8 list \<Rightarrow> u8 list" where
  "vw_decompress co vw val =
     (case cfg_compression (vw_config vw) of NoCompression \<Rightarrow> val | LZ4 \<Rightarrow> decompress_lz4 co val)"

definition vw_read_from_pages :: "grid_view \<Rightarrow> value_pointer \<Rightarrow> (grid_error, u8 list) result" where
  "vw_read_from_pages vw p = read_from_pages (vw_pages vw) p (vw_config vw)"

definition vw_get_value :: "'v codec \<Rightarrow> grid_view \<Rightarrow> nat \<Rightarrow> (grid_error, 'v option) result" where
  "vw_get_value co vw point_offset =
     (case tracker_get (vw_tracker vw) point_offset of
        None \<Rightarrow> Inr None
      | Some p \<Rightarrow> and_then (vw_read_from_pages vw p) (\<lambda>raw.
          Inr (Some (from_bytes co (vw_decompress co vw raw)))))"

text \<open>\<open>iter\<close>: the callback is a function on its captured state; \<open>from_err\<close> converts the store's errors to its own.\<close>

datatype control_flow = CF_Continue nat | CF_Break

definition map_err :: "('e \<Rightarrow> 'f) \<Rightarrow> ('e, 'a) result \<Rightarrow> ('f, 'a) result" where
  "map_err f r = (case r of Inl e \<Rightarrow> Inl (f e) | Inr x \<Rightarrow> Inr x)"

fun vw_iter_loop ::
  "'v codec \<Rightarrow> grid_view \<Rightarrow> (grid_error \<Rightarrow> 'e) \<Rightarrow> nat \<Rightarrow> ('s \<Rightarrow> nat \<Rightarrow> 'v \<Rightarrow> ('e, 's \<times> bool) result) \<Rightarrow>
   (nat \<times> value_pointer option) list \<Rightarrow> nat \<Rightarrow> 's \<Rightarrow> ('e, 's \<times> control_flow) result" where
  "vw_iter_loop co vw from_err max_iters callback [] taken s = Inr (s, CF_Break)"
| "vw_iter_loop co vw from_err max_iters callback ((point_offset, res) # rest) taken s =
     (case res of
        None \<Rightarrow> vw_iter_loop co vw from_err max_iters callback rest taken s
      | Some p \<Rightarrow>
          if taken = max_iters then Inr (s, CF_Continue point_offset)
          else and_then (map_err from_err (vw_read_from_pages vw p)) (\<lambda>raw.
            and_then (callback s point_offset (from_bytes co (vw_decompress co vw raw))) (\<lambda>(s1, go).
              if \<not> go then Inr (s1, CF_Break)
              else vw_iter_loop co vw from_err max_iters callback rest (taken + 1) s1)))"

definition vw_iter ::
  "'v codec \<Rightarrow> grid_view \<Rightarrow> (grid_error \<Rightarrow> 'e) \<Rightarrow> nat \<Rightarrow> nat \<Rightarrow> nat \<Rightarrow>
   ('s \<Rightarrow> nat \<Rightarrow> 'v \<Rightarrow> ('e, 's \<times> bool) result) \<Rightarrow> 's \<Rightarrow> ('e, 's \<times> control_flow) result" where
  "vw_iter co vw from_err from_id max_id max_iters callback s =
     vw_iter_loop co vw from_err max_iters callback (iter_pointers (vw_tracker vw) from_id max_id) 0 s"

section \<open>The store\<close>

text \<open>The lock of a store is its identity for the flushers: \<open>clear\<close> marks it dead and makes a new one.\<close>

record gridstore =
  gs_config :: storage_config
  gs_tracker :: tracker
  gs_pages :: "u8 list list"
  gs_bitmask :: bitmask
  gs_lock :: nat

definition with_view :: "gridstore \<Rightarrow> grid_view" where
  "with_view s = \<lparr>vw_config = gs_config s, vw_tracker = gs_tracker s, vw_pages = gs_pages s\<rparr>"

definition gs_new :: "nat \<Rightarrow> storage_options \<Rightarrow> (grid_error, gridstore) result" where
  "gs_new lock opts =
     (case config_of_options opts of
        Inl e \<Rightarrow> Inl (ServiceError e)
      | Inr c \<Rightarrow> and_then (bm_create c) (\<lambda>bm. and_then (tracker_new None) (\<lambda>t.
          Inr \<lparr>gs_config = c, gs_tracker = t, gs_pages = [replicate (page_size_bytes c) 0],
            gs_bitmask = bm, gs_lock = lock\<rparr>)))"

text \<open>What is on disk; opening a store reads it back.\<close>

record grid_files =
  file_config :: "storage_config option"
  file_tracker :: "u8 list option"
  file_pages :: "u8 list list"
  file_bitmask :: "(bool list \<times> region_gaps list) option"

definition gs_files :: "gridstore \<Rightarrow> grid_files" where
  "gs_files s = \<lparr>file_config = Some (gs_config s), file_tracker = Some (t_storage (gs_tracker s)),
     file_pages = gs_pages s, file_bitmask = Some (bitslice (gs_bitmask s), regions_gaps (gs_bitmask s))\<rparr>"

definition bm_open :: "(bool list \<times> region_gaps list) option \<Rightarrow> storage_config \<Rightarrow> (grid_error, bitmask) result" where
  "bm_open file c =
     (if page_size_bytes c mod block_size_bytes c \<noteq> 0 then Inl GridPanic
      else case file of None \<Rightarrow> Inl (ServiceError ''Bitmask file does not exist'')
           | Some (bits, gaps) \<Rightarrow> Inr \<lparr>bm_config = c, regions_gaps = gaps, bitslice = bits\<rparr>)"

definition gs_open :: "nat \<Rightarrow> grid_files \<Rightarrow> (grid_error, gridstore) result" where
  "gs_open lock files =
     (case file_config files of
        None \<Rightarrow> Inl (ServiceError ''Failed to read config'')
      | Some c \<Rightarrow> and_then (tracker_open (file_tracker files)) (\<lambda>t.
          and_then (bm_open (file_bitmask files) c) (\<lambda>bm.
            if length (file_pages files) \<noteq> infer_num_pages bm
            then Inl (ServiceError ''Inconsistent number of gridstore pages'')
            else Inr \<lparr>gs_config = c, gs_tracker = t, gs_pages = file_pages files,
                   gs_bitmask = bm, gs_lock = lock\<rparr>)))"

definition next_page_id :: "gridstore \<Rightarrow> nat" where
  "next_page_id s = length (gs_pages s)"

definition blocks_for_value :: "nat \<Rightarrow> nat \<Rightarrow> (grid_error, nat) result" where
  "blocks_for_value value_size block_size =
     (let n = div_ceil value_size block_size in if n < 2 ^ 32 then Inr n else Inl GridPanic)"

definition create_new_page :: "gridstore \<Rightarrow> (grid_error, gridstore) result" where
  "create_new_page s =
     (let pages = gs_pages s @ [replicate (page_size_bytes (gs_config s)) 0]
      in and_then (cover_new_page (gs_bitmask s)) (\<lambda>bm. Inr (s\<lparr>gs_pages := pages, gs_bitmask := bm\<rparr>)))"

fun create_pages :: "nat \<Rightarrow> gridstore \<Rightarrow> (grid_error, gridstore) result" where
  "create_pages 0 s = Inr s"
| "create_pages (Suc n) s = and_then (create_new_page s) (create_pages n)"

definition find_or_create_available_blocks ::
  "gridstore \<Rightarrow> nat \<Rightarrow> (grid_error, gridstore \<times> nat \<times> nat) result" where
  "find_or_create_available_blocks s num_blocks =
     (if num_blocks = 0 then Inl GridPanic
      else and_then (find_available_blocks (gs_bitmask s) num_blocks) (\<lambda>found.
        case found of
          Some available \<Rightarrow> Inr (s, available)
        | None \<Rightarrow>
            (let missing_blocks = num_blocks - bm_trailing_free_blocks (gs_bitmask s);
                 num_pages = div_ceil (missing_blocks * block_size_bytes (gs_config s)) (page_size_bytes (gs_config s))
             in and_then (create_pages num_pages s) (\<lambda>s1.
                  and_then (find_available_blocks (gs_bitmask s1) num_blocks) (\<lambda>found1.
                    case found1 of Some available \<Rightarrow> Inr (s1, available) | None \<Rightarrow> Inl GridPanic)))))"

definition write_into_pages :: "gridstore \<Rightarrow> u8 list \<Rightarrow> nat \<Rightarrow> nat \<Rightarrow> (grid_error, gridstore) result" where
  "write_into_pages s val start_page_id block_offset =
     and_then (write_to_pages (gs_pages s)
         (value_pointer_new start_page_id block_offset (length val mod 2 ^ 32)) val (gs_config s))
       (\<lambda>pages. Inr (s\<lparr>gs_pages := pages\<rparr>))"

definition put_value :: "'v codec \<Rightarrow> gridstore \<Rightarrow> nat \<Rightarrow> 'v \<Rightarrow> (grid_error, gridstore \<times> bool) result" where
  "put_value co s point_offset val =
     (let comp_value = vw_compress co (with_view s) (to_bytes co val); value_size = length comp_value in
      and_then (blocks_for_value value_size (block_size_bytes (gs_config s))) (\<lambda>required_blocks.
      and_then (find_or_create_available_blocks s required_blocks) (\<lambda>(s1, start_page_id, block_offset).
      and_then (write_into_pages s1 comp_value start_page_id block_offset) (\<lambda>s2.
      and_then (mark_blocks (gs_bitmask s2) start_page_id block_offset required_blocks True) (\<lambda>bm.
        let is_update = has_pointer (gs_tracker s2) point_offset;
            t = tracker_set (gs_tracker s2) point_offset
                  (value_pointer_new start_page_id block_offset (value_size mod 2 ^ 32))
        in Inr (s2\<lparr>gs_bitmask := bm, gs_tracker := t\<rparr>, is_update))))))"

definition delete_value :: "'v codec \<Rightarrow> gridstore \<Rightarrow> nat \<Rightarrow> (grid_error, gridstore \<times> 'v option) result" where
  "delete_value co s point_offset =
     (case tracker_unset (gs_tracker s) point_offset of
        (t, None) \<Rightarrow> Inr (s\<lparr>gs_tracker := t\<rparr>, None)
      | (t, Some p) \<Rightarrow>
          (let s1 = s\<lparr>gs_tracker := t\<rparr> in
           and_then (vw_read_from_pages (with_view s1) p) (\<lambda>raw.
             Inr (s1, Some (from_bytes co (vw_decompress co (with_view s1) raw))))))"

definition gs_clear :: "gridstore \<Rightarrow> (grid_error, gridstore) result" where
  "gs_clear s = gs_new (gs_lock s + 1) (options_of_config (gs_config s))"

definition gs_get_value :: "'v codec \<Rightarrow> gridstore \<Rightarrow> nat \<Rightarrow> (grid_error, 'v option) result" where
  "gs_get_value co s point_offset = vw_get_value co (with_view s) point_offset"

definition max_point_offset :: "gridstore \<Rightarrow> nat" where
  "max_point_offset s = next_pointer_offset (gs_tracker s)"

definition BATCH_SIZE :: nat where "BATCH_SIZE = 128"

partial_function (option) gs_iter_from ::
  "'v codec \<Rightarrow> gridstore \<Rightarrow> (grid_error \<Rightarrow> 'e) \<Rightarrow> ('s \<Rightarrow> nat \<Rightarrow> 'v \<Rightarrow> ('e, 's \<times> bool) result) \<Rightarrow>
   nat \<Rightarrow> 's \<Rightarrow> ('e, 's) result option" where
  "gs_iter_from co s from_err callback from_offset acc =
     (case vw_iter co (with_view s) from_err from_offset (2 ^ 32 - 1) BATCH_SIZE callback acc of
        Inl e \<Rightarrow> Some (Inl e)
      | Inr (acc1, flow) \<Rightarrow>
          (case flow of
             CF_Continue next_offset \<Rightarrow> gs_iter_from co s from_err callback next_offset acc1
           | CF_Break \<Rightarrow> Some (Inr acc1)))"

definition gs_iter ::
  "'v codec \<Rightarrow> gridstore \<Rightarrow> (grid_error \<Rightarrow> 'e) \<Rightarrow> ('s \<Rightarrow> nat \<Rightarrow> 'v \<Rightarrow> ('e, 's \<times> bool) result) \<Rightarrow>
   's \<Rightarrow> ('e, 's) result option" where
  "gs_iter co s from_err callback acc = gs_iter_from co s from_err callback 0 acc"

section \<open>Flushing\<close>

record flusher =
  fl_pending :: "(nat, pointer_updates) hashmap"
  fl_lock :: nat
  fl_block_size :: nat

definition gs_flusher :: "gridstore \<Rightarrow> flusher" where
  "gs_flusher s = \<lparr>fl_pending = pending_updates (gs_tracker s), fl_lock = gs_lock s,
     fl_block_size = block_size_bytes (gs_config s)\<rparr>"

text \<open>The consecutive pointers of one page (\<open>chunk_by\<close>), their block ranges, and freeing them.\<close>

fun chunk_by_page :: "value_pointer list \<Rightarrow> (nat \<times> value_pointer list) list" where
  "chunk_by_page [] = []"
| "chunk_by_page (p # ps) =
     (case chunk_by_page ps of
        [] \<Rightarrow> [(vp_page_id p, [p])]
      | (page, ps') # chunks \<Rightarrow>
          if vp_page_id p = page then (page, p # ps') # chunks else (vp_page_id p, [p]) # (page, ps') # chunks)"

fun local_ranges :: "nat \<Rightarrow> value_pointer list \<Rightarrow> (grid_error, (nat \<times> nat) list) result" where
  "local_ranges block_size [] = Inr []"
| "local_ranges block_size (p # ps) =
     and_then (blocks_for_value (vp_length p) block_size) (\<lambda>n.
       and_then (local_ranges block_size ps) (\<lambda>rs. Inr ((vp_block_offset p, vp_block_offset p + n) # rs)))"

fun free_chunks :: "nat \<Rightarrow> bitmask \<Rightarrow> (nat \<times> value_pointer list) list \<Rightarrow> (grid_error, bitmask) result" where
  "free_chunks block_size bm [] = Inr bm"
| "free_chunks block_size bm ((page_id, pointers) # chunks) =
     and_then (local_ranges block_size pointers) (\<lambda>ranges.
       and_then (mark_blocks_batch bm page_id ranges False) (\<lambda>bm1. free_chunks block_size bm1 chunks))"

definition flush_free_blocks :: "bitmask \<Rightarrow> value_pointer list \<Rightarrow> nat \<Rightarrow> (grid_error, bitmask) result" where
  "flush_free_blocks bm old_pointers block_size = free_chunks block_size bm (chunk_by_page old_pointers)"

definition run_flusher :: "flusher \<Rightarrow> gridstore \<Rightarrow> (grid_error, gridstore) result" where
  "run_flusher fl s =
     (if fl_lock fl \<noteq> gs_lock s then Inl FlushCancelled
      else (let (t, old_pointers) = write_pending (gs_tracker s) (fl_pending fl); s1 = s\<lparr>gs_tracker := t\<rparr> in
        if old_pointers = [] then Inr s1
        else and_then (flush_free_blocks (gs_bitmask s) old_pointers (fl_block_size fl)) (\<lambda>bm.
          Inr (s1\<lparr>gs_bitmask := bm\<rparr>))))"

end
