(* ===== verification/GridstoreInv.thy ===== *)
theory GridstoreInv
  imports Gridstore
begin

text \<open>
  The invariant of the grid store and what its operations do: every pointer the tracker still needs (stored,
  current or waiting to be freed) has its blocks marked, and no two of them share a block.
\<close>

section \<open>The blocks and the bytes of a pointer\<close>

definition ptr_start :: "storage_config \<Rightarrow> value_pointer \<Rightarrow> nat" where
  "ptr_start c p = vp_page_id p * page_blocks c + vp_block_offset p"

definition ptr_len :: "storage_config \<Rightarrow> value_pointer \<Rightarrow> nat" where
  "ptr_len c p = div_ceil (vp_length p) (block_size_bytes c)"

definition ptr_blocks :: "storage_config \<Rightarrow> value_pointer \<Rightarrow> nat set" where
  "ptr_blocks c p = {ptr_start c p..<ptr_start c p + ptr_len c p}"

definition stored_ok :: "storage_config \<Rightarrow> bool list \<Rightarrow> value_pointer \<Rightarrow> bool" where
  "stored_ok c bits p \<longleftrightarrow> pointer_ok p \<and> 0 < vp_length p \<and> vp_block_offset p < page_blocks c \<and>
     (\<forall>k \<in> ptr_blocks c p. k < length bits \<and> bits ! k)"

definition ptr_bytes :: "gridstore \<Rightarrow> value_pointer \<Rightarrow> u8 list" where
  "ptr_bytes s p = (let a = ptr_start (gs_config s) p * block_size_bytes (gs_config s)
     in slice (concat (gs_pages s)) a (a + vp_length p))"

text \<open>The pointers the tracker has for a point.\<close>

definition owned :: "tracker \<Rightarrow> nat \<Rightarrow> value_pointer set" where
  "owned t k = set_option (raw_pointer t k) \<union>
     (case map_of (pending_updates t) k of None \<Rightarrow> {}
      | Some u \<Rightarrow> set_option (pu_current u) \<union> set (pu_to_free u))"

definition store_shape :: "gridstore \<Rightarrow> bool" where
  "store_shape s \<longleftrightarrow> bm_ok (gs_bitmask s) \<and> bm_config (gs_bitmask s) = gs_config s \<and>
     page_blocks (gs_config s) \<le> 2 ^ 32 \<and> pages_ok (page_size_bytes (gs_config s)) (gs_pages s) \<and>
     length (gs_pages s) * page_blocks (gs_config s) = length (bitslice (gs_bitmask s))"

definition owners_ok :: "storage_config \<Rightarrow> bool list \<Rightarrow> tracker \<Rightarrow> bool" where
  "owners_ok c bits t \<longleftrightarrow>
     (\<forall>k p. p \<in> owned t k \<longrightarrow> stored_ok c bits p \<and> k < next_pointer_offset t) \<and>
     (\<forall>j k p q. p \<in> owned t j \<longrightarrow> q \<in> owned t k \<longrightarrow> (j, p) \<noteq> (k, q) \<longrightarrow> ptr_blocks c p \<inter> ptr_blocks c q = {}) \<and>
     (\<forall>k u p. map_of (pending_updates t) k = Some u \<longrightarrow> pu_current u = Some p \<longrightarrow> raw_pointer t k \<noteq> Some p)"

definition gs_ok :: "gridstore \<Rightarrow> bool" where
  "gs_ok s \<longleftrightarrow> store_shape s \<and> tracker_ok (gs_tracker s) \<and>
     owners_ok (gs_config s) (bitslice (gs_bitmask s)) (gs_tracker s)"

definition gs_lookup :: "'v codec \<Rightarrow> gridstore \<Rightarrow> nat \<Rightarrow> 'v option" where
  "gs_lookup co s k = map_option (\<lambda>p. from_bytes co (vw_decompress co (with_view s) (ptr_bytes s p)))
     (tracker_get (gs_tracker s) k)"

lemma owners_okD:
  assumes "owners_ok c bits t"
  shows "p \<in> owned t k \<Longrightarrow> stored_ok c bits p" "p \<in> owned t k \<Longrightarrow> k < next_pointer_offset t"
    "p \<in> owned t j \<Longrightarrow> q \<in> owned t k \<Longrightarrow> (j, p) \<noteq> (k, q) \<Longrightarrow> ptr_blocks c p \<inter> ptr_blocks c q = {}"
    "map_of (pending_updates t) k = Some u \<Longrightarrow> pu_current u = Some p \<Longrightarrow> raw_pointer t k \<noteq> Some p"
  using assms unfolding owners_ok_def by blast+

lemma store_shapeD:
  assumes "store_shape s"
  shows "bm_ok (gs_bitmask s)" "bm_config (gs_bitmask s) = gs_config s" "page_blocks (gs_config s) \<le> 2 ^ 32"
    "pages_ok (page_size_bytes (gs_config s)) (gs_pages s)"
    "length (gs_pages s) * page_blocks (gs_config s) = length (bitslice (gs_bitmask s))"
    "config_ok (gs_config s)" "0 < block_size_bytes (gs_config s)"
    "page_size_bytes (gs_config s) = page_blocks (gs_config s) * block_size_bytes (gs_config s)"
    "length (concat (gs_pages s)) = length (bitslice (gs_bitmask s)) * block_size_bytes (gs_config s)"
proof -
  show a: "bm_ok (gs_bitmask s)" "bm_config (gs_bitmask s) = gs_config s" "page_blocks (gs_config s) \<le> 2 ^ 32"
    "pages_ok (page_size_bytes (gs_config s)) (gs_pages s)"
    "length (gs_pages s) * page_blocks (gs_config s) = length (bitslice (gs_bitmask s))"
    using assms by (simp_all add: store_shape_def)
  show c: "config_ok (gs_config s)" using bm_okD(5) [OF a(1)] a(2) by simp
  then show "0 < block_size_bytes (gs_config s)" by (simp add: config_ok_def)
  show e: "page_size_bytes (gs_config s) = page_blocks (gs_config s) * block_size_bytes (gs_config s)"
    by (rule config_blocks(5) [OF c])
  show "length (concat (gs_pages s)) = length (bitslice (gs_bitmask s)) * block_size_bytes (gs_config s)"
    using length_concat_pages [OF a(4)] by (simp add: e a(5) [symmetric])
qed

lemma owned_cases:
  "tracker_get t k = Some p \<Longrightarrow> p \<in> owned t k" "raw_pointer t k = Some p \<Longrightarrow> p \<in> owned t k"
  "map_of (pending_updates t) k = Some u \<Longrightarrow> pu_current u = Some p \<Longrightarrow> p \<in> owned t k"
  "map_of (pending_updates t) k = Some u \<Longrightarrow> p \<in> set (pu_to_free u) \<Longrightarrow> p \<in> owned t k"
  by (auto simp: owned_def tracker_get_raw split: option.splits if_splits)

lemma div_ceil_pos: "0 < n \<Longrightarrow> 0 < b \<Longrightarrow> 0 < div_ceil n b \<and> div_ceil n b \<le> n"
proof -
  assume "0 < n" "0 < b"
  have "n \<le> n * b" "n div b \<le> n" using \<open>0 < b\<close> by simp_all
  show ?thesis
  proof (cases "n mod b = 0")
    case True
    then show ?thesis using \<open>0 < n\<close> \<open>0 < b\<close> by (auto simp: div_ceil_def)
  next
    case False
    then have "b \<noteq> 1" by auto
    then have "n div b < n" using \<open>0 < n\<close> \<open>0 < b\<close> by simp
    then show ?thesis using False by (simp add: div_ceil_def)
  qed
qed

text \<open>The bytes of a run of blocks are inside the pages.\<close>

lemma run_bytes:
  assumes "store_shape s" "0 < n" "a + div_ceil n (block_size_bytes (gs_config s)) \<le> length (bitslice (gs_bitmask s))"
  shows "a * block_size_bytes (gs_config s) + n \<le> length (concat (gs_pages s))"
proof -
  note sh = store_shapeD [OF assms(1)]
  let ?B = "block_size_bytes (gs_config s)"
  have "n \<le> div_ceil n ?B * ?B" using div_ceil_bounds(1) [OF assms(2) sh(7)] .
  moreover have "(a + div_ceil n ?B) * ?B \<le> length (bitslice (gs_bitmask s)) * ?B"
    using assms(3) by (rule mult_le_mono1)
  ultimately show ?thesis unfolding sh(9) by (simp add: add_mult_distrib)
qed

lemma stored_end:
  assumes "stored_ok c bits p" "0 < block_size_bytes c"
  shows "ptr_start c p + ptr_len c p \<le> length bits"
proof -
  have "0 < ptr_len c p" using assms div_ceil_pos by (simp add: stored_ok_def ptr_len_def)
  then have "ptr_start c p + ptr_len c p - 1 \<in> ptr_blocks c p" by (simp add: ptr_blocks_def)
  then show ?thesis using assms(1) \<open>0 < ptr_len c p\<close> unfolding stored_ok_def by fastforce
qed

lemma read_stored:
  assumes sh: "store_shape s" and p: "stored_ok (gs_config s) (bitslice (gs_bitmask s)) p"
  shows "vw_read_from_pages (with_view s) p = Inr (ptr_bytes s p)"
    "ptr_start (gs_config s) p * block_size_bytes (gs_config s) + vp_length p \<le> length (concat (gs_pages s))"
proof -
  note d = store_shapeD [OF sh]
  let ?c = "gs_config s" let ?B = "block_size_bytes ?c"
  have a: "vp_page_id p * page_size_bytes ?c + vp_block_offset p * ?B = ptr_start ?c p * ?B"
    by (simp add: d(8) ptr_start_def add_mult_distrib)
  show le: "ptr_start ?c p * ?B + vp_length p \<le> length (concat (gs_pages s))"
    using run_bytes [OF sh, of "vp_length p" "ptr_start ?c p"] stored_end [OF p d(7)] p
    by (simp add: stored_ok_def ptr_len_def)
  have "vp_block_offset p * ?B < page_size_bytes ?c" using p d(7,8) by (simp add: stored_ok_def)
  from read_from_pages_flat [OF d(4) this] show "vw_read_from_pages (with_view s) p = Inr (ptr_bytes s p)"
    using le by (simp add: vw_read_from_pages_def with_view_def ptr_bytes_def Let_def a)
qed

lemma gs_get_lookup:
  assumes "gs_ok s"
  shows "gs_get_value co s k = Inr (gs_lookup co s k)"
proof (cases "tracker_get (gs_tracker s) k")
  case None
  then show ?thesis by (simp add: gs_get_value_def vw_get_value_def gs_lookup_def with_view_def)
next
  case (Some p)
  have o: "owners_ok (gs_config s) (bitslice (gs_bitmask s)) (gs_tracker s)" and sh: "store_shape s"
    using assms by (simp_all add: gs_ok_def)
  have "stored_ok (gs_config s) (bitslice (gs_bitmask s)) p" using owners_okD(1) [OF o] owned_cases(1) [OF Some] .
  then have "vw_read_from_pages (with_view s) p = Inr (ptr_bytes s p)" by (rule read_stored(1) [OF sh])
  then show ?thesis using Some
    by (simp add: gs_get_value_def vw_get_value_def gs_lookup_def) (simp add: with_view_def)
qed

section \<open>Finding blocks for a value\<close>

text \<open>A store with more pages at its end.\<close>

definition grown :: "gridstore \<Rightarrow> nat \<Rightarrow> gridstore \<Rightarrow> bool" where
  "grown s n s1 \<longleftrightarrow> store_shape s1 \<and> gs_config s1 = gs_config s \<and> gs_tracker s1 = gs_tracker s \<and>
     gs_lock s1 = gs_lock s \<and> length (gs_pages s1) = length (gs_pages s) + n \<and>
     concat (gs_pages s1) = concat (gs_pages s) @ replicate (n * page_size_bytes (gs_config s)) 0 \<and>
     bitslice (gs_bitmask s1) = bitslice (gs_bitmask s) @ replicate (n * page_blocks (gs_config s)) False"

lemma grown_refl: "store_shape s \<Longrightarrow> grown s 0 s"
  by (simp add: grown_def)

lemma grown_step: "grown s n s1 \<Longrightarrow> grown s1 m s2 \<Longrightarrow> grown s (n + m) s2"
  unfolding grown_def by (simp add: add_mult_distrib replicate_add add.assoc)

lemma create_new_page_grown:
  assumes sh: "store_shape s"
  shows "\<exists>s1. create_new_page s = Inr s1 \<and> grown s 1 s1"
proof -
  note d = store_shapeD [OF sh]
  obtain bm where bm: "cover_new_page (gs_bitmask s) = Inr bm" "bm_ok bm" "bm_config bm = gs_config s"
    "bitslice bm = bitslice (gs_bitmask s) @ replicate (page_blocks (gs_config s)) False"
    using cover_new_page_spec [OF d(1)] d(2) by auto
  show ?thesis
    using bm d(3,4,5) by (simp add: create_new_page_def grown_def store_shape_def pages_ok_def)
qed

lemma create_pages_grown:
  assumes "store_shape s"
  shows "\<exists>s1. create_pages n s = Inr s1 \<and> grown s n s1"
  using assms
proof (induction n arbitrary: s)
  case 0
  then show ?case by (simp add: grown_refl)
next
  case (Suc n)
  obtain s1 where s1: "create_new_page s = Inr s1" "grown s 1 s1" using create_new_page_grown [OF Suc.prems] by blast
  obtain s2 where s2: "create_pages n s1 = Inr s2" "grown s1 n s2"
    using Suc.IH [of s1] s1(2) by (auto simp: grown_def)
  have "grown s (Suc n) s2" using grown_step [OF s1(2) s2(2)] by simp
  then show ?case using s1(1) s2(1) by simp
qed


lemma trailing_run:
  assumes "n \<le> zeros_run (rev bs) + k"
  shows "\<exists>s. free_run (bs @ replicate k False) s n"
proof -
  let ?bs = "bs @ replicate k False"
  have z: "zeros_run (rev ?bs) = k + zeros_run (rev bs)" by (simp add: zeros_run_append)
  moreover have "zeros_run (rev ?bs) \<le> length ?bs" using zeros_run_le [of "rev ?bs"] by simp
  ultimately have n: "n \<le> length ?bs" "n \<le> zeros_run (rev ?bs)" using assms by linarith+
  then have f: "\<forall>i. length ?bs - n \<le> i \<and> i < length ?bs \<longrightarrow> \<not> ?bs ! i" using zeros_run_rev_iff by blast
  have "\<not> ?bs ! (length ?bs - n + i)" if "i < n" for i using spec [OF f, of "length ?bs - n + i"] n(1) that by linarith
  then have "free_run ?bs (length ?bs - n) n" unfolding free_run_def using n(1) by simp
  then show ?thesis by blast
qed

definition pages_needed :: "storage_config \<Rightarrow> nat \<Rightarrow> nat" where
  "pages_needed c n = div_ceil (n * block_size_bytes c) (page_size_bytes c)"

lemma div_ceil_mono: "m \<le> n \<Longrightarrow> 0 < b \<Longrightarrow> div_ceil m b \<le> div_ceil n b"
proof -
  assume mn: "m \<le> n" and b: "0 < b"
  show ?thesis
  proof (cases "m = 0 \<or> n = 0")
    case True
    then show ?thesis using mn by (auto simp: div_ceil_def)
  next
    case False
    then have "(div_ceil m b - 1) * b < m" "n \<le> div_ceil n b * b" using div_ceil_bounds b by simp_all
    then have "(div_ceil m b - 1) * b < div_ceil n b * b" using mn by linarith
    then have "div_ceil m b - 1 < div_ceil n b" using mult_less_cancel2 by blast
    then show ?thesis by linarith
  qed
qed

lemma find_or_create_spec:
  assumes sh: "store_shape s" and n: "0 < n"
  shows "\<exists>s1 page off m. find_or_create_available_blocks s n = Inr (s1, page, off) \<and> grown s m s1 \<and>
    m \<le> pages_needed (gs_config s) n \<and> off < page_blocks (gs_config s) \<and>
    free_run (bitslice (gs_bitmask s1)) (page * page_blocks (gs_config s) + off) n"
proof -
  note d = store_shapeD [OF sh]
  let ?c = "gs_config s" let ?bm = "gs_bitmask s" let ?B = "block_size_bytes ?c" and ?P = "page_blocks ?c"
  obtain r where r: "find_available_blocks ?bm n = Inr r"
    "case r of None \<Rightarrow> \<forall>s. \<not> free_run (bitslice ?bm) s n
     | Some (page, offset) \<Rightarrow> offset < ?P \<and> free_run (bitslice ?bm) (page * ?P + offset) n"
    using find_available_blocks_spec [OF d(1) n] unfolding d(2) by blast
  show ?thesis
  proof (cases r)
    case (Some x)
    then show ?thesis using r n grown_refl [OF sh]
      by (cases x) (auto simp: find_or_create_available_blocks_def intro!: exI [of _ 0])
  next
    case None
    let ?miss = "n - bm_trailing_free_blocks ?bm"
    let ?m = "pages_needed ?c ?miss"
    obtain s1 where s1: "create_pages ?m s = Inr s1" "grown s ?m s1" using create_pages_grown [OF sh] by blast
    have P: "0 < page_size_bytes ?c" using d(6) by (simp add: config_ok_def)
    have "?miss \<le> ?m * ?P"
    proof (cases "?miss = 0")
      case False
      then have "?miss * ?B \<le> ?m * page_size_bytes ?c"
        using div_ceil_bounds(1) [of "?miss * ?B"] d(7) P by (simp add: pages_needed_def)
      then have "?miss * ?B \<le> ?m * ?P * ?B" by (simp add: d(8) mult.assoc)
      then show ?thesis using d(7) by simp
    qed simp
    then have "n \<le> zeros_run (rev (bitslice ?bm)) + ?m * ?P"
      unfolding trailing_free_blocks_spec [OF d(1)] by linarith
    then obtain a where a: "free_run (bitslice (gs_bitmask s1)) a n"
      using trailing_run s1(2) unfolding grown_def by metis
    have d1: "bm_ok (gs_bitmask s1)" "bm_config (gs_bitmask s1) = ?c"
      using store_shapeD(1,2) [of s1] s1(2) by (simp_all add: grown_def)
    obtain r1 where r1: "find_available_blocks (gs_bitmask s1) n = Inr r1"
      "case r1 of None \<Rightarrow> \<forall>s. \<not> free_run (bitslice (gs_bitmask s1)) s n
       | Some (page, offset) \<Rightarrow> offset < ?P \<and> free_run (bitslice (gs_bitmask s1)) (page * ?P + offset) n"
      using find_available_blocks_spec [OF d1(1) n] unfolding d1(2) by blast
    then obtain page off where x: "r1 = Some (page, off)" using a by (cases r1) auto
    have "find_or_create_available_blocks s n = Inr (s1, page, off)"
      using r(1) None n s1(1) r1(1) x by (simp add: find_or_create_available_blocks_def pages_needed_def Let_def)
    moreover have "?m \<le> pages_needed ?c n"
      unfolding pages_needed_def using P by (intro div_ceil_mono mult_le_mono1) simp_all
    ultimately show ?thesis using s1(2) r1(2) x by auto
  qed
qed

section \<open>Storing a value\<close>

lemma raw_tracker_set [simp]:
  "raw_pointer (tracker_set t k np) j = raw_pointer t j" "file_ok (tracker_set t k np) = file_ok t"
  by (simp_all add: raw_pointer_def get_raw_def tracker_set_def file_ok_def Let_def)

lemma pending_tracker_set:
  "pending_updates (tracker_set t k np) = AList.update k (pu_set (pending_of t k) np) (pending_updates t)"
  by (simp add: tracker_set_def)

lemma pu_set_current [simp]: "pu_current (pu_set u np) = Some np"
  by (simp add: pu_set_def split: option.split)

lemma owned_tracker_set:
  "owned (tracker_set t k np) j \<subseteq> (if j = k then insert np (owned t k) else owned t j)"
  "np \<in> owned (tracker_set t k np) k"
  by (auto simp: owned_def pending_tracker_set pending_of_def pu_default_def pu_set_def map_of_update
      split: option.splits if_splits)

lemma tracker_get_set:
  "tracker_get (tracker_set t k np) j = (if j = k then Some np else tracker_get t j)"
  by (simp add: tracker_get_raw pending_tracker_set map_of_update pu_is_empty_def split: option.split)

lemma tracker_set_ok:
  assumes t: "tracker_ok t" and np: "pointer_ok np" "np \<notin> owned t k"
  shows "tracker_ok (tracker_set t k np)"
proof -
  have u: "np \<notin> set (pu_to_free (pending_of t k))" "pu_current (pending_of t k) \<noteq> Some np"
    using np(2) by (auto simp: owned_def pending_of_def pu_default_def split: option.splits)
  have "pu_ok (pu_set (pending_of t k) np)"
    using u np(1) by (auto simp: pu_ok_def pu_is_empty_def pu_set_def split: option.split)
  then show ?thesis
    using t unfolding tracker_ok_def pending_tracker_set by (auto simp: map_of_update split: if_splits)
qed

lemma stored_grow:
  assumes "stored_ok c bits p" "length bits \<le> length bits'"
    "\<And>i. i < length bits \<Longrightarrow> bits ! i \<Longrightarrow> bits' ! i"
  shows "stored_ok c bits' p"
  using assms unfolding stored_ok_def by force

text \<open>The invariant after setting a pointer to blocks that were free.\<close>

lemma owners_set:
  assumes o: "owners_ok c bits t" and np: "stored_ok c bits' np"
    "free_run (bits @ replicate m False) (ptr_start c np) (ptr_len c np)"
    and bits': "length bits' = length bits + m" "\<forall>i < length bits. bits ! i \<longrightarrow> bits' ! i"
    and B: "0 < block_size_bytes c"
  shows "owners_ok c bits' (tracker_set t k np)" "np \<notin> owned t j" "p \<in> owned t j \<Longrightarrow> ptr_blocks c p \<inter> ptr_blocks c np = {}"
proof -
  note od = owners_okD [OF o]
  have disj: "ptr_blocks c p \<inter> ptr_blocks c np = {}" if "p \<in> owned t j" for p j
  proof -
    have "i \<notin> ptr_blocks c np" if i: "i \<in> ptr_blocks c p" for i
    proof
      assume "i \<in> ptr_blocks c np"
      then have "\<not> (bits @ replicate m False) ! i"
        using np(2) unfolding free_run_def ptr_blocks_def
        by (metis atLeastLessThan_iff le_add_diff_inverse nat_add_left_cancel_less)
      moreover have "i < length bits" "bits ! i" using od(1) [OF \<open>p \<in> owned t j\<close>] i by (auto simp: stored_ok_def)
      ultimately show False by (simp add: nth_append)
    qed
    then show ?thesis by blast
  qed
  have "0 < ptr_len c np" using np(1) B div_ceil_pos by (simp add: stored_ok_def ptr_len_def)
  then have "ptr_blocks c np \<noteq> {}" by (simp add: ptr_blocks_def)
  then have new: "np \<notin> owned t j" for j using disj by blast
  have own: "p = np \<and> j = k \<or> p \<in> owned t j" if "p \<in> owned (tracker_set t k np) j" for p j
    using that owned_tracker_set(1) [of t k np j] by (auto split: if_splits)
  show "owners_ok c bits' (tracker_set t k np)"
    unfolding owners_ok_def
  proof (intro conjI allI impI)
    fix j p assume "p \<in> owned (tracker_set t k np) j"
    then have p: "p = np \<and> j = k \<or> p \<in> owned t j" by (rule own)
    show "stored_ok c bits' p"
      using p np(1) od(1) [of p j] stored_grow [of c bits p bits'] bits' by auto
    show "j < next_pointer_offset (tracker_set t k np)"
      using p od(2) [of p j] by (auto simp: tracker_set_def)
  next
    fix i j p q
    assume a: "p \<in> owned (tracker_set t k np) i" "q \<in> owned (tracker_set t k np) j" "(i, p) \<noteq> (j, q)"
    show "ptr_blocks c p \<inter> ptr_blocks c q = {}"
      using own [OF a(1)] own [OF a(2)] a(3) od(3) [of p i q j] disj [of p i] disj [of q j] by blast
  next
    fix j u p assume a: "map_of (pending_updates (tracker_set t k np)) j = Some u" "pu_current u = Some p"
    show "raw_pointer (tracker_set t k np) j \<noteq> Some p"
    proof (cases "j = k")
      case True
      then have "p = np" using a by (auto simp: pending_tracker_set map_of_update)
      then show ?thesis using new [of j] owned_cases(2) [of t j] by auto
    next
      case False
      then have "map_of (pending_updates t) j = Some u" using a(1) by (simp add: pending_tracker_set map_of_update)
      then show ?thesis using od(4) a(2) by simp
    qed
  qed
  show "np \<notin> owned t j" by (rule new)
  show "p \<in> owned t j \<Longrightarrow> ptr_blocks c p \<inter> ptr_blocks c np = {}" by (rule disj)
qed

lemma intervals_apart:
  fixes a b n m :: nat
  assumes "{a..<a + n} \<inter> {b..<b + m} = {}" "0 < n" "0 < m"
  shows "a + n \<le> b \<or> b + m \<le> a"
proof (rule ccontr)
  assume "\<not> ?thesis"
  then have "max a b \<in> {a..<a + n} \<inter> {b..<b + m}" using assms(2,3) by auto
  then show False using assms(1) by blast
qed

definition encode :: "'v codec \<Rightarrow> storage_config \<Rightarrow> 'v \<Rightarrow> u8 list" where
  "encode co c v = (case cfg_compression c of NoCompression \<Rightarrow> to_bytes co v | LZ4 \<Rightarrow> compress_lz4 co (to_bytes co v))"

definition decode :: "'v codec \<Rightarrow> storage_config \<Rightarrow> u8 list \<Rightarrow> 'v" where
  "decode co c raw = from_bytes co (case cfg_compression c of NoCompression \<Rightarrow> raw | LZ4 \<Rightarrow> decompress_lz4 co raw)"

lemma view_codec:
  "vw_compress co (with_view s) (to_bytes co v) = encode co (gs_config s) v"
  "from_bytes co (vw_decompress co (with_view s) raw) = decode co (gs_config s) raw"
  by (simp_all add: vw_compress_def vw_decompress_def with_view_def encode_def decode_def split: compression.split)

text \<open>A value the store can take: it is read back from its bytes, which are not empty and fit in a \<open>u32\<close>.\<close>

definition value_ok :: "'v codec \<Rightarrow> storage_config \<Rightarrow> 'v \<Rightarrow> bool" where
  "value_ok co c v \<longleftrightarrow> decode co c (encode co c v) = v \<and> 0 < length (encode co c v) \<and> length (encode co c v) < 2 ^ 32"

definition value_pages :: "'v codec \<Rightarrow> storage_config \<Rightarrow> 'v \<Rightarrow> nat" where
  "value_pages co c v = pages_needed c (div_ceil (length (encode co c v)) (block_size_bytes c))"

text \<open>What stays the same when bytes are written at blocks that a pointer does not have.\<close>

lemma ptr_bytes_frame:
  assumes sh: "store_shape s" and p: "stored_ok (gs_config s) (bitslice (gs_bitmask s)) p"
    and np: "stored_ok (gs_config s) bits' np" "ptr_blocks (gs_config s) p \<inter> ptr_blocks (gs_config s) np = {}"
    and val: "length val = vp_length np" and c: "gs_config s' = gs_config s"
    and le: "ptr_start (gs_config s) np * block_size_bytes (gs_config s) + vp_length np \<le> length (concat (gs_pages s) @ z)"
    and s': "concat (gs_pages s') = blit (ptr_start (gs_config s) np * block_size_bytes (gs_config s)) val (concat (gs_pages s) @ z)"
  shows "ptr_bytes s' p = ptr_bytes s p"
proof -
  note d = store_shapeD [OF sh]
  let ?c = "gs_config s" let ?B = "block_size_bytes ?c"
  let ?a = "ptr_start ?c np * ?B" and ?b = "ptr_start ?c p * ?B" and ?flat = "concat (gs_pages s)"
  have pos: "0 < ptr_len ?c p" "0 < ptr_len ?c np" "0 < vp_length p" "0 < vp_length np"
    using p np(1) d(7) div_ceil_pos by (auto simp: stored_ok_def ptr_len_def)
  have len: "vp_length p \<le> ptr_len ?c p * ?B" "vp_length np \<le> ptr_len ?c np * ?B"
    using div_ceil_bounds(1) [OF pos(3) d(7)] div_ceil_bounds(1) [OF pos(4) d(7)] by (simp_all add: ptr_len_def)
  have "ptr_start ?c p + ptr_len ?c p \<le> ptr_start ?c np \<or> ptr_start ?c np + ptr_len ?c np \<le> ptr_start ?c p"
    using intervals_apart np(2) pos(1,2) by (simp add: ptr_blocks_def)
  then have "(ptr_start ?c p + ptr_len ?c p) * ?B \<le> ?a \<or> (ptr_start ?c np + ptr_len ?c np) * ?B \<le> ?b"
    by (metis mult_le_mono1)
  then have apart: "?b + vp_length p \<le> ?a \<or> ?a + length val \<le> ?b"
    using len val by (auto simp: add_mult_distrib)
  have inside: "?b + vp_length p \<le> length ?flat" by (rule read_stored(2) [OF sh p])
  have "slice (blit ?a val (?flat @ z)) ?b (?b + vp_length p) = slice (?flat @ z) ?b (?b + vp_length p)"
  proof (cases "?b + vp_length p \<le> ?a")
    case True
    then show ?thesis using le by (intro slice_blit_before) simp_all
  next
    case False
    then have "?a + length val \<le> ?b" using apart by blast
    then show ?thesis using le val by (intro slice_blit_after) simp_all
  qed
  also have "\<dots> = slice ?flat ?b (?b + vp_length p)" using inside by (rule slice_append_left)
  finally show ?thesis using s' c by (simp add: ptr_bytes_def)
qed

lemma put_spec:
  assumes ok: "gs_ok s" and v: "value_ok co (gs_config s) v"
    and room: "length (gs_pages s) + value_pages co (gs_config s) v \<le> 2 ^ 32"
  obtains s' np where "put_value co s k v = Inr (s', gs_lookup co s k \<noteq> None)" "gs_ok s'"
    "gs_lookup co s' = (gs_lookup co s)(k \<mapsto> v)" "gs_config s' = gs_config s" "gs_lock s' = gs_lock s"
    "length (gs_pages s') \<le> length (gs_pages s) + value_pages co (gs_config s) v"
    "gs_tracker s' = tracker_set (gs_tracker s) k np" "\<And>j. np \<notin> owned (gs_tracker s) j"
    "\<And>j p. p \<in> owned (gs_tracker s) j \<Longrightarrow> ptr_bytes s' p = ptr_bytes s p"
proof -
  let ?c = "gs_config s" let ?B = "block_size_bytes ?c" and ?P = "page_blocks ?c" and ?t = "gs_tracker s"
  have sh: "store_shape s" and t: "tracker_ok ?t" and o: "owners_ok ?c (bitslice (gs_bitmask s)) ?t"
    using ok by (simp_all add: gs_ok_def)
  note d = store_shapeD [OF sh]
  define e where "e = encode co ?c v"
  define n where "n = div_ceil (length e) ?B"
  have e: "0 < length e" "length e < 2 ^ 32" "decode co ?c e = v" using v by (simp_all add: value_ok_def e_def)
  have n: "0 < n" "n < 2 ^ 32" using div_ceil_pos [OF e(1) d(7)] e(2) by (simp_all add: n_def)
  obtain s1 page off m where f: "find_or_create_available_blocks s n = Inr (s1, page, off)" "grown s m s1"
    "m \<le> pages_needed ?c n" "off < ?P" "free_run (bitslice (gs_bitmask s1)) (page * ?P + off) n"
    using find_or_create_spec [OF sh n(1)] by blast
  have g: "store_shape s1" "gs_config s1 = ?c" "gs_tracker s1 = ?t" "gs_lock s1 = gs_lock s"
    "length (gs_pages s1) = length (gs_pages s) + m"
    "concat (gs_pages s1) = concat (gs_pages s) @ replicate (m * page_size_bytes ?c) 0"
    "bitslice (gs_bitmask s1) = bitslice (gs_bitmask s) @ replicate (m * ?P) False"
    using f(2) by (simp_all add: grown_def)
  note d1 = store_shapeD [OF g(1), unfolded g(2)]
  define np where "np = value_pointer_new page off (length e)"
  have vp: "vp_page_id np = page" "vp_block_offset np = off" "vp_length np = length e"
    by (simp_all add: np_def value_pointer_new_def)
  have ps: "ptr_start ?c np = page * ?P + off" "ptr_len ?c np = n" by (simp_all add: ptr_start_def ptr_len_def vp n_def)
  have run: "ptr_start ?c np + n \<le> length (bitslice (gs_bitmask s1))" using f(5) by (simp add: free_run_def ps)
  have m: "m \<le> value_pages co ?c v" using f(3) by (simp add: value_pages_def n_def e_def)
  have "page * ?P < length (gs_pages s1) * ?P" using run n(1) unfolding d1(5) ps by linarith
  then have "page < length (gs_pages s1)" using mult_less_cancel2 by blast
  then have "page < 2 ^ 32" using room m g(5) by linarith
  then have npok: "pointer_ok np" using f(4) d(3) e(2) by (simp add: pointer_ok_def vp)
  let ?a = "ptr_start ?c np * ?B"
  have a: "vp_page_id np * page_size_bytes ?c + vp_block_offset np * ?B = ?a"
    by (simp add: d(8) ptr_start_def add_mult_distrib)
  have fits: "?a + length e \<le> length (concat (gs_pages s1))"
    using run_bytes [OF g(1) e(1), of "ptr_start ?c np"] run unfolding g(2) n_def .
  have off: "vp_block_offset np * ?B < page_size_bytes ?c" using f(4) d(7,8) by (simp add: vp)
  obtain pages where w: "write_to_pages (gs_pages s1) np e ?c = Inr pages" "pages_ok (page_size_bytes ?c) pages"
    "length pages = length (gs_pages s1)" "concat pages = blit ?a e (concat (gs_pages s1))"
    using write_to_pages_flat [OF d1(4) off vp(3)] fits unfolding a by blast
  obtain bm where b: "mark_blocks (gs_bitmask s1) page off n True = Inr bm" "bm_ok bm" "bm_config bm = ?c"
    "length (bitslice bm) = length (bitslice (gs_bitmask s1))"
    "\<forall>i < length (bitslice (gs_bitmask s1)). bitslice bm ! i =
       (if ptr_start ?c np \<le> i \<and> i < ptr_start ?c np + n then True else bitslice (gs_bitmask s1) ! i)"
    using mark_blocks_spec [OF d1(1), of page off n True] run unfolding d1(2) ps by blast
  have lb: "length (bitslice bm) = length (bitslice (gs_bitmask s)) + m * ?P" using b(4) g(7) by simp
  have st: "stored_ok ?c (bitslice bm) np"
    using npok e(1) f(4) run b(4,5) by (simp add: stored_ok_def vp ptr_blocks_def ps(2))
  have mono: "\<forall>i < length (bitslice (gs_bitmask s)). bitslice (gs_bitmask s) ! i \<longrightarrow> bitslice bm ! i"
    using b(5) g(7) by (simp add: nth_append)
  have fr: "free_run (bitslice (gs_bitmask s) @ replicate (m * ?P) False) (ptr_start ?c np) (ptr_len ?c np)"
    using f(5) unfolding g(7) ps .
  note os = owners_set [OF o st fr lb mono d(7)]
  define s' where "s' = s1\<lparr>gs_pages := pages, gs_bitmask := bm, gs_tracker := tracker_set ?t k np\<rparr>"
  have c': "gs_config s' = ?c" "gs_tracker s' = tracker_set ?t k np" by (simp_all add: s'_def g(2))
  have sh': "store_shape s'"
    using d(3) b(2,3,4) w(2,3) d1(5) by (simp add: store_shape_def s'_def g(2))
  have gs': "gs_ok s'"
    using sh' os(1) tracker_set_ok [OF t npok os(2)] by (simp add: gs_ok_def c') (simp add: s'_def)
  have frame: "ptr_bytes s' p = ptr_bytes s p" if q: "p \<in> owned ?t j" for p j
  proof -
    have p: "stored_ok ?c (bitslice (gs_bitmask s)) p" "ptr_blocks ?c p \<inter> ptr_blocks ?c np = {}"
      using owners_okD(1) [OF o q] os(3) [OF q] by blast+
    show ?thesis
      by (rule ptr_bytes_frame [OF sh p(1) st p(2) vp(3) [symmetric] c'(1),
            where z = "replicate (m * page_size_bytes ?c) 0"])
        (use fits w(4) in \<open>simp_all add: g(6) vp s'_def\<close>)
  qed
  have "gs_lookup co s' j = ((gs_lookup co s)(k \<mapsto> v)) j" for j
  proof (cases "j = k")
    case True
    have "ptr_bytes s' np = e" using slice_blit_exact [OF fits] w(4) by (simp add: ptr_bytes_def c' vp) (simp add: s'_def)
    then show ?thesis using True by (simp add: gs_lookup_def tracker_get_set view_codec c' e(3))
  next
    case False
    have "ptr_bytes s' p = ptr_bytes s p" if "tracker_get ?t j = Some p" for p
      using frame owned_cases(1) [OF that] .
    then show ?thesis using False
      by (cases "tracker_get ?t j") (simp_all add: gs_lookup_def tracker_get_set view_codec c')
  qed
  then have look: "gs_lookup co s' = (gs_lookup co s)(k \<mapsto> v)" by (rule ext)
  have put: "put_value co s k v = Inr (s', gs_lookup co s k \<noteq> None)"
  proof -
    have "length e mod 2 ^ 32 = length e" using e(2) by simp
    then have "write_into_pages s1 e page off = Inr (s1\<lparr>gs_pages := pages\<rparr>)"
      using w(1) by (simp add: write_into_pages_def np_def g(2))
    moreover have "blocks_for_value (length e) ?B = Inr n" using n(2) by (simp add: blocks_for_value_def n_def)
    ultimately show ?thesis
      using f(1) b(1) \<open>length e mod 2 ^ 32 = length e\<close>
      by (simp add: put_value_def view_codec e_def [symmetric] Let_def has_pointer_def gs_lookup_def g(3) s'_def np_def)
  qed
  have "gs_lock s' = gs_lock s" "length (gs_pages s') \<le> length (gs_pages s) + value_pages co ?c v"
    using g(4,5) w(3) m by (simp_all add: s'_def)
  from that [OF put gs' look c'(1) this c'(2) os(2) frame] show thesis .
qed

end
