(* ===== verification/GridstoreFlush.thy ===== *)
theory GridstoreFlush
  imports GridstoreInv
begin

text \<open>
  Deleting and flushing: a flusher writes the updates captured when it was made, and frees the blocks of
  the pointers they replaced, while the store may have gone on in between.
\<close>

section \<open>Deleting a value\<close>

lemma owners_subset:
  assumes o: "owners_ok c bits t" and sub: "\<And>j. owned t' j \<subseteq> owned t j"
    and n: "next_pointer_offset t \<le> next_pointer_offset t'" and len: "length bits' = length bits"
    and kept: "\<And>j p i. p \<in> owned t' j \<Longrightarrow> i \<in> ptr_blocks c p \<Longrightarrow> bits ! i \<Longrightarrow> bits' ! i"
    and fresh: "\<And>k u p. map_of (pending_updates t') k = Some u \<Longrightarrow> pu_current u = Some p \<Longrightarrow> raw_pointer t' k \<noteq> Some p"
  shows "owners_ok c bits' t'"
  unfolding owners_ok_def
proof (intro conjI allI impI)
  fix k p assume p: "p \<in> owned t' k"
  then have "p \<in> owned t k" using sub by blast
  note q = owners_okD(1,2) [OF o this]
  show "stored_ok c bits' p" using q(1) kept [OF p] len by (simp add: stored_ok_def)
  show "k < next_pointer_offset t'" using q(2) n by linarith
next
  fix j k p q assume "p \<in> owned t' j" "q \<in> owned t' k" "(j, p) \<noteq> (k, q)"
  then show "ptr_blocks c p \<inter> ptr_blocks c q = {}" using owners_okD(3) [OF o] sub by blast
next
  show "raw_pointer t' k \<noteq> Some p" if "map_of (pending_updates t') k = Some u" "pu_current u = Some p" for k u p
    using fresh that .
qed

lemma raw_tracker_unset [simp]:
  "raw_pointer (fst (tracker_unset t k)) j = raw_pointer t j" "file_ok (fst (tracker_unset t k)) = file_ok t"
  "next_pointer_offset (fst (tracker_unset t k)) = next_pointer_offset t"
  by (simp_all add: tracker_unset_def split: option.split)

lemma pending_tracker_unset:
  "map_of (pending_updates (fst (tracker_unset t k))) = (case tracker_get t k of None \<Rightarrow> map_of (pending_updates t)
     | Some p \<Rightarrow> (map_of (pending_updates t))(k \<mapsto> pu_unset (pending_of t k) p))"
  by (simp add: tracker_unset_def map_of_update split: option.split)

lemma pu_unset_fields: "pu_current (pu_unset u p) = None" "p \<in> set (pu_to_free (pu_unset u p))"
  "set (pu_to_free (pu_unset u p)) = insert p (set_option (pu_current u) \<union> set (pu_to_free u))"
  by (auto simp: pu_unset_def Let_def split: option.split)

lemma tracker_get_unset:
  "tracker_get (fst (tracker_unset t k)) j = (if j = k then None else tracker_get t j)"
proof (cases "tracker_get t k")
  case None
  then show ?thesis by (auto simp: tracker_unset_def)
next
  case (Some p)
  have "\<not> pu_is_empty (pu_unset u p)" for u using pu_unset_fields(2) [of p u] by (auto simp: pu_is_empty_def)
  then show ?thesis using Some
    by (simp add: tracker_get_raw [of "fst (tracker_unset t k)"] tracker_get_raw [of t j] pending_tracker_unset
        pu_unset_fields(1) split: option.split)
qed

lemma owned_tracker_unset: "owned (fst (tracker_unset t k)) j \<subseteq> owned t j"
proof (cases "tracker_get t k")
  case None
  then show ?thesis by (simp add: tracker_unset_def)
next
  case (Some p)
  have "set (pu_to_free (pu_unset (pending_of t k) p)) \<subseteq> owned t k"
    using owned_cases [OF] owned_cases(1) [OF Some]
    by (auto simp: pu_unset_fields(3) pending_of_def pu_default_def owned_def split: option.splits)
  then show ?thesis using Some
    by (auto simp: owned_def [of "fst (tracker_unset t k)"] pending_tracker_unset pu_unset_fields(1))
      (auto simp: owned_def)
qed

lemma tracker_unset_ok:
  assumes "tracker_ok t"
  shows "tracker_ok (fst (tracker_unset t k))"
proof (cases "tracker_get t k")
  case None
  then show ?thesis using assms by (simp add: tracker_unset_def)
next
  case (Some p)
  have "pu_ok (pu_unset u p)" for u
    using pu_unset_fields(2) [of p u] by (auto simp: pu_ok_def pu_is_empty_def pu_unset_fields(1))
  moreover have "hm_wf (pending_updates (fst (tracker_unset t k)))"
    using assms by (simp add: tracker_ok_def tracker_unset_def split: option.split)
  ultimately show ?thesis
    using assms Some unfolding tracker_ok_def by (auto simp: pending_tracker_unset split: if_splits)
qed

lemma delete_spec:
  fixes k :: nat
  assumes ok: "gs_ok s"
  defines "s' \<equiv> s\<lparr>gs_tracker := fst (tracker_unset (gs_tracker s) k)\<rparr>"
  shows "delete_value co s k = Inr (s', gs_lookup co s k)" "gs_ok s'" "gs_lookup co s' = (gs_lookup co s)(k := None)"
proof -
  let ?t = "gs_tracker s"
  have sh: "store_shape s" and t: "tracker_ok ?t" and o: "owners_ok (gs_config s) (bitslice (gs_bitmask s)) ?t"
    using ok by (simp_all add: gs_ok_def)
  have s': "gs_config s' = gs_config s" "gs_pages s' = gs_pages s" "gs_bitmask s' = gs_bitmask s"
    "gs_tracker s' = fst (tracker_unset ?t k)" by (simp_all add: s'_def)
  have b: "ptr_bytes s' p = ptr_bytes s p" for p by (simp add: ptr_bytes_def s'(1,2))
  have sh': "store_shape s'" using sh unfolding store_shape_def s'(1-3) .
  have "owners_ok (gs_config s) (bitslice (gs_bitmask s)) (fst (tracker_unset ?t k))"
  proof (rule owners_subset [OF o owned_tracker_unset])
    fix j u p
    assume "map_of (pending_updates (fst (tracker_unset ?t k))) j = Some u" "pu_current u = Some p"
    then have "map_of (pending_updates ?t) j = Some u"
      by (auto simp: pending_tracker_unset pu_unset_fields(1) split: option.splits if_splits)
    then show "raw_pointer (fst (tracker_unset ?t k)) j \<noteq> Some p"
      using owners_okD(4) [OF o] \<open>pu_current u = Some p\<close> by simp
  qed simp_all
  then show "gs_ok s'" using sh' tracker_unset_ok [OF t] by (simp add: gs_ok_def s')
  show "gs_lookup co s' = (gs_lookup co s)(k := None)"
    by (rule ext) (simp add: gs_lookup_def view_codec b s'(1,4) tracker_get_unset)
  show "delete_value co s k = Inr (s', gs_lookup co s k)"
  proof (cases "tracker_get ?t k")
    case None
    then show ?thesis by (simp add: delete_value_def tracker_unset_def gs_lookup_def s'_def)
  next
    case (Some p)
    then have "stored_ok (gs_config s') (bitslice (gs_bitmask s')) p"
      using owners_okD(1) [OF o] owned_cases(1) unfolding s' by blast
    note r = read_stored(1) [OF sh' this, unfolded b]
    obtain t' where u: "tracker_unset ?t k = (t', Some p)" using Some by (simp add: tracker_unset_def)
    then have "s' = s\<lparr>gs_tracker := t'\<rparr>" by (simp add: s'_def)
    with r have "vw_read_from_pages (with_view (s\<lparr>gs_tracker := t'\<rparr>)) p = Inr (ptr_bytes s p)" by simp
    then show ?thesis
      using Some u \<open>s' = s\<lparr>gs_tracker := t'\<rparr>\<close> by (simp add: delete_value_def gs_lookup_def view_codec Let_def)
  qed
qed

section \<open>Freeing blocks\<close>

lemma chunk_by_page_spec:
  "concat (map snd (chunk_by_page ps)) = ps \<and>
   (\<forall>(page, g) \<in> set (chunk_by_page ps). \<forall>p \<in> set g. vp_page_id p = page)"
proof (induction ps)
  case (Cons p ps)
  show ?case
  proof (cases "chunk_by_page ps")
    case Nil
    then show ?thesis using Cons.IH by simp
  next
    case (Cons x chunks)
    then show ?thesis using Cons.IH by (cases x) auto
  qed
qed simp

lemma local_ranges_spec:
  assumes "\<forall>p \<in> set ps. stored_ok c bits p" "0 < block_size_bytes c"
  shows "local_ranges (block_size_bytes c) ps = Inr (map (\<lambda>p. (vp_block_offset p, vp_block_offset p + ptr_len c p)) ps)"
  using assms(1)
proof (induction ps)
  case (Cons p ps)
  have "0 < vp_length p" "vp_length p < 2 ^ 32" using Cons.prems by (simp_all add: stored_ok_def pointer_ok_def)
  then have "blocks_for_value (vp_length p) (block_size_bytes c) = Inr (ptr_len c p)"
    using div_ceil_pos [of "vp_length p" "block_size_bytes c"] assms(2)
    by (simp add: blocks_for_value_def ptr_len_def)
  then show ?case using Cons by simp
qed simp

definition any_block :: "storage_config \<Rightarrow> value_pointer list \<Rightarrow> nat \<Rightarrow> bool" where
  "any_block c ps i \<longleftrightarrow> (\<exists>p \<in> set ps. i \<in> ptr_blocks c p)"

lemma any_block_append [simp]: "any_block c (ps @ qs) i \<longleftrightarrow> any_block c ps i \<or> any_block c qs i"
  by (auto simp: any_block_def)

lemma in_ranges_pointers:
  assumes "\<forall>p \<in> set ps. vp_page_id p = page"
  shows "in_ranges (map (\<lambda>p. (vp_block_offset p, vp_block_offset p + ptr_len c p)) ps) (page * page_blocks c) i
    \<longleftrightarrow> any_block c ps i"
  using assms by (auto simp: in_ranges_def any_block_def ptr_blocks_def ptr_start_def add_ac)

lemma free_chunks_spec:
  assumes "bm_ok bm" "bm_config bm = c" "0 < block_size_bytes c"
    "\<forall>(page, g) \<in> set chunks. \<forall>p \<in> set g. vp_page_id p = page \<and> stored_ok c bits p"
    "length bits = length (bitslice bm)"
  shows "\<exists>bm'. free_chunks (block_size_bytes c) bm chunks = Inr bm' \<and> bm_ok bm' \<and> bm_config bm' = c \<and>
    length (bitslice bm') = length (bitslice bm) \<and>
    (\<forall>i < length (bitslice bm). bitslice bm' ! i =
      (if any_block c (concat (map snd chunks)) i then False else bitslice bm ! i))"
  using assms
proof (induction chunks arbitrary: bm)
  case Nil
  then show ?case by (simp add: any_block_def)
next
  case (Cons x chunks)
  obtain page g where x: "x = (page, g)" by (cases x)
  let ?rs = "map (\<lambda>p. (vp_block_offset p, vp_block_offset p + ptr_len c p)) g"
  have g: "\<forall>p \<in> set g. vp_page_id p = page" "\<forall>p \<in> set g. stored_ok c bits p" using Cons.prems(4) x by auto
  have "\<forall>(a, b) \<in> set ?rs. a \<le> b \<and> b + page * page_blocks c \<le> length (bitslice bm)"
    using g stored_end [of c bits] Cons.prems(3,5) by (auto simp: ptr_start_def add_ac)
  then obtain bm1 where b: "mark_blocks_batch bm page ?rs False = Inr bm1" "bm_ok bm1" "bm_config bm1 = c"
    "length (bitslice bm1) = length (bitslice bm)"
    "\<forall>i < length (bitslice bm). bitslice bm1 ! i =
       (if in_ranges ?rs (page * page_blocks c) i then False else bitslice bm ! i)"
    using mark_blocks_batch_spec [OF Cons.prems(1), of ?rs page False] unfolding Cons.prems(2) by blast
  have "\<forall>(page, g) \<in> set chunks. \<forall>p \<in> set g. vp_page_id p = page \<and> stored_ok c bits p" using Cons.prems(4) by simp
  from Cons.IH [OF b(2,3) Cons.prems(3) this] Cons.prems(5) b(4)
  obtain bm2 where "free_chunks (block_size_bytes c) bm1 chunks = Inr bm2" "bm_ok bm2" "bm_config bm2 = c"
    "length (bitslice bm2) = length (bitslice bm1)"
    "\<forall>i < length (bitslice bm1). bitslice bm2 ! i =
      (if any_block c (concat (map snd chunks)) i then False else bitslice bm1 ! i)"
    by auto
  then show ?case
    using b(1,4,5) local_ranges_spec [OF g(2) Cons.prems(3)] in_ranges_pointers [OF g(1), of c] by (auto simp: x)
qed

lemma flush_free_blocks_spec:
  assumes "bm_ok bm" "bm_config bm = c" "\<forall>p \<in> set ps. stored_ok c (bitslice bm) p"
  shows "\<exists>bm'. flush_free_blocks bm ps (block_size_bytes c) = Inr bm' \<and> bm_ok bm' \<and> bm_config bm' = c \<and>
    length (bitslice bm') = length (bitslice bm) \<and>
    (\<forall>i < length (bitslice bm). bitslice bm' ! i = (if any_block c ps i then False else bitslice bm ! i))"
proof -
  note s = chunk_by_page_spec [of ps]
  have "set g \<subseteq> set ps" if "(page, g) \<in> set (chunk_by_page ps)" for page g
  proof -
    have "set g \<subseteq> set (concat (map snd (chunk_by_page ps)))" using that by force
    then show ?thesis using s by simp
  qed
  then have "\<forall>(page, g) \<in> set (chunk_by_page ps). \<forall>p \<in> set g. vp_page_id p = page \<and> stored_ok c (bitslice bm) p"
    using s assms(3) by blast
  moreover have "0 < block_size_bytes c" using bm_okD(5) [OF assms(1)] assms(2) by (simp add: config_ok_def)
  ultimately show ?thesis
    using free_chunks_spec [OF assms(1,2) _ _ refl, of "chunk_by_page ps"] s by (simp add: flush_free_blocks_def)
qed

section \<open>Flushers\<close>

text \<open>A flusher that may still be run: every update it has captured is an earlier state of what is pending
  now. That the stored pointer of the point is freed by the later updates only if the captured ones free
  it too is what keeps a flush from freeing it while it is still needed.\<close>

definition captured_update :: "tracker \<Rightarrow> nat \<Rightarrow> pointer_updates \<Rightarrow> bool" where
  "captured_update t k u \<longleftrightarrow> pu_ok u \<and> (\<exists>l. map_of (pending_updates t) k = Some l \<and> evolves u l \<and>
     (\<forall>p. raw_pointer t k = Some p \<longrightarrow> p \<in> set (pu_to_free l) \<longrightarrow> p \<in> set (pu_to_free u)))"

definition captured_ok :: "flusher \<Rightarrow> gridstore \<Rightarrow> bool" where
  "captured_ok fl s \<longleftrightarrow> fl_lock fl = gs_lock s \<and> fl_block_size fl = block_size_bytes (gs_config s) \<and>
     hm_wf (fl_pending fl) \<and> (\<forall>k u. map_of (fl_pending fl) k = Some u \<longrightarrow> captured_update (gs_tracker s) k u)"

lemma captured_new:
  assumes "gs_ok s"
  shows "captured_ok (gs_flusher s) s"
  using assms evolves.captured
  by (auto simp: captured_ok_def captured_update_def gs_flusher_def gs_ok_def tracker_ok_def)

lemma captured_put:
  assumes c: "captured_ok fl s" and ok: "gs_ok s" and s': "gs_tracker s' = tracker_set (gs_tracker s) k np"
    "gs_lock s' = gs_lock s" "gs_config s' = gs_config s" and np: "np \<notin> owned (gs_tracker s) k"
  shows "captured_ok fl s'"
  unfolding captured_ok_def
proof (intro conjI allI impI)
  let ?t = "gs_tracker s"
  have o: "owners_ok (gs_config s) (bitslice (gs_bitmask s)) ?t" using ok by (simp add: gs_ok_def)
  fix j u assume "map_of (fl_pending fl) j = Some u"
  then obtain l where u: "pu_ok u" "map_of (pending_updates ?t) j = Some l" "evolves u l"
    "\<And>p. raw_pointer ?t j = Some p \<Longrightarrow> p \<in> set (pu_to_free l) \<Longrightarrow> p \<in> set (pu_to_free u)"
    using c unfolding captured_ok_def captured_update_def by blast
  let ?l = "if j = k then pu_set l np else l"
  have "map_of (pending_updates (gs_tracker s')) j = Some ?l"
    using u(2) by (auto simp: s' pending_tracker_set map_of_update pending_of_def)
  moreover have "evolves u ?l"
    using u(2,3) np owned_cases(3,4) [of ?t k] by (auto intro: evolves.set)
  moreover have "p \<in> set (pu_to_free u)" if p: "raw_pointer (gs_tracker s') j = Some p" "p \<in> set (pu_to_free ?l)" for p
  proof (rule u(4))
    show "raw_pointer ?t j = Some p" using p(1) by (simp add: s')
    then have "pu_current l \<noteq> Some p" using owners_okD(4) [OF o u(2)] by blast
    then show "p \<in> set (pu_to_free l)" using p(2) by (auto simp: pu_set_def split: if_splits option.splits)
  qed
  ultimately show "captured_update (gs_tracker s') j u" using u(1) unfolding captured_update_def by blast
qed (use c in \<open>simp_all add: captured_ok_def s'\<close>)

lemma captured_delete:
  assumes c: "captured_ok fl s" and ok: "gs_ok s"
  shows "captured_ok fl (s\<lparr>gs_tracker := fst (tracker_unset (gs_tracker s) k)\<rparr>)"
  unfolding captured_ok_def
proof (intro conjI allI impI)
  let ?t = "gs_tracker s" let ?t' = "fst (tracker_unset ?t k)"
  let ?s' = "s\<lparr>gs_tracker := ?t'\<rparr>"
  have o: "owners_ok (gs_config s) (bitslice (gs_bitmask s)) ?t" and t: "tracker_ok ?t"
    using ok by (simp_all add: gs_ok_def)
  fix j u assume "map_of (fl_pending fl) j = Some u"
  then obtain l where u: "pu_ok u" "map_of (pending_updates ?t) j = Some l" "evolves u l"
    "\<And>p. raw_pointer ?t j = Some p \<Longrightarrow> p \<in> set (pu_to_free l) \<Longrightarrow> p \<in> set (pu_to_free u)"
    using c unfolding captured_ok_def captured_update_def by blast
  show "captured_update (gs_tracker ?s') j u"
  proof (cases "j = k \<and> tracker_get ?t k \<noteq> None")
    case False
    then have "map_of (pending_updates ?t') j = Some l"
      using u(2) by (auto simp: pending_tracker_unset split: option.split)
    then show ?thesis using u(1,3,4) by (auto simp: captured_update_def)
  next
    case True
    then obtain q where q: "tracker_get ?t k = Some q" "j = k" by blast
    have "pu_ok l" using t u(2) by (auto simp: tracker_ok_def)
    then have cur: "pu_current l = Some q" using q u(2) by (simp add: tracker_get_raw pu_ok_def)
    have "map_of (pending_updates ?t') j = Some (pu_unset l q)"
      using q u(2) by (simp add: pending_tracker_unset pending_of_def)
    moreover have "evolves u (pu_unset l q)" using u(3) cur by (rule evolves.unset)
    moreover have "p \<in> set (pu_to_free u)" if "raw_pointer ?t j = Some p" "p \<in> set (pu_to_free (pu_unset l q))" for p
    proof (rule u(4) [OF that(1)])
      have "p \<noteq> q" using owners_okD(4) [OF o u(2) cur] that(1) by blast
      then show "p \<in> set (pu_to_free l)" using that(2) cur by (simp add: pu_unset_fields(3))
    qed
    ultimately show ?thesis using u(1) by (auto simp: captured_update_def)
  qed
qed (use c in \<open>simp_all add: captured_ok_def\<close>)

text \<open>One point with captured updates: what it has now, and after the flush.\<close>

lemma flush_point:
  assumes t: "tracker_ok t" and o: "owners_ok c bits t" and wf: "hm_wf U"
    and cap: "\<forall>k u. map_of U k = Some u \<longrightarrow> captured_update t k u" and U: "map_of U k = Some u"
  obtains l where "map_of (pending_updates t) k = Some l" "pu_ok u"
    "raw_pointer (fst (write_pending t U)) k = pu_current u" "set (pu_to_free u) \<subseteq> set (pu_to_free l)"
    "\<And>p. pu_current u = Some p \<Longrightarrow> pu_current l = Some p \<or> p \<in> set (pu_to_free l)"
    "\<And>p. pu_current u = Some p \<Longrightarrow> raw_pointer t k \<noteq> Some p"
    "\<And>m. map_of (pending_updates (fst (write_pending t U))) k = Some m \<Longrightarrow>
       pu_current m = pu_current l \<and> set (pu_to_free m) = set (pu_to_free l) - set (pu_to_free u) \<and> pu_ok m \<and>
       (\<forall>p. pu_current m = Some p \<longrightarrow> pu_current u \<noteq> Some p \<and> p \<notin> set (pu_to_free u))"
    "\<And>p. raw_pointer t k = Some p \<Longrightarrow> p \<in> set (pu_to_free l) \<Longrightarrow> p \<in> set (pu_to_free u)"
proof -
  have a: "file_ok t" "hm_wf (pending_updates t)" "\<And>k u. map_of U k = Some u \<Longrightarrow> pu_ok u"
    using t cap by (auto simp: tracker_ok_def captured_update_def)
  note w = write_pending_spec [OF a(1,2) wf a(3)]
  obtain l where l: "pu_ok u" "map_of (pending_updates t) k = Some l" "evolves u l"
    "\<And>p. raw_pointer t k = Some p \<Longrightarrow> p \<in> set (pu_to_free l) \<Longrightarrow> p \<in> set (pu_to_free u)"
    using cap U unfolding captured_update_def by blast
  have okl: "pu_ok l" using t l(2) by (auto simp: tracker_ok_def)
  have ev: "set (pu_to_free u) \<subseteq> set (pu_to_free l)"
    "\<And>p. pu_current u = Some p \<Longrightarrow> pu_current l = Some p \<or> p \<in> set (pu_to_free l)"
    using evolves_inv [OF l(3,1)] by auto
  have raw: "raw_pointer t k \<noteq> Some p" if p: "pu_current u = Some p" for p
    using ev(2) [OF p] owners_okD(4) [OF o l(2)] l(4) l(1) p by (auto simp: pu_ok_def)
  have left: "pu_current m = pu_current l \<and> set (pu_to_free m) = set (pu_to_free l) - set (pu_to_free u) \<and> pu_ok m \<and>
       (\<forall>p. pu_current m = Some p \<longrightarrow> pu_current u \<noteq> Some p \<and> p \<notin> set (pu_to_free u))"
    if m: "map_of (pending_updates (fst (write_pending t U))) k = Some m" for m
  proof -
    have e: "left_pending (Some l) u = Some m" using w(6) [where j = k] U l(2) m by simp
    then have ne: "l \<noteq> u" using left_pending_evolved(1) [OF l(3,1)] by auto
    then have m: "pu_current m = pu_current l" "pu_to_free m = filter (\<lambda>p. p \<notin> set (pu_to_free u)) (pu_to_free l)"
      using e left_pending_evolved(1) [OF l(3,1)] by auto
    have "pu_ok m" using left_pending_evolved(2) [OF l(3,1) ne] okl m
      by (cases "pu_current l") (auto simp: pu_ok_def pu_is_empty_def)
    moreover have "pu_current u \<noteq> Some p \<and> p \<notin> set (pu_to_free u)" if "pu_current m = Some p" for p
      using evolves_inv [OF l(3,1)] ne that m(1) by auto
    ultimately show ?thesis using m by auto
  qed
  show thesis
    using that [OF l(2,1) _ ev raw left l(4)] w(5) [where j = k] U by simp
qed

lemma flush_other_point:
  assumes t: "tracker_ok t" and wf: "hm_wf U" and ok: "\<forall>k u. map_of U k = Some u \<longrightarrow> pu_ok u" and U: "map_of U k = None"
  shows "raw_pointer (fst (write_pending t U)) k = raw_pointer t k"
    "map_of (pending_updates (fst (write_pending t U))) k = map_of (pending_updates t) k"
proof -
  have a: "file_ok t" "hm_wf (pending_updates t)" using t by (auto simp: tracker_ok_def)
  have "\<And>k u. map_of U k = Some u \<Longrightarrow> pu_ok u" using ok by blast
  note w = write_pending_spec [OF a wf this]
  show "raw_pointer (fst (write_pending t U)) k = raw_pointer t k" using w(5) [where j = k] U by simp
  show "map_of (pending_updates (fst (write_pending t U))) k = map_of (pending_updates t) k"
    using w(6) [where j = k] U by simp
qed

text \<open>A flush of captured updates: the tracker still needs nothing it did not need before, and nothing it
  reports as free.\<close>

lemma flush_tracker_spec:
  assumes t: "tracker_ok t" and o: "owners_ok c bits t" and wf: "hm_wf U"
    and cap: "\<forall>k u. map_of U k = Some u \<longrightarrow> captured_update t k u"
  defines "t' \<equiv> fst (write_pending t U)"
  shows "tracker_ok t'" "owned t' j \<subseteq> owned t j" "next_pointer_offset t' = next_pointer_offset t"
    "map_of (pending_updates t') j = Some u \<Longrightarrow> pu_current u = Some p \<Longrightarrow> raw_pointer t' j \<noteq> Some p"
    "p \<in> set (snd (write_pending t U)) \<Longrightarrow> \<exists>k. p \<in> owned t k \<and> p \<notin> owned t' k"
proof -
  have okU: "\<forall>k u. map_of U k = Some u \<longrightarrow> pu_ok u" using cap by (simp add: captured_update_def)
  then have okU': "\<And>k u. map_of U k = Some u \<Longrightarrow> pu_ok u" by blast
  have a: "file_ok t" "hm_wf (pending_updates t)" using t by (auto simp: tracker_ok_def)
  note w = write_pending_spec [OF a wf okU', folded t'_def]
  note same = flush_other_point [OF t wf okU, folded t'_def]
  note point = flush_point [OF t o wf cap, folded t'_def]
  have "pu_ok m" if "map_of (pending_updates t') k = Some m" for k m
  proof (cases "map_of U k")
    case None
    then show ?thesis using same(2) [OF None] that t by (auto simp: tracker_ok_def)
  next
    case (Some u)
    then show ?thesis using point [OF Some] that by metis
  qed
  then show "tracker_ok t'" using w(2,3) by (simp add: tracker_ok_def)
  show "next_pointer_offset t' = next_pointer_offset t" by (rule w(4))
  show "owned t' j \<subseteq> owned t j"
  proof (cases "map_of U j")
    case None
    then show ?thesis using same [OF None] by (simp add: owned_def)
  next
    case (Some u)
    show ?thesis
    proof (rule point [OF Some])
      fix l assume l: "map_of (pending_updates t) j = Some l" "raw_pointer t' j = pu_current u"
        "\<And>p. pu_current u = Some p \<Longrightarrow> pu_current l = Some p \<or> p \<in> set (pu_to_free l)"
        "\<And>m. map_of (pending_updates t') j = Some m \<Longrightarrow>
          pu_current m = pu_current l \<and> set (pu_to_free m) = set (pu_to_free l) - set (pu_to_free u) \<and> pu_ok m \<and>
          (\<forall>p. pu_current m = Some p \<longrightarrow> pu_current u \<noteq> Some p \<and> p \<notin> set (pu_to_free u))"
      show ?thesis
      proof
        fix p assume "p \<in> owned t' j"
        then consider "pu_current u = Some p"
          | m where "map_of (pending_updates t') j = Some m" "pu_current m = Some p \<or> p \<in> set (pu_to_free m)"
          by (auto simp: owned_def l(2) split: option.splits)
        then have "pu_current l = Some p \<or> p \<in> set (pu_to_free l)"
        proof cases
          case 1
          then show ?thesis by (rule l(3))
        next
          case (2 m)
          then show ?thesis using l(4) [OF 2(1)] by auto
        qed
        then show "p \<in> owned t j" using owned_cases(3,4) [OF l(1)] by blast
      qed
    qed
  qed
  show "map_of (pending_updates t') j = Some u \<Longrightarrow> pu_current u = Some p \<Longrightarrow> raw_pointer t' j \<noteq> Some p"
  proof (cases "map_of U j")
    case None
    then show "map_of (pending_updates t') j = Some u \<Longrightarrow> pu_current u = Some p \<Longrightarrow> raw_pointer t' j \<noteq> Some p"
      using same [OF None] owners_okD(4) [OF o] by simp
  next
    case (Some v)
    then show "map_of (pending_updates t') j = Some u \<Longrightarrow> pu_current u = Some p \<Longrightarrow> raw_pointer t' j \<noteq> Some p"
      using point [OF Some] by metis
  qed
  show "\<exists>k. p \<in> owned t k \<and> p \<notin> owned t' k" if freed: "p \<in> set (snd (write_pending t U))"
  proof -
    have "snd (write_pending t U) = concat (map (\<lambda>(k, u). released t k u) U)" by (rule w(1))
    then obtain k u where "(k, u) \<in> set U" and r: "p \<in> set (released t k u)" using freed by auto
    then have U: "map_of U k = Some u" using in_map_of [OF wf] by blast
    show ?thesis
    proof (rule point [OF U], intro exI conjI)
      fix l assume l: "map_of (pending_updates t) k = Some l" "pu_ok u" "raw_pointer t' k = pu_current u"
        "set (pu_to_free u) \<subseteq> set (pu_to_free l)" "\<And>p. pu_current u = Some p \<Longrightarrow> raw_pointer t k \<noteq> Some p"
        "\<And>m. map_of (pending_updates t') k = Some m \<Longrightarrow>
          pu_current m = pu_current l \<and> set (pu_to_free m) = set (pu_to_free l) - set (pu_to_free u) \<and> pu_ok m \<and>
          (\<forall>p. pu_current m = Some p \<longrightarrow> pu_current u \<noteq> Some p \<and> p \<notin> set (pu_to_free u))"
        "\<And>p. raw_pointer t k = Some p \<Longrightarrow> p \<in> set (pu_to_free l) \<Longrightarrow> p \<in> set (pu_to_free u)"
      have p: "raw_pointer t k = Some p \<or> p \<in> set (pu_to_free u)"
        using r by (auto simp: released_def split: option.splits)
      then show "p \<in> owned t k" using owned_cases(2,4) [of t k] l(1,4) by blast
      have "pu_current u \<noteq> Some p" using p l(2,5) by (auto simp: pu_ok_def)
      moreover have "pu_current m \<noteq> Some p \<and> p \<notin> set (pu_to_free m)" if m: "map_of (pending_updates t') k = Some m" for m
      proof -
        have cm: "pu_current m = pu_current l" "set (pu_to_free m) = set (pu_to_free l) - set (pu_to_free u)"
          "\<And>p. pu_current m = Some p \<Longrightarrow> p \<notin> set (pu_to_free u)" using l(6) [OF m] by blast+
        have "pu_current l \<noteq> Some p" using p cm(1,3) owners_okD(4) [OF o l(1)] by metis
        moreover have "p \<notin> set (pu_to_free m)" using p l(7) cm(2) by blast
        ultimately show ?thesis using cm(1) by simp
      qed
      ultimately show "p \<notin> owned t' k" using l(3) by (auto simp: owned_def split: option.splits)
    qed
  qed
qed

lemma run_flusher_spec:
  assumes ok: "gs_ok s" and cap: "captured_ok fl s"
  obtains s' where "run_flusher fl s = Inr s'" "gs_ok s'" "\<And>co :: 'v codec. gs_lookup co s' = gs_lookup co s"
    "gs_config s' = gs_config s" "gs_lock s' = gs_lock s" "gs_pages s' = gs_pages s"
    "gs_tracker s' = fst (write_pending (gs_tracker s) (fl_pending fl))"
proof -
  let ?c = "gs_config s" and ?t = "gs_tracker s" and ?U = "fl_pending fl" and ?bits = "bitslice (gs_bitmask s)"
  let ?t' = "fst (write_pending ?t ?U)" and ?old = "snd (write_pending ?t ?U)"
  have sh: "store_shape s" and t: "tracker_ok ?t" and o: "owners_ok ?c ?bits ?t" using ok by (simp_all add: gs_ok_def)
  note d = store_shapeD [OF sh]
  have c: "fl_lock fl = gs_lock s" "fl_block_size fl = block_size_bytes ?c" "hm_wf ?U"
    "\<forall>k u. map_of ?U k = Some u \<longrightarrow> captured_update ?t k u"
    using cap by (simp_all add: captured_ok_def)
  note f = flush_tracker_spec [OF t o c(3,4)]
  have ev: "\<And>k u. map_of ?U k = Some u \<Longrightarrow> pu_ok u \<and> (\<exists>l. map_of (pending_updates ?t) k = Some l \<and> evolves u l)"
    using c(4) unfolding captured_update_def by blast
  have fo: "file_ok ?t" "hm_wf (pending_updates ?t)" using t by (simp_all add: tracker_ok_def)
  have get: "tracker_get ?t' k = tracker_get ?t k" for k
    by (rule conjunct1 [OF flush_interleaved [OF fo c(3)]]) (rule ev)
  have freed: "stored_ok ?c ?bits p" if "p \<in> set ?old" for p using f(5) [OF that] owners_okD(1) [OF o] by blast
  have "\<forall>p \<in> set ?old. stored_ok ?c ?bits p" using freed by blast
  from flush_free_blocks_spec [OF d(1,2) this]
  obtain bm1 where bm1: "flush_free_blocks (gs_bitmask s) ?old (block_size_bytes ?c) = Inr bm1" "bm_ok bm1" "bm_config bm1 = ?c"
    "length (bitslice bm1) = length ?bits"
    "\<forall>i < length ?bits. bitslice bm1 ! i = (if any_block ?c ?old i then False else ?bits ! i)" by blast
  define bm where "bm = (if ?old = [] then gs_bitmask s else bm1)"
  have b: "bm_ok bm" "bm_config bm = ?c" "length (bitslice bm) = length ?bits"
    "\<forall>i < length ?bits. bitslice bm ! i = (if any_block ?c ?old i then False else ?bits ! i)"
    using bm1 d(1,2) by (auto simp: bm_def any_block_def)
  define s' where "s' = s\<lparr>gs_tracker := ?t', gs_bitmask := bm\<rparr>"
  have s': "gs_config s' = ?c" "gs_lock s' = gs_lock s" "gs_pages s' = gs_pages s" "gs_tracker s' = ?t'" "gs_bitmask s' = bm"
    by (simp_all add: s'_def)
  have run: "run_flusher fl s = Inr s'"
  proof (cases "?old = []")
    case True
    then show ?thesis using c(1) by (simp add: run_flusher_def case_prod_beta s'_def bm_def)
  next
    case False
    then show ?thesis using c(1,2) bm1(1) by (simp add: run_flusher_def case_prod_beta s'_def bm_def)
  qed
  have sh': "store_shape s'" using d b(1-3) by (simp add: store_shape_def s')
  have "owners_ok ?c (bitslice bm) ?t'"
  proof (rule owners_subset [OF o f(2) _ b(3) _ f(4)])
    fix j p i assume p: "p \<in> owned ?t' j" and i: "i \<in> ptr_blocks ?c p" "?bits ! i"
    have q: "p \<in> owned ?t j" using f(2) p by blast
    have "\<not> any_block ?c ?old i"
    proof
      assume "any_block ?c ?old i"
      then obtain r where r: "r \<in> set ?old" "i \<in> ptr_blocks ?c r" by (auto simp: any_block_def)
      then obtain k where k: "r \<in> owned ?t k" "r \<notin> owned ?t' k" using f(5) by blast
      then have "(j, p) \<noteq> (k, r)" using p by blast
      then show False using owners_okD(3) [OF o q k(1)] i(1) r(2) by blast
    qed
    moreover have "i < length ?bits" using owners_okD(1) [OF o q] i(1) by (simp add: stored_ok_def)
    ultimately show "bitslice bm ! i" using b(4) i(2) by simp
  qed (simp_all add: f(3))
  then have "gs_ok s'" using sh' f(1) by (simp add: gs_ok_def s')
  moreover have "gs_lookup co s' = gs_lookup co s" for co :: "'v codec"
    by (rule ext) (simp add: gs_lookup_def view_codec ptr_bytes_def s' get)
  ultimately show thesis using that run s' by blast
qed

section \<open>Creating, clearing and opening\<close>

lemma owned_empty:
  assumes "pending_updates t = []" "\<And>k. raw_pointer t k = None"
  shows "owned t k = {}"
  using assms by (simp add: owned_def)

lemma tracker_new_spec:
  "\<exists>t. tracker_new None = Inr t \<and> tracker_ok t \<and> pending_updates t = [] \<and> next_pointer_offset t = 0 \<and>
    (\<forall>k. raw_pointer t k = None)"
proof -
  define n where "n = next_power_of_two TRACKER_DEFAULT_SIZE"
  let ?t = "\<lparr>t_header = 0, t_storage = replicate n 0, pending_updates = [], next_pointer_offset = 0\<rparr>"
  have n: "1024 * 1024 \<le> n" using next_power_of_two_ge [of TRACKER_DEFAULT_SIZE] by (simp add: n_def TRACKER_DEFAULT_SIZE_def)
  then have new: "tracker_new None = Inr (write_header ?t)"
    by (simp add: tracker_new_def unwrap_or_def n_def [symmetric] HEADER_SIZE_def)
  have ok: "file_ok ?t" using n by (auto simp: file_ok_def HEADER_SIZE_def)
  have slot: "slice (replicate n 0) a (a + SLOT_SIZE) = replicate SLOT_SIZE (0 :: u8)" if "a + SLOT_SIZE \<le> n" for a
    using that by (simp add: slice_def min_def)
  have "raw_pointer ?t k = None" for k
    using slot [of "HEADER_SIZE + k * SLOT_SIZE"] optional_zero by (auto simp: raw_pointer_def get_raw_def Let_def not_less)
  then show ?thesis
    using new write_header_spec [OF ok] by (simp add: tracker_ok_def)
qed

lemma gs_new_spec:
  assumes opts: "config_of_options opts = Inr c" and c: "64 dvd region_size_blocks c" "region_size_blocks c < 2 ^ 15"
    "page_blocks c \<le> 2 ^ 32"
  obtains s where "gs_new lock opts = Inr s" "gs_ok s" "gs_config s = c" "gs_lock s = lock" "length (gs_pages s) = 1"
    "next_pointer_offset (gs_tracker s) = 0" "\<And>k. raw_pointer (gs_tracker s) k = None"
    "pending_updates (gs_tracker s) = []"
proof -
  have ok: "config_ok c"
    using opts c(1,2) by (auto simp: config_of_options_def config_ok_def Let_def dvd_eq_mod_eq_0 mult.commute split: if_splits)
  obtain bm where bm: "bm_create c = Inr bm" "bm_ok bm" "bm_config bm = c" "bitslice bm = replicate (page_blocks c) False"
    using bm_create_spec [OF ok] by blast
  obtain t where t: "tracker_new None = Inr t" "tracker_ok t" "pending_updates t = []" "next_pointer_offset t = 0"
    "\<And>k. raw_pointer t k = None" using tracker_new_spec by blast
  define s where "s = \<lparr>gs_config = c, gs_tracker = t, gs_pages = [replicate (page_size_bytes c) 0], gs_bitmask = bm,
    gs_lock = lock\<rparr>"
  have "gs_new lock opts = Inr s" using opts bm(1) t(1) by (simp add: gs_new_def s_def)
  moreover have "gs_ok s"
    using bm t(2,3) c(3) owned_empty [OF t(3,5)]
    by (simp add: gs_ok_def s_def store_shape_def pages_ok_def owners_ok_def)
  moreover have "gs_config s = c" "gs_lock s = lock" "length (gs_pages s) = 1"
    "next_pointer_offset (gs_tracker s) = 0" "\<And>k. raw_pointer (gs_tracker s) k = None"
    "pending_updates (gs_tracker s) = []" by (simp_all add: s_def t(3-5))
  ultimately show thesis using that by blast
qed

end
