(* ===== verification/GridstoreHistory.thy ===== *)
theory GridstoreHistory
  imports GridstoreFlush
begin

text \<open>
  The grid store over time: any sequence of writes, deletions, flushes that run some steps after their
  capture, and crashes of the process, against a specification with three maps: what the store answers,
  what the flusher on hand has captured, and what a crash falls back to.
\<close>

section \<open>Simulation of a machine with bounded resources\<close>

text \<open>A machine whose steps fail only when they do not fit. Every step that fits keeps the invariant, follows
  the specification and uses up at most its cost.\<close>

fun run_ops :: "('s \<Rightarrow> 'o \<Rightarrow> ('e, 's) result) \<Rightarrow> 's \<Rightarrow> 'o list \<Rightarrow> ('e, 's) result" where
  "run_ops step s [] = Inr s"
| "run_ops step s (x # xs) = and_then (step s x) (\<lambda>s1. run_ops step s1 xs)"

locale bounded_simulation =
  fixes step :: "'s \<Rightarrow> 'o \<Rightarrow> ('e, 's) result"
    and inv :: "'s \<Rightarrow> bool"
    and abstraction :: "'s \<Rightarrow> 'a"
    and spec :: "'a \<Rightarrow> 'o \<Rightarrow> 'a"
    and valid :: "'o \<Rightarrow> bool"
    and cost :: "'o \<Rightarrow> nat"
    and used :: "'s \<Rightarrow> nat"
    and limit :: nat
  assumes step_ok: "inv s \<Longrightarrow> valid x \<Longrightarrow> used s + cost x \<le> limit \<Longrightarrow>
    \<exists>s'. step s x = Inr s' \<and> inv s' \<and> abstraction s' = spec (abstraction s) x \<and> used s' \<le> used s + cost x"
begin

lemma run_ok:
  "inv s \<Longrightarrow> \<forall>x \<in> set xs. valid x \<Longrightarrow> used s + sum_list (map cost xs) \<le> limit \<Longrightarrow>
   \<exists>s'. run_ops step s xs = Inr s' \<and> inv s' \<and> abstraction s' = foldl spec (abstraction s) xs"
proof (induction xs arbitrary: s)
  case (Cons x xs)
  then obtain s1 where s1: "step s x = Inr s1" "inv s1" "abstraction s1 = spec (abstraction s) x"
    "used s1 \<le> used s + cost x" using step_ok [of s x] by auto
  moreover have "used s1 + sum_list (map cost xs) \<le> limit" using s1(4) Cons.prems(3) by simp
  ultimately show ?case using Cons.IH [of s1] Cons.prems(2) by simp
qed simp

end

section \<open>The operations and their specification\<close>

datatype 'v grid_op = OpPut nat 'v | OpDelete nat | OpCapture | OpFlush | OpCrash

type_synonym grid_sys = "gridstore \<times> flusher option"

text \<open>A crash of the process loses the pending updates and the flusher; the store is opened again from its files.\<close>

fun grid_step :: "'v codec \<Rightarrow> grid_sys \<Rightarrow> 'v grid_op \<Rightarrow> (grid_error, grid_sys) result" where
  "grid_step co (s, fl) (OpPut k v) = and_then (put_value co s k v) (\<lambda>(s1, _). Inr (s1, fl))"
| "grid_step co (s, fl) (OpDelete k) = and_then (delete_value co s k) (\<lambda>(s1, _). Inr (s1, fl))"
| "grid_step co (s, fl) OpCapture = Inr (s, Some (gs_flusher s))"
| "grid_step co (s, fl) OpFlush =
     (case fl of None \<Rightarrow> Inr (s, None) | Some f \<Rightarrow> and_then (run_flusher f s) (\<lambda>s1. Inr (s1, None)))"
| "grid_step co (s, fl) OpCrash = and_then (gs_open (gs_lock s + 1) (gs_files s)) (\<lambda>s1. Inr (s1, None))"

record 'v grid_spec =
  live_map :: "nat \<Rightarrow> 'v option"
  captured_map :: "(nat \<Rightarrow> 'v option) option"
  disk_map :: "nat \<Rightarrow> 'v option"

definition spec_new :: "'v grid_spec" where
  "spec_new = \<lparr>live_map = Map.empty, captured_map = None, disk_map = Map.empty\<rparr>"

fun spec_step :: "'v grid_spec \<Rightarrow> 'v grid_op \<Rightarrow> 'v grid_spec" where
  "spec_step m (OpPut k v) = m\<lparr>live_map := (live_map m)(k \<mapsto> v)\<rparr>"
| "spec_step m (OpDelete k) = m\<lparr>live_map := (live_map m)(k := None)\<rparr>"
| "spec_step m OpCapture = m\<lparr>captured_map := Some (live_map m)\<rparr>"
| "spec_step m OpFlush =
     (case captured_map m of None \<Rightarrow> m | Some c \<Rightarrow> m\<lparr>captured_map := None, disk_map := c\<rparr>)"
| "spec_step m OpCrash = m\<lparr>live_map := disk_map m, captured_map := None\<rparr>"

section \<open>The abstraction\<close>

definition value_at :: "'v codec \<Rightarrow> gridstore \<Rightarrow> value_pointer \<Rightarrow> 'v" where
  "value_at co s p = decode co (gs_config s) (ptr_bytes s p)"

definition disk_lookup :: "'v codec \<Rightarrow> gridstore \<Rightarrow> nat \<Rightarrow> 'v option" where
  "disk_lookup co s k = map_option (value_at co s) (raw_pointer (gs_tracker s) k)"

definition flush_pointer :: "flusher \<Rightarrow> tracker \<Rightarrow> nat \<Rightarrow> value_pointer option" where
  "flush_pointer f t k = (case map_of (fl_pending f) k of Some u \<Rightarrow> pu_current u | None \<Rightarrow> raw_pointer t k)"

definition flush_lookup :: "'v codec \<Rightarrow> flusher \<Rightarrow> gridstore \<Rightarrow> nat \<Rightarrow> 'v option" where
  "flush_lookup co f s k = map_option (value_at co s) (flush_pointer f (gs_tracker s) k)"

text \<open>The pointer count in the file covers every stored pointer.\<close>

definition header_ok :: "tracker \<Rightarrow> bool" where
  "header_ok t \<longleftrightarrow> next_pointer_offset t < 2 ^ 32 \<and>
     (\<forall>k. raw_pointer t k \<noteq> None \<longrightarrow> k < le_value (take 4 (t_storage t)))"

definition grid_inv :: "storage_config \<Rightarrow> grid_sys \<Rightarrow> bool" where
  "grid_inv c = (\<lambda>(s, fl). gs_ok s \<and> gs_config s = c \<and> header_ok (gs_tracker s) \<and>
     (\<forall>f. fl = Some f \<longrightarrow> captured_ok f s))"

definition grid_abs :: "'v codec \<Rightarrow> grid_sys \<Rightarrow> 'v grid_spec" where
  "grid_abs co = (\<lambda>(s, fl). \<lparr>live_map = gs_lookup co s, captured_map = map_option (\<lambda>f. flush_lookup co f s) fl,
     disk_map = disk_lookup co s\<rparr>)"

fun op_valid :: "'v codec \<Rightarrow> storage_config \<Rightarrow> 'v grid_op \<Rightarrow> bool" where
  "op_valid co c (OpPut k v) \<longleftrightarrow> value_ok co c v \<and> k + 1 < 2 ^ 32"
| "op_valid co c _ \<longleftrightarrow> True"

fun op_pages :: "'v codec \<Rightarrow> storage_config \<Rightarrow> 'v grid_op \<Rightarrow> nat" where
  "op_pages co c (OpPut k v) = value_pages co c v"
| "op_pages co c _ = 0"

lemma gs_lookup_value_at: "gs_lookup co s k = map_option (value_at co s) (tracker_get (gs_tracker s) k)"
  by (simp add: gs_lookup_def view_codec value_at_def [abs_def])

lemma flush_pointer_owned:
  assumes "captured_ok f s" "flush_pointer f (gs_tracker s) k = Some p"
  shows "p \<in> owned (gs_tracker s) k"
proof (cases "map_of (fl_pending f) k")
  case None
  then show ?thesis using assms(2) owned_cases(2) by (simp add: flush_pointer_def)
next
  case (Some u)
  then obtain l where l: "pu_ok u" "map_of (pending_updates (gs_tracker s)) k = Some l" "evolves u l"
    using assms(1) unfolding captured_ok_def captured_update_def by blast
  have "pu_current u = Some p" using assms(2) Some by (simp add: flush_pointer_def)
  then have "pu_current l = Some p \<or> p \<in> set (pu_to_free l)" using evolves_inv [OF l(3,1)] by auto
  then show ?thesis using owned_cases(3,4) [OF l(2)] by blast
qed

text \<open>What a capture reads is what the store answers.\<close>

lemma flush_pointer_new:
  assumes "gs_ok s"
  shows "flush_pointer (gs_flusher s) (gs_tracker s) k = tracker_get (gs_tracker s) k"
  using assms by (auto simp: flush_pointer_def gs_flusher_def tracker_get_raw gs_ok_def tracker_ok_def pu_ok_def split: option.split)

lemma map_value_at_cong:
  "(\<And>p. x = Some p \<Longrightarrow> value_at co s' p = value_at co s p) \<Longrightarrow> map_option (value_at co s') x = map_option (value_at co s) x"
  by (cases x) simp_all

section \<open>The steps\<close>

lemma put_simulated:
  assumes inv: "grid_inv c (s, fl)" and v: "op_valid co c (OpPut k v)"
    and room: "length (gs_pages s) + value_pages co c v \<le> 2 ^ 32"
  shows "\<exists>s'. grid_step co (s, fl) (OpPut k v) = Inr (s', fl) \<and> grid_inv c (s', fl) \<and>
    grid_abs co (s', fl) = spec_step (grid_abs co (s, fl)) (OpPut k v) \<and>
    length (gs_pages s') \<le> length (gs_pages s) + value_pages co c v"
proof -
  have i: "gs_ok s" "gs_config s = c" "header_ok (gs_tracker s)" "\<And>f. fl = Some f \<Longrightarrow> captured_ok f s"
    using inv by (simp_all add: grid_inv_def)
  have v': "value_ok co (gs_config s) v" "k + 1 < 2 ^ 32" using v i(2) by simp_all
  have room': "length (gs_pages s) + value_pages co (gs_config s) v \<le> 2 ^ 32" using room i(2) by simp
  obtain s' np where p: "put_value co s k v = Inr (s', gs_lookup co s k \<noteq> None)" "gs_ok s'"
    "gs_lookup co s' = (gs_lookup co s)(k \<mapsto> v)" "gs_config s' = gs_config s" "gs_lock s' = gs_lock s"
    "length (gs_pages s') \<le> length (gs_pages s) + value_pages co (gs_config s) v"
    "gs_tracker s' = tracker_set (gs_tracker s) k np" "\<And>j. np \<notin> owned (gs_tracker s) j"
    "\<And>j p. p \<in> owned (gs_tracker s) j \<Longrightarrow> ptr_bytes s' p = ptr_bytes s p"
    using put_spec [OF i(1) v'(1) room', of k] by blast
  have val: "value_at co s' p = value_at co s p" if "p \<in> owned (gs_tracker s) j" for p j
    using p(9) [OF that] by (simp add: value_at_def p(4))
  have "disk_lookup co s' = disk_lookup co s"
    by (rule ext) (auto simp: disk_lookup_def p(7) intro!: map_value_at_cong val owned_cases(2))
  moreover have "flush_lookup co f s' = flush_lookup co f s" if "fl = Some f" for f
  proof (rule ext)
    fix j
    have "flush_pointer f (gs_tracker s') j = flush_pointer f (gs_tracker s) j"
      by (simp add: flush_pointer_def p(7) split: option.split)
    then show "flush_lookup co f s' j = flush_lookup co f s j"
      using flush_pointer_owned [OF i(4) [OF that]] val by (auto simp: flush_lookup_def intro!: map_value_at_cong)
  qed
  moreover have "header_ok (gs_tracker s')"
    using i(3) v'(2) by (simp add: header_ok_def p(7)) (simp add: tracker_set_def)
  moreover have "captured_ok f s'" if "fl = Some f" for f
    using captured_put [OF i(4) [OF that] i(1) p(7,5,4,8)] .
  ultimately show ?thesis
    using p(1-4,6) i(2) by (auto simp: grid_inv_def grid_abs_def map_option_case split: option.split)
qed

lemma delete_simulated:
  assumes inv: "grid_inv c (s, fl)"
  shows "\<exists>s'. grid_step co (s, fl) (OpDelete k) = Inr (s', fl) \<and> grid_inv c (s', fl) \<and>
    grid_abs co (s', fl) = spec_step (grid_abs co (s, fl)) (OpDelete k) \<and> gs_pages s' = gs_pages s"
proof -
  have i: "gs_ok s" "gs_config s = c" "header_ok (gs_tracker s)" "\<And>f. fl = Some f \<Longrightarrow> captured_ok f s"
    using inv by (simp_all add: grid_inv_def)
  let ?s = "s\<lparr>gs_tracker := fst (tracker_unset (gs_tracker s) k)\<rparr>"
  note d = delete_spec [OF i(1), where k = k]
  have "value_at co ?s p = value_at co s p" for p by (simp add: value_at_def ptr_bytes_def)
  then have "disk_lookup co ?s = disk_lookup co s" "flush_lookup co f ?s = flush_lookup co f s" for f
    by (auto simp: fun_eq_iff disk_lookup_def flush_lookup_def flush_pointer_def intro!: map_value_at_cong split: option.split)
  moreover have "header_ok (gs_tracker ?s)"
    using i(3) by (simp add: header_ok_def) (simp add: tracker_unset_def split: option.split)
  moreover have "grid_step co (s, fl) (OpDelete k) = Inr (?s, fl)" by (simp add: d(1))
  moreover have "captured_ok f ?s" if "fl = Some f" for f using captured_delete [OF i(4) [OF that] i(1)] .
  ultimately show ?thesis
    using d(2,3) i(2) by (intro exI [of _ ?s]) (simp add: grid_inv_def grid_abs_def)
qed

lemma capture_simulated:
  assumes inv: "grid_inv c (s, fl)"
  shows "grid_inv c (s, Some (gs_flusher s)) \<and>
    grid_abs co (s, Some (gs_flusher s)) = spec_step (grid_abs co (s, fl)) OpCapture"
proof -
  have ok: "gs_ok s" using inv by (simp add: grid_inv_def)
  have "flush_lookup co (gs_flusher s) s = gs_lookup co s"
    by (rule ext) (simp add: flush_lookup_def flush_pointer_new [OF ok] gs_lookup_value_at)
  then show ?thesis using inv captured_new [OF ok] by (simp add: grid_inv_def grid_abs_def)
qed

lemma flush_simulated:
  assumes inv: "grid_inv c (s, fl)"
  shows "\<exists>s'. grid_step co (s, fl) OpFlush = Inr (s', None) \<and> grid_inv c (s', None) \<and>
    grid_abs co (s', None) = spec_step (grid_abs co (s, fl)) OpFlush \<and> gs_pages s' = gs_pages s"
proof (cases fl)
  case None
  then show ?thesis using inv by (simp add: grid_inv_def grid_abs_def)
next
  case (Some f)
  have i: "gs_ok s" "gs_config s = c" "header_ok (gs_tracker s)" "captured_ok f s"
    using inv Some by (simp_all add: grid_inv_def)
  let ?t = "gs_tracker s"
  obtain s' where r: "run_flusher f s = Inr s'" "gs_ok s'" "gs_lookup co s' = gs_lookup co s"
    "gs_config s' = gs_config s" "gs_pages s' = gs_pages s" "gs_tracker s' = fst (write_pending ?t (fl_pending f))"
    using run_flusher_spec [OF i(1,4)] by metis
  have t: "tracker_ok ?t" "file_ok ?t" "hm_wf (pending_updates ?t)" "next_pointer_offset ?t < 2 ^ 32"
    using i(1,3) by (simp_all add: gs_ok_def tracker_ok_def header_ok_def)
  have wf: "hm_wf (fl_pending f)" and pu: "\<And>k u. map_of (fl_pending f) k = Some u \<Longrightarrow> pu_ok u"
    using i(4) by (auto simp: captured_ok_def captured_update_def)
  have raw: "raw_pointer (gs_tracker s') k = flush_pointer f ?t k" for k
    unfolding r(6) flush_pointer_def by (rule write_pending_spec(5) [OF t(2,3) wf pu])
  have next_same: "next_pointer_offset (gs_tracker s') = next_pointer_offset ?t"
    unfolding r(6) by (rule write_pending_spec(4) [OF t(2,3) wf pu])
  have "read_header (t_storage (gs_tracker s')) = Inr (next_pointer_offset ?t)"
    unfolding r(6) by (rule write_pending_header [OF t(2,3) wf pu t(4)])
  then have count: "le_value (take 4 (t_storage (gs_tracker s'))) = next_pointer_offset ?t"
    by (simp add: read_header_def split: if_splits)
  have "k < next_pointer_offset ?t" if "raw_pointer (gs_tracker s') k = Some p" for k p
    using owners_okD(2) owned_cases(2) [OF that] r(2) next_same unfolding gs_ok_def by metis
  then have "header_ok (gs_tracker s')" using t(4) next_same by (auto simp: header_ok_def count)
  moreover have "disk_lookup co s' = flush_lookup co f s"
    using r(4,5) by (simp add: fun_eq_iff disk_lookup_def flush_lookup_def raw value_at_def [abs_def] ptr_bytes_def)
  ultimately show ?thesis
    using r(1-5) i(2) by (simp add: Some grid_inv_def grid_abs_def)
qed

text \<open>Opening the files of a store: the tracker starts from the stored pointers.\<close>

lemma open_simulated:
  assumes inv: "grid_inv c (s, fl)"
  obtains s' where "gs_open lock (gs_files s) = Inr s'" "grid_inv c (s', None)" "gs_pages s' = gs_pages s"
    "gs_lookup co s' = disk_lookup co s" "disk_lookup co s' = disk_lookup co s"
proof -
  have i: "gs_ok s" "gs_config s = c" "header_ok (gs_tracker s)"
    using inv by (simp_all add: grid_inv_def)
  let ?t = "gs_tracker s" and ?bm = "gs_bitmask s"
  have sh: "store_shape s" and t: "file_ok ?t" and o: "owners_ok c (bitslice ?bm) ?t"
    using i(1,2) by (simp_all add: gs_ok_def tracker_ok_def)
  note d = store_shapeD [OF sh, unfolded i(2)]
  define h where "h = le_value (take 4 (t_storage ?t))"
  define t' where "t' = \<lparr>t_header = h, t_storage = t_storage ?t, pending_updates = [], next_pointer_offset = h\<rparr>"
  have raw: "raw_pointer t' k = raw_pointer ?t k" for k by (simp add: raw_pointer_def get_raw_def t'_def Let_def)
  have own: "owned t' k = set_option (raw_pointer ?t k)" for k by (simp add: owned_def raw) (simp add: t'_def)
  have own': "p \<in> owned ?t k \<and> k < h" if "p \<in> owned t' k" for p k
    using that owned_cases(2) i(3) by (auto simp: own header_ok_def h_def)
  have hs: "HEADER_SIZE \<le> length (t_storage ?t)" using t by (simp add: file_ok_def)
  then have tr: "tracker_open (Some (t_storage ?t)) = Inr t'" by (simp add: tracker_open_def read_header_def t'_def h_def)
  have "page_size_bytes c = page_blocks c * block_size_bytes c" "0 < page_size_bytes c"
    using config_blocks(5) [OF d(6)] d(6) by (simp_all add: config_ok_def)
  moreover have "length (bitslice ?bm) * block_size_bytes c = length (gs_pages s) * page_size_bytes c"
    unfolding calculation(1) using d(5) by (simp add: mult.assoc)
  ultimately have pages: "infer_num_pages ?bm = length (gs_pages s)" "page_size_bytes c mod block_size_bytes c = 0"
    by (simp_all add: infer_num_pages_def d(2))
  define s' where "s' = \<lparr>gs_config = c, gs_tracker = t', gs_pages = gs_pages s, gs_bitmask = ?bm, gs_lock = lock\<rparr>"
  have "\<lparr>bm_config = c, regions_gaps = regions_gaps ?bm, bitslice = bitslice ?bm\<rparr> = ?bm"
    using d(2) by simp
  then have "bm_open (Some (bitslice ?bm, regions_gaps ?bm)) c = Inr ?bm" using pages(2) by (simp add: bm_open_def)
  then have op: "gs_open lock (gs_files s) = Inr s'"
    using tr pages(1) i(2) by (simp add: gs_open_def gs_files_def s'_def)
  have "store_shape s'" using sh i(2) by (simp add: store_shape_def s'_def)
  moreover have "tracker_ok t'" using t by (simp add: tracker_ok_def file_ok_def) (simp add: t'_def)
  moreover have "owners_ok c (bitslice ?bm) t'"
    unfolding owners_ok_def
  proof (intro conjI allI impI)
    fix k p assume p: "p \<in> owned t' k"
    show "stored_ok c (bitslice ?bm) p" using owners_okD(1) [OF o] own' [OF p] by blast
    show "k < next_pointer_offset t'" using own' [OF p] by (simp add: t'_def)
  next
    fix j k p q assume "p \<in> owned t' j" "q \<in> owned t' k" "(j, p) \<noteq> (k, q)"
    then show "ptr_blocks c p \<inter> ptr_blocks c q = {}" using owners_okD(3) [OF o] own' by blast
  qed (simp add: t'_def)
  ultimately have ok: "gs_ok s'" by (simp add: gs_ok_def) (simp add: s'_def)
  have "h < 2 ^ 32"
    using le_value_bound [of "take 4 (t_storage ?t)"] hs by (simp add: h_def HEADER_SIZE_def min_absorb2)
  then have "header_ok t'" using i(3) by (simp add: header_ok_def raw) (simp add: t'_def h_def)
  then have inv': "grid_inv c (s', None)" using ok by (simp add: grid_inv_def) (simp add: s'_def)
  have v: "value_at co s' = value_at co s" by (simp add: fun_eq_iff value_at_def ptr_bytes_def s'_def i(2))
  have "pending_updates t' = []" by (simp add: t'_def)
  then have get: "tracker_get t' k = raw_pointer ?t k" for k by (simp add: tracker_get_raw raw)
  have "gs_lookup co s' = disk_lookup co s" "disk_lookup co s' = disk_lookup co s"
    by (simp_all add: fun_eq_iff gs_lookup_value_at disk_lookup_def v) (simp_all add: s'_def get raw)
  moreover have "gs_pages s' = gs_pages s" by (simp add: s'_def)
  ultimately show thesis using that [OF op inv'] by blast
qed

lemma grid_step_simulated:
  assumes inv: "grid_inv c sys" and v: "op_valid co c x" and room: "length (gs_pages (fst sys)) + op_pages co c x \<le> 2 ^ 32"
  shows "\<exists>sys'. grid_step co sys x = Inr sys' \<and> grid_inv c sys' \<and> grid_abs co sys' = spec_step (grid_abs co sys) x \<and>
    length (gs_pages (fst sys')) \<le> length (gs_pages (fst sys)) + op_pages co c x"
proof -
  obtain s fl where sys: "sys = (s, fl)" by (cases sys)
  have i: "grid_inv c (s, fl)" using inv sys by simp
  show ?thesis
  proof (cases x)
    case (OpPut k v)
    then show ?thesis using put_simulated [OF i, of co k v] v room by (auto simp: sys simp del: grid_step.simps)
  next
    case (OpDelete k)
    then show ?thesis using delete_simulated [OF i, of co k] by (auto simp: sys simp del: grid_step.simps)
  next
    case OpCapture
    then show ?thesis using capture_simulated [OF i, of co] by (simp add: sys)
  next
    case OpFlush
    then show ?thesis using flush_simulated [OF i, of co] by (auto simp: sys simp del: grid_step.simps)
  next
    case OpCrash
    obtain s' where "gs_open (gs_lock s + 1) (gs_files s) = Inr s'" "grid_inv c (s', None)" "gs_pages s' = gs_pages s"
      "gs_lookup co s' = disk_lookup co s" "disk_lookup co s' = disk_lookup co s"
      using open_simulated [OF i] by blast
    then show ?thesis using OpCrash by (simp add: sys grid_abs_def)
  qed
qed

interpretation grid: bounded_simulation "grid_step co" "grid_inv c" "grid_abs co" spec_step "op_valid co c" "op_pages co c"
  "\<lambda>sys. length (gs_pages (fst sys))" "2 ^ 32" for co c
  by unfold_locales (rule grid_step_simulated)

section \<open>A store without a flusher on hand\<close>

lemma grid_put:
  assumes inv: "grid_inv c (s, None)" and v: "value_ok co c v" "k + 1 < 2 ^ 32"
    and room: "length (gs_pages s) + value_pages co c v \<le> 2 ^ 32"
  shows "\<exists>s' b. put_value co s k v = Inr (s', b) \<and> grid_inv c (s', None) \<and> gs_lookup co s' = (gs_lookup co s)(k \<mapsto> v) \<and>
    length (gs_pages s') \<le> length (gs_pages s) + value_pages co c v"
proof -
  have "op_valid co c (OpPut k v)" using v by simp
  from put_simulated [OF inv this room] obtain s' where s': "grid_step co (s, None) (OpPut k v) = Inr (s', None)"
    "grid_inv c (s', None)" "grid_abs co (s', None) = spec_step (grid_abs co (s, None)) (OpPut k v)"
    "length (gs_pages s') \<le> length (gs_pages s) + value_pages co c v" by blast
  have "gs_lookup co s' = (gs_lookup co s)(k \<mapsto> v)" using s'(3) by (simp add: grid_abs_def)
  moreover obtain b where "put_value co s k v = Inr (s', b)" using s'(1) by (auto simp: and_then_Inr_iff)
  ultimately show ?thesis using s'(2,4) by blast
qed

lemma grid_delete:
  assumes inv: "grid_inv c (s, None)"
  shows "\<exists>s'. delete_value co s k = Inr (s', gs_lookup co s k) \<and> grid_inv c (s', None) \<and>
    gs_lookup co s' = (gs_lookup co s)(k := None) \<and> gs_pages s' = gs_pages s"
proof -
  have ok: "gs_ok s" using inv by (simp add: grid_inv_def)
  obtain s' where s': "grid_step co (s, None) (OpDelete k) = Inr (s', None)" "grid_inv c (s', None)"
    "grid_abs co (s', None) = spec_step (grid_abs co (s, None)) (OpDelete k)" "gs_pages s' = gs_pages s"
    using delete_simulated [OF inv] by blast
  have "gs_lookup co s' = (gs_lookup co s)(k := None)" using s'(3) by (simp add: grid_abs_def)
  moreover have "delete_value co s k = Inr (s', gs_lookup co s k)"
    using s'(1) delete_spec(1) [OF ok, where k = k and co = co] by (auto simp: and_then_Inr_iff)
  ultimately show ?thesis using s'(2,4) by blast
qed

end
