(* ===== verification/GridstoreProps.thy ===== *)
theory GridstoreProps
  imports GridstoreHistory
begin

text \<open>The properties of the grid store, over its operations and over any history of them.\<close>

section \<open>Iteration\<close>

fun visit :: "('s \<Rightarrow> nat \<Rightarrow> 'v \<Rightarrow> ('e, 's \<times> bool) result) \<Rightarrow> (nat \<times> 'v) list \<Rightarrow> 's \<Rightarrow> ('e, 's) result" where
  "visit callback [] acc = Inr acc"
| "visit callback ((k, v) # kvs) acc =
     and_then (callback acc k v) (\<lambda>(acc1, go). if go then visit callback kvs acc1 else Inr acc1)"

definition entries :: "(nat \<Rightarrow> 'v option) \<Rightarrow> nat \<Rightarrow> nat \<Rightarrow> (nat \<times> 'v) list" where
  "entries m first to = List.map_filter (\<lambda>k. map_option (Pair k) (m k)) [first..<to]"

lemma entries_step:
  "first < to \<Longrightarrow> entries m first to = (case m first of None \<Rightarrow> [] | Some v \<Rightarrow> [(first, v)]) @ entries m (Suc first) to"
  by (simp add: entries_def upt_conv_Cons map_filter_simps split: option.split)

definition point_list :: "tracker \<Rightarrow> nat \<Rightarrow> nat \<Rightarrow> (nat \<times> value_pointer option) list" where
  "point_list t first to = map (\<lambda>k. (k, tracker_get t k)) [first..<to]"

lemma iter_loop_spec:
  assumes ok: "gs_ok s" and mx: "taken \<le> mx"
  shows "case vw_iter_loop co (with_view s) from_err mx callback (point_list (gs_tracker s) first to) taken acc of
      Inl e \<Rightarrow> visit callback (entries (gs_lookup co s) first to) acc = Inl e
    | Inr (acc1, CF_Break) \<Rightarrow> visit callback (entries (gs_lookup co s) first to) acc = Inr acc1
    | Inr (acc1, CF_Continue n) \<Rightarrow> first \<le> n \<and> n < to \<and> (taken < mx \<longrightarrow> first < n) \<and>
        visit callback (entries (gs_lookup co s) first to) acc = visit callback (entries (gs_lookup co s) n to) acc1"
  using mx
proof (induction "to - first" arbitrary: first taken acc)
  case 0
  then show ?case by (simp add: point_list_def entries_def map_filter_simps)
next
  case (Suc d)
  let ?t = "gs_tracker s" and ?m = "gs_lookup co s"
  have lt: "first < to" using Suc.hyps(2) by simp
  have pl: "point_list ?t first to = (first, tracker_get ?t first) # point_list ?t (Suc first) to"
    using lt by (simp add: point_list_def upt_conv_Cons)
  have d: "d = to - Suc first" using Suc.hyps(2) by simp
  note IH = Suc.hyps(1) [OF d]
  show ?case
  proof (cases "tracker_get ?t first")
    case None
    then have "entries ?m first to = entries ?m (Suc first) to"
      using entries_step [OF lt, of ?m] by (simp add: gs_lookup_def)
    then show ?thesis using IH [OF Suc.prems, of acc] None
      by (auto simp: pl split: sum.splits prod.splits control_flow.splits)
  next
    case (Some p)
    have o: "owners_ok (gs_config s) (bitslice (gs_bitmask s)) ?t" and sh: "store_shape s"
      using ok by (simp_all add: gs_ok_def)
    have r: "vw_read_from_pages (with_view s) p = Inr (ptr_bytes s p)"
      using read_stored(1) [OF sh] owners_okD(1) [OF o] owned_cases(1) [OF Some] by blast
    let ?v = "from_bytes co (vw_decompress co (with_view s) (ptr_bytes s p))"
    have e: "entries ?m first to = (first, ?v) # entries ?m (Suc first) to"
      using entries_step [OF lt, of ?m] Some by (simp add: gs_lookup_def)
    show ?thesis
    proof (cases "taken = mx")
      case True
      then show ?thesis using lt by (simp add: pl Some)
    next
      case False
      then have "taken + 1 \<le> mx" using Suc.prems by simp
      note IH' = IH [OF this]
      show ?thesis
      proof (cases "callback acc first ?v")
        case (Inl err)
        then show ?thesis using False by (simp add: pl Some r map_err_def e)
      next
        case (Inr x)
        obtain acc1 go where x: "x = (acc1, go)" by (cases x)
        show ?thesis using IH' [of acc1] False Inr x
          by (auto simp: pl Some r map_err_def e split: sum.splits prod.splits control_flow.splits)
      qed
    qed
  qed
qed

lemma iter_from_spec:
  assumes ok: "gs_ok s" and n: "next_pointer_offset (gs_tracker s) < 2 ^ 32"
  shows "gs_iter_from co s from_err callback first acc =
    Some (visit callback (entries (gs_lookup co s) first (max_point_offset s)) acc)"
proof (induction "max_point_offset s - first" arbitrary: first acc rule: less_induct)
  case less
  let ?to = "max_point_offset s" and ?m = "gs_lookup co s"
  have "next_pointer_offset (gs_tracker s) \<le> 2 ^ 32 - 1" using n by simp
  then have pts: "iter_pointers (vw_tracker (with_view s)) first (2 ^ 32 - 1) = point_list (gs_tracker s) first ?to"
    by (simp add: iter_pointers_def point_list_def max_point_offset_def with_view_def min_absorb1)
  have vi: "vw_iter co (with_view s) from_err first (2 ^ 32 - 1) BATCH_SIZE callback acc =
      vw_iter_loop co (with_view s) from_err BATCH_SIZE callback (point_list (gs_tracker s) first ?to) 0 acc"
    unfolding vw_iter_def pts ..
  have b: "0 \<le> BATCH_SIZE" "0 < BATCH_SIZE" by (simp_all add: BATCH_SIZE_def)
  note l = iter_loop_spec [OF ok b(1), where co = co and from_err = from_err and callback = callback
    and first = first and to = ?to and acc = acc, folded vi]
  show ?case
  proof (cases "vw_iter co (with_view s) from_err first (2 ^ 32 - 1) BATCH_SIZE callback acc")
    case (Inl e)
    then show ?thesis using l by (subst gs_iter_from.simps)simp
  next
    case (Inr x)
    obtain acc1 flow where x: "x = (acc1, flow)" by (cases x)
    show ?thesis
    proof (cases flow)
      case (CF_Continue next_from)
      have c: "first < next_from" "next_from < ?to"
        "visit callback (entries ?m first ?to) acc = visit callback (entries ?m next_from ?to) acc1"
        using l Inr x CF_Continue b(2) by auto
      then have "?to - next_from < ?to - first" by simp
      from less.hyps [OF this] show ?thesis
        using Inr x CF_Continue c(3) by (subst gs_iter_from.simps) simp
    next
      case CF_Break
      then show ?thesis using l Inr x by (subst gs_iter_from.simps)simp
    qed
  qed
qed

section \<open>Histories\<close>

text \<open>A configuration the bitmask can handle: whole words per region and two regions within a \<open>u16\<close>, and
  block offsets within a \<open>u32\<close>.\<close>

definition config_fits :: "storage_config \<Rightarrow> bool" where
  "config_fits c \<longleftrightarrow> 64 dvd region_size_blocks c \<and> region_size_blocks c < 2 ^ 15 \<and> page_blocks c \<le> 2 ^ 32"

lemma new_store:
  assumes "config_of_options opts = Inr c" "config_fits c"
  obtains s where "gs_new lock opts = Inr s" "grid_inv c (s, None)" "grid_abs co (s, None) = spec_new"
    "length (gs_pages s) = 1" "gs_lock s = lock"
proof -
  obtain s where s: "gs_new lock opts = Inr s" "gs_ok s" "gs_config s = c" "gs_lock s = lock" "length (gs_pages s) = 1"
    "next_pointer_offset (gs_tracker s) = 0" "\<And>k. raw_pointer (gs_tracker s) k = None"
    "pending_updates (gs_tracker s) = []"
    using gs_new_spec [OF assms(1)] assms(2) unfolding config_fits_def by metis
  have "grid_inv c (s, None)" using s(2,3,6,7) by (simp add: grid_inv_def header_ok_def)
  moreover have "gs_lookup co s = Map.empty" "disk_lookup co s = Map.empty"
    by (simp_all add: fun_eq_iff gs_lookup_def disk_lookup_def tracker_get_raw s(7,8))
  then have "grid_abs co (s, None) = spec_new" by (simp add: grid_abs_def spec_new_def)
  ultimately show thesis using that s(1,4,5) by blast
qed

lemma history:
  assumes "config_of_options opts = Inr c" "config_fits c"
    and "\<forall>x \<in> set ops. op_valid co c x" "1 + sum_list (map (op_pages co c) ops) \<le> 2 ^ 32"
  obtains s0 s fl where "gs_new lock opts = Inr s0" "run_ops (grid_step co) (s0, None) ops = Inr (s, fl)"
    "grid_inv c (s, fl)" "grid_abs co (s, fl) = foldl spec_step spec_new ops"
proof -
  obtain s0 where s0: "gs_new lock opts = Inr s0" "grid_inv c (s0, None)" "grid_abs co (s0, None) = spec_new"
    "length (gs_pages s0) = 1" using new_store [OF assms(1,2)] by metis
  have "length (gs_pages (fst (s0, None :: flusher option))) + sum_list (map (op_pages co c) ops) \<le> 2 ^ 32"
    using s0(4) assms(4) by simp
  from grid.run_ok [OF s0(2) assms(3) this]
  obtain sys where r: "run_ops (grid_step co) (s0, None) ops = Inr sys" "grid_inv c sys"
    "grid_abs co sys = foldl spec_step spec_new ops" using s0(3) by auto
  then show thesis using that s0(1) by (cases sys) blast
qed

definition demo_options :: storage_options where
  "demo_options = \<lparr>opt_page_size_bytes = Some 64, opt_block_size_bytes = Some 1, opt_region_size_blocks = Some 64,
     opt_compression = Some NoCompression\<rparr>"

definition demo_config :: storage_config where
  "demo_config = \<lparr>page_size_bytes = 64, block_size_bytes = 1, region_size_blocks = 64, cfg_compression = NoCompression\<rparr>"

text \<open>\<open>impl Blob for Vec<u8>\<close>; LZ4 is not used.\<close>

definition vec_codec :: "u8 list codec" where
  "vec_codec = \<lparr>to_bytes = (\<lambda>v. v), from_bytes = (\<lambda>bs. bs), compress_lz4 = (\<lambda>v. v), decompress_lz4 = (\<lambda>v. v)\<rparr>"

lemma demo_config_ok: "config_of_options demo_options = Inr demo_config" "config_fits demo_config"
  by (simp_all add: config_of_options_def demo_options_def demo_config_def unwrap_or_def config_fits_def page_blocks_def Let_def)

lemma demo_value_ok: "value_ok vec_codec demo_config v \<longleftrightarrow> 0 < length v \<and> length v < 2 ^ 32"
  by (simp add: value_ok_def encode_def decode_def vec_codec_def demo_config_def)

lemma demo_pages: "0 < length v \<Longrightarrow> value_pages vec_codec demo_config v \<le> length v"
  using div_ceil_pos [of "length v" 64]
  by (simp add: value_pages_def pages_needed_def encode_def vec_codec_def demo_config_def div_ceil_def split: if_splits)

definition demo_ops :: "u8 list grid_op list" where
  "demo_ops = [OpPut 0 [1, 2, 3], OpCapture, OpPut 0 [7], OpFlush, OpPut 1 [4], OpDelete 0]"

lemma demo_ops_ok:
  "\<forall>x \<in> set demo_ops. op_valid vec_codec demo_config x" "1 + sum_list (map (op_pages vec_codec demo_config) demo_ops) \<le> 2 ^ 32"
proof -
  show "\<forall>x \<in> set demo_ops. op_valid vec_codec demo_config x" by (simp add: demo_ops_def demo_value_ok)
  have "value_pages vec_codec demo_config [1, 2, 3] \<le> 3" "value_pages vec_codec demo_config [7] \<le> 1"
    "value_pages vec_codec demo_config [4] \<le> 1"
    using demo_pages [of "[1, 2, 3]"] demo_pages [of "[7]"] demo_pages [of "[4]"] by simp_all
  then show "1 + sum_list (map (op_pages vec_codec demo_config) demo_ops) \<le> 2 ^ 32" by (simp add: demo_ops_def)
qed





section \<open>Single operations\<close>

text \<open>C18: the search for blocks in the bitmask, over the summary of the regions and then inside the regions
  found, returns a page and an offset in it where the wanted number of consecutive blocks is free, even
  across regions and pages, and nothing only if there is no such place anywhere.\<close>

theorem find_available_blocks_correct:
  assumes "bm_ok bm" "0 < n"
  shows "\<exists>r. find_available_blocks bm n = Inr r \<and> (case r of
     None \<Rightarrow> \<forall>s. \<not> free_run (bitslice bm) s n
   | Some (page, offset) \<Rightarrow> offset < page_blocks (bm_config bm) \<and>
       free_run (bitslice bm) (page * page_blocks (bm_config bm) + offset) n)"
  by (rule find_available_blocks_spec [OF assms])

theorem find_available_blocks_correct_witness:
  "\<exists>bm. bm_create demo_config = Inr bm \<and> (\<exists>page offset. find_available_blocks bm 5 = Inr (Some (page, offset)) \<and>
     free_run (bitslice bm) (page * 64 + offset) 5)"
proof -
  have ok: "config_ok demo_config" by (simp add: config_ok_def demo_config_def)
  obtain bm where bm: "bm_create demo_config = Inr bm" "bm_ok bm" "bm_config bm = demo_config"
    "bitslice bm = replicate (page_blocks demo_config) False" using bm_create_spec [OF ok] by blast
  have p: "page_blocks demo_config = 64" by (simp add: page_blocks_def demo_config_def)
  have "free_run (bitslice bm) 0 5" by (simp add: free_run_def bm(4) p)
  then show ?thesis using find_available_blocks_correct [OF bm(2), of 5] bm(1,3) p
    by (fastforce split: option.splits)
qed

text \<open>Writing a value makes the point read back as that value and no other point change, and says whether
  the point had a value before; deleting it returns the value and makes the point empty again. Both keep
  the invariant of the store.\<close>

lemma grid_put_delete_functional:
  assumes "gs_ok s" "value_ok co (gs_config s) v"
    "length (gs_pages s) + value_pages co (gs_config s) v \<le> 2 ^ 32"
  shows "\<exists>s1 s2. put_value co s k v = Inr (s1, gs_get_value co s k \<noteq> Inr None) \<and> gs_ok s1 \<and>
    (\<forall>j. gs_get_value co s1 j = (if j = k then Inr (Some v) else gs_get_value co s j)) \<and>
    delete_value co s1 k = Inr (s2, Some v) \<and> gs_ok s2 \<and>
    (\<forall>j. gs_get_value co s2 j = (if j = k then Inr None else gs_get_value co s j))"
proof -
  obtain s1 where s1: "put_value co s k v = Inr (s1, gs_lookup co s k \<noteq> None)" "gs_ok s1"
    "gs_lookup co s1 = (gs_lookup co s)(k \<mapsto> v)" using put_spec [OF assms, of k] by metis
  obtain s2 where d: "delete_value co s1 k = Inr (s2, gs_lookup co s1 k)" "gs_ok s2"
    "gs_lookup co s2 = (gs_lookup co s1)(k := None)" using delete_spec [OF s1(2), where k = k] by blast
  show ?thesis
    using s1 d gs_get_lookup [OF assms(1), of co] gs_get_lookup [OF s1(2), of co] gs_get_lookup [OF d(2), of co]
    by (intro exI [of _ s1] exI [of _ s2]) auto
qed

lemma in_entries: "(k, v) \<in> set (entries m a b) \<longleftrightarrow> a \<le> k \<and> k < b \<and> m k = Some v"
  by (auto simp: entries_def List.map_filter_def image_iff)

lemma entries_sorted: "sorted_wrt (<) (map fst (entries m a b))"
proof (induction "b - a" arbitrary: a)
  case 0
  then show ?case by (simp add: entries_def map_filter_simps)
next
  case (Suc d)
  then have "a < b" "d = b - Suc a" by simp_all
  then show ?case using Suc.hyps(1) [of "Suc a"] in_entries [of _ _ m "Suc a" b]
    by (auto simp: entries_step split: option.split)
qed

text \<open>C21: \<open>iter\<close> returns; it calls the callback once for every point that has a value, in the order of the
  points and with the value of the point, across its batches of 128, until the callback stops it or fails.\<close>

theorem grid_iter_visits_all:
  assumes "gs_ok s" "max_point_offset s < 2 ^ 32"
  shows "\<exists>kvs. sorted_wrt (<) (map fst kvs) \<and> (\<forall>k v. (k, v) \<in> set kvs \<longleftrightarrow> gs_get_value co s k = Inr (Some v)) \<and>
    gs_iter co s from_err callback acc = Some (visit callback kvs acc)"
proof (intro exI conjI allI)
  let ?kvs = "entries (gs_lookup co s) 0 (max_point_offset s)"
  have o: "owners_ok (gs_config s) (bitslice (gs_bitmask s)) (gs_tracker s)" using assms(1) by (simp add: gs_ok_def)
  show "sorted_wrt (<) (map fst ?kvs)" by (rule entries_sorted)
  show "gs_iter co s from_err callback acc = Some (visit callback ?kvs acc)"
    using iter_from_spec [OF assms(1)] assms(2) by (simp add: gs_iter_def max_point_offset_def)
  fix k v
  have "k < max_point_offset s" if "tracker_get (gs_tracker s) k = Some p" for p
    using owners_okD(2) [OF o owned_cases(1) [OF that]] by (simp add: max_point_offset_def)
  then have "k < max_point_offset s" if "gs_lookup co s k = Some v" using that by (auto simp: gs_lookup_def)
  then show "(k, v) \<in> set ?kvs \<longleftrightarrow> gs_get_value co s k = Inr (Some v)"
    by (auto simp: in_entries gs_get_lookup [OF assms(1)])
qed

theorem grid_iter_visits_all_witness:
  "\<exists>s0 s kvs. gs_new 0 demo_options = Inr s0 \<and> put_value vec_codec s0 5 [1, 2, 3] = Inr (s, False) \<and> (5, [1, 2, 3 :: u8]) \<in> set kvs \<and>
    gs_iter vec_codec s id (\<lambda>n k v. Inr (n + length v, True)) 0 = Some (visit (\<lambda>n k v. Inr (n + length v, True)) kvs 0)"
proof -
  obtain s0 where s0: "gs_new 0 demo_options = Inr s0" "grid_inv demo_config (s0, None)"
    "grid_abs vec_codec (s0, None) = spec_new" "length (gs_pages s0) = 1" using new_store [OF demo_config_ok] by metis
  have v: "op_valid vec_codec demo_config (OpPut 5 [1, 2, 3])" by (simp add: demo_value_ok)
  have "length (gs_pages s0) + value_pages vec_codec demo_config [1, 2, 3] \<le> 2 ^ 32"
    using demo_pages [of "[1, 2, 3]"] s0(4) by simp
  from put_simulated [OF s0(2) v this]
  obtain s where s: "grid_step vec_codec (s0, None) (OpPut 5 [1, 2, 3]) = Inr (s, None)" "grid_inv demo_config (s, None)"
    "grid_abs vec_codec (s, None) = spec_step spec_new (OpPut 5 [1, 2, 3])" using s0(3) by auto
  have ok0: "gs_ok s0" "gs_config s0 = demo_config" and ok: "gs_ok s" "max_point_offset s < 2 ^ 32"
    using s0(2) s(2) by (simp_all add: grid_inv_def header_ok_def max_point_offset_def)
  have room: "value_ok vec_codec (gs_config s0) [1, 2, 3]"
    "length (gs_pages s0) + value_pages vec_codec (gs_config s0) [1, 2, 3] \<le> 2 ^ 32"
    using demo_pages [of "[1, 2, 3]"] s0(4) by (simp_all add: ok0(2) demo_value_ok)
  have "gs_lookup vec_codec s0 5 = None" using s0(3) by (simp add: grid_abs_def spec_new_def)
  then have put: "put_value vec_codec s0 5 [1, 2, 3] = Inr (s, False)"
    using put_spec [OF ok0(1) room, of 5] s(1) by (auto simp: and_then_def split: sum.splits)
  have "gs_get_value vec_codec s 5 = Inr (Some [1, 2, 3])"
    using s(3) gs_get_lookup [OF ok(1), of vec_codec] by (simp add: grid_abs_def spec_new_def)
  then show ?thesis
    using grid_iter_visits_all [OF ok, of vec_codec id "\<lambda>n k v. Inr (n + length v, True)" 0] s0(1) put by blast
qed

lemma config_roundtrip:
  assumes "config_ok c"
  shows "config_of_options (options_of_config c) = Inr c"
proof -
  have "unat (of_nat (region_size_blocks c) :: u16) = region_size_blocks c"
    using assms by (simp add: config_ok_def unat_of_nat)
  moreover have "block_size_bytes c * region_size_blocks c \<le> page_size_bytes c"
    using assms by (simp add: config_ok_def dvd_imp_le)
  ultimately show ?thesis
    using assms by (simp add: config_of_options_def options_of_config_def unwrap_or_def config_ok_def Let_def not_less)
qed

text \<open>\<open>clear\<close> empties the store and keeps its configuration; a flusher of the store from before is
  cancelled instead of writing its updates into the new one.\<close>

lemma grid_clear_cancels_flushers:
  assumes "gs_ok s" "fl_lock fl = gs_lock s"
  shows "\<exists>s1. gs_clear s = Inr s1 \<and> gs_ok s1 \<and> gs_config s1 = gs_config s \<and>
    (\<forall>k. gs_get_value co s1 k = Inr None) \<and> run_flusher fl s1 = Inl FlushCancelled"
proof -
  let ?c = "gs_config s"
  have d: "config_ok ?c" "page_blocks ?c \<le> 2 ^ 32"
    using store_shapeD(3,6) [of s] assms(1) by (simp_all add: gs_ok_def)
  then have "config_fits ?c" by (simp add: config_fits_def config_ok_def)
  from new_store [OF config_roundtrip [OF d(1)] this, of "gs_lock s + 1" co]
  obtain s1 where s1: "gs_clear s = Inr s1" "grid_inv ?c (s1, None)" "grid_abs co (s1, None) = spec_new"
    "gs_lock s1 = gs_lock s + 1" unfolding gs_clear_def by metis
  have "gs_ok s1" "gs_config s1 = ?c" using s1(2) by (simp_all add: grid_inv_def)
  moreover have "gs_get_value co s1 k = Inr None" for k
    using s1(3) gs_get_lookup [OF calculation(1), of co] by (simp add: grid_abs_def spec_new_def)
  moreover have "run_flusher fl s1 = Inl FlushCancelled" using assms(2) s1(4) by (simp add: run_flusher_def)
  ultimately show ?thesis using s1(1) by blast
qed

section \<open>Regions that are too large\<close>

lemma all_free_fields [simp]: "gap_max (all_free r) = r" "gap_leading (all_free r) = r" "gap_trailing (all_free r) = r"
  by (simp_all add: all_free_def)

text \<open>Two free regions: the sum of their gaps is a \<open>u16\<close>.\<close>

lemma merged_gap_wraps:
  assumes R: "2 ^ 15 \<le> R" "R < 2 ^ 16" and n: "R < n" "n \<le> 2 * R"
  defines "gaps \<equiv> [all_free (of_nat R), all_free (of_nat R)]"
  shows "find_fitting_gap R gaps n = Inr None" "gaps_trailing_free_blocks R gaps = 2 * R"
proof -
  have u: "unat (of_nat R :: u16) = R" using R(2) by (simp add: unat_of_nat)
  have "unat (of_nat R + of_nat R :: u16) = (R + R) mod 2 ^ 16" by (simp only: unat_word_ariths u) simp
  also have "\<dots> = R + R - 2 ^ 16" using R by (simp add: mod_if)
  finally have sum: "unat (of_nat R + of_nat R :: u16) < n" using R(2) n(1) by linarith
  have "n div R = 1 \<and> n mod R \<noteq> 0 \<or> n = 2 * R"
  proof (cases "n = 2 * R")
    case False
    then have "n = R + (n - R)" "n - R < R" "0 < n - R" using n by linarith+
    then show ?thesis using R(1) by (metis div_add_self1 div_less mod_add_self1 mod_less not_less_zero add.right_neutral Suc_eq_plus1 plus_1_eq_Suc gr_implies_not0)
  qed simp
  then have two: "div_ceil n R = 2" using R(1) by (auto simp: div_ceil_def)
  have "find_merged_gap R gaps 2 n = None"
    using sum by (simp add: find_merged_gap_def merged_fits_def gaps_def numeral_2_eq_2)
  moreover have "find_merged_gap R gaps (2 + 1) n = None" by (simp add: find_merged_gap_def gaps_def)
  ultimately show "find_fitting_gap R gaps n = Inr None"
    using two by (simp add: find_fitting_gap_def gaps_def Let_def)
  show "gaps_trailing_free_blocks R gaps = 2 * R" by (simp add: gaps_trailing_free_blocks_def gaps_def u)
qed

text \<open>The configuration accepts regions of $2^{15}$ blocks and more, but two free regions of that size are
  added up in a \<open>u16\<close>, which wraps. In a new store whose page has two such regions, a value of more than
  one region finds no gap although everything is free; no page is added either, because the free blocks
  at the end are counted correctly, and \<open>put_value\<close> panics.\<close>

lemma grid_large_regions_panic:
  assumes "config_of_options opts = Inr c" "64 dvd region_size_blocks c" "2 ^ 15 \<le> region_size_blocks c"
    "region_size_blocks c < 2 ^ 16" "page_blocks c = 2 * region_size_blocks c"
    "region_size_blocks c * block_size_bytes c < length (encode co c v)"
    "length (encode co c v) \<le> page_size_bytes c"
  shows "\<exists>s. gs_new lock opts = Inr s \<and> (\<forall>i < length (bitslice (gs_bitmask s)). \<not> bitslice (gs_bitmask s) ! i) \<and>
    put_value co s k v = Inl GridPanic"
proof -
  let ?R = "region_size_blocks c" and ?B = "block_size_bytes c"
  have c: "0 < ?B" "page_size_bytes c mod ?B = 0"
    using assms(1) by (auto simp: config_of_options_def Let_def split: if_splits)
  have ps: "page_size_bytes c = 2 * ?R * ?B" using c assms(5) by (metis mult.commute mult_div_mod_eq add.right_neutral page_blocks_def)
  define n where "n = div_ceil (length (encode co c v)) ?B"
  have "0 < length (encode co c v)" using assms(6) by linarith
  then have "length (encode co c v) \<le> n * ?B" "(n - 1) * ?B < length (encode co c v)" "0 < n"
    using div_ceil_bounds [OF _ c(1)] by (simp_all add: n_def)
  then have "?R * ?B < n * ?B" "(n - 1) * ?B < 2 * ?R * ?B" using assms(6,7) ps by linarith+
  then have n: "?R < n" "n \<le> 2 * ?R" "0 < n" using \<open>0 < n\<close> by auto
  note w = merged_gap_wraps [OF assms(3,4) n(1,2)]
  have eight: "2 * ?R div 8 * 8 = 2 * ?R" using assms(2) by auto
  define bm where "bm = \<lparr>bm_config = c, regions_gaps = [all_free (of_nat ?R), all_free (of_nat ?R)],
    bitslice = replicate (2 * ?R) False\<rparr>"
  have "0 < ?R" using assms(3) by (simp add: order.strict_trans2)
  then have "bm_create c = Inr bm"
    using c eight assms(5) unfolding page_blocks_def by (simp add: bm_create_def length_for_page_def bm_def numeral_2_eq_2)
  moreover obtain t where "tracker_new None = Inr t" using tracker_new_spec by blast
  ultimately obtain s where s: "gs_new lock opts = Inr s" "gs_bitmask s = bm" "gs_config s = c"
    using assms(1) by (simp add: gs_new_def)
  have "find_available_blocks bm n = Inr None" using w(1) by (simp add: find_available_blocks_def bm_def Let_def)
  moreover have "bm_trailing_free_blocks bm = 2 * ?R" using w(2) by (simp add: bm_trailing_free_blocks_def bm_def)
  ultimately have "find_or_create_available_blocks s n = Inl GridPanic"
    using n by (simp add: find_or_create_available_blocks_def s div_ceil_def)
  moreover have "n < 2 ^ 32" using n assms(4) by simp
  then have "blocks_for_value (length (encode co c v)) ?B = Inr n" by (simp add: blocks_for_value_def n_def)
  ultimately have "put_value co s k v = Inl GridPanic" by (simp add: put_value_def view_codec s Let_def)
  moreover have "\<not> bitslice (gs_bitmask s) ! i" if "i < length (bitslice (gs_bitmask s))" for i
    using that by (simp add: s bm_def)
  ultimately show ?thesis using s(1) by blast
qed

end
