(* ===== verification/PayloadStorage.thy ===== *)
theory PayloadStorage
  imports JsonPath GridstoreProps
begin

text \<open>
  \<open>lib/segment/src/payload_storage\<close> of qdrant: the payloads of the points of a segment. The memory mapped
  storage keeps them in a grid store, the in-memory one in a hash map; \<open>PayloadStorageEnum\<close> is one of them
  (the RocksDB variants are behind a feature and are not modelled). The hardware counters are left out.
\<close>

section \<open>Payloads (\<open>types.rs\<close>)\<close>

type_synonym 'n payload = "'n json_map"

definition payload_merge :: "'n payload \<Rightarrow> 'n payload \<Rightarrow> 'n payload" where
  "payload_merge dest value = merge_map dest value"

definition payload_merge_by_key :: "'n payload \<Rightarrow> 'n payload \<Rightarrow> json_path \<Rightarrow> 'n payload" where
  "payload_merge_by_key dest value key = value_set (Some key) dest value"

definition payload_remove :: "'n payload \<Rightarrow> json_path \<Rightarrow> 'n payload \<times> 'n json list" where
  "payload_remove p path = value_remove path p"

definition payload_get_value :: "'n payload \<Rightarrow> json_path \<Rightarrow> 'n json list" where
  "payload_get_value p path = value_get path p"

section \<open>In memory\<close>

type_synonym 'n memory_storage = "(nat, 'n payload) hashmap"

definition mem_overwrite :: "'n memory_storage \<Rightarrow> nat \<Rightarrow> 'n payload \<Rightarrow> 'n memory_storage" where
  "mem_overwrite st point_id payload = AList.update point_id payload st"

definition mem_set :: "'n memory_storage \<Rightarrow> nat \<Rightarrow> 'n payload \<Rightarrow> 'n memory_storage" where
  "mem_set st point_id payload =
     (case map_of st point_id of
        Some point_payload \<Rightarrow> AList.update point_id (payload_merge point_payload payload) st
      | None \<Rightarrow> AList.update point_id payload st)"

definition mem_set_by_key :: "'n memory_storage \<Rightarrow> nat \<Rightarrow> 'n payload \<Rightarrow> json_path \<Rightarrow> 'n memory_storage" where
  "mem_set_by_key st point_id payload key =
     (case map_of st point_id of
        Some point_payload \<Rightarrow> AList.update point_id (payload_merge_by_key point_payload payload key) st
      | None \<Rightarrow> AList.update point_id (payload_merge_by_key [] payload key) st)"

definition mem_get :: "'n memory_storage \<Rightarrow> nat \<Rightarrow> 'n payload" where
  "mem_get st point_id = (case map_of st point_id of Some payload \<Rightarrow> payload | None \<Rightarrow> [])"

definition mem_delete :: "'n memory_storage \<Rightarrow> nat \<Rightarrow> json_path \<Rightarrow> 'n memory_storage \<times> 'n json list" where
  "mem_delete st point_id key =
     (case map_of st point_id of
        Some payload \<Rightarrow> (case payload_remove payload key of (p, res) \<Rightarrow> (AList.update point_id p st, res))
      | None \<Rightarrow> (st, []))"

definition mem_clear :: "'n memory_storage \<Rightarrow> nat \<Rightarrow> 'n memory_storage \<times> 'n payload option" where
  "mem_clear st point_id = (AList.delete point_id st, map_of st point_id)"

section \<open>Over a grid store\<close>

definition mmap_overwrite ::
  "'n payload codec \<Rightarrow> gridstore \<Rightarrow> nat \<Rightarrow> 'n payload \<Rightarrow> (grid_error, gridstore) result" where
  "mmap_overwrite co st point_id payload = and_then (put_value co st point_id payload) (\<lambda>(st1, _). Inr st1)"

definition mmap_set ::
  "'n payload codec \<Rightarrow> gridstore \<Rightarrow> nat \<Rightarrow> 'n payload \<Rightarrow> (grid_error, gridstore) result" where
  "mmap_set co st point_id payload =
     and_then (gs_get_value co st point_id) (\<lambda>found.
       case found of
         Some point_payload \<Rightarrow>
           and_then (put_value co st point_id (payload_merge point_payload payload)) (\<lambda>(st1, _). Inr st1)
       | None \<Rightarrow> and_then (put_value co st point_id payload) (\<lambda>(st1, _). Inr st1))"

definition mmap_set_by_key ::
  "'n payload codec \<Rightarrow> gridstore \<Rightarrow> nat \<Rightarrow> 'n payload \<Rightarrow> json_path \<Rightarrow> (grid_error, gridstore) result" where
  "mmap_set_by_key co st point_id payload key =
     and_then (gs_get_value co st point_id) (\<lambda>found.
       case found of
         Some point_payload \<Rightarrow>
           and_then (put_value co st point_id (payload_merge_by_key point_payload payload key)) (\<lambda>(st1, _). Inr st1)
       | None \<Rightarrow>
           and_then (put_value co st point_id (payload_merge_by_key [] payload key)) (\<lambda>(st1, _). Inr st1))"

definition mmap_get :: "'n payload codec \<Rightarrow> gridstore \<Rightarrow> nat \<Rightarrow> (grid_error, 'n payload) result" where
  "mmap_get co st point_id =
     and_then (gs_get_value co st point_id) (\<lambda>found. case found of Some payload \<Rightarrow> Inr payload | None \<Rightarrow> Inr [])"

text \<open>A removal that removes nothing is not written back.\<close>

definition mmap_delete ::
  "'n payload codec \<Rightarrow> gridstore \<Rightarrow> nat \<Rightarrow> json_path \<Rightarrow> (grid_error, gridstore \<times> 'n json list) result" where
  "mmap_delete co st point_id key =
     and_then (gs_get_value co st point_id) (\<lambda>found.
       case found of
         Some payload \<Rightarrow>
           (case payload_remove payload key of (p, res) \<Rightarrow>
              if res \<noteq> [] then and_then (put_value co st point_id p) (\<lambda>(st1, _). Inr (st1, res)) else Inr (st, res))
       | None \<Rightarrow> Inr (st, []))"

definition mmap_clear ::
  "'n payload codec \<Rightarrow> gridstore \<Rightarrow> nat \<Rightarrow> (grid_error, gridstore \<times> 'n payload option) result" where
  "mmap_clear co st point_id = delete_value co st point_id"

section \<open>Either\<close>

datatype 'n payload_storage = InMemoryPayloadStorage "'n memory_storage" | MmapPayloadStorage gridstore

definition ps_overwrite ::
  "'n payload codec \<Rightarrow> 'n payload_storage \<Rightarrow> nat \<Rightarrow> 'n payload \<Rightarrow> (grid_error, 'n payload_storage) result" where
  "ps_overwrite co st point_id payload =
     (case st of
        InMemoryPayloadStorage s \<Rightarrow> Inr (InMemoryPayloadStorage (mem_overwrite s point_id payload))
      | MmapPayloadStorage s \<Rightarrow> and_then (mmap_overwrite co s point_id payload) (\<lambda>s1. Inr (MmapPayloadStorage s1)))"

definition ps_set ::
  "'n payload codec \<Rightarrow> 'n payload_storage \<Rightarrow> nat \<Rightarrow> 'n payload \<Rightarrow> (grid_error, 'n payload_storage) result" where
  "ps_set co st point_id payload =
     (case st of
        InMemoryPayloadStorage s \<Rightarrow> Inr (InMemoryPayloadStorage (mem_set s point_id payload))
      | MmapPayloadStorage s \<Rightarrow> and_then (mmap_set co s point_id payload) (\<lambda>s1. Inr (MmapPayloadStorage s1)))"

definition ps_set_by_key ::
  "'n payload codec \<Rightarrow> 'n payload_storage \<Rightarrow> nat \<Rightarrow> 'n payload \<Rightarrow> json_path \<Rightarrow> (grid_error, 'n payload_storage) result" where
  "ps_set_by_key co st point_id payload key =
     (case st of
        InMemoryPayloadStorage s \<Rightarrow> Inr (InMemoryPayloadStorage (mem_set_by_key s point_id payload key))
      | MmapPayloadStorage s \<Rightarrow>
          and_then (mmap_set_by_key co s point_id payload key) (\<lambda>s1. Inr (MmapPayloadStorage s1)))"

definition ps_get :: "'n payload codec \<Rightarrow> 'n payload_storage \<Rightarrow> nat \<Rightarrow> (grid_error, 'n payload) result" where
  "ps_get co st point_id =
     (case st of
        InMemoryPayloadStorage s \<Rightarrow> Inr (mem_get s point_id)
      | MmapPayloadStorage s \<Rightarrow> mmap_get co s point_id)"

definition ps_delete ::
  "'n payload codec \<Rightarrow> 'n payload_storage \<Rightarrow> nat \<Rightarrow> json_path \<Rightarrow> (grid_error, 'n payload_storage \<times> 'n json list) result" where
  "ps_delete co st point_id key =
     (case st of
        InMemoryPayloadStorage s \<Rightarrow>
          (case mem_delete s point_id key of (s1, res) \<Rightarrow> Inr (InMemoryPayloadStorage s1, res))
      | MmapPayloadStorage s \<Rightarrow>
          and_then (mmap_delete co s point_id key) (\<lambda>(s1, res). Inr (MmapPayloadStorage s1, res)))"

definition ps_clear ::
  "'n payload codec \<Rightarrow> 'n payload_storage \<Rightarrow> nat \<Rightarrow> (grid_error, 'n payload_storage \<times> 'n payload option) result" where
  "ps_clear co st point_id =
     (case st of
        InMemoryPayloadStorage s \<Rightarrow> (case mem_clear s point_id of (s1, res) \<Rightarrow> Inr (InMemoryPayloadStorage s1, res))
      | MmapPayloadStorage s \<Rightarrow>
          and_then (mmap_clear co s point_id) (\<lambda>(s1, res). Inr (MmapPayloadStorage s1, res)))"

section \<open>The contract of a payload storage\<close>

text \<open>The storage after a payload has been stored: everything else is as it was, and the cost is accounted for.\<close>

definition stored ::
  "('s \<Rightarrow> bool) \<Rightarrow> ('s \<Rightarrow> nat \<Rightarrow> 'n payload option) \<Rightarrow> ('s \<Rightarrow> nat) \<Rightarrow> ('n payload \<Rightarrow> nat) \<Rightarrow> 's \<Rightarrow> nat \<Rightarrow> 'n payload \<Rightarrow> 's \<Rightarrow> bool" where
  "stored ok payloads used cost s k p s' \<longleftrightarrow>
     ok s' \<and> payloads s' = (payloads s)(k \<mapsto> p) \<and> used s' \<le> used s + cost p"

definition or_default :: "'n payload option \<Rightarrow> 'n payload" where
  "or_default x = (case x of Some p \<Rightarrow> p | None \<Rightarrow> [])"

locale payload_store =
  fixes overwrite :: "'s \<Rightarrow> nat \<Rightarrow> 'n payload \<Rightarrow> (grid_error, 's) result"
    and set_payload :: "'s \<Rightarrow> nat \<Rightarrow> 'n payload \<Rightarrow> (grid_error, 's) result"
    and set_by_key :: "'s \<Rightarrow> nat \<Rightarrow> 'n payload \<Rightarrow> json_path \<Rightarrow> (grid_error, 's) result"
    and get :: "'s \<Rightarrow> nat \<Rightarrow> (grid_error, 'n payload) result"
    and delete :: "'s \<Rightarrow> nat \<Rightarrow> json_path \<Rightarrow> (grid_error, 's \<times> 'n json list) result"
    and clear :: "'s \<Rightarrow> nat \<Rightarrow> (grid_error, 's \<times> 'n payload option) result"
    and ok :: "'s \<Rightarrow> bool"
    and payloads :: "'s \<Rightarrow> nat \<Rightarrow> 'n payload option"
    and valid :: "nat \<Rightarrow> 'n payload \<Rightarrow> bool"
    and cost :: "'n payload \<Rightarrow> nat"
    and used :: "'s \<Rightarrow> nat"
    and limit :: nat
  assumes valid_wf: "valid k p \<Longrightarrow> map_wf p"
    and payloads_wf: "ok s \<Longrightarrow> payloads s k = Some p \<Longrightarrow> map_wf p"
    and overwrite_ok: "ok s \<Longrightarrow> valid k p \<Longrightarrow> used s + cost p \<le> limit \<Longrightarrow>
      \<exists>s'. overwrite s k p = Inr s' \<and> stored ok payloads used cost s k p s'"
    and set_ok: "ok s \<Longrightarrow> q = (case payloads s k of Some old \<Rightarrow> payload_merge old p | None \<Rightarrow> p) \<Longrightarrow>
      valid k q \<Longrightarrow> used s + cost q \<le> limit \<Longrightarrow> \<exists>s'. set_payload s k p = Inr s' \<and> stored ok payloads used cost s k q s'"
    and set_by_key_ok: "ok s \<Longrightarrow> q = payload_merge_by_key (or_default (payloads s k)) p key \<Longrightarrow>
      valid k q \<Longrightarrow> used s + cost q \<le> limit \<Longrightarrow> \<exists>s'. set_by_key s k p key = Inr s' \<and> stored ok payloads used cost s k q s'"
    and get_ok: "ok s \<Longrightarrow> get s k = Inr (or_default (payloads s k))"
    and delete_none: "ok s \<Longrightarrow> payloads s k = None \<Longrightarrow> delete s k key = Inr (s, [])"
    and delete_some: "ok s \<Longrightarrow> payloads s k = Some old \<Longrightarrow> q = fst (payload_remove old key) \<Longrightarrow>
      valid k q \<Longrightarrow> used s + cost q \<le> limit \<Longrightarrow>
      \<exists>s'. delete s k key = Inr (s', snd (payload_remove old key)) \<and> stored ok payloads used cost s k q s'"
    and clear_ok: "ok s \<Longrightarrow>
      \<exists>s'. clear s k = Inr (s', payloads s k) \<and> ok s' \<and> payloads s' = (payloads s)(k := None) \<and> used s' \<le> used s"
begin

text \<open>Every operation agrees with the in-memory storage on what it answers and on what is stored afterwards.\<close>

lemma overwrite_mem:
  assumes "ok s" "payloads s = map_of m" "valid k p" "used s + cost p \<le> limit"
  shows "\<exists>s'. overwrite s k p = Inr s' \<and> ok s' \<and> payloads s' = map_of (mem_overwrite m k p) \<and> used s' \<le> used s + cost p"
  using overwrite_ok [OF assms(1,3,4)] assms(2) by (auto simp: stored_def mem_overwrite_def map_of_update)

lemma set_mem:
  assumes "ok s" "payloads s = map_of m" "valid k (mem_get (mem_set m k p) k)"
    and "used s + cost (mem_get (mem_set m k p) k) \<le> limit"
  shows "\<exists>s'. set_payload s k p = Inr s' \<and> ok s' \<and> payloads s' = map_of (mem_set m k p) \<and>
    used s' \<le> used s + cost (mem_get (mem_set m k p) k)"
proof -
  have "mem_get (mem_set m k p) k = (case payloads s k of Some old \<Rightarrow> payload_merge old p | None \<Rightarrow> p)"
    by (simp add: assms(2) mem_get_def mem_set_def map_of_update split: option.split)
  moreover have "map_of (mem_set m k p) = (map_of m)(k \<mapsto> mem_get (mem_set m k p) k)"
    by (auto simp: mem_get_def mem_set_def map_of_update split: option.split)
  ultimately show ?thesis using set_ok [OF assms(1) _ assms(3,4)] assms(2) by (simp add: stored_def)
qed

lemma set_by_key_mem:
  assumes "ok s" "payloads s = map_of m" "valid k (mem_get (mem_set_by_key m k p key) k)"
    and "used s + cost (mem_get (mem_set_by_key m k p key) k) \<le> limit"
  shows "\<exists>s'. set_by_key s k p key = Inr s' \<and> ok s' \<and> payloads s' = map_of (mem_set_by_key m k p key) \<and>
    used s' \<le> used s + cost (mem_get (mem_set_by_key m k p key) k)"
proof -
  have "mem_get (mem_set_by_key m k p key) k = payload_merge_by_key (or_default (payloads s k)) p key"
    by (simp add: assms(2) mem_get_def mem_set_by_key_def map_of_update or_default_def split: option.split)
  moreover have "map_of (mem_set_by_key m k p key) = (map_of m)(k \<mapsto> mem_get (mem_set_by_key m k p key) k)"
    by (auto simp: mem_get_def mem_set_by_key_def map_of_update split: option.split)
  ultimately show ?thesis using set_by_key_ok [OF assms(1) _ assms(3,4)] assms(2) by (simp add: stored_def)
qed

lemma get_mem: "ok s \<Longrightarrow> payloads s = map_of m \<Longrightarrow> get s k = Inr (mem_get m k)"
  by (simp add: get_ok mem_get_def or_default_def)

lemma delete_mem:
  assumes "ok s" "payloads s = map_of m" "map_of m k \<noteq> None \<Longrightarrow> valid k (mem_get (fst (mem_delete m k key)) k)"
    and "used s + cost (mem_get (fst (mem_delete m k key)) k) \<le> limit"
  shows "\<exists>s'. delete s k key = Inr (s', snd (mem_delete m k key)) \<and> ok s' \<and>
    payloads s' = map_of (fst (mem_delete m k key)) \<and> used s' \<le> used s + cost (mem_get (fst (mem_delete m k key)) k)"
proof (cases "map_of m k")
  case None
  then show ?thesis using delete_none [OF assms(1)] assms(1,2) by (simp add: mem_delete_def)
next
  case (Some old)
  have "mem_get (fst (mem_delete m k key)) k = fst (payload_remove old key)"
    using Some by (simp add: mem_get_def mem_delete_def map_of_update split: prod.split)
  then show ?thesis
    using delete_some [OF assms(1), of k old "fst (payload_remove old key)" key] assms(2-4) Some
    by (auto simp: stored_def mem_delete_def map_of_update split: prod.splits)
qed

lemma clear_mem:
  assumes "ok s" "payloads s = map_of m"
  shows "\<exists>s'. clear s k = Inr (s', snd (mem_clear m k)) \<and> ok s' \<and> payloads s' = map_of (fst (mem_clear m k)) \<and>
    used s' \<le> used s"
  using clear_ok [OF assms(1), of k] assms(2) by (simp add: mem_clear_def map_of_delete)

end

section \<open>The storages keep it\<close>

text \<open>A payload a grid store with configuration \<open>c\<close> can take at a point.\<close>

definition payload_fits :: "'n payload codec \<Rightarrow> storage_config \<Rightarrow> nat \<Rightarrow> 'n payload \<Rightarrow> bool" where
  "payload_fits co c k p \<longleftrightarrow> value_ok co c p \<and> k + 1 < 2 ^ 32 \<and> map_wf p"

definition mmap_ok :: "'n payload codec \<Rightarrow> storage_config \<Rightarrow> gridstore \<Rightarrow> bool" where
  "mmap_ok co c s \<longleftrightarrow> grid_inv c (s, None) \<and> (\<forall>k p. gs_lookup co s k = Some p \<longrightarrow> map_wf p)"

lemma mmap_put:
  assumes "mmap_ok co c s" "payload_fits co c k p" "length (gs_pages s) + value_pages co c p \<le> 2 ^ 32"
  shows "\<exists>s' b. put_value co s k p = Inr (s', b) \<and>
    stored (mmap_ok co c) (gs_lookup co) (\<lambda>s. length (gs_pages s)) (value_pages co c) s k p s'"
  using grid_put [of c s co p k] assms by (auto simp: stored_def mmap_ok_def payload_fits_def)

lemma gs_ok_mmap: "mmap_ok co c s \<Longrightarrow> gs_get_value co s k = Inr (gs_lookup co s k)"
  by (rule gs_get_lookup) (simp add: mmap_ok_def grid_inv_def)

interpretation mmap: payload_store "mmap_overwrite co" "mmap_set co" "mmap_set_by_key co" "mmap_get co" "mmap_delete co"
  "mmap_clear co" "mmap_ok co c" "gs_lookup co" "payload_fits co c" "value_pages co c" "\<lambda>s. length (gs_pages s)" "2 ^ 32"
  for co :: "'n payload codec" and c
proof (unfold_locales, goal_cases)
  case (3 s k p)
  then show ?case using mmap_put [OF 3] by (auto simp: mmap_overwrite_def)
next
  case (4 s q k p)
  then show ?case using mmap_put [OF 4(1,3,4)] by (auto simp: mmap_set_def gs_ok_mmap split: option.splits)
next
  case (5 s q k p key)
  then show ?case using mmap_put [OF 5(1,3,4)]
    by (auto simp: mmap_set_by_key_def gs_ok_mmap or_default_def split: option.splits)
next
  case (6 s k)
  then show ?case by (simp add: mmap_get_def gs_ok_mmap or_default_def split: option.split)
next
  case (7 s k key)
  then show ?case by (simp add: mmap_delete_def gs_ok_mmap)
next
  case (8 s k old q key)
  show ?case
  proof (cases "snd (payload_remove old key) = []")
    case True
    have "map_wf old" using 8(1,2) by (simp add: mmap_ok_def)
    then have "q = old" using True value_remove_unchanged 8(3) by (simp add: payload_remove_def)
    then have "(gs_lookup co s)(k \<mapsto> q) = gs_lookup co s" using 8(2) by auto
    then show ?thesis using 8(1,2) True by (auto simp: mmap_delete_def gs_ok_mmap stored_def split: prod.split)
  next
    case False
    then show ?thesis using mmap_put [OF 8(1,4,5)] 8(1-3)
      by (auto simp: mmap_delete_def gs_ok_mmap split: prod.split)
  qed
next
  case (9 s k)
  then show ?case using grid_delete [of c s co k] by (auto simp: mmap_clear_def mmap_ok_def)
qed (auto simp: payload_fits_def mmap_ok_def)

definition mem_ok :: "'n memory_storage \<Rightarrow> bool" where
  "mem_ok m \<longleftrightarrow> (\<forall>k p. map_of m k = Some p \<longrightarrow> map_wf p)"

interpretation mem: payload_store "\<lambda>m k p. Inr (mem_overwrite m k p)" "\<lambda>m k p. Inr (mem_set m k p)"
  "\<lambda>m k p key. Inr (mem_set_by_key m k p key)" "\<lambda>m k. Inr (mem_get m k)" "\<lambda>m k key. Inr (mem_delete m k key)"
  "\<lambda>m k. Inr (mem_clear m k)" mem_ok map_of "\<lambda>k p. map_wf p" "\<lambda>p. 0" "\<lambda>m. 0" 0
  by unfold_locales
    (auto simp: mem_ok_def stored_def mem_overwrite_def mem_set_def mem_set_by_key_def mem_get_def mem_delete_def
      mem_clear_def or_default_def hashmap_simps split: option.splits prod.splits if_splits)

fun ps_ok :: "'n payload codec \<Rightarrow> storage_config \<Rightarrow> 'n payload_storage \<Rightarrow> bool" where
  "ps_ok co c (InMemoryPayloadStorage m) = mem_ok m"
| "ps_ok co c (MmapPayloadStorage s) = mmap_ok co c s"

fun ps_payloads :: "'n payload codec \<Rightarrow> 'n payload_storage \<Rightarrow> nat \<Rightarrow> 'n payload option" where
  "ps_payloads co (InMemoryPayloadStorage m) = map_of m"
| "ps_payloads co (MmapPayloadStorage s) = gs_lookup co s"

fun ps_used :: "'n payload_storage \<Rightarrow> nat" where
  "ps_used (InMemoryPayloadStorage m) = 0"
| "ps_used (MmapPayloadStorage s) = length (gs_pages s)"

lemma stored_mem:
  "stored mem_ok map_of (\<lambda>m. 0) (\<lambda>p. 0) m k p m' \<Longrightarrow>
   stored (ps_ok co c) (ps_payloads co) ps_used cost (InMemoryPayloadStorage m) k p (InMemoryPayloadStorage m')"
  by (simp add: stored_def)

lemma stored_mmap:
  "stored (mmap_ok co c) (gs_lookup co) (\<lambda>s. length (gs_pages s)) cost s k p s' \<Longrightarrow>
   stored (ps_ok co c) (ps_payloads co) ps_used cost (MmapPayloadStorage s) k p (MmapPayloadStorage s')"
  by (simp add: stored_def)

interpretation ps: payload_store "ps_overwrite co" "ps_set co" "ps_set_by_key co" "ps_get co" "ps_delete co" "ps_clear co"
  "ps_ok co c" "ps_payloads co" "payload_fits co c" "value_pages co c" ps_used "2 ^ 32"
  for co :: "'n payload codec" and c
proof (unfold_locales, goal_cases)
  case (1 k p)
  then show ?case by (rule mmap.valid_wf)
next
  case (2 s k p)
  then show ?case by (cases s) (auto dest: mmap.payloads_wf mem.payloads_wf)
next
  case (3 s k p)
  then show ?case
    using mem.overwrite_ok [of _ p] mmap.overwrite_ok [of co c _ k p] stored_mem stored_mmap
    by (cases s) (fastforce simp: ps_overwrite_def payload_fits_def)+
next
  case (4 s q k p)
  then show ?case
    using mem.set_ok [of _ q k p] mmap.set_ok [of co c _ q k p] stored_mem stored_mmap
    by (cases s) (fastforce simp: ps_set_def payload_fits_def)+
next
  case (5 s q k p key)
  then show ?case
    using mem.set_by_key_ok [of _ q k p key] mmap.set_by_key_ok [of co c _ q k p key] stored_mem stored_mmap
    by (cases s) (fastforce simp: ps_set_by_key_def payload_fits_def)+
next
  case (6 s k)
  then show ?case using mem.get_ok [of _ k] mmap.get_ok [of co c _ k] by (cases s) (auto simp: ps_get_def)
next
  case (7 s k key)
  then show ?case using mem.delete_none [of _ k key] mmap.delete_none [of co c _ k key]
    by (cases s) (auto simp: ps_delete_def mem_delete_def)
next
  case (8 s k old q key)
  then show ?case
    using mem.delete_some [of _ k old q key] mmap.delete_some [of co c _ k old q key] stored_mem stored_mmap
    by (cases s) (fastforce simp: ps_delete_def payload_fits_def)+
next
  case (9 s k)
  then show ?case using mem.clear_ok [of _ k] mmap.clear_ok [of co c _ k] by (cases s) (fastforce simp: ps_clear_def)+
qed

section \<open>Histories\<close>

datatype 'n payload_op = POverwrite nat "'n payload" | PSet nat "'n payload" | PSetByKey nat "'n payload" json_path
  | PDelete nat json_path | PClear nat | PGet nat

datatype 'n payload_out = PDone | PRemoved "'n json list" | PCleared "'n payload option" | PPayload "'n payload"

fun ps_step :: "'n payload codec \<Rightarrow> 'n payload_storage \<Rightarrow> 'n payload_op \<Rightarrow>
    (grid_error, 'n payload_storage \<times> 'n payload_out) result" where
  "ps_step co st (POverwrite k p) = and_then (ps_overwrite co st k p) (\<lambda>st1. Inr (st1, PDone))"
| "ps_step co st (PSet k p) = and_then (ps_set co st k p) (\<lambda>st1. Inr (st1, PDone))"
| "ps_step co st (PSetByKey k p key) = and_then (ps_set_by_key co st k p key) (\<lambda>st1. Inr (st1, PDone))"
| "ps_step co st (PDelete k key) = and_then (ps_delete co st k key) (\<lambda>(st1, res). Inr (st1, PRemoved res))"
| "ps_step co st (PClear k) = and_then (ps_clear co st k) (\<lambda>(st1, res). Inr (st1, PCleared res))"
| "ps_step co st (PGet k) = and_then (ps_get co st k) (\<lambda>p. Inr (st, PPayload p))"

fun ps_run :: "'n payload codec \<Rightarrow> 'n payload_storage \<Rightarrow> 'n payload_op list \<Rightarrow>
    (grid_error, 'n payload_storage \<times> 'n payload_out list) result" where
  "ps_run co st [] = Inr (st, [])"
| "ps_run co st (x # xs) =
     and_then (ps_step co st x) (\<lambda>(st1, res). and_then (ps_run co st1 xs) (\<lambda>(st2, outs). Inr (st2, res # outs)))"

fun mem_step :: "'n memory_storage \<Rightarrow> 'n payload_op \<Rightarrow> 'n memory_storage \<times> 'n payload_out" where
  "mem_step m (POverwrite k p) = (mem_overwrite m k p, PDone)"
| "mem_step m (PSet k p) = (mem_set m k p, PDone)"
| "mem_step m (PSetByKey k p key) = (mem_set_by_key m k p key, PDone)"
| "mem_step m (PDelete k key) = (case mem_delete m k key of (m1, res) \<Rightarrow> (m1, PRemoved res))"
| "mem_step m (PClear k) = (case mem_clear m k of (m1, res) \<Rightarrow> (m1, PCleared res))"
| "mem_step m (PGet k) = (m, PPayload (mem_get m k))"

fun mem_run :: "'n memory_storage \<Rightarrow> 'n payload_op list \<Rightarrow> 'n memory_storage \<times> 'n payload_out list" where
  "mem_run m [] = (m, [])"
| "mem_run m (x # xs) = (case mem_step m x of (m1, res) \<Rightarrow> (case mem_run m1 xs of (m2, outs) \<Rightarrow> (m2, res # outs)))"

text \<open>The payload an operation leaves at its point, and those of a history.\<close>

definition op_writes :: "'n memory_storage \<Rightarrow> 'n payload_op \<Rightarrow> (nat \<times> 'n payload) list" where
  "op_writes m x =
     (let m1 = fst (mem_step m x) in
      case x of POverwrite k _ \<Rightarrow> [(k, mem_get m1 k)] | PSet k _ \<Rightarrow> [(k, mem_get m1 k)]
      | PSetByKey k _ _ \<Rightarrow> [(k, mem_get m1 k)]
      | PDelete k _ \<Rightarrow> if map_of m k = None then [] else [(k, mem_get m1 k)]
      | PClear _ \<Rightarrow> [] | PGet _ \<Rightarrow> [])"

fun run_writes :: "'n memory_storage \<Rightarrow> 'n payload_op list \<Rightarrow> (nat \<times> 'n payload) list" where
  "run_writes m [] = []"
| "run_writes m (x # xs) = op_writes m x @ run_writes (fst (mem_step m x)) xs"

definition writes_pages :: "'n payload codec \<Rightarrow> storage_config \<Rightarrow> (nat \<times> 'n payload) list \<Rightarrow> nat" where
  "writes_pages co c ws = sum_list (map (\<lambda>(k, p). value_pages co c p) ws)"

lemma ps_step_mem:
  assumes ok: "ps_ok co c st" "ps_payloads co st = map_of m"
    and fits: "\<forall>(k, p) \<in> set (op_writes m x). payload_fits co c k p"
    and room: "ps_used st + writes_pages co c (op_writes m x) \<le> 2 ^ 32"
  shows "\<exists>st'. ps_step co st x = Inr (st', snd (mem_step m x)) \<and> ps_ok co c st' \<and>
    ps_payloads co st' = map_of (fst (mem_step m x)) \<and> ps_used st' \<le> ps_used st + writes_pages co c (op_writes m x)"
proof (cases x)
  case (POverwrite k p)
  then have "mem_get (mem_overwrite m k p) k = p" by (simp add: mem_get_def mem_overwrite_def map_of_update)
  then show ?thesis using ps.overwrite_mem [OF ok, of k p] fits room POverwrite
    by (auto simp: op_writes_def writes_pages_def)
next
  case (PSet k p)
  then show ?thesis using ps.set_mem [OF ok, of k p] fits room by (auto simp: op_writes_def writes_pages_def)
next
  case (PSetByKey k p key)
  then show ?thesis using ps.set_by_key_mem [OF ok, of k p key] fits room by (auto simp: op_writes_def writes_pages_def)
next
  case (PDelete k key)
  show ?thesis
  proof (cases "map_of m k")
    case None
    then have "ps_delete co st k key = Inr (st, [])" using ps.delete_none [OF ok(1)] ok(2) by simp
    then show ?thesis using None ok PDelete by (simp add: mem_delete_def)
  next
    case (Some old)
    then show ?thesis using ps.delete_mem [OF ok, of k key] fits room PDelete
      by (auto simp: op_writes_def writes_pages_def split: prod.splits)
  qed
next
  case (PClear k)
  then show ?thesis using ps.clear_mem [OF ok, of k] by (auto simp: op_writes_def writes_pages_def split: prod.splits)
next
  case (PGet k)
  then show ?thesis using ps.get_mem [OF ok, of k] ok by simp
qed

lemma ps_run_mem:
  "ps_ok co c st \<Longrightarrow> ps_payloads co st = map_of m \<Longrightarrow> \<forall>(k, p) \<in> set (run_writes m xs). payload_fits co c k p \<Longrightarrow>
   ps_used st + writes_pages co c (run_writes m xs) \<le> 2 ^ 32 \<Longrightarrow>
   \<exists>st'. ps_run co st xs = Inr (st', snd (mem_run m xs)) \<and> ps_ok co c st' \<and> ps_payloads co st' = map_of (fst (mem_run m xs))"
proof (induction xs arbitrary: st m)
  case (Cons x xs)
  have w: "writes_pages co c (run_writes m (x # xs)) =
      writes_pages co c (op_writes m x) + writes_pages co c (run_writes (fst (mem_step m x)) xs)"
    by (simp add: writes_pages_def)
  obtain st1 where st1: "ps_step co st x = Inr (st1, snd (mem_step m x))" "ps_ok co c st1"
    "ps_payloads co st1 = map_of (fst (mem_step m x))" "ps_used st1 \<le> ps_used st + writes_pages co c (op_writes m x)"
    using ps_step_mem [OF Cons.prems(1,2), of x] Cons.prems(3,4) w by auto
  have "ps_used st1 + writes_pages co c (run_writes (fst (mem_step m x)) xs) \<le> 2 ^ 32"
    using st1(4) Cons.prems(4) w by simp
  then show ?case using Cons.IH [OF st1(2,3)] Cons.prems(3) st1(1) by (auto split: prod.split)
qed simp

section \<open>Property\<close>

text \<open>A codec for the payloads of a list: the bytes of one are its position.\<close>

definition table_codec :: "nat payload list \<Rightarrow> nat payload codec" where
  "table_codec ps = \<lparr>to_bytes = (\<lambda>p. [of_nat (length (takeWhile (\<lambda>q. q \<noteq> p) ps))]), from_bytes = (\<lambda>b. ps ! unat (hd b)),
     compress_lz4 = id, decompress_lz4 = id\<rparr>"

definition demo_payloads :: "nat payload list" where
  "demo_payloads = [[(''a'', JNumber 1)], [(''a'', JNumber 1), (''c'', JObject [(''b'', JNumber 2)])],
     [(''c'', JObject [(''b'', JNumber 2)])]]"

definition demo_payload_ops :: "nat payload_op list" where
  "demo_payload_ops = [PSet 0 [(''a'', JNumber 1)], PSetByKey 0 [(''b'', JNumber 2)] (path_at ''c'' []),
     PDelete 0 (path_at ''a'' []), PDelete 5 (path_at ''a'' []), PGet 0]"

lemma demo_payload_writes:
  "run_writes [] demo_payload_ops = map (Pair 0) demo_payloads"
  "snd (mem_run [] demo_payload_ops) =
     [PDone, PDone, PRemoved [JNumber 1], PRemoved [], PPayload [(''c'', JObject [(''b'', JNumber 2)])]]"
  by (simp_all add: demo_payload_ops_def demo_payloads_def op_writes_def mem_set_def mem_set_by_key_def mem_delete_def
      mem_get_def payload_merge_by_key_def payload_remove_def value_set_def value_set_map.simps value_remove_def
      object_or_new_def)

text \<open>C15: The memory mapped payload storage answers what the in-memory one answers, over any history of writes, merges,
  removals under paths, clears and reads, from a new grid store on, as long as the payloads are encoded faithfully,
  their bytes fit in a \<open>u32\<close> and all pages ever needed fit; what it stores at the end is the same too.\<close>

theorem mmap_payloads_refine_memory:
  assumes "config_of_options opts = Inr c" "config_fits c"
    and "\<forall>(k, p) \<in> set (run_writes [] xs). payload_fits co c k p"
    and "1 + writes_pages co c (run_writes [] xs) \<le> 2 ^ 32"
  shows "\<exists>s st. gs_new lock opts = Inr s \<and> ps_run co (MmapPayloadStorage s) xs = Inr (st, snd (mem_run [] xs)) \<and>
    ps_payloads co st = map_of (fst (mem_run [] xs))"
proof -
  obtain s where s: "gs_new lock opts = Inr s" "grid_inv c (s, None)" "grid_abs co (s, None) = spec_new"
    "length (gs_pages s) = 1" using new_store [OF assms(1,2)] by metis
  have "gs_lookup co s = Map.empty" using s(3) by (simp add: grid_abs_def spec_new_def)
  then have "ps_ok co c (MmapPayloadStorage s)" "ps_payloads co (MmapPayloadStorage s) = map_of []"
    using s(2) by (simp_all add: mmap_ok_def)
  from ps_run_mem [OF this assms(3)] show ?thesis using s(1,4) assms(4) by auto
qed

theorem mmap_payloads_refine_memory_witness:
  "\<exists>s st. gs_new 0 demo_options = Inr s \<and> ps_run (table_codec demo_payloads) (MmapPayloadStorage s) demo_payload_ops =
     Inr (st, [PDone, PDone, PRemoved [JNumber 1], PRemoved [], PPayload [(''c'', JObject [(''b'', JNumber 2)])]])"
proof -
  let ?co = "table_codec demo_payloads"
  have fits: "\<forall>(k, p) \<in> set (run_writes [] demo_payload_ops). payload_fits ?co demo_config k p"
  proof -
    have "list_all map_wf demo_payloads" by code_simp
    then have "map_wf p" if "p \<in> set demo_payloads" for p using that by (simp add: list_all_iff)
    moreover have "value_ok ?co demo_config p" if "p \<in> set demo_payloads" for p
      using that by (auto simp: value_ok_def encode_def decode_def demo_config_def table_codec_def demo_payloads_def)
    ultimately show ?thesis by (auto simp: demo_payload_writes payload_fits_def)
  qed
  have "value_pages ?co demo_config p = 1" for p
    by (simp add: value_pages_def pages_needed_def encode_def demo_config_def table_codec_def div_ceil_def)
  then have "1 + writes_pages ?co demo_config (run_writes [] demo_payload_ops) \<le> 2 ^ 32"
    by (simp add: demo_payload_writes writes_pages_def demo_payloads_def)
  from mmap_payloads_refine_memory [OF demo_config_ok fits this, of 0, unfolded demo_payload_writes(2)] show ?thesis
    by blast
qed

end
