(* ===== verification/FlagStorage.thy ===== *)
theory FlagStorage
  imports GridstoreHistory JsonPath
begin

text \<open>
  \<open>lib/segment/src/common/flags\<close> of qdrant: growable sets of points on disk. \<open>DynamicMmapFlags\<close> is a memory
  mapped bit array that is doubled when it is full, \<open>BufferedDynamicFlags\<close> keeps the changes since the last
  flush, and \<open>RoaringFlags\<close> adds the set in memory. A roaring bitmap is a finite set; the files are their
  contents and the memory maps never fail. The flusher of a dropped instance is not modelled.
\<close>

section \<open>Memory mapped flags (\<open>dynamic_mmap_flags.rs\<close>)\<close>

record mmap_flags =
  mf_flags :: "bool list"
  mf_len :: nat

fun next_power_of_two_from :: "nat \<Rightarrow> nat \<Rightarrow> nat \<Rightarrow> nat" where
  "next_power_of_two_from 0 p n = p"
| "next_power_of_two_from (Suc fuel) p n = (if n \<le> p then p else next_power_of_two_from fuel (2 * p) n)"

text \<open>\<open>usize::next_power_of_two\<close>: the least power of two that is at least \<open>n\<close>.\<close>

definition next_power_of_two :: "nat \<Rightarrow> nat" where "next_power_of_two n = next_power_of_two_from n 1 n"

text \<open>\<open>MINIMAL_MMAP_SIZE\<close> depends on the build (128 bytes, or one MiB in a release): it is the argument \<open>mn\<close>.\<close>

definition mmap_capacity_bytes :: "nat \<Rightarrow> nat \<Rightarrow> nat" where
  "mmap_capacity_bytes mn num_flags = max mn (next_power_of_two (div_ceil num_flags 8))"

definition mmap_max_current_size :: "nat \<Rightarrow> nat \<Rightarrow> nat" where
  "mmap_max_current_size mn len = mmap_capacity_bytes mn len * 8"

text \<open>\<open>File::set_len\<close> truncates, or extends with zeros.\<close>

definition file_set_len :: "bool list \<Rightarrow> nat \<Rightarrow> bool list" where
  "file_set_len bits n = take n bits @ replicate (n - length bits) False"

definition mf_open_mmap :: "nat \<Rightarrow> bool list \<Rightarrow> nat \<Rightarrow> bool list" where
  "mf_open_mmap mn file num_flags = file_set_len file (mmap_capacity_bytes mn num_flags * 8)"

text \<open>The files are the flags and the status; a new directory has none of either.\<close>

definition mf_open :: "nat \<Rightarrow> bool list \<times> nat \<Rightarrow> mmap_flags" where
  "mf_open mn files = (case files of (file, len) \<Rightarrow> \<lparr>mf_flags = mf_open_mmap mn file len, mf_len = len\<rparr>)"

definition mf_files :: "mmap_flags \<Rightarrow> bool list \<times> nat" where "mf_files f = (mf_flags f, mf_len f)"

datatype flags_error = CannotShrink nat nat

definition mf_set_len :: "nat \<Rightarrow> mmap_flags \<Rightarrow> nat \<Rightarrow> (flags_error, mmap_flags) result" where
  "mf_set_len mn f new_len =
     (if new_len = mf_len f then Inr f
      else if new_len < mf_len f then Inl (CannotShrink (mf_len f) new_len)
      else if mmap_max_current_size mn (mf_len f) < new_len
      then Inr (f\<lparr>mf_flags := mf_open_mmap mn (mf_flags f) new_len, mf_len := new_len\<rparr>)
      else Inr (f\<lparr>mf_len := new_len\<rparr>))"

definition mf_get :: "mmap_flags \<Rightarrow> nat \<Rightarrow> bool" where
  "mf_get f key = (if mf_len f \<le> key then False else mf_flags f ! key)"

text \<open>The flags after the call and the previous value.\<close>

definition mf_set :: "mmap_flags \<Rightarrow> nat \<Rightarrow> bool \<Rightarrow> mmap_flags \<times> bool" where
  "mf_set f key value =
     (if mf_len f \<le> key then (f, False) else (f\<lparr>mf_flags := (mf_flags f)[key := value]\<rparr>, mf_flags f ! key))"

definition mf_count_flags :: "mmap_flags \<Rightarrow> nat" where
  "mf_count_flags f = length (filter id (take (mf_len f) (mf_flags f)))"

definition mf_set_with_resize :: "nat \<Rightarrow> mmap_flags \<Rightarrow> nat \<Rightarrow> bool \<Rightarrow> (flags_error, mmap_flags \<times> bool) result" where
  "mf_set_with_resize mn f key value =
     (if mf_len f \<le> key \<and> \<not> value then Inr (f, False)
      else and_then (if mf_len f \<le> key then mf_set_len mn f (key + 1) else Inr f) (\<lambda>f1.
        Inr (f1\<lparr>mf_flags := (mf_flags f1)[key := value]\<rparr>, mf_flags f1 ! key)))"

definition mf_iter_trues :: "mmap_flags \<Rightarrow> nat list" where
  "mf_iter_trues f = filter (\<lambda>i. mf_flags f ! i) [0..<length (mf_flags f)]"

section \<open>Buffered flags and their set (\<open>buffered_dynamic_flags.rs\<close>, \<open>roaring_flags.rs\<close>)\<close>

record roaring_flags =
  rf_storage :: mmap_flags
  rf_buffer :: "(nat, bool) hashmap"
  rf_bitmap :: "nat set"
  rf_len :: nat

definition rf_new :: "mmap_flags \<Rightarrow> roaring_flags" where
  "rf_new f = \<lparr>rf_storage = f, rf_buffer = [], rf_bitmap = set (mf_iter_trues f), rf_len = mf_len f\<rparr>"

definition rf_get :: "roaring_flags \<Rightarrow> nat \<Rightarrow> bool" where "rf_get f index = (index \<in> rf_bitmap f)"

definition rf_iter_falses :: "roaring_flags \<Rightarrow> nat list" where
  "rf_iter_falses f = filter (\<lambda>i. i \<notin> rf_bitmap f) [0..<rf_len f]"

definition rf_count_trues :: "roaring_flags \<Rightarrow> nat" where "rf_count_trues f = card (rf_bitmap f)"
definition rf_count_falses :: "roaring_flags \<Rightarrow> nat" where "rf_count_falses f = rf_len f - rf_count_trues f"

text \<open>\<open>insert\<close> and \<open>remove\<close> of a bitmap say whether they changed it; \<open>set\<close> returns the previous value.\<close>

definition rf_set :: "roaring_flags \<Rightarrow> nat \<Rightarrow> bool \<Rightarrow> roaring_flags \<times> bool" where
  "rf_set f index value =
     (let f1 = f\<lparr>rf_buffer := AList.update index value (rf_buffer f),
                rf_len := (if rf_len f \<le> index then index + 1 else rf_len f)\<rparr> in
      if value then (f1\<lparr>rf_bitmap := insert index (rf_bitmap f)\<rparr>, \<not> (index \<notin> rf_bitmap f))
      else (f1\<lparr>rf_bitmap := rf_bitmap f - {index}\<rparr>, index \<in> rf_bitmap f))"

text \<open>The flusher has a copy of the buffer; it takes it to the files and then removes from the buffer what it has
  written and what has not changed since.\<close>

definition rf_flusher :: "roaring_flags \<Rightarrow> (nat, bool) hashmap" where "rf_flusher f = rf_buffer f"

definition required_len :: "(nat, bool) hashmap \<Rightarrow> nat" where
  "required_len updates = fold (\<lambda>(k, _) n. max (k + 1) n) updates 0"

definition reconcile_persisted_buffer :: "(nat, bool) hashmap \<Rightarrow> (nat, bool) hashmap \<Rightarrow> (nat, bool) hashmap" where
  "reconcile_persisted_buffer buffer persisted =
     filter (\<lambda>(point_id, a). case map_of persisted point_id of None \<Rightarrow> True | Some b \<Rightarrow> a \<noteq> b) buffer"

definition rf_run_flusher :: "nat \<Rightarrow> (nat, bool) hashmap \<Rightarrow> roaring_flags \<Rightarrow> (flags_error, roaring_flags) result" where
  "rf_run_flusher mn updates f =
     (if updates = [] then Inr f
      else and_then (if mf_len (rf_storage f) < required_len updates
                     then mf_set_len mn (rf_storage f) (required_len updates) else Inr (rf_storage f)) (\<lambda>flags.
        let flags1 = fold (\<lambda>(index, value) g. fst (mf_set g index value)) updates flags in
        Inr (f\<lparr>rf_storage := flags1, rf_buffer := reconcile_persisted_buffer (rf_buffer f) updates\<rparr>)))"

section \<open>Capacity\<close>

lemma next_power_of_two_from_le: "n \<le> p + fuel \<Longrightarrow> 0 < p \<Longrightarrow> n \<le> next_power_of_two_from fuel p n"
  by (induction fuel arbitrary: p) auto

lemma next_power_of_two_le: "n \<le> next_power_of_two n"
  unfolding next_power_of_two_def by (rule next_power_of_two_from_le) simp_all

lemma next_power_of_two_from_power: "\<exists>j. next_power_of_two_from fuel (2 ^ i) n = 2 ^ j"
  by (induction fuel arbitrary: i) (auto simp: power_Suc [symmetric] simp del: power_Suc)

lemma next_power_of_two_from_least: "n \<le> 2 ^ j \<Longrightarrow> i \<le> j \<Longrightarrow> next_power_of_two_from fuel (2 ^ i) n \<le> 2 ^ j"
proof (induction fuel arbitrary: i)
  case (Suc fuel)
  have "Suc i \<le> j" if "\<not> n \<le> 2 ^ i"
    using that Suc.prems by (metis le_eq_less_or_eq less_eq_Suc_le)
  then show ?case using Suc.IH [of "Suc i"] Suc.prems by auto
qed simp

lemma next_power_of_two_least: "n \<le> 2 ^ j \<Longrightarrow> next_power_of_two n \<le> 2 ^ j"
  using next_power_of_two_from_least [of n j 0 n] by (simp add: next_power_of_two_def)

lemma next_power_of_two_power: "\<exists>j. next_power_of_two n = 2 ^ j"
  using next_power_of_two_from_power [of n 0 n] by (simp add: next_power_of_two_def)

lemma flags_div_ceil_bounds: "0 < b \<Longrightarrow> n \<le> div_ceil n b * b \<and> (n \<le> k * b \<longrightarrow> div_ceil n b \<le> k)"
proof -
  assume b: "0 < b"
  have "n = n div b * b + n mod b" "n mod b < b" using b by simp_all
  then have 1: "n \<le> div_ceil n b * b" 
  proof (cases "n mod b = 0")
    case False
    have "n \<le> n div b * b + b" using \<open>n = n div b * b + n mod b\<close> \<open>n mod b < b\<close> by linarith
    then show ?thesis using False by (simp add: div_ceil_def)
  qed (simp add: div_ceil_def)
  have "div_ceil n b \<le> k" if "n \<le> k * b"
  proof (cases "n mod b = 0")
    case True
    then show ?thesis using that b by (simp add: div_ceil_def) (metis div_le_mono nonzero_mult_div_cancel_right not_less0)
  next
    case False
    then have "n div b * b < k * b" using that \<open>n = n div b * b + n mod b\<close> by linarith
    then show ?thesis using False b by (simp add: div_ceil_def)
  qed
  then show ?thesis using 1 by blast
qed

lemma capacity_le: "n \<le> mmap_max_current_size mn n"
proof -
  have "n \<le> div_ceil n 8 * 8" using flags_div_ceil_bounds [of 8 n] by simp
  also have "\<dots> \<le> mmap_max_current_size mn n"
    using next_power_of_two_le [of "div_ceil n 8"] by (simp add: mmap_max_current_size_def mmap_capacity_bytes_def)
  finally show ?thesis .
qed

text \<open>As long as the flags fit, the capacity computed from the length stays the one of the file.\<close>

lemma capacity_stable:
  assumes "n \<le> m" "m \<le> mmap_max_current_size (2 ^ j) n"
  shows "mmap_capacity_bytes (2 ^ j) m = mmap_capacity_bytes (2 ^ j) n"
proof -
  obtain i where i: "mmap_capacity_bytes (2 ^ j) n = 2 ^ i"
    using next_power_of_two_power [of "div_ceil n 8"] unfolding mmap_capacity_bytes_def max_def by metis
  have "div_ceil m 8 \<le> 2 ^ i"
    using assms(2) i flags_div_ceil_bounds [of 8 m "2 ^ i"] by (simp add: mmap_max_current_size_def)
  then have "next_power_of_two (div_ceil m 8) \<le> 2 ^ i" by (rule next_power_of_two_least)
  moreover have "2 ^ j \<le> (2 :: nat) ^ i" using i by (metis mmap_capacity_bytes_def max.cobounded1)
  ultimately have "mmap_capacity_bytes (2 ^ j) m \<le> 2 ^ i" by (simp add: mmap_capacity_bytes_def)
  moreover have "next_power_of_two (div_ceil n 8) \<le> next_power_of_two (div_ceil m 8)"
  proof -
    obtain k where k: "next_power_of_two (div_ceil m 8) = 2 ^ k" using next_power_of_two_power by blast
    have "div_ceil n 8 \<le> div_ceil m 8"
      using flags_div_ceil_bounds [of 8 n "div_ceil m 8"] flags_div_ceil_bounds [of 8 m 0] assms(1) by linarith
    then have "div_ceil n 8 \<le> 2 ^ k" using next_power_of_two_le [of "div_ceil m 8"] k by simp
    then show ?thesis using next_power_of_two_least k by simp
  qed
  then have "mmap_capacity_bytes (2 ^ j) n \<le> mmap_capacity_bytes (2 ^ j) m" by (simp add: mmap_capacity_bytes_def)
  ultimately show ?thesis using i by simp
qed

text \<open>The array has the capacity computed from the length, and what is beyond the length is false.\<close>

definition mf_ok :: "nat \<Rightarrow> mmap_flags \<Rightarrow> bool" where
  "mf_ok mn f \<longleftrightarrow> length (mf_flags f) = mmap_max_current_size mn (mf_len f) \<and>
     (\<forall>i < length (mf_flags f). mf_flags f ! i \<longrightarrow> i < mf_len f)"

definition mf_member :: "mmap_flags \<Rightarrow> nat \<Rightarrow> bool" where
  "mf_member f i \<longleftrightarrow> i < mf_len f \<and> mf_flags f ! i"

lemma mf_get_member: "mf_get f i = mf_member f i"
  by (simp add: mf_get_def mf_member_def)

lemma mf_ok_len: "mf_ok mn f \<Longrightarrow> mf_len f \<le> length (mf_flags f)"
  using capacity_le by (simp add: mf_ok_def)

lemma mf_iter_trues_set: "mf_ok mn f \<Longrightarrow> set (mf_iter_trues f) = {i. mf_member f i}"
  using mf_ok_len [of mn f] by (auto simp: mf_iter_trues_def mf_member_def mf_ok_def)

lemma nth_file_set_len: "i < n \<Longrightarrow> file_set_len bits n ! i = (i < length bits \<and> bits ! i)"
  by (auto simp: file_set_len_def nth_append)

lemma length_file_set_len [simp]: "length (file_set_len bits n) = n"
  by (simp add: file_set_len_def)

lemma mf_set_len_grow:
  assumes "mf_ok (2 ^ j) f" "mf_len f \<le> n"
  shows "\<exists>f'. mf_set_len (2 ^ j) f n = Inr f' \<and> mf_ok (2 ^ j) f' \<and> mf_len f' = n \<and> mf_member f' = mf_member f"
proof -
  let ?g = "file_set_len (mf_flags f) (mmap_capacity_bytes (2 ^ j) n * 8)"
  consider "n = mf_len f" | "mf_len f < n" "n \<le> mmap_max_current_size (2 ^ j) (mf_len f)"
    | "mmap_max_current_size (2 ^ j) (mf_len f) < n" using assms(2) by linarith
  then show ?thesis
  proof cases
    case 1
    then show ?thesis using assms(1) by (simp add: mf_set_len_def)
  next
    case 2
    then show ?thesis using assms capacity_stable [of "mf_len f" n j] mf_ok_len [OF assms(1)]
      by (auto simp: mf_set_len_def mf_ok_def mf_member_def mmap_max_current_size_def fun_eq_iff)
  next
    case 3
    have len: "length (mf_flags f) < n" using 3 assms(1) by (simp add: mf_ok_def)
    have cap: "n \<le> mmap_capacity_bytes (2 ^ j) n * 8"
      using capacity_le [of n "2 ^ j"] by (simp add: mmap_max_current_size_def)
    have "mf_len f < n" using mf_ok_len [OF assms(1)] len by simp
    moreover have "mf_member (f\<lparr>mf_flags := ?g, mf_len := n\<rparr>) i = mf_member f i" for i
      using assms(1) cap len \<open>mf_len f < n\<close> mf_ok_len [OF assms(1)]
      by (cases "i < mmap_capacity_bytes (2 ^ j) n * 8") (auto simp: mf_member_def nth_file_set_len mf_ok_def)
    moreover have "mf_ok (2 ^ j) (f\<lparr>mf_flags := ?g, mf_len := n\<rparr>)"
      using assms(1) len by (auto simp: mf_ok_def mmap_max_current_size_def nth_file_set_len)
    ultimately show ?thesis using 3 by (auto simp: mf_set_len_def mf_open_mmap_def fun_eq_iff)
  qed
qed

lemma mf_set_member:
  assumes "mf_ok mn f" "i < mf_len f"
  shows "mf_ok mn (fst (mf_set f i v)) \<and> mf_len (fst (mf_set f i v)) = mf_len f \<and>
    mf_member (fst (mf_set f i v)) = (mf_member f)(i := v) \<and> snd (mf_set f i v) = mf_member f i"
  using assms mf_ok_len [OF assms(1)]
  by (auto simp: mf_set_def mf_ok_def mf_member_def nth_list_update fun_eq_iff)

lemma mf_open_files: "mf_ok mn f \<Longrightarrow> mf_open mn (mf_files f) = f"
  by (simp add: mf_open_def mf_files_def mf_ok_def mf_open_mmap_def file_set_len_def mmap_max_current_size_def)

lemma mf_open_new: "mf_ok mn (mf_open mn ([], 0)) \<and> mf_member (mf_open mn ([], 0)) = (\<lambda>i. False)"
  by (auto simp: mf_ok_def mf_open_def mf_open_mmap_def mmap_max_current_size_def mf_member_def nth_file_set_len)

section \<open>The set, the buffer and the files agree\<close>

text \<open>The files overlaid with changes.\<close>

definition overlay :: "(nat, bool) hashmap \<Rightarrow> (nat \<Rightarrow> bool) \<Rightarrow> nat \<Rightarrow> bool" where
  "overlay u m i = (case map_of u i of Some v \<Rightarrow> v | None \<Rightarrow> m i)"

definition rf_ok :: "nat \<Rightarrow> roaring_flags \<Rightarrow> bool" where
  "rf_ok mn f \<longleftrightarrow> mf_ok mn (rf_storage f) \<and> hm_wf (rf_buffer f) \<and> finite (rf_bitmap f) \<and>
     (\<forall>i. i \<in> rf_bitmap f \<longleftrightarrow> overlay (rf_buffer f) (mf_member (rf_storage f)) i) \<and>
     mf_len (rf_storage f) \<le> rf_len f \<and> (\<forall>k \<in> set (hm_keys (rf_buffer f)). k < rf_len f)"

text \<open>A flusher that has been created and not run: everything it holds is still in the buffer under its point.\<close>

definition captured_flags :: "(nat, bool) hashmap \<Rightarrow> roaring_flags \<Rightarrow> bool" where
  "captured_flags u f \<longleftrightarrow> hm_wf u \<and> (\<forall>k. map_of u k \<noteq> None \<longrightarrow> map_of (rf_buffer f) k \<noteq> None)"

lemma rf_new_ok: "mf_ok mn f \<Longrightarrow> rf_ok mn (rf_new f)"
  using mf_iter_trues_set [of mn f] finite_set [of "mf_iter_trues f"] by (simp add: rf_ok_def rf_new_def overlay_def)

lemma rf_set_fields:
  "rf_storage (fst (rf_set f i v)) = rf_storage f"
  "rf_buffer (fst (rf_set f i v)) = AList.update i v (rf_buffer f)"
  "rf_bitmap (fst (rf_set f i v)) = (if v then insert i (rf_bitmap f) else rf_bitmap f - {i})"
  "rf_len (fst (rf_set f i v)) = max (rf_len f) (i + 1)"
  "snd (rf_set f i v) = (i \<in> rf_bitmap f)"
  by (simp_all add: rf_set_def Let_def)

lemma rf_set_ok:
  assumes "rf_ok mn f"
  shows "rf_ok mn (fst (rf_set f i v))"
proof -
  have "k < max (rf_len f) (i + 1)" if "k \<in> set (hm_keys (AList.update i v (rf_buffer f)))" for k
    using assms that by (auto simp: rf_ok_def AList.dom_update)
  moreover have "overlay (AList.update i v u) m = (overlay u m)(i := v)" for u m
    by (rule ext) (simp add: overlay_def map_of_update)
  ultimately show ?thesis using assms by (simp add: rf_ok_def rf_set_fields le_max_iff_disj)
qed

lemma rf_set_captured: "captured_flags u f \<Longrightarrow> captured_flags u (fst (rf_set f i v))"
  by (simp add: captured_flags_def rf_set_fields map_of_update)

lemma rf_flusher_captured: "rf_ok mn f \<Longrightarrow> captured_flags (rf_flusher f) f"
  by (simp add: captured_flags_def rf_flusher_def rf_ok_def)

lemma required_len_bound: "(k, v) \<in> set u \<Longrightarrow> k < required_len u"
proof -
  have mono: "n \<le> fold (\<lambda>(k, _) n. max (k + 1) n) u n" for u :: "(nat \<times> bool) list" and n
    by (induction u arbitrary: n) (auto, meson max.cobounded2 order_trans)
  have "(k, v) \<in> set u \<Longrightarrow> k < fold (\<lambda>(k, _) n. max (k + 1) n) u n" for n
  proof (induction u arbitrary: n)
    case (Cons x u)
    show ?case
    proof (cases "(k, v) = x")
      case True
      then show ?thesis using mono [of "max (k + 1) n" u] by (auto split: prod.split)
    qed (use Cons in \<open>auto split: prod.split\<close>)
  qed simp
  then show "(k, v) \<in> set u \<Longrightarrow> k < required_len u" by (simp add: required_len_def)
qed

lemma required_len_le: "\<forall>(k, v) \<in> set u. k < n \<Longrightarrow> required_len u \<le> n"
proof -
  have "\<forall>(k, v) \<in> set u. k < n \<Longrightarrow> m \<le> n \<Longrightarrow> fold (\<lambda>(k, _) n. max (k + 1) n) u m \<le> n" for m
    by (induction u arbitrary: m) (auto split: prod.splits)
  then show "\<forall>(k, v) \<in> set u. k < n \<Longrightarrow> required_len u \<le> n" by (simp add: required_len_def)
qed

lemma fold_mf_set:
  "mf_ok mn f \<Longrightarrow> hm_wf u \<Longrightarrow> \<forall>(k, v) \<in> set u. k < mf_len f \<Longrightarrow>
   (let f' = fold (\<lambda>(index, value) g. fst (mf_set g index value)) u f in
     mf_ok mn f' \<and> mf_len f' = mf_len f \<and> mf_member f' = overlay u (mf_member f))"
proof (induction u arbitrary: f)
  case Nil
  then show ?case by (simp add: overlay_def fun_eq_iff)
next
  case (Cons x u)
  obtain k v where x: "x = (k, v)" by (cases x)
  let ?f1 = "fst (mf_set f k v)"
  have f1: "mf_ok mn ?f1" "mf_len ?f1 = mf_len f" "mf_member ?f1 = (mf_member f)(k := v)"
    using mf_set_member [OF Cons.prems(1), of k v] Cons.prems(3) x by auto
  have "k \<notin> fst ` set u" using Cons.prems(2) x by simp
  then have "map_of u k = None" by (simp add: map_of_eq_None_iff)
  then have "overlay u ((mf_member f)(k := v)) = overlay (x # u) (mf_member f)"
    by (auto simp: overlay_def fun_eq_iff x split: option.split)
  then show ?case using Cons.IH [OF f1(1)] Cons.prems f1(2,3) x by (simp add: Let_def del: fun_upd_apply)
qed

text \<open>A flush writes exactly what it captured, the set does not change, and the buffer keeps what came later.\<close>

lemma rf_run_flusher_ok:
  assumes ok: "rf_ok (2 ^ j) f" and u: "captured_flags u f"
  shows "\<exists>f'. rf_run_flusher (2 ^ j) u f = Inr f' \<and> rf_ok (2 ^ j) f' \<and> rf_bitmap f' = rf_bitmap f \<and>
    mf_member (rf_storage f') = overlay u (mf_member (rf_storage f))"
proof (cases "u = []")
  case True
  then show ?thesis using ok by (simp add: rf_run_flusher_def overlay_def fun_eq_iff)
next
  case False
  let ?s = "rf_storage f"
  have keys: "\<forall>(k, v) \<in> set u. k < rf_len f"
  proof clarify
    fix k v assume "(k, v) \<in> set u"
    then have "map_of u k \<noteq> None" by (metis map_of_eq_None_iff fst_conv image_eqI)
    then have "map_of (rf_buffer f) k \<noteq> None" using u unfolding captured_flags_def by blast
    then have "k \<in> set (hm_keys (rf_buffer f))" by (metis map_of_eq_None_iff list.set_map)
    then show "k < rf_len f" using ok unfolding rf_ok_def by blast
  qed
  have s: "mf_ok (2 ^ j) ?s" "mf_len ?s \<le> rf_len f" using ok by (simp_all add: rf_ok_def)
  obtain s1 where s1: "(if mf_len ?s < required_len u then mf_set_len (2 ^ j) ?s (required_len u) else Inr ?s) = Inr s1"
    "mf_ok (2 ^ j) s1" "required_len u \<le> mf_len s1" "mf_len s1 \<le> rf_len f" "mf_member s1 = mf_member ?s"
  proof (cases "mf_len ?s < required_len u")
    case True
    then show ?thesis using mf_set_len_grow [OF s(1), of "required_len u"] required_len_le [OF keys] that by auto
  next
    case False
    then show ?thesis using s that by auto
  qed
  have "\<forall>(k, v) \<in> set u. k < mf_len s1" using required_len_bound s1(3) by fastforce
  define s2 where "s2 = fold (\<lambda>(index, value) g. fst (mf_set g index value)) u s1"
  have s2: "mf_ok (2 ^ j) s2" "mf_len s2 = mf_len s1" "mf_member s2 = overlay u (mf_member ?s)"
    using fold_mf_set [OF s1(2) _ \<open>\<forall>(k, v) \<in> set u. k < mf_len s1\<close>] u s1(5)
    by (simp_all add: captured_flags_def s2_def Let_def)
  let ?b = "reconcile_persisted_buffer (rf_buffer f) u"
  have wf: "hm_wf (rf_buffer f)" "hm_wf u" using ok u by (simp_all add: rf_ok_def captured_flags_def)
  have b: "map_of ?b k = (case map_of (rf_buffer f) k of None \<Rightarrow> None | Some a \<Rightarrow> if map_of u k = Some a then None else Some a)" for k
  proof -
    have "map_of (filter (\<lambda>(k, a). P k a) m) k = (case map_of m k of None \<Rightarrow> None | Some a \<Rightarrow> if P k a then Some a else None)"
      if "hm_wf m" for P and m :: "(nat, bool) hashmap"
      using map_of_filter_map [OF that, of "\<lambda>k v. v" P k] by (simp add: case_prod_beta)
    then show ?thesis using wf(1) by (auto simp: reconcile_persisted_buffer_def split: option.split)
  qed
  have "overlay ?b (overlay u m) = overlay (rf_buffer f) m" for m
  proof
    fix k
    have "map_of u k \<noteq> None \<longrightarrow> map_of (rf_buffer f) k \<noteq> None" using u by (simp add: captured_flags_def)
    then show "overlay ?b (overlay u m) k = overlay (rf_buffer f) m k"
      by (auto simp: overlay_def b split: option.splits)
  qed
  then have "rf_ok (2 ^ j) (f\<lparr>rf_storage := s2, rf_buffer := ?b\<rparr>)"
    using ok s2 s1(4) by (auto simp: rf_ok_def reconcile_persisted_buffer_def distinct_map_filter)
  then show ?thesis using False s1(1) s2(3) by (auto simp: rf_run_flusher_def s2_def Let_def)
qed

section \<open>Histories\<close>

datatype flags_op = FSet nat bool | FCapture | FFlush | FCrash

type_synonym flags_sys = "roaring_flags \<times> (nat, bool) hashmap option"

text \<open>A crash loses the buffer and the flusher, and the files are opened again.\<close>

fun flags_step :: "nat \<Rightarrow> flags_sys \<Rightarrow> flags_op \<Rightarrow> (flags_error, flags_sys) result" where
  "flags_step mn (f, fl) (FSet i v) = Inr (fst (rf_set f i v), fl)"
| "flags_step mn (f, fl) FCapture = Inr (f, Some (rf_flusher f))"
| "flags_step mn (f, fl) FFlush =
     (case fl of None \<Rightarrow> Inr (f, None) | Some u \<Rightarrow> and_then (rf_run_flusher mn u f) (\<lambda>f1. Inr (f1, None)))"
| "flags_step mn (f, fl) FCrash = Inr (rf_new (mf_open mn (mf_files (rf_storage f))), None)"

record flags_spec =
  live_set :: "nat set"
  captured_set :: "nat set option"
  disk_set :: "nat set"

fun flags_spec_step :: "flags_spec \<Rightarrow> flags_op \<Rightarrow> flags_spec" where
  "flags_spec_step m (FSet i v) = m\<lparr>live_set := (if v then insert i (live_set m) else live_set m - {i})\<rparr>"
| "flags_spec_step m FCapture = m\<lparr>captured_set := Some (live_set m)\<rparr>"
| "flags_spec_step m FFlush =
     (case captured_set m of None \<Rightarrow> m | Some c \<Rightarrow> m\<lparr>captured_set := None, disk_set := c\<rparr>)"
| "flags_spec_step m FCrash = m\<lparr>live_set := disk_set m, captured_set := None\<rparr>"

definition flags_inv :: "nat \<Rightarrow> flags_sys \<Rightarrow> bool" where
  "flags_inv mn = (\<lambda>(f, fl). rf_ok mn f \<and> (\<forall>u. fl = Some u \<longrightarrow> captured_flags u f))"

definition flags_abs :: "flags_sys \<Rightarrow> flags_spec" where
  "flags_abs = (\<lambda>(f, fl). \<lparr>live_set = rf_bitmap f,
     captured_set = map_option (\<lambda>u. {i. overlay u (mf_member (rf_storage f)) i}) fl,
     disk_set = {i. mf_member (rf_storage f) i}\<rparr>)"

lemma flags_step_simulated:
  assumes inv: "flags_inv (2 ^ j) sys"
  shows "\<exists>sys'. flags_step (2 ^ j) sys x = Inr sys' \<and> flags_inv (2 ^ j) sys' \<and>
    flags_abs sys' = flags_spec_step (flags_abs sys) x"
proof -
  obtain f fl where sys: "sys = (f, fl)" by (cases sys)
  have i: "rf_ok (2 ^ j) f" "\<And>u. fl = Some u \<Longrightarrow> captured_flags u f" using inv sys by (simp_all add: flags_inv_def)
  show ?thesis
  proof (cases x)
    case (FSet k v)
    then show ?thesis using rf_set_ok [OF i(1)] rf_set_captured [OF i(2)]
      by (simp add: sys flags_inv_def flags_abs_def rf_set_fields)
  next
    case FCapture
    have "rf_bitmap f = {i. overlay (rf_buffer f) (mf_member (rf_storage f)) i}" using i(1) by (auto simp: rf_ok_def)
    then show ?thesis using FCapture i(1) rf_flusher_captured [OF i(1)]
      by (simp add: sys flags_inv_def flags_abs_def rf_flusher_def)
  next
    case FFlush
    show ?thesis
    proof (cases fl)
      case None
      then show ?thesis using FFlush i by (simp add: sys flags_inv_def flags_abs_def)
    next
      case (Some u)
      obtain f' where "rf_run_flusher (2 ^ j) u f = Inr f'" "rf_ok (2 ^ j) f'" "rf_bitmap f' = rf_bitmap f"
        "mf_member (rf_storage f') = overlay u (mf_member (rf_storage f))"
        using rf_run_flusher_ok [OF i(1) i(2) [OF Some]] by blast
      then show ?thesis using Some FFlush by (simp add: sys flags_inv_def flags_abs_def)
    qed
  next
    case FCrash
    have m: "mf_ok (2 ^ j) (rf_storage f)" using i(1) by (simp add: rf_ok_def)
    then show ?thesis using FCrash rf_new_ok [OF m] mf_open_files [OF m] mf_iter_trues_set [OF m]
      by (simp add: sys flags_inv_def flags_abs_def) (simp add: rf_new_def)
  qed
qed

interpretation flags: bounded_simulation "flags_step (2 ^ j)" "flags_inv (2 ^ j)" flags_abs flags_spec_step "\<lambda>x. True" "\<lambda>x. 0"
  "\<lambda>sys. 0" 0 for j
  using flags_step_simulated by unfold_locales auto

section \<open>Property\<close>

definition flags_new :: "nat \<Rightarrow> roaring_flags" where "flags_new mn = rf_new (mf_open mn ([], 0))"

lemma flags_new_ok: "flags_inv mn (flags_new mn, None) \<and>
    flags_abs (flags_new mn, None) = \<lparr>live_set = {}, captured_set = None, disk_set = {}\<rparr>"
proof -
  have "mf_ok mn (mf_open mn ([], 0))" "mf_member (mf_open mn ([], 0)) = (\<lambda>i. False)" using mf_open_new by blast+
  then show ?thesis using rf_new_ok mf_iter_trues_set by (auto simp: flags_inv_def flags_new_def flags_abs_def) (auto simp: rf_new_def)
qed


text \<open>Two flushers that run in the other order leave an old value in the files that no pending change corrects.\<close>

lemma flushers_out_of_order:
  "let f0 = flags_new (2 ^ 0); f1 = fst (rf_set f0 0 True); u1 = rf_flusher f1;
       f2 = fst (rf_set f1 0 False); u2 = rf_flusher f2 in
   case rf_run_flusher (2 ^ 0) u2 f2 of Inr f3 \<Rightarrow>
     (case rf_run_flusher (2 ^ 0) u1 f3 of Inr f4 \<Rightarrow>
        \<not> rf_get f4 0 \<and> mf_get (rf_storage f4) 0 \<and> rf_buffer f4 = [] | Inl _ \<Rightarrow> False) | Inl _ \<Rightarrow> False"
  by code_simp

end
