(* ===== verification/FieldIndexes.thy ===== *)
theory FieldIndexes
  imports FlagStorage
begin

text \<open>
  Two of the field indexes of qdrant, \<open>lib/segment/src/index/field_index\<close>: the null index (which points
  have a value at a field, and which a null) and the boolean index, both over roaring flags. A field index is
  told the values of a point at its field, or that it has none.
\<close>

section \<open>The null index (\<open>mutable_null_index.rs\<close>)\<close>

record null_index =
  has_values_flags :: roaring_flags
  is_null_flags :: roaring_flags
  ni_total_point_count :: nat

definition json_is_null :: "'n json \<Rightarrow> bool" where "json_is_null v = (case v of JNull \<Rightarrow> True | _ \<Rightarrow> False)"

text \<open>The loop over the values stops once both flags are set.\<close>

fun null_scan :: "'n json list \<Rightarrow> bool \<Rightarrow> bool \<Rightarrow> bool \<times> bool" where
  "null_scan [] is_null has_values = (is_null, has_values)"
| "null_scan (v # vs) is_null has_values =
     (let (n, h) =
        (case v of
           JNull \<Rightarrow> (True, has_values)
         | JArray a \<Rightarrow> (is_null \<or> list_ex json_is_null a, has_values \<or> a \<noteq> [])
         | _ \<Rightarrow> (is_null, True))
      in if n \<and> h then (n, h) else null_scan vs n h)"

definition ni_add_point :: "null_index \<Rightarrow> nat \<Rightarrow> 'n json list \<Rightarrow> null_index" where
  "ni_add_point ix pid payload =
     (let (n, h) = null_scan payload False False in
      ix\<lparr>has_values_flags := fst (rf_set (has_values_flags ix) pid h),
         is_null_flags := fst (rf_set (is_null_flags ix) pid n),
         ni_total_point_count := max (ni_total_point_count ix) (pid + 1)\<rparr>)"

definition ni_remove_point :: "null_index \<Rightarrow> nat \<Rightarrow> null_index" where
  "ni_remove_point ix pid =
     ix\<lparr>has_values_flags := fst (rf_set (has_values_flags ix) pid False),
        is_null_flags := fst (rf_set (is_null_flags ix) pid False),
        ni_total_point_count := max (ni_total_point_count ix) (pid + 1)\<rparr>"

definition ni_values_count :: "null_index \<Rightarrow> nat \<Rightarrow> nat" where
  "ni_values_count ix pid = (if rf_get (has_values_flags ix) pid then 1 else 0)"
definition ni_values_is_empty :: "null_index \<Rightarrow> nat \<Rightarrow> bool" where
  "ni_values_is_empty ix pid = (\<not> rf_get (has_values_flags ix) pid)"
definition ni_values_is_null :: "null_index \<Rightarrow> nat \<Rightarrow> bool" where
  "ni_values_is_null ix pid = rf_get (is_null_flags ix) pid"
definition ni_count_indexed_points :: "null_index \<Rightarrow> nat" where
  "ni_count_indexed_points ix = rf_len (has_values_flags ix)"

text \<open>The part of a field condition the null index answers, and what it estimates.\<close>

definition ni_filter :: "null_index \<Rightarrow> bool option \<Rightarrow> bool option \<Rightarrow> nat set option" where
  "ni_filter ix cond_is_empty cond_is_null =
     (case cond_is_empty of
        Some e \<Rightarrow>
          Some (if e then set (rf_iter_falses (has_values_flags ix)) else rf_bitmap (has_values_flags ix))
      | None \<Rightarrow>
          (case cond_is_null of
             Some n \<Rightarrow> Some (if n then rf_bitmap (is_null_flags ix) else set (rf_iter_falses (is_null_flags ix)))
           | None \<Rightarrow> None))"

record cardinality_estimation =
  card_min :: nat
  card_exp :: nat
  card_max :: nat

definition card_exact :: "nat \<Rightarrow> cardinality_estimation" where
  "card_exact n = \<lparr>card_min = n, card_exp = n, card_max = n\<rparr>"

definition ni_estimate_cardinality :: "null_index \<Rightarrow> bool option \<Rightarrow> bool option \<Rightarrow> cardinality_estimation option" where
  "ni_estimate_cardinality ix cond_is_empty cond_is_null =
     (case cond_is_empty of
        Some e \<Rightarrow>
          (if e then
             let estimated = ni_total_point_count ix - rf_count_trues (has_values_flags ix)
             in Some \<lparr>card_min = 0, card_exp = 2 * estimated div 3, card_max = estimated\<rparr>
           else Some (card_exact (rf_count_trues (has_values_flags ix))))
      | None \<Rightarrow>
          (case cond_is_null of
             Some n \<Rightarrow>
               (if n then Some (card_exact (rf_count_trues (is_null_flags ix)))
                else let estimated = ni_total_point_count ix - rf_count_trues (is_null_flags ix)
                     in Some \<lparr>card_min = 0, card_exp = 2 * estimated div 3, card_max = estimated\<rparr>)
           | None \<Rightarrow> None))"

text \<open>The checks on the payload itself (\<open>common/utils.rs\<close> and \<open>condition_checker.rs\<close>).\<close>

definition check_is_empty :: "'n json list \<Rightarrow> bool" where
  "check_is_empty values = list_all (\<lambda>x. case x of JNull \<Rightarrow> True | JArray arr \<Rightarrow> arr = [] | _ \<Rightarrow> False) values"

definition check_is_null :: "'n json list \<Rightarrow> bool" where
  "check_is_null values = list_ex json_is_null values"

definition cond_check_is_empty :: "bool \<Rightarrow> 'n json \<Rightarrow> bool" where
  "cond_check_is_empty is_empty v =
     (case v of JNull \<Rightarrow> is_empty | JArray a \<Rightarrow> (a = []) = is_empty | _ \<Rightarrow> \<not> is_empty)"

definition cond_check_is_null :: "bool \<Rightarrow> 'n json \<Rightarrow> bool" where
  "cond_check_is_null is_null v =
     (case v of JNull \<Rightarrow> is_null | JArray a \<Rightarrow> list_ex json_is_null a = is_null | _ \<Rightarrow> \<not> is_null)"

section \<open>The boolean index (\<open>mutable_bool_index.rs\<close>)\<close>

record bool_index =
  trues_flags :: roaring_flags
  falses_flags :: roaring_flags
  bi_indexed_count :: nat
  bi_trues_count :: nat
  bi_falses_count :: nat

definition bi_open :: "roaring_flags \<Rightarrow> roaring_flags \<Rightarrow> bool_index" where
  "bi_open trues falses = \<lparr>trues_flags = trues, falses_flags = falses,
     bi_indexed_count = card (rf_bitmap trues \<union> rf_bitmap falses),
     bi_trues_count = rf_count_trues trues, bi_falses_count = rf_count_trues falses\<rparr>"

definition count_change :: "nat \<Rightarrow> bool \<Rightarrow> bool \<Rightarrow> nat" where
  "count_change n was now = (if \<not> was \<and> now then n + 1 else if was \<and> \<not> now then n - 1 else n)"

definition bi_set_or_insert :: "bool_index \<Rightarrow> nat \<Rightarrow> bool \<Rightarrow> bool \<Rightarrow> bool_index" where
  "bi_set_or_insert ix pid has_true has_false =
     (let (trues, prev_true) = rf_set (trues_flags ix) pid has_true;
          (falses, prev_false) = rf_set (falses_flags ix) pid has_false
      in \<lparr>trues_flags = trues, falses_flags = falses,
          bi_indexed_count = count_change (bi_indexed_count ix) (prev_true \<or> prev_false) (has_true \<or> has_false),
          bi_trues_count = count_change (bi_trues_count ix) prev_true has_true,
          bi_falses_count = count_change (bi_falses_count ix) prev_false has_false\<rparr>)"

definition bi_get_value :: "'n json \<Rightarrow> bool option" where
  "bi_get_value v = (case v of JBool b \<Rightarrow> Some b | _ \<Rightarrow> None)"

definition bi_add_many :: "bool_index \<Rightarrow> nat \<Rightarrow> bool list \<Rightarrow> bool_index" where
  "bi_add_many ix pid values =
     (if values = [] then ix else bi_set_or_insert ix pid (list_ex (\<lambda>v. v) values) (list_ex Not values))"

definition bi_remove_point :: "bool_index \<Rightarrow> nat \<Rightarrow> bool_index" where
  "bi_remove_point ix pid = bi_set_or_insert ix pid False False"

text \<open>\<open>ValueIndexer::add_point\<close> (\<open>field_index_base.rs\<close>): the values of arrays are taken one by one.\<close>

definition flatten_values :: "('n json \<Rightarrow> 'a option) \<Rightarrow> 'n json list \<Rightarrow> 'a list" where
  "flatten_values get_value payload =
     concat (map (\<lambda>v. case v of
         JArray vs \<Rightarrow> List.map_filter get_value vs
       | _ \<Rightarrow> (case get_value v of Some x \<Rightarrow> [x] | None \<Rightarrow> [])) payload)"

definition bi_add_point :: "bool_index \<Rightarrow> nat \<Rightarrow> 'n json list \<Rightarrow> bool_index" where
  "bi_add_point ix pid payload = bi_add_many (bi_remove_point ix pid) pid (flatten_values bi_get_value payload)"

definition bi_values_count :: "bool_index \<Rightarrow> nat \<Rightarrow> nat" where
  "bi_values_count ix pid =
     (if rf_get (trues_flags ix) pid then 1 else 0) + (if rf_get (falses_flags ix) pid then 1 else 0)"
definition bi_check_values_any :: "bool_index \<Rightarrow> nat \<Rightarrow> bool \<Rightarrow> bool" where
  "bi_check_values_any ix pid is_true = (if is_true then rf_get (trues_flags ix) pid else rf_get (falses_flags ix) pid)"
definition bi_values_is_empty :: "bool_index \<Rightarrow> nat \<Rightarrow> bool" where
  "bi_values_is_empty ix pid = (\<not> rf_get (trues_flags ix) pid \<and> \<not> rf_get (falses_flags ix) pid)"
definition bi_get_point_values :: "bool_index \<Rightarrow> nat \<Rightarrow> bool list" where
  "bi_get_point_values ix pid =
     (if rf_get (trues_flags ix) pid then [True] else []) @ (if rf_get (falses_flags ix) pid then [False] else [])"
definition bi_get_bitmap_for :: "bool_index \<Rightarrow> bool \<Rightarrow> nat set" where
  "bi_get_bitmap_for ix value = (if value then rf_bitmap (trues_flags ix) else rf_bitmap (falses_flags ix))"
definition bi_get_count_for :: "bool_index \<Rightarrow> bool \<Rightarrow> nat" where
  "bi_get_count_for ix value = (if value then bi_trues_count ix else bi_falses_count ix)"

text \<open>\<open>filter\<close> and \<open>estimate_cardinality\<close> of a match with a boolean.\<close>

definition bi_filter :: "bool_index \<Rightarrow> bool option \<Rightarrow> nat set option" where
  "bi_filter ix matched = map_option (bi_get_bitmap_for ix) matched"
definition bi_estimate_cardinality :: "bool_index \<Rightarrow> bool option \<Rightarrow> cardinality_estimation option" where
  "bi_estimate_cardinality ix matched = map_option (\<lambda>v. card_exact (bi_get_count_for ix v)) matched"

section \<open>The contract of a field index\<close>

text \<open>What an index answers about a point is a function of the values it was last told, and nothing else changes.\<close>

locale field_index_laws =
  fixes add_point :: "'ix \<Rightarrow> nat \<Rightarrow> 'n json list \<Rightarrow> 'ix"
    and remove_point :: "'ix \<Rightarrow> nat \<Rightarrow> 'ix"
    and ok :: "'ix \<Rightarrow> bool"
    and answer :: "'ix \<Rightarrow> nat \<Rightarrow> 'a"
    and view :: "'n json list \<Rightarrow> 'a"
  assumes add_law: "ok ix \<Longrightarrow> ok (add_point ix k vs) \<and> answer (add_point ix k vs) = (answer ix)(k := view vs)"
    and remove_law: "ok ix \<Longrightarrow> ok (remove_point ix k) \<and> answer (remove_point ix k) = (answer ix)(k := view [])"
begin

text \<open>The index agrees with the values of all points.\<close>

definition agrees :: "'ix \<Rightarrow> (nat \<Rightarrow> 'n json list) \<Rightarrow> bool" where
  "agrees ix values \<longleftrightarrow> ok ix \<and> (\<forall>k. answer ix k = view (values k))"

lemma add_agrees: "agrees ix values \<Longrightarrow> agrees (add_point ix k vs) (values(k := vs))"
  using add_law by (simp add: agrees_def)

lemma remove_agrees: "agrees ix values \<Longrightarrow> agrees (remove_point ix k) (values(k := []))"
  using remove_law by (simp add: agrees_def)

lemma replaced_agrees:
  "agrees ix values \<Longrightarrow> agrees (if vs \<noteq> [] then add_point ix k vs else remove_point ix k) (values(k := vs))"
  using add_agrees remove_agrees by simp

end

section \<open>The null index keeps it\<close>

definition ni_ok :: "nat \<Rightarrow> null_index \<Rightarrow> bool" where
  "ni_ok mn ix \<longleftrightarrow> rf_ok mn (has_values_flags ix) \<and> rf_ok mn (is_null_flags ix)"

definition ni_answer :: "null_index \<Rightarrow> nat \<Rightarrow> bool \<times> bool" where
  "ni_answer ix k = (ni_values_is_empty ix k, ni_values_is_null ix k)"

definition contains_null :: "'n json \<Rightarrow> bool" where
  "contains_null v = (case v of JNull \<Rightarrow> True | JArray a \<Rightarrow> list_ex json_is_null a | _ \<Rightarrow> False)"

definition ni_view :: "'n json list \<Rightarrow> bool \<times> bool" where
  "ni_view vs = (check_is_empty vs, list_ex contains_null vs)"

lemma null_scan_spec: "null_scan vs n h = (n \<or> list_ex contains_null vs, h \<or> \<not> check_is_empty vs)"
proof (induction vs arbitrary: n h)
  case (Cons v vs)
  then show ?case by (cases v) (auto simp: check_is_empty_def contains_null_def)
qed (simp add: check_is_empty_def)

lemma rf_get_set: "rf_get (fst (rf_set f k v)) i = (if i = k then v else rf_get f i)"
  by (auto simp: rf_get_def rf_set_fields)

interpretation null_ix: field_index_laws ni_add_point ni_remove_point "ni_ok mn" ni_answer ni_view for mn
  by unfold_locales
    (auto simp: ni_ok_def ni_add_point_def ni_remove_point_def ni_answer_def ni_values_is_empty_def ni_values_is_null_def
      ni_view_def null_scan_spec rf_set_ok rf_get_set fun_eq_iff check_is_empty_def)

section \<open>The boolean index keeps it\<close>

definition bi_ok :: "nat \<Rightarrow> bool_index \<Rightarrow> bool" where
  "bi_ok mn ix \<longleftrightarrow> rf_ok mn (trues_flags ix) \<and> rf_ok mn (falses_flags ix) \<and>
     bi_indexed_count ix = card (rf_bitmap (trues_flags ix) \<union> rf_bitmap (falses_flags ix)) \<and>
     bi_trues_count ix = card (rf_bitmap (trues_flags ix)) \<and> bi_falses_count ix = card (rf_bitmap (falses_flags ix))"

definition bi_answer :: "bool_index \<Rightarrow> nat \<Rightarrow> bool \<times> bool" where
  "bi_answer ix k = (bi_check_values_any ix k True, bi_check_values_any ix k False)"

definition bi_view :: "'n json list \<Rightarrow> bool \<times> bool" where
  "bi_view vs = (True \<in> set (flatten_values bi_get_value vs), False \<in> set (flatten_values bi_get_value vs))"

lemma count_change_card:
  assumes "finite A"
  shows "count_change (card A) (k \<in> A) v = card (if v then insert k A else A - {k})"
  using assms by (auto simp: count_change_def card_insert_if)

lemma bi_set_fields:
  "trues_flags (bi_set_or_insert ix k t f) = fst (rf_set (trues_flags ix) k t)"
  "falses_flags (bi_set_or_insert ix k t f) = fst (rf_set (falses_flags ix) k f)"
  "bi_indexed_count (bi_set_or_insert ix k t f) =
     count_change (bi_indexed_count ix) (k \<in> rf_bitmap (trues_flags ix) \<union> rf_bitmap (falses_flags ix)) (t \<or> f)"
  "bi_trues_count (bi_set_or_insert ix k t f) = count_change (bi_trues_count ix) (k \<in> rf_bitmap (trues_flags ix)) t"
  "bi_falses_count (bi_set_or_insert ix k t f) = count_change (bi_falses_count ix) (k \<in> rf_bitmap (falses_flags ix)) f"
  using rf_set_fields(5) [of "trues_flags ix" k t] rf_set_fields(5) [of "falses_flags ix" k f]
  by (simp_all add: bi_set_or_insert_def split: prod.split) auto

lemma bi_set_ok:
  assumes "bi_ok mn ix"
  shows "bi_ok mn (bi_set_or_insert ix k t f)"
proof -
  let ?T = "rf_bitmap (trues_flags ix)" and ?F = "rf_bitmap (falses_flags ix)"
  have fin: "finite ?T" "finite ?F" using assms by (simp_all add: bi_ok_def rf_ok_def)
  have "(if t then insert k ?T else ?T - {k}) \<union> (if f then insert k ?F else ?F - {k}) =
      (if t \<or> f then insert k (?T \<union> ?F) else (?T \<union> ?F) - {k})" by auto
  then show ?thesis using assms fin count_change_card [of "?T \<union> ?F" k "t \<or> f"]
    by (simp add: bi_ok_def bi_set_fields rf_set_fields rf_set_ok count_change_card)
qed

lemma bi_set_answer: "bi_answer (bi_set_or_insert ix k t f) = (bi_answer ix)(k := (t, f))"
  by (auto simp: bi_answer_def bi_check_values_any_def bi_set_fields rf_get_set fun_eq_iff)

lemma list_ex_bool: "list_ex (\<lambda>v. v) vs = (True \<in> set vs)" "list_ex Not vs = (False \<in> set vs)"
  by (induction vs) auto

interpretation bool_ix: field_index_laws bi_add_point bi_remove_point "bi_ok mn" bi_answer bi_view for mn
proof (unfold_locales, goal_cases)
  case (1 ix k vs)
  show ?case
  proof (cases "flatten_values bi_get_value vs = []")
    case True
    then show ?thesis using bi_set_ok [OF 1]
      by (simp add: bi_add_point_def bi_add_many_def bi_remove_point_def bi_set_answer bi_view_def)
  next
    case False
    then show ?thesis using bi_set_ok [OF bi_set_ok [OF 1]]
      by (simp add: bi_add_point_def bi_add_many_def bi_remove_point_def bi_set_answer bi_view_def list_ex_bool)
  qed
next
  case (2 ix k)
  then show ?case using bi_set_ok by (simp add: bi_remove_point_def bi_set_answer bi_view_def flatten_values_def)
qed

lemma bi_open_ok: "rf_ok mn t \<Longrightarrow> rf_ok mn f \<Longrightarrow> bi_ok mn (bi_open t f)"
  by (simp add: bi_ok_def bi_open_def rf_count_trues_def)

end
