(* ===== verification/PayloadIndex.thy ===== *)
theory PayloadIndex
  imports PayloadStorage FieldIndexes
begin

text \<open>
  The payload operations of \<open>lib/segment/src/index/struct_payload_index.rs\<close> of qdrant: they change the payload
  storage and tell the field indexes the new values of the point. Of the kinds of field indexes the boolean
  and the null index are modelled. When an operation fails its caller sees the error and nothing of the state.
\<close>

section \<open>Field indexes by kind (\<open>field_index_base.rs\<close>)\<close>

datatype field_index = BoolIndex bool_index | NullIndex null_index

definition fi_add_point :: "field_index \<Rightarrow> nat \<Rightarrow> 'n json list \<Rightarrow> field_index" where
  "fi_add_point ix point_id payload =
     (case ix of BoolIndex i \<Rightarrow> BoolIndex (bi_add_point i point_id payload)
      | NullIndex i \<Rightarrow> NullIndex (ni_add_point i point_id payload))"

definition fi_remove_point :: "field_index \<Rightarrow> nat \<Rightarrow> field_index" where
  "fi_remove_point ix point_id =
     (case ix of BoolIndex i \<Rightarrow> BoolIndex (bi_remove_point i point_id)
      | NullIndex i \<Rightarrow> NullIndex (ni_remove_point i point_id))"

definition fi_values_count :: "field_index \<Rightarrow> nat \<Rightarrow> nat" where
  "fi_values_count ix point_id =
     (case ix of BoolIndex i \<Rightarrow> bi_values_count i point_id | NullIndex i \<Rightarrow> ni_values_count i point_id)"

definition fi_values_is_empty :: "field_index \<Rightarrow> nat \<Rightarrow> bool" where
  "fi_values_is_empty ix point_id =
     (case ix of BoolIndex i \<Rightarrow> bi_values_is_empty i point_id | NullIndex i \<Rightarrow> ni_values_is_empty i point_id)"

definition fi_count_indexed_points :: "field_index \<Rightarrow> nat" where
  "fi_count_indexed_points ix =
     (case ix of BoolIndex i \<Rightarrow> bi_indexed_count i | NullIndex i \<Rightarrow> ni_count_indexed_points i)"

section \<open>The payload index\<close>

record 'n payload_index =
  pi_payload :: "'n payload_storage"
  pi_field_indexes :: "(json_path, field_index list) hashmap"

definition update_indexes :: "nat \<Rightarrow> 'n json list \<Rightarrow> field_index list \<Rightarrow> field_index list" where
  "update_indexes point_id field_value field_index =
     (if field_value \<noteq> [] then map (\<lambda>index. fi_add_point index point_id field_value) field_index
      else map (\<lambda>index. fi_remove_point index point_id) field_index)"

definition indexed_points :: "'n payload_index \<Rightarrow> json_path \<Rightarrow> nat" where
  "indexed_points s field =
     (case map_of (pi_field_indexes s) field of
        None \<Rightarrow> 0
      | Some indexes \<Rightarrow> if indexes = [] then 0 else Min (set (map fi_count_indexed_points indexes)))"

definition overwrite_payload ::
  "'n payload codec \<Rightarrow> 'n payload_index \<Rightarrow> nat \<Rightarrow> 'n payload \<Rightarrow> (grid_error, 'n payload_index) result" where
  "overwrite_payload co s point_id payload =
     and_then (ps_overwrite co (pi_payload s) point_id payload) (\<lambda>st.
       Inr \<lparr>pi_payload = st, pi_field_indexes =
         map (\<lambda>(field, field_index). (field, update_indexes point_id (payload_get_value payload field) field_index))
           (pi_field_indexes s)\<rparr>)"

definition set_payload ::
  "'n payload codec \<Rightarrow> 'n payload_index \<Rightarrow> nat \<Rightarrow> 'n payload \<Rightarrow> json_path option \<Rightarrow> (grid_error, 'n payload_index) result" where
  "set_payload co s point_id payload key =
     and_then (case key of Some k \<Rightarrow> ps_set_by_key co (pi_payload s) point_id payload k
               | None \<Rightarrow> ps_set co (pi_payload s) point_id payload) (\<lambda>st.
     and_then (ps_get co st point_id) (\<lambda>updated_payload.
       Inr \<lparr>pi_payload = st, pi_field_indexes =
         map (\<lambda>(field, field_index).
             if \<not> is_affected_by_value_set field payload key then (field, field_index)
             else (field, update_indexes point_id (payload_get_value updated_payload field) field_index))
           (pi_field_indexes s)\<rparr>))"

definition delete_payload ::
  "'n payload codec \<Rightarrow> 'n payload_index \<Rightarrow> nat \<Rightarrow> json_path \<Rightarrow> (grid_error, 'n payload_index \<times> 'n json list) result" where
  "delete_payload co s point_id key =
     (let field_indexes =
        map (\<lambda>(field, indexes).
            if field = key then (field, map (\<lambda>index. fi_remove_point index point_id) indexes) else (field, indexes))
          (pi_field_indexes s)
      in and_then (ps_delete co (pi_payload s) point_id key) (\<lambda>(st, res).
           Inr (\<lparr>pi_payload = st, pi_field_indexes = field_indexes\<rparr>, res)))"

definition clear_index_for_point :: "(json_path, field_index list) hashmap \<Rightarrow> nat \<Rightarrow> (json_path, field_index list) hashmap" where
  "clear_index_for_point field_indexes point_id =
     map (\<lambda>(field, indexes). (field, map (\<lambda>index. fi_remove_point index point_id) indexes)) field_indexes"

definition clear_payload ::
  "'n payload codec \<Rightarrow> 'n payload_index \<Rightarrow> nat \<Rightarrow> (grid_error, 'n payload_index \<times> 'n payload option) result" where
  "clear_payload co s point_id =
     (let field_indexes = clear_index_for_point (pi_field_indexes s) point_id
      in and_then (ps_clear co (pi_payload s) point_id) (\<lambda>(st, res).
           Inr (\<lparr>pi_payload = st, pi_field_indexes = field_indexes\<rparr>, res)))"

section \<open>The indexes agree with the payloads\<close>

definition fi_agrees :: "nat \<Rightarrow> field_index \<Rightarrow> (nat \<Rightarrow> 'n json list) \<Rightarrow> bool" where
  "fi_agrees mn ix values =
     (case ix of BoolIndex i \<Rightarrow> bool_ix.agrees mn i values | NullIndex i \<Rightarrow> null_ix.agrees mn i values)"

lemma fi_remove_agrees: "fi_agrees mn ix values \<Longrightarrow> fi_agrees mn (fi_remove_point ix k) (values(k := []))"
  using bool_ix.remove_agrees null_ix.remove_agrees
  by (cases ix) (auto simp: fi_agrees_def fi_remove_point_def simp del: fun_upd_apply)

lemma fi_add_agrees: "fi_agrees mn ix values \<Longrightarrow> fi_agrees mn (fi_add_point ix k vs) (values(k := vs))"
  using bool_ix.add_agrees null_ix.add_agrees
  by (cases ix) (auto simp: fi_agrees_def fi_add_point_def simp del: fun_upd_apply)

lemma update_indexes_agrees:
  "\<forall>ix \<in> set ixs. fi_agrees mn ix values \<Longrightarrow> \<forall>ix \<in> set (update_indexes k vs ixs). fi_agrees mn ix (values(k := vs))"
  by (auto simp: update_indexes_def simp del: fun_upd_apply intro: fi_add_agrees fi_remove_agrees)

text \<open>The values of the points at a field, and the invariant.\<close>

definition field_values :: "(nat \<Rightarrow> 'n payload option) \<Rightarrow> json_path \<Rightarrow> nat \<Rightarrow> 'n json list" where
  "field_values payloads field k = payload_get_value (or_default (payloads k)) field"

definition indexes_agree :: "nat \<Rightarrow> (nat \<Rightarrow> 'n payload option) \<Rightarrow> (json_path, field_index list) hashmap \<Rightarrow> bool" where
  "indexes_agree mn payloads fis \<longleftrightarrow>
     (\<forall>(field, ixs) \<in> set fis. \<forall>ix \<in> set ixs. fi_agrees mn ix (field_values payloads field))"

lemma field_values_upd: "field_values (payloads(k := p)) field = (field_values payloads field)(k := payload_get_value (or_default p) field)"
  by (auto simp: field_values_def)

lemma indexes_agree_map:
  assumes "indexes_agree mn payloads fis"
    and "\<And>field ixs. (field, ixs) \<in> set fis \<Longrightarrow> \<forall>ix \<in> set ixs. fi_agrees mn ix (field_values payloads field) \<Longrightarrow>
      \<forall>ix \<in> set (snd (f (field, ixs))). fi_agrees mn ix (field_values payloads' field)"
    and "\<And>x. fst (f x) = fst x"
  shows "indexes_agree mn payloads' (map f fis)"
  unfolding indexes_agree_def
proof (intro ballI)
  fix y assume "y \<in> set (map f fis)"
  then obtain a b where y: "y = f (a, b)" and ab: "(a, b) \<in> set fis" by auto
  have "fst y = a" using y assms(3) [of "(a, b)"] by simp
  moreover have "\<forall>ix \<in> set b. fi_agrees mn ix (field_values payloads a)"
    using assms(1) ab unfolding indexes_agree_def by blast
  from assms(2) [OF ab this] have "\<forall>ix \<in> set (snd y). fi_agrees mn ix (field_values payloads' a)" using y by simp
  ultimately show "case y of (field, ixs) \<Rightarrow> \<forall>ix \<in> set ixs. fi_agrees mn ix (field_values payloads' field)"
    by (cases y) simp
qed

lemma same_values_agree:
  "payload_get_value (or_default p) field = field_values payloads field k \<Longrightarrow>
   field_values (payloads(k := p)) field = field_values payloads field"
  by (auto simp: field_values_def)

text \<open>A payload index whose storage is well and whose indexes agree with it.\<close>

definition pi_ok :: "nat \<Rightarrow> 'n payload codec \<Rightarrow> storage_config \<Rightarrow> 'n payload_index \<Rightarrow> bool" where
  "pi_ok mn co c s \<longleftrightarrow> ps_ok co c (pi_payload s) \<and> indexes_agree mn (ps_payloads co (pi_payload s)) (pi_field_indexes s)"

text \<open>A payload can be stored at a point: it is encodable and its pages fit.\<close>

definition storable :: "'n payload codec \<Rightarrow> storage_config \<Rightarrow> 'n payload_index \<Rightarrow> nat \<Rightarrow> 'n payload \<Rightarrow> bool" where
  "storable co c s k p \<longleftrightarrow> payload_fits co c k p \<and> ps_used (pi_payload s) + value_pages co c p \<le> 2 ^ 32"

definition pi_lookup :: "'n payload codec \<Rightarrow> 'n payload_index \<Rightarrow> nat \<Rightarrow> 'n payload option" where
  "pi_lookup co s = ps_payloads co (pi_payload s)"

text \<open>The payload a point has after \<open>set_payload\<close>.\<close>

definition merged_payload :: "'n payload option \<Rightarrow> 'n payload \<Rightarrow> json_path option \<Rightarrow> 'n payload" where
  "merged_payload old payload key =
     (case key of Some k \<Rightarrow> payload_merge_by_key (or_default old) payload k
      | None \<Rightarrow> (case old of Some o1 \<Rightarrow> payload_merge o1 payload | None \<Rightarrow> payload))"

lemma or_default_Some [simp]: "or_default (Some p) = p" by (simp add: or_default_def)
lemma or_default_None [simp]: "or_default None = []" by (simp add: or_default_def)

lemma payload_get_value_empty [simp]: "payload_get_value [] field = []"
  by (simp add: payload_get_value_def value_get_value_get_items)

lemma payload_remove_empty [simp]: "payload_remove [] key = ([], [])"
  by (simp add: payload_remove_def value_remove_def split: list.split)

lemma overwrite_payload_ok:
  assumes ok: "pi_ok mn co c s" and p: "storable co c s k p"
  shows "\<exists>s'. overwrite_payload co s k p = Inr s' \<and> pi_ok mn co c s' \<and> pi_lookup co s' = (pi_lookup co s)(k \<mapsto> p)"
proof -
  obtain st where st: "ps_overwrite co (pi_payload s) k p = Inr st" "ps_ok co c st"
    "ps_payloads co st = (ps_payloads co (pi_payload s))(k \<mapsto> p)"
    using ps.overwrite_ok [of co c "pi_payload s" k p] ok p by (auto simp: pi_ok_def storable_def stored_def)
  have "indexes_agree mn (ps_payloads co st)
     (map (\<lambda>(field, ixs). (field, update_indexes k (payload_get_value p field) ixs)) (pi_field_indexes s))"
    using ok unfolding pi_ok_def st(3)
    by (intro indexes_agree_map) (auto simp only: field_values_upd or_default_Some prod.case snd_conv fst_conv
      intro!: update_indexes_agrees split: prod.split)
  then show ?thesis using st by (simp add: overwrite_payload_def pi_ok_def pi_lookup_def)
qed

lemma merged_unaffected:
  assumes "\<not> is_affected_by_value_set field p key" "map_wf p" "\<And>o1. old = Some o1 \<Longrightarrow> map_wf o1"
  shows "payload_get_value (merged_payload old p key) field = payload_get_value (or_default old) field"
proof -
  have empty: "map_wf ([] :: 'a payload)" by (simp add: map_wf_alt)
  have old: "map_wf (or_default old)" using assms(3) empty by (cases old) auto
  have "key = None \<Longrightarrow> map_of p (first_key field) = None"
    using assms(1) by (auto simp: is_affected_by_value_set_def)
  then show ?thesis
    using value_get_unaffected_by_set [OF assms(1) old assms(2)]
    by (cases key; cases old)
      (simp_all add: merged_payload_def payload_get_value_def payload_merge_by_key_def payload_merge_def value_set_def
        value_get_value_get_items)
qed

lemma set_payload_ok:
  assumes ok: "pi_ok mn co c s" and p: "storable co c s k (merged_payload (pi_lookup co s k) p key)" and wf: "map_wf p"
  shows "\<exists>s'. set_payload co s k p key = Inr s' \<and> pi_ok mn co c s' \<and>
    pi_lookup co s' = (pi_lookup co s)(k \<mapsto> merged_payload (pi_lookup co s k) p key)"
proof -
  let ?q = "merged_payload (pi_lookup co s k) p key" and ?pl = "ps_payloads co (pi_payload s)"
  have sok: "ps_ok co c (pi_payload s)" using ok by (simp add: pi_ok_def)
  obtain st where st: "(case key of Some j \<Rightarrow> ps_set_by_key co (pi_payload s) k p j | None \<Rightarrow> ps_set co (pi_payload s) k p) = Inr st"
    "ps_ok co c st" "ps_payloads co st = ?pl(k \<mapsto> ?q)"
  proof (cases key)
    case None
    then have "?q = (case ?pl k of Some old \<Rightarrow> payload_merge old p | None \<Rightarrow> p)"
      by (simp add: merged_payload_def pi_lookup_def)
    then show ?thesis using ps.set_ok [OF sok, where q = ?q and k = k and p = p] p None that by (auto simp: storable_def stored_def)
  next
    case (Some j)
    then have "?q = payload_merge_by_key (or_default (?pl k)) p j" by (simp add: merged_payload_def pi_lookup_def)
    then show ?thesis using ps.set_by_key_ok [OF sok, where q = ?q and k = k and p = p and key = j] p Some that by (auto simp: storable_def stored_def)
  qed
  have g: "ps_get co st k = Inr ?q" using ps.get_ok [OF st(2), where k = k] st(3) by simp
  have same: "field_values (?pl(k \<mapsto> ?q)) field = field_values ?pl field" if "\<not> is_affected_by_value_set field p key" for field
    using merged_unaffected [OF that wf] ps.payloads_wf [OF sok]
    by (intro same_values_agree) (simp add: field_values_def pi_lookup_def)
  have "indexes_agree mn (?pl(k \<mapsto> ?q))
     (map (\<lambda>(field, ixs). if \<not> is_affected_by_value_set field p key then (field, ixs)
        else (field, update_indexes k (payload_get_value ?q field) ixs)) (pi_field_indexes s))"
  proof (rule indexes_agree_map)
    show "indexes_agree mn ?pl (pi_field_indexes s)" using ok by (simp add: pi_ok_def)
    fix field ixs assume a: "\<forall>ix \<in> set ixs. fi_agrees mn ix (field_values ?pl field)"
    show "\<forall>ix \<in> set (snd (case (field, ixs) of (field, ixs) \<Rightarrow> if \<not> is_affected_by_value_set field p key then (field, ixs)
        else (field, update_indexes k (payload_get_value ?q field) ixs))). fi_agrees mn ix (field_values (?pl(k \<mapsto> ?q)) field)"
    proof (cases "is_affected_by_value_set field p key")
      case True
      then show ?thesis using update_indexes_agrees [OF a] by (simp add: field_values_upd del: fun_upd_apply)
    next
      case False
      then show ?thesis using a same [OF False] by simp
    qed
  qed (auto split: prod.split)
  then show ?thesis using st g unfolding pi_lookup_def by (simp add: set_payload_def pi_ok_def)
qed

lemma clear_payload_ok:
  assumes ok: "pi_ok mn co c s"
  shows "\<exists>s'. clear_payload co s k = Inr (s', pi_lookup co s k) \<and> pi_ok mn co c s' \<and> pi_lookup co s' = (pi_lookup co s)(k := None)"
proof -
  let ?pl = "ps_payloads co (pi_payload s)"
  have sok: "ps_ok co c (pi_payload s)" using ok by (simp add: pi_ok_def)
  obtain st where st: "ps_clear co (pi_payload s) k = Inr (st, ?pl k)" "ps_ok co c st" "ps_payloads co st = ?pl(k := None)"
    using ps.clear_ok [OF sok, where k = k] by blast
  have v: "field_values (?pl(k := None)) field = (field_values ?pl field)(k := [])" for field
    by (simp add: field_values_upd)
  have "indexes_agree mn (?pl(k := None)) (clear_index_for_point (pi_field_indexes s) k)"
    unfolding clear_index_for_point_def
  proof (rule indexes_agree_map)
    show "indexes_agree mn ?pl (pi_field_indexes s)" using ok by (simp add: pi_ok_def)
  qed (auto simp: v simp del: fun_upd_apply intro: fi_remove_agrees)
  then show ?thesis using st by (simp add: clear_payload_def pi_ok_def pi_lookup_def)
qed

text \<open>A removal keeps the agreement when every indexed field is the removed path itself, not ending in an array
  index, or one that the removal cannot affect.\<close>

definition removal_covered :: "json_path \<Rightarrow> (json_path, field_index list) hashmap \<Rightarrow> bool" where
  "removal_covered key fis \<longleftrightarrow>
     (\<forall>field \<in> set (hm_keys fis). (if field = key then \<not> (\<exists>i. last (Key (first_key key) # rest_items key) = Index i)
        else \<not> is_affected_by_value_remove field key))"

lemma delete_payload_ok:
  assumes ok: "pi_ok mn co c s" and cov: "removal_covered key (pi_field_indexes s)"
    and p: "\<And>old. pi_lookup co s k = Some old \<Longrightarrow> storable co c s k (fst (payload_remove old key))"
  shows "\<exists>s'. delete_payload co s k key = Inr (s', snd (payload_remove (or_default (pi_lookup co s k)) key)) \<and>
    pi_ok mn co c s' \<and> or_default (pi_lookup co s' k) = fst (payload_remove (or_default (pi_lookup co s k)) key)"
proof -
  let ?pl = "ps_payloads co (pi_payload s)"
  let ?old = "or_default (?pl k)"
  let ?q = "fst (payload_remove ?old key)"
  have sok: "ps_ok co c (pi_payload s)" using ok by (simp add: pi_ok_def)
  have wf: "map_wf ?old" using ps.payloads_wf [OF sok] by (cases "?pl k") (auto simp: map_wf_alt)
  obtain st where st: "ps_delete co (pi_payload s) k key = Inr (st, snd (payload_remove ?old key))" "ps_ok co c st"
    "or_default (ps_payloads co st k) = ?q" "\<And>j. j \<noteq> k \<Longrightarrow> ps_payloads co st j = ?pl j"
  proof (cases "?pl k")
    case None
    then show ?thesis using ps.delete_none [OF sok None, of key] sok that by simp
  next
    case (Some old)
    then show ?thesis using ps.delete_some [OF sok Some, where q = ?q and key = key] p that
      by (auto simp: pi_lookup_def storable_def stored_def)
  qed
  have v: "field_values (ps_payloads co st) field = (field_values ?pl field)(k := payload_get_value ?q field)" for field
    using st(3,4) by (auto simp: field_values_def)
  have gone: "payload_get_value ?q key = []" if "\<not> (\<exists>i. last (Key (first_key key) # rest_items key) = Index i)"
    using that value_remove_last [OF wf, of key]
    by (simp add: payload_remove_def payload_get_value_def split: path_item.splits)
  have same: "payload_get_value ?q field = field_values ?pl field k" if "\<not> is_affected_by_value_remove field key" for field
    using value_get_unaffected_by_remove [OF that wf] by (simp add: payload_remove_def payload_get_value_def field_values_def)
  have "indexes_agree mn (ps_payloads co st)
     (map (\<lambda>(field, indexes). if field = key then (field, map (\<lambda>index. fi_remove_point index k) indexes) else (field, indexes))
       (pi_field_indexes s))"
  proof (rule indexes_agree_map)
    show "indexes_agree mn ?pl (pi_field_indexes s)" using ok by (simp add: pi_ok_def)
    fix field ixs assume m: "(field, ixs) \<in> set (pi_field_indexes s)" and a: "\<forall>ix \<in> set ixs. fi_agrees mn ix (field_values ?pl field)"
    have c: "if field = key then \<not> (\<exists>i. last (Key (first_key key) # rest_items key) = Index i)
        else \<not> is_affected_by_value_remove field key"
      using cov m unfolding removal_covered_def by (metis fst_conv list.set_map image_eqI)
    show "\<forall>ix \<in> set (snd (case (field, ixs) of (field, indexes) \<Rightarrow>
        if field = key then (field, map (\<lambda>index. fi_remove_point index k) indexes) else (field, indexes))).
      fi_agrees mn ix (field_values (ps_payloads co st) field)"
    proof (cases "field = key")
      case True
      then show ?thesis using a gone c by (auto simp: v simp del: fun_upd_apply intro: fi_remove_agrees)
    next
      case False
      then have "field_values (ps_payloads co st) field = field_values ?pl field" using v same c by simp
      then show ?thesis using False a by simp
    qed
  qed (auto split: prod.split)
  then show ?thesis using st(1-3) by (simp add: delete_payload_def pi_ok_def pi_lookup_def Let_def)
qed

section \<open>Properties\<close>

definition new_null_index :: "nat \<Rightarrow> null_index" where
  "new_null_index mn = \<lparr>has_values_flags = flags_new mn, is_null_flags = flags_new mn, ni_total_point_count = 0\<rparr>"

definition new_payload_index :: "nat \<Rightarrow> json_path list \<Rightarrow> 'n payload_index" where
  "new_payload_index mn names = \<lparr>pi_payload = InMemoryPayloadStorage [], pi_field_indexes =
     map (\<lambda>f. (f, [BoolIndex (bi_open (flags_new mn) (flags_new mn)), NullIndex (new_null_index mn)])) names\<rparr>"

lemma flags_new_empty: "rf_ok mn (flags_new mn)" "rf_bitmap (flags_new mn) = {}"
  using flags_new_ok [of mn] by (simp_all add: flags_inv_def flags_abs_def)

lemma new_bool_agrees: "bool_ix.agrees mn (bi_open (flags_new mn) (flags_new mn)) (\<lambda>k. [])"
  using bi_open_ok [OF flags_new_empty(1) flags_new_empty(1)]
  by (simp add: bool_ix.agrees_def bi_answer_def bi_view_def bi_check_values_any_def bi_open_def rf_get_def flags_new_empty(2)
      flatten_values_def)

lemma new_null_agrees: "null_ix.agrees mn (new_null_index mn) (\<lambda>k. [])"
  by (simp add: null_ix.agrees_def ni_ok_def new_null_index_def ni_answer_def ni_view_def ni_values_is_empty_def
      ni_values_is_null_def rf_get_def check_is_empty_def flags_new_empty)

lemma field_values_none: "field_values (\<lambda>x. None) field = (\<lambda>k. [])"
  by (simp add: field_values_def fun_eq_iff)

lemma new_payload_index_ok: "pi_ok mn co c (new_payload_index mn names)"
  by (auto simp: pi_ok_def new_payload_index_def indexes_agree_def fi_agrees_def field_values_none mem_ok_def new_bool_agrees
      new_null_agrees)


definition flag_field :: "json_path" where "flag_field = \<lparr>first_key = ''a'', rest_items = [Key ''b'']\<rparr>"
definition flag_payload :: "nat payload" where "flag_payload = [(''a'', JObject [(''b'', JBool True)])]"

lemma flag_storable: "storable (table_codec [flag_payload]) demo_config (new_payload_index 128 [flag_field]) 7 flag_payload"
proof -
  have "map_wf flag_payload" by code_simp
  moreover have "value_ok (table_codec [flag_payload]) demo_config flag_payload"
    by (simp add: value_ok_def encode_def decode_def demo_config_def table_codec_def)
  ultimately show ?thesis
    by (simp add: storable_def payload_fits_def new_payload_index_def value_pages_def pages_needed_def encode_def
        demo_config_def table_codec_def div_ceil_def)
qed




text \<open>Removing an enclosing path leaves the indexes below it as they were.\<close>

lemma stale_index_after_parent_removal:
  "case overwrite_payload (table_codec [flag_payload]) (new_payload_index 1 [flag_field]) 7 flag_payload of
     Inl _ \<Rightarrow> False
   | Inr s1 \<Rightarrow>
      (case delete_payload (table_codec [flag_payload]) s1 7 \<lparr>first_key = ''a'', rest_items = []\<rparr> of
         Inl _ \<Rightarrow> False
       | Inr (s2, removed) \<Rightarrow>
           (case pi_field_indexes s2 of
              [(_, [BoolIndex b, NullIndex n])] \<Rightarrow>
                payload_get_value (or_default (pi_lookup (table_codec [flag_payload]) s2 7)) flag_field = [] \<and>
                bi_check_values_any b 7 True \<and> \<not> ni_values_is_empty n 7
            | _ \<Rightarrow> False))"
  by code_simp

text \<open>An array with a null inside is null to the index and not to the scan of the payload.\<close>

lemma null_in_array_divergence:
  "list_ex contains_null [JArray [JNumber 1, JNull]] \<and> \<not> check_is_null [JArray [JNumber 1, JNull]]"
  by (simp add: contains_null_def check_is_null_def json_is_null_def)

end
