(* ===== verification/MapIndex.thy ===== *)
theory MapIndex
  imports PayloadIndex
begin

text \<open>
  The map index of qdrant (\<open>lib/segment/src/index/field_index/map_index\<close>): for every value of a field the
  points that have it, and for every point its values, kept in memory and, as the values of each point, in a
  grid store from which the index is loaded. The mutable index over a grid store is modelled; the RocksDB one is
  behind a feature. A roaring bitmap is a finite set. The values are a type parameter (\<open>N::Owned\<close>).
\<close>

section \<open>The index (\<open>mutable_map_index.rs\<close>)\<close>

record 'v map_index =
  mi_map :: "('v, nat set) hashmap"
  mi_point_to_values :: "'v list list"
  mi_indexed_points :: nat
  mi_values_count :: nat
  mi_storage :: gridstore

text \<open>\<open>resize_with\<close> to at least \<open>n\<close> points.\<close>

definition resize_points :: "'v list list \<Rightarrow> nat \<Rightarrow> 'v list list" where
  "resize_points ptv n = ptv @ replicate (n - length ptv) []"

definition entry_or_default :: "('v, nat set) hashmap \<Rightarrow> 'v \<Rightarrow> nat set" where
  "entry_or_default m value = (case map_of m value of Some ids \<Rightarrow> ids | None \<Rightarrow> {})"

text \<open>\<open>map.entry(value).or_default().insert(idx)\<close>.\<close>

definition map_insert :: "('v, nat set) hashmap \<Rightarrow> 'v \<Rightarrow> nat \<Rightarrow> ('v, nat set) hashmap" where
  "map_insert m value idx = AList.update value (insert idx (entry_or_default m value)) m"

text \<open>Loading: the callback of the iteration over the stored points, value by value.\<close>

type_synonym 'v map_index_load = "('v, nat set) hashmap \<times> 'v list list \<times> nat \<times> nat"

definition load_value :: "nat \<Rightarrow> 'v \<Rightarrow> 'v map_index_load \<Rightarrow> 'v map_index_load" where
  "load_value idx value = (\<lambda>(m, ptv, indexed_points, values_count).
     let ptv1 = (if length ptv \<le> idx then resize_points ptv (idx + 1) else ptv);
         indexed_points1 = (if ptv1 ! idx = [] then indexed_points + 1 else indexed_points)
     in (map_insert m value idx, ptv1[idx := ptv1 ! idx @ [value]], indexed_points1, values_count + 1))"

definition load_callback ::
  "'v map_index_load \<Rightarrow> nat \<Rightarrow> 'v list \<Rightarrow> (grid_error, 'v map_index_load \<times> bool) result" where
  "load_callback acc idx values = Inr (fold (load_value idx) values acc, True)"

text \<open>\<open>open_gridstore\<close>, given the store it opens.\<close>

definition mi_load :: "'v list codec \<Rightarrow> gridstore \<Rightarrow> (grid_error, 'v map_index) result option" where
  "mi_load co store =
     map_option (\<lambda>r. and_then r (\<lambda>(m, ptv, indexed_points, values_count).
         Inr \<lparr>mi_map = m, mi_point_to_values = ptv, mi_indexed_points = indexed_points, mi_values_count = values_count,
           mi_storage = store\<rparr>))
       (gs_iter co store (\<lambda>e. e) load_callback ([], [], 0, 0))"

definition add_many_to_map :: "'v list codec \<Rightarrow> 'v map_index \<Rightarrow> nat \<Rightarrow> 'v list \<Rightarrow> (grid_error, 'v map_index) result" where
  "add_many_to_map co ix idx values =
     (if values = [] then Inr ix
      else
        let ptv = (if length (mi_point_to_values ix) \<le> idx then resize_points (mi_point_to_values ix) (idx + 1)
                   else mi_point_to_values ix);
            (m, ptv1) = fold (\<lambda>value (m, ptv). (map_insert m value idx, ptv[idx := ptv ! idx @ [value]])) values
                          (mi_map ix, ptv[idx := []])
        in and_then (put_value co (mi_storage ix) idx values) (\<lambda>(store, _).
             Inr \<lparr>mi_map = m, mi_point_to_values = ptv1, mi_indexed_points = mi_indexed_points ix + 1,
               mi_values_count = mi_values_count ix + length values, mi_storage = store\<rparr>))"

definition map_remove :: "('v, nat set) hashmap \<Rightarrow> 'v \<Rightarrow> nat \<Rightarrow> ('v, nat set) hashmap" where
  "map_remove m value idx =
     (case map_of m value of Some vals \<Rightarrow> AList.update value (vals - {idx}) m | None \<Rightarrow> m)"

definition mi_remove_point :: "'v list codec \<Rightarrow> 'v map_index \<Rightarrow> nat \<Rightarrow> (grid_error, 'v map_index) result" where
  "mi_remove_point co ix idx =
     (if length (mi_point_to_values ix) \<le> idx then Inr ix
      else
        let removed_values = mi_point_to_values ix ! idx;
            ptv = (mi_point_to_values ix)[idx := []];
            indexed_points = (if removed_values \<noteq> [] then mi_indexed_points ix - 1 else mi_indexed_points ix);
            m = fold (\<lambda>value m. map_remove m value idx) removed_values (mi_map ix)
        in and_then (delete_value co (mi_storage ix) idx) (\<lambda>(store, _).
             Inr \<lparr>mi_map = m, mi_point_to_values = ptv, mi_indexed_points = indexed_points,
               mi_values_count = mi_values_count ix - length removed_values, mi_storage = store\<rparr>))"

definition mi_check_values_any :: "'v map_index \<Rightarrow> nat \<Rightarrow> ('v \<Rightarrow> bool) \<Rightarrow> bool" where
  "mi_check_values_any ix idx check_fn =
     (if idx < length (mi_point_to_values ix) then list_ex check_fn (mi_point_to_values ix ! idx) else False)"

definition mi_get_values :: "'v map_index \<Rightarrow> nat \<Rightarrow> 'v list option" where
  "mi_get_values ix idx =
     (if idx < length (mi_point_to_values ix) then Some (mi_point_to_values ix ! idx) else None)"

definition mi_values_count_of :: "'v map_index \<Rightarrow> nat \<Rightarrow> nat option" where
  "mi_values_count_of ix idx = map_option length (mi_get_values ix idx)"

definition get_unique_values_count :: "'v map_index \<Rightarrow> nat" where "get_unique_values_count ix = length (mi_map ix)"

definition get_count_for_value :: "'v map_index \<Rightarrow> 'v \<Rightarrow> nat option" where
  "get_count_for_value ix value = map_option card (map_of (mi_map ix) value)"

definition iter_counts_per_value :: "'v map_index \<Rightarrow> nat option \<Rightarrow> ('v \<times> nat) list" where
  "iter_counts_per_value ix deferred_internal_id =
     map (\<lambda>(k, v). (k, case deferred_internal_id of
         Some d \<Rightarrow> card {i \<in> v. i < d} | None \<Rightarrow> card v)) (mi_map ix)"

definition get_iterator :: "'v map_index \<Rightarrow> 'v \<Rightarrow> nat set" where
  "get_iterator ix value = entry_or_default (mi_map ix) value"

definition iter_values :: "'v map_index \<Rightarrow> 'v list" where "iter_values ix = hm_keys (mi_map ix)"

section \<open>Filters and estimates (\<open>mod.rs\<close>)\<close>

text \<open>A match with a value, with any of some values, or with a value other than some; the sets of points answered.\<close>

definition match_cardinality :: "'v map_index \<Rightarrow> 'v \<Rightarrow> cardinality_estimation" where
  "match_cardinality ix value = card_exact (case get_count_for_value ix value of Some n \<Rightarrow> n | None \<Rightarrow> 0)"

definition except_set :: "'v map_index \<Rightarrow> 'v list \<Rightarrow> nat set" where
  "except_set ix excluded = \<Union> (set (map (get_iterator ix) (filter (\<lambda>key. key \<notin> set excluded) (iter_values ix))))"

datatype 'v match_condition = MatchValue 'v | MatchAny "'v list" | MatchExcept "'v list"

definition mi_filter :: "'v map_index \<Rightarrow> 'v match_condition \<Rightarrow> nat set" where
  "mi_filter ix cond =
     (case cond of
        MatchValue value \<Rightarrow> get_iterator ix value
      | MatchAny values \<Rightarrow> \<Union> (set (map (get_iterator ix) values))
      | MatchExcept values \<Rightarrow> except_set ix values)"

text \<open>The expected number of points is computed in floating point (\<open>stat_tools.rs\<close>): it is the argument \<open>selected\<close>.\<close>

definition except_cardinality :: "(nat \<Rightarrow> nat \<Rightarrow> nat) \<Rightarrow> 'v map_index \<Rightarrow> 'v list \<Rightarrow> cardinality_estimation" where
  "except_cardinality selected ix excluded =
     (let excluded_value_counts =
        map (\<lambda>val. case get_count_for_value ix val of Some n \<Rightarrow> n | None \<Rightarrow> 0) excluded;
        total_excluded_value_count = sum_list excluded_value_counts;
        non_excluded_values_count = mi_values_count ix - total_excluded_value_count;
        max_values_per_point = get_unique_values_count ix - length excluded_value_counts
      in if max_values_per_point = 0 then card_exact 0
         else
           let min_not_excluded_by_values = div_ceil non_excluded_values_count max_values_per_point;
               est_min = max min_not_excluded_by_values (mi_indexed_points ix - total_excluded_value_count);
               max_excluded_value_count = (if excluded_value_counts = [] then 0 else Max (set excluded_value_counts));
               est_max = min (mi_indexed_points ix - max_excluded_value_count) non_excluded_values_count;
               expected = min (max (selected (mi_indexed_points ix) non_excluded_values_count) est_min) est_max
           in \<lparr>card_min = est_min, card_exp = expected, card_max = est_max\<rparr>)"

definition payload_blocks :: "'v map_index \<Rightarrow> nat \<Rightarrow> ('v \<times> nat) list" where
  "payload_blocks ix threshold =
     filter (\<lambda>(value, count). threshold < count)
       (map (\<lambda>value. (value, case get_count_for_value ix value of Some n \<Rightarrow> n | None \<Rightarrow> 0)) (iter_values ix))"

text \<open>The keyword index: \<open>ValueIndexer for MapIndex<str>\<close>.\<close>

definition keyword_get_value :: "'n json \<Rightarrow> string option" where
  "keyword_get_value v = (case v of JString keyword \<Rightarrow> Some keyword | _ \<Rightarrow> None)"

definition keyword_add_point ::
  "string list codec \<Rightarrow> string map_index \<Rightarrow> nat \<Rightarrow> 'n json list \<Rightarrow> (grid_error, string map_index) result" where
  "keyword_add_point co ix id1 payload =
     and_then (mi_remove_point co ix id1) (\<lambda>ix1. add_many_to_map co ix1 id1 (flatten_values keyword_get_value payload))"

section \<open>The two directions of the index agree\<close>

definition point_values :: "'v list list \<Rightarrow> nat \<Rightarrow> 'v list" where
  "point_values ptv k = (if k < length ptv then ptv ! k else [])"

definition values_total :: "(nat \<Rightarrow> 'v list) \<Rightarrow> nat" where
  "values_total f = (\<Sum>k | f k \<noteq> []. length (f k))"

definition map_agrees :: "('v, nat set) hashmap \<Rightarrow> (nat \<Rightarrow> 'v list) \<Rightarrow> bool" where
  "map_agrees m f \<longleftrightarrow> hm_wf m \<and> (\<forall>v. entry_or_default m v = {k. v \<in> set (f k)})"

definition counts_agree :: "nat \<Rightarrow> nat \<Rightarrow> (nat \<Rightarrow> 'v list) \<Rightarrow> bool" where
  "counts_agree n t f \<longleftrightarrow> finite {k. f k \<noteq> []} \<and> n = card {k. f k \<noteq> []} \<and> t = values_total f"

lemma values_total_upd:
  assumes "finite {k. f k \<noteq> []}"
  shows "values_total (f(i := xs)) + length (f i) = values_total f + length xs"
proof -
  let ?S = "insert i {k. f k \<noteq> []}" and ?g = "f(i := xs)"
  have fin: "finite ?S" using assms by simp
  have 1: "values_total f = (\<Sum>k \<in> ?S. length (f k))"
    unfolding values_total_def by (rule sum.mono_neutral_left [OF fin]) auto
  have 2: "values_total ?g = (\<Sum>k \<in> ?S. length (?g k))"
    unfolding values_total_def by (rule sum.mono_neutral_left [OF fin]) auto
  have 3: "(\<Sum>k \<in> ?S. length (h k)) = length (h i) + (\<Sum>k \<in> ?S - {i}. length (h k))" for h :: "nat \<Rightarrow> 'a list"
    by (rule sum.remove [OF fin]) simp
  have "(\<Sum>k \<in> ?S - {i}. length (?g k)) = (\<Sum>k \<in> ?S - {i}. length (f k))" by (rule sum.cong) auto
  then show ?thesis using 1 2 3 [of f] 3 [of ?g] by simp
qed

lemma nonempty_upd: "{k. (f(i := xs)) k \<noteq> []} = (if xs = [] then {k. f k \<noteq> []} - {i} else insert i {k. f k \<noteq> []})"
  by auto

text \<open>Values given to a point that has none, and taken from a point.\<close>

lemma counts_agree_give:
  assumes "counts_agree n t f" "f i = []" "xs \<noteq> []"
  shows "counts_agree (n + 1) (t + length xs) (f(i := xs))"
  using assms values_total_upd [of f i xs] unfolding counts_agree_def nonempty_upd by simp

lemma counts_agree_take:
  assumes "counts_agree n t f"
  shows "counts_agree (if f i \<noteq> [] then n - 1 else n) (t - length (f i)) (f(i := []))"
  using assms values_total_upd [of f i "[]"] unfolding counts_agree_def nonempty_upd by auto

lemma counts_agree_append:
  assumes "counts_agree n t f"
  shows "counts_agree (if f i = [] then n + 1 else n) (t + 1) (f(i := f i @ [x]))"
  using assms values_total_upd [of f i "f i @ [x]"] unfolding counts_agree_def nonempty_upd by (auto simp: insert_absorb)

lemma entry_map_insert: "entry_or_default (map_insert m v i) w = (if w = v then insert i (entry_or_default m v) else entry_or_default m w)"
  by (simp add: entry_or_default_def map_insert_def map_of_update)

lemma map_agrees_append:
  "map_agrees m f \<Longrightarrow> map_agrees (map_insert m v i) (f(i := f i @ [v]))"
  by (auto simp: map_agrees_def entry_map_insert) (auto simp: map_insert_def)

lemma entry_map_remove: "entry_or_default (map_remove m v i) w = (if w = v then entry_or_default m v - {i} else entry_or_default m w)"
  by (auto simp: entry_or_default_def map_remove_def map_of_update split: option.split)

lemma map_remove_wf: "hm_wf m \<Longrightarrow> hm_wf (map_remove m v i)"
  by (simp add: map_remove_def split: option.split)

lemma map_agrees_take:
  assumes "map_agrees m f"
  shows "map_agrees (fold (\<lambda>value m. map_remove m value i) (f i) m) (f(i := []))"
proof -
  have "hm_wf m \<Longrightarrow> hm_wf (fold (\<lambda>value m. map_remove m value i) vs m)" for vs and m :: "('a, nat set) hashmap"
    by (induction vs arbitrary: m) (auto simp: map_remove_wf)
  moreover have "entry_or_default (fold (\<lambda>value m. map_remove m value i) vs m) w =
      (if w \<in> set vs then entry_or_default m w - {i} else entry_or_default m w)" for vs m and w :: 'a
    by (induction vs arbitrary: m) (auto simp: entry_map_remove)
  ultimately show ?thesis using assms by (auto simp: map_agrees_def)
qed

lemma point_values_resize [simp]: "point_values (resize_points ptv n) = point_values ptv"
  by (auto simp: point_values_def resize_points_def nth_append fun_eq_iff)

lemma point_values_update: "i < length ptv \<Longrightarrow> point_values (ptv[i := xs]) = (point_values ptv)(i := xs)"
  by (auto simp: point_values_def nth_list_update fun_eq_iff)

lemma grown_points: "i < length (if length ptv \<le> i then resize_points ptv (i + 1) else ptv)"
  by (simp add: resize_points_def)

lemma fold_give:
  "map_agrees m (point_values ptv) \<Longrightarrow> i < length ptv \<Longrightarrow>
   (case fold (\<lambda>value (m, ptv). (map_insert m value i, ptv[i := ptv ! i @ [value]])) values (m, ptv) of (m1, ptv1) \<Rightarrow>
      map_agrees m1 (point_values ptv1) \<and> point_values ptv1 = (point_values ptv)(i := point_values ptv i @ values))"
proof (induction "values" arbitrary: m ptv)
  case (Cons v vs)
  have "ptv ! i = point_values ptv i" using Cons.prems(2) by (simp add: point_values_def)
  then have p: "point_values (ptv[i := ptv ! i @ [v]]) = (point_values ptv)(i := point_values ptv i @ [v])"
    using point_values_update [OF Cons.prems(2)] by metis
  then have "map_agrees (map_insert m v i) (point_values (ptv[i := ptv ! i @ [v]]))"
    using map_agrees_append [OF Cons.prems(1), of v i] by simp
  from Cons.IH [OF this] Cons.prems(2) p show ?case by (auto split: prod.splits)
qed (simp add: fun_eq_iff)

text \<open>The whole index: what is in memory agrees, and the store has the values of every point that has some.\<close>

definition mi_values :: "'v map_index \<Rightarrow> nat \<Rightarrow> 'v list" where "mi_values ix = point_values (mi_point_to_values ix)"

definition mi_ok :: "'v list codec \<Rightarrow> storage_config \<Rightarrow> 'v map_index \<Rightarrow> bool" where
  "mi_ok co c ix \<longleftrightarrow> map_agrees (mi_map ix) (mi_values ix) \<and> counts_agree (mi_indexed_points ix) (mi_values_count ix) (mi_values ix) \<and>
     grid_inv c (mi_storage ix, None) \<and>
     (\<forall>k. gs_lookup co (mi_storage ix) k = (if mi_values ix k = [] then None else Some (mi_values ix k)))"

lemma mi_ok_make:
  "mi_ok co c \<lparr>mi_map = m, mi_point_to_values = ptv, mi_indexed_points = n, mi_values_count = t, mi_storage = store\<rparr> \<longleftrightarrow>
     map_agrees m (point_values ptv) \<and> counts_agree n t (point_values ptv) \<and> grid_inv c (store, None) \<and>
     (\<forall>k. gs_lookup co store k = (if point_values ptv k = [] then None else Some (point_values ptv k)))"
  by (simp add: mi_ok_def mi_values_def)

lemma mi_values_make:
  "mi_values \<lparr>mi_map = m, mi_point_to_values = ptv, mi_indexed_points = n, mi_values_count = t, mi_storage = store\<rparr> =
     point_values ptv"
  by (simp add: mi_values_def)

lemma mi_remove_ok:
  assumes ok: "mi_ok co c ix"
  shows "\<exists>ix'. mi_remove_point co ix k = Inr ix' \<and> mi_ok co c ix' \<and> mi_values ix' = (mi_values ix)(k := []) \<and>
    length (gs_pages (mi_storage ix')) = length (gs_pages (mi_storage ix))"
proof (cases "length (mi_point_to_values ix) \<le> k")
  case True
  then have "mi_values ix k = []" by (simp add: mi_values_def point_values_def)
  then show ?thesis using True ok by (simp add: mi_remove_point_def fun_upd_idem)
next
  case False
  have v: "mi_point_to_values ix ! k = mi_values ix k" using False by (simp add: mi_values_def point_values_def)
  obtain store where st: "delete_value co (mi_storage ix) k = Inr (store, gs_lookup co (mi_storage ix) k)"
    "grid_inv c (store, None)" "gs_lookup co store = (gs_lookup co (mi_storage ix))(k := None)"
    "gs_pages store = gs_pages (mi_storage ix)"
    using grid_delete [of c "mi_storage ix" co k] ok by (auto simp: mi_ok_def)
  have p: "point_values ((mi_point_to_values ix)[k := []]) = (mi_values ix)(k := [])"
    using False by (simp add: mi_values_def point_values_update)
  show ?thesis
    using False ok st map_agrees_take [of "mi_map ix" "mi_values ix" k] counts_agree_take [of _ _ "mi_values ix" k]
    by (auto simp: mi_remove_point_def Let_def v mi_ok_make mi_values_make p mi_ok_def)
qed

lemma add_many_ok:
  assumes ok: "mi_ok co c ix" and none: "mi_values ix k = []"
    and fits: "vs \<noteq> [] \<Longrightarrow> value_ok co c vs \<and> k + 1 < 2 ^ 32 \<and> length (gs_pages (mi_storage ix)) + value_pages co c vs \<le> 2 ^ 32"
  shows "\<exists>ix'. add_many_to_map co ix k vs = Inr ix' \<and> mi_ok co c ix' \<and> mi_values ix' = (mi_values ix)(k := vs)"
proof (cases "vs = []")
  case True
  then show ?thesis using ok none by (simp add: add_many_to_map_def fun_upd_idem)
next
  case False
  obtain store b where st: "put_value co (mi_storage ix) k vs = Inr (store, b)" "grid_inv c (store, None)"
    "gs_lookup co store = (gs_lookup co (mi_storage ix))(k \<mapsto> vs)"
    using grid_put [of c "mi_storage ix" co vs k] fits [OF False] ok by (auto simp: mi_ok_def)
  define ptv where "ptv = (if length (mi_point_to_values ix) \<le> k then resize_points (mi_point_to_values ix) (k + 1)
    else mi_point_to_values ix)"
  have len: "k < length ptv" unfolding ptv_def by (rule grown_points)
  have pv: "point_values ptv = mi_values ix" by (simp add: ptv_def mi_values_def)
  have pv': "point_values (ptv[k := []]) = mi_values ix"
    using none by (simp add: point_values_update [OF len] pv fun_upd_idem)
  obtain m ptv1 where f: "fold (\<lambda>value (m, ptv). (map_insert m value k, ptv[k := ptv ! k @ [value]])) vs (mi_map ix, ptv[k := []]) = (m, ptv1)"
    by (rule prod.exhaust)
  have "map_agrees (mi_map ix) (point_values (ptv[k := []]))" "k < length (ptv[k := []])"
    using ok len by (simp_all add: pv' mi_ok_def)
  from fold_give [OF this, of vs]
  have g: "map_agrees m (point_values ptv1) \<and> point_values ptv1 = (mi_values ix)(k := mi_values ix k @ vs)"
    unfolding f prod.case pv' .
  then have ag: "map_agrees m (point_values ptv1)" by (rule conjunct1)
  have pv1: "point_values ptv1 = (mi_values ix)(k := vs)" using conjunct2 [OF g] none by simp
  have cn: "counts_agree (mi_indexed_points ix + 1) (mi_values_count ix + length vs) (point_values ptv1)"
    unfolding pv1 using counts_agree_give [where f = "mi_values ix" and i = k, OF _ none False] ok by (simp add: mi_ok_def)
  let ?ix = "\<lparr>mi_map = m, mi_point_to_values = ptv1, mi_indexed_points = mi_indexed_points ix + 1,
    mi_values_count = mi_values_count ix + length vs, mi_storage = store\<rparr>"
  have "add_many_to_map co ix k vs = Inr ?ix"
    unfolding add_many_to_map_def Let_def ptv_def [symmetric] f using False st(1) by simp
  moreover have "mi_ok co c ?ix"
    unfolding mi_ok_make using ag cn st(2,3) ok False by (simp add: pv1 mi_ok_def)
  ultimately show ?thesis using pv1 by (auto simp: mi_values_make)
qed

section \<open>Loading\<close>

text \<open>Values may arrive at points in any order.\<close>

lemma load_value_ok:
  assumes "map_agrees m (point_values ptv)" "counts_agree n t (point_values ptv)"
  obtains m1 ptv1 n1 t1 where "load_value i v (m, ptv, n, t) = (m1, ptv1, n1, t1)" "map_agrees m1 (point_values ptv1)"
    "counts_agree n1 t1 (point_values ptv1)" "point_values ptv1 = (point_values ptv)(i := point_values ptv i @ [v])"
proof -
  define ptv0 where "ptv0 = (if length ptv \<le> i then resize_points ptv (i + 1) else ptv)"
  have len: "i < length ptv0" unfolding ptv0_def by (rule grown_points)
  have pv: "point_values ptv0 = point_values ptv" by (simp add: ptv0_def)
  have at: "ptv0 ! i = point_values ptv i" using len pv by (metis point_values_def)
  have p: "point_values (ptv0[i := ptv0 ! i @ [v]]) = (point_values ptv)(i := point_values ptv i @ [v])"
    by (simp add: point_values_update [OF len] pv at)
  show thesis
  proof (rule that)
    show "load_value i v (m, ptv, n, t) =
      (map_insert m v i, ptv0[i := ptv0 ! i @ [v]], if point_values ptv i = [] then n + 1 else n, t + 1)"
      by (simp add: load_value_def ptv0_def [symmetric] Let_def at)
    show "map_agrees (map_insert m v i) (point_values (ptv0[i := ptv0 ! i @ [v]]))"
      unfolding p by (rule map_agrees_append [OF assms(1)])
    show "counts_agree (if point_values ptv i = [] then n + 1 else n) (t + 1) (point_values (ptv0[i := ptv0 ! i @ [v]]))"
      unfolding p by (rule counts_agree_append [OF assms(2)])
  qed (rule p)
qed

lemma load_values:
  assumes "map_agrees m (point_values ptv)" "counts_agree n t (point_values ptv)"
    and "fold (load_value i) vs (m, ptv, n, t) = (m1, ptv1, n1, t1)"
  shows "map_agrees m1 (point_values ptv1) \<and> counts_agree n1 t1 (point_values ptv1) \<and>
    point_values ptv1 = (point_values ptv)(i := point_values ptv i @ vs)"
  using assms
proof (induction vs arbitrary: m ptv n t)
  case Nil
  then show ?case by (auto simp: fun_eq_iff)
next
  case (Cons v vs)
  obtain m0 ptv0 n0 t0 where l: "load_value i v (m, ptv, n, t) = (m0, ptv0, n0, t0)" "map_agrees m0 (point_values ptv0)"
    "counts_agree n0 t0 (point_values ptv0)" "point_values ptv0 = (point_values ptv)(i := point_values ptv i @ [v])"
    using load_value_ok [OF Cons.prems(1,2)] .
  have "fold (load_value i) vs (m0, ptv0, n0, t0) = (m1, ptv1, n1, t1)" using Cons.prems(3) l(1) by simp
  from Cons.IH [OF l(2,3) this] have r: "map_agrees m1 (point_values ptv1)" "counts_agree n1 t1 (point_values ptv1)"
    "point_values ptv1 = (point_values ptv0)(i := point_values ptv0 i @ vs)" by blast+
  have "(point_values ptv0)(i := point_values ptv0 i @ vs) = (point_values ptv)(i := point_values ptv i @ v # vs)"
    by (simp add: l(4))
  then show ?case using r by metis
qed

lemma load_entries:
  assumes "map_agrees m (point_values ptv)" "counts_agree n t (point_values ptv)" "distinct (map fst kvs)"
  shows "\<exists>m1 ptv1 n1 t1. visit load_callback kvs (m, ptv, n, t) = Inr (m1, ptv1, n1, t1) \<and>
    map_agrees m1 (point_values ptv1) \<and> counts_agree n1 t1 (point_values ptv1) \<and>
    (\<forall>k. point_values ptv1 k = point_values ptv k @ (case map_of kvs k of Some vs \<Rightarrow> vs | None \<Rightarrow> []))"
  using assms
proof (induction kvs arbitrary: m ptv n t)
  case (Cons x kvs)
  obtain i vs where x: "x = (i, vs)" by (cases x)
  obtain m0 ptv0 n0 t0 where f: "fold (load_value i) vs (m, ptv, n, t) = (m0, ptv0, n0, t0)" by (metis prod.exhaust)
  have 0: "map_agrees m0 (point_values ptv0)" "counts_agree n0 t0 (point_values ptv0)"
    "point_values ptv0 = (point_values ptv)(i := point_values ptv i @ vs)"
    using load_values [OF Cons.prems(1,2) f] by blast+
  have "map_of kvs i = None" using Cons.prems(3) x by (simp add: map_of_eq_None_iff)
  then show ?case using Cons.IH [OF 0(1,2)] Cons.prems(3) 0(3)
    by (auto simp: x load_callback_def f)
qed simp

lemma mi_load_ok:
  assumes inv: "grid_inv c (store, None)" and ne: "\<And>k. gs_lookup co store k \<noteq> Some []"
  shows "\<exists>ix. mi_load co store = Some (Inr ix) \<and> mi_ok co c ix \<and>
    mi_values ix = (\<lambda>k. case gs_lookup co store k of Some vs \<Rightarrow> vs | None \<Rightarrow> [])"
proof -
  have ok: "gs_ok store" "next_pointer_offset (gs_tracker store) < 2 ^ 32" using inv by (simp_all add: grid_inv_def header_ok_def)
  let ?kvs = "entries (gs_lookup co store) 0 (max_point_offset store)"
  have it: "gs_iter co store (\<lambda>e. e) load_callback acc = Some (visit load_callback ?kvs acc)" for acc
    using iter_from_spec [OF ok] by (simp add: gs_iter_def)
  have d: "distinct (map fst ?kvs)" using entries_sorted [of "gs_lookup co store"] strict_sorted_iff by blast
  have o: "owners_ok (gs_config store) (bitslice (gs_bitmask store)) (gs_tracker store)" using ok(1) by (simp add: gs_ok_def)
  have bound: "k < max_point_offset store" if "gs_lookup co store k = Some vs" for k vs
    using that owners_okD(2) [OF o] owned_cases(1) by (fastforce simp: gs_lookup_def max_point_offset_def)
  have kvs: "map_of ?kvs k = gs_lookup co store k" for k
  proof (cases "gs_lookup co store k")
    case None
    then show ?thesis using in_entries [of k _ "gs_lookup co store"] by (metis map_of_SomeD not_None_eq)
  next
    case (Some vs)
    then have "(k, vs) \<in> set ?kvs" using bound [OF Some] by (simp add: in_entries)
    then show ?thesis using d Some by (simp add: map_of_is_SomeI)
  qed
  have "map_agrees [] (point_values ([] :: 'a list list))" "counts_agree 0 0 (point_values ([] :: 'a list list))"
    by (simp_all add: map_agrees_def entry_or_default_def point_values_def counts_agree_def values_total_def)
  from load_entries [OF this d] obtain m1 ptv1 n1 t1 where r: "visit load_callback ?kvs ([], [], 0, 0) = Inr (m1, ptv1, n1, t1)"
    "map_agrees m1 (point_values ptv1)" "counts_agree n1 t1 (point_values ptv1)"
    "\<And>k. point_values ptv1 k = (case gs_lookup co store k of Some vs \<Rightarrow> vs | None \<Rightarrow> [])"
    unfolding kvs by (auto simp: point_values_def [of "[]"])
  have "gs_lookup co store k = (if point_values ptv1 k = [] then None else Some (point_values ptv1 k))" for k
    using ne [of k] by (auto simp: r(4) split: option.split)
  then have "mi_ok co c \<lparr>mi_map = m1, mi_point_to_values = ptv1, mi_indexed_points = n1, mi_values_count = t1, mi_storage = store\<rparr>"
    unfolding mi_ok_make using r(2,3) inv by blast
  moreover have "point_values ptv1 = (\<lambda>k. case gs_lookup co store k of Some vs \<Rightarrow> vs | None \<Rightarrow> [])" using r(4) by (rule ext)
  moreover have "mi_load co store = Some (Inr \<lparr>mi_map = m1, mi_point_to_values = ptv1, mi_indexed_points = n1,
      mi_values_count = t1, mi_storage = store\<rparr>)" by (simp add: mi_load_def it r(1))
  ultimately show ?thesis by (metis mi_values_make)
qed

section \<open>Properties\<close>

lemma mi_iterator: "mi_ok co c ix \<Longrightarrow> get_iterator ix v = {k. v \<in> set (mi_values ix k)}"
  by (simp add: mi_ok_def map_agrees_def get_iterator_def)

lemma mi_value_listed: "mi_ok co c ix \<Longrightarrow> v \<in> set (mi_values ix k) \<Longrightarrow> v \<in> set (iter_values ix)"
proof -
  assume "mi_ok co c ix" "v \<in> set (mi_values ix k)"
  then have "entry_or_default (mi_map ix) v \<noteq> {}" by (auto simp: mi_ok_def map_agrees_def)
  then have "map_of (mi_map ix) v \<noteq> None" by (auto simp: entry_or_default_def)
  then show "v \<in> set (iter_values ix)" by (simp add: iter_values_def map_of_eq_None_iff)
qed

lemma mi_filter_values:
  assumes "mi_ok co c ix"
  shows "mi_filter ix cond = {k. \<exists>v \<in> set (mi_values ix k).
      case cond of MatchValue w \<Rightarrow> v = w | MatchAny ws \<Rightarrow> v \<in> set ws | MatchExcept ws \<Rightarrow> v \<notin> set ws}"
  using mi_value_listed [OF assms]
  by (cases cond) (auto simp: mi_filter_def except_set_def mi_iterator [OF assms])

lemma mi_count: "mi_ok co c ix \<Longrightarrow> (case get_count_for_value ix v of Some n \<Rightarrow> n | None \<Rightarrow> 0) = card {k. v \<in> set (mi_values ix k)}"
  using mi_iterator [of co c ix v]
  by (auto simp: get_count_for_value_def get_iterator_def entry_or_default_def split: option.splits)

definition keyword_codec :: "string list codec" where
  "keyword_codec = \<lparr>to_bytes = (\<lambda>vs. [1]), from_bytes = (\<lambda>b. [''x'']), compress_lz4 = (\<lambda>b. b), decompress_lz4 = (\<lambda>b. b)\<rparr>"

lemma keyword_codec_ok:
  "value_ok keyword_codec demo_config [''x'']" "value_pages keyword_codec demo_config vs = 1"
  by (simp_all add: value_ok_def encode_def decode_def keyword_codec_def demo_config_def value_pages_def pages_needed_def div_ceil_def)

text \<open>An index over a new store, and one with a value.\<close>

lemma empty_index:
  obtains ix :: "string map_index" where "mi_ok keyword_codec demo_config ix" "mi_values ix = (\<lambda>k. [])"
    "length (gs_pages (mi_storage ix)) = 1"
proof -
  obtain s where s: "grid_inv demo_config (s, None)" "grid_abs keyword_codec (s, None) = spec_new" "length (gs_pages s) = 1"
    using new_store [OF demo_config_ok] by metis
  have "gs_lookup keyword_codec s = Map.empty" using s(2) by (simp add: grid_abs_def spec_new_def)
  then have "mi_ok keyword_codec demo_config
      \<lparr>mi_map = [], mi_point_to_values = [], mi_indexed_points = 0, mi_values_count = 0, mi_storage = s\<rparr>"
    using s(1) by (simp add: mi_ok_make map_agrees_def entry_or_default_def point_values_def counts_agree_def values_total_def)
  then show thesis using that [of "\<lparr>mi_map = [], mi_point_to_values = [], mi_indexed_points = 0, mi_values_count = 0, mi_storage = s\<rparr>"]
      s(3) by (simp add: mi_values_def point_values_def fun_eq_iff)
qed

lemma demo_index:
  obtains ix :: "string map_index" where "mi_ok keyword_codec demo_config ix" "mi_values ix = (\<lambda>k. [])(3 := [''x''])"
proof -
  obtain ix :: "string map_index" where ix: "mi_ok keyword_codec demo_config ix" "mi_values ix = (\<lambda>k. [])"
    "length (gs_pages (mi_storage ix)) = 1" using empty_index .
  have "mi_values ix 3 = []" by (simp add: ix(2))
  from add_many_ok [OF ix(1) this, of "[''x'']"] ix(2,3) keyword_codec_ok that show thesis by auto
qed



text \<open>C26: Updates of the keyword index: adding a point replaces its values by the strings among the values at the field, alone or
  in arrays, and removing it takes them away, in memory and in the grid store; the two directions of the index, its
  counters and the store keep agreeing.\<close>

theorem map_index_updates_functional:
  assumes "mi_ok co c ix" "vs = flatten_values keyword_get_value payload"
    and "vs \<noteq> [] \<Longrightarrow> value_ok co c vs \<and> k + 1 < 2 ^ 32 \<and> length (gs_pages (mi_storage ix)) + value_pages co c vs \<le> 2 ^ 32"
  shows "(\<exists>ix'. keyword_add_point co ix k payload = Inr ix' \<and> mi_ok co c ix' \<and> mi_values ix' = (mi_values ix)(k := vs)) \<and>
    (\<exists>ix'. mi_remove_point co ix k = Inr ix' \<and> mi_ok co c ix' \<and> mi_values ix' = (mi_values ix)(k := []))"
proof -
  obtain ix1 where r: "mi_remove_point co ix k = Inr ix1" "mi_ok co c ix1" "mi_values ix1 = (mi_values ix)(k := [])"
    "length (gs_pages (mi_storage ix1)) = length (gs_pages (mi_storage ix))" using mi_remove_ok [OF assms(1)] by blast
  have "mi_values ix1 k = []" by (simp add: r(3))
  from add_many_ok [OF r(2) this, of vs] assms(3) r(4) obtain ix2 where
    "add_many_to_map co ix1 k vs = Inr ix2" "mi_ok co c ix2" "mi_values ix2 = (mi_values ix1)(k := vs)" by auto
  then show ?thesis using r assms(2) by (simp add: keyword_add_point_def)
qed

theorem map_index_updates_functional_witness:
  "\<exists>ix ix'. keyword_add_point keyword_codec ix 3 [JArray [JString ''x'', JNumber (1 :: nat)]] = Inr ix' \<and>
     mi_ok keyword_codec demo_config ix' \<and> mi_values ix' 3 = [''x'']"
proof -
  obtain ix :: "string map_index" where ix: "mi_ok keyword_codec demo_config ix" "mi_values ix = (\<lambda>k. [])"
    "length (gs_pages (mi_storage ix)) = 1" using empty_index .
  have v: "[''x''] = flatten_values keyword_get_value [JArray [JString ''x'', JNumber (1 :: nat)]]"
    by (simp add: flatten_values_def keyword_get_value_def map_filter_simps)
  have "value_ok keyword_codec demo_config [''x''] \<and> 3 + 1 < (2 :: nat) ^ 32 \<and>
      length (gs_pages (mi_storage ix)) + value_pages keyword_codec demo_config [''x''] \<le> 2 ^ 32"
    by (simp add: keyword_codec_ok ix(3))
  from map_index_updates_functional [OF ix(1) v this] show ?thesis by (metis fun_upd_same)
qed



text \<open>An exclusion of a value the index does not have is estimated to match nothing when the index has one value.\<close>

lemma except_cardinality_unknown_value:
  "let ix = \<lparr>mi_map = [(''a'', {0})], mi_point_to_values = [[''a'']], mi_indexed_points = 1, mi_values_count = 1,
      mi_storage = store\<rparr> in
   mi_filter ix (MatchExcept [''b'']) = {0} \<and> except_cardinality selected ix [''b''] = card_exact 0"
  by (simp add: mi_filter_def except_set_def iter_values_def get_iterator_def entry_or_default_def except_cardinality_def
      get_unique_values_count_def Let_def)

end
