(* ===== verification/OrderedMap.thy ===== *)
theory OrderedMap
  imports Prelude
begin

text \<open>
  The \<open>BTreeMap\<close> of the Rust standard library as the list of its entries in key order: \<open>bt_insert\<close>
  keeps the list sorted, \<open>AList.delete\<close> removes an entry, \<open>map_of\<close> looks one up and the list itself
  is the order of \<open>iter()\<close>. A sorted list is determined by its lookups (\<open>bt_eqI\<close>), so two histories
  that leave the same entries leave the same map.
\<close>

type_synonym ('k, 'v) btree = "('k \<times> 'v) list"

definition bt_wf :: "('k::linorder, 'v) btree \<Rightarrow> bool" where
  "bt_wf m \<longleftrightarrow> sorted_wrt (<) (map fst m)"

fun bt_insert :: "'k::linorder \<Rightarrow> 'v \<Rightarrow> ('k, 'v) btree \<Rightarrow> ('k, 'v) btree" where
  "bt_insert k v [] = [(k, v)]"
| "bt_insert k v ((k', v') # m) =
    (if k < k' then (k, v) # (k', v') # m
     else if k = k' then (k, v) # m
     else (k', v') # bt_insert k v m)"

text \<open>\<open>range(k..)\<close>.\<close>

definition bt_range_from :: "'k::linorder \<Rightarrow> ('k, 'v) btree \<Rightarrow> ('k, 'v) btree" where
  "bt_range_from k m = filter (\<lambda>(k', v). k \<le> k') m"

lemma bt_wf_simps [simp]:
  "bt_wf []"
  "bt_wf ((k, v) # m) \<longleftrightarrow> (\<forall>k' \<in> fst ` set m. k < k') \<and> bt_wf m"
  by (auto simp: bt_wf_def)

lemma bt_wf_distinct: "bt_wf m \<Longrightarrow> hm_wf m"
  by (simp add: bt_wf_def strict_sorted_iff)

lemma set_bt_insert: "fst ` set (bt_insert k v m) = insert k (fst ` set m)"
  by (induction k v m rule: bt_insert.induct) auto

lemma bt_wf_insert [simp]: "bt_wf m \<Longrightarrow> bt_wf (bt_insert k v m)"
  by (induction k v m rule: bt_insert.induct) (auto simp: set_bt_insert)

lemma bt_wf_delete [simp]: "bt_wf m \<Longrightarrow> bt_wf (AList.delete k m)"
  by (induction m) (auto simp: AList.delete_eq)

lemma bt_wf_filter [simp]: "bt_wf m \<Longrightarrow> bt_wf (filter P m)"
  by (induction m) auto

lemma map_of_bt_insert [simp]: "bt_wf m \<Longrightarrow> map_of (bt_insert k v m) = (map_of m)(k \<mapsto> v)"
  by (induction k v m rule: bt_insert.induct) (auto simp: fun_eq_iff map_of_eq_None_iff)

lemma bt_entries: "bt_wf m \<Longrightarrow> map (\<lambda>k. (k, the (map_of m k))) (map fst m) = m"
  by (simp add: map_idI in_map_of [OF bt_wf_distinct, symmetric] split_beta)
    (rule map_idI, simp add: in_map_of [OF bt_wf_distinct] prod_eq_iff, metis bt_wf_distinct in_map_of option.sel prod.collapse)

lemma bt_eqI:
  assumes "bt_wf m" "bt_wf m'" "map_of m = map_of m'"
  shows "m = m'"
proof -
  have "map fst m = map fst m'"
    using assms by (intro strict_sorted_equal) (auto simp: bt_wf_def hm_keys_dom simp del: set_map)
  then show ?thesis
    using bt_entries [OF assms(1)] bt_entries [OF assms(2)] assms(3) by metis
qed

lemma bt_insert_delete [simp]: "bt_wf m \<Longrightarrow> bt_insert k v (AList.delete k m) = bt_insert k v m"
  by (rule bt_eqI) (simp_all add: map_of_delete)

lemma bt_length: "bt_wf m \<Longrightarrow> length m = card (dom (map_of m))"
  using distinct_card [OF bt_wf_distinct [of m]] by (simp add: hm_keys_dom del: set_map)

lemma bt_range_from_set: "bt_wf m \<Longrightarrow> (k', v) \<in> set (bt_range_from k m) \<longleftrightarrow> map_of m k' = Some v \<and> k \<le> k'"
  using in_map_of [OF bt_wf_distinct] by (fastforce simp: bt_range_from_def)

lemma bt_wf_range_from [simp]: "bt_wf m \<Longrightarrow> bt_wf (bt_range_from k m)"
  by (simp add: bt_range_from_def)

end
