(* ===== verification/IdMappings.thy ===== *)
theory IdMappings
  imports OrderedMap Bytes
begin

text \<open>
  \<open>lib/segment/src/id_tracker/point_mappings.rs\<close> of qdrant: the mapping between the point ids of the
  user (numbers or UUIDs) and the internal offsets of a segment. The forward direction is two
  \<open>BTreeMap\<close>s, the backward direction a vector with a bit per offset that says whether it is deleted.
  \<open>None\<close> as the result of an operation stands for the panic of an index past the end of a vector.

  The loader of \<open>mutable_id_tracker.rs\<close> keeps its own copy of this logic (\<open>replay_change\<close>): it folds
  the changes found in the file with other updates than \<open>set_link\<close> and \<open>drop\<close> use. The lemmas at the end
  relate the two.
\<close>

section \<open>Point ids\<close>

text \<open>\<open>ExtendedPointId\<close>; a UUID is the big-endian value of its 16 bytes, whose order is the order of
  \<open>Uuid\<close>. The derived \<open>Ord\<close> puts every number before every UUID.\<close>

type_synonym uuid = "128 word"

datatype point_id = NumId u64 | Uuid uuid

instantiation point_id :: linorder
begin

fun less_eq_point_id :: "point_id \<Rightarrow> point_id \<Rightarrow> bool" where
  "less_eq_point_id (NumId a) (NumId b) = (a \<le> b)"
| "less_eq_point_id (NumId _) (Uuid _) = True"
| "less_eq_point_id (Uuid _) (NumId _) = False"
| "less_eq_point_id (Uuid a) (Uuid b) = (a \<le> b)"

definition less_point_id :: "point_id \<Rightarrow> point_id \<Rightarrow> bool" where
  "less_point_id a b \<longleftrightarrow> a \<le> b \<and> \<not> b \<le> a"

instance
proof
  fix x y z :: point_id
  show "x < y \<longleftrightarrow> x \<le> y \<and> \<not> y \<le> x" by (rule less_point_id_def)
  show "x \<le> x" by (cases x) auto
  show "x \<le> y \<Longrightarrow> y \<le> z \<Longrightarrow> x \<le> z" by (cases x; cases y; cases z) auto
  show "x \<le> y \<Longrightarrow> y \<le> x \<Longrightarrow> x = y" by (cases x; cases y) auto
  show "x \<le> y \<or> y \<le> x" by (cases x; cases y) auto
qed

end

lemma less_point_id_simps [simp]:
  "NumId a < NumId b \<longleftrightarrow> a < b"
  "NumId a < Uuid v"
  "\<not> Uuid v < NumId a"
  "Uuid v < Uuid w \<longleftrightarrow> v < w"
  by (auto simp: less_point_id_def)

section \<open>Vectors\<close>

text \<open>\<open>Vec::get\<close>, the checked assignment \<open>v[i] = x\<close> and \<open>resize\<close> to a larger length.\<close>

definition vec_get :: "'a list \<Rightarrow> nat \<Rightarrow> 'a option" where
  "vec_get xs i = (if i < length xs then Some (xs ! i) else None)"

definition vec_set :: "'a list \<Rightarrow> nat \<Rightarrow> 'a \<Rightarrow> 'a list option" where
  "vec_set xs i x = (if i < length xs then Some (xs[i := x]) else None)"

definition vec_reserve :: "'a list \<Rightarrow> nat \<Rightarrow> 'a \<Rightarrow> 'a list" where
  "vec_reserve xs i x = (if i \<ge> length xs then xs @ replicate (i + 1 - length xs) x else xs)"

lemma length_vec_reserve [simp]: "length (vec_reserve xs i x) = max (length xs) (i + 1)"
  by (simp add: vec_reserve_def)

lemma vec_reserve_nth: "j < length xs \<Longrightarrow> vec_reserve xs i x ! j = xs ! j"
  by (simp add: vec_reserve_def nth_append)

lemma vec_reserve_nth_new: "length xs \<le> j \<Longrightarrow> j \<le> i \<Longrightarrow> vec_reserve xs i x ! j = x"
  by (simp add: vec_reserve_def nth_append)

section \<open>The mappings\<close>

record point_mappings =
  pm_deleted :: "bool list"
  pm_internal_to_external :: "point_id list"
  pm_num :: "(u64, u32) btree"
  pm_uuid :: "(uuid, u32) btree"

definition pm_default :: point_mappings where
  "pm_default = \<lparr>pm_deleted = [], pm_internal_to_external = [], pm_num = [], pm_uuid = []\<rparr>"

definition no_external_id :: point_id where
  "no_external_id = NumId (- 1)"

definition pm_available_point_count :: "point_mappings \<Rightarrow> nat" where
  "pm_available_point_count pm = length (pm_num pm) + length (pm_uuid pm)"

definition pm_total_point_count :: "point_mappings \<Rightarrow> nat" where
  "pm_total_point_count pm = length (pm_internal_to_external pm)"

definition pm_internal_id :: "point_mappings \<Rightarrow> point_id \<Rightarrow> u32 option" where
  "pm_internal_id pm external_id =
     (case external_id of
        NumId num \<Rightarrow> map_of (pm_num pm) num
      | Uuid uuid \<Rightarrow> map_of (pm_uuid pm) uuid)"

definition pm_external_id :: "point_mappings \<Rightarrow> u32 \<Rightarrow> point_id option" where
  "pm_external_id pm internal_id =
     (case vec_get (pm_deleted pm) (unat internal_id) of
        None \<Rightarrow> None
      | Some True \<Rightarrow> None
      | Some False \<Rightarrow> vec_get (pm_internal_to_external pm) (unat internal_id))"

definition pm_is_deleted_point :: "point_mappings \<Rightarrow> u32 \<Rightarrow> bool" where
  "pm_is_deleted_point pm key =
     (if unat key \<ge> length (pm_deleted pm) then True else pm_deleted pm ! unat key)"

text \<open>\<open>remove\<close> and \<open>insert\<close> on the map an external id belongs to.\<close>

definition pm_unlink :: "point_id \<Rightarrow> point_mappings \<Rightarrow> point_mappings" where
  "pm_unlink external_id pm =
     (case external_id of
        NumId num \<Rightarrow> pm\<lparr>pm_num := AList.delete num (pm_num pm)\<rparr>
      | Uuid uuid \<Rightarrow> pm\<lparr>pm_uuid := AList.delete uuid (pm_uuid pm)\<rparr>)"

definition pm_link :: "point_id \<Rightarrow> u32 \<Rightarrow> point_mappings \<Rightarrow> point_mappings" where
  "pm_link external_id internal_id pm =
     (case external_id of
        NumId num \<Rightarrow> pm\<lparr>pm_num := bt_insert num internal_id (pm_num pm)\<rparr>
      | Uuid uuid \<Rightarrow> pm\<lparr>pm_uuid := bt_insert uuid internal_id (pm_uuid pm)\<rparr>)"

definition pm_drop :: "point_mappings \<Rightarrow> point_id \<Rightarrow> (point_mappings \<times> u32 option) option" where
  "pm_drop pm external_id =
     (case pm_internal_id pm external_id of
        None \<Rightarrow> Some (pm_unlink external_id pm, None)
      | Some internal_id \<Rightarrow>
          (let pm1 = pm_unlink external_id pm
           in case vec_set (pm_internal_to_external pm1) (unat internal_id) no_external_id of
                None \<Rightarrow> None
              | Some i2e \<Rightarrow>
                  (case vec_set (pm_deleted pm1) (unat internal_id) True of
                     None \<Rightarrow> None
                   | Some del \<Rightarrow>
                       Some (pm1\<lparr>pm_internal_to_external := i2e, pm_deleted := del\<rparr>, Some internal_id))))"

definition pm_set_link :: "point_mappings \<Rightarrow> point_id \<Rightarrow> u32 \<Rightarrow> (point_mappings \<times> u32 option) option" where
  "pm_set_link pm external_id internal_id =
     (let old_internal_id = pm_internal_id pm external_id;
          pm1 = pm_link external_id internal_id pm;
          i2e = vec_reserve (pm_internal_to_external pm1) (unat internal_id) no_external_id;
          del = vec_reserve (pm_deleted pm1) (unat internal_id) True
      in case (case old_internal_id of
                 None \<Rightarrow> Some del
               | Some old \<Rightarrow> if unat old \<noteq> unat internal_id then vec_set del (unat old) True else Some del) of
           None \<Rightarrow> None
         | Some del1 \<Rightarrow>
             Some (pm1\<lparr>pm_internal_to_external := i2e[unat internal_id := external_id],
                       pm_deleted := del1[unat internal_id := False]\<rparr>, old_internal_id))"

section \<open>Walking the mappings\<close>

definition pm_iter_external :: "point_mappings \<Rightarrow> point_id list" where
  "pm_iter_external pm = map (NumId \<circ> fst) (pm_num pm) @ map (Uuid \<circ> fst) (pm_uuid pm)"

definition pm_iter_from :: "point_mappings \<Rightarrow> point_id option \<Rightarrow> (point_id \<times> u32) list" where
  "pm_iter_from pm external_id =
     (let num = (\<lambda>(k, v). (NumId k, v)); uuid = (\<lambda>(k, v). (Uuid k, v))
      in case external_id of
           None \<Rightarrow> map num (pm_num pm) @ map uuid (pm_uuid pm)
         | Some (NumId idx) \<Rightarrow> map num (bt_range_from idx (pm_num pm)) @ map uuid (pm_uuid pm)
         | Some (Uuid u) \<Rightarrow> map uuid (bt_range_from u (pm_uuid pm)))"

text \<open>The upper end of the range is the number of offsets cast to \<open>u32\<close>; the walk panics at an offset
  the bits do not reach.\<close>

definition pm_iter_internal :: "point_mappings \<Rightarrow> u32 list option" where
  "pm_iter_internal pm =
     (let offsets = [0 ..< unat (of_nat (length (pm_internal_to_external pm)) :: u32)]
      in if \<exists>i \<in> set offsets. length (pm_deleted pm) \<le> i then None
         else Some (map of_nat (filter (\<lambda>i. \<not> pm_deleted pm ! i) offsets)))"

section \<open>Changes and their replay\<close>

datatype mapping_change = Insert point_id u32 | Delete point_id

text \<open>One turn of the loop of \<open>read_mappings\<close>; its four variables are the fields of the mappings.\<close>

definition replay_insert :: "point_mappings \<Rightarrow> point_id \<Rightarrow> u32 \<Rightarrow> point_mappings" where
  "replay_insert pm external_id internal_id =
     (let i = unat internal_id;
          i2e = vec_reserve (pm_internal_to_external pm) i no_external_id;
          replaced_external_id = i2e ! i;
          pm1 = pm\<lparr>pm_internal_to_external := i2e[i := external_id]\<rparr>;
          pm2 = (if vec_get (pm_deleted pm1) i = Some False then pm_unlink replaced_external_id pm1 else pm1);
          del = vec_reserve (pm_deleted pm2) i True
      in pm_link external_id internal_id (pm2\<lparr>pm_deleted := del[i := False]\<rparr>))"

definition replay_delete :: "point_mappings \<Rightarrow> point_id \<Rightarrow> point_mappings" where
  "replay_delete pm external_id =
     (case pm_internal_id pm external_id of
        None \<Rightarrow> pm_unlink external_id pm
      | Some internal_id \<Rightarrow>
          (let i = unat internal_id;
               pm1 = pm_unlink external_id pm;
               i2e = pm_internal_to_external pm1;
               pm2 = pm1\<lparr>pm_internal_to_external := (if i < length i2e then i2e[i := no_external_id] else i2e)\<rparr>;
               del = vec_reserve (pm_deleted pm2) i True
           in pm2\<lparr>pm_deleted := del[i := True]\<rparr>))"

fun replay_change :: "mapping_change \<Rightarrow> point_mappings \<Rightarrow> point_mappings" where
  "replay_change (Insert external_id internal_id) pm = replay_insert pm external_id internal_id"
| "replay_change (Delete external_id) pm = replay_delete pm external_id"

definition replay_changes :: "mapping_change list \<Rightarrow> point_mappings \<Rightarrow> point_mappings" where
  "replay_changes changes pm = fold replay_change changes pm"

section \<open>Lookups after an update\<close>

definition maps_wf :: "point_mappings \<Rightarrow> bool" where
  "maps_wf pm \<longleftrightarrow> bt_wf (pm_num pm) \<and> bt_wf (pm_uuid pm)"

named_theorems pm_simps \<open>fields and lookups after an update of the mappings\<close>

lemma pm_fields_unlink [pm_simps]:
  "pm_deleted (pm_unlink e pm) = pm_deleted pm"
  "pm_internal_to_external (pm_unlink e pm) = pm_internal_to_external pm"
  "maps_wf pm \<Longrightarrow> maps_wf (pm_unlink e pm)"
  by (auto simp: pm_unlink_def maps_wf_def split: point_id.splits)

lemma pm_fields_link [pm_simps]:
  "pm_deleted (pm_link e i pm) = pm_deleted pm"
  "pm_internal_to_external (pm_link e i pm) = pm_internal_to_external pm"
  "maps_wf pm \<Longrightarrow> maps_wf (pm_link e i pm)"
  by (auto simp: pm_link_def maps_wf_def split: point_id.splits)

lemma maps_wf_update [pm_simps]:
  "maps_wf (pm\<lparr>pm_deleted := d\<rparr>) = maps_wf pm"
  "maps_wf (pm\<lparr>pm_internal_to_external := x\<rparr>) = maps_wf pm"
  by (auto simp: maps_wf_def)

lemma pm_internal_id_update [pm_simps]:
  "pm_internal_id (pm\<lparr>pm_deleted := d\<rparr>) = pm_internal_id pm"
  "pm_internal_id (pm\<lparr>pm_internal_to_external := x\<rparr>) = pm_internal_id pm"
  by (auto simp: pm_internal_id_def fun_eq_iff split: point_id.splits)

lemma pm_internal_id_unlink [pm_simps]: "pm_internal_id (pm_unlink e pm) = (pm_internal_id pm)(e := None)"
  by (auto simp: pm_internal_id_def pm_unlink_def map_of_delete fun_eq_iff split: point_id.splits)

lemma pm_internal_id_link [pm_simps]:
  "maps_wf pm \<Longrightarrow> pm_internal_id (pm_link e i pm) = (pm_internal_id pm)(e \<mapsto> i)"
  by (auto simp: maps_wf_def pm_internal_id_def pm_link_def fun_eq_iff split: point_id.splits)

lemma pm_link_unlink [pm_simps]: "maps_wf pm \<Longrightarrow> pm_link e i (pm_unlink e pm) = pm_link e i pm"
  by (auto simp: maps_wf_def pm_link_def pm_unlink_def split: point_id.splits)

text \<open>The updates of different fields commute.\<close>

lemma pm_link_fields [pm_simps]:
  "pm_link e i (pm\<lparr>pm_deleted := d\<rparr>) = (pm_link e i pm)\<lparr>pm_deleted := d\<rparr>"
  "pm_link e i (pm\<lparr>pm_internal_to_external := x\<rparr>) = (pm_link e i pm)\<lparr>pm_internal_to_external := x\<rparr>"
  "pm_unlink e (pm\<lparr>pm_deleted := d\<rparr>) = (pm_unlink e pm)\<lparr>pm_deleted := d\<rparr>"
  "pm_unlink e (pm\<lparr>pm_internal_to_external := x\<rparr>) = (pm_unlink e pm)\<lparr>pm_internal_to_external := x\<rparr>"
  by (auto simp: pm_link_def pm_unlink_def split: point_id.splits)

section \<open>The invariant\<close>

text \<open>The two directions are one bijection between the live offsets and the linked ids.\<close>

definition live_at :: "point_mappings \<Rightarrow> u32 \<Rightarrow> point_id \<Rightarrow> bool" where
  "live_at pm i e \<longleftrightarrow> unat i < length (pm_internal_to_external pm) \<and>
     pm_internal_to_external pm ! unat i = e \<and> \<not> pm_deleted pm ! unat i"

definition mappings_inv :: "point_mappings \<Rightarrow> bool" where
  "mappings_inv pm \<longleftrightarrow> maps_wf pm \<and>
     length (pm_deleted pm) = length (pm_internal_to_external pm) \<and>
     length (pm_internal_to_external pm) \<le> 2 ^ 32 \<and>
     (\<forall>e i. pm_internal_id pm e = Some i \<longleftrightarrow> live_at pm i e)"

text \<open>What a caller of \<open>set_link\<close> has to make sure of: the id is not linked to another offset, the offset
  does not hold another id.\<close>

definition id_free :: "point_mappings \<Rightarrow> point_id \<Rightarrow> u32 \<Rightarrow> bool" where
  "id_free pm e i \<longleftrightarrow> pm_internal_id pm e = None \<or> pm_internal_id pm e = Some i"

definition offset_free :: "point_mappings \<Rightarrow> point_id \<Rightarrow> u32 \<Rightarrow> bool" where
  "offset_free pm e i \<longleftrightarrow> pm_external_id pm i = None \<or> pm_external_id pm i = Some e"

lemma mappings_inv_default: "mappings_inv pm_default"
  by (auto simp: mappings_inv_def pm_default_def maps_wf_def pm_internal_id_def live_at_def split: point_id.splits)

lemma mappings_inv_internal_id: "mappings_inv pm \<Longrightarrow> pm_internal_id pm e = Some i \<longleftrightarrow> live_at pm i e"
  by (simp add: mappings_inv_def)

lemma mappings_inv_external_id: "mappings_inv pm \<Longrightarrow> pm_external_id pm i = Some e \<longleftrightarrow> live_at pm i e"
  by (auto simp: mappings_inv_def pm_external_id_def vec_get_def live_at_def split: option.splits bool.splits)

lemma mappings_inv_is_deleted: "mappings_inv pm \<Longrightarrow> pm_is_deleted_point pm i \<longleftrightarrow> pm_external_id pm i = None"
  by (auto simp: mappings_inv_def pm_is_deleted_point_def pm_external_id_def vec_get_def split: bool.splits)

lemma live_at_functional: "live_at pm i e \<Longrightarrow> live_at pm i e' \<Longrightarrow> e = e'"
  by (simp add: live_at_def)

lemma mappings_inv_injective:
  "mappings_inv pm \<Longrightarrow> live_at pm i e \<Longrightarrow> live_at pm i' e \<Longrightarrow> i = i'"
  by (metis mappings_inv_internal_id option.inject)

lemma unat_u32_bound: "unat (i :: u32) < 2 ^ 32"
  using unsigned_less [of i, where ?'a = nat] by simp

lemma vec_reserve_same [simp]: "i < length xs \<Longrightarrow> vec_reserve xs i x = xs"
  by (simp add: vec_reserve_def)

lemma live_at_link [pm_simps]: "live_at (pm_link e i pm) = live_at pm"
  by (simp add: live_at_def pm_simps fun_eq_iff)

lemma live_at_unlink [pm_simps]: "live_at (pm_unlink e pm) = live_at pm"
  by (simp add: live_at_def pm_simps fun_eq_iff)

definition occupy :: "point_id \<Rightarrow> u32 \<Rightarrow> point_mappings \<Rightarrow> point_mappings" where
  "occupy e i pm =
     pm\<lparr>pm_internal_to_external := (vec_reserve (pm_internal_to_external pm) (unat i) no_external_id)[unat i := e],
        pm_deleted := (vec_reserve (pm_deleted pm) (unat i) True)[unat i := False]\<rparr>"

definition vacate :: "u32 \<Rightarrow> point_mappings \<Rightarrow> point_mappings" where
  "vacate i pm =
     pm\<lparr>pm_internal_to_external := (pm_internal_to_external pm)[unat i := no_external_id],
        pm_deleted := (pm_deleted pm)[unat i := True]\<rparr>"

lemma live_at_occupy [pm_simps]:
  assumes "length (pm_deleted pm) = length (pm_internal_to_external pm)"
  shows "live_at (occupy e i pm) j e' \<longleftrightarrow> (if j = i then e' = e else live_at pm j e')"
  using assms
  by (cases "unat j < length (pm_deleted pm)")
    (auto simp: live_at_def occupy_def nth_list_update vec_reserve_nth vec_reserve_nth_new less_max_iff_disj not_less
      word_unat_eq_iff less_Suc_eq_le)

lemma occupy_maps [pm_simps]:
  "maps_wf (occupy e i pm) = maps_wf pm"
  "pm_internal_id (occupy e i pm) = pm_internal_id pm"
  by (simp_all add: occupy_def pm_simps)

lemma id_free_iff: "mappings_inv pm \<Longrightarrow> id_free pm e i \<longleftrightarrow> (\<forall>j. live_at pm j e \<longrightarrow> j = i)"
  by (cases "pm_internal_id pm e") (force simp: id_free_def simp flip: mappings_inv_internal_id)+

lemma offset_free_iff: "mappings_inv pm \<Longrightarrow> offset_free pm e i \<longleftrightarrow> (\<forall>e'. live_at pm i e' \<longrightarrow> e' = e)"
  by (cases "pm_external_id pm i") (force simp: offset_free_def simp flip: mappings_inv_external_id)+

text \<open>Linking an id that is not linked elsewhere to an offset that holds no other id.\<close>

lemma mappings_inv_occupy:
  assumes "mappings_inv pm" "id_free pm e i" "offset_free pm e i"
  shows "mappings_inv (pm_link e i (occupy e i pm))"
proof -
  have len: "length (pm_deleted pm) = length (pm_internal_to_external pm)" and wf: "maps_wf pm"
    using assms(1) by (simp_all add: mappings_inv_def)
  have "pm_internal_id (pm_link e i (occupy e i pm)) e' = Some j \<longleftrightarrow> live_at (pm_link e i (occupy e i pm)) j e'" for e' j
    using assms(2,3) len wf
    by (auto simp: pm_simps id_free_iff [OF assms(1)] offset_free_iff [OF assms(1)] mappings_inv_internal_id [OF assms(1)])
  then show ?thesis
    using assms(1) unat_u32_bound [of i] by (auto simp: mappings_inv_def occupy_def pm_simps)
qed

lemma pm_set_link_free:
  assumes "mappings_inv pm" "id_free pm e i"
  shows "pm_set_link pm e i = Some (pm_link e i (occupy e i pm), pm_internal_id pm e)"
  using assms by (auto simp: pm_set_link_def occupy_def pm_simps id_free_def Let_def split: option.splits)

lemma replay_insert_free:
  assumes inv: "mappings_inv pm" and free: "offset_free pm e i"
  shows "replay_insert pm e i = pm_link e i (occupy e i pm)"
proof (cases "vec_get (pm_deleted pm) (unat i) = Some False")
  case True
  then have "pm_internal_to_external pm ! unat i = e" "unat i < length (pm_internal_to_external pm)"
    using inv free by (auto simp: offset_free_def pm_external_id_def vec_get_def mappings_inv_def split: if_splits)
  then show ?thesis
    using True inv by (simp add: replay_insert_def occupy_def pm_simps Let_def mappings_inv_def)
next
  case False
  then show ?thesis by (simp add: replay_insert_def occupy_def pm_simps Let_def)
qed

lemma mappings_inv_vacate:
  assumes "mappings_inv pm" "pm_internal_id pm e = Some i"
  shows "mappings_inv (vacate i (pm_unlink e pm))"
proof -
  have live: "live_at pm i e" using assms by (simp add: mappings_inv_internal_id)
  have len: "length (pm_deleted pm) = length (pm_internal_to_external pm)" and wf: "maps_wf pm"
    using assms(1) by (simp_all add: mappings_inv_def)
  have "live_at (vacate i (pm_unlink e pm)) j e' \<longleftrightarrow> j \<noteq> i \<and> live_at pm j e'" for j e'
    using live len by (cases "j = i") (auto simp: live_at_def vacate_def pm_simps nth_list_update word_unat_eq_iff)
  moreover have "pm_internal_id (vacate i (pm_unlink e pm)) = (pm_internal_id pm)(e := None)"
    by (simp add: vacate_def pm_simps)
  ultimately have "pm_internal_id (vacate i (pm_unlink e pm)) e' = Some j \<longleftrightarrow> live_at (vacate i (pm_unlink e pm)) j e'" for e' j
    using live mappings_inv_internal_id [OF assms(1)] mappings_inv_injective [OF assms(1)] live_at_functional
    by (simp, metis)
  then show ?thesis using assms(1) wf len by (simp add: mappings_inv_def vacate_def pm_simps)
qed

lemma pm_drop_linked:
  assumes "mappings_inv pm" "pm_internal_id pm e = Some i"
  shows "pm_drop pm e = Some (vacate i (pm_unlink e pm), Some i)"
proof -
  have "unat i < length (pm_internal_to_external pm)" "length (pm_deleted pm) = length (pm_internal_to_external pm)"
    using assms mappings_inv_internal_id [OF assms(1), of e i] by (simp_all add: live_at_def mappings_inv_def)
  with assms(2) show ?thesis by (simp add: pm_drop_def vec_set_def pm_simps vacate_def)
qed

lemma replay_delete_linked:
  assumes "mappings_inv pm" "pm_internal_id pm e = Some i"
  shows "replay_delete pm e = vacate i (pm_unlink e pm)"
proof -
  have "unat i < length (pm_internal_to_external pm)" "length (pm_deleted pm) = length (pm_internal_to_external pm)"
    using assms mappings_inv_internal_id [OF assms(1), of e i] by (simp_all add: live_at_def mappings_inv_def)
  with assms(2) show ?thesis by (simp add: replay_delete_def pm_simps vacate_def Let_def)
qed

lemma pm_unlink_not_linked: "pm_internal_id pm e = None \<Longrightarrow> pm_unlink e pm = pm"
  by (cases e) (auto simp: pm_internal_id_def pm_unlink_def map_of_eq_None_iff delete_id)

lemma pm_drop_spec:
  assumes "mappings_inv pm"
  shows "pm_drop pm e = Some (replay_delete pm e, pm_internal_id pm e)"
  using pm_drop_linked [OF assms, of e] replay_delete_linked [OF assms, of e]
  by (cases "pm_internal_id pm e") (auto simp: pm_drop_def replay_delete_def)

lemma replay_delete_spec:
  assumes "mappings_inv pm"
  shows "mappings_inv (replay_delete pm e)" "pm_internal_id (replay_delete pm e) = (pm_internal_id pm)(e := None)"
proof -
  show "mappings_inv (replay_delete pm e)"
    using mappings_inv_vacate [OF assms, of e] replay_delete_linked [OF assms, of e] assms
    by (cases "pm_internal_id pm e") (auto simp: replay_delete_def pm_unlink_not_linked)
  show "pm_internal_id (replay_delete pm e) = (pm_internal_id pm)(e := None)"
    using replay_delete_linked [OF assms, of e]
    by (cases "pm_internal_id pm e") (auto simp: replay_delete_def vacate_def pm_simps)
qed

lemma pm_set_link_spec:
  assumes "mappings_inv pm" "id_free pm e i" "offset_free pm e i"
  shows "pm_set_link pm e i = Some (replay_insert pm e i, pm_internal_id pm e)"
    and "mappings_inv (replay_insert pm e i)"
    and "pm_internal_id (replay_insert pm e i) = (pm_internal_id pm)(e \<mapsto> i)"
  using mappings_inv_occupy [OF assms] pm_set_link_free [OF assms(1,2)] replay_insert_free [OF assms(1,3)] assms(1)
  by (auto simp: occupy_def pm_simps mappings_inv_def)

section \<open>The walks\<close>

lemma pm_iter_from_sorted:
  assumes "maps_wf pm"
  shows "sorted_wrt (<) (map fst (pm_iter_from pm from))"
proof -
  have "sorted_wrt (<) (map fst (map (\<lambda>(k, v). (NumId k, v)) m))" if "bt_wf m" for m :: "(u64, u32) btree"
    using that by (induction m) (auto simp: bt_wf_def)
  moreover have "sorted_wrt (<) (map fst (map (\<lambda>(k, v). (Uuid k, v)) m))" if "bt_wf m" for m :: "(uuid, u32) btree"
    using that by (induction m) (auto simp: bt_wf_def)
  ultimately show ?thesis
    using assms
    by (auto simp: pm_iter_from_def maps_wf_def sorted_wrt_append Let_def simp del: map_map split: option.splits point_id.splits)
qed

lemma pm_iter_from_set:
  assumes "maps_wf pm"
  shows "(e, i) \<in> set (pm_iter_from pm from) \<longleftrightarrow> pm_internal_id pm e = Some i \<and> (\<forall>e0. from = Some e0 \<longrightarrow> e0 \<le> e)"
proof -
  have "hm_wf (pm_num pm)" "hm_wf (pm_uuid pm)" using assms by (simp_all add: maps_wf_def bt_wf_distinct)
  note in_maps = this [THEN in_map_of, symmetric]
  show ?thesis
    by (auto simp: pm_iter_from_def pm_internal_id_def Let_def bt_range_from_def in_maps image_iff case_prod_beta
        split: option.splits point_id.splits) force+
qed

lemma pm_iter_internal_eq:
  assumes "mappings_inv pm" "pm_total_point_count pm < 2 ^ 32"
  shows "pm_iter_internal pm =
    Some (filter (\<lambda>i. \<not> pm_is_deleted_point pm i) (map of_nat [0 ..< pm_total_point_count pm]))"
proof -
  have bound: "i < pm_total_point_count pm \<Longrightarrow> unat (of_nat i :: u32) = i" for i
    using assms(2) by (simp add: unat_of_nat)
  have "unat (of_nat (pm_total_point_count pm) :: u32) = pm_total_point_count pm"
    using assms(2) by (simp add: unat_of_nat)
  moreover have "length (pm_deleted pm) = pm_total_point_count pm"
    using assms(1) by (simp add: mappings_inv_def pm_total_point_count_def)
  ultimately show ?thesis
    using bound
    by (auto simp: pm_iter_internal_def pm_total_point_count_def [symmetric] Let_def filter_map comp_def pm_is_deleted_point_def
        intro!: arg_cong [where f = "map of_nat"] filter_cong)
qed

lemma pm_iter_internal_set:
  assumes "mappings_inv pm" "pm_total_point_count pm < 2 ^ 32"
  shows "i \<in> set (the (pm_iter_internal pm)) \<longleftrightarrow> (\<exists>e. pm_internal_id pm e = Some i)"
proof -
  have "live_at pm i e \<Longrightarrow> i \<in> of_nat ` {0 ..< pm_total_point_count pm}" for e
    by (auto simp: live_at_def pm_total_point_count_def intro!: image_eqI [where x = "unat i"])
  then show ?thesis
    using mappings_inv_external_id [OF assms(1), of i]
    by (auto simp: pm_iter_internal_eq [OF assms] mappings_inv_is_deleted [OF assms(1)] mappings_inv_internal_id [OF assms(1)])
qed

lemma pm_iter_internal_distinct:
  assumes "mappings_inv pm" "pm_total_point_count pm < 2 ^ 32"
  shows "distinct (the (pm_iter_internal pm))"
proof -
  have "inj_on (of_nat :: nat \<Rightarrow> u32) {0 ..< pm_total_point_count pm}"
    using assms(2) by (auto intro!: inj_onI dest!: arg_cong [of _ _ unat] simp: unat_of_nat)
  then show ?thesis by (simp add: pm_iter_internal_eq [OF assms] distinct_map)
qed

lemma pm_available_count:
  assumes "mappings_inv pm" "pm_total_point_count pm < 2 ^ 32"
  shows "pm_available_point_count pm = length (the (pm_iter_internal pm))"
proof -
  have wf: "maps_wf pm" using assms(1) by (simp add: mappings_inv_def)
  have mem: "(e, i) \<in> set (pm_iter_from pm None) \<longleftrightarrow> pm_internal_id pm e = Some i" for e i
    by (simp add: pm_iter_from_set [OF wf])
  have "inj_on snd (set (pm_iter_from pm None))"
    by (auto intro!: inj_onI simp: mem mappings_inv_internal_id [OF assms(1)] dest: live_at_functional)
  moreover have "distinct (pm_iter_from pm None)"
    using pm_iter_from_sorted [OF wf, of None] by (simp add: strict_sorted_iff distinct_map)
  moreover have "set (map snd (pm_iter_from pm None)) = set (the (pm_iter_internal pm))"
    using mem pm_iter_internal_set [OF assms] by (auto simp: image_iff) force+
  ultimately have "length (map snd (pm_iter_from pm None)) = length (the (pm_iter_internal pm))"
    using pm_iter_internal_distinct [OF assms] by (metis distinct_card distinct_map)
  then show ?thesis by (simp add: pm_available_point_count_def pm_iter_from_def Let_def)
qed

section \<open>Where the two copies of the logic differ\<close>

text \<open>An id that moves to another offset: \<open>set_link\<close> marks the old offset deleted, the loader does not, so
  after a reload the old offset counts as a live point that no id leads to. An offset that is given to
  another id: the loader unlinks the id that held it, \<open>set_link\<close> leaves it in the map.\<close>

lemma moved_link_reload_diverges:
  "(case pm_set_link pm_default (NumId 7) 0 of Some (pm, _) \<Rightarrow>
      (case pm_set_link pm (NumId 7) 1 of Some (pm', _) \<Rightarrow> pm_iter_internal pm' = Some [1] | None \<Rightarrow> False)
    | None \<Rightarrow> False) \<and>
   pm_iter_internal (replay_changes [Insert (NumId 7) 0, Insert (NumId 7) 1] pm_default) = Some [0, 1] \<and>
   pm_available_point_count (replay_changes [Insert (NumId 7) 0, Insert (NumId 7) 1] pm_default) = 1"
  by code_simp

lemma replaced_link_stale:
  "(case pm_set_link pm_default (NumId 7) 0 of Some (pm, _) \<Rightarrow>
      (case pm_set_link pm (NumId 8) 0 of
         Some (pm', _) \<Rightarrow> pm_internal_id pm' (NumId 7) = Some 0 \<and> pm_external_id pm' 0 = Some (NumId 8)
       | None \<Rightarrow> False)
    | None \<Rightarrow> False) \<and>
   pm_internal_id (replay_changes [Insert (NumId 7) 0, Insert (NumId 8) 0] pm_default) (NumId 7) = None"
  by code_simp

text \<open>C36: The walks over the mappings of a segment are exact: \<open>iter_from\<close> yields every linked id from the given one on,
  with its offset, in the order of the ids (numbers before UUIDs), \<open>iter_internal\<close> does not index past the
  deleted bits and yields, in increasing order, exactly the offsets that are linked, the number of available points is
  their number, so that subtracting it from the total cannot underflow.\<close>

theorem mappings_walks_exact:
  assumes "mappings_inv pm" "pm_total_point_count pm < 2 ^ 32"
  shows "sorted_wrt (<) (map fst (pm_iter_from pm from)) \<and>
    (\<forall>e i. (e, i) \<in> set (pm_iter_from pm from) \<longleftrightarrow>
       pm_internal_id pm e = Some i \<and> (\<forall>e0. from = Some e0 \<longrightarrow> e0 \<le> e)) \<and>
    (\<exists>offsets. pm_iter_internal pm = Some offsets \<and> sorted_wrt (<) offsets \<and>
       set offsets = {i. \<exists>e. pm_internal_id pm e = Some i} \<and>
       pm_available_point_count pm = length offsets \<and>
       pm_available_point_count pm \<le> pm_total_point_count pm)"
proof -
  have wf: "maps_wf pm" using assms(1) by (simp add: mappings_inv_def)
  have "sorted_wrt (<) (the (pm_iter_internal pm))"
    using assms(2)
    by (simp add: pm_iter_internal_eq [OF assms] sorted_wrt_iff_nth_less [where xs = "map of_nat _"] word_less_nat_alt
        unat_of_nat sorted_wrt_filter)
  moreover have "set (the (pm_iter_internal pm)) = {i. \<exists>e. pm_internal_id pm e = Some i}"
    using pm_iter_internal_set [OF assms] by blast
  moreover have "length (the (pm_iter_internal pm)) \<le> pm_total_point_count pm"
    by (simp add: pm_iter_internal_eq [OF assms]) (metis length_filter_le length_map length_upt minus_nat.diff_0)
  ultimately show ?thesis
    using pm_iter_from_sorted [OF wf] pm_iter_from_set [OF wf] pm_available_count [OF assms] pm_iter_internal_eq [OF assms]
    by simp
qed

theorem mappings_walks_exact_witness:
  "\<exists>offsets. pm_iter_internal (replay_changes [Insert (Uuid 3) 0, Insert (NumId 9) 2] pm_default) = Some offsets \<and>
     sorted_wrt (<) offsets"
proof -
  let ?pm = "replay_changes [Insert (Uuid 3) 0, Insert (NumId 9) 2] pm_default"
  have "id_free pm_default (Uuid 3) 0" "offset_free pm_default (Uuid 3) 0" by code_simp+
  then have "mappings_inv (replay_insert pm_default (Uuid 3) 0)"
    by (rule pm_set_link_spec(2) [OF mappings_inv_default])
  moreover have "id_free (replay_insert pm_default (Uuid 3) 0) (NumId 9) 2"
    "offset_free (replay_insert pm_default (Uuid 3) 0) (NumId 9) 2" by code_simp+
  ultimately have "mappings_inv ?pm"
    by (simp add: replay_changes_def pm_set_link_spec(2))
  moreover have "pm_total_point_count ?pm = 3" by code_simp
  ultimately show ?thesis
    using mappings_walks_exact [of ?pm None] by auto
qed

end
