(* ===== verification/IdTracker.thy ===== *)
theory IdTracker
  imports IdMappings
begin

text \<open>
  \<open>lib/segment/src/id_tracker/mutable_id_tracker.rs\<close> and \<open>in_memory_id_tracker.rs\<close> of qdrant: the mappings of a
  segment with the version of every offset. The mutable tracker appends the changes of its mappings to a log file and
  overwrites the versions in a second file when it flushes; loading replays the log. A flusher is a closure that holds
  a copy of the changes at the time of its creation and runs later.

  The files are byte lists (\<open>None\<close>: no such file). Where the operating system can fail, the outcome is an argument
  (\<open>io_fault\<close>), a failed write leaves any prefix of its bytes.
\<close>

section \<open>Entries of the mappings file\<close>

datatype mapping_change_type = InsertNum | InsertUuid | DeleteNum | DeleteUuid

fun change_type :: "mapping_change \<Rightarrow> mapping_change_type" where
  "change_type (Insert (NumId _) _) = InsertNum"
| "change_type (Insert (Uuid _) _) = InsertUuid"
| "change_type (Delete (NumId _)) = DeleteNum"
| "change_type (Delete (Uuid _)) = DeleteUuid"

fun type_byte :: "mapping_change_type \<Rightarrow> u8" where
  "type_byte InsertNum = 1"
| "type_byte InsertUuid = 2"
| "type_byte DeleteNum = 3"
| "type_byte DeleteUuid = 4"

definition from_byte :: "u8 \<Rightarrow> mapping_change_type option" where
  "from_byte b =
     (if b = type_byte InsertNum then Some InsertNum
      else if b = type_byte InsertUuid then Some InsertUuid
      else if b = type_byte DeleteNum then Some DeleteNum
      else if b = type_byte DeleteUuid then Some DeleteUuid
      else None)"

fun operation_size :: "mapping_change_type \<Rightarrow> nat" where
  "operation_size InsertNum = 1 + 8 + 4"
| "operation_size InsertUuid = 1 + 16 + 4"
| "operation_size DeleteNum = 1 + 8"
| "operation_size DeleteUuid = 1 + 16"

text \<open>The UUID of a little-endian number and back: the order of the 16 bytes is reversed.\<close>

definition uuid_from_u128_le :: "128 word \<Rightarrow> uuid" where
  "uuid_from_u128_le x = of_nat (le_value (rev (le_bytes 16 (unat x))))"

definition uuid_to_u128_le :: "uuid \<Rightarrow> 128 word" where
  "uuid_to_u128_le u = of_nat (le_value (rev (le_bytes 16 (unat u))))"

fun write_entry :: "mapping_change \<Rightarrow> u8 list" where
  "write_entry (Insert (NumId num) internal_id) =
     type_byte InsertNum # le_bytes 8 (unat num) @ le_bytes 4 (unat internal_id)"
| "write_entry (Insert (Uuid uuid) internal_id) =
     type_byte InsertUuid # le_bytes 16 (unat (uuid_to_u128_le uuid)) @ le_bytes 4 (unat internal_id)"
| "write_entry (Delete (NumId num)) = type_byte DeleteNum # le_bytes 8 (unat num)"
| "write_entry (Delete (Uuid uuid)) = type_byte DeleteUuid # le_bytes 16 (unat (uuid_to_u128_le uuid))"

datatype read_error = UnexpectedEof | InvalidData u8

type_synonym 'a reader = "u8 list \<Rightarrow> (read_error, 'a \<times> u8 list) result"

definition read_exact :: "nat \<Rightarrow> u8 list reader" where
  "read_exact n bs = (if length bs < n then Inl UnexpectedEof else Inr (take n bs, drop n bs))"

definition read_num :: "point_id reader" where
  "read_num bs = and_then (read_exact 8 bs) (\<lambda>(b, r). Inr (NumId (of_nat (le_value b)), r))"

definition read_uuid :: "point_id reader" where
  "read_uuid bs = and_then (read_exact 16 bs) (\<lambda>(b, r). Inr (Uuid (uuid_from_u128_le (of_nat (le_value b))), r))"

definition read_offset :: "u32 reader" where
  "read_offset bs = and_then (read_exact 4 bs) (\<lambda>(b, r). Inr (of_nat (le_value b), r))"

definition read_entry :: "(mapping_change \<times> nat) reader" where
  "read_entry bs = and_then (read_exact 1 bs) (\<lambda>(b, r1).
     case from_byte (hd b) of
       None \<Rightarrow> Inl (InvalidData (hd b))
     | Some InsertNum \<Rightarrow> and_then (read_num r1) (\<lambda>(e, r2). and_then (read_offset r2) (\<lambda>(i, r3).
         Inr ((Insert e i, operation_size InsertNum), r3)))
     | Some InsertUuid \<Rightarrow> and_then (read_uuid r1) (\<lambda>(e, r2). and_then (read_offset r2) (\<lambda>(i, r3).
         Inr ((Insert e i, operation_size InsertUuid), r3)))
     | Some DeleteNum \<Rightarrow> and_then (read_num r1) (\<lambda>(e, r2). Inr ((Delete e, operation_size DeleteNum), r2))
     | Some DeleteUuid \<Rightarrow> and_then (read_uuid r1) (\<lambda>(e, r2). Inr ((Delete e, operation_size DeleteUuid), r2)))"

lemma read_exact_Inr [result_simps]: "read_exact n bs = Inr (a, r) \<longleftrightarrow> n \<le> length bs \<and> a = take n bs \<and> r = drop n bs"
  by (auto simp: read_exact_def)

lemma read_entry_consumes: "read_entry bs = Inr ((c, n), r) \<Longrightarrow> n \<le> length bs \<and> r = drop n bs \<and> 0 < n"
  by (auto simp: read_entry_def read_num_def read_uuid_def read_offset_def result_simps split: option.splits mapping_change_type.splits)

section \<open>The mappings file\<close>

definition write_mapping_changes :: "mapping_change list \<Rightarrow> u8 list" where
  "write_mapping_changes changes = concat (map write_entry changes)"

text \<open>The items of \<open>read_mappings_iter\<close>, the position after the last one, and the error that ended it.\<close>

function read_mappings_iter :: "u8 list \<Rightarrow> mapping_change list \<times> nat \<times> read_error option" where
  "read_mappings_iter bs =
     (case read_entry bs of
        Inr ((change, read_bytes), rest) \<Rightarrow>
          (let (changes, position, err) = read_mappings_iter rest
           in (change # changes, read_bytes + position, err))
      | Inl UnexpectedEof \<Rightarrow> ([], 0, None)
      | Inl (InvalidData b) \<Rightarrow> ([], 0, Some (InvalidData b)))"
  by pat_completeness auto
termination read_mappings_iter
  by (relation "measure length") (auto dest!: read_entry_consumes)

declare read_mappings_iter.simps [simp del]

datatype tracker_error = ReadFailed read_error | IoFailed | FileTooShort nat nat

text \<open>The result of \<open>load_mappings\<close>: the mappings, the number of bytes read and the file after the call.\<close>

definition load_mappings :: "u8 list \<Rightarrow> (tracker_error, point_mappings \<times> nat \<times> u8 list) result" where
  "load_mappings mappings_file =
     (case read_mappings_iter mappings_file of
        (changes, read_to, Some e) \<Rightarrow> Inl (ReadFailed e)
      | (changes, read_to, None) \<Rightarrow>
          Inr (replay_changes changes pm_default, read_to,
               if read_to < length mappings_file then take read_to mappings_file else mappings_file))"

datatype io_fault = NoFault | FailOpen | FailMetadata | FailTruncate | FailWrite nat | FailSync

text \<open>The result of \<open>store_mapping_changes\<close>: the file, the persisted size and the outcome. The position of the stream is
  the end of the file after a write and 0 when nothing was written.\<close>

definition store_mapping_changes ::
  "io_fault \<Rightarrow> u8 list option \<Rightarrow> mapping_change list \<Rightarrow> nat \<Rightarrow> u8 list option \<times> nat \<times> (tracker_error, unit) result" where
  "store_mapping_changes fault file changes persisted =
     (let f = (case file of Some f \<Rightarrow> f | None \<Rightarrow> []);
          data = write_mapping_changes changes;
          f1 = take persisted f
      in if fault = FailOpen then (file, persisted, Inl IoFailed)
         else if fault = FailMetadata then (Some f, persisted, Inl IoFailed)
         else if length f < persisted then (Some f, persisted, Inl (FileTooShort (length f) persisted))
         else if length f > persisted \<and> fault = FailTruncate then (Some f, persisted, Inl IoFailed)
         else (case fault of
                 FailWrite n \<Rightarrow> (Some (f1 @ take n data), persisted, Inl IoFailed)
               | FailSync \<Rightarrow> (Some (f1 @ data), persisted, Inl IoFailed)
               | _ \<Rightarrow> (Some (f1 @ data), (if data = [] then 0 else length (f1 @ data)), Inr ())))"

definition set_len :: "u8 list \<Rightarrow> nat \<Rightarrow> u8 list" where
  "set_len f n = take n f @ replicate (n - length f) 0"

definition reconcile_persisted_mapping_changes :: "mapping_change list \<Rightarrow> mapping_change list \<Rightarrow> mapping_change list" where
  "reconcile_persisted_mapping_changes pending changes =
     drop (length (takeWhile (\<lambda>(p, q). p = q) (zip pending changes))) pending"

section \<open>The versions file\<close>

definition load_versions :: "u8 list \<Rightarrow> u64 list" where
  "load_versions f = map (\<lambda>i. of_nat (le_value (slice f (8 * i) (8 * i + 8)))) [0 ..< length f div 8]"

text \<open>A write at a position, which fills a gap after the end with zeros.\<close>

definition write_at :: "u8 list \<Rightarrow> nat \<Rightarrow> u8 list \<Rightarrow> u8 list" where
  "write_at f pos bs = (if bs = [] then f else take pos f @ replicate (pos - length f) 0 @ bs @ drop (pos + length bs) f)"

text \<open>The writer keeps its position, seeks only when the next offset is elsewhere, and stops after \<open>budget\<close> bytes
  when the write fails.\<close>

fun write_version_changes :: "nat option \<Rightarrow> nat \<Rightarrow> (u32, u64) btree \<Rightarrow> u8 list \<Rightarrow> u8 list" where
  "write_version_changes budget position [] f = f"
| "write_version_changes budget position ((internal_id, version) # changes) f =
     (let offset = unat internal_id * 8;
          position1 = (if offset \<noteq> position then offset else position);
          bytes = le_bytes 8 (unat version)
      in case budget of
           None \<Rightarrow> write_version_changes None (position1 + 8) changes (write_at f position1 bytes)
         | Some n \<Rightarrow>
             if n < 8 then write_at f position1 (take n bytes)
             else write_version_changes (Some (n - 8)) (position1 + 8) changes (write_at f position1 bytes))"

definition store_version_changes ::
  "io_fault \<Rightarrow> u8 list option \<Rightarrow> (u32, u64) btree \<Rightarrow> u8 list option \<times> (tracker_error, unit) result" where
  "store_version_changes fault file changes =
     (let f = (case file of Some f \<Rightarrow> f | None \<Rightarrow> []);
          valid_len = length f div 8 * 8;
          f1 = (if length f \<noteq> valid_len then set_len f valid_len else f)
      in if changes = [] then (file, Inr ())
         else if fault = FailOpen then (file, Inl IoFailed)
         else if fault = FailMetadata then (Some f, Inl IoFailed)
         else if length f \<noteq> valid_len \<and> fault = FailTruncate then (Some f, Inl IoFailed)
         else (case fault of
                 FailWrite n \<Rightarrow> (Some (write_version_changes (Some n) 0 changes f1), Inl IoFailed)
               | FailSync \<Rightarrow> (Some (write_version_changes None 0 changes f1), Inl IoFailed)
               | _ \<Rightarrow> (Some (write_version_changes None 0 changes f1), Inr ())))"

definition reconcile_persisted_version_changes :: "(u32, u64) btree \<Rightarrow> (u32, u64) btree \<Rightarrow> (u32, u64) btree" where
  "reconcile_persisted_version_changes pending changes =
     filter (\<lambda>(point_offset, pending_version).
       case map_of changes point_offset of
         None \<Rightarrow> True
       | Some persisted_version \<Rightarrow> pending_version \<noteq> persisted_version) pending"

section \<open>The mutable tracker\<close>

record id_tracker =
  it_versions :: "u64 list"
  it_mappings :: point_mappings
  it_pending_versions :: "(u32, u64) btree"
  it_pending_mappings :: "mapping_change list"
  it_expected_len :: nat

record id_files =
  f_mappings :: "u8 list option"
  f_versions :: "u8 list option"

definition deleted_point_version :: u64 where
  "deleted_point_version = 0"

definition it_open :: "id_files \<Rightarrow> (tracker_error, id_tracker \<times> id_files) result" where
  "it_open fs =
     and_then (case f_mappings fs of
         Some f \<Rightarrow> and_then (load_mappings f) (\<lambda>(pm, read_to, f'). Inr (pm, read_to, fs\<lparr>f_mappings := Some f'\<rparr>))
       | None \<Rightarrow> Inr (pm_default, 0, fs))
     (\<lambda>(mappings, expected_len, fs1).
        Inr (\<lparr>it_versions = (case f_versions fs1 of Some f \<Rightarrow> load_versions f | None \<Rightarrow> []),
              it_mappings = mappings, it_pending_versions = [], it_pending_mappings = [],
              it_expected_len = expected_len\<rparr>, fs1))"

definition it_internal_version :: "id_tracker \<Rightarrow> u32 \<Rightarrow> u64 option" where
  "it_internal_version t internal_id = vec_get (it_versions t) (unat internal_id)"

definition it_set_internal_version :: "u32 \<Rightarrow> u64 \<Rightarrow> id_tracker \<Rightarrow> id_tracker" where
  "it_set_internal_version internal_id version t =
     t\<lparr>it_versions := (vec_reserve (it_versions t) (unat internal_id) 0)[unat internal_id := version],
       it_pending_versions := bt_insert internal_id version (it_pending_versions t)\<rparr>"

definition it_set_link :: "point_id \<Rightarrow> u32 \<Rightarrow> id_tracker \<Rightarrow> id_tracker option" where
  "it_set_link external_id internal_id t =
     (case pm_set_link (it_mappings t) external_id internal_id of
        None \<Rightarrow> None
      | Some (pm, _) \<Rightarrow>
          Some (t\<lparr>it_mappings := pm,
                  it_pending_mappings := it_pending_mappings t @ [Insert external_id internal_id]\<rparr>))"

definition it_drop :: "point_id \<Rightarrow> id_tracker \<Rightarrow> id_tracker option" where
  "it_drop external_id t =
     (case pm_drop (it_mappings t) external_id of
        None \<Rightarrow> None
      | Some (pm, internal_id) \<Rightarrow>
          (let t1 = t\<lparr>it_mappings := pm, it_pending_mappings := it_pending_mappings t @ [Delete external_id]\<rparr>
           in Some (case internal_id of
                      Some i \<Rightarrow> it_set_internal_version i deleted_point_version t1
                    | None \<Rightarrow> t1)))"

definition it_drop_internal :: "u32 \<Rightarrow> id_tracker \<Rightarrow> id_tracker option" where
  "it_drop_internal internal_id t =
     map_option (it_set_internal_version internal_id deleted_point_version)
       (case pm_external_id (it_mappings t) internal_id of
          None \<Rightarrow> Some t
        | Some external_id \<Rightarrow>
            (case pm_drop (it_mappings t) external_id of
               None \<Rightarrow> None
             | Some (pm, _) \<Rightarrow>
                 Some (t\<lparr>it_mappings := pm,
                         it_pending_mappings := it_pending_mappings t @ [Delete external_id]\<rparr>)))"

definition it_deleted_point_count :: "id_tracker \<Rightarrow> nat" where
  "it_deleted_point_count t = pm_total_point_count (it_mappings t) - pm_available_point_count (it_mappings t)"

definition it_iter_internal_versions :: "id_tracker \<Rightarrow> (u32 \<times> u64) list" where
  "it_iter_internal_versions t = map (\<lambda>(i, v). (of_nat i, v)) (enumerate 0 (it_versions t))"

text \<open>A flusher without pending changes is the closure that returns \<open>Ok\<close>. \<open>alive\<close> says whether the tracker still exists
  when the closure runs, \<open>truncates\<close> whether the attempt to truncate the file after a failure succeeds.\<close>

type_synonym mapping_flusher = "mapping_change list option"
type_synonym versions_flusher = "(u32, u64) btree option"

definition it_mapping_flusher :: "id_tracker \<Rightarrow> mapping_flusher" where
  "it_mapping_flusher t = (if it_pending_mappings t = [] then None else Some (it_pending_mappings t))"

definition run_mapping_flusher ::
  "bool \<Rightarrow> io_fault \<Rightarrow> bool \<Rightarrow> mapping_flusher \<Rightarrow> id_tracker \<times> id_files \<Rightarrow> (id_tracker \<times> id_files) \<times> (tracker_error, unit) result" where
  "run_mapping_flusher alive fault truncates flusher = (\<lambda>(t, fs).
     case flusher of
       None \<Rightarrow> ((t, fs), Inr ())
     | Some changes \<Rightarrow>
         if \<not> alive then ((t, fs), Inr ())
         else (case store_mapping_changes fault (f_mappings fs) changes (it_expected_len t) of
                 (file, persisted, Inl e) \<Rightarrow>
                   ((t\<lparr>it_expected_len := persisted\<rparr>,
                     fs\<lparr>f_mappings := (if truncates then map_option (\<lambda>f. set_len f persisted) file else file)\<rparr>), Inl e)
               | (file, persisted, Inr _) \<Rightarrow>
                   ((t\<lparr>it_expected_len := persisted,
                       it_pending_mappings := reconcile_persisted_mapping_changes (it_pending_mappings t) changes\<rparr>,
                     fs\<lparr>f_mappings := file\<rparr>), Inr ())))"

definition it_versions_flusher :: "id_tracker \<Rightarrow> versions_flusher" where
  "it_versions_flusher t = (if it_pending_versions t = [] then None else Some (it_pending_versions t))"

definition run_versions_flusher ::
  "bool \<Rightarrow> io_fault \<Rightarrow> versions_flusher \<Rightarrow> id_tracker \<times> id_files \<Rightarrow> (id_tracker \<times> id_files) \<times> (tracker_error, unit) result" where
  "run_versions_flusher alive fault flusher = (\<lambda>(t, fs).
     case flusher of
       None \<Rightarrow> ((t, fs), Inr ())
     | Some changes \<Rightarrow>
         if \<not> alive then ((t, fs), Inr ())
         else (case store_version_changes fault (f_versions fs) changes of
                 (file, Inl e) \<Rightarrow> ((t, fs\<lparr>f_versions := file\<rparr>), Inl e)
               | (file, Inr _) \<Rightarrow>
                   ((t\<lparr>it_pending_versions := reconcile_persisted_version_changes (it_pending_versions t) changes\<rparr>,
                     fs\<lparr>f_versions := file\<rparr>), Inr ())))"

section \<open>Repairing mappings and versions after a crash\<close>

text \<open>\<open>fix_inconsistencies\<close> of \<open>id_tracker_base.rs\<close>: offsets to clean up elsewhere, and the mapped points without a version
  dropped.\<close>

definition it_drop_all :: "point_id list \<Rightarrow> id_tracker \<Rightarrow> id_tracker option" where
  "it_drop_all to_remove t = fold (\<lambda>e r. Option.bind r (it_drop e)) to_remove (Some t)"

definition fix_inconsistencies :: "id_tracker \<Rightarrow> (id_tracker \<times> u32 list) option" where
  "fix_inconsistencies t =
     (let unmapped = map fst (filter (\<lambda>(i, v). v \<noteq> deleted_point_version \<and> pm_external_id (it_mappings t) i = None)
                                (it_iter_internal_versions t))
      in case pm_iter_internal (it_mappings t) of
           None \<Rightarrow> None
         | Some offsets \<Rightarrow>
             (let unversioned = filter (\<lambda>i. it_internal_version t i = None \<and> pm_external_id (it_mappings t) i \<noteq> None) offsets;
                  to_remove = map (\<lambda>i. the (pm_external_id (it_mappings t) i)) unversioned
              in map_option (\<lambda>t'. (t', unmapped @ unversioned)) (it_drop_all to_remove t)))"

section \<open>The in-memory tracker\<close>

record memory_tracker =
  mt_versions :: "u64 list"
  mt_mappings :: point_mappings

definition mt_set_internal_version :: "u32 \<Rightarrow> u64 \<Rightarrow> memory_tracker \<Rightarrow> memory_tracker" where
  "mt_set_internal_version internal_id version t =
     (if pm_external_id (mt_mappings t) internal_id \<noteq> None
      then t\<lparr>mt_versions :=
             (if unat internal_id < length (mt_versions t) then (mt_versions t)[unat internal_id := version]
              else (vec_reserve (mt_versions t) (unat internal_id) 0)[unat internal_id := version])\<rparr>
      else t)"

definition mt_set_link :: "point_id \<Rightarrow> u32 \<Rightarrow> memory_tracker \<Rightarrow> memory_tracker option" where
  "mt_set_link external_id internal_id t =
     map_option (\<lambda>(pm, _). t\<lparr>mt_mappings := pm\<rparr>) (pm_set_link (mt_mappings t) external_id internal_id)"

definition mt_drop :: "point_id \<Rightarrow> memory_tracker \<Rightarrow> memory_tracker option" where
  "mt_drop external_id t =
     (let t1 = (case pm_internal_id (mt_mappings t) external_id of
                  Some internal_id \<Rightarrow> mt_set_internal_version internal_id deleted_point_version t
                | None \<Rightarrow> t)
      in map_option (\<lambda>(pm, _). t1\<lparr>mt_mappings := pm\<rparr>) (pm_drop (mt_mappings t1) external_id))"

definition mt_drop_internal :: "u32 \<Rightarrow> memory_tracker \<Rightarrow> memory_tracker option" where
  "mt_drop_internal internal_id t =
     (let t1 = mt_set_internal_version internal_id deleted_point_version t
      in case pm_external_id (mt_mappings t1) internal_id of
           None \<Rightarrow> Some t1
         | Some external_id \<Rightarrow> map_option (\<lambda>(pm, _). t1\<lparr>mt_mappings := pm\<rparr>) (pm_drop (mt_mappings t1) external_id))"

end
