(* ===== verification/IdTrackerRecovery.thy ===== *)
theory IdTrackerRecovery
  imports IdTracker
begin

text \<open>
  What the files of the mutable id tracker promise: entries are read back as they were written and a torn one reads as the end
  of the file, the versions file holds the versions, and through any sequence of changes, captured flushes, failed flushes and
  crashes a reload finds the mappings of a prefix of the changes that contains everything flushed.
\<close>

section \<open>Entries\<close>

lemma le_bytes_le_value: "le_bytes (length bs) (le_value bs) = bs"
proof (induction bs)
  case (Cons b bs)
  have "unat b < 256" using unsigned_less [of b, where ?'a = nat] by simp
  then show ?case using Cons by (simp add: le_value_bound)
qed simp

lemma uuid_swap: "of_nat (le_value (rev (le_bytes 16 (unat (of_nat (le_value (rev (le_bytes 16 (unat u)))) :: 128 word))))) = (u :: 128 word)"
proof -
  let ?bs = "le_bytes 16 (unat u)"
  have "le_value (rev ?bs) < 2 ^ 128" using le_value_bound [of "rev ?bs"] by simp
  then have "unat (of_nat (le_value (rev ?bs)) :: 128 word) = le_value (rev ?bs)" by (simp add: unat_of_nat)
  then have "le_bytes 16 (unat (of_nat (le_value (rev ?bs)) :: 128 word)) = rev ?bs"
    using le_bytes_le_value [of "rev ?bs"] by simp
  moreover have "unat u < 256 ^ 16" using unsigned_less [of u, where ?'a = nat] by simp
  ultimately show ?thesis by (simp add: le_value_le_bytes)
qed

lemma uuid_from_to [simp]: "uuid_from_u128_le (uuid_to_u128_le u) = u"
  unfolding uuid_from_u128_le_def uuid_to_u128_le_def by (rule uuid_swap)

lemma read_exact_append [simp]: "length bs = n \<Longrightarrow> read_exact n (bs @ r) = Inr (bs, r)"
  by (simp add: read_exact_def)

lemma read_exact_short: "length bs < n \<Longrightarrow> read_exact n bs = Inl UnexpectedEof"
  by (simp add: read_exact_def)

lemma unat_bounds:
  "unat (w8 :: u64) < 256 ^ 8" "unat (w16 :: 128 word) < 256 ^ 16" "unat (w4 :: u32) < 256 ^ 4"
  using unsigned_less [of w8, where ?'a = nat] unsigned_less [of w16, where ?'a = nat] unsigned_less [of w4, where ?'a = nat]
  by simp_all

lemma le_value_le_bytes_word [simp]:
  "of_nat (le_value (le_bytes 8 (unat (w8 :: u64)))) = w8"
  "of_nat (le_value (le_bytes 16 (unat (w16 :: 128 word)))) = w16"
  "of_nat (le_value (le_bytes 4 (unat (w4 :: u32)))) = w4"
  by (simp_all add: le_value_le_bytes [OF unat_bounds(1)] le_value_le_bytes [OF unat_bounds(2)] le_value_le_bytes [OF unat_bounds(3)])

lemma from_byte_type_byte [simp]: "from_byte (type_byte t) = Some t"
  by (cases t) (simp_all add: from_byte_def)

lemma read_entry_Cons:
  "read_entry (b # bs) =
     (case from_byte b of
       None \<Rightarrow> Inl (InvalidData b)
     | Some InsertNum \<Rightarrow> and_then (read_num bs) (\<lambda>(e, r2). and_then (read_offset r2) (\<lambda>(i, r3).
         Inr ((Insert e i, operation_size InsertNum), r3)))
     | Some InsertUuid \<Rightarrow> and_then (read_uuid bs) (\<lambda>(e, r2). and_then (read_offset r2) (\<lambda>(i, r3).
         Inr ((Insert e i, operation_size InsertUuid), r3)))
     | Some DeleteNum \<Rightarrow> and_then (read_num bs) (\<lambda>(e, r2). Inr ((Delete e, operation_size DeleteNum), r2))
     | Some DeleteUuid \<Rightarrow> and_then (read_uuid bs) (\<lambda>(e, r2). Inr ((Delete e, operation_size DeleteUuid), r2)))"
  by (simp add: read_entry_def read_exact_def cong: option.case_cong)

lemma read_entry_Nil [simp]: "read_entry [] = Inl UnexpectedEof"
  by (simp add: read_entry_def read_exact_def)

lemma read_fields [simp]:
  "read_num (le_bytes 8 (unat num) @ r) = Inr (NumId num, r)"
  "read_uuid (le_bytes 16 (unat (uuid_to_u128_le uuid)) @ r) = Inr (Uuid uuid, r)"
  "read_offset (le_bytes 4 (unat i) @ r) = Inr (i, r)"
  by (simp_all add: read_num_def read_uuid_def read_offset_def)

lemma length_write_entry: "length (write_entry c) = operation_size (change_type c)"
  by (cases c rule: write_entry.cases) simp_all

lemma read_entry_write_entry: "read_entry (write_entry c @ r) = Inr ((c, length (write_entry c)), r)"
  unfolding length_write_entry
  by (cases c rule: write_entry.cases) (simp_all add: read_entry_Cons del: type_byte.simps operation_size.simps)

lemma read_fields_short:
  "length bs < 8 \<Longrightarrow> read_num bs = Inl UnexpectedEof"
  "length bs < 16 \<Longrightarrow> read_uuid bs = Inl UnexpectedEof"
  "length bs < 4 \<Longrightarrow> read_offset bs = Inl UnexpectedEof"
  by (simp_all add: read_num_def read_uuid_def read_offset_def read_exact_short)

lemma read_entry_torn:
  assumes "n < length (write_entry c)"
  shows "read_entry (take n (write_entry c)) = Inl UnexpectedEof"
proof (cases n)
  case (Suc m)
  show ?thesis
  proof (cases c rule: write_entry.cases)
    case (1 num i)
    then show ?thesis
      using assms Suc
      by (cases "m < 8") (simp_all add: read_entry_Cons read_fields_short not_less del: type_byte.simps)
  next
    case (2 uuid i)
    then show ?thesis
      using assms Suc
      by (cases "m < 16") (simp_all add: read_entry_Cons read_fields_short not_less del: type_byte.simps)
  next
    case (3 num)
    then show ?thesis using assms Suc by (simp add: read_entry_Cons read_fields_short del: type_byte.simps)
  next
    case (4 uuid)
    then show ?thesis using assms Suc by (simp add: read_entry_Cons read_fields_short del: type_byte.simps)
  qed
qed simp

section \<open>The mappings file\<close>

lemma write_mapping_changes_simps [simp]:
  "write_mapping_changes [] = []"
  "write_mapping_changes (c # cs) = write_entry c @ write_mapping_changes cs"
  "write_mapping_changes (cs @ ds) = write_mapping_changes cs @ write_mapping_changes ds"
  by (simp_all add: write_mapping_changes_def)

lemma write_entry_not_Nil [simp]: "write_entry c \<noteq> []"
  by (cases c rule: write_entry.cases) simp_all

lemma write_mapping_changes_Nil [simp]: "write_mapping_changes cs = [] \<longleftrightarrow> cs = []"
  by (cases cs) simp_all

lemma read_mappings_iter_written:
  assumes "read_entry tail = Inl UnexpectedEof"
  shows "read_mappings_iter (write_mapping_changes cs @ tail) = (cs, length (write_mapping_changes cs), None)"
proof (induction cs)
  case Nil
  then show ?case using assms by (simp add: read_mappings_iter.simps)
next
  case (Cons c cs)
  then show ?case
    by (subst read_mappings_iter.simps) (simp add: read_entry_write_entry)
qed

text \<open>A prefix of a written log is a log of fewer changes and a torn entry.\<close>

lemma torn_log:
  obtains k tail where "k \<le> length cs" "take n (write_mapping_changes cs) = write_mapping_changes (take k cs) @ tail"
    "read_entry tail = Inl UnexpectedEof"
proof -
  have "\<exists>k tail. k \<le> length cs \<and> take n (write_mapping_changes cs) = write_mapping_changes (take k cs) @ tail \<and>
      read_entry tail = Inl UnexpectedEof"
  proof (induction cs arbitrary: n)
    case (Cons c cs)
    show ?case
    proof (cases "n < length (write_entry c)")
      case True
      then show ?thesis by (intro exI [of _ 0] exI [of _ "take n (write_entry c)"]) (simp add: read_entry_torn)
    next
      case False
      obtain k tail where "k \<le> length cs" "read_entry tail = Inl UnexpectedEof"
        "take (n - length (write_entry c)) (write_mapping_changes cs) = write_mapping_changes (take k cs) @ tail"
        using Cons [of "n - length (write_entry c)"] by blast
      with False show ?thesis by (intro exI [of _ "Suc k"] exI [of _ tail]) simp
    qed
  qed simp
  then show ?thesis using that by blast
qed

lemma load_mappings_written:
  assumes "read_entry tail = Inl UnexpectedEof"
  shows "load_mappings (write_mapping_changes cs @ tail) =
    Inr (replay_changes cs pm_default, length (write_mapping_changes cs), write_mapping_changes cs)"
  using assms by (auto simp: load_mappings_def read_mappings_iter_written)

lemma load_mappings_torn:
  obtains k where "k \<le> length ds"
    "load_mappings (write_mapping_changes cs @ take n (write_mapping_changes ds)) =
       Inr (replay_changes (cs @ take k ds) pm_default, length (write_mapping_changes (cs @ take k ds)),
            write_mapping_changes (cs @ take k ds))"
proof -
  obtain k tail where "k \<le> length ds" "take n (write_mapping_changes ds) = write_mapping_changes (take k ds) @ tail"
    and tail: "read_entry tail = Inl UnexpectedEof"
    by (rule torn_log)
  then show ?thesis using that load_mappings_written [OF tail, of "cs @ take k ds"] by simp
qed

section \<open>Runs of a tracker\<close>

text \<open>A run of the tracker with its files: \<open>run_history\<close> records the changes of the mappings, \<open>run_durable\<close> how many of them
  there were when the flusher that last succeeded was created. At most one flusher of each kind is outstanding. A crash leaves
  the files as they are, also after a flush that failed half-way and whose truncation failed too; the tracker is opened again.\<close>

record tracker_run =
  run_history :: "mapping_change list"
  run_durable :: nat
  run_tracker :: id_tracker
  run_files :: id_files
  run_flusher :: "(mapping_flusher \<times> nat) option"
  run_vflusher :: "versions_flusher option"

definition run_init :: tracker_run where
  "run_init = \<lparr>run_history = [], run_durable = 0,
     run_tracker = \<lparr>it_versions = [], it_mappings = pm_default, it_pending_versions = [], it_pending_mappings = [],
                    it_expected_len = 0\<rparr>,
     run_files = \<lparr>f_mappings = None, f_versions = None\<rparr>, run_flusher = None, run_vflusher = None\<rparr>"

definition logged :: "u8 list option \<Rightarrow> mapping_change list" where
  "logged file = (case file of None \<Rightarrow> [] | Some f \<Rightarrow> fst (read_mappings_iter f))"

inductive tracker_step :: "tracker_run \<Rightarrow> tracker_run \<Rightarrow> bool" where
  link: "id_free (it_mappings (run_tracker r)) e i \<Longrightarrow> offset_free (it_mappings (run_tracker r)) e i \<Longrightarrow>
    it_set_link e i (run_tracker r) = Some t \<Longrightarrow>
    tracker_step r (r\<lparr>run_history := run_history r @ [Insert e i], run_tracker := t\<rparr>)"
| drop: "it_drop e (run_tracker r) = Some t \<Longrightarrow>
    tracker_step r (r\<lparr>run_history := run_history r @ [Delete e], run_tracker := t\<rparr>)"
| drop_internal: "it_drop_internal i (run_tracker r) = Some t \<Longrightarrow>
    tracker_step r (r\<lparr>run_history := run_history r @
        (case pm_external_id (it_mappings (run_tracker r)) i of None \<Rightarrow> [] | Some e \<Rightarrow> [Delete e]), run_tracker := t\<rparr>)"
| version: "tracker_step r (r\<lparr>run_tracker := it_set_internal_version i v (run_tracker r)\<rparr>)"
| capture: "run_flusher r = None \<Longrightarrow>
    tracker_step r (r\<lparr>run_flusher := Some (it_mapping_flusher (run_tracker r), length (run_history r))\<rparr>)"
| flush: "run_flusher r = Some (fl, n) \<Longrightarrow>
    run_mapping_flusher True fault truncates fl (run_tracker r, run_files r) = ((t, fs), res) \<Longrightarrow>
    tracker_step r (r\<lparr>run_tracker := t, run_files := fs, run_flusher := None,
      run_durable := (case res of Inr _ \<Rightarrow> n | Inl _ \<Rightarrow> run_durable r)\<rparr>)"
| vcapture: "run_vflusher r = None \<Longrightarrow>
    tracker_step r (r\<lparr>run_vflusher := Some (it_versions_flusher (run_tracker r))\<rparr>)"
| vflush: "run_vflusher r = Some fl \<Longrightarrow>
    run_versions_flusher True fault fl (run_tracker r, run_files r) = ((t, fs), res) \<Longrightarrow>
    tracker_step r (r\<lparr>run_tracker := t, run_files := fs, run_vflusher := None\<rparr>)"
| crash: "it_open (run_files r) = Inr (t, fs) \<Longrightarrow>
    tracker_step r (r\<lparr>run_history := logged (f_mappings (run_files r)),
      run_durable := length (logged (f_mappings (run_files r))),
      run_tracker := t, run_files := fs, run_flusher := None, run_vflusher := None\<rparr>)"

abbreviation tracker_reachable :: "tracker_run \<Rightarrow> bool" where
  "tracker_reachable \<equiv> tracker_step\<^sup>*\<^sup>* run_init"

section \<open>The mappings of a run\<close>

definition log_inv :: "mapping_change list \<Rightarrow> nat \<Rightarrow> id_tracker \<Rightarrow> u8 list option \<Rightarrow> bool" where
  "log_inv h d t file \<longleftrightarrow>
     d \<le> length h \<and> it_pending_mappings t = drop d h \<and> it_expected_len t = length (write_mapping_changes (take d h)) \<and>
     (case file of
        None \<Rightarrow> d = 0
      | Some f \<Rightarrow> \<exists>n. f = write_mapping_changes (take d h) @ take n (write_mapping_changes (drop d h)))"

definition flusher_inv :: "mapping_change list \<Rightarrow> nat \<Rightarrow> (mapping_flusher \<times> nat) option \<Rightarrow> bool" where
  "flusher_inv h d captured \<longleftrightarrow>
     (case captured of
        None \<Rightarrow> True
      | Some (None, n) \<Rightarrow> n = d
      | Some (Some changes, n) \<Rightarrow> changes \<noteq> [] \<and> n = d + length changes \<and> n \<le> length h \<and> changes = take (length changes) (drop d h))"

definition run_inv :: "tracker_run \<Rightarrow> bool" where
  "run_inv r \<longleftrightarrow>
     it_mappings (run_tracker r) = replay_changes (run_history r) pm_default \<and>
     (\<forall>k. mappings_inv (replay_changes (take k (run_history r)) pm_default)) \<and>
     log_inv (run_history r) (run_durable r) (run_tracker r) (f_mappings (run_files r)) \<and>
     flusher_inv (run_history r) (run_durable r) (run_flusher r)"

lemma replay_changes_simps [simp]:
  "replay_changes [] pm = pm"
  "replay_changes (cs @ [c]) pm = replay_change c (replay_changes cs pm)"
  by (simp_all add: replay_changes_def)

lemma run_inv_init: "run_inv run_init"
  by (simp add: run_inv_def run_init_def mappings_inv_default log_inv_def flusher_inv_def)

lemma log_inv_append:
  assumes "log_inv h d t file" "it_pending_mappings t' = it_pending_mappings t @ [c]" "it_expected_len t' = it_expected_len t"
  shows "log_inv (h @ [c]) d t' file"
proof -
  have "\<exists>n'. take n (write_mapping_changes (drop d h)) = take n' (write_mapping_changes (drop d h) @ write_entry c)" for n
    by (rule exI [of _ "min n (length (write_mapping_changes (drop d h)))"]) (simp add: min_def)
  then show ?thesis using assms by (auto simp: log_inv_def split: option.splits)
qed

lemma flusher_inv_append: "flusher_inv h d fl \<Longrightarrow> d \<le> length h \<Longrightarrow> flusher_inv (h @ [c]) d fl"
  by (auto simp: flusher_inv_def split: option.splits)

lemma log_inv_version: "log_inv h d (it_set_internal_version i v t) file \<longleftrightarrow> log_inv h d t file"
  by (simp add: log_inv_def it_set_internal_version_def)

lemma it_mappings_version [simp]:
  "it_mappings (it_set_internal_version i v t) = it_mappings t"
  "it_pending_mappings (it_set_internal_version i v t) = it_pending_mappings t"
  "it_expected_len (it_set_internal_version i v t) = it_expected_len t"
  by (simp_all add: it_set_internal_version_def)

lemma it_set_link_spec:
  assumes "mappings_inv (it_mappings t)" "id_free (it_mappings t) e i" "offset_free (it_mappings t) e i"
  shows "it_set_link e i t = Some (t\<lparr>it_mappings := replay_insert (it_mappings t) e i,
    it_pending_mappings := it_pending_mappings t @ [Insert e i]\<rparr>)"
  using pm_set_link_spec(1) [OF assms] by (simp add: it_set_link_def)

lemma it_drop_spec:
  assumes "mappings_inv (it_mappings t)"
  shows "it_drop e t = Some ((case pm_internal_id (it_mappings t) e of
      Some i \<Rightarrow> it_set_internal_version i deleted_point_version | None \<Rightarrow> \<lambda>t. t)
    (t\<lparr>it_mappings := replay_delete (it_mappings t) e, it_pending_mappings := it_pending_mappings t @ [Delete e]\<rparr>))"
  by (simp add: it_drop_def pm_drop_spec [OF assms] split: option.split)

lemma it_drop_internal_spec:
  assumes "mappings_inv (it_mappings t)"
  shows "it_drop_internal i t = Some (it_set_internal_version i deleted_point_version
    (case pm_external_id (it_mappings t) i of
       None \<Rightarrow> t
     | Some e \<Rightarrow> t\<lparr>it_mappings := replay_delete (it_mappings t) e, it_pending_mappings := it_pending_mappings t @ [Delete e]\<rparr>))"
  by (simp add: it_drop_internal_def pm_drop_spec [OF assms] split: option.split)

lemma reconcile_prefix:
  assumes "changes = take m pending"
  shows "reconcile_persisted_mapping_changes pending changes = drop (length changes) pending"
proof -
  have "takeWhile (\<lambda>(p, q). p = q) (zip pending (take m pending)) = zip pending (take m pending)"
    by (auto simp: takeWhile_eq_all_conv in_set_zip)
  then show ?thesis unfolding reconcile_persisted_mapping_changes_def assms by (simp only:) simp
qed

definition file_bytes :: "u8 list option \<Rightarrow> u8 list" where
  "file_bytes file = (case file of None \<Rightarrow> [] | Some f \<Rightarrow> f)"

text \<open>What a flush leaves in the file: the durable log, then a prefix of the captured changes or what was there before; on
  success exactly the captured changes.\<close>

lemma store_mapping_changes_file:
  assumes inv: "log_inv h d t file"
    and run: "store_mapping_changes fault file changes (it_expected_len t) = (file', persisted, res)"
  shows "case res of
      Inr _ \<Rightarrow> file' = Some (write_mapping_changes (take d h @ changes)) \<and>
        persisted = (if changes = [] then 0 else length (write_mapping_changes (take d h @ changes)))
    | Inl _ \<Rightarrow> persisted = it_expected_len t \<and>
        (file' = file \<or> (\<exists>n. file' = Some (write_mapping_changes (take d h) @ take n (write_mapping_changes changes))) \<or>
         file' = Some (file_bytes file))"
proof -
  have len: "it_expected_len t \<le> length (file_bytes file)"
    and pre: "take (it_expected_len t) (file_bytes file) = write_mapping_changes (take d h)"
    using inv by (auto simp: log_inv_def file_bytes_def split: option.splits)
  have all: "\<exists>n. xs = take n xs" for xs :: "u8 list"
    by (rule exI [of _ "length xs"]) simp
  note unfolded = run [unfolded store_mapping_changes_def Let_def file_bytes_def [symmetric] pre]
  show ?thesis
    using unfolded len all by (cases fault) (auto split: if_splits)
qed

lemma run_mapping_flusher_log:
  assumes inv: "log_inv h d t (f_mappings fs)" and changes: "changes = take m (drop d h)" "changes \<noteq> []"
    and run: "run_mapping_flusher True fault truncates (Some changes) (t, fs) = ((t', fs'), res)"
  shows "log_inv h (case res of Inr _ \<Rightarrow> d + length changes | Inl _ \<Rightarrow> d) t' (f_mappings fs')"
proof -
  obtain file' persisted r where st: "store_mapping_changes fault (f_mappings fs) changes (it_expected_len t) = (file', persisted, r)"
    by (cases "store_mapping_changes fault (f_mappings fs) changes (it_expected_len t)")
  note stored = store_mapping_changes_file [OF inv st]
  have set_len_0: "set_len [] 0 = []" by (simp add: set_len_def)
  have d: "d \<le> length h" "it_expected_len t = length (write_mapping_changes (take d h))" "it_pending_mappings t = drop d h"
    using inv by (simp_all add: log_inv_def)
  show ?thesis
  proof (cases r)
    case (Inl e)
    have "\<exists>n'. take n (write_mapping_changes changes) = take n' (write_mapping_changes (drop d h))" for n
    proof -
      have "write_mapping_changes (drop d h) = write_mapping_changes changes @ write_mapping_changes (drop m (drop d h))"
        using changes(1) by (metis append_take_drop_id write_mapping_changes_simps(3))
      then show ?thesis
        by (intro exI [of _ "min n (length (write_mapping_changes changes))"]) (simp add: min_def)
    qed
    moreover have "\<exists>n. set_len (write_mapping_changes (take d h) @ take k x) (it_expected_len t) =
        write_mapping_changes (take d h) @ take n y" for k and x y :: "u8 list"
      using d by (intro exI [of _ 0]) (simp add: set_len_def)
    ultimately have "log_inv h d t' (f_mappings fs') \<and> res = Inl e"
      using run st Inl stored inv d
      by (auto simp: run_mapping_flusher_def log_inv_def file_bytes_def set_len_0 split: option.splits if_splits)
    then show ?thesis by simp
  next
    case (Inr u)
    have "t' = t\<lparr>it_expected_len := persisted,
        it_pending_mappings := reconcile_persisted_mapping_changes (it_pending_mappings t) changes\<rparr>"
      and fs': "fs' = fs\<lparr>f_mappings := file'\<rparr>" "res = Inr ()"
      using run st Inr by (auto simp: run_mapping_flusher_def)
    moreover have "take (d + length changes) h = take d h @ changes"
      using changes(1) by (auto simp: take_add min_def)
    moreover have "d + length changes \<le> length h" using changes(1) d(1) by auto
    ultimately show ?thesis
      using stored Inr changes(2) reconcile_prefix [OF changes(1)] d
      by (auto simp: log_inv_def add.commute)
  qed
qed

lemma run_mapping_flusher_other:
  "run_mapping_flusher alive fault truncates fl (t, fs) = ((t', fs'), res) \<Longrightarrow>
    it_mappings t' = it_mappings t \<and> it_versions t' = it_versions t \<and> it_pending_versions t' = it_pending_versions t \<and>
    f_versions fs' = f_versions fs"
  by (auto simp: run_mapping_flusher_def split: option.splits if_splits prod.splits sum.splits)

lemma run_versions_flusher_other:
  "run_versions_flusher alive fault fl (t, fs) = ((t', fs'), res) \<Longrightarrow>
    it_mappings t' = it_mappings t \<and> it_versions t' = it_versions t \<and> it_pending_mappings t' = it_pending_mappings t \<and>
    it_expected_len t' = it_expected_len t \<and> f_mappings fs' = f_mappings fs"
  by (auto simp: run_versions_flusher_def split: option.splits if_splits prod.splits sum.splits)

lemma it_open_logged:
  assumes "log_inv h d t file" "file = f_mappings fs"
  obtains k t' fs' where "it_open fs = Inr (t', fs')" "d \<le> k" "k \<le> length h" "logged file = take k h"
    "it_mappings t' = replay_changes (take k h) pm_default" "it_pending_mappings t' = []" "it_pending_versions t' = []"
    "log_inv (take k h) k t' (f_mappings fs')" "f_versions fs' = f_versions fs"
    "it_versions t' = (case f_versions fs of Some f \<Rightarrow> load_versions f | None \<Rightarrow> [])"
proof (cases "f_mappings fs")
  case None
  then show ?thesis
    using that [of "\<lparr>it_versions = (case f_versions fs of Some f \<Rightarrow> load_versions f | None \<Rightarrow> []), it_mappings = pm_default,
      it_pending_versions = [], it_pending_mappings = [], it_expected_len = 0\<rparr>" fs 0] assms
    by (simp add: it_open_def log_inv_def logged_def)
next
  case (Some f)
  obtain n where f: "f = write_mapping_changes (take d h) @ take n (write_mapping_changes (drop d h))" and d: "d \<le> length h"
    using assms Some by (auto simp: log_inv_def)
  obtain k tail where k: "k \<le> length (drop d h)"
    "take n (write_mapping_changes (drop d h)) = write_mapping_changes (take k (drop d h)) @ tail"
    and tail: "read_entry tail = Inl UnexpectedEof"
    by (rule torn_log)
  have "take (d + k) h = take d h @ take k (drop d h)" by (rule take_add)
  then have f': "f = write_mapping_changes (take (d + k) h) @ tail" using f k by simp
  show ?thesis
    using that [of "\<lparr>it_versions = (case f_versions fs of Some f \<Rightarrow> load_versions f | None \<Rightarrow> []),
        it_mappings = replay_changes (take (d + k) h) pm_default, it_pending_versions = [], it_pending_mappings = [],
        it_expected_len = length (write_mapping_changes (take (d + k) h))\<rparr>"
        "fs\<lparr>f_mappings := Some (write_mapping_changes (take (d + k) h))\<rparr>" "d + k"] assms Some k d
    by (simp add: it_open_def log_inv_def logged_def f' load_mappings_written [OF tail] read_mappings_iter_written [OF tail])
qed

lemma run_inv_mappings: "run_inv r \<Longrightarrow> mappings_inv (it_mappings (run_tracker r))"
  unfolding run_inv_def by (metis order_refl take_all)

lemma run_inv_change:
  assumes "run_inv r" "it_mappings t = replay_change c (it_mappings (run_tracker r))" "mappings_inv (it_mappings t)"
    "it_pending_mappings t = it_pending_mappings (run_tracker r) @ [c]" "it_expected_len t = it_expected_len (run_tracker r)"
  shows "run_inv (r\<lparr>run_history := run_history r @ [c], run_tracker := t\<rparr>)"
proof -
  have "mappings_inv (replay_changes (take k (run_history r @ [c])) pm_default)" for k
    using assms(1-3) by (cases "k \<le> length (run_history r)") (auto simp: run_inv_def)
  then show ?thesis
    using assms log_inv_append [OF _ assms(4,5)] flusher_inv_append by (auto simp: run_inv_def log_inv_def [of _ _ "run_tracker r"])
qed

lemma run_inv_version:
  "run_inv (r\<lparr>run_tracker := it_set_internal_version i v t\<rparr>) \<longleftrightarrow> run_inv (r\<lparr>run_tracker := t\<rparr>)"
  "run_inv (r\<lparr>run_history := h, run_tracker := it_set_internal_version i v t\<rparr>) \<longleftrightarrow> run_inv (r\<lparr>run_history := h, run_tracker := t\<rparr>)"
  by (simp_all add: run_inv_def log_inv_version)

lemma run_inv_step: "tracker_step r r' \<Longrightarrow> run_inv r \<Longrightarrow> run_inv r'"
proof (induction rule: tracker_step.induct)
  case (link r e i t)
  note inv = run_inv_mappings [OF link(4)]
  show ?case
    using link it_set_link_spec [OF inv link(1,2)] pm_set_link_spec(2) [OF inv link(1,2)] by (auto intro!: run_inv_change)
next
  case (drop e r t)
  note inv = run_inv_mappings [OF drop(2)]
  show ?case
    using drop it_drop_spec [OF inv, of e] replay_delete_spec(1) [OF inv]
    by (auto simp: run_inv_version split: option.splits intro!: run_inv_change)
next
  case (drop_internal i r t)
  note inv = run_inv_mappings [OF drop_internal(2)]
  show ?case
    using drop_internal it_drop_internal_spec [OF inv, of i] replay_delete_spec(1) [OF inv]
    by (auto simp: run_inv_version split: option.splits intro!: run_inv_change)
next
  case (version r i v)
  then show ?case by (simp add: run_inv_def log_inv_version)
next
  case (capture r)
  then show ?case by (auto simp: run_inv_def flusher_inv_def log_inv_def it_mapping_flusher_def)
next
  case (flush r fl n fault truncates t fs res)
  note other = run_mapping_flusher_other [OF flush(2)]
  show ?case
  proof (cases fl)
    case None
    then show ?thesis using flush by (auto simp: run_inv_def flusher_inv_def run_mapping_flusher_def)
  next
    case (Some changes)
    then have fl: "changes \<noteq> []" "n = run_durable r + length changes"
      "changes = take (length changes) (drop (run_durable r) (run_history r))"
      and log: "log_inv (run_history r) (run_durable r) (run_tracker r) (f_mappings (run_files r))"
      using flush(1,3) by (auto simp: run_inv_def flusher_inv_def)
    from run_mapping_flusher_log [OF log fl(3,1) flush(2) [unfolded Some]] show ?thesis
      using flush(3) other fl(2) by (cases res) (auto simp: run_inv_def flusher_inv_def)
  qed
next
  case (vcapture r)
  then show ?case by (simp add: run_inv_def)
next
  case (vflush r fl fault t fs res)
  then show ?case using run_versions_flusher_other [OF vflush(2)] by (simp add: run_inv_def log_inv_def)
next
  case (crash r t fs)
  then have "log_inv (run_history r) (run_durable r) (run_tracker r) (f_mappings (run_files r))" by (simp add: run_inv_def)
  from it_open_logged [OF this refl] obtain k t' fs' where "it_open (run_files r) = Inr (t', fs')" "k \<le> length (run_history r)"
    "logged (f_mappings (run_files r)) = take k (run_history r)"
    "it_mappings t' = replay_changes (take k (run_history r)) pm_default" "log_inv (take k (run_history r)) k t' (f_mappings fs')"
    by metis
  with crash show ?case by (auto simp: run_inv_def flusher_inv_def min_def)
qed

lemma run_inv_reachable: "tracker_reachable r \<Longrightarrow> run_inv r"
  by (induction rule: rtranclp_induct) (auto intro: run_inv_init run_inv_step)


text \<open>A link, a flusher created for it, and its run that fails after five bytes, with the truncation failing too.\<close>

definition torn_run :: tracker_run where
  "torn_run =
     (let r1 = run_init\<lparr>run_history := [Insert (NumId 7) 0], run_tracker := the (it_set_link (NumId 7) 0 (run_tracker run_init))\<rparr>;
          r2 = r1\<lparr>run_flusher := Some (it_mapping_flusher (run_tracker r1), 1)\<rparr>;
          s = fst (run_mapping_flusher True (FailWrite 5) False (it_mapping_flusher (run_tracker r1)) (run_tracker r2, run_files r2))
      in r2\<lparr>run_tracker := fst s, run_files := snd s, run_flusher := None, run_durable := 0\<rparr>)"

lemma torn_run_reachable: "tracker_reachable torn_run"
proof -
  let ?r1 = "run_init\<lparr>run_history := [Insert (NumId 7) 0], run_tracker := the (it_set_link (NumId 7) 0 (run_tracker run_init))\<rparr>"
  let ?fl = "it_mapping_flusher (run_tracker ?r1)"
  let ?r2 = "?r1\<lparr>run_flusher := Some (?fl, 1)\<rparr>"
  let ?s = "run_mapping_flusher True (FailWrite 5) False ?fl (run_tracker ?r2, run_files ?r2)"
  have free: "id_free (it_mappings (run_tracker run_init)) (NumId 7) 0" "offset_free (it_mappings (run_tracker run_init)) (NumId 7) 0"
    by code_simp+
  have "mappings_inv (it_mappings (run_tracker run_init))" by (simp add: run_init_def mappings_inv_default)
  then have "it_set_link (NumId 7) 0 (run_tracker run_init) = Some (the (it_set_link (NumId 7) 0 (run_tracker run_init)))"
    using it_set_link_spec [OF _ free] by simp
  from tracker_step.link [OF free this] have "tracker_step run_init ?r1" by (simp add: run_init_def)
  moreover have "tracker_step ?r1 ?r2" using tracker_step.capture [of ?r1] by (simp add: run_init_def)
  moreover have "snd ?s = Inl IoFailed" by code_simp
  then have "tracker_step ?r2 torn_run"
    using tracker_step.flush [of ?r2 ?fl 1 "FailWrite 5" False "fst (fst ?s)" "snd (fst ?s)" "snd ?s"]
    by (simp add: torn_run_def run_init_def prod_eq_iff Let_def)
  ultimately show ?thesis by (meson rtranclp.rtrancl_into_rtrancl rtranclp.rtrancl_refl)
qed


end
