(* ===== verification/IdTrackerVersions.thy ===== *)
theory IdTrackerVersions
  imports IdTrackerRecovery
begin

text \<open>
  The versions file of the mutable id tracker: what its in-place writes leave behind, also when they fail half-way, and the
  invariant that ties the file, the versions that still wait for a flush and the versions in memory together. The last section has
  the repair of a reopened tracker and the cases in which captured flushers run out of order or on a file that is too short.
\<close>

section \<open>Bytes of the file\<close>

text \<open>A file reads as zeros after its end. \<open>vword\<close> is the number at an offset in that view, \<open>vread\<close> what \<open>load_versions\<close>
  sees of it: only complete entries.\<close>

definition byte_at :: "u8 list \<Rightarrow> nat \<Rightarrow> u8" where
  "byte_at f p = (if p < length f then f ! p else 0)"

definition vword :: "u8 list \<Rightarrow> nat \<Rightarrow> u64" where
  "vword f i = of_nat (le_value (map (byte_at f) [8 * i ..< 8 * i + 8]))"

definition vread :: "u8 list \<Rightarrow> nat \<Rightarrow> u64" where
  "vread f i = (if i < length f div 8 then vword f i else 0)"

lemma le_bytes_Nil [simp]: "le_bytes n v = [] \<longleftrightarrow> n = 0"
  by (cases n) simp_all

lemma length_write_at: "length (write_at f pos bs) = (if bs = [] then length f else max (length f) (pos + length bs))"
  by (auto simp: write_at_def)

lemma byte_at_write_at:
  "byte_at (write_at f pos bs) p = (if pos \<le> p \<and> p < pos + length bs then bs ! (p - pos) else byte_at f p)"
  by (auto simp: byte_at_def write_at_def nth_append min_def not_less)

lemma le_value_map_zeros: "le_value (map (\<lambda>p. 0) xs) = 0"
  by (induction xs) simp_all

lemma load_versions_vread: "load_versions f = map (vread f) [0 ..< length f div 8]"
proof -
  have "slice f (8 * i) (8 * i + 8) = map (byte_at f) [8 * i ..< 8 * i + 8]" if "i < length f div 8" for i
    using that by (intro nth_equalityI) (auto simp: slice_def byte_at_def)
  then show ?thesis by (auto simp: load_versions_def vread_def vword_def)
qed

lemma vword_past_end:
  assumes "8 dvd length f" "length f div 8 \<le> i"
  shows "vword f i = 0"
proof -
  have "map (byte_at f) [8 * i ..< 8 * i + 8] = map (\<lambda>p. 0) [8 * i ..< 8 * i + 8]"
    using assms by (auto simp: byte_at_def)
  then show ?thesis by (simp only: vword_def le_value_map_zeros) simp
qed

lemma vread_aligned: "8 dvd length f \<Longrightarrow> vread f i = vword f i"
  by (simp add: vread_def vword_past_end)

lemma vword_write_at_other:
  assumes "length bs \<le> 8" "i \<noteq> j"
  shows "vword (write_at f (8 * i) bs) j = vword f j"
proof -
  have "map (byte_at (write_at f (8 * i) bs)) [8 * j ..< 8 * j + 8] = map (byte_at f) [8 * j ..< 8 * j + 8]"
    using assms by (cases "i < j") (auto simp: byte_at_write_at)
  then show ?thesis by (simp only: vword_def)
qed

lemma vword_write_at_same: "vword (write_at f (8 * i) (le_bytes 8 (unat v))) i = v"
proof -
  have "map (byte_at (write_at f (8 * i) (le_bytes 8 (unat v)))) [8 * i ..< 8 * i + 8] = le_bytes 8 (unat v)"
    by (intro nth_equalityI) (simp_all add: byte_at_write_at)
  then show ?thesis unfolding vword_def by simp
qed

section \<open>Writing versions\<close>

lemma write_version_changes_Cons:
  "write_version_changes budget position ((i, v) # changes) f =
     (case budget of
        None \<Rightarrow> write_version_changes None (8 * unat i + 8) changes (write_at f (8 * unat i) (le_bytes 8 (unat v)))
      | Some n \<Rightarrow>
          if n < 8 then write_at f (8 * unat i) (take n (le_bytes 8 (unat v)))
          else write_version_changes (Some (n - 8)) (8 * unat i + 8) changes (write_at f (8 * unat i) (le_bytes 8 (unat v))))"
  by (cases budget) (simp_all add: mult.commute Let_def)

declare write_version_changes.simps(2) [simp del]

lemma write_version_changes_other:
  "j \<notin> unat ` fst ` set changes \<Longrightarrow> vword (write_version_changes budget position changes f) j = vword f j"
proof (induction changes arbitrary: budget position f)
  case (Cons c changes)
  then show ?case
    by (cases c) (auto simp: write_version_changes_Cons vword_write_at_other split: option.splits)
qed simp

lemma write_version_changes_longer:
  "length f \<le> length (write_version_changes budget position changes f)"
proof (induction changes arbitrary: budget position f)
  case (Cons c changes)
  show ?case
    by (cases c) (auto simp: write_version_changes_Cons length_write_at split: option.splits intro!: order_trans [OF _ Cons])
qed simp

lemma write_version_changes_bound:
  assumes "length f \<le> 8 * m" "\<forall>i \<in> fst ` set changes. unat i < m"
  shows "length (write_version_changes budget position changes f) \<le> 8 * m"
  using assms
proof (induction changes arbitrary: budget position f)
  case (Cons c changes)
  then show ?case
    by (cases c) (auto simp: write_version_changes_Cons length_write_at split: option.splits intro!: Cons.IH)
qed simp

lemma write_version_changes_done:
  assumes "hm_wf changes" "(i, v) \<in> set changes"
  shows "vword (write_version_changes None position changes f) (unat i) = v \<and>
    8 * unat i + 8 \<le> length (write_version_changes None position changes f)"
  using assms
proof (induction changes arbitrary: position f)
  case (Cons c changes)
  obtain i' v' where c: "c = (i', v')" by (cases c)
  show ?case
  proof (cases "c = (i, v)")
    case True
    then have "unat i \<notin> unat ` fst ` set changes" using Cons.prems(1) by (force simp flip: word_unat_eq_iff)
    then show ?thesis
      using True write_version_changes_longer [of "write_at f (8 * unat i) (le_bytes 8 (unat v))" None "8 * unat i + 8" changes]
      by (simp add: write_version_changes_Cons write_version_changes_other vword_write_at_same length_write_at)
  next
    case False
    with Cons show ?thesis by (auto simp: c write_version_changes_Cons)
  qed
qed simp

lemma write_version_changes_aligned:
  "8 dvd length f \<Longrightarrow> 8 dvd length (write_version_changes None position changes f)"
proof (induction changes arbitrary: position f)
  case (Cons c changes)
  then show ?case
    by (cases c) (auto simp: write_version_changes_Cons length_write_at max_def intro!: Cons.IH)
qed simp

section \<open>The versions of a run\<close>

definition versions_inv :: "u64 list \<Rightarrow> (u32, u64) btree \<Rightarrow> u8 list \<Rightarrow> bool" where
  "versions_inv vs pending f \<longleftrightarrow>
     bt_wf pending \<and> length f div 8 \<le> length vs \<and>
     (\<forall>i v. map_of pending i = Some v \<longrightarrow> unat i < length vs \<and> vs ! unat i = v) \<and>
     (\<forall>j < length vs. j \<notin> unat ` dom (map_of pending) \<longrightarrow> vread f j = vs ! j) \<and>
     (vs \<noteq> [] \<longrightarrow> length vs - 1 \<in> unat ` dom (map_of pending) \<or> length f div 8 = length vs)"

definition vflusher_inv :: "(u32, u64) btree \<Rightarrow> versions_flusher option \<Rightarrow> bool" where
  "vflusher_inv pending captured \<longleftrightarrow>
     (case captured of
        Some (Some changes) \<Rightarrow> changes \<noteq> [] \<and> bt_wf changes \<and> dom (map_of changes) \<subseteq> dom (map_of pending)
      | _ \<Rightarrow> True)"

definition versions_ok :: "id_tracker \<Rightarrow> u8 list \<Rightarrow> versions_flusher option \<Rightarrow> bool" where
  "versions_ok t f captured \<longleftrightarrow>
     versions_inv (it_versions t) (it_pending_versions t) f \<and> vflusher_inv (it_pending_versions t) captured"

abbreviation run_versions_inv :: "tracker_run \<Rightarrow> bool" where
  "run_versions_inv r \<equiv> versions_ok (run_tracker r) (file_bytes (f_versions (run_files r))) (run_vflusher r)"

lemma versions_inv_loaded: "versions_inv (load_versions f) [] f"
  by (auto simp: versions_inv_def load_versions_vread)

lemma versions_inv_no_pending: "versions_inv vs [] f \<Longrightarrow> load_versions f = vs"
  by (cases "vs = []") (auto simp: versions_inv_def load_versions_vread intro: nth_equalityI)

lemma versions_inv_set:
  assumes "versions_inv vs pending f"
  shows "versions_inv ((vec_reserve vs (unat i) 0)[unat i := v]) (bt_insert i v pending) f"
proof -
  have "vread f j = 0" if "length vs \<le> j" for j
    using that assms by (simp add: versions_inv_def vread_def)
  then have "vread f j = (vec_reserve vs (unat i) 0)[unat i := v] ! j"
    if "j < max (length vs) (unat i + 1)" "j \<noteq> unat i" "j \<notin> unat ` dom (map_of pending)" for j
    using that assms by (cases "j < length vs") (auto simp: versions_inv_def vec_reserve_nth vec_reserve_nth_new)
  moreover have "max (length vs) (Suc (unat i)) - Suc 0 = unat i \<or> (unat i < length vs \<and> max (length vs) (Suc (unat i)) = length vs)"
    by (auto simp: max_def)
  moreover have "unat k < max (length vs) (Suc (unat i))" if "map_of pending k = Some w" for k w
    using that assms by (force simp: versions_inv_def)
  ultimately show ?thesis
    using assms
    by (auto simp: versions_inv_def vec_reserve_nth nth_list_update image_iff simp flip: word_unat_eq_iff)
qed

text \<open>Every outcome of a flush is an in-place write: the offsets that were not captured read as before, the file does not grow
  past them, and after a success the captured offsets read as captured.\<close>

lemma store_version_changes_file:
  assumes wf: "bt_wf changes" "changes \<noteq> []" and f: "f = file_bytes file"
    and run: "store_version_changes fault file changes = (file', res)"
    and m: "length f div 8 \<le> m" "\<forall>i \<in> dom (map_of changes). unat i < m"
  shows "length (file_bytes file') div 8 \<le> m \<and> length f div 8 \<le> length (file_bytes file') div 8 \<and>
    (\<forall>j. j \<notin> unat ` dom (map_of changes) \<longrightarrow> vread (file_bytes file') j = vread f j) \<and>
    (res = Inr () \<longrightarrow> (\<forall>i v. map_of changes i = Some v \<longrightarrow>
       vread (file_bytes file') (unat i) = v \<and> unat i < length (file_bytes file') div 8))"
proof -
  define f1 where "f1 = (if length f \<noteq> length f div 8 * 8 then set_len f (length f div 8 * 8) else f)"
  have f1: "length f1 = length f div 8 * 8" by (simp add: f1_def set_len_def)
  have "byte_at f1 p = byte_at f p" if "p < length f div 8 * 8" for p
  proof -
    have "p < length f" using that by simp
    then show ?thesis using that by (simp add: f1_def set_len_def byte_at_def)
  qed
  then have "map (byte_at f1) [8 * j ..< 8 * j + 8] = map (byte_at f) [8 * j ..< 8 * j + 8]" if "j < length f div 8" for j
    using that by auto
  then have "vword f1 j = vword f j" if "j < length f div 8" for j
    using that by (simp only: vword_def)
  then have vread_f1: "vread f1 j = vread f j" for j
    using f1 by (simp add: vread_def)
  have keys: "fst ` set changes = dom (map_of changes)" by (simp add: dom_map_of_conv_image_fst)
  have written: "length g div 8 \<le> m \<and> length f div 8 \<le> length g div 8 \<and>
      (\<forall>j. j \<notin> unat ` dom (map_of changes) \<longrightarrow> vread g j = vread f j)"
    if g: "g = write_version_changes budget 0 changes f1" for budget g
  proof -
    have "length g \<le> 8 * m" unfolding g
      by (rule write_version_changes_bound) (use f1 m keys in auto)
    moreover have long: "length f1 \<le> length g" unfolding g by (rule write_version_changes_longer)
    moreover have "vread g j = vread f j" if "j \<notin> unat ` dom (map_of changes)" for j
    proof -
      have "vword g j = vword f1 j" unfolding g by (rule write_version_changes_other) (use that keys in auto)
      moreover have "vword f1 j = 0" if "\<not> j < length g div 8"
        using that long f1 by (intro vword_past_end) auto
      ultimately show ?thesis
        using vread_f1 [of j] vread_aligned [of f1 j] f1 by (auto simp: vread_def [of g])
    qed
    ultimately show ?thesis using f1 by auto
  qed
  have "vread g (unat i) = v \<and> unat i < length g div 8"
    if "g = write_version_changes None 0 changes f1" "map_of changes i = Some v" for g i v
  proof -
    have "8 dvd length g" unfolding that(1) using f1 by (intro write_version_changes_aligned) simp
    then show ?thesis
      using write_version_changes_done [OF bt_wf_distinct [OF wf(1)] map_of_SomeD [OF that(2)], of 0 f1]
      by (auto simp: that(1) vread_aligned)
  qed
  moreover have unchanged: "file_bytes (Some f) = f" "\<And>g. file_bytes (Some g) = g" by (simp_all add: file_bytes_def)
  note run [unfolded store_version_changes_def Let_def file_bytes_def [symmetric] f [symmetric] f1_def [symmetric]]
  ultimately show ?thesis
    using written [OF refl, of "None"] written [OF refl, of "Some _"] m(1) wf(2) f
    by (cases fault) (auto split: if_splits simp: unchanged)
qed

lemma bt_wf_reconcile [simp]: "bt_wf pending \<Longrightarrow> bt_wf (reconcile_persisted_version_changes pending changes)"
  by (simp add: reconcile_persisted_version_changes_def)

lemma map_of_reconcile:
  assumes "bt_wf pending"
  shows "map_of (reconcile_persisted_version_changes pending changes) i =
    (if map_of pending i = map_of changes i then None else map_of pending i)"
proof -
  have "map_of (filter (\<lambda>(k, v). P k v) m) i = (case map_of m i of Some v \<Rightarrow> if P i v then Some v else None | None \<Rightarrow> None)"
    if "hm_wf m" for P and m :: "(u32, u64) btree"
    using that by (induction m) (auto simp: map_of_eq_None_iff image_iff split: option.splits)
  from this [OF bt_wf_distinct [OF assms], of "\<lambda>k v. case map_of changes k of None \<Rightarrow> True | Some w \<Rightarrow> v \<noteq> w"]
  show ?thesis
    by (auto simp: reconcile_persisted_version_changes_def split: option.splits)
qed

lemma versions_inv_store:
  assumes inv: "versions_inv vs pending (file_bytes file)"
    and changes: "changes \<noteq> []" "bt_wf changes" "dom (map_of changes) \<subseteq> dom (map_of pending)"
    and run: "store_version_changes fault file changes = (file', res)"
  shows "versions_inv vs (case res of Inr _ \<Rightarrow> reconcile_persisted_version_changes pending changes | Inl _ \<Rightarrow> pending) (file_bytes file')"
proof -
  have keys: "\<forall>i \<in> dom (map_of changes). unat i < length vs"
    using inv changes(3) by (auto simp: versions_inv_def)
  have len: "length (file_bytes file) div 8 \<le> length vs" using inv by (simp add: versions_inv_def)
  note st = store_version_changes_file [OF changes(2,1) refl run len keys]
  show ?thesis
  proof (cases res)
    case (Inl e)
    have "unat ` dom (map_of changes) \<subseteq> unat ` dom (map_of pending)" using changes(3) by (rule image_mono)
    then have "\<forall>j. j \<notin> unat ` dom (map_of pending) \<longrightarrow> vread (file_bytes file') j = vread (file_bytes file) j"
      using st by blast
    moreover have "length (file_bytes file) div 8 = length vs \<longrightarrow> length (file_bytes file') div 8 = length vs"
      using st by linarith
    moreover have "length (file_bytes file') div 8 \<le> length vs" using st by blast
    ultimately show ?thesis using inv unfolding versions_inv_def Inl sum.case by metis
  next
    case (Inr u)
    let ?p = "reconcile_persisted_version_changes pending changes"
    have wf: "bt_wf pending" using inv by (simp add: versions_inv_def)
    have flushed: "vread (file_bytes file') (unat i) = vs ! unat i \<and> unat i < length (file_bytes file') div 8"
      if old: "i \<in> dom (map_of pending)" and gone: "i \<notin> dom (map_of ?p)" for i
    proof -
      obtain v where pending: "map_of pending i = Some v" using old by blast
      have "map_of ?p i = None" using gone by (simp add: domIff)
      with pending have v: "map_of pending i = Some v" "map_of changes i = Some v"
        using map_of_reconcile [OF wf, of changes i] by (simp_all split: if_splits)
      then have "vs ! unat i = v" using inv by (simp add: versions_inv_def)
      then show ?thesis using st Inr v(2) by simp
    qed
    have sub: "dom (map_of ?p) \<subseteq> dom (map_of pending)" by (auto simp: map_of_reconcile [OF wf] domIff split: if_splits)
    have "vread (file_bytes file') j = vs ! j" if "j < length vs" "j \<notin> unat ` dom (map_of ?p)" for j
    proof (cases "j \<in> unat ` dom (map_of pending)")
      case True
      then show ?thesis using that(2) flushed by blast
    next
      case False
      then have "j \<notin> unat ` dom (map_of changes)" using changes(3) by blast
      then show ?thesis using st inv that(1) False by (simp add: versions_inv_def)
    qed
    moreover have "length vs - 1 \<in> unat ` dom (map_of ?p) \<or> length (file_bytes file') div 8 = length vs" if "vs \<noteq> []"
    proof (cases "length vs - 1 \<in> unat ` dom (map_of pending)")
      case True
      then obtain i where i: "i \<in> dom (map_of pending)" "length vs - 1 = unat i" by auto
      have "length vs \<le> length (file_bytes file') div 8" if "i \<notin> dom (map_of ?p)"
        using flushed [OF i(1) that] i(2) \<open>vs \<noteq> []\<close> by (cases vs) auto
      then show ?thesis using i st by (cases "i \<in> dom (map_of ?p)") auto
    next
      case False
      then have "length (file_bytes file) div 8 = length vs" using inv that by (simp add: versions_inv_def)
      then show ?thesis using st by auto
    qed
    ultimately show ?thesis
      using inv wf st Inr by (auto simp: versions_inv_def map_of_reconcile [OF wf])
  qed
qed

lemma run_versions_flusher_inv:
  assumes "versions_inv (it_versions t) (it_pending_versions t) (file_bytes (f_versions fs))"
    "vflusher_inv (it_pending_versions t) (Some fl)" "run_versions_flusher alive fault fl (t, fs) = ((t', fs'), res)"
  shows "versions_inv (it_versions t') (it_pending_versions t') (file_bytes (f_versions fs'))"
proof (cases fl)
  case None
  then show ?thesis using assms by (simp add: run_versions_flusher_def)
next
  case (Some changes)
  obtain file' r where st: "store_version_changes fault (f_versions fs) changes = (file', r)"
    by (cases "store_version_changes fault (f_versions fs) changes")
  from versions_inv_store [OF assms(1) _ _ _ st] show ?thesis
    using assms Some st by (cases r) (auto simp: run_versions_flusher_def vflusher_inv_def split: if_splits)
qed

lemma versions_ok_set_version: "versions_ok t f fl \<Longrightarrow> versions_ok (it_set_internal_version i v t) f fl"
  using versions_inv_set [of "it_versions t" "it_pending_versions t" f i v]
  by (auto simp: versions_ok_def it_set_internal_version_def vflusher_inv_def versions_inv_def split: option.splits)

lemma versions_ok_mappings [simp]:
  "versions_ok (t\<lparr>it_mappings := pm\<rparr>) = versions_ok t"
  "versions_ok (t\<lparr>it_pending_mappings := cs\<rparr>) = versions_ok t"
  by (auto simp: versions_ok_def fun_eq_iff)

lemma versions_ok_set_link: "it_set_link e i t = Some t' \<Longrightarrow> versions_ok t f fl \<Longrightarrow> versions_ok t' f fl"
  by (auto simp: it_set_link_def split: option.splits)

lemma versions_ok_drop: "it_drop e t = Some t' \<Longrightarrow> versions_ok t f fl \<Longrightarrow> versions_ok t' f fl"
  by (auto simp: it_drop_def Let_def split: option.splits intro!: versions_ok_set_version)

lemma versions_ok_drop_internal: "it_drop_internal i t = Some t' \<Longrightarrow> versions_ok t f fl \<Longrightarrow> versions_ok t' f fl"
  by (auto simp: it_drop_internal_def split: option.splits intro!: versions_ok_set_version)

lemma it_open_versions:
  "it_open fs = Inr (t, fs') \<Longrightarrow> it_versions t = load_versions (file_bytes (f_versions fs')) \<and> it_pending_versions t = []"
  by (auto simp: it_open_def result_simps file_bytes_def load_versions_def split: option.splits)

lemma run_versions_inv_step: "tracker_step r r' \<Longrightarrow> run_versions_inv r \<Longrightarrow> run_versions_inv r'"
proof (induction rule: tracker_step.induct)
  case (link r e i t)
  then show ?case by (simp add: versions_ok_set_link)
next
  case (drop e r t)
  then show ?case by (simp add: versions_ok_drop)
next
  case (drop_internal i r t)
  then show ?case by (simp add: versions_ok_drop_internal)
next
  case (version r i v)
  then show ?case by (simp add: versions_ok_set_version)
next
  case (capture r)
  then show ?case by simp
next
  case (flush r fl n fault truncates t fs res)
  then show ?case using run_mapping_flusher_other [OF flush(2)] by (simp add: versions_ok_def)
next
  case (vcapture r)
  then show ?case by (auto simp: versions_ok_def vflusher_inv_def it_versions_flusher_def versions_inv_def)
next
  case (vflush r fl fault t fs res)
  then show ?case using run_versions_flusher_inv [OF _ _ vflush(2)] by (simp add: versions_ok_def vflusher_inv_def [of _ None])
next
  case (crash r t fs)
  then show ?case using it_open_versions [OF crash(1)] by (simp add: versions_ok_def versions_inv_loaded vflusher_inv_def)
qed

lemma run_versions_inv_reachable: "tracker_reachable r \<Longrightarrow> run_versions_inv r"
proof (induction rule: rtranclp_induct)
  case base
  show ?case by (simp add: versions_ok_def run_init_def versions_inv_def vflusher_inv_def file_bytes_def)
qed (rule run_versions_inv_step)

text \<open>C17: The versions file keeps up with the versions in memory: through any sequence of changes, captured flushers that run
  later, writes that fail half-way (also in the middle of an entry) and crashes, every version that waits for a flush is the current
  one; when none waits, the file loads as exactly the versions in memory; and a flush without a fault reaches that state, whatever
  torn tail an earlier one left.\<close>

theorem id_tracker_versions_durable:
  assumes "tracker_reachable r"
  shows "(\<forall>i v. map_of (it_pending_versions (run_tracker r)) i = Some v \<longrightarrow> it_internal_version (run_tracker r) i = Some v) \<and>
    (it_pending_versions (run_tracker r) = [] \<longrightarrow>
       load_versions (file_bytes (f_versions (run_files r))) = it_versions (run_tracker r)) \<and>
    (\<exists>t fs. run_versions_flusher True NoFault (it_versions_flusher (run_tracker r)) (run_tracker r, run_files r) = ((t, fs), Inr ()) \<and>
       it_pending_versions t = [] \<and> it_versions t = it_versions (run_tracker r) \<and>
       load_versions (file_bytes (f_versions fs)) = it_versions t)"
proof -
  let ?t = "run_tracker r" and ?fs = "run_files r"
  have inv: "versions_inv (it_versions ?t) (it_pending_versions ?t) (file_bytes (f_versions ?fs))"
    using run_versions_inv_reachable [OF assms] by (simp add: versions_ok_def)
  have "vflusher_inv (it_pending_versions ?t) (Some (it_versions_flusher ?t))"
    using inv by (auto simp: vflusher_inv_def it_versions_flusher_def versions_inv_def)
  note flushed = run_versions_flusher_inv [OF inv this, of True NoFault]
  have wf: "bt_wf (it_pending_versions ?t)" using inv by (simp add: versions_inv_def)
  have "reconcile_persisted_version_changes m m = []" if "bt_wf m" for m :: "(u32, u64) btree"
    using map_of_reconcile [OF that, of m] by (auto intro: hm_empty_iff [THEN iffD2])
  with wf have ok: "\<exists>t fs. run_versions_flusher True NoFault (it_versions_flusher ?t) (?t, ?fs) = ((t, fs), Inr ()) \<and>
      it_pending_versions t = [] \<and> it_versions t = it_versions ?t"
    by (auto simp: run_versions_flusher_def it_versions_flusher_def store_version_changes_def Let_def)
  have "\<exists>t fs. run_versions_flusher True NoFault (it_versions_flusher ?t) (?t, ?fs) = ((t, fs), Inr ()) \<and>
       it_pending_versions t = [] \<and> it_versions t = it_versions ?t \<and> load_versions (file_bytes (f_versions fs)) = it_versions t"
    using ok flushed versions_inv_no_pending by metis
  then show ?thesis
    using inv versions_inv_no_pending [of "it_versions ?t" "file_bytes (f_versions ?fs)"]
    by (auto simp: versions_inv_def it_internal_version_def vec_get_def)
qed

theorem id_tracker_versions_durable_witness:
  "\<exists>t fs. run_versions_flusher True NoFault (it_versions_flusher (run_tracker torn_run)) (run_tracker torn_run, run_files torn_run) =
      ((t, fs), Inr ()) \<and> load_versions (file_bytes (f_versions fs)) = it_versions t"
  using id_tracker_versions_durable [OF torn_run_reachable] by blast

section \<open>Repair after a crash\<close>

lemma vec_get_version_grows:
  "vec_get vs j \<noteq> None \<Longrightarrow> vec_get ((vec_reserve vs i 0)[i := v]) j \<noteq> None"
  by (auto simp: vec_get_def split: if_splits)

lemma it_drop_keeps:
  assumes "mappings_inv (it_mappings t)"
  obtains t' where "it_drop e t = Some t'" "mappings_inv (it_mappings t')"
    "pm_internal_id (it_mappings t') = (pm_internal_id (it_mappings t))(e := None)"
    "\<And>i. it_internal_version t i \<noteq> None \<Longrightarrow> it_internal_version t' i \<noteq> None"
  using it_drop_spec [OF assms, of e] replay_delete_spec [OF assms, of e] that
  by (cases "pm_internal_id (it_mappings t) e")
    (simp_all add: it_internal_version_def it_set_internal_version_def vec_get_version_grows del: not_None_eq)

lemma it_drop_all_simps [simp]:
  "it_drop_all [] t = Some t"
  "it_drop e t = Some t' \<Longrightarrow> it_drop_all (e # es) t = it_drop_all es t'"
  by (simp_all add: it_drop_all_def)

lemma it_drop_all_keeps:
  assumes "mappings_inv (it_mappings t)"
  obtains t' where "it_drop_all es t = Some t'" "mappings_inv (it_mappings t')"
    "\<And>e. pm_internal_id (it_mappings t') e = (if e \<in> set es then None else pm_internal_id (it_mappings t) e)"
    "\<And>i. it_internal_version t i \<noteq> None \<Longrightarrow> it_internal_version t' i \<noteq> None"
proof -
  have "\<exists>t'. it_drop_all es t = Some t' \<and> mappings_inv (it_mappings t') \<and>
    (\<forall>e. pm_internal_id (it_mappings t') e = (if e \<in> set es then None else pm_internal_id (it_mappings t) e)) \<and>
    (\<forall>i. it_internal_version t i \<noteq> None \<longrightarrow> it_internal_version t' i \<noteq> None)"
    using assms
  proof (induction es arbitrary: t)
    case (Cons e es)
    obtain t1 where t1: "it_drop e t = Some t1" "mappings_inv (it_mappings t1)"
      "pm_internal_id (it_mappings t1) = (pm_internal_id (it_mappings t))(e := None)"
      "\<And>i. it_internal_version t i \<noteq> None \<Longrightarrow> it_internal_version t1 i \<noteq> None"
      using it_drop_keeps [OF Cons.prems, of e] by metis
    from Cons.IH [OF t1(2)] show ?case using t1 by fastforce
  qed simp
  then show ?thesis using that by blast
qed

lemma iter_internal_versions_set:
  assumes "length (it_versions t) \<le> 2 ^ 32"
  shows "(i, v) \<in> set (it_iter_internal_versions t) \<longleftrightarrow> it_internal_version t i = Some v"
proof -
  have "unat (of_nat n :: u32) = n" if "n < length (it_versions t)" for n
    using that assms by (simp add: unat_of_nat)
  then show ?thesis
    by (auto simp: it_iter_internal_versions_def in_set_enumerate_eq it_internal_version_def vec_get_def image_iff
        intro!: bexI [of _ "(unat i, v)"])
qed



text \<open>The tracker in memory drops a point like the mappings do.\<close>

lemma mt_drop_spec:
  assumes "mappings_inv (mt_mappings t)"
  shows "\<exists>t'. mt_drop e t = Some t' \<and> mt_mappings t' = replay_delete (mt_mappings t) e"
    and "\<exists>t'. mt_drop_internal i t = Some t' \<and> pm_external_id (mt_mappings t') i = None"
proof -
  have same: "mt_mappings (mt_set_internal_version i v t) = mt_mappings t" for i v by (simp add: mt_set_internal_version_def)
  show "\<exists>t'. mt_drop e t = Some t' \<and> mt_mappings t' = replay_delete (mt_mappings t) e"
    by (simp add: mt_drop_def same pm_drop_spec [OF assms] Let_def split: option.split)
  show "\<exists>t'. mt_drop_internal i t = Some t' \<and> pm_external_id (mt_mappings t') i = None"
  proof (cases "pm_external_id (mt_mappings t) i")
    case None
    then show ?thesis by (simp add: mt_drop_internal_def same)
  next
    case (Some e)
    then have link: "pm_internal_id (mt_mappings t) e = Some i"
      using assms by (simp add: mappings_inv_internal_id mappings_inv_external_id)
    have "pm_external_id (replay_delete (mt_mappings t) e) i = None"
    proof (rule ccontr)
      assume "pm_external_id (replay_delete (mt_mappings t) e) i \<noteq> None"
      then obtain e' where "pm_internal_id (replay_delete (mt_mappings t) e) e' = Some i"
        using replay_delete_spec(1) [OF assms] by (auto simp: mappings_inv_internal_id mappings_inv_external_id)
      then show False
        using link assms by (auto simp: replay_delete_spec(2) mappings_inv_internal_id dest: live_at_functional split: if_splits)
    qed
    then show ?thesis using Some by (simp add: mt_drop_internal_def same pm_drop_spec [OF assms])
  qed
qed

section \<open>Flushers out of order, files too short\<close>

text \<open>The comment on concurrent flushers calls the changes idempotent. A flusher that was created before another one and runs after
  it appends its older changes behind the newer ones: here the deletion of a point was flushed, and the point is back after a
  reload.\<close>

lemma stale_flusher_resurrects:
  "(let t0 = run_tracker run_init; fs0 = run_files run_init;
        t1 = the (it_set_link (NumId 7) 0 t0); older = it_mapping_flusher t1;
        t2 = the (it_drop (NumId 7) t1); newer = it_mapping_flusher t2;
        (s1, r1) = run_mapping_flusher True NoFault True newer (t2, fs0);
        (s2, r2) = run_mapping_flusher True NoFault True older s1
    in r1 = Inr () \<and> r2 = Inr () \<and> it_pending_mappings (fst s2) = [] \<and> pm_internal_id (it_mappings (fst s2)) (NumId 7) = None \<and>
       (case it_open (snd s2) of Inr (t, _) \<Rightarrow> pm_internal_id (it_mappings t) (NumId 7) = Some 0 | Inl _ \<Rightarrow> False))"
  by code_simp

text \<open>A file shorter than the tracker expects is refused, but the cleanup after the refusal extends it with zeros to the expected
  length; the next flush then succeeds, and the file cannot be loaded any more.\<close>

lemma short_file_extended_with_zeros:
  "(let t0 = run_tracker run_init; fs0 = run_files run_init;
        t1 = the (it_set_link (NumId 7) 0 t0);
        ((t2, fs2), r2) = run_mapping_flusher True NoFault True (it_mapping_flusher t1) (t1, fs0);
        t3 = the (it_set_link (NumId 8) 1 t2); fl = it_mapping_flusher t3;
        (s4, r4) = run_mapping_flusher True NoFault True fl (t3, fs2\<lparr>f_mappings := Some []\<rparr>);
        (s5, r5) = run_mapping_flusher True NoFault True fl s4
    in r4 = Inl (FileTooShort 0 13) \<and> r5 = Inr () \<and> it_pending_mappings (fst s5) = [] \<and>
       it_open (snd s5) = Inl (ReadFailed (InvalidData 0)))"
  by code_simp

end
