(* ===== verification/SegmentPoints.thy ===== *)
theory SegmentPoints
  imports IdTrackerVersions PayloadIndex
begin

text \<open>
  \<open>lib/segment/src/segment\<close> of qdrant (\<open>mod.rs\<close>, \<open>segment_ops.rs\<close>, \<open>entry.rs\<close>, \<open>version_tracker.rs\<close>): a segment
  composes the id tracker, one vector storage per vector name and the payload index into points that are addressed by
  their external id and carry the number of the last operation that changed them. Its operations skip what is older
  than the point, remember a failure and refuse newer operations until the failed one was repeated.

  The vector storage is the appendable one (\<open>appendable_dense_vector_storage.rs\<close> below \<open>plain_vector_index.rs\<close>) without
  quantization; vectors are of any type, with the checks, the preprocessing, the default vector of a name and the zero
  vector of the memory map as parameters. An operation returns the new state also when it fails.
\<close>

section \<open>Vector storages\<close>

record 'v vector_data =
  vd_vectors :: "'v list"
  vd_deleted :: "nat set"
  vd_deleted_count :: nat

definition set_deleted :: "nat \<Rightarrow> bool \<Rightarrow> 'v vector_data \<Rightarrow> 'v vector_data \<times> bool" where
  "set_deleted key del d =
     (if \<not> del \<and> length (vd_vectors d) \<le> key then (d, False)
      else (let previous = key \<in> vd_deleted d;
                d1 = d\<lparr>vd_deleted := (if del then insert key (vd_deleted d) else vd_deleted d - {key})\<rparr>
            in (if \<not> previous \<and> del then d1\<lparr>vd_deleted_count := vd_deleted_count d1 + 1\<rparr>
                else if previous \<and> \<not> del then d1\<lparr>vd_deleted_count := vd_deleted_count d1 - 1\<rparr>
                else d1, previous)))"

definition insert_vector :: "'v \<Rightarrow> nat \<Rightarrow> 'v \<Rightarrow> 'v vector_data \<Rightarrow> 'v vector_data" where
  "insert_vector zero key vector d =
     fst (set_deleted key False (d\<lparr>vd_vectors := (vec_reserve (vd_vectors d) key zero)[key := vector]\<rparr>))"

definition delete_vector_at :: "nat \<Rightarrow> 'v vector_data \<Rightarrow> 'v vector_data \<times> bool" where
  "delete_vector_at key d = set_deleted key True d"

definition update_vector :: "'v \<Rightarrow> 'v \<Rightarrow> nat \<Rightarrow> 'v option \<Rightarrow> 'v vector_data \<Rightarrow> 'v vector_data" where
  "update_vector zero filler i vector d =
     (case vector of
        Some v \<Rightarrow> insert_vector zero i v d
      | None \<Rightarrow> fst (delete_vector_at i (if i \<ge> length (vd_vectors d) then insert_vector zero i filler d else d)))"

section \<open>Versions of the files\<close>

record version_tracker =
  vt_vector :: "(string, u64) hashmap"
  vt_payload :: "u64 option"

definition bump_version :: "u64 option \<Rightarrow> u64 option \<Rightarrow> u64 option" where
  "bump_version current new =
     (case new of
        None \<Rightarrow> None
      | Some n \<Rightarrow> (case current of Some c \<Rightarrow> if c < n then Some n else None | None \<Rightarrow> Some n))"

definition bump_key :: "(string, u64) hashmap \<Rightarrow> string \<Rightarrow> u64 option \<Rightarrow> (string, u64) hashmap" where
  "bump_key m key version =
     (case version of
        None \<Rightarrow> AList.delete key m
      | Some new \<Rightarrow>
          (case map_of m key of
             None \<Rightarrow> AList.update key new m
           | Some current \<Rightarrow> if current < new then AList.update key new m else AList.delete key m))"

definition vt_set_vector :: "string \<Rightarrow> u64 option \<Rightarrow> version_tracker \<Rightarrow> version_tracker" where
  "vt_set_vector vector version t = t\<lparr>vt_vector := bump_key (vt_vector t) vector version\<rparr>"

definition vt_set_payload :: "u64 option \<Rightarrow> version_tracker \<Rightarrow> version_tracker" where
  "vt_set_payload version t = t\<lparr>vt_payload := bump_version (vt_payload t) version\<rparr>"

section \<open>The segment\<close>

datatype seg_error = PointIdError point_id | VectorNameNotExists string | WrongVector string | ServiceError | SegPanic

record failed_state =
  fs_version :: u64
  fs_point_id :: "point_id option"
  fs_error :: seg_error

record ('n, 'v) point_segment =
  sg_version :: "u64 option"
  sg_persisted_version :: "u64 option"
  sg_version_tracker :: version_tracker
  sg_id_tracker :: id_tracker
  sg_vector_data :: "(string, 'v vector_data) hashmap"
  sg_payload_index :: "'n payload_index"
  sg_appendable :: bool
  sg_error_status :: "failed_state option"
  sg_deferred :: "(u32 \<times> nat) option"

record ('n, 'v) segment_params =
  sp_codec :: "'n payload codec"
  sp_check :: "string \<Rightarrow> 'v \<Rightarrow> seg_error option"
  sp_preprocess :: "string \<Rightarrow> 'v \<Rightarrow> 'v"
  sp_default :: "string \<Rightarrow> 'v"
  sp_zero :: "string \<Rightarrow> 'v"

type_synonym 'v named_vectors = "(string, 'v) hashmap"

definition check_named_vectors :: "('n, 'v) segment_params \<Rightarrow> 'v named_vectors \<Rightarrow> (seg_error, unit) result" where
  "check_named_vectors p vectors =
     (case List.map_filter (\<lambda>(name, v). sp_check p name v) vectors of e # _ \<Rightarrow> Inl e | [] \<Rightarrow> Inr ())"

definition preprocess :: "('n, 'v) segment_params \<Rightarrow> 'v named_vectors \<Rightarrow> 'v named_vectors" where
  "preprocess p vectors = map (\<lambda>(name, v). (name, sp_preprocess p name v)) vectors"

text \<open>Writing vectors: all names of the segment, the given names, or a new offset.\<close>

definition replace_all_vectors ::
  "('n, 'v) segment_params \<Rightarrow> u32 \<Rightarrow> u64 \<Rightarrow> 'v named_vectors \<Rightarrow> ('n, 'v) point_segment \<Rightarrow> ('n, 'v) point_segment \<times> (seg_error, unit) result" where
  "replace_all_vectors p internal_id op_num vectors s =
     (case check_named_vectors p vectors of
        Inl e \<Rightarrow> (s, Inl e)
      | Inr _ \<Rightarrow>
          (s\<lparr>sg_vector_data := map (\<lambda>(name, d). (name,
               update_vector (sp_zero p name) (sp_default p name) (unat internal_id) (map_of vectors name) d)) (sg_vector_data s),
             sg_version_tracker := fold (\<lambda>(name, d). vt_set_vector name (Some op_num)) (sg_vector_data s) (sg_version_tracker s)\<rparr>,
           Inr ()))"

fun update_vectors_loop ::
  "('n, 'v) segment_params \<Rightarrow> u32 \<Rightarrow> u64 \<Rightarrow> 'v named_vectors \<Rightarrow> ('n, 'v) point_segment \<Rightarrow> ('n, 'v) point_segment \<times> (seg_error, unit) result" where
  "update_vectors_loop p internal_id op_num [] s = (s, Inr ())"
| "update_vectors_loop p internal_id op_num ((name, v) # vectors) s =
     (case map_of (sg_vector_data s) name of
        None \<Rightarrow> (s, Inl SegPanic)
      | Some d \<Rightarrow>
          update_vectors_loop p internal_id op_num vectors
            (s\<lparr>sg_vector_data := AList.update name
                 (update_vector (sp_zero p name) (sp_default p name) (unat internal_id) (Some v) d) (sg_vector_data s),
               sg_version_tracker := vt_set_vector name (Some op_num) (sg_version_tracker s)\<rparr>))"

definition update_vectors_at ::
  "('n, 'v) segment_params \<Rightarrow> u32 \<Rightarrow> u64 \<Rightarrow> 'v named_vectors \<Rightarrow> ('n, 'v) point_segment \<Rightarrow> ('n, 'v) point_segment \<times> (seg_error, unit) result" where
  "update_vectors_at p internal_id op_num vectors s =
     (case check_named_vectors p vectors of
        Inl e \<Rightarrow> (s, Inl e)
      | Inr _ \<Rightarrow> update_vectors_loop p internal_id op_num vectors s)"

definition insert_new_vectors ::
  "('n, 'v) segment_params \<Rightarrow> point_id \<Rightarrow> u64 \<Rightarrow> 'v named_vectors \<Rightarrow> ('n, 'v) point_segment \<Rightarrow> ('n, 'v) point_segment \<times> (seg_error, u32) result" where
  "insert_new_vectors p point_id op_num vectors s =
     (let new_index = of_nat (pm_total_point_count (it_mappings (sg_id_tracker s)))
      in case replace_all_vectors p new_index op_num vectors s of
           (s1, Inl e) \<Rightarrow> (s1, Inl e)
         | (s1, Inr _) \<Rightarrow>
             (case it_set_link point_id new_index (sg_id_tracker s1) of
                None \<Rightarrow> (s1, Inl SegPanic)
              | Some t \<Rightarrow> (s1\<lparr>sg_id_tracker := t\<rparr>, Inr new_index)))"

section \<open>The version of a point, and failures\<close>

definition bump_segment_version :: "u64 \<Rightarrow> ('n, 'v) point_segment \<Rightarrow> ('n, 'v) point_segment" where
  "bump_segment_version op_num s =
     s\<lparr>sg_version := Some (max op_num (case sg_version s of Some v \<Rightarrow> v | None \<Rightarrow> 0))\<rparr>"

type_synonym ('n, 'v, 'a) seg_op = "('n, 'v) point_segment \<Rightarrow> ('n, 'v) point_segment \<times> (seg_error, 'a) result"

definition handle_point_version ::
  "u64 \<Rightarrow> u32 option \<Rightarrow> ('n, 'v, bool \<times> u32 option) seg_op \<Rightarrow> ('n, 'v, bool) seg_op" where
  "handle_point_version op_num op_point_offset operation s =
     (if (case op_point_offset of
            None \<Rightarrow> False
          | Some i \<Rightarrow> (case it_internal_version (sg_id_tracker s) i of Some current \<Rightarrow> current > op_num | None \<Rightarrow> False))
      then (s, Inr False)
      else (case operation s of
              (s1, Inl e) \<Rightarrow> (s1, Inl e)
            | (s1, Inr (applied, internal_id)) \<Rightarrow>
                (let s2 = bump_segment_version op_num s1
                 in (case internal_id of
                       None \<Rightarrow> s2
                     | Some i \<Rightarrow> s2\<lparr>sg_id_tracker := it_set_internal_version i op_num (sg_id_tracker s2)\<rparr>, Inr applied))))"

definition offset_point :: "('n, 'v) point_segment \<Rightarrow> u32 option \<Rightarrow> point_id option" where
  "offset_point s offset = Option.bind offset (pm_external_id (it_mappings (sg_id_tracker s)))"

text \<open>A panic unwinds past the bookkeeping of failures.\<close>

definition handle_point_version_and_failure ::
  "u64 \<Rightarrow> u32 option \<Rightarrow> ('n, 'v, bool \<times> u32 option) seg_op \<Rightarrow> ('n, 'v, bool) seg_op" where
  "handle_point_version_and_failure op_num op_point_offset operation s =
     (if (case sg_error_status s of Some f \<Rightarrow> fs_version f < op_num | None \<Rightarrow> False) then (s, Inl ServiceError)
      else (case handle_point_version op_num op_point_offset operation s of
              (s1, Inl SegPanic) \<Rightarrow> (s1, Inl SegPanic)
            | (s1, Inl ServiceError) \<Rightarrow>
                (s1\<lparr>sg_error_status := Some \<lparr>fs_version = op_num, fs_point_id = offset_point s1 op_point_offset,
                   fs_error = ServiceError\<rparr>\<rparr>, Inl ServiceError)
            | (s1, res) \<Rightarrow>
                (case sg_error_status s1 of
                   Some f \<Rightarrow> if fs_point_id f = offset_point s1 op_point_offset then s1\<lparr>sg_error_status := None\<rparr> else s1
                 | None \<Rightarrow> s1, res)))"

definition get_internal_id :: "('n, 'v) point_segment \<Rightarrow> point_id \<Rightarrow> u32 option" where
  "get_internal_id s point_id = pm_internal_id (it_mappings (sg_id_tracker s)) point_id"

definition lookup_internal_id :: "('n, 'v) point_segment \<Rightarrow> point_id \<Rightarrow> (seg_error, u32) result" where
  "lookup_internal_id s point_id =
     (case get_internal_id s point_id of Some i \<Rightarrow> Inr i | None \<Rightarrow> Inl (PointIdError point_id))"

section \<open>Deleting\<close>

definition delete_point_internal :: "('n, 'v) segment_params \<Rightarrow> u32 \<Rightarrow> ('n, 'v, unit) seg_op" where
  "delete_point_internal p internal_id s =
     (case clear_payload (sp_codec p) (sg_payload_index s) (unat internal_id) of
        Inl _ \<Rightarrow> (s, Inl ServiceError)
      | Inr (pi, _) \<Rightarrow>
          (let s1 = s\<lparr>sg_payload_index := pi\<rparr>;
               already_deleted = pm_is_deleted_point (it_mappings (sg_id_tracker s1)) internal_id
           in case it_drop_internal internal_id (sg_id_tracker s1) of
                None \<Rightarrow> (s1, Inl SegPanic)
              | Some t \<Rightarrow>
                  (s1\<lparr>sg_id_tracker := t,
                      sg_deferred := (case sg_deferred s1 of
                          Some (deferred_internal_id, n) \<Rightarrow>
                            Some (deferred_internal_id, if internal_id \<ge> deferred_internal_id \<and> \<not> already_deleted then n + 1 else n)
                        | None \<Rightarrow> None)\<rparr>, Inr ())))"

definition sg_delete_point :: "('n, 'v) segment_params \<Rightarrow> u64 \<Rightarrow> point_id \<Rightarrow> ('n, 'v, bool) seg_op" where
  "sg_delete_point p op_num point_id s =
     (case get_internal_id s point_id of
        None \<Rightarrow> (s, Inr False)
      | Some internal_id \<Rightarrow>
          handle_point_version_and_failure op_num (Some internal_id) (\<lambda>segment.
            case delete_point_internal p internal_id segment of
              (s1, Inl e) \<Rightarrow> (s1, Inl e)
            | (s1, Inr _) \<Rightarrow>
                (s1\<lparr>sg_version_tracker := vt_set_payload (Some op_num) (sg_version_tracker s1)\<rparr>, Inr (True, Some internal_id))) s)"

section \<open>Changing points\<close>

definition sg_upsert_point ::
  "('n, 'v) segment_params \<Rightarrow> u64 \<Rightarrow> point_id \<Rightarrow> 'v named_vectors \<Rightarrow> ('n, 'v, bool) seg_op" where
  "sg_upsert_point p op_num point_id vectors s =
     (case check_named_vectors p vectors of
        Inl e \<Rightarrow> (s, Inl e)
      | Inr _ \<Rightarrow>
          (let vectors' = preprocess p vectors;
               stored_internal_point = get_internal_id s point_id
           in handle_point_version_and_failure op_num stored_internal_point (\<lambda>segment.
                case stored_internal_point of
                  Some existing \<Rightarrow>
                    (case replace_all_vectors p existing op_num vectors' segment of
                       (s1, Inl e) \<Rightarrow> (s1, Inl e)
                     | (s1, Inr _) \<Rightarrow> (s1, Inr (True, Some existing)))
                | None \<Rightarrow>
                    (case insert_new_vectors p point_id op_num vectors' segment of
                       (s1, Inl e) \<Rightarrow> (s1, Inl e)
                     | (s1, Inr new_index) \<Rightarrow> (s1, Inr (False, Some new_index)))) s))"

definition sg_update_vectors ::
  "('n, 'v) segment_params \<Rightarrow> u64 \<Rightarrow> point_id \<Rightarrow> 'v named_vectors \<Rightarrow> ('n, 'v, bool) seg_op" where
  "sg_update_vectors p op_num point_id vectors s =
     (case check_named_vectors p vectors of
        Inl e \<Rightarrow> (s, Inl e)
      | Inr _ \<Rightarrow>
          (let vectors' = preprocess p vectors
           in case get_internal_id s point_id of
                None \<Rightarrow> (s, Inl (PointIdError point_id))
              | Some internal_id \<Rightarrow>
                  handle_point_version_and_failure op_num (Some internal_id) (\<lambda>segment.
                    case update_vectors_at p internal_id op_num vectors' segment of
                      (s1, Inl e) \<Rightarrow> (s1, Inl e)
                    | (s1, Inr _) \<Rightarrow> (s1, Inr (True, Some internal_id))) s))"

text \<open>\<open>check_vector_name\<close> is the membership of the name in the configuration, whose names are those of the storages.\<close>

definition sg_delete_vector :: "u64 \<Rightarrow> point_id \<Rightarrow> string \<Rightarrow> ('n, 'v, bool) seg_op" where
  "sg_delete_vector op_num point_id vector_name s =
     (if map_of (sg_vector_data s) vector_name = None then (s, Inl (VectorNameNotExists vector_name))
      else (case get_internal_id s point_id of
              None \<Rightarrow> (s, Inl (PointIdError point_id))
            | Some internal_id \<Rightarrow>
                handle_point_version_and_failure op_num (Some internal_id) (\<lambda>segment.
                  case map_of (sg_vector_data segment) vector_name of
                    None \<Rightarrow> (segment, Inl (VectorNameNotExists vector_name))
                  | Some d \<Rightarrow>
                      (case delete_vector_at (unat internal_id) d of
                         (d1, is_deleted) \<Rightarrow>
                           (segment\<lparr>sg_vector_data := AList.update vector_name d1 (sg_vector_data segment),
                              sg_version_tracker := (if is_deleted then vt_set_vector vector_name (Some op_num) (sg_version_tracker segment)
                                else sg_version_tracker segment)\<rparr>, Inr (is_deleted, Some internal_id)))) s))"

text \<open>The four operations on the payload differ in the call to the payload index only.\<close>

definition segment_payload_op ::
  "u64 \<Rightarrow> point_id \<Rightarrow> ('n payload_index \<Rightarrow> nat \<Rightarrow> (grid_error, 'n payload_index) result) \<Rightarrow> ('n, 'v, bool) seg_op" where
  "segment_payload_op op_num point_id f s =
     (let internal_id = get_internal_id s point_id
      in handle_point_version_and_failure op_num internal_id (\<lambda>segment.
           case internal_id of
             None \<Rightarrow> (segment, Inl (PointIdError point_id))
           | Some i \<Rightarrow>
               (case f (sg_payload_index segment) (unat i) of
                  Inl _ \<Rightarrow> (segment, Inl ServiceError)
                | Inr pi \<Rightarrow>
                    (segment\<lparr>sg_payload_index := pi,
                       sg_version_tracker := vt_set_payload (Some op_num) (sg_version_tracker segment)\<rparr>,
                     Inr (True, Some i)))) s)"

definition sg_set_full_payload :: "('n, 'v) segment_params \<Rightarrow> u64 \<Rightarrow> point_id \<Rightarrow> 'n payload \<Rightarrow> ('n, 'v, bool) seg_op" where
  "sg_set_full_payload p op_num point_id full_payload =
     segment_payload_op op_num point_id (\<lambda>pi i. overwrite_payload (sp_codec p) pi i full_payload)"

definition sg_set_payload ::
  "('n, 'v) segment_params \<Rightarrow> u64 \<Rightarrow> point_id \<Rightarrow> 'n payload \<Rightarrow> json_path option \<Rightarrow> ('n, 'v, bool) seg_op" where
  "sg_set_payload p op_num point_id payload key =
     segment_payload_op op_num point_id (\<lambda>pi i. set_payload (sp_codec p) pi i payload key)"

definition sg_delete_payload :: "('n, 'v) segment_params \<Rightarrow> u64 \<Rightarrow> point_id \<Rightarrow> json_path \<Rightarrow> ('n, 'v, bool) seg_op" where
  "sg_delete_payload p op_num point_id key =
     segment_payload_op op_num point_id (\<lambda>pi i. map_sum (\<lambda>e. e) fst (delete_payload (sp_codec p) pi i key))"

definition sg_clear_payload :: "('n, 'v) segment_params \<Rightarrow> u64 \<Rightarrow> point_id \<Rightarrow> ('n, 'v, bool) seg_op" where
  "sg_clear_payload p op_num point_id =
     segment_payload_op op_num point_id (\<lambda>pi i. map_sum (\<lambda>e. e) fst (clear_payload (sp_codec p) pi i))"

section \<open>Reading points\<close>

definition sg_point_version :: "('n, 'v) point_segment \<Rightarrow> point_id \<Rightarrow> u64 option" where
  "sg_point_version s point_id = Option.bind (get_internal_id s point_id) (it_internal_version (sg_id_tracker s))"

definition sg_has_point :: "('n, 'v) point_segment \<Rightarrow> point_id \<Rightarrow> bool" where
  "sg_has_point s point_id \<longleftrightarrow> get_internal_id s point_id \<noteq> None"

definition sg_current_version :: "('n, 'v) point_segment \<Rightarrow> u64" where
  "sg_current_version s = (case sg_version s of Some v \<Rightarrow> v | None \<Rightarrow> 0)"

definition sg_persistent_version :: "('n, 'v) point_segment \<Rightarrow> u64" where
  "sg_persistent_version s = (case sg_persisted_version s of Some v \<Rightarrow> v | None \<Rightarrow> 0)"

definition vector_by_offset :: "('n, 'v) point_segment \<Rightarrow> string \<Rightarrow> u32 \<Rightarrow> (seg_error, 'v option) result" where
  "vector_by_offset s vector_name point_offset =
     (case map_of (sg_vector_data s) vector_name of
        None \<Rightarrow> Inl (VectorNameNotExists vector_name)
      | Some d \<Rightarrow>
          Inr (if length (vd_vectors d) \<le> unat point_offset then None
               else if unat point_offset \<in> vd_deleted d \<or> pm_is_deleted_point (it_mappings (sg_id_tracker s)) point_offset then None
               else Some (vd_vectors d ! unat point_offset)))"

definition sg_vector :: "('n, 'v) point_segment \<Rightarrow> string \<Rightarrow> point_id \<Rightarrow> (seg_error, 'v option) result" where
  "sg_vector s vector_name point_id =
     and_then (lookup_internal_id s point_id) (\<lambda>internal_id. vector_by_offset s vector_name internal_id)"

definition sg_payload :: "('n, 'v) segment_params \<Rightarrow> ('n, 'v) point_segment \<Rightarrow> point_id \<Rightarrow> (seg_error, 'n payload) result" where
  "sg_payload p s point_id =
     and_then (lookup_internal_id s point_id) (\<lambda>internal_id.
       map_sum (\<lambda>_. ServiceError) (\<lambda>x. x) (ps_get (sp_codec p) (pi_payload (sg_payload_index s)) (unat internal_id)))"

definition sg_point_is_deferred :: "('n, 'v) point_segment \<Rightarrow> point_id \<Rightarrow> bool" where
  "sg_point_is_deferred s point_id =
     (case (sg_deferred s, get_internal_id s point_id) of
        (Some (deferred_from, _), Some internal_id) \<Rightarrow> sg_appendable s \<and> internal_id \<ge> deferred_from
      | _ \<Rightarrow> False)"

definition sg_read_range :: "('n, 'v) point_segment \<Rightarrow> point_id option \<Rightarrow> point_id option \<Rightarrow> point_id list" where
  "sg_read_range s from to =
     (let ids = map fst (pm_iter_from (it_mappings (sg_id_tracker s)) from)
      in case to of None \<Rightarrow> ids | Some to_id \<Rightarrow> takeWhile (\<lambda>x. x < to_id) ids)"

section \<open>Repair after loading\<close>

text \<open>\<open>check_consistency_and_repair\<close> without the flush that follows a repair.\<close>

fun clean_offsets :: "('n, 'v) segment_params \<Rightarrow> u32 list \<Rightarrow> ('n, 'v, unit) seg_op" where
  "clean_offsets p [] s = (s, Inr ())"
| "clean_offsets p (i # ids) s =
    (case delete_point_internal p i s of
       (s1, Inl e) \<Rightarrow> (s1, Inl e)
     | (s1, Inr _) \<Rightarrow> clean_offsets p ids s1)"

definition check_consistency_and_repair :: "('n, 'v) segment_params \<Rightarrow> ('n, 'v, unit) seg_op" where
  "check_consistency_and_repair p s =
     (case fix_inconsistencies (sg_id_tracker s) of
        None \<Rightarrow> (s, Inl SegPanic)
      | Some (t, ids_to_clean) \<Rightarrow> clean_offsets p ids_to_clean (s\<lparr>sg_id_tracker := t\<rparr>))"

end
