(* ===== verification/SegmentRefinement.thy ===== *)
theory SegmentRefinement
  imports SegmentPoints
begin

text \<open>
  A segment as a store of points: every operation of \<open>SegmentPoints\<close> refines one on a map from external ids to version, vectors
  and payload, in which an operation older than the point does nothing. On top of it, replaying the log of operations over a
  segment whose points lag behind by different amounts brings every point to where the log ends.
\<close>

section \<open>Vector storages\<close>

lemma set_deleted_fields:
  "vd_vectors (fst (set_deleted k b d)) = vd_vectors d"
  "vd_deleted (fst (set_deleted k b d)) =
    (if \<not> b \<and> length (vd_vectors d) \<le> k then vd_deleted d else if b then insert k (vd_deleted d) else vd_deleted d - {k})"
  by (auto simp: set_deleted_def Let_def)

lemma length_insert_vector [simp]: "length (vd_vectors (insert_vector z k v d)) = max (length (vd_vectors d)) (k + 1)"
  by (simp add: insert_vector_def set_deleted_fields)

definition vector_at :: "'v vector_data \<Rightarrow> nat \<Rightarrow> 'v option" where
  "vector_at d i = (if i \<in> vd_deleted d then None else Some (vd_vectors d ! i))"

lemma vector_at_insert:
  assumes "j < length (vd_vectors d) \<or> j = k"
  shows "vector_at (insert_vector z k v d) j = (if j = k then Some v else vector_at d j)"
  using assms by (auto simp: vector_at_def insert_vector_def set_deleted_fields vec_reserve_nth not_le)

lemma length_update_vector [simp]:
  "length (vd_vectors (update_vector z f k v d)) = max (length (vd_vectors d)) (k + 1)"
  by (auto simp: update_vector_def delete_vector_at_def set_deleted_fields max_def split: option.split)

lemma vector_at_update:
  assumes "j < length (vd_vectors d) \<or> j = k"
  shows "vector_at (update_vector z f k v d) j = (if j = k then v else vector_at d j)"
proof (cases v)
  case None
  have "vector_at (fst (set_deleted k True d')) j = (if j = k then None else vector_at d' j)" for d' :: "'a vector_data"
    by (simp add: vector_at_def set_deleted_fields)
  then show ?thesis using assms None by (auto simp: update_vector_def delete_vector_at_def vector_at_insert)
next
  case (Some w)
  then show ?thesis using assms by (simp add: update_vector_def vector_at_insert)
qed

section \<open>The invariant and the view\<close>

abbreviation sg_pm :: "('n, 'v) point_segment \<Rightarrow> point_mappings" where
  "sg_pm s \<equiv> it_mappings (sg_id_tracker s)"

abbreviation sg_names :: "('n, 'v) point_segment \<Rightarrow> string list" where
  "sg_names s \<equiv> hm_keys (sg_vector_data s)"

definition seg_ok :: "('n, 'v) segment_params \<Rightarrow> storage_config \<Rightarrow> nat \<Rightarrow> ('n, 'v) point_segment \<Rightarrow> bool" where
  "seg_ok p c mn s \<longleftrightarrow>
     mappings_inv (sg_pm s) \<and> pi_ok mn (sp_codec p) c (sg_payload_index s) \<and> hm_wf (sg_vector_data s) \<and>
     (\<forall>name d. map_of (sg_vector_data s) name = Some d \<longrightarrow> length (vd_vectors d) = pm_total_point_count (sg_pm s)) \<and>
     (\<forall>k. pi_lookup (sp_codec p) (sg_payload_index s) k \<noteq> None \<longrightarrow> k < pm_total_point_count (sg_pm s)) \<and>
     (\<forall>e i. pm_internal_id (sg_pm s) e = Some i \<longrightarrow> it_internal_version (sg_id_tracker s) i \<noteq> None)"

type_synonym ('n, 'v) point = "u64 \<times> (string \<Rightarrow> 'v option) \<times> 'n payload option"

definition seg_vectors :: "('n, 'v) point_segment \<Rightarrow> u32 \<Rightarrow> string \<Rightarrow> 'v option" where
  "seg_vectors s i name = (case map_of (sg_vector_data s) name of None \<Rightarrow> None | Some d \<Rightarrow> vector_at d (unat i))"

definition seg_point :: "('n, 'v) segment_params \<Rightarrow> ('n, 'v) point_segment \<Rightarrow> u32 \<Rightarrow> ('n, 'v) point" where
  "seg_point p s i = (the (it_internal_version (sg_id_tracker s) i), seg_vectors s i,
     pi_lookup (sp_codec p) (sg_payload_index s) (unat i))"

definition seg_view :: "('n, 'v) segment_params \<Rightarrow> ('n, 'v) point_segment \<Rightarrow> point_id \<Rightarrow> ('n, 'v) point option" where
  "seg_view p s e = map_option (seg_point p s) (get_internal_id s e)"

lemma mappings_inv_bound:
  assumes "mappings_inv pm" "pm_internal_id pm e = Some i"
  shows "unat i < pm_total_point_count pm"
  using assms by (simp add: mappings_inv_internal_id live_at_def pm_total_point_count_def)

lemma mappings_inv_distinct:
  assumes "mappings_inv pm" "pm_internal_id pm e = Some i" "pm_internal_id pm e' = Some i"
  shows "e = e'"
  using assms live_at_functional by (simp add: mappings_inv_internal_id)

text \<open>What the readers of the segment return is in the view.\<close>

lemma seg_readers:
  assumes ok: "seg_ok p c mn s"
  shows "sg_has_point s e \<longleftrightarrow> seg_view p s e \<noteq> None"
    and "sg_point_version s e = map_option fst (seg_view p s e)"
    and "map_of (sg_vector_data s) name \<noteq> None \<Longrightarrow>
      sg_vector s name e = (case seg_view p s e of None \<Rightarrow> Inl (PointIdError e) | Some (_, vec, _) \<Rightarrow> Inr (vec name))"
    and "sg_payload p s e = (case seg_view p s e of None \<Rightarrow> Inl (PointIdError e) | Some (_, _, payload) \<Rightarrow> Inr (or_default payload))"
proof -
  show "sg_has_point s e \<longleftrightarrow> seg_view p s e \<noteq> None"
    by (simp add: sg_has_point_def seg_view_def)
  show "sg_point_version s e = map_option fst (seg_view p s e)"
    using ok by (cases "get_internal_id s e") (auto simp: sg_point_version_def seg_view_def seg_point_def seg_ok_def get_internal_id_def)
  show "sg_vector s name e = (case seg_view p s e of None \<Rightarrow> Inl (PointIdError e) | Some (_, vec, _) \<Rightarrow> Inr (vec name))"
    if known: "map_of (sg_vector_data s) name \<noteq> None"
  proof (cases "get_internal_id s e")
    case None
    then show ?thesis by (simp add: sg_vector_def lookup_internal_id_def seg_view_def)
  next
    case (Some i)
    obtain d where d: "map_of (sg_vector_data s) name = Some d" using known by blast
    have inv: "mappings_inv (sg_pm s)" and id: "pm_internal_id (sg_pm s) e = Some i"
      using ok Some by (simp_all add: seg_ok_def get_internal_id_def)
    have "length (vd_vectors d) = pm_total_point_count (sg_pm s)" using ok d unfolding seg_ok_def by blast
    moreover have "\<not> pm_is_deleted_point (sg_pm s) i"
      using id inv by (simp add: mappings_inv_is_deleted mappings_inv_internal_id flip: mappings_inv_external_id)
    ultimately show ?thesis
      using mappings_inv_bound [OF inv id] Some d
      by (simp add: sg_vector_def lookup_internal_id_def seg_view_def vector_by_offset_def seg_point_def seg_vectors_def vector_at_def)
  qed
  show "sg_payload p s e = (case seg_view p s e of None \<Rightarrow> Inl (PointIdError e) | Some (_, _, payload) \<Rightarrow> Inr (or_default payload))"
  proof -
    have "ps_ok (sp_codec p) c (pi_payload (sg_payload_index s))" using ok by (simp add: seg_ok_def pi_ok_def)
    from ps.get_ok [OF this] show ?thesis
      by (cases "get_internal_id s e") (simp_all add: sg_payload_def lookup_internal_id_def seg_view_def seg_point_def pi_lookup_def)
  qed
qed

section \<open>Stamping a changed point with the number of the operation\<close>

definition stamp :: "u64 \<Rightarrow> u32 \<Rightarrow> ('n, 'v) point_segment \<Rightarrow> ('n, 'v) point_segment" where
  "stamp op_num i s =
     (let s2 = bump_segment_version op_num s
      in s2\<lparr>sg_id_tracker := it_set_internal_version i op_num (sg_id_tracker s2)\<rparr>)"

lemma stamp_fields [simp]:
  "sg_pm (stamp op_num i s) = sg_pm s"
  "get_internal_id (stamp op_num i s) = get_internal_id s"
  "sg_vector_data (stamp op_num i s) = sg_vector_data s"
  "sg_payload_index (stamp op_num i s) = sg_payload_index s"
  "sg_error_status (stamp op_num i s) = sg_error_status s"
  "seg_vectors (stamp op_num i s) = seg_vectors s"
  by (simp_all add: stamp_def bump_segment_version_def get_internal_id_def seg_vectors_def Let_def fun_eq_iff)

lemma it_internal_version_set:
  "it_internal_version (it_set_internal_version i v t) j = (if j = i then Some v
     else if unat j < length (it_versions t) then Some (it_versions t ! unat j) else if unat j \<le> unat i then Some 0 else None)"
  by (auto simp: it_internal_version_def it_set_internal_version_def vec_get_def nth_list_update vec_reserve_nth vec_reserve_nth_new
      less_max_iff_disj not_less less_Suc_eq_le simp flip: word_unat_eq_iff)

lemma stamp_version:
  "it_internal_version (sg_id_tracker (stamp op_num i s)) i = Some op_num"
  "it_internal_version (sg_id_tracker s) j = Some v \<Longrightarrow> j \<noteq> i \<Longrightarrow>
    it_internal_version (sg_id_tracker (stamp op_num i s)) j = Some v"
proof -
  have t: "sg_id_tracker (stamp op_num i s) = it_set_internal_version i op_num (sg_id_tracker s)"
    by (simp add: stamp_def bump_segment_version_def Let_def)
  show "it_internal_version (sg_id_tracker (stamp op_num i s)) i = Some op_num" by (simp add: t it_internal_version_set)
  assume v: "it_internal_version (sg_id_tracker s) j = Some v" and j: "j \<noteq> i"
  from v have "unat j < length (it_versions (sg_id_tracker s))" "v = it_versions (sg_id_tracker s) ! unat j"
    by (simp_all add: it_internal_version_def vec_get_def split: if_splits)
  with j show "it_internal_version (sg_id_tracker (stamp op_num i s)) j = Some v" by (simp add: t it_internal_version_set)
qed

lemma handle_fresh:
  assumes "sg_error_status s = None" "operation s = (s1, Inr (applied, Some i))" "sg_error_status s1 = None"
    and "\<not> (case op_point_offset of None \<Rightarrow> False
        | Some i \<Rightarrow> (case it_internal_version (sg_id_tracker s) i of Some current \<Rightarrow> current > op_num | None \<Rightarrow> False))"
  shows "handle_point_version_and_failure op_num op_point_offset operation s = (stamp op_num i s1, Inr applied)"
proof -
  have "handle_point_version op_num op_point_offset operation s = (stamp op_num i s1, Inr applied)"
    using assms by (simp add: handle_point_version_def stamp_def Let_def)
  then show ?thesis using assms(1,3) by (simp add: handle_point_version_and_failure_def)
qed

lemma handle_missing:
  assumes "sg_error_status s = None" "operation s = (s, Inl (PointIdError e))"
  shows "handle_point_version_and_failure op_num None operation s = (s, Inl (PointIdError e))"
  using assms by (simp add: handle_point_version_and_failure_def handle_point_version_def)

lemma handle_stale:
  assumes "sg_error_status s = None" "it_internal_version (sg_id_tracker s) i = Some current" "op_num < current"
  shows "handle_point_version_and_failure op_num (Some i) operation s = (s, Inr False)"
  using assms by (simp add: handle_point_version_and_failure_def handle_point_version_def)

text \<open>A step that changes the data of the offset \<open>i\<close> of the point \<open>e\<close>, and nothing else, then stamps it.\<close>

lemma seg_stamped:
  assumes ok: "seg_ok p c mn s" and e: "get_internal_id s e = Some i"
    and s1: "sg_id_tracker s1 = sg_id_tracker s" "sg_names s1 = sg_names s"
    and pi: "pi_ok mn (sp_codec p) c (sg_payload_index s1)"
      "pi_lookup (sp_codec p) (sg_payload_index s1) = (pi_lookup (sp_codec p) (sg_payload_index s))(unat i := payload)"
    and vec: "\<And>name d. map_of (sg_vector_data s1) name = Some d \<Longrightarrow> length (vd_vectors d) = pm_total_point_count (sg_pm s)"
      "seg_vectors s1 i = vectors"
      "\<And>j. j \<noteq> i \<Longrightarrow> unat j < pm_total_point_count (sg_pm s) \<Longrightarrow> seg_vectors s1 j = seg_vectors s j"
  shows "seg_ok p c mn (stamp op_num i s1)" "seg_view p (stamp op_num i s1) = (seg_view p s)(e \<mapsto> (op_num, vectors, payload))"
proof -
  have inv: "mappings_inv (sg_pm s)" and id: "pm_internal_id (sg_pm s) e = Some i"
    using ok e by (simp_all add: seg_ok_def get_internal_id_def)
  note bound = mappings_inv_bound [OF inv id]
  have same: "get_internal_id s1 = get_internal_id s" by (simp add: get_internal_id_def s1 fun_eq_iff)
  have other: "j \<noteq> i \<and> unat j \<noteq> unat i" if "get_internal_id s e' = Some j" "e' \<noteq> e" for e' j
    using mappings_inv_distinct [OF inv _ id, of e'] that by (auto simp: get_internal_id_def word_unat_eq_iff)
  have version: "\<exists>v. it_internal_version (sg_id_tracker s) j = Some v" if "get_internal_id s e' = Some j" for e' j
    using ok that by (auto simp: seg_ok_def get_internal_id_def)
  have version1: "it_internal_version (sg_id_tracker (stamp op_num i s1)) j \<noteq> None" if "get_internal_id s e' = Some j" for e' j
    using version [OF that] stamp_version(1) [of op_num i s1] stamp_version(2) [of s1 j _ i op_num] s1(1) by (cases "j = i") auto
  have hm: "hm_wf (sg_vector_data s)" using ok by (simp add: seg_ok_def)
  show "seg_ok p c mn (stamp op_num i s1)"
    unfolding seg_ok_def
  proof (intro conjI allI impI)
    show "k < pm_total_point_count (sg_pm (stamp op_num i s1))"
      if "pi_lookup (sp_codec p) (sg_payload_index (stamp op_num i s1)) k \<noteq> None" for k
    proof (cases "k = unat i")
      case False
      then have "pi_lookup (sp_codec p) (sg_payload_index s) k \<noteq> None" using that by (simp add: pi(2))
      then show ?thesis using ok by (simp add: seg_ok_def s1)
    qed (simp add: s1 bound)
    show "it_internal_version (sg_id_tracker (stamp op_num i s1)) j \<noteq> None"
      if "pm_internal_id (sg_pm (stamp op_num i s1)) e' = Some j" for e' j
      using that by (intro version1 [of e']) (simp add: s1 get_internal_id_def)
    show "length (vd_vectors d) = pm_total_point_count (sg_pm (stamp op_num i s1))"
      if "map_of (sg_vector_data (stamp op_num i s1)) name = Some d" for name d
      using vec(1) [of name d] that unfolding stamp_fields s1 .
  qed (simp_all add: inv pi(1) hm s1)
  show "seg_view p (stamp op_num i s1) = (seg_view p s)(e \<mapsto> (op_num, vectors, payload))"
  proof
    fix e'
    show "seg_view p (stamp op_num i s1) e' = ((seg_view p s)(e \<mapsto> (op_num, vectors, payload))) e'"
    proof (cases "e' = e")
      case True
      then show ?thesis
        using e stamp_version(1) [of op_num i s1] by (simp add: seg_view_def same seg_point_def vec(2) pi(2))
    next
      case False
      show ?thesis
      proof (cases "get_internal_id s e'")
        case None
        with False show ?thesis by (simp add: seg_view_def same)
      next
        case (Some j)
        note jo = other [OF Some False]
        obtain v where v: "it_internal_version (sg_id_tracker s) j = Some v" using version [OF Some] by blast
        have "unat j < pm_total_point_count (sg_pm s)" using mappings_inv_bound [OF inv] Some by (simp add: get_internal_id_def)
        then show ?thesis
          using False Some jo v stamp_version(2) [of s1 j v i op_num] s1(1)
          by (simp add: seg_view_def same seg_point_def vec(3) pi(2))
      qed
    qed
  qed
qed

section \<open>The data of a point after each operation\<close>

lemma map_of_map_key: "map_of (map (\<lambda>(k, v). (k, f k v)) m) k = map_option (f k) (map_of m k)"
  by (induction m) auto

lemma hm_keys_map_key [simp]: "hm_keys (map (\<lambda>(k, v). (k, f k v)) m) = hm_keys m"
  by (induction m) auto

abbreviation checked :: "('n, 'v) segment_params \<Rightarrow> 'v named_vectors \<Rightarrow> bool" where
  "checked p v \<equiv> check_named_vectors p v = Inr () \<and> check_named_vectors p (preprocess p v) = Inr ()"

definition replaced_vectors :: "('n, 'v) segment_params \<Rightarrow> string list \<Rightarrow> 'v named_vectors \<Rightarrow> string \<Rightarrow> 'v option" where
  "replaced_vectors p names v name = (if name \<in> set names then map_of (preprocess p v) name else None)"

text \<open>Vectors written at the offset \<open>i\<close>, in storages of length \<open>n\<close>, and nothing else.\<close>

definition vectors_written ::
  "('n, 'v) point_segment \<Rightarrow> u32 \<Rightarrow> nat \<Rightarrow> (string \<Rightarrow> 'v option) \<Rightarrow> ('n, 'v) point_segment \<Rightarrow> bool" where
  "vectors_written s i n vectors s1 \<longleftrightarrow>
     sg_id_tracker s1 = sg_id_tracker s \<and> sg_names s1 = sg_names s \<and> sg_payload_index s1 = sg_payload_index s \<and>
     sg_error_status s1 = sg_error_status s \<and>
     (\<forall>name d. map_of (sg_vector_data s1) name = Some d \<longrightarrow> length (vd_vectors d) = max n (unat i + 1)) \<and>
     seg_vectors s1 i = vectors \<and>
     (\<forall>j. j \<noteq> i \<longrightarrow> unat j < n \<longrightarrow> seg_vectors s1 j = seg_vectors s j)"

lemma replace_all_vectors_spec:
  assumes "check_named_vectors p v = Inr ()" "hm_wf (sg_vector_data s)"
    and len: "\<And>name d. map_of (sg_vector_data s) name = Some d \<Longrightarrow> length (vd_vectors d) = n"
    and i: "unat i \<le> n"
  shows "\<exists>s1. replace_all_vectors p i op_num v s = (s1, Inr ()) \<and>
    vectors_written s i n (\<lambda>name. if name \<in> set (sg_names s) then map_of v name else None) s1"
proof -
  let ?f = "\<lambda>name d. update_vector (sp_zero p name) (sp_default p name) (unat i) (map_of v name) d"
  let ?s1 = "s\<lparr>sg_vector_data := map (\<lambda>(name, d). (name, ?f name d)) (sg_vector_data s),
             sg_version_tracker := fold (\<lambda>(name, d). vt_set_vector name (Some op_num)) (sg_vector_data s) (sg_version_tracker s)\<rparr>"
  have at: "seg_vectors ?s1 j name = (case map_of (sg_vector_data s) name of None \<Rightarrow> None
      | Some d \<Rightarrow> if j = i then map_of v name else vector_at d (unat j))" if "j = i \<or> unat j < n" for j name
    using that len by (auto simp: seg_vectors_def map_of_map_key vector_at_update word_unat_eq_iff split: option.split)
  have "length (vd_vectors d) = max n (unat i + 1)" if "map_of (sg_vector_data ?s1) name = Some d" for name d
    using that len by (auto simp: map_of_map_key)
  moreover have "seg_vectors ?s1 i name = (if name \<in> set (sg_names s) then map_of v name else None)" for name
    using at [of i name] map_of_eq_None_iff [of "sg_vector_data s" name] by (cases "map_of (sg_vector_data s) name") simp_all
  moreover have "seg_vectors ?s1 j = seg_vectors s j" if "j \<noteq> i" "unat j < n" for j
    using that at [of j] by (simp add: fun_eq_iff seg_vectors_def split: option.split)
  moreover have "replace_all_vectors p i op_num v s = (?s1, Inr ())" using assms(1) by (simp add: replace_all_vectors_def)
  ultimately show ?thesis by (intro exI [of _ ?s1]) (auto simp: vectors_written_def)
qed

lemma update_vectors_loop_spec:
  assumes "set (hm_keys v) \<subseteq> set (sg_names s)" "hm_wf v" "hm_wf (sg_vector_data s)"
    and len: "\<And>name d. map_of (sg_vector_data s) name = Some d \<Longrightarrow> length (vd_vectors d) = n"
    and i: "unat i < n"
  shows "\<exists>s1. update_vectors_loop p i op_num v s = (s1, Inr ()) \<and> vectors_written s i n (seg_vectors s i ++ map_of v) s1"
  using assms(1-4)
proof (induction v arbitrary: s)
  case Nil
  then show ?case using i by (auto simp: vectors_written_def)
next
  case (Cons a v)
  obtain name x where a: "a = (name, x)" by (cases a)
  obtain d where d: "map_of (sg_vector_data s) name = Some d"
    using Cons.prems(1) by (cases "map_of (sg_vector_data s) name") (auto simp: a map_of_eq_None_iff)
  have dl: "length (vd_vectors d) = n" using Cons.prems(4) d by blast
  let ?d = "update_vector (sp_zero p name) (sp_default p name) (unat i) (Some x) d"
  let ?s = "s\<lparr>sg_vector_data := AList.update name ?d (sg_vector_data s),
               sg_version_tracker := vt_set_vector name (Some op_num) (sg_version_tracker s)\<rparr>"
  have keys: "sg_names ?s = sg_names s"
    using Cons.prems(1) by (simp add: a update_keys)
  have at: "seg_vectors ?s j = (if j = i then (seg_vectors s i)(name \<mapsto> x) else seg_vectors s j)" if "j = i \<or> unat j < n" for j
  proof -
    have "vector_at ?d (unat j) = (if j = i then Some x else vector_at d (unat j))"
      using that dl by (subst vector_at_update) (auto simp: word_unat_eq_iff)
    then show ?thesis using d by (auto simp: seg_vectors_def fun_eq_iff map_of_update)
  qed
  have len': "length (vd_vectors d') = n" if "map_of (sg_vector_data ?s) name' = Some d'" for name' d'
    using that Cons.prems(4) dl i by (auto simp: map_of_update split: if_splits)
  have sub: "set (hm_keys v) \<subseteq> set (sg_names ?s)" using Cons.prems(1) unfolding keys by (simp add: a)
  have wf: "hm_wf v" "map_of v name = None" using Cons.prems(2) by (auto simp: a map_of_eq_None_iff)
  have wfs: "hm_wf (sg_vector_data ?s)" using Cons.prems(3) by simp
  obtain s1 where s1: "update_vectors_loop p i op_num v ?s = (s1, Inr ())"
    "vectors_written ?s i n (seg_vectors ?s i ++ map_of v) s1"
    using Cons.IH [of ?s, OF sub wf(1) wfs] len' by blast
  have "seg_vectors ?s i ++ map_of v = seg_vectors s i ++ map_of (a # v)"
    using at [of i] wf(2) by (auto simp: a fun_eq_iff map_add_def split: option.split)
  then have "vectors_written s i n (seg_vectors s i ++ map_of (a # v)) s1"
    using s1(2) at keys unfolding vectors_written_def by simp
  moreover have "update_vectors_loop p i op_num (a # v) s = (s1, Inr ())" using d s1(1) by (simp add: a)
  ultimately show ?case by blast
qed

section \<open>One operation on a point that is there\<close>

text \<open>What an operation may do to the data before the point is stamped.\<close>

definition point_changed ::
  "('n, 'v) segment_params \<Rightarrow> storage_config \<Rightarrow> nat \<Rightarrow> ('n, 'v) point_segment \<Rightarrow> u32 \<Rightarrow> (string \<Rightarrow> 'v option) \<Rightarrow>
    'n payload option \<Rightarrow> ('n, 'v) point_segment \<Rightarrow> bool" where
  "point_changed p c mn s i vectors payload s1 \<longleftrightarrow>
     sg_id_tracker s1 = sg_id_tracker s \<and> sg_names s1 = sg_names s \<and> sg_error_status s1 = sg_error_status s \<and>
     pi_ok mn (sp_codec p) c (sg_payload_index s1) \<and>
     pi_lookup (sp_codec p) (sg_payload_index s1) = (pi_lookup (sp_codec p) (sg_payload_index s))(unat i := payload) \<and>
     (\<forall>name d. map_of (sg_vector_data s1) name = Some d \<longrightarrow> length (vd_vectors d) = pm_total_point_count (sg_pm s)) \<and>
     seg_vectors s1 i = vectors \<and>
     (\<forall>j. j \<noteq> i \<longrightarrow> unat j < pm_total_point_count (sg_pm s) \<longrightarrow> seg_vectors s1 j = seg_vectors s j)"

definition seg_becomes ::
  "('n, 'v) segment_params \<Rightarrow> storage_config \<Rightarrow> nat \<Rightarrow> ('n, 'v) point_segment \<Rightarrow>
    ('n, 'v) point_segment \<times> (seg_error, bool) result \<Rightarrow> (seg_error, bool) result \<Rightarrow> (point_id \<Rightarrow> ('n, 'v) point option) \<Rightarrow> bool" where
  "seg_becomes p c mn s outcome answer view \<longleftrightarrow>
     snd outcome = answer \<and> seg_ok p c mn (fst outcome) \<and> sg_error_status (fst outcome) = None \<and>
     sg_names (fst outcome) = sg_names s \<and> seg_view p (fst outcome) = view"

lemma seg_unchanged:
  "seg_ok p c mn s \<Longrightarrow> sg_error_status s = None \<Longrightarrow> seg_becomes p c mn s (s, answer) answer (seg_view p s)"
  by (simp add: seg_becomes_def)

lemma seg_view_id:
  assumes "seg_ok p c mn s" "seg_view p s e = Some (v, vec, payload)"
  obtains i where "get_internal_id s e = Some i" "it_internal_version (sg_id_tracker s) i = Some v"
    "vec = seg_vectors s i" "payload = pi_lookup (sp_codec p) (sg_payload_index s) (unat i)"
    "unat i < pm_total_point_count (sg_pm s)"
proof -
  obtain i where i: "get_internal_id s e = Some i" and pt: "seg_point p s i = (v, vec, payload)"
    using assms(2) by (auto simp: seg_view_def)
  have inv: "mappings_inv (sg_pm s)" and id: "pm_internal_id (sg_pm s) e = Some i"
    and v: "it_internal_version (sg_id_tracker s) i \<noteq> None"
    using assms(1) i by (simp_all add: seg_ok_def get_internal_id_def)
  show ?thesis
  proof (rule that [OF i])
    show "it_internal_version (sg_id_tracker s) i = Some v" using v pt by (auto simp: seg_point_def)
  qed (use pt mappings_inv_bound [OF inv id] in \<open>simp_all add: seg_point_def\<close>)
qed

lemma seg_op_stale:
  assumes "seg_ok p c mn s" "sg_error_status s = None" "get_internal_id s e = Some i"
    and "it_internal_version (sg_id_tracker s) i = Some v" "op_num < v"
  shows "seg_becomes p c mn s (handle_point_version_and_failure op_num (Some i) operation s) (Inr False) (seg_view p s)"
  using handle_stale [OF assms(2,4,5)] seg_unchanged [OF assms(1,2)] by simp

lemma seg_op_fresh:
  assumes ok: "seg_ok p c mn s" "sg_error_status s = None" "get_internal_id s e = Some i"
    and v: "it_internal_version (sg_id_tracker s) i = Some v" "\<not> op_num < v"
    and step: "operation s = (s1, Inr (applied, Some i))" and changed: "point_changed p c mn s i vectors payload s1"
  shows "seg_becomes p c mn s (handle_point_version_and_failure op_num (Some i) operation s) (Inr applied)
    ((seg_view p s)(e \<mapsto> (op_num, vectors, payload)))"
proof -
  note ch = changed [unfolded point_changed_def]
  have stamped: "seg_ok p c mn (stamp op_num i s1)" "seg_view p (stamp op_num i s1) = (seg_view p s)(e \<mapsto> (op_num, vectors, payload))"
    using seg_stamped [OF ok(1,3), of s1 payload vectors op_num] ch by simp_all
  have "handle_point_version_and_failure op_num (Some i) operation s = (stamp op_num i s1, Inr applied)"
    using handle_fresh [where operation = operation and ?op_point_offset = "Some i", OF ok(2) step] ch ok(2) v by simp
  then show ?thesis using stamped ch ok(2) by (simp add: seg_becomes_def)
qed

lemma payload_op_fresh:
  assumes ok: "seg_ok p c mn s" "sg_error_status s = None" "get_internal_id s e = Some i"
    and v: "it_internal_version (sg_id_tracker s) i = Some v" "\<not> op_num < v"
    and f: "f (sg_payload_index s) (unat i) = Inr pi" "pi_ok mn (sp_codec p) c pi"
      "pi_lookup (sp_codec p) pi = (pi_lookup (sp_codec p) (sg_payload_index s))(unat i := payload)"
  shows "seg_becomes p c mn s (segment_payload_op op_num e f s) (Inr True)
    ((seg_view p s)(e \<mapsto> (op_num, seg_vectors s i, payload)))"
proof -
  let ?s1 = "s\<lparr>sg_payload_index := pi, sg_version_tracker := vt_set_payload (Some op_num) (sg_version_tracker s)\<rparr>"
  have "point_changed p c mn s i (seg_vectors s i) payload ?s1"
    using ok(1) f(2,3) by (simp add: point_changed_def seg_ok_def seg_vectors_def fun_eq_iff)
  then show ?thesis
    unfolding segment_payload_op_def Let_def ok(3)
    by (intro seg_op_fresh [OF ok v, where ?s1.0 = ?s1]) (simp_all add: f(1))
qed

lemma payload_op_missing:
  assumes "sg_error_status s = None" "get_internal_id s e = None"
  shows "segment_payload_op op_num e f s = (s, Inl (PointIdError e))"
  unfolding segment_payload_op_def Let_def assms(2) by (rule handle_missing [OF assms(1)]) simp

text \<open>Deleting a part of the payload: exactly the stored payload changes, and nothing when there is none.\<close>

lemma delete_payload_lookup:
  assumes ok: "pi_ok mn co c s" and cov: "removal_covered key (pi_field_indexes s)"
    and p: "\<And>old. pi_lookup co s k = Some old \<Longrightarrow> storable co c s k (fst (payload_remove old key))"
  obtains s' where "delete_payload co s k key = Inr (s', snd (payload_remove (or_default (pi_lookup co s k)) key))"
    "pi_ok mn co c s'" "pi_lookup co s' = (pi_lookup co s)(k := map_option (\<lambda>old. fst (payload_remove old key)) (pi_lookup co s k))"
proof -
  obtain s' where s': "delete_payload co s k key = Inr (s', snd (payload_remove (or_default (pi_lookup co s k)) key))" "pi_ok mn co c s'"
    using delete_payload_ok [OF assms] by blast
  have sok: "ps_ok co c (pi_payload s)" using ok by (simp add: pi_ok_def)
  have "pi_lookup co s' = (pi_lookup co s)(k := map_option (\<lambda>old. fst (payload_remove old key)) (pi_lookup co s k))"
  proof (cases "ps_payloads co (pi_payload s) k")
    case None
    then have "pi_lookup co s' = pi_lookup co s"
      using s'(1) ps.delete_none [OF sok None, of key] by (auto simp: delete_payload_def pi_lookup_def Let_def)
    then show ?thesis using None by (simp add: pi_lookup_def fun_upd_idem)
  next
    case (Some old)
    obtain st where "ps_delete co (pi_payload s) k key = Inr (st, snd (payload_remove old key))"
      "ps_payloads co st = (ps_payloads co (pi_payload s))(k \<mapsto> fst (payload_remove old key))"
      using ps.delete_some [OF sok Some, where q = "fst (payload_remove old key)" and key = key] p [of old] Some
      by (auto simp: pi_lookup_def storable_def stored_def)
    then show ?thesis using s'(1) Some by (auto simp: delete_payload_def pi_lookup_def Let_def)
  qed
  then show ?thesis using that s' by blast
qed

section \<open>New points and deleted points\<close>

lemma total_replay_insert: "pm_total_point_count (replay_insert pm e i) = max (pm_total_point_count pm) (unat i + 1)"
  by (simp add: pm_total_point_count_def replay_insert_def Let_def pm_simps)

lemma total_replay_delete:
  "mappings_inv pm \<Longrightarrow> pm_total_point_count (replay_delete pm e) = pm_total_point_count pm"
  by (auto simp: pm_total_point_count_def replay_delete_def Let_def pm_simps split: option.split)

text \<open>A segment after the mappings changed for the point \<open>e\<close> only: the other points keep their offsets, versions and data.\<close>

lemma seg_other_points:
  assumes ok: "seg_ok p c mn s" and inv: "mappings_inv (sg_pm s')"
    and ids: "pm_internal_id (sg_pm s') = (pm_internal_id (sg_pm s))(e := new)"
    and total: "pm_total_point_count (sg_pm s) \<le> pm_total_point_count (sg_pm s')"
    and hm: "sg_names s' = sg_names s" "pi_ok mn (sp_codec p) c (sg_payload_index s')"
    and len: "\<And>name d. map_of (sg_vector_data s') name = Some d \<Longrightarrow> length (vd_vectors d) = pm_total_point_count (sg_pm s')"
    and new: "\<And>i. new = Some i \<Longrightarrow> it_internal_version (sg_id_tracker s') i \<noteq> None"
    and free: "\<And>e' j. e' \<noteq> e \<Longrightarrow> pm_internal_id (sg_pm s) e' = Some j \<Longrightarrow> j \<noteq> i"
    and versions: "\<And>j v. j \<noteq> i \<Longrightarrow> it_internal_version (sg_id_tracker s) j = Some v \<Longrightarrow> it_internal_version (sg_id_tracker s') j = Some v"
    and payload: "pi_lookup (sp_codec p) (sg_payload_index s') = (pi_lookup (sp_codec p) (sg_payload_index s))(unat i := None)"
    and vec: "\<And>j. j \<noteq> i \<Longrightarrow> unat j < pm_total_point_count (sg_pm s) \<Longrightarrow> seg_vectors s' j = seg_vectors s j"
  shows "seg_ok p c mn s'" "seg_view p s' = (seg_view p s)(e := map_option (seg_point p s') new)"
proof -
  have old: "mappings_inv (sg_pm s)" using ok by (simp add: seg_ok_def)
  have version: "it_internal_version (sg_id_tracker s') j = it_internal_version (sg_id_tracker s) j \<and>
      it_internal_version (sg_id_tracker s') j \<noteq> None" if "e' \<noteq> e" "pm_internal_id (sg_pm s) e' = Some j" for e' j
  proof -
    have "it_internal_version (sg_id_tracker s) j \<noteq> None" using ok that(2) unfolding seg_ok_def by blast
    then obtain v where v: "it_internal_version (sg_id_tracker s) j = Some v" by blast
    from versions [OF free [OF that(1,2)] v] v show ?thesis by simp
  qed
  show "seg_ok p c mn s'"
    unfolding seg_ok_def
  proof (intro conjI allI impI inv hm(2))
    show "hm_wf (sg_vector_data s')" unfolding hm(1) using ok by (simp add: seg_ok_def)
    show "length (vd_vectors d) = pm_total_point_count (sg_pm s')" if "map_of (sg_vector_data s') name = Some d" for name d
      using len [OF that] .
    show "k < pm_total_point_count (sg_pm s')" if "pi_lookup (sp_codec p) (sg_payload_index s') k \<noteq> None" for k
    proof -
      have "pi_lookup (sp_codec p) (sg_payload_index s) k \<noteq> None" using that by (auto simp: payload split: if_splits)
      then have "k < pm_total_point_count (sg_pm s)" using ok by (simp add: seg_ok_def)
      then show ?thesis using total by simp
    qed
    show "it_internal_version (sg_id_tracker s') j \<noteq> None" if "pm_internal_id (sg_pm s') e' = Some j" for e' j
    proof (cases "e' = e")
      case True
      then show ?thesis using that new by (simp add: ids)
    next
      case False
      then have "pm_internal_id (sg_pm s) e' = Some j" using that by (simp add: ids)
      then show ?thesis using version [OF False] by blast
    qed
  qed
  show "seg_view p s' = (seg_view p s)(e := map_option (seg_point p s') new)"
  proof
    fix e'
    show "seg_view p s' e' = ((seg_view p s)(e := map_option (seg_point p s') new)) e'"
    proof (cases "e' = e \<or> pm_internal_id (sg_pm s) e' = None")
      case True
      then show ?thesis by (auto simp: seg_view_def get_internal_id_def ids)
    next
      case False
      then obtain j where j: "pm_internal_id (sg_pm s) e' = Some j" and e: "e' \<noteq> e" by auto
      have "unat j \<noteq> unat i" using free [OF e j] by (simp add: word_unat_eq_iff)
      then show ?thesis
        using e j version [OF e j] vec [OF free [OF e j] mappings_inv_bound [OF old j]]
        by (simp add: seg_view_def get_internal_id_def ids seg_point_def payload)
    qed
  qed
qed

lemma upsert_new:
  assumes ok: "seg_ok p c mn s" "sg_error_status s = None" "get_internal_id s e = None"
    and v: "checked p v" and room: "pm_total_point_count (sg_pm s) < 2 ^ 32"
  shows "seg_becomes p c mn s (sg_upsert_point p op_num e v s) (Inr False)
    ((seg_view p s)(e \<mapsto> (op_num, replaced_vectors p (sg_names s) v, None)))"
proof -
  let ?n = "pm_total_point_count (sg_pm s)"
  let ?i = "of_nat ?n :: u32"
  have i: "unat ?i = ?n" using room by (simp add: unat_of_nat take_bit_nat_eq_self)
  have inv: "mappings_inv (sg_pm s)" and hm: "hm_wf (sg_vector_data s)"
    and len: "\<And>name d. map_of (sg_vector_data s) name = Some d \<Longrightarrow> length (vd_vectors d) = ?n"
    using ok(1) unfolding seg_ok_def by blast+
  obtain s1 where rep: "replace_all_vectors p ?i op_num (preprocess p v) s = (s1, Inr ())"
    and "vectors_written s ?i ?n (\<lambda>name. if name \<in> set (sg_names s) then map_of (preprocess p v) name else None) s1"
    using replace_all_vectors_spec [OF conjunct2 [OF v] hm, where n = ?n and i = ?i and op_num = op_num] len i by auto
  note s1 = this(2) [unfolded vectors_written_def]
  have idf: "id_free (sg_pm s) e ?i" using ok(3) by (simp add: id_free_def get_internal_id_def)
  have "length (pm_deleted (sg_pm s)) = ?n" using inv by (simp add: mappings_inv_def pm_total_point_count_def)
  then have off: "offset_free (sg_pm s) e ?i" using i by (simp add: offset_free_def pm_external_id_def vec_get_def)
  note link = it_set_link_spec [OF inv idf off] and pm = pm_set_link_spec [OF inv idf off]
  define s2 where "s2 = s1\<lparr>sg_id_tracker := (sg_id_tracker s)\<lparr>it_mappings := replay_insert (sg_pm s) e ?i,
    it_pending_mappings := it_pending_mappings (sg_id_tracker s) @ [Insert e ?i]\<rparr>\<rparr>"
  have ins: "insert_new_vectors p e op_num (preprocess p v) s = (s2, Inr ?i)"
    using rep s1 link by (simp add: insert_new_vectors_def s2_def Let_def)
  let ?s3 = "stamp op_num ?i s2"
  have pm3: "sg_pm ?s3 = replay_insert (sg_pm s) e ?i" by (simp add: s2_def)
  have none: "pi_lookup (sp_codec p) (sg_payload_index s) ?n = None" using ok(1) unfolding seg_ok_def by blast
  have vecs: "seg_vectors s2 = seg_vectors s1" by (simp add: s2_def seg_vectors_def fun_eq_iff)
  have inv3: "mappings_inv (sg_pm ?s3)" and ids3: "pm_internal_id (sg_pm ?s3) = (pm_internal_id (sg_pm s))(e := Some ?i)"
    and total3: "?n \<le> pm_total_point_count (sg_pm ?s3)" and names3: "sg_names ?s3 = sg_names s"
    using s1 unfolding pm3 by (simp_all add: pm(2,3) total_replay_insert s2_def)
  have pi3: "pi_ok mn (sp_codec p) c (sg_payload_index ?s3)" using ok(1) s1 by (simp add: s2_def seg_ok_def)
  have len3: "length (vd_vectors d) = pm_total_point_count (sg_pm ?s3)" if "map_of (sg_vector_data ?s3) name = Some d" for name d
    using s1 that unfolding pm3 by (simp add: s2_def total_replay_insert i)
  have new3: "it_internal_version (sg_id_tracker ?s3) k \<noteq> None" if "Some ?i = Some k" for k
    using that stamp_version(1) [of op_num ?i s2] by auto
  have free3: "j \<noteq> ?i" if "e' \<noteq> e" "pm_internal_id (sg_pm s) e' = Some j" for e' j
    using mappings_inv_bound [OF inv that(2)] i by auto
  have versions3: "it_internal_version (sg_id_tracker ?s3) j = Some w"
    if "j \<noteq> ?i" "it_internal_version (sg_id_tracker s) j = Some w" for j w
    using stamp_version(2) [of s2 j w ?i op_num] that by (simp add: s2_def it_internal_version_def)
  have payload3: "pi_lookup (sp_codec p) (sg_payload_index ?s3) = (pi_lookup (sp_codec p) (sg_payload_index s))(unat ?i := None)"
    using none s1 by (simp add: s2_def i fun_upd_idem)
  have vec3: "seg_vectors ?s3 j = seg_vectors s j" if "j \<noteq> ?i" "unat j < ?n" for j
    using s1 that by (simp add: vecs)
  note other = seg_other_points [OF ok(1) inv3 ids3 total3 names3 pi3 len3 new3 free3 versions3 payload3 vec3]
  have point: "seg_point p ?s3 ?i = (op_num, replaced_vectors p (sg_names s) v, None)"
    using stamp_version(1) [of op_num ?i s2] s1 payload3
    by (simp add: seg_point_def vecs replaced_vectors_def fun_eq_iff)
  have outcome: "sg_upsert_point p op_num e v s = (?s3, Inr False)"
    unfolding sg_upsert_point_def ok(3) using v
    by (simp add: Let_def) (rule handle_fresh [OF ok(2)], simp_all add: ins, use s1 ok(2) in \<open>simp add: s2_def\<close>)
  have "sg_error_status ?s3 = None" using s1 ok(2) by (simp add: s2_def)
  moreover have "seg_view p ?s3 = (seg_view p s)(e \<mapsto> (op_num, replaced_vectors p (sg_names s) v, None))"
    using other(2) unfolding option.map point .
  ultimately show ?thesis
    unfolding seg_becomes_def outcome fst_conv snd_conv by (intro conjI refl other(1) names3)
qed

lemma delete_there:
  assumes ok: "seg_ok p c mn s" "sg_error_status s = None" "get_internal_id s e = Some i"
    and v: "it_internal_version (sg_id_tracker s) i = Some v" "\<not> op_num < v"
  shows "seg_becomes p c mn s (sg_delete_point p op_num e s) (Inr True) ((seg_view p s)(e := None))"
proof -
  have inv: "mappings_inv (sg_pm s)" and id: "pm_internal_id (sg_pm s) e = Some i" and pi: "pi_ok mn (sp_codec p) c (sg_payload_index s)"
    using ok(1,3) by (simp_all add: seg_ok_def get_internal_id_def)
  have ext: "pm_external_id (sg_pm s) i = Some e"
    using id inv by (simp add: mappings_inv_external_id mappings_inv_internal_id)
  obtain pi' where clear: "clear_payload (sp_codec p) (sg_payload_index s) (unat i) =
      Inr (pi', pi_lookup (sp_codec p) (sg_payload_index s) (unat i))" "pi_ok mn (sp_codec p) c pi'"
    "pi_lookup (sp_codec p) pi' = (pi_lookup (sp_codec p) (sg_payload_index s))(unat i := None)"
    using clear_payload_ok [OF pi, of "unat i"] by blast
  obtain s1 where del: "delete_point_internal p i s = (s1, Inr ())"
    and t1: "sg_id_tracker s1 = it_set_internal_version i deleted_point_version ((sg_id_tracker s)\<lparr>
      it_mappings := replay_delete (sg_pm s) e, it_pending_mappings := it_pending_mappings (sg_id_tracker s) @ [Delete e]\<rparr>)"
    and s1: "sg_vector_data s1 = sg_vector_data s" "sg_payload_index s1 = pi'" "sg_error_status s1 = None"
    using clear(1) it_drop_internal_spec [OF inv, of i] ext ok(2) by (simp add: delete_point_internal_def Let_def)
  let ?s2 = "s1\<lparr>sg_version_tracker := vt_set_payload (Some op_num) (sg_version_tracker s1)\<rparr>"
  let ?s3 = "stamp op_num i ?s2"
  have pm3: "sg_pm ?s3 = replay_delete (sg_pm s) e" by (simp add: t1 it_set_internal_version_def)
  have inv3: "mappings_inv (sg_pm ?s3)" and ids3: "pm_internal_id (sg_pm ?s3) = (pm_internal_id (sg_pm s))(e := None)"
    and total3: "pm_total_point_count (sg_pm ?s3) = pm_total_point_count (sg_pm s)"
    unfolding pm3 using replay_delete_spec [OF inv] total_replay_delete [OF inv] by simp_all
  have len3: "length (vd_vectors d) = pm_total_point_count (sg_pm ?s3)" if "map_of (sg_vector_data ?s3) name = Some d" for name d
  proof -
    have "sg_vector_data ?s3 = sg_vector_data s" by (simp add: s1)
    with that have "map_of (sg_vector_data s) name = Some d" by metis
    then show ?thesis using ok(1) unfolding total3 seg_ok_def by blast
  qed
  have versions3: "it_internal_version (sg_id_tracker ?s3) j = Some w"
    if "j \<noteq> i" "it_internal_version (sg_id_tracker s) j = Some w" for j w
  proof (rule stamp_version(2) [OF _ that(1)])
    have "unat j < length (it_versions (sg_id_tracker s))" "w = it_versions (sg_id_tracker s) ! unat j"
      using that(2) by (simp_all add: it_internal_version_def vec_get_def split: if_splits)
    then show "it_internal_version (sg_id_tracker ?s2) j = Some w"
      using that(1) by (simp add: t1 it_internal_version_set)
  qed
  have free3: "j \<noteq> i" if "e' \<noteq> e" "pm_internal_id (sg_pm s) e' = Some j" for e' j
    using mappings_inv_distinct [OF inv that(2)] that(1) id by auto
  have payload3: "pi_lookup (sp_codec p) (sg_payload_index ?s3) = (pi_lookup (sp_codec p) (sg_payload_index s))(unat i := None)"
    by (simp add: s1 clear(3))
  have pi3: "pi_ok mn (sp_codec p) c (sg_payload_index ?s3)" by (simp add: s1 clear(2))
  have names3: "sg_names ?s3 = sg_names s" by (simp add: s1)
  have vec3: "seg_vectors ?s3 j = seg_vectors s j" for j by (simp add: seg_vectors_def s1 fun_eq_iff)
  note other = seg_other_points [OF ok(1) inv3 ids3 _ names3 pi3 len3 _ free3 versions3 payload3 vec3, simplified total3 option.map]
  have outcome: "sg_delete_point p op_num e s = (?s3, Inr True)"
    unfolding sg_delete_point_def ok(3) option.case
    by (rule handle_fresh [OF ok(2)]) (simp_all add: del s1 v)
  have "seg_ok p c mn ?s3" "seg_view p ?s3 = (seg_view p s)(e := None)" using other by simp_all
  moreover have "sg_error_status ?s3 = None" by (simp add: s1)
  ultimately show ?thesis
    unfolding seg_becomes_def outcome fst_conv snd_conv by (intro conjI refl names3)
qed

lemma update_existing:
  assumes ok: "seg_ok p c mn s" "sg_error_status s = None" "get_internal_id s e = Some i"
    and v: "it_internal_version (sg_id_tracker s) i = Some v" "\<not> op_num < v"
    and written: "vectors_written s i (pm_total_point_count (sg_pm s)) vectors s1" "operation s = (s1, Inr (applied, Some i))"
  shows "seg_becomes p c mn s (handle_point_version_and_failure op_num (Some i) operation s) (Inr applied)
    ((seg_view p s)(e \<mapsto> (op_num, vectors, pi_lookup (sp_codec p) (sg_payload_index s) (unat i))))"
proof (rule seg_op_fresh [where operation = operation, OF ok v written(2)])
  have inv: "mappings_inv (sg_pm s)" and id: "pm_internal_id (sg_pm s) e = Some i"
    using ok(1,3) by (simp_all add: seg_ok_def get_internal_id_def)
  have "max (pm_total_point_count (sg_pm s)) (unat i + 1) = pm_total_point_count (sg_pm s)"
    using mappings_inv_bound [OF inv id] by simp
  then show "point_changed p c mn s i vectors (pi_lookup (sp_codec p) (sg_payload_index s) (unat i)) s1"
    using written(1) ok(1) by (simp add: point_changed_def vectors_written_def seg_ok_def)
qed

lemma delete_vector_written:
  assumes ok: "seg_ok p c mn s" "unat i < pm_total_point_count (sg_pm s)" and d: "map_of (sg_vector_data s) name = Some d"
  shows "vectors_written s i (pm_total_point_count (sg_pm s)) ((seg_vectors s i)(name := None))
    (s\<lparr>sg_vector_data := AList.update name (fst (delete_vector_at (unat i) d)) (sg_vector_data s), sg_version_tracker := vt\<rparr>)"
proof -
  have len: "length (vd_vectors d') = pm_total_point_count (sg_pm s)" if "map_of (sg_vector_data s) name' = Some d'" for name' d'
    using ok(1) that unfolding seg_ok_def by blast
  have at: "vector_at (fst (delete_vector_at (unat i) d)) (unat j) = (if j = i then None else vector_at d (unat j))" for j
    by (simp add: delete_vector_at_def vector_at_def set_deleted_fields word_unat_eq_iff)
  have "name \<in> set (sg_names s)" using d map_of_eq_None_iff [of "sg_vector_data s" name] by auto
  moreover have "length (vd_vectors (fst (delete_vector_at (unat i) d))) = pm_total_point_count (sg_pm s)"
    using len [OF d] by (simp add: delete_vector_at_def set_deleted_fields)
  ultimately show ?thesis
    using len ok(2) d at by (auto simp: vectors_written_def update_keys map_of_update seg_vectors_def fun_eq_iff)
qed

section \<open>The store of points\<close>

datatype ('n, 'v) point_op =
    Upsert "'v named_vectors"
  | UpdateVectors "'v named_vectors"
  | DeleteVector string
  | SetFullPayload "'n payload"
  | SetPayload "'n payload" "json_path option"
  | DeletePayload json_path
  | ClearPayload
  | DeletePoint

fun seg_apply :: "('n, 'v) segment_params \<Rightarrow> u64 \<Rightarrow> point_id \<Rightarrow> ('n, 'v) point_op \<Rightarrow> ('n, 'v, bool) seg_op" where
  "seg_apply p op_num e (Upsert v) = sg_upsert_point p op_num e v"
| "seg_apply p op_num e (UpdateVectors v) = sg_update_vectors p op_num e v"
| "seg_apply p op_num e (DeleteVector name) = sg_delete_vector op_num e name"
| "seg_apply p op_num e (SetFullPayload q) = sg_set_full_payload p op_num e q"
| "seg_apply p op_num e (SetPayload q key) = sg_set_payload p op_num e q key"
| "seg_apply p op_num e (DeletePayload key) = sg_delete_payload p op_num e key"
| "seg_apply p op_num e ClearPayload = sg_clear_payload p op_num e"
| "seg_apply p op_num e DeletePoint = sg_delete_point p op_num e"

text \<open>What an operation makes of the vectors and the payload of a point; \<open>None\<close> deletes it.\<close>

fun new_data ::
  "('n, 'v) segment_params \<Rightarrow> string list \<Rightarrow> ('n, 'v) point_op \<Rightarrow> (string \<Rightarrow> 'v option) \<times> 'n payload option \<Rightarrow>
    ((string \<Rightarrow> 'v option) \<times> 'n payload option) option" where
  "new_data p names (Upsert v) (vec, payload) = Some (replaced_vectors p names v, payload)"
| "new_data p names (UpdateVectors v) (vec, payload) = Some (vec ++ map_of (preprocess p v), payload)"
| "new_data p names (DeleteVector name) (vec, payload) = Some (vec(name := None), payload)"
| "new_data p names (SetFullPayload q) (vec, payload) = Some (vec, Some q)"
| "new_data p names (SetPayload q key) (vec, payload) = Some (vec, Some (merged_payload payload q key))"
| "new_data p names (DeletePayload key) (vec, payload) = Some (vec, map_option (\<lambda>old. fst (payload_remove old key)) payload)"
| "new_data p names ClearPayload (vec, payload) = Some (vec, None)"
| "new_data p names DeletePoint (vec, payload) = None"

definition spec_point ::
  "('n, 'v) segment_params \<Rightarrow> string list \<Rightarrow> u64 \<Rightarrow> ('n, 'v) point_op \<Rightarrow> ('n, 'v) point option \<Rightarrow> ('n, 'v) point option" where
  "spec_point p names op_num op point =
     (case point of
        None \<Rightarrow> (case op of Upsert v \<Rightarrow> Some (op_num, replaced_vectors p names v, None) | _ \<Rightarrow> None)
      | Some (version, data) \<Rightarrow> if op_num < version then point else map_option (Pair op_num) (new_data p names op data))"

text \<open>A deleted vector answers whether it was deleted before.\<close>

definition spec_answer :: "u64 \<Rightarrow> point_id \<Rightarrow> ('n, 'v) point_op \<Rightarrow> ('n, 'v) point option \<Rightarrow> (seg_error, bool) result" where
  "spec_answer op_num e op point =
     (case point of
        None \<Rightarrow> (case op of Upsert _ \<Rightarrow> Inr False | DeletePoint \<Rightarrow> Inr False | _ \<Rightarrow> Inl (PointIdError e))
      | Some (version, vec, _) \<Rightarrow>
          if op_num < version then Inr False
          else (case op of DeleteVector name \<Rightarrow> Inr (vec name = None) | _ \<Rightarrow> Inr True))"

text \<open>An operation the segment can carry out: the vectors pass the checks and have names of the segment, there is an offset for
  a new point, what is stored fits the payload storage.\<close>

fun op_room :: "('n, 'v) segment_params \<Rightarrow> storage_config \<Rightarrow> point_id \<Rightarrow> ('n, 'v) point_op \<Rightarrow> ('n, 'v) point_segment \<Rightarrow> bool" where
  "op_room p c e (Upsert v) s \<longleftrightarrow> checked p v \<and> pm_total_point_count (sg_pm s) < 2 ^ 32"
| "op_room p c e (UpdateVectors v) s \<longleftrightarrow> checked p v \<and> hm_wf v \<and> set (hm_keys v) \<subseteq> set (sg_names s)"
| "op_room p c e (DeleteVector name) s \<longleftrightarrow> name \<in> set (sg_names s)"
| "op_room p c e (SetFullPayload q) s \<longleftrightarrow>
    (case get_internal_id s e of None \<Rightarrow> True | Some i \<Rightarrow> storable (sp_codec p) c (sg_payload_index s) (unat i) q)"
| "op_room p c e (SetPayload q key) s \<longleftrightarrow> map_wf q \<and>
    (case get_internal_id s e of None \<Rightarrow> True | Some i \<Rightarrow> storable (sp_codec p) c (sg_payload_index s) (unat i)
       (merged_payload (pi_lookup (sp_codec p) (sg_payload_index s) (unat i)) q key))"
| "op_room p c e (DeletePayload key) s \<longleftrightarrow> removal_covered key (pi_field_indexes (sg_payload_index s)) \<and>
    (case get_internal_id s e of None \<Rightarrow> True
     | Some i \<Rightarrow> (case pi_lookup (sp_codec p) (sg_payload_index s) (unat i) of None \<Rightarrow> True
        | Some old \<Rightarrow> storable (sp_codec p) c (sg_payload_index s) (unat i) (fst (payload_remove old key))))"
| "op_room p c e ClearPayload s \<longleftrightarrow> True"
| "op_room p c e DeletePoint s \<longleftrightarrow> True"

lemma keys_preprocess [simp]: "hm_keys (preprocess p v) = hm_keys v"
  by (induction v) (auto simp: preprocess_def)

lemma point_unchanged: "seg_view p s e = x \<Longrightarrow> (seg_view p s)(e := x) = seg_view p s"
  by auto

lemma seg_missing:
  assumes ok: "seg_ok p c mn s" "sg_error_status s = None" "get_internal_id s e = None" and room: "op_room p c e op s"
  shows "seg_becomes p c mn s (seg_apply p op_num e op s) (spec_answer op_num e op None)
    ((seg_view p s)(e := spec_point p (sg_names s) op_num op None))"
proof -
  have none: "seg_view p s e = None" using ok(3) by (simp add: seg_view_def)
  note keep = seg_unchanged [OF ok(1,2)] point_unchanged [OF none]
  show ?thesis
  proof (cases op)
    case (Upsert v)
    then show ?thesis using upsert_new [OF ok, of v op_num] room by (simp add: spec_answer_def spec_point_def)
  next
    case (UpdateVectors v)
    then show ?thesis using room ok(3) by (simp add: sg_update_vectors_def Let_def keep spec_answer_def spec_point_def)
  next
    case (DeleteVector name)
    then obtain d where "map_of (sg_vector_data s) name = Some d"
      using room map_of_eq_None_iff [of "sg_vector_data s" name] by auto
    then show ?thesis using DeleteVector ok(3) by (simp add: sg_delete_vector_def keep spec_answer_def spec_point_def)
  next
    case (SetFullPayload q)
    then show ?thesis by (simp add: sg_set_full_payload_def payload_op_missing [OF ok(2,3)] keep spec_answer_def spec_point_def)
  next
    case (SetPayload q key)
    then show ?thesis by (simp add: sg_set_payload_def payload_op_missing [OF ok(2,3)] keep spec_answer_def spec_point_def)
  next
    case (DeletePayload key)
    then show ?thesis by (simp add: sg_delete_payload_def payload_op_missing [OF ok(2,3)] keep spec_answer_def spec_point_def)
  next
    case ClearPayload
    then show ?thesis by (simp add: sg_clear_payload_def payload_op_missing [OF ok(2,3)] keep spec_answer_def spec_point_def)
  next
    case DeletePoint
    then show ?thesis using ok(3) by (simp add: sg_delete_point_def keep spec_answer_def spec_point_def)
  qed
qed

lemma payload_op_present:
  assumes ok: "seg_ok p c mn s" "sg_error_status s = None" "get_internal_id s e = Some i"
    and v: "it_internal_version (sg_id_tracker s) i = Some v" "op_num < v"
  shows "segment_payload_op op_num e f s = (s, Inr False)"
  unfolding segment_payload_op_def Let_def ok(3) by (rule handle_stale [OF ok(2) v])

lemma seg_stale:
  assumes ok: "seg_ok p c mn s" "sg_error_status s = None" "get_internal_id s e = Some i" and room: "op_room p c e op s"
    and v: "it_internal_version (sg_id_tracker s) i = Some v" "op_num < v"
  shows "seg_apply p op_num e op s = (s, Inr False)"
proof (cases op)
  case (Upsert w)
  then show ?thesis using room unfolding seg_apply.simps Upsert sg_upsert_point_def ok(3) by (simp add: Let_def handle_stale [OF ok(2) v])
next
  case (UpdateVectors w)
  then show ?thesis using room ok(3) by (simp add: sg_update_vectors_def Let_def handle_stale [OF ok(2) v])
next
  case (DeleteVector name)
  then obtain d where "map_of (sg_vector_data s) name = Some d"
    using room map_of_eq_None_iff [of "sg_vector_data s" name] by auto
  then show ?thesis using DeleteVector ok(3) by (simp add: sg_delete_vector_def handle_stale [OF ok(2) v])
next
  case DeletePoint
  then show ?thesis using ok(3) by (simp add: sg_delete_point_def handle_stale [OF ok(2) v])
qed (simp_all add: sg_set_full_payload_def sg_set_payload_def sg_delete_payload_def sg_clear_payload_def payload_op_present [OF ok v])

lemma seg_fresh:
  assumes ok: "seg_ok p c mn s" "sg_error_status s = None" "get_internal_id s e = Some i" and room: "op_room p c e op s"
    and v: "it_internal_version (sg_id_tracker s) i = Some v" "\<not> op_num < v"
  shows "seg_becomes p c mn s (seg_apply p op_num e op s) (spec_answer op_num e op (Some (seg_point p s i)))
    ((seg_view p s)(e := spec_point p (sg_names s) op_num op (Some (seg_point p s i))))"
proof -
  let ?pl = "pi_lookup (sp_codec p) (sg_payload_index s) (unat i)"
  have point: "seg_point p s i = (v, seg_vectors s i, ?pl)" using v(1) by (simp add: seg_point_def)
  have inv: "mappings_inv (sg_pm s)" and hm: "hm_wf (sg_vector_data s)" and pi: "pi_ok mn (sp_codec p) c (sg_payload_index s)"
    and len: "\<And>name d. map_of (sg_vector_data s) name = Some d \<Longrightarrow> length (vd_vectors d) = pm_total_point_count (sg_pm s)"
    using ok(1) unfolding seg_ok_def by blast+
  have bound: "unat i < pm_total_point_count (sg_pm s)" using mappings_inv_bound [OF inv] ok(3) by (simp add: get_internal_id_def)
  note fresh = v(2) and upd = update_existing [OF ok v] and payload_op = payload_op_fresh [OF ok v]
  show ?thesis
  proof (cases op)
    case (Upsert w)
    then have w: "check_named_vectors p w = Inr ()" "check_named_vectors p (preprocess p w) = Inr ()" using room by simp_all
    obtain s1 where s1: "replace_all_vectors p i op_num (preprocess p w) s = (s1, Inr ())"
      "vectors_written s i (pm_total_point_count (sg_pm s))
        (\<lambda>name. if name \<in> set (sg_names s) then map_of (preprocess p w) name else None) s1"
      using replace_all_vectors_spec [OF w(2) hm, where n = "pm_total_point_count (sg_pm s)" and i = i and op_num = op_num] len bound by auto
    have "(\<lambda>name. if name \<in> set (sg_names s) then map_of (preprocess p w) name else None) = replaced_vectors p (sg_names s) w"
      by (simp add: replaced_vectors_def fun_eq_iff)
    from upd [OF s1(2) [unfolded this], where applied = True] s1(1) show ?thesis
      using fresh by (simp add: Upsert sg_upsert_point_def ok(3) w(1) Let_def spec_answer_def spec_point_def point)
  next
    case (UpdateVectors w)
    then have w: "check_named_vectors p w = Inr ()" "check_named_vectors p (preprocess p w) = Inr ()" "hm_wf (preprocess p w)"
      "set (hm_keys (preprocess p w)) \<subseteq> set (sg_names s)" using room by (simp_all del: set_map)
    obtain s1 where s1: "update_vectors_loop p i op_num (preprocess p w) s = (s1, Inr ())"
      "vectors_written s i (pm_total_point_count (sg_pm s)) (seg_vectors s i ++ map_of (preprocess p w)) s1"
      using update_vectors_loop_spec [OF w(4,3) hm _ bound, of p op_num] len by blast
    from upd [OF s1(2), where applied = True] s1(1) show ?thesis
      using fresh w(1,2) by (simp add: UpdateVectors sg_update_vectors_def update_vectors_at_def ok(3) Let_def spec_answer_def spec_point_def point)
  next
    case (DeleteVector name)
    then obtain d where d: "map_of (sg_vector_data s) name = Some d"
      using room map_of_eq_None_iff [of "sg_vector_data s" name] by auto
    have was: "snd (delete_vector_at (unat i) d) \<longleftrightarrow> seg_vectors s i name = None"
      by (auto simp: delete_vector_at_def set_deleted_def Let_def seg_vectors_def d vector_at_def)
    from upd [OF delete_vector_written [OF ok(1) bound d], where applied = "seg_vectors s i name = None"] show ?thesis
      using fresh was d
      by (simp add: DeleteVector sg_delete_vector_def ok(3) spec_answer_def spec_point_def point case_prod_beta)
  next
    case (SetFullPayload q)
    then obtain s' where "overwrite_payload (sp_codec p) (sg_payload_index s) (unat i) q = Inr s'" "pi_ok mn (sp_codec p) c s'"
      "pi_lookup (sp_codec p) s' = (pi_lookup (sp_codec p) (sg_payload_index s))(unat i \<mapsto> q)"
      using overwrite_payload_ok [OF pi] room ok(3) by auto
    from payload_op [where f = "\<lambda>pi k. overwrite_payload (sp_codec p) pi k q", OF this] show ?thesis
      using fresh by (simp add: SetFullPayload sg_set_full_payload_def spec_answer_def spec_point_def point)
  next
    case (SetPayload q key)
    then obtain s' where "set_payload (sp_codec p) (sg_payload_index s) (unat i) q key = Inr s'" "pi_ok mn (sp_codec p) c s'"
      "pi_lookup (sp_codec p) s' = (pi_lookup (sp_codec p) (sg_payload_index s))(unat i \<mapsto> merged_payload ?pl q key)"
      using set_payload_ok [OF pi, of "unat i" q key] room ok(3) by auto
    from payload_op [where f = "\<lambda>pi k. set_payload (sp_codec p) pi k q key", OF this] show ?thesis
      using fresh by (simp add: SetPayload sg_set_payload_def spec_answer_def spec_point_def point)
  next
    case (DeletePayload key)
    then have cov: "removal_covered key (pi_field_indexes (sg_payload_index s))"
      and store: "\<And>old. ?pl = Some old \<Longrightarrow> storable (sp_codec p) c (sg_payload_index s) (unat i) (fst (payload_remove old key))"
      using room ok(3) by auto
    obtain s' where "delete_payload (sp_codec p) (sg_payload_index s) (unat i) key = Inr (s', snd (payload_remove (or_default ?pl) key))"
      "pi_ok mn (sp_codec p) c s'"
      "pi_lookup (sp_codec p) s' = (pi_lookup (sp_codec p) (sg_payload_index s))(unat i := map_option (\<lambda>old. fst (payload_remove old key)) ?pl)"
      using delete_payload_lookup [OF pi cov store] by blast
    from payload_op [where f = "\<lambda>pi k. map_sum (\<lambda>e. e) fst (delete_payload (sp_codec p) pi k key)", OF _ this(2,3)] this(1) show ?thesis
      using fresh by (simp add: DeletePayload sg_delete_payload_def spec_answer_def spec_point_def point)
  next
    case ClearPayload
    obtain s' where "clear_payload (sp_codec p) (sg_payload_index s) (unat i) = Inr (s', ?pl)" "pi_ok mn (sp_codec p) c s'"
      "pi_lookup (sp_codec p) s' = (pi_lookup (sp_codec p) (sg_payload_index s))(unat i := None)"
      using clear_payload_ok [OF pi] by blast
    from payload_op [where f = "\<lambda>pi k. map_sum (\<lambda>e. e) fst (clear_payload (sp_codec p) pi k)", OF _ this(2,3)] this(1) show ?thesis
      using fresh by (simp add: ClearPayload sg_clear_payload_def spec_answer_def spec_point_def point)
  next
    case DeletePoint
    then show ?thesis using delete_there [OF ok v] fresh by (simp add: spec_answer_def spec_point_def point)
  qed
qed

lemma seg_apply_refines:
  assumes ok: "seg_ok p c mn s" "sg_error_status s = None" and room: "op_room p c e op s"
  shows "seg_becomes p c mn s (seg_apply p op_num e op s) (spec_answer op_num e op (seg_view p s e))
    ((seg_view p s)(e := spec_point p (sg_names s) op_num op (seg_view p s e)))"
proof (cases "get_internal_id s e")
  case None
  then show ?thesis using seg_missing [OF ok None room] by (simp add: seg_view_def)
next
  case (Some i)
  then have view: "seg_view p s e = Some (seg_point p s i)" by (simp add: seg_view_def)
  have "it_internal_version (sg_id_tracker s) i \<noteq> None" using ok(1) Some by (simp add: seg_ok_def get_internal_id_def)
  then obtain v where v: "it_internal_version (sg_id_tracker s) i = Some v" by blast
  show ?thesis
  proof (cases "op_num < v")
    case False
    then show ?thesis using seg_fresh [OF ok Some room v] view by simp
  next
    case True
    then have "spec_point p (sg_names s) op_num op (seg_view p s e) = seg_view p s e" "spec_answer op_num e op (seg_view p s e) = Inr False"
      using v by (simp_all add: view spec_point_def spec_answer_def seg_point_def)
    then show ?thesis using seg_stale [OF ok Some room v True] seg_unchanged [OF ok] by simp
  qed
qed

end
