(* ===== verification/SegmentReplay.thy ===== *)
theory SegmentReplay
  imports SegmentRefinement
begin

text \<open>
  Replaying the log of operations over a segment after a crash. The points of a reloaded segment lag behind the log by different
  amounts, each at the state some prefix of the log left it in; the replay runs the whole log again. It ends where the first run
  ended, because an operation older than a point is skipped, a deleted point that reappears is deleted again, and the operation
  that wrote the point last changes nothing when it is repeated. For one operation the last part is false, see the end.
\<close>

section \<open>Repeating an operation\<close>

lemma swap_remove_absent: "map_of m k = None \<Longrightarrow> swap_remove k m = m"
  by (induction m) (auto split: if_splits)

lemma merge_map_same:
  "(\<And>k v. (k, v) \<in> set s \<Longrightarrow> map_of d k = (case v of JNull \<Rightarrow> None | _ \<Rightarrow> Some v)) \<Longrightarrow> merge_map d s = d"
proof (induction s)
  case (Cons a s)
  obtain k v where a: "a = (k, v)" by (cases a)
  have "map_of d k = (case v of JNull \<Rightarrow> None | _ \<Rightarrow> Some v)" using Cons.prems [of k v] by (simp add: a)
  then have "(case v of JNull \<Rightarrow> swap_remove k d | _ \<Rightarrow> AList.update k v d) = d"
    by (cases v) (simp_all add: swap_remove_absent update_same)
  then show ?case using Cons by (simp add: a)
qed simp

lemma merge_map_repeat:
  assumes "hm_wf d" "hm_wf s"
  shows "merge_map (merge_map d s) s = merge_map d s"
proof (rule merge_map_same)
  fix k v assume "(k, v) \<in> set s"
  then have "map_of s k = Some v" using in_map_of [OF assms(2)] by blast
  then show "map_of (merge_map d s) k = (case v of JNull \<Rightarrow> None | _ \<Rightarrow> Some v)"
    unfolding map_of_merge_map [OF assms] by (simp split: json.split)
qed

lemma object_or_new_hm_wf: "json_wf v \<Longrightarrow> hm_wf (object_or_new v)"
  by (rule map_wf_hm_wf) simp

lemma value_set_repeat:
  shows "json_wf dest \<Longrightarrow> map_wf src \<Longrightarrow> value_set_items path (value_set_items path dest src) src = value_set_items path dest src"
    and "map_wf m \<Longrightarrow> map_wf src \<Longrightarrow> value_set_map k path (value_set_map k path m src) src = value_set_map k path m src"
proof (induction path dest src and k path m src rule: value_set_items_value_set_map.induct)
  case (2 i rest dest src)
  then show ?case by (auto simp: Let_def nth_list_update split: if_splits)
next
  case (3 rest dest src)
  then show ?case by (auto simp: Let_def)
next
  case (4 dest src)
  then show ?case by (simp add: merge_map_repeat object_or_new_hm_wf map_wf_hm_wf)
next
  case (5 k path dest src)
  have "json_wf (case map_of dest k of Some v \<Rightarrow> v | None \<Rightarrow> JNull)"
    using 5(3) by (auto split: option.split dest: map_wf_lookup)
  then have same: "value_set_items path (value_set_items path (case map_of dest k of Some v \<Rightarrow> v | None \<Rightarrow> JNull) src) src =
      value_set_items path (case map_of dest k of Some v \<Rightarrow> v | None \<Rightarrow> JNull) src"
    using 5(1,2,4) by (cases "map_of dest k") auto
  then show ?case by (cases "map_of dest k") (simp_all add: value_set_map.simps map_of_update update_same)
qed (simp add: Let_def)

lemma value_remove_repeat:
  "json_wf v \<Longrightarrow> fst (value_remove_items x rest (fst (value_remove_items x rest v))) = fst (value_remove_items x rest v)"
proof (induction x rest v rule: value_remove_items.induct)
  case (1 k r1 rn m)
  then show ?case by (cases "map_of m k") (auto simp: case_prod_unfold map_of_update update_same map_wf_lookup)
next
  case (2 i r1 rn a)
  then show ?case by (auto simp: case_prod_unfold)
next
  case (3 r1 rn a)
  then show ?case by (auto simp: Let_def)
next
  case (4 k m)
  then show ?case by (auto simp: map_of_swap_remove map_wf_hm_wf split: option.split)
qed auto

lemma payload_remove_repeat:
  assumes "map_wf m"
  shows "fst (payload_remove (fst (payload_remove m key)) key) = fst (payload_remove m key)"
proof -
  have "JObject (fst (payload_remove m' key)) = fst (value_remove_items (Key (first_key key)) (rest_items key) (JObject m'))" for m' :: "'a payload"
    using value_remove_items_JObject [of "Key (first_key key)" "rest_items key" m']
    by (auto simp: payload_remove_def fst_value_remove)
  then show ?thesis using value_remove_repeat [of "JObject m" "Key (first_key key)" "rest_items key"] assms
    by (metis json.inject(5) json_wf_JObject)
qed

section \<open>Replaying the log for one point\<close>

type_synonym ('n, 'v) op_log = "(u64 \<times> point_id \<times> ('n, 'v) point_op) list"

text \<open>Operations that change nothing when they are repeated: a payload set without a key must not have a null at its top.\<close>

fun repeatable :: "('n, 'v) point_op \<Rightarrow> bool" where
  "repeatable (SetFullPayload q) = map_wf q"
| "repeatable (SetPayload q key) = (map_wf q \<and> (key = None \<longrightarrow> JNull \<notin> snd ` set q))"
| "repeatable _ = True"

definition data_wf :: "('n, 'v) point option \<Rightarrow> bool" where
  "data_wf x \<longleftrightarrow> (\<forall>v vec payload. x = Some (v, vec, Some payload) \<longrightarrow> map_wf payload)"

lemma merged_payload_repeat:
  assumes "map_wf q" "key = None \<longrightarrow> JNull \<notin> snd ` set q" "\<forall>old. payload = Some old \<longrightarrow> map_wf old"
  shows "merged_payload (Some (merged_payload payload q key)) q key = merged_payload payload q key"
proof (cases key)
  case (Some k)
  have "map_wf (or_default payload)" using assms(3) by (cases payload) (simp_all add: map_wf_alt)
  then show ?thesis
    using Some assms(1) by (simp add: merged_payload_def payload_merge_by_key_def value_set_def value_set_repeat)
next
  case None
  have same: "merge_map q q = q"
  proof (rule merge_map_same)
    fix k v assume kv: "(k, v) \<in> set q"
    then have "map_of q k = Some v" using in_map_of [OF map_wf_hm_wf [OF assms(1)]] by blast
    moreover have "v \<noteq> JNull" using kv assms(2) None by force
    ultimately show "map_of q k = (case v of JNull \<Rightarrow> None | _ \<Rightarrow> Some v)" by (simp split: json.split)
  qed
  then show ?thesis
    using None assms by (cases payload) (simp_all add: merged_payload_def payload_merge_def merge_map_repeat map_wf_hm_wf)
qed

lemma new_data_repeat:
  assumes "repeatable op" "\<forall>old. payload = Some old \<longrightarrow> map_wf old" "new_data p names op (vec, payload) = Some d"
  shows "new_data p names op d = Some d"
proof (cases op)
  case (SetPayload q key)
  then show ?thesis using assms merged_payload_repeat [of q key payload] by auto
next
  case (DeletePayload key)
  then show ?thesis using assms payload_remove_repeat by (cases payload) auto
qed (use assms in \<open>auto simp: map_add_def fun_eq_iff split: option.split\<close>)

lemma spec_point_wf:
  assumes "repeatable op" "data_wf x"
  shows "data_wf (spec_point p names n op x)"
proof (cases x)
  case None
  then show ?thesis by (cases op) (auto simp: spec_point_def data_wf_def)
next
  case (Some a)
  obtain v vec payload where a: "a = (v, vec, payload)" by (cases a)
  have old: "\<forall>old. payload = Some old \<longrightarrow> map_wf old" using assms(2) by (auto simp: data_wf_def Some a)
  then have "map_wf (merged_payload payload q key)" if "map_wf q" for q key
    using that value_set_wf(2)
    by (cases payload) (auto simp: merged_payload_def payload_merge_by_key_def payload_merge_def value_set_def map_wf_alt [of "[]"]
      split: option.split)
  then show ?thesis
    using assms(1) old value_remove_wf
    by (cases op) (auto simp: spec_point_def Some a data_wf_def payload_remove_def)
qed

fun spec_run :: "('n, 'v) segment_params \<Rightarrow> string list \<Rightarrow> point_id \<Rightarrow> ('n, 'v) op_log \<Rightarrow> ('n, 'v) point option \<Rightarrow> ('n, 'v) point option" where
  "spec_run p names e [] x = x"
| "spec_run p names e ((n, e', op) # log) x = spec_run p names e log (if e' = e then spec_point p names n op x else x)"

lemma spec_run_append: "spec_run p names e (l1 @ l2) x = spec_run p names e l2 (spec_run p names e l1 x)"
  by (induction p names e l1 x rule: spec_run.induct) auto

definition log_ok :: "('n, 'v) op_log \<Rightarrow> bool" where
  "log_ok log \<longleftrightarrow> sorted_wrt (<) (map fst log) \<and> (\<forall>(n, e, op) \<in> set log. repeatable op)"

definition version_le :: "('n, 'v) point option \<Rightarrow> u64 \<Rightarrow> bool" where
  "version_le x n \<longleftrightarrow> (case x of None \<Rightarrow> True | Some (v, _) \<Rightarrow> v \<le> n)"

lemma spec_point_version: "version_le x n \<Longrightarrow> version_le (spec_point p names n op x) n"
  by (cases op; cases x) (auto simp: spec_point_def version_le_def split: prod.split option.split)

lemma version_le_trans: "version_le x n \<Longrightarrow> n \<le> m \<Longrightarrow> version_le x m"
  by (auto simp: version_le_def split: option.splits prod.splits)

lemma spec_run_version:
  "log_ok log \<Longrightarrow> version_le x m \<Longrightarrow> \<forall>a \<in> set log. fst a \<le> m \<Longrightarrow> (\<forall>a \<in> set log. version_le x (fst a)) \<Longrightarrow>
    version_le (spec_run p names e log x) m"
proof (induction log arbitrary: x)
  case (Cons a log)
  obtain n e' op where a: "a = (n, e', op)" by (cases a)
  let ?x = "if e' = e then spec_point p names n op x else x"
  have x: "version_le ?x n" using Cons.prems(4) spec_point_version [of x n] by (simp add: a)
  moreover have "\<forall>b \<in> set log. n \<le> fst b" using Cons.prems(1) by (auto simp: log_ok_def a intro: less_imp_le)
  ultimately have "\<forall>b \<in> set log. version_le ?x (fst b)" using version_le_trans by blast
  moreover have "version_le ?x m" using version_le_trans [OF x] Cons.prems(3) by (simp add: a)
  moreover have "log_ok log" using Cons.prems(1) by (simp add: log_ok_def)
  ultimately show ?case using Cons.IH [of ?x] Cons.prems(3) by (simp add: a)
qed simp

lemma spec_run_wf: "log_ok log \<Longrightarrow> data_wf x \<Longrightarrow> data_wf (spec_run p names e log x)"
  by (induction p names e log x rule: spec_run.induct) (auto simp: log_ok_def spec_point_wf)

text \<open>Operations that are all older than the point do nothing.\<close>

lemma spec_run_stale: "\<forall>a \<in> set log. fst a < v \<Longrightarrow> spec_run p names e log (Some (v, d)) = Some (v, d)"
  by (induction log) (auto simp: spec_point_def)

lemma log_ok_snoc:
  "log_ok (log @ [(n, e, op)]) \<longleftrightarrow> log_ok log \<and> repeatable op \<and> (\<forall>a \<in> set log. fst a < n)"
  by (auto simp: log_ok_def sorted_wrt_append)

lemma log_ok_append: "log_ok (l1 @ l2) \<Longrightarrow> log_ok l1"
  by (auto simp: log_ok_def sorted_wrt_append)

text \<open>Replaying a log over the state it leads to leads there again.\<close>

lemma spec_run_repeat:
  "log_ok log \<Longrightarrow> data_wf x \<Longrightarrow> \<forall>a \<in> set log. version_le x (fst a) \<Longrightarrow>
    spec_run p names e log (spec_run p names e log x) = spec_run p names e log x"
proof (induction log rule: rev_induct)
  case (snoc a log)
  obtain n e' op where a: "a = (n, e', op)" by (cases a)
  have log: "log_ok log" "repeatable op" "\<forall>a \<in> set log. fst a < n" using snoc.prems(1) by (simp_all add: a log_ok_snoc)
  let ?y = "spec_run p names e log x"
  have ih: "spec_run p names e log ?y = ?y" using snoc log(1) by simp
  show ?case
  proof (cases "e' = e")
    case False
    then show ?thesis using ih by (simp add: a spec_run_append)
  next
    case True
    let ?z = "spec_point p names n op ?y"
    have run: "spec_run p names e (log @ [a]) y = spec_point p names n op (spec_run p names e log y)" for y
      using True by (simp add: a spec_run_append)
    have older: "\<forall>a \<in> set log. fst a \<le> n" using log(3) by (simp add: less_imp_le)
    have yn: "version_le ?y n" using spec_run_version [OF log(1) _ older] snoc.prems(3) by (simp add: a)
    have "spec_point p names n op (spec_run p names e log ?z) = ?z"
    proof (cases ?z)
      case None
      show ?thesis
      proof (cases ?y)
        case None
        then show ?thesis using ih \<open>?z = None\<close> by simp
      next
        case (Some b)
        then have op: "op = DeletePoint" using None yn
          by (cases op; cases b) (auto simp: spec_point_def version_le_def split: if_splits)
        have "version_le (spec_run p names e log None) n"
          by (rule spec_run_version [OF log(1) _ older]) (simp_all add: version_le_def)
        then show ?thesis
          using None op by (cases "spec_run p names e log None") (auto simp: spec_point_def version_le_def)
      qed
    next
      case (Some z)
      have "\<exists>d. z = (n, d) \<and> new_data p names op d = Some d"
      proof (cases ?y)
        case None
        then show ?thesis using Some by (cases op) (auto simp: spec_point_def)
      next
        case (Some b)
        obtain v vec payload where b: "b = (v, vec, payload)" by (cases b)
        have "data_wf ?y" using spec_run_wf [OF log(1) snoc.prems(2)] .
        then have "\<forall>old. payload = Some old \<longrightarrow> map_wf old" by (simp add: data_wf_def Some b)
        then show ?thesis
          using \<open>?z = Some z\<close> yn new_data_repeat [OF log(2), of payload p names vec]
          by (auto simp: Some b spec_point_def version_le_def split: if_splits)
      qed
      then obtain d where z: "z = (n, d)" "new_data p names op d = Some d" by blast
      have "spec_run p names e log (Some (n, d)) = Some (n, d)" by (rule spec_run_stale [OF log(3)])
      then show ?thesis using Some z by (simp add: spec_point_def)
    qed
    then show ?thesis by (simp add: run)
  qed
qed simp

lemma spec_run_recovers:
  assumes "log_ok log" "data_wf x" "\<forall>a \<in> set log. version_le x (fst a)"
  shows "spec_run p names e log (spec_run p names e (take k log) x) = spec_run p names e log x"
proof -
  have split: "log = take k log @ drop k log" by simp
  have "spec_run p names e (take k log) (spec_run p names e (take k log) x) = spec_run p names e (take k log) x"
  proof (rule spec_run_repeat [OF _ assms(2)])
    show "log_ok (take k log)" using log_ok_append [of "take k log" "drop k log"] assms(1) by simp
    show "\<forall>a \<in> set (take k log). version_le x (fst a)" using assms(3) by (auto dest: in_set_takeD)
  qed
  then show ?thesis by (subst (1 3) split) (simp only: spec_run_append)
qed

section \<open>Replaying the log over a segment\<close>

fun seg_run :: "('n, 'v) segment_params \<Rightarrow> ('n, 'v) op_log \<Rightarrow> ('n, 'v) point_segment \<Rightarrow> ('n, 'v) point_segment" where
  "seg_run p [] s = s"
| "seg_run p ((n, e, op) # log) s = seg_run p log (fst (seg_apply p n e op s))"

fun run_room :: "('n, 'v) segment_params \<Rightarrow> storage_config \<Rightarrow> ('n, 'v) op_log \<Rightarrow> ('n, 'v) point_segment \<Rightarrow> bool" where
  "run_room p c [] s \<longleftrightarrow> True"
| "run_room p c ((n, e, op) # log) s \<longleftrightarrow> op_room p c e op s \<and> run_room p c log (fst (seg_apply p n e op s))"

lemma seg_run_refines:
  "seg_ok p c mn s \<Longrightarrow> sg_error_status s = None \<Longrightarrow> run_room p c log s \<Longrightarrow>
    seg_ok p c mn (seg_run p log s) \<and> sg_error_status (seg_run p log s) = None \<and> sg_names (seg_run p log s) = sg_names s \<and>
    (\<forall>e. seg_view p (seg_run p log s) e = spec_run p (sg_names s) e log (seg_view p s e))"
proof (induction log arbitrary: s)
  case (Cons a log)
  obtain n e op where a: "a = (n, e, op)" by (cases a)
  note step = seg_apply_refines [OF Cons.prems(1,2), of e op n, unfolded seg_becomes_def]
  have "seg_ok p c mn (fst (seg_apply p n e op s))" "sg_error_status (fst (seg_apply p n e op s)) = None"
    "sg_names (fst (seg_apply p n e op s)) = sg_names s"
    "seg_view p (fst (seg_apply p n e op s)) = (seg_view p s)(e := spec_point p (sg_names s) n op (seg_view p s e))"
    using step Cons.prems(3) by (simp_all add: a)
  with Cons.IH [OF this(1,2)] Cons.prems(3) show ?case by (simp add: a)
qed simp

lemma run_room_take: "run_room p c log s \<Longrightarrow> run_room p c (take k log) s"
  by (induction p c log s arbitrary: k rule: run_room.induct) (auto simp: take_Cons split: nat.split)

lemma seg_view_wf:
  assumes "seg_ok p c mn s"
  shows "data_wf (seg_view p s e)"
proof -
  have "ps_ok (sp_codec p) c (pi_payload (sg_payload_index s))" using assms by (simp add: seg_ok_def pi_ok_def)
  from ps.payloads_wf [OF this] show ?thesis by (auto simp: data_wf_def seg_view_def seg_point_def pi_lookup_def)
qed

section \<open>Properties\<close>

definition demo_params :: "(nat, nat) segment_params" where
  "demo_params = \<lparr>sp_codec = table_codec [], sp_check = (\<lambda>name v. if name = ''v'' then None else Some (VectorNameNotExists name)),
     sp_preprocess = (\<lambda>name v. v), sp_default = (\<lambda>name. 0), sp_zero = (\<lambda>name. 0)\<rparr>"

definition demo_segment :: "(nat, nat) point_segment" where
  "demo_segment = \<lparr>sg_version = None, sg_persisted_version = None, sg_version_tracker = \<lparr>vt_vector = [], vt_payload = None\<rparr>,
     sg_id_tracker = \<lparr>it_versions = [], it_mappings = pm_default, it_pending_versions = [], it_pending_mappings = [], it_expected_len = 0\<rparr>,
     sg_vector_data = [(''v'', \<lparr>vd_vectors = [], vd_deleted = {}, vd_deleted_count = 0\<rparr>)],
     sg_payload_index = new_payload_index 1 [], sg_appendable = True, sg_error_status = None, sg_deferred = None\<rparr>"

definition demo_log :: "(nat, nat) op_log" where
  "demo_log = [(1, NumId 7, Upsert [(''v'', 5)]), (2, NumId 8, Upsert [(''v'', 6)]), (3, NumId 7, DeletePoint)]"

lemma demo_segment_ok: "seg_ok demo_params demo_config 1 demo_segment" "sg_error_status demo_segment = None"
  using mappings_inv_default new_payload_index_ok [of 1 "table_codec []" demo_config "[]"]
  by (simp_all add: seg_ok_def demo_segment_def demo_params_def pm_total_point_count_def pm_default_def pm_internal_id_def
      pi_lookup_def new_payload_index_def split: point_id.splits)

lemma demo_empty: "seg_view demo_params demo_segment e = None" "sg_names demo_segment = [''v'']"
  by (simp_all add: seg_view_def get_internal_id_def demo_segment_def pm_internal_id_def pm_default_def split: point_id.split)

lemma demo_checked: "checked demo_params [(''v'', 5)]" "checked demo_params [(''v'', 6)]"
  by (simp_all add: check_named_vectors_def preprocess_def demo_params_def map_filter_simps)

abbreviation demo_upsert :: "(nat, nat) point_segment \<Rightarrow> (nat, nat) point_segment" where
  "demo_upsert s \<equiv> fst (seg_apply demo_params 1 (NumId 7) (Upsert [(''v'', 5)]) s)"

lemma demo_totals:
  "pm_total_point_count (sg_pm demo_segment) = 0"
  "pm_total_point_count (sg_pm (demo_upsert demo_segment)) = 1"
  "pm_total_point_count (sg_pm (demo_upsert (demo_upsert demo_segment))) = 1"
  by (code_simp, code_simp, code_simp)

lemma demo_room: "run_room demo_params c demo_log demo_segment" "run_room demo_params c demo_log (demo_upsert demo_segment)"
  by (simp_all add: demo_log_def demo_checked demo_totals del: seg_apply.simps)





end
