(* ===== verification/SegmentFiles.thy ===== *)
theory SegmentFiles
  imports SegmentReplay
begin

text \<open>
  The versions a segment reports for its files in the manifest of a partial snapshot (\<open>_get_segment_manifest\<close> of
  \<open>segment/snapshot.rs\<close>): a receiver that has files of that version keeps them. So a storage that an operation changed must
  report at least the number of the operation, which the version tracker of \<open>SegmentPoints\<close> keeps up, except for one operation.
\<close>

definition vector_file_version :: "('n, 'v) point_segment \<Rightarrow> string \<Rightarrow> u64 option" where
  "vector_file_version s vector_name =
     (case map_of (vt_vector (sg_version_tracker s)) vector_name of Some v \<Rightarrow> Some v | None \<Rightarrow> sg_version s)"

definition payload_file_version :: "('n, 'v) point_segment \<Rightarrow> u64 option" where
  "payload_file_version s = (case vt_payload (sg_version_tracker s) of Some v \<Rightarrow> Some v | None \<Rightarrow> sg_version s)"

section \<open>The version tracker\<close>

definition bumped :: "u64 \<Rightarrow> u64 option \<Rightarrow> bool" where
  "bumped n version \<longleftrightarrow> version = None \<or> version = Some n"

lemma vt_set_vector_bumped:
  "bumped n (map_of (vt_vector (vt_set_vector name (Some n) t)) name)"
  "bumped n (map_of (vt_vector t) name') \<Longrightarrow> bumped n (map_of (vt_vector (vt_set_vector name (Some n) t)) name')"
  by (auto simp: vt_set_vector_def bump_key_def bumped_def map_of_update map_of_delete split: option.split)

lemma vt_set_vector_fold_bumped:
  "name \<in> set (hm_keys m) \<or> bumped n (map_of (vt_vector t) name) \<Longrightarrow>
    bumped n (map_of (vt_vector (fold (\<lambda>(name, d). vt_set_vector name (Some n)) m t)) name)"
proof (induction m arbitrary: t)
  case (Cons a m)
  obtain name' d where a: "a = (name', d)" by (cases a)
  have "name \<in> set (hm_keys m) \<or> bumped n (map_of (vt_vector (vt_set_vector name' (Some n) t)) name)"
    using Cons.prems vt_set_vector_bumped(1) [of n name t] vt_set_vector_bumped(2) [of n t name name'] by (auto simp: a)
  then show ?case using Cons.IH by (simp add: a)
qed simp

lemma vt_set_payload_bumped: "bumped n (vt_payload (vt_set_payload (Some n) t))"
  by (auto simp: vt_set_payload_def bump_version_def bumped_def split: option.split)

text \<open>A change of the storages that the tracker follows.\<close>

definition followed :: "u64 \<Rightarrow> ('n, 'v) point_segment \<Rightarrow> ('n, 'v) point_segment \<Rightarrow> string set \<Rightarrow> bool" where
  "followed n s s1 except \<longleftrightarrow>
     (\<forall>name. map_of (sg_vector_data s1) name \<noteq> map_of (sg_vector_data s) name \<longrightarrow> name \<notin> except \<longrightarrow>
        bumped n (map_of (vt_vector (sg_version_tracker s1)) name)) \<and>
     (pi_payload (sg_payload_index s1) \<noteq> pi_payload (sg_payload_index s) \<longrightarrow> bumped n (vt_payload (sg_version_tracker s1)))"

lemma handle_version_outcome:
  assumes "handle_point_version n offset operation s = (s', Inr a)"
  shows "s' = s \<or> (\<exists>s1 i. operation s = (s1, Inr (a, i)) \<and> sg_vector_data s' = sg_vector_data s1 \<and>
    sg_payload_index s' = sg_payload_index s1 \<and> sg_version_tracker s' = sg_version_tracker s1 \<and>
    (\<exists>v. sg_version s' = Some v \<and> n \<le> v))"
proof -
  let ?old = "case offset of None \<Rightarrow> False
    | Some i \<Rightarrow> (case it_internal_version (sg_id_tracker s) i of Some current \<Rightarrow> current > n | None \<Rightarrow> False)"
  obtain s1 r where op: "operation s = (s1, r)" by (cases "operation s")
  show ?thesis
  proof (cases ?old)
    case True
    then show ?thesis using assms by (simp add: handle_point_version_def)
  next
    case False
    then obtain i where r: "r = Inr (a, i)"
      using assms op by (auto simp: handle_point_version_def Let_def split: sum.splits prod.splits)
    then have "s' = (let s2 = bump_segment_version n s1
        in case i of None \<Rightarrow> s2 | Some i \<Rightarrow> s2\<lparr>sg_id_tracker := it_set_internal_version i n (sg_id_tracker s2)\<rparr>)"
      using assms op False by (simp add: handle_point_version_def Let_def)
    then show ?thesis using op r by (cases i) (simp_all add: bump_segment_version_def Let_def)
  qed
qed

lemma handle_outcome:
  assumes "handle_point_version_and_failure n offset operation s = (s', Inr a)"
  shows "(sg_vector_data s' = sg_vector_data s \<and> sg_payload_index s' = sg_payload_index s) \<or>
    (\<exists>s1 i. operation s = (s1, Inr (a, i)) \<and> sg_vector_data s' = sg_vector_data s1 \<and> sg_payload_index s' = sg_payload_index s1 \<and>
      sg_version_tracker s' = sg_version_tracker s1 \<and> (\<exists>v. sg_version s' = Some v \<and> n \<le> v))"
proof -
  obtain s2 where s2: "handle_point_version n offset operation s = (s2, Inr a)"
    and "s' = (case sg_error_status s2 of
        Some f \<Rightarrow> if fs_point_id f = offset_point s2 offset then s2\<lparr>sg_error_status := None\<rparr> else s2 | None \<Rightarrow> s2)"
    using assms
    by (cases "handle_point_version n offset operation s")
      (auto simp: handle_point_version_and_failure_def split: if_splits sum.splits seg_error.splits)
  then have "sg_vector_data s' = sg_vector_data s2 \<and> sg_payload_index s' = sg_payload_index s2 \<and>
      sg_version_tracker s' = sg_version_tracker s2 \<and> sg_version s' = sg_version s2"
    by (auto split: option.split)
  then show ?thesis using handle_version_outcome [OF s2] by metis
qed

lemma replace_all_followed:
  assumes "replace_all_vectors p i n vectors s = (s1, Inr ())"
  shows "followed n s s1 {}"
proof -
  have s1: "sg_vector_data s1 = map (\<lambda>(name, d). (name, update_vector (sp_zero p name) (sp_default p name) (unat i) (map_of vectors name) d)) (sg_vector_data s)"
    "sg_version_tracker s1 = fold (\<lambda>(name, d). vt_set_vector name (Some n)) (sg_vector_data s) (sg_version_tracker s)"
    "sg_payload_index s1 = sg_payload_index s"
    using assms by (auto simp: replace_all_vectors_def split: sum.splits)
  have "name \<in> set (hm_keys (sg_vector_data s))" if "map_of (sg_vector_data s1) name \<noteq> map_of (sg_vector_data s) name" for name
    using that map_of_eq_None_iff [of "sg_vector_data s" name] by (auto simp: s1(1) map_of_map_key)
  then show ?thesis unfolding followed_def s1(2) using vt_set_vector_fold_bumped s1(3) by metis
qed

lemma update_loop_followed:
  "update_vectors_loop p i n vectors s = (s1, Inr ()) \<Longrightarrow>
    sg_payload_index s1 = sg_payload_index s \<and>
    (\<forall>name. bumped n (map_of (vt_vector (sg_version_tracker s)) name) \<longrightarrow> bumped n (map_of (vt_vector (sg_version_tracker s1)) name)) \<and>
    (\<forall>name. map_of (sg_vector_data s1) name \<noteq> map_of (sg_vector_data s) name \<longrightarrow> bumped n (map_of (vt_vector (sg_version_tracker s1)) name))"
proof (induction vectors arbitrary: s)
  case (Cons a vectors)
  obtain name v where a: "a = (name, v)" by (cases a)
  obtain d where d: "map_of (sg_vector_data s) name = Some d"
    using Cons.prems by (auto simp: a split: option.splits)
  let ?s = "s\<lparr>sg_vector_data := AList.update name
      (update_vector (sp_zero p name) (sp_default p name) (unat i) (Some v) d) (sg_vector_data s),
    sg_version_tracker := vt_set_vector name (Some n) (sg_version_tracker s)\<rparr>"
  have "update_vectors_loop p i n vectors ?s = (s1, Inr ())" using Cons.prems d by (simp add: a)
  note ih = Cons.IH [OF this]
  have "bumped n (map_of (vt_vector (sg_version_tracker s1)) name')"
    if "map_of (sg_vector_data s1) name' \<noteq> map_of (sg_vector_data s) name'" for name'
  proof (cases "name' = name")
    case True
    then show ?thesis using ih vt_set_vector_bumped(1) [of n name] by simp
  next
    case False
    then show ?thesis using ih that by (simp add: map_of_update)
  qed
  then show ?case using ih vt_set_vector_bumped(2) by simp
qed simp

lemma update_vectors_followed:
  assumes "update_vectors_at p i n vectors s = (s1, Inr ())"
  shows "followed n s s1 {}"
  using assms update_loop_followed [of p i n vectors s s1] by (auto simp: update_vectors_at_def followed_def split: sum.splits)

lemma insert_new_followed:
  assumes "insert_new_vectors p e n vectors s = (s1, Inr i)"
  shows "followed n s s1 {}"
proof -
  let ?i = "of_nat (pm_total_point_count (sg_pm s)) :: u32"
  obtain s2 r where r: "replace_all_vectors p ?i n vectors s = (s2, r)" by (cases "replace_all_vectors p ?i n vectors s")
  obtain t where "r = Inr ()" "s1 = s2\<lparr>sg_id_tracker := t\<rparr>"
    using assms r by (auto simp: insert_new_vectors_def Let_def split: sum.splits option.splits)
  then show ?thesis using replace_all_followed [of p ?i n vectors s s2] r by (simp add: followed_def)
qed

lemma delete_internal_vectors:
  assumes "delete_point_internal p i s = (s1, r)"
  shows "sg_vector_data s1 = sg_vector_data s"
  using assms by (auto simp: delete_point_internal_def Let_def split: sum.splits option.splits)

lemma followed_same: "sg_vector_data s1 = sg_vector_data s \<Longrightarrow> bumped n (vt_payload (sg_version_tracker s1)) \<Longrightarrow> followed n s s1 except"
  by (simp add: followed_def)

section \<open>What the manifest promises\<close>

fun exempt :: "('n, 'v) point_op \<Rightarrow> string set" where
  "exempt (DeleteVector name) = {name}"
| "exempt _ = {}"

definition files_versioned :: "u64 \<Rightarrow> ('n, 'v) point_segment \<Rightarrow> ('n, 'v) point_segment \<Rightarrow> string set \<Rightarrow> bool" where
  "files_versioned n s s' except \<longleftrightarrow>
     (\<forall>name. map_of (sg_vector_data s') name \<noteq> map_of (sg_vector_data s) name \<longrightarrow> name \<notin> except \<longrightarrow>
        (\<exists>v. vector_file_version s' name = Some v \<and> n \<le> v)) \<and>
     (pi_payload (sg_payload_index s') \<noteq> pi_payload (sg_payload_index s) \<longrightarrow>
        (\<exists>v. payload_file_version s' = Some v \<and> n \<le> v))"

lemma handle_files:
  assumes "handle_point_version_and_failure n offset operation s = (s', Inr a)"
    and "\<And>s1 i. operation s = (s1, Inr (a, i)) \<Longrightarrow> followed n s s1 except"
  shows "files_versioned n s s' except"
  using handle_outcome [OF assms(1)]
proof
  assume "sg_vector_data s' = sg_vector_data s \<and> sg_payload_index s' = sg_payload_index s"
  then show ?thesis by (simp add: files_versioned_def)
next
  assume "\<exists>s1 i. operation s = (s1, Inr (a, i)) \<and> sg_vector_data s' = sg_vector_data s1 \<and>
    sg_payload_index s' = sg_payload_index s1 \<and> sg_version_tracker s' = sg_version_tracker s1 \<and> (\<exists>v. sg_version s' = Some v \<and> n \<le> v)"
  then obtain s1 i v where s1: "operation s = (s1, Inr (a, i))" "sg_vector_data s' = sg_vector_data s1"
    "sg_payload_index s' = sg_payload_index s1" "sg_version_tracker s' = sg_version_tracker s1" "sg_version s' = Some v" "n \<le> v"
    by blast
  have least: "\<exists>w. (case x of Some v \<Rightarrow> Some v | None \<Rightarrow> sg_version s') = Some w \<and> n \<le> w" if "bumped n x" for x
    using that s1(5,6) by (auto simp: bumped_def)
  show ?thesis
    using assms(2) [OF s1(1)] least
    unfolding files_versioned_def followed_def vector_file_version_def payload_file_version_def s1(2-4) by blast
qed

lemma payload_op_files:
  assumes "segment_payload_op n e f s = (s', Inr a)"
  shows "files_versioned n s s' except"
proof (rule handle_files [OF assms [unfolded segment_payload_op_def Let_def]])
  fix s1 i
  assume "(case get_internal_id s e of None \<Rightarrow> (s, Inl (PointIdError e))
    | Some i \<Rightarrow> (case f (sg_payload_index s) (unat i) of Inl _ \<Rightarrow> (s, Inl ServiceError)
       | Inr pi \<Rightarrow> (s\<lparr>sg_payload_index := pi, sg_version_tracker := vt_set_payload (Some n) (sg_version_tracker s)\<rparr>,
           Inr (True, Some i)))) = (s1, Inr (a, i))"
  then have "sg_vector_data s1 = sg_vector_data s \<and> sg_version_tracker s1 = vt_set_payload (Some n) (sg_version_tracker s)"
    by (auto split: option.splits sum.splits)
  then show "followed n s s1 except" using vt_set_payload_bumped [of n] by (simp add: followed_same)
qed

lemma files_unchanged: "files_versioned n s s except"
  by (simp add: files_versioned_def)

text \<open>C31: Whenever an operation succeeds, every vector storage and the payload storage it changed reports a version in the manifest
  of a partial snapshot that is not older than the operation, so no receiver keeps stale files of it; only the deletion of a single
  vector is exempt, for that vector.\<close>

theorem changed_files_versioned:
  assumes "seg_apply p n e op s = (s', Inr a)"
  shows "files_versioned n s s' (exempt op)"
proof (cases op)
  case (Upsert v)
  have h: "handle_point_version_and_failure n (get_internal_id s e) (\<lambda>segment.
      case get_internal_id s e of
        Some existing \<Rightarrow> (case replace_all_vectors p existing n (preprocess p v) segment of
          (s1, Inl e) \<Rightarrow> (s1, Inl e) | (s1, Inr _) \<Rightarrow> (s1, Inr (True, Some existing)))
      | None \<Rightarrow> (case insert_new_vectors p e n (preprocess p v) segment of
          (s1, Inl e) \<Rightarrow> (s1, Inl e) | (s1, Inr new_index) \<Rightarrow> (s1, Inr (False, Some new_index)))) s = (s', Inr a)"
    using assms by (simp add: Upsert sg_upsert_point_def Let_def split: sum.splits)
  show ?thesis
    unfolding Upsert exempt.simps
    by (rule handle_files [OF h])
      (auto split: option.splits prod.splits sum.splits intro: replace_all_followed insert_new_followed)
next
  case (UpdateVectors v)
  then obtain i where h: "handle_point_version_and_failure n (Some i) (\<lambda>segment.
      case update_vectors_at p i n (preprocess p v) segment of
        (s1, Inl e) \<Rightarrow> (s1, Inl e) | (s1, Inr _) \<Rightarrow> (s1, Inr (True, Some i))) s = (s', Inr a)"
    using assms by (auto simp: sg_update_vectors_def Let_def split: sum.splits option.splits)
  show ?thesis
    unfolding UpdateVectors exempt.simps
    by (rule handle_files [OF h]) (auto split: prod.splits sum.splits intro: update_vectors_followed)
next
  case (DeleteVector name)
  then obtain i where h: "handle_point_version_and_failure n (Some i) (\<lambda>segment.
      case map_of (sg_vector_data segment) name of
        None \<Rightarrow> (segment, Inl (VectorNameNotExists name))
      | Some d \<Rightarrow> (case delete_vector_at (unat i) d of (d1, is_deleted) \<Rightarrow>
          (segment\<lparr>sg_vector_data := AList.update name d1 (sg_vector_data segment),
             sg_version_tracker := (if is_deleted then vt_set_vector name (Some n) (sg_version_tracker segment)
               else sg_version_tracker segment)\<rparr>, Inr (is_deleted, Some i)))) s = (s', Inr a)"
    using assms by (auto simp: sg_delete_vector_def split: if_splits option.splits)
  show ?thesis
    unfolding DeleteVector exempt.simps
    by (rule handle_files [OF h]) (auto simp: followed_def map_of_update split: option.splits prod.splits)
next
  case DeletePoint
  show ?thesis
  proof (cases "get_internal_id s e")
    case None
    then show ?thesis using assms by (simp add: DeletePoint sg_delete_point_def files_unchanged)
  next
    case (Some i)
    have h: "handle_point_version_and_failure n (Some i) (\<lambda>segment.
        case delete_point_internal p i segment of
          (s1, Inl e) \<Rightarrow> (s1, Inl e)
        | (s1, Inr _) \<Rightarrow> (s1\<lparr>sg_version_tracker := vt_set_payload (Some n) (sg_version_tracker s1)\<rparr>, Inr (True, Some i))) s = (s', Inr a)"
      using assms Some by (simp add: DeletePoint sg_delete_point_def)
    show ?thesis
      unfolding DeletePoint exempt.simps
      by (rule handle_files [OF h], rule followed_same)
        (auto simp: vt_set_payload_bumped split: prod.splits sum.splits dest: delete_internal_vectors)
  qed
qed (use assms payload_op_files in \<open>auto simp: sg_set_full_payload_def sg_set_payload_def sg_delete_payload_def sg_clear_payload_def\<close>)

theorem changed_files_versioned_witness:
  "files_versioned 1 demo_segment (demo_upsert demo_segment) {}"
proof -
  have "op_room demo_params demo_config (NumId 7) (Upsert [(''v'', 5)]) demo_segment" by (simp add: demo_checked demo_totals)
  from seg_apply_refines [OF demo_segment_ok this, of 1]
  have "snd (seg_apply demo_params 1 (NumId 7) (Upsert [(''v'', 5)]) demo_segment) = Inr False"
    by (simp add: seg_becomes_def spec_answer_def demo_empty del: seg_apply.simps)
  then have "seg_apply demo_params 1 (NumId 7) (Upsert [(''v'', 5)]) demo_segment = (demo_upsert demo_segment, Inr False)"
    by (metis prod.collapse)
  from changed_files_versioned [OF this] show ?thesis by simp
qed

section \<open>Two operations that do not do what they should\<close>

text \<open>The deletion of a vector that is there answers \<open>False\<close> and leaves the version of its storage as it was: the storage returns
  whether the vector was deleted before, where the trait promises whether it is deleted now and was not before.\<close>

lemma deleted_vector_not_versioned:
  assumes ok: "seg_ok p c mn s" "sg_error_status s = None"
    and there: "seg_view p s e = Some (v, vec, payload)" "\<not> n < v" "name \<in> set (sg_names s)" "vec name = Some x"
  shows "\<exists>s'. sg_delete_vector n e name s = (s', Inr False) \<and> seg_view p s' e = Some (n, vec(name := None), payload) \<and>
    sg_version_tracker s' = sg_version_tracker s"
proof -
  obtain i where i: "get_internal_id s e = Some i" "it_internal_version (sg_id_tracker s) i = Some v" "vec = seg_vectors s i"
    using seg_view_id [OF ok(1) there(1)] by metis
  obtain d where d: "map_of (sg_vector_data s) name = Some d"
    using there(3) map_of_eq_None_iff [of "sg_vector_data s" name] by auto
  have kept: "unat i \<notin> vd_deleted d" using there(4) by (auto simp: i(3) seg_vectors_def d vector_at_def split: if_splits)
  obtain d1 where del: "delete_vector_at (unat i) d = (d1, False)"
    using kept by (auto simp: delete_vector_at_def set_deleted_def Let_def)
  let ?s1 = "s\<lparr>sg_vector_data := AList.update name d1 (sg_vector_data s)\<rparr>"
  have "sg_delete_vector n e name s = handle_point_version_and_failure n (Some i) (\<lambda>segment.
      case map_of (sg_vector_data segment) name of
        None \<Rightarrow> (segment, Inl (VectorNameNotExists name))
      | Some d \<Rightarrow> (case delete_vector_at (unat i) d of (d1, is_deleted) \<Rightarrow>
          (segment\<lparr>sg_vector_data := AList.update name d1 (sg_vector_data segment),
             sg_version_tracker := (if is_deleted then vt_set_vector name (Some n) (sg_version_tracker segment)
               else sg_version_tracker segment)\<rparr>, Inr (is_deleted, Some i)))) s"
    by (simp add: sg_delete_vector_def i(1) d)
  also have "\<dots> = (stamp n i ?s1, Inr False)"
    by (rule handle_fresh [OF ok(2)]) (simp_all add: d del ok(2) i(2) there(2))
  finally have run: "sg_delete_vector n e name s = (stamp n i ?s1, Inr False)" .
  have "op_room p c e (DeleteVector name) s" using there(3) by simp
  then have "seg_view p (fst (seg_apply p n e (DeleteVector name) s)) e = Some (n, vec(name := None), payload)"
    using seg_apply_refines [OF ok, of e "DeleteVector name" n] there(1,2) by (simp add: seg_becomes_def spec_point_def)
  moreover have "sg_version_tracker (stamp n i ?s1) = sg_version_tracker s" by (simp add: stamp_def bump_segment_version_def Let_def)
  ultimately show ?thesis using run by (intro exI [of _ "stamp n i ?s1"]) (simp add: run)
qed

text \<open>Setting a payload with a null on a point without a payload stores the null; setting it again removes it. So a replay that
  repeats the last operation on a point changes what the filters on null and missing values answer.\<close>

lemma null_lost_on_replay:
  assumes "v \<le> n"
  shows "spec_run p names e [(n, e, SetPayload [(''a'', JNull)] None)] (Some (v, vec, None)) = Some (n, vec, Some [(''a'', JNull)])"
    and "spec_run p names e [(n, e, SetPayload [(''a'', JNull)] None)] (Some (n, vec, Some [(''a'', JNull)])) = Some (n, vec, Some [])"
  using assms by (simp_all add: spec_point_def merged_payload_def payload_merge_def)

end
