(* ===== verification/TopoSort.thy ===== *)
theory TopoSort
  imports Prelude "HOL-Library.Multiset"
begin

text \<open>
  \<open>lib/common/common/src/toposort.rs\<close> of qdrant: dependencies between elements, each with a value, and the order that puts
  every element after those it depends on. The iterator is Kahn's algorithm: it counts the dependencies that are left of every
  element and emits those without any. The section at the end shows what it yields, also when there are cycles.
\<close>

section \<open>Dependencies\<close>

type_synonym ('t, 'v) topo_sort = "('t, ('t, 'v) hashmap) hashmap"

definition add_dependency :: "'t \<Rightarrow> 't \<Rightarrow> 'v \<Rightarrow> ('t, 'v) topo_sort \<Rightarrow> ('t, 'v) topo_sort" where
  "add_dependency element depends_on v topo =
     AList.update element
       (AList.update depends_on v (case map_of topo element of Some deps \<Rightarrow> deps | None \<Rightarrow> [])) topo"

definition topo_retain :: "('t \<Rightarrow> 't \<Rightarrow> 'v \<Rightarrow> bool) \<Rightarrow> ('t, 'v) topo_sort \<Rightarrow> ('t, 'v) topo_sort" where
  "topo_retain keep topo =
     filter (\<lambda>(element, deps). deps \<noteq> [])
       (map (\<lambda>(element, deps). (element, filter (\<lambda>(depends_on, v). keep element depends_on v) deps)) topo)"

section \<open>The iterator\<close>

record 't topo_iter =
  in_degree :: "('t, nat) hashmap"
  dependents :: "('t, 't list) hashmap"
  ready :: "'t list"

text \<open>The inner loop over the dependencies of a node: the reverse index and the number of dependencies that count.\<close>

fun count_deps :: "('t, nat) hashmap \<Rightarrow> 't \<Rightarrow> 't list \<Rightarrow> ('t, 't list) hashmap \<times> nat \<Rightarrow> ('t, 't list) hashmap \<times> nat" where
  "count_deps degree node [] (index, n) = (index, n)"
| "count_deps degree node (dep # deps) (index, n) =
    (if map_of degree dep = None then count_deps degree node deps (index, n)
     else count_deps degree node deps
       (AList.update dep ((case map_of index dep of Some xs \<Rightarrow> xs | None \<Rightarrow> []) @ [node]) index, n + 1))"

fun count_nodes :: "('t, 'v) topo_sort \<Rightarrow> ('t, nat) hashmap \<times> ('t, 't list) hashmap \<Rightarrow> ('t, nat) hashmap \<times> ('t, 't list) hashmap" where
  "count_nodes [] (degree, index) = (degree, index)"
| "count_nodes ((node, deps) # topo) (degree, index) =
    (if map_of degree node = None then count_nodes topo (degree, index)
     else (case count_deps degree node (hm_keys deps) (index, 0) of
             (index', n) \<Rightarrow> count_nodes topo (AList.update node n degree, index')))"

definition sort_elements :: "('t, 'v) topo_sort \<Rightarrow> 't list \<Rightarrow> 't topo_iter" where
  "sort_elements topo all_nodes =
     (let degree0 = fold (\<lambda>node m. AList.update node 0 m) all_nodes [];
          (degree, index) = count_nodes topo (degree0, [])
      in \<lparr>in_degree = degree, dependents = index,
          ready = filter (\<lambda>node. (case map_of degree node of Some n \<Rightarrow> n | None \<Rightarrow> 0) = 0) all_nodes\<rparr>)"

text \<open>The loop over the dependents of an emitted node; the count is a \<open>usize\<close> that would wrap below zero.\<close>

fun release_deps :: "'t list \<Rightarrow> ('t, nat) hashmap \<times> 't list \<Rightarrow> ('t, nat) hashmap \<times> 't list" where
  "release_deps [] (degree, queue) = (degree, queue)"
| "release_deps (dependent # deps) (degree, queue) =
    (case map_of degree dependent of
       None \<Rightarrow> release_deps deps (degree, queue)
     | Some left \<Rightarrow>
         (let left' = (if left = 0 then 2 ^ 64 - 1 else left - 1)
          in release_deps deps (AList.update dependent left' degree, if left' = 0 then queue @ [dependent] else queue)))"

definition topo_next :: "'t topo_iter \<Rightarrow> 't option \<times> 't topo_iter" where
  "topo_next it =
     (case ready it of
        [] \<Rightarrow> (None, it)
      | node # queue \<Rightarrow>
          (case map_of (dependents it) node of
             None \<Rightarrow> (Some node, it\<lparr>ready := queue\<rparr>)
           | Some deps \<Rightarrow>
               (case release_deps deps (in_degree it, queue) of
                  (degree, queue') \<Rightarrow>
                    (Some node, \<lparr>in_degree = degree, dependents = AList.delete node (dependents it), ready = queue'\<rparr>))))"

definition into_unordered_vec :: "'t topo_iter \<Rightarrow> 't list" where
  "into_unordered_vec it = ready it @ map fst (filter (\<lambda>(node, left). left \<noteq> 0) (in_degree it))"

text \<open>\<open>iter.by_ref().collect()\<close>: the elements up to the first \<open>None\<close>. Every element that joins the queue leaves the reverse
  index for good.\<close>

definition topo_left :: "'t topo_iter \<Rightarrow> nat" where
  "topo_left it = length (ready it) + sum_list (map (length \<circ> snd) (dependents it))"

lemma release_length: "length (snd (release_deps deps (degree, queue))) \<le> length queue + length deps"
proof (induction deps arbitrary: degree queue)
  case (Cons d deps)
  have "length (snd (release_deps deps (degree', q))) \<le> length queue + Suc (length deps)"
    if "length q \<le> Suc (length queue)" for degree' q
    using Cons [of degree' q] that by linarith
  then show ?case by (auto simp: Let_def split: option.splits)
qed simp

lemma delete_sum_length:
  "map_of m k = Some xs \<Longrightarrow> (\<Sum>a\<leftarrow>AList.delete k m. length (snd a)) + length xs \<le> (\<Sum>a\<leftarrow>m. length (snd a))"
proof (induction m)
  case (Cons a m)
  have "(\<Sum>a\<leftarrow>AList.delete k m. length (snd a)) \<le> (\<Sum>a\<leftarrow>m. length (snd a))"
    by (induction m) auto
  with Cons show ?case by (auto split: if_splits)
qed simp

lemma topo_next_left: "topo_next it = (Some node, it') \<Longrightarrow> topo_left it' < topo_left it"
proof -
  assume step: "topo_next it = (Some node, it')"
  then obtain queue where q: "ready it = node # queue" by (auto simp: topo_next_def split: list.splits option.splits prod.splits)
  show ?thesis
  proof (cases "map_of (dependents it) node")
    case None
    then show ?thesis using step q by (auto simp: topo_next_def topo_left_def)
  next
    case (Some deps)
    then show ?thesis
      using step q release_length [of deps "in_degree it" queue] delete_sum_length [OF Some]
      by (auto simp: topo_next_def topo_left_def comp_def split: prod.splits)
  qed
qed

function topo_collect :: "'t topo_iter \<Rightarrow> 't list \<times> 't topo_iter" where
  "topo_collect it =
     (case topo_next it of
        (None, it') \<Rightarrow> ([], it')
      | (Some node, it') \<Rightarrow> (let (nodes, rest) = topo_collect it' in (node # nodes, rest)))"
  by pat_completeness auto
termination topo_collect
  by (relation "measure topo_left") (auto intro: topo_next_left [OF sym])

declare topo_collect.simps [simp del]

section \<open>What the iterator yields\<close>

definition topo_wf :: "('t, 'v) topo_sort \<Rightarrow> bool" where
  "topo_wf topo \<longleftrightarrow> hm_wf topo \<and> (\<forall>(element, deps) \<in> set topo. hm_wf deps)"

text \<open>\<open>depends topo nodes n d\<close>: \<open>n\<close> has to come after \<open>d\<close>, both among the given elements.\<close>

definition depends :: "('t, 'v) topo_sort \<Rightarrow> 't list \<Rightarrow> 't \<Rightarrow> 't \<Rightarrow> bool" where
  "depends topo nodes n d \<longleftrightarrow> n \<in> set nodes \<and> d \<in> set nodes \<and>
     (case map_of topo n of Some deps \<Rightarrow> d \<in> set (hm_keys deps) | None \<Rightarrow> False)"

lemma set_AList_update: "x \<in> set (AList.update k v m) \<Longrightarrow> x = (k, v) \<or> x \<in> set m"
  by (induction m) (auto split: if_splits)

lemma add_dependency_wf: "topo_wf topo \<Longrightarrow> topo_wf (add_dependency n d v topo)"
  by (auto simp: topo_wf_def add_dependency_def split: option.splits dest!: set_AList_update map_of_SomeD)

definition listed :: "('t, 't list) hashmap \<Rightarrow> 't \<Rightarrow> 't list" where
  "listed index d = (case map_of index d of Some xs \<Rightarrow> xs | None \<Rightarrow> [])"

lemma listed_update: "listed (AList.update k xs index) d = (if d = k then xs else listed index d)"
  by (auto simp: listed_def map_of_update)

lemma listed_delete: "listed (AList.delete k index) d = (if d = k then [] else listed index d)"
  by (auto simp: listed_def map_of_delete)

lemma count_deps_spec:
  assumes "distinct deps" "count_deps degree node deps (index, n) = (index', n')" "\<forall>x. map_of degree x = None \<longleftrightarrow> x \<notin> D"
  shows "n' = n + length (filter (\<lambda>d. d \<in> D) deps) \<and>
    (\<forall>d. listed index' d = listed index d @ (if d \<in> set deps \<and> d \<in> D then [node] else []))"
  using assms
proof (induction deps arbitrary: index n)
  case (Cons dep deps)
  show ?case
  proof (cases "dep \<in> D")
    case True
    then have "count_deps degree node deps (AList.update dep (listed index dep @ [node]) index, n + 1) = (index', n')"
      using Cons.prems by (simp add: listed_def)
    from Cons.IH [OF _ this] show ?thesis using Cons.prems True by (auto simp: listed_update)
  next
    case False
    then show ?thesis using Cons by auto
  qed
qed auto

lemma count_nodes_spec:
  assumes "topo_wf topo" "count_nodes topo (degree, index) = (degree', index')" "hm_wf degree"
    and "\<forall>x. map_of degree x = None \<longleftrightarrow> x \<notin> D"
  shows "hm_wf degree' \<and> (\<forall>x. map_of degree' x = None \<longleftrightarrow> x \<notin> D) \<and>
    (\<forall>n \<in> D. map_of degree' n = (case map_of topo n of
        Some deps \<Rightarrow> Some (length (filter (\<lambda>d. d \<in> D) (hm_keys deps))) | None \<Rightarrow> map_of degree n)) \<and>
    (\<forall>d. listed index' d = listed index d @
       map fst (filter (\<lambda>(n, deps). n \<in> D \<and> d \<in> D \<and> d \<in> set (hm_keys deps)) topo))"
  using assms
proof (induction topo arbitrary: degree index)
  case (Cons a topo)
  obtain node deps where a: "a = (node, deps)" by (cases a)
  have wf: "topo_wf topo" "distinct (hm_keys deps)" and new: "map_of topo node = None"
    using Cons.prems(1) by (auto simp: topo_wf_def a map_of_eq_None_iff)
  show ?case
  proof (cases "node \<in> D")
    case False
    then have "count_nodes topo (degree, index) = (degree', index')" using Cons.prems by (simp add: a)
    from Cons.IH [OF wf(1) this Cons.prems(3,4)] False show ?thesis by (auto simp: a split: option.splits)
  next
    case True
    obtain index1 n where c: "count_deps degree node (hm_keys deps) (index, 0) = (index1, n)" by fastforce
    have "count_nodes topo (AList.update node n degree, index1) = (degree', index')"
      using Cons.prems True c by (simp add: a)
    moreover have "\<forall>x. map_of (AList.update node n degree) x = None \<longleftrightarrow> x \<notin> D"
      using Cons.prems(4) True by (auto simp: map_of_update)
    ultimately show ?thesis
      using Cons.IH [OF wf(1), of "AList.update node n degree" index1] count_deps_spec [OF wf(2) c Cons.prems(4)]
        Cons.prems(3) True new
      by (auto simp: a map_of_update split: option.splits)
  qed
qed auto

lemma release_spec:
  assumes "distinct ds" "\<forall>x \<in> set ds. \<exists>c. map_of degree x = Some (Suc c)" "release_deps ds (degree, queue) = (degree', queue')"
  shows "(hm_wf degree \<longrightarrow> hm_wf degree') \<and>
    (\<forall>x. map_of degree' x = (if x \<in> set ds then map_option (\<lambda>c. c - 1) (map_of degree x) else map_of degree x)) \<and>
    queue' = queue @ filter (\<lambda>x. map_of degree x = Some 1) ds"
  using assms
proof (induction ds arbitrary: degree queue)
  case (Cons x ds)
  obtain c where c: "map_of degree x = Some (Suc c)" using Cons.prems(2) by auto
  have rel: "release_deps ds (AList.update x c degree, if c = 0 then queue @ [x] else queue) = (degree', queue')"
    using Cons.prems(3) c by simp
  have same: "filter (\<lambda>y. map_of (AList.update x c degree) y = Some 1) ds = filter (\<lambda>y. map_of degree y = Some 1) ds"
    using Cons.prems(1) by (intro filter_cong) (auto simp: map_of_update)
  have "\<forall>y \<in> set ds. \<exists>c'. map_of (AList.update x c degree) y = Some (Suc c')"
    using Cons.prems(1,2) by (auto simp: map_of_update)
  with Cons.IH [OF _ this rel] Cons.prems(1)
  have ih: "hm_wf (AList.update x c degree) \<longrightarrow> hm_wf degree'"
    "\<And>y. map_of degree' y = (if y \<in> set ds then map_option (\<lambda>c. c - 1) (map_of (AList.update x c degree) y)
       else map_of (AList.update x c degree) y)"
    "queue' = (if c = 0 then queue @ [x] else queue) @ filter (\<lambda>y. map_of degree y = Some 1) ds"
    unfolding same by auto
  have "hm_wf degree \<longrightarrow> hm_wf degree'" using ih(1) by simp
  moreover have "map_of degree' y = (if y \<in> set (x # ds) then map_option (\<lambda>c. c - 1) (map_of degree y) else map_of degree y)" for y
    using c Cons.prems(1) by (simp add: ih(2) map_of_update)
  moreover have "queue' = queue @ filter (\<lambda>y. map_of degree y = Some 1) (x # ds)"
    using c by (simp add: ih(3))
  ultimately show ?case by blast
qed auto

lemma topo_next_release:
  assumes "topo_next it = (Some node, it')"
  obtains queue where "ready it = node # queue"
    "release_deps (listed (dependents it) node) (in_degree it, queue) = (in_degree it', ready it')"
    "\<And>d. listed (dependents it') d = (if d = node then [] else listed (dependents it) d)"
proof -
  obtain queue where q: "ready it = node # queue"
    using assms by (auto simp: topo_next_def split: list.splits option.splits prod.splits)
  show ?thesis
  proof (cases "map_of (dependents it) node")
    case None
    then show ?thesis using that [OF q] assms q by (auto simp: topo_next_def listed_def)
  next
    case (Some deps)
    then show ?thesis
      using that [OF q] assms q by (auto simp: topo_next_def listed_def map_of_delete split: prod.splits)
  qed
qed

definition topo_inv :: "('t, 'v) topo_sort \<Rightarrow> 't list \<Rightarrow> 't list \<Rightarrow> 't topo_iter \<Rightarrow> bool" where
  "topo_inv topo nodes out it \<longleftrightarrow>
     hm_wf (in_degree it) \<and> (\<forall>x. map_of (in_degree it) x = None \<longleftrightarrow> x \<notin> set nodes) \<and>
     distinct (out @ ready it) \<and> set (out @ ready it) \<subseteq> set nodes \<and>
     (\<forall>n \<in> set nodes. map_of (in_degree it) n = Some (card {d. depends topo nodes n d \<and> d \<notin> set out})) \<and>
     (\<forall>n \<in> set nodes. n \<in> set (out @ ready it) \<longleftrightarrow> {d. depends topo nodes n d \<and> d \<notin> set out} = {}) \<and>
     (\<forall>d. d \<notin> set out \<longrightarrow> distinct (listed (dependents it) d) \<and> set (listed (dependents it) d) = {n. depends topo nodes n d}) \<and>
     (\<forall>i < length out. \<forall>d. depends topo nodes (out ! i) d \<longrightarrow> d \<in> set (take i out))"

lemma depends_finite [simp]: "finite {d. depends topo nodes n d \<and> P d}"
  by (rule finite_subset [of _ "set nodes"]) (auto simp: depends_def)

lemma depends_nodes: "depends topo nodes n d \<Longrightarrow> n \<in> set nodes \<and> d \<in> set nodes"
  by (simp add: depends_def)

lemma topo_inv_next:
  assumes inv: "topo_inv topo nodes out it" and step: "topo_next it = (Some node, it')"
  shows "topo_inv topo nodes (out @ [node]) it'"
proof -
  let ?rest = "\<lambda>out n. {d. depends topo nodes n d \<and> d \<notin> set out}"
  obtain queue where q: "ready it = node # queue"
    and rel: "release_deps (listed (dependents it) node) (in_degree it, queue) = (in_degree it', ready it')"
    and listed: "\<And>d. listed (dependents it') d = (if d = node then [] else listed (dependents it) d)"
    using topo_next_release [OF step] by metis
  have node: "node \<notin> set out" "node \<in> set nodes" "?rest out node = {}"
    using inv q by (auto simp: topo_inv_def)
  let ?ds = "listed (dependents it) node"
  have ds: "distinct ?ds" "set ?ds = {n. depends topo nodes n node}"
    using inv node(1) by (auto simp: topo_inv_def)
  have rest: "?rest out n = (if n \<in> set ?ds then insert node (?rest (out @ [node]) n) else ?rest (out @ [node]) n)" for n
    using ds(2) node(1) by auto
  have deg: "map_of (in_degree it) n = Some (card (?rest out n))" if "n \<in> set nodes" for n
    using inv that by (simp add: topo_inv_def)
  have card: "card (?rest out n) = (if n \<in> set ?ds then Suc (card (?rest (out @ [node]) n)) else card (?rest (out @ [node]) n))" for n
    unfolding rest [of n] by simp
  have "\<forall>x \<in> set ?ds. \<exists>c. map_of (in_degree it) x = Some (Suc c)"
    using deg card ds(2) depends_nodes by fastforce
  from release_spec [OF ds(1) this rel] have r: "hm_wf (in_degree it) \<longrightarrow> hm_wf (in_degree it')"
    "\<And>x. map_of (in_degree it') x = (if x \<in> set ?ds then map_option (\<lambda>c. c - 1) (map_of (in_degree it) x) else map_of (in_degree it) x)"
    "ready it' = queue @ filter (\<lambda>x. map_of (in_degree it) x = Some 1) ?ds"
    by auto
  have new: "x \<in> set (filter (\<lambda>x. map_of (in_degree it) x = Some 1) ?ds) \<longleftrightarrow> x \<in> set ?ds \<and> ?rest (out @ [node]) x = {}" for x
    using deg [of x] card [of x] ds(2) depends_nodes [of topo nodes x node] by auto
  have old: "x \<in> set (out @ ready it) \<longleftrightarrow> ?rest out x = {}" if "x \<in> set nodes" for x
    using inv that by (simp add: topo_inv_def)
  have all: "x \<in> set (out @ [node]) \<union> set (ready it') \<longleftrightarrow> ?rest (out @ [node]) x = {}" if "x \<in> set nodes" for x
    using old [OF that] new [of x] rest [of x] by (auto simp: q r(3))
  have fresh: "x \<notin> set (out @ ready it)" if "x \<in> set ?ds" for x
    using that rest [of x] old [of x] ds(2) depends_nodes [of topo nodes x node] by auto
  have dist: "distinct ((out @ [node]) @ ready it')"
    using inv fresh ds(1) by (auto simp: topo_inv_def q r(3))
  have sub: "set ((out @ [node]) @ ready it') \<subseteq> set nodes"
  proof -
    have "set (out @ ready it) \<subseteq> set nodes" using inv by (simp add: topo_inv_def)
    moreover have "set ?ds \<subseteq> set nodes" unfolding ds(2) using depends_nodes by fast
    ultimately show ?thesis by (auto simp: q r(3))
  qed
  have degs: "\<forall>n \<in> set nodes. map_of (in_degree it') n = Some (card (?rest (out @ [node]) n))"
    using deg card by (simp add: r(2))
  have "d \<in> set (take i (out @ [node]))" if "i < length (out @ [node])" "depends topo nodes ((out @ [node]) ! i) d" for i d
  proof (cases "i < length out")
    case True
    then show ?thesis using inv that by (auto simp: topo_inv_def nth_append)
  next
    case False
    then have "i = length out" using that(1) by simp
    then show ?thesis using that(2) node(3) by auto
  qed
  then have order: "\<forall>i < length (out @ [node]). \<forall>d. depends topo nodes ((out @ [node]) ! i) d \<longrightarrow> d \<in> set (take i (out @ [node]))"
    by blast
  have dom: "\<forall>x. map_of (in_degree it') x = None \<longleftrightarrow> x \<notin> set nodes"
    using inv by (auto simp: topo_inv_def r(2))
  have hm: "hm_wf (in_degree it')" using inv r(1) by (simp add: topo_inv_def)
  have deps: "\<forall>d. d \<notin> set (out @ [node]) \<longrightarrow>
      distinct (listed (dependents it') d) \<and> set (listed (dependents it') d) = {n. depends topo nodes n d}"
    using inv by (simp add: topo_inv_def listed)
  have joined: "\<forall>n \<in> set nodes. n \<in> set ((out @ [node]) @ ready it') \<longleftrightarrow> ?rest (out @ [node]) n = {}"
    using all by simp
  show ?thesis
    unfolding topo_inv_def by (intro conjI hm dom dist sub degs joined deps order)
qed

lemma sort_elements_inv:
  assumes "topo_wf topo" "distinct nodes"
  shows "topo_inv topo nodes [] (sort_elements topo nodes)"
proof -
  let ?degree0 = "fold (\<lambda>node m. AList.update node (0::nat) m) nodes []"
  have zero: "map_of (fold (\<lambda>node m. AList.update node (0::nat) m) xs m) x = (if x \<in> set xs then Some 0 else map_of m x)" for xs m x
    by (induction xs arbitrary: m) (auto simp: map_of_update)
  have hm: "hm_wf m \<Longrightarrow> hm_wf (fold (\<lambda>node m. AList.update node (0::nat) m) xs m)" for xs m
    by (induction xs arbitrary: m) auto
  obtain degree index where c: "count_nodes topo (?degree0, []) = (degree, index)" by fastforce
  have it: "sort_elements topo nodes = \<lparr>in_degree = degree, dependents = index,
      ready = filter (\<lambda>node. (case map_of degree node of Some n \<Rightarrow> n | None \<Rightarrow> 0) = 0) nodes\<rparr>"
    by (simp add: sort_elements_def c)
  have zero0: "map_of ?degree0 x = (if x \<in> set nodes then Some 0 else None)" for x using zero [of nodes "[]"] by simp
  have hm0: "hm_wf ?degree0" by (rule hm) simp
  have dom0: "\<forall>x. map_of ?degree0 x = None \<longleftrightarrow> x \<notin> set nodes" using zero0 by simp
  have spec: "hm_wf degree" "\<forall>x. map_of degree x = None \<longleftrightarrow> x \<notin> set nodes"
    "\<forall>n \<in> set nodes. map_of degree n = (case map_of topo n of
        Some deps \<Rightarrow> Some (length (filter (\<lambda>d. d \<in> set nodes) (hm_keys deps))) | None \<Rightarrow> map_of ?degree0 n)"
    "\<forall>d. listed index d = listed [] d @
       map fst (filter (\<lambda>(n, deps). n \<in> set nodes \<and> d \<in> set nodes \<and> d \<in> set (hm_keys deps)) topo)"
    using count_nodes_spec [OF assms(1) c hm0 dom0] by blast+
  have card: "map_of degree n = Some (card {d. depends topo nodes n d})" if "n \<in> set nodes" for n
  proof (cases "map_of topo n")
    case None
    then show ?thesis using spec(3) that zero0 by (simp add: depends_def)
  next
    case (Some deps)
    then have "distinct (hm_keys deps)" using assms(1) by (auto simp: topo_wf_def dest!: map_of_SomeD)
    then have "length (filter (\<lambda>d. d \<in> set nodes) (hm_keys deps)) = card (set (filter (\<lambda>d. d \<in> set nodes) (hm_keys deps)))"
      by (intro distinct_card [symmetric] distinct_filter)
    moreover have "set (filter (\<lambda>d. d \<in> set nodes) (hm_keys deps)) = {d. depends topo nodes n d}"
      using that Some by (auto simp: depends_def)
    ultimately show ?thesis using spec(3) that Some by simp
  qed
  have wf: "hm_wf topo" using assms(1) by (simp add: topo_wf_def)
  have "n \<in> set (listed index d) \<longleftrightarrow> depends topo nodes n d" for n d
  proof -
    have "n \<in> set (listed index d) \<longleftrightarrow>
        (\<exists>deps. (n, deps) \<in> set topo \<and> n \<in> set nodes \<and> d \<in> set nodes \<and> d \<in> set (hm_keys deps))"
      using spec(4) by (force simp: listed_def)
    also have "\<dots> \<longleftrightarrow> depends topo nodes n d"
      unfolding in_map_of [OF wf] by (auto simp: depends_def split: option.splits)
    finally show ?thesis .
  qed
  then have "set (listed index d) = {n. depends topo nodes n d}" for d by blast
  moreover have "distinct (listed index d)" for d
    using wf spec(4) by (simp add: listed_def distinct_map_filter)
  moreover have "n \<in> set nodes \<Longrightarrow> n \<in> set (ready (sort_elements topo nodes)) \<longleftrightarrow> {d. depends topo nodes n d} = {}" for n
    using card depends_finite [of topo nodes n "\<lambda>d. True"] by (auto simp: it)
  moreover have "in_degree (sort_elements topo nodes) = degree" "dependents (sort_elements topo nodes) = index"
    "distinct (ready (sort_elements topo nodes))" "set (ready (sort_elements topo nodes)) \<subseteq> set nodes"
    using assms(2) by (auto simp: it)
  ultimately show ?thesis
    using spec(1,2) card unfolding topo_inv_def by simp
qed

lemma topo_collect_inv:
  "topo_inv topo nodes out it \<Longrightarrow> topo_collect it = (emitted, rest) \<Longrightarrow> topo_inv topo nodes (out @ emitted) rest \<and> ready rest = []"
proof (induction it arbitrary: out emitted rule: topo_collect.induct)
  case (1 it)
  show ?case
  proof (cases "fst (topo_next it)")
    case None
    then have "ready it = []" by (auto simp: topo_next_def split: list.splits option.splits prod.splits)
    with 1(2,3) None show ?thesis by (auto simp: topo_next_def topo_collect.simps [of it])
  next
    case (Some node)
    then obtain it' where step: "topo_next it = (Some node, it')" by (cases "topo_next it") auto
    obtain nodes' rest' where rec: "topo_collect it' = (nodes', rest')" by fastforce
    then have "emitted = node # nodes'" "rest = rest'" using 1(3) step by (simp_all add: topo_collect.simps [of it])
    with 1(1) [OF step [symmetric] refl topo_inv_next [OF 1(2) step]] rec show ?thesis by simp
  qed
qed

lemma into_unordered_vec_rest:
  assumes "topo_inv topo nodes out it" "ready it = []"
  shows "distinct (into_unordered_vec it)" "n \<in> set (into_unordered_vec it) \<longleftrightarrow> n \<in> set nodes \<and> n \<notin> set out"
proof -
  let ?rest = "\<lambda>n. {d. depends topo nodes n d \<and> d \<notin> set out}"
  have hm: "hm_wf (in_degree it)" using assms(1) by (simp add: topo_inv_def)
  then show "distinct (into_unordered_vec it)" by (simp add: into_unordered_vec_def assms(2) distinct_map_filter)
  have "n \<in> set (into_unordered_vec it) \<longleftrightarrow> (\<exists>c. map_of (in_degree it) n = Some c \<and> c \<noteq> 0)"
    using in_map_of [OF hm] by (force simp: into_unordered_vec_def assms(2))
  also have "\<dots> \<longleftrightarrow> n \<in> set nodes \<and> ?rest n \<noteq> {}"
  proof -
    have "map_of (in_degree it) n = (if n \<in> set nodes then Some (card (?rest n)) else None)"
      using assms(1) by (simp add: topo_inv_def)
    then show ?thesis by (simp add: card_gt_0_iff)
  qed
  also have "\<dots> \<longleftrightarrow> n \<in> set nodes \<and> n \<notin> set out"
    using assms by (auto simp: topo_inv_def)
  finally show "n \<in> set (into_unordered_vec it) \<longleftrightarrow> n \<in> set nodes \<and> n \<notin> set out" .
qed

text \<open>The order the iterator yields: nothing is lost or repeated, every element comes after what it depends on, and what is left
  over at the end depends on itself in a circle, so without circles nothing is.\<close>

lemma topo_sort_correct:
  assumes "topo_wf topo" "distinct nodes" "topo_collect (sort_elements topo nodes) = (emitted, rest)"
  shows "mset (emitted @ into_unordered_vec rest) = mset nodes"
    and "i < length emitted \<Longrightarrow> depends topo nodes (emitted ! i) d \<Longrightarrow> d \<in> set (take i emitted)"
    and "n \<in> set (into_unordered_vec rest) \<Longrightarrow> \<exists>d \<in> set (into_unordered_vec rest). depends topo nodes n d"
    and "acyclicP (depends topo nodes) \<Longrightarrow> into_unordered_vec rest = []"
proof -
  have inv: "topo_inv topo nodes emitted rest" "ready rest = []"
    using topo_collect_inv [OF sort_elements_inv [OF assms(1,2)] assms(3)] by simp_all
  note left = into_unordered_vec_rest [OF inv]
  have "set emitted \<subseteq> set nodes" "distinct emitted" using inv by (auto simp: topo_inv_def)
  then show "mset (emitted @ into_unordered_vec rest) = mset nodes"
    using left assms(2) by (subst set_eq_iff_mset_eq_distinct [symmetric]) auto
  show "i < length emitted \<Longrightarrow> depends topo nodes (emitted ! i) d \<Longrightarrow> d \<in> set (take i emitted)"
    using inv by (auto simp: topo_inv_def)
  show cyclic: "\<exists>d \<in> set (into_unordered_vec rest). depends topo nodes n d" if "n \<in> set (into_unordered_vec rest)" for n
  proof -
    have "n \<in> set nodes" "n \<notin> set (emitted @ ready rest)" using that left(2) inv(2) by auto
    moreover have "\<forall>n \<in> set nodes. n \<in> set (emitted @ ready rest) \<longleftrightarrow> {d. depends topo nodes n d \<and> d \<notin> set emitted} = {}"
      using inv(1) unfolding topo_inv_def by simp
    ultimately obtain d where "depends topo nodes n d" "d \<notin> set emitted" by blast
    then show ?thesis using left(2) depends_nodes by metis
  qed
  show "into_unordered_vec rest = []" if acyclic: "acyclicP (depends topo nodes)"
  proof (rule ccontr)
    let ?R = "{(n, d). depends topo nodes n d}"
    assume "into_unordered_vec rest \<noteq> []"
    then obtain x where x: "x \<in> set (into_unordered_vec rest)" by (cases "into_unordered_vec rest") auto
    have "finite ?R" by (rule finite_subset [of _ "set nodes \<times> set nodes"]) (auto dest: depends_nodes)
    then have "wf (?R\<inverse>)" using acyclic by (rule finite_acyclic_wf_converse)
    then obtain z where "z \<in> set (into_unordered_vec rest)" "\<forall>y. (y, z) \<in> ?R\<inverse> \<longrightarrow> y \<notin> set (into_unordered_vec rest)"
      using x by (rule wfE_min) blast
    then show False using cyclic by blast
  qed
qed

end
