(* ===== verification/SortPermutation.thy ===== *)
theory SortPermutation
  imports Prelude "HOL-Library.Multiset"
begin

text \<open>
  \<open>lib/common/common/src/sort_utils.rs\<close> of qdrant: values that cannot be compared or copied are brought into the order of their
  keys by swapping them in place along the cycles of the permutation. It panics when the sort drops a key, and when the sort
  invents or repeats keys the targets are not a permutation.
\<close>

definition swap_at :: "'a list \<Rightarrow> nat \<Rightarrow> nat \<Rightarrow> 'a list" where
  "swap_at xs i j = xs[i := xs ! j, j := xs ! i]"

lemma length_swap_at [simp]: "length (swap_at xs i j) = length xs"
  by (simp add: swap_at_def)

lemma nth_swap_at:
  "i < length xs \<Longrightarrow> j < length xs \<Longrightarrow> k < length xs \<Longrightarrow>
    swap_at xs i j ! k = (if k = i then xs ! j else if k = j then xs ! i else xs ! k)"
  by (auto simp: swap_at_def nth_list_update)

lemma mset_swap_at: "i < length xs \<Longrightarrow> j < length xs \<Longrightarrow> mset (swap_at xs i j) = mset xs"
  by (simp add: swap_at_def mset_swap)

section \<open>The cycle sort\<close>

text \<open>The inner loop at \<open>i\<close>. It ends because every swap brings one more value where it belongs; on lists that are no permutation
  the measure does not help, so the loop is a partial function.\<close>

partial_function (option) follow_cycle :: "nat \<Rightarrow> 'v list \<times> nat list \<Rightarrow> ('v list \<times> nat list) option" where
  [code]: "follow_cycle i vp =
     (case vp of (vs, perm) \<Rightarrow>
        if perm ! i = i then Some (vs, perm)
        else (let target = perm ! i in follow_cycle i (swap_at vs i target, swap_at perm i target)))"

fun cycle_sort :: "nat list \<Rightarrow> 'v list \<times> nat list \<Rightarrow> ('v list \<times> nat list) option" where
  "cycle_sort [] vp = Some vp"
| "cycle_sort (i # js) vp = Option.bind (follow_cycle i vp) (cycle_sort js)"

definition target_index :: "'t list \<Rightarrow> 't \<Rightarrow> nat option" where
  "target_index sorted_keys = map_of (rev (zip sorted_keys [0 ..< length sorted_keys]))"

definition sort_permutation :: "'v list \<Rightarrow> 't list \<Rightarrow> ('t list \<Rightarrow> 't list) \<Rightarrow> 'v list option" where
  "sort_permutation vs keys sort_keys =
     (if length vs \<le> 1 then Some vs
      else (let targets = map (target_index (sort_keys keys)) keys
            in if None \<in> set targets then None
               else map_option fst (cycle_sort [0 ..< length keys] (vs, map the targets))))"

section \<open>The values end up in the order of the sorted keys\<close>

definition cycles_inv :: "'v list \<Rightarrow> 'v list \<times> nat list \<Rightarrow> bool" where
  "cycles_inv final vp \<longleftrightarrow> (case vp of (vs, perm) \<Rightarrow>
     length vs = length final \<and> length perm = length final \<and> mset perm = mset [0 ..< length final] \<and>
     (\<forall>j < length final. final ! (perm ! j) = vs ! j))"

definition misplaced :: "nat list \<Rightarrow> nat" where
  "misplaced perm = card {j. j < length perm \<and> perm ! j \<noteq> j}"

lemma cycles_inv_bound: "cycles_inv final (vs, perm) \<Longrightarrow> j < length final \<Longrightarrow> perm ! j < length final"
  using nth_mem [of j perm] mset_eq_setD [of perm "[0 ..< length final]"] by (auto simp: cycles_inv_def)

lemma cycles_inv_swap:
  assumes "cycles_inv final (vs, perm)" "i < length final"
  shows "cycles_inv final (swap_at vs i (perm ! i), swap_at perm i (perm ! i))"
proof -
  have t: "perm ! i < length final" using cycles_inv_bound [OF assms] .
  have len: "length vs = length final" "length perm = length final" and ms: "mset perm = mset [0 ..< length final]"
    and at: "\<And>j. j < length final \<Longrightarrow> final ! (perm ! j) = vs ! j"
    using assms(1) by (auto simp: cycles_inv_def)
  have "final ! (swap_at perm i (perm ! i) ! j) = swap_at vs i (perm ! i) ! j" if j: "j < length final" for j
    using at [OF j] at [OF assms(2)] at [OF t] t j assms(2) by (simp add: nth_swap_at len)
  then show ?thesis
    using len ms assms(2) t by (simp add: cycles_inv_def mset_swap_at)
qed

lemma misplaced_swap:
  assumes "cycles_inv final (vs, perm)" "i < length final" "perm ! i \<noteq> i"
  shows "misplaced (swap_at perm i (perm ! i)) < misplaced perm"
proof -
  have t: "perm ! i < length final" using cycles_inv_bound [OF assms(1,2)] .
  have len: "length perm = length final" and dist: "distinct perm"
    using assms(1) mset_eq_imp_distinct_iff [of perm "[0 ..< length final]"] by (auto simp: cycles_inv_def)
  have tt: "perm ! (perm ! i) \<noteq> perm ! i"
    using nth_eq_iff_index_eq [OF dist, of "perm ! i" i] assms(2,3) t len by simp
  have swap: "swap_at perm i (perm ! i) ! j = (if j = i then perm ! (perm ! i) else if j = perm ! i then perm ! i else perm ! j)"
    if "j < length perm" for j
    using nth_swap_at [of i perm "perm ! i" j] that assms(2) t len by simp
  have "{j. j < length perm \<and> swap_at perm i (perm ! i) ! j \<noteq> j} \<subseteq> {j. j < length perm \<and> perm ! j \<noteq> j}"
  proof
    fix j assume "j \<in> {j. j < length perm \<and> swap_at perm i (perm ! i) ! j \<noteq> j}"
    then show "j \<in> {j. j < length perm \<and> perm ! j \<noteq> j}" using swap [of j] assms(3) by (cases "j = i") (auto split: if_splits)
  qed
  moreover have "perm ! i \<in> {j. j < length perm \<and> perm ! j \<noteq> j}" "perm ! i \<notin> {j. j < length perm \<and> swap_at perm i (perm ! i) ! j \<noteq> j}"
    using t tt swap [of "perm ! i"] assms(3) len by auto
  ultimately have "{j. j < length perm \<and> swap_at perm i (perm ! i) ! j \<noteq> j} \<subset> {j. j < length perm \<and> perm ! j \<noteq> j}"
    by blast
  then show ?thesis by (simp add: misplaced_def psubset_card_mono)
qed

lemma follow_cycle_correct:
  "cycles_inv final (vs, perm) \<Longrightarrow> i < length final \<Longrightarrow>
    \<exists>vs' perm'. follow_cycle i (vs, perm) = Some (vs', perm') \<and> cycles_inv final (vs', perm') \<and> perm' ! i = i \<and>
      (\<forall>j < length final. perm ! j = j \<longrightarrow> perm' ! j = j)"
proof (induction "misplaced perm" arbitrary: vs perm rule: less_induct)
  case less
  show ?case
  proof (cases "perm ! i = i")
    case True
    then show ?thesis using less.prems by (subst follow_cycle.simps) auto
  next
    case False
    let ?v = "swap_at vs i (perm ! i)" and ?p = "swap_at perm i (perm ! i)"
    have t: "perm ! i < length final" using cycles_inv_bound [OF less.prems] .
    have len: "length perm = length final" using less.prems(1) by (simp add: cycles_inv_def)
    obtain v p where vp: "follow_cycle i (?v, ?p) = Some (v, p)" "cycles_inv final (v, p)" "p ! i = i"
      "\<forall>j < length final. ?p ! j = j \<longrightarrow> p ! j = j"
      using less.hyps [OF misplaced_swap [OF less.prems False] cycles_inv_swap [OF less.prems] less.prems(2)] by blast
    have "follow_cycle i (vs, perm) = Some (v, p)"
      using False vp(1) by (subst follow_cycle.simps) (simp add: Let_def)
    moreover have "\<forall>j < length final. perm ! j = j \<longrightarrow> p ! j = j"
    proof (intro allI impI)
      fix j assume j: "j < length final" "perm ! j = j"
      then have "?p ! j = j" using False t less.prems(2) nth_swap_at [of i perm "perm ! i" j] len by auto
      then show "p ! j = j" using vp(4) j(1) by blast
    qed
    ultimately show ?thesis using vp(2,3) by blast
  qed
qed

lemma cycle_sort_correct:
  "cycles_inv final vp \<Longrightarrow> set js \<subseteq> {..< length final} \<Longrightarrow>
    \<exists>vs' perm'. cycle_sort js vp = Some (vs', perm') \<and> cycles_inv final (vs', perm') \<and>
      (\<forall>j < length final. j \<in> set js \<or> snd vp ! j = j \<longrightarrow> perm' ! j = j)"
proof (induction js arbitrary: vp)
  case Nil
  then show ?case by (cases vp) auto
next
  case (Cons i js)
  obtain vs perm where vp: "vp = (vs, perm)" by (cases vp)
  obtain v p where step: "follow_cycle i (vs, perm) = Some (v, p)" "cycles_inv final (v, p)" "p ! i = i"
    "\<forall>j < length final. perm ! j = j \<longrightarrow> p ! j = j"
    using follow_cycle_correct [of final vs perm i] Cons.prems by (auto simp: vp)
  obtain v' p' where "cycle_sort js (v, p) = Some (v', p')" "cycles_inv final (v', p')"
    "\<forall>j < length final. j \<in> set js \<or> p ! j = j \<longrightarrow> p' ! j = j"
    using Cons.IH [OF step(2)] Cons.prems(2) by auto
  then show ?case using step Cons.prems(2) by (auto simp: vp)
qed

lemma target_index_nth:
  assumes "distinct sorted_keys" "i < length sorted_keys"
  shows "target_index sorted_keys (sorted_keys ! i) = Some i"
proof -
  have "distinct (map fst (zip sorted_keys [0 ..< length sorted_keys]))" using assms(1) by simp
  then have "target_index sorted_keys (sorted_keys ! i) = map_of (zip sorted_keys [0 ..< length sorted_keys]) (sorted_keys ! i)"
    unfolding target_index_def by (metis map_of_inject_set rev_map distinct_rev set_rev)
  also have "\<dots> = Some i" using map_of_zip_nth [of sorted_keys "[0 ..< length sorted_keys]" i] assms by simp
  finally show ?thesis .
qed

lemma sort_permutation_correct:
  assumes "length vs = length keys" "distinct keys" and perm: "mset (sort_keys keys) = mset keys"
  shows "sort_permutation vs keys sort_keys = Some (map (\<lambda>k. the (map_of (zip keys vs) k)) (sort_keys keys))"
proof (cases "length vs \<le> 1")
  case True
  have "length (sort_keys keys) = length keys" using perm by (rule mset_eq_length)
  then show ?thesis
    using True assms by (cases vs; cases keys) (auto simp: sort_permutation_def length_Suc_conv)
next
  case False
  let ?sorted = "sort_keys keys"
  let ?final = "map (\<lambda>k. the (map_of (zip keys vs) k)) ?sorted"
  let ?targets = "map (target_index ?sorted) keys"
  let ?n = "length keys"
  have sorted: "distinct ?sorted" "set ?sorted = set keys" "length ?sorted = ?n"
    using perm assms(2) mset_eq_imp_distinct_iff [OF perm] mset_eq_setD [OF perm] mset_eq_length [OF perm] by auto
  have target: "\<exists>t < ?n. target_index ?sorted k = Some t \<and> ?sorted ! t = k" if "k \<in> set keys" for k
  proof -
    obtain t where "t < length ?sorted" "?sorted ! t = k" using \<open>k \<in> set keys\<close> unfolding sorted(2) [symmetric] by (auto simp: in_set_conv_nth)
    then show ?thesis using target_index_nth [OF sorted(1)] sorted(3) by metis
  qed
  let ?perm = "map the ?targets"
  have p: "?perm ! j < ?n \<and> ?sorted ! (?perm ! j) = keys ! j" if "j < ?n" for j
    using target [of "keys ! j"] that by auto
  have "distinct ?perm"
  proof (rule distinct_conv_nth [THEN iffD2], intro allI impI)
    fix i j assume ij: "i < length ?perm" "j < length ?perm" "i \<noteq> j"
    then have "keys ! i \<noteq> keys ! j" using assms(2) by (simp add: nth_eq_iff_index_eq)
    then show "?perm ! i \<noteq> ?perm ! j" using p [of i] p [of j] ij by fastforce
  qed
  moreover have "set ?perm \<subseteq> {..< ?n}" using p by (auto simp: in_set_conv_nth)
  ultimately have "set ?perm = set [0 ..< ?n]"
    using card_subset_eq [of "{..< ?n}" "set ?perm"] distinct_card [of ?perm] by (auto simp: atLeast0LessThan)
  then have ms: "mset ?perm = mset [0 ..< ?n]" using \<open>distinct ?perm\<close> by (subst set_eq_iff_mset_eq_distinct [symmetric]) simp_all
  have inv: "cycles_inv ?final (vs, ?perm)"
    unfolding cycles_inv_def
  proof (simp only: prod.case, intro conjI allI impI)
    show "mset ?perm = mset [0 ..< length ?final]" using ms sorted(3) by simp
    fix j assume "j < length ?final"
    then have j: "j < ?n" using sorted(3) by simp
    then have "?final ! (?perm ! j) = the (map_of (zip keys vs) (keys ! j))" using p [OF j] sorted(3) by (simp del: nth_map) simp
    also have "\<dots> = vs ! j" using map_of_zip_nth [of keys vs j] assms(1,2) j by simp
    finally show "?final ! (?perm ! j) = vs ! j" .
  qed (simp_all add: assms(1) sorted(3))
  obtain vs' perm' where r: "cycle_sort [0 ..< ?n] (vs, ?perm) = Some (vs', perm')" "cycles_inv ?final (vs', perm')"
    "\<forall>j < length ?final. perm' ! j = j"
    using cycle_sort_correct [OF inv, of "[0 ..< ?n]"] sorted(3) by (auto simp: subset_iff)
  have "vs' = ?final"
    using r(2,3) by (intro nth_equalityI) (auto simp: cycles_inv_def)
  moreover have "None \<notin> set ?targets" using target by fastforce
  ultimately show ?thesis using False r(1) by (simp add: sort_permutation_def Let_def)
qed

end
