(* ===== verification/SegmentHolder.thy ===== *)
theory SegmentHolder
  imports TopoSort SortPermutation SegmentRefinement
begin

text \<open>
  \<open>lib/shard/src/segment_holder\<close> of qdrant (\<open>mod.rs\<close>, \<open>flush.rs\<close>): the segments of a shard. A point can have copies in
  several segments, of which the newest counts; an operation on a point in a segment that takes no writes copies it to an
  appendable one; and what is flushed, and in which order, decides how much of the log may be forgotten.

  All segments are original ones, no proxies; a lock is held by the step that takes it. Which appendable segment a copy goes to
  (\<open>aloha_random_write\<close>, the first unlocked one or a random one) is a parameter, a choice for every copy.
\<close>

section \<open>The segments of a shard\<close>

type_synonym segment_id = u64

record ('n, 'v) segment_holder =
  sh_appendable :: "(segment_id, ('n, 'v) point_segment) btree"
  sh_non_appendable :: "(segment_id, ('n, 'v) point_segment) btree"
  sh_id_source :: u64
  sh_version_overwrite :: u64
  sh_flush_dependency :: "(segment_id, u64) topo_sort"

definition sh_iter :: "('n, 'v) segment_holder \<Rightarrow> (segment_id \<times> ('n, 'v) point_segment) list" where
  "sh_iter h = sh_appendable h @ sh_non_appendable h"

definition sh_len :: "('n, 'v) segment_holder \<Rightarrow> nat" where
  "sh_len h = length (sh_appendable h) + length (sh_non_appendable h)"

definition sh_get :: "('n, 'v) segment_holder \<Rightarrow> segment_id \<Rightarrow> ('n, 'v) point_segment option" where
  "sh_get h i = (case map_of (sh_appendable h) i of Some s \<Rightarrow> Some s | None \<Rightarrow> map_of (sh_non_appendable h) i)"

partial_function (option) sh_generate_new_key :: "('n, 'v) segment_holder \<Rightarrow> (segment_id \<times> ('n, 'v) segment_holder) option" where
  [code]: "sh_generate_new_key h =
     (let key = sh_id_source h;
          h1 = h\<lparr>sh_id_source := sh_id_source h + 1\<rparr>
      in if sh_get h1 key \<noteq> None then sh_generate_new_key h1 else Some (key, h1))"

definition sh_add_existing :: "segment_id \<Rightarrow> ('n, 'v) point_segment \<Rightarrow> ('n, 'v) segment_holder \<Rightarrow> ('n, 'v) segment_holder" where
  "sh_add_existing i s h =
     (if sg_appendable s then h\<lparr>sh_appendable := bt_insert i s (sh_appendable h)\<rparr>
      else h\<lparr>sh_non_appendable := bt_insert i s (sh_non_appendable h)\<rparr>)"

definition sh_add_new :: "('n, 'v) point_segment \<Rightarrow> ('n, 'v) segment_holder \<Rightarrow> (segment_id \<times> ('n, 'v) segment_holder) option" where
  "sh_add_new s h = map_option (\<lambda>(key, h1). (key, sh_add_existing key s h1)) (sh_generate_new_key h)"

fun sh_remove :: "segment_id list \<Rightarrow> ('n, 'v) segment_holder \<Rightarrow> ('n, 'v) point_segment list \<times> ('n, 'v) segment_holder" where
  "sh_remove [] h = ([], h)"
| "sh_remove (i # ids) h =
    (let removed = (case map_of (sh_appendable h) i of Some s \<Rightarrow> [s] | None \<Rightarrow> [])
           @ (case map_of (sh_non_appendable h) i of Some s \<Rightarrow> [s] | None \<Rightarrow> []);
         (rest, h1) = sh_remove ids (h\<lparr>sh_appendable := AList.delete i (sh_appendable h),
           sh_non_appendable := AList.delete i (sh_non_appendable h)\<rparr>)
     in (removed @ rest, h1))"

definition sh_swap_new ::
  "('n, 'v) point_segment \<Rightarrow> segment_id list \<Rightarrow> ('n, 'v) segment_holder \<Rightarrow>
    (segment_id \<times> ('n, 'v) point_segment list \<times> ('n, 'v) segment_holder) option" where
  "sh_swap_new s ids h = map_option (\<lambda>(key, h1). (key, sh_remove ids h1)) (sh_add_new s h)"

definition sh_replace ::
  "segment_id \<Rightarrow> ('n, 'v) point_segment \<Rightarrow> ('n, 'v) segment_holder \<Rightarrow>
    ('n, 'v) segment_holder \<times> (seg_error, ('n, 'v) point_segment) result" where
  "sh_replace i s h =
     (case sh_remove [i] h of
        ([], h1) \<Rightarrow> (h1, Inl ServiceError)
      | (removed, h1) \<Rightarrow> (sh_add_existing i s h1, Inr (last removed)))"

definition sh_bump_version_overwrite :: "u64 \<Rightarrow> ('n, 'v) segment_holder \<Rightarrow> ('n, 'v) segment_holder" where
  "sh_bump_version_overwrite op_num h = h\<lparr>sh_version_overwrite := max (sh_version_overwrite h) op_num\<rparr>"

text \<open>The dropped segment when it is empty, another one is appendable and it is not a proxy.\<close>

definition sh_remove_if_not_needed :: "segment_id \<Rightarrow> ('n, 'v) segment_holder \<Rightarrow> ('n, 'v) segment_holder \<times> bool option" where
  "sh_remove_if_not_needed i h =
     (case sh_remove [i] h of
        ([], h1) \<Rightarrow> (h1, Some False)
      | ([s], h1) \<Rightarrow>
          (if sh_appendable h1 = [] \<or> pm_total_point_count (it_mappings (sg_id_tracker s)) \<noteq> 0
           then (sh_add_existing i s h1, Some False) else (h1, Some True))
      | (_, h1) \<Rightarrow> (h1, None))"

text \<open>A segment after a step under its write lock.\<close>

definition sh_put :: "segment_id \<Rightarrow> ('n, 'v) point_segment \<Rightarrow> ('n, 'v) segment_holder \<Rightarrow> ('n, 'v) segment_holder" where
  "sh_put i s h =
     (if map_of (sh_appendable h) i \<noteq> None then h\<lparr>sh_appendable := AList.update i s (sh_appendable h)\<rparr>
      else h\<lparr>sh_non_appendable := AList.update i s (sh_non_appendable h)\<rparr>)"

section \<open>The copies of a point\<close>

definition segment_points :: "point_id list \<Rightarrow> ('n, 'v) point_segment \<Rightarrow> point_id list" where
  "segment_points ids s = filter (sg_has_point s) ids"

text \<open>\<open>entry(k).or_default().push(x)\<close>.\<close>

definition push_entry :: "'k \<Rightarrow> 'a \<Rightarrow> ('k, 'a list) hashmap \<Rightarrow> ('k, 'a list) hashmap" where
  "push_entry k x m = AList.update k ((case map_of m k of Some xs \<Rightarrow> xs | None \<Rightarrow> []) @ [x]) m"

type_synonym occurrences = "(segment_id \<times> u64 \<times> bool) list"

fun collect_points ::
  "segment_id \<Rightarrow> ('n, 'v) point_segment \<Rightarrow> point_id list \<Rightarrow> (point_id, occurrences) hashmap \<Rightarrow>
    (point_id, occurrences) hashmap" where
  "collect_points i s [] m = m"
| "collect_points i s (e # es) m =
    (case sg_point_version s e of
       None \<Rightarrow> collect_points i s es m
     | Some version \<Rightarrow> collect_points i s es (push_entry e (i, version, sg_point_is_deferred s e) m))"

definition all_occurrences :: "point_id list \<Rightarrow> ('n, 'v) segment_holder \<Rightarrow> (point_id, occurrences) hashmap" where
  "all_occurrences ids h = fold (\<lambda>(i, s). collect_points i s (segment_points ids s)) (sh_iter h) []"

type_synonym points_per_segment = "(segment_id, point_id list) hashmap"

definition latest_version :: "occurrences \<Rightarrow> u64" where
  "latest_version occ = Max (set (map (\<lambda>(_, version, _). version) occ))"

definition latest_has_non_deferred :: "occurrences \<Rightarrow> bool" where
  "latest_has_non_deferred occ \<longleftrightarrow> list_ex (\<lambda>(_, version, is_deferred). version = latest_version occ \<and> \<not> is_deferred) occ"

text \<open>The loop over the copies of one point.\<close>

fun split_occurrences ::
  "point_id \<Rightarrow> u64 \<Rightarrow> bool \<Rightarrow> occurrences \<Rightarrow> points_per_segment \<times> points_per_segment \<Rightarrow> points_per_segment \<times> points_per_segment" where
  "split_occurrences e latest visible [] (to_update, to_delete) = (to_update, to_delete)"
| "split_occurrences e latest visible ((i, version, is_deferred) # occ) (to_update, to_delete) =
    split_occurrences e latest visible occ
      (if version = latest then (push_entry i e to_update, to_delete)
       else if \<not> is_deferred \<and> visible then (to_update, push_entry i e to_delete)
       else (to_update, to_delete))"

definition find_points_to_update_and_delete ::
  "point_id list \<Rightarrow> ('n, 'v) segment_holder \<Rightarrow> points_per_segment \<times> points_per_segment" where
  "find_points_to_update_and_delete ids h =
     fold (\<lambda>(e, occ). split_occurrences e (latest_version occ) (latest_has_non_deferred occ) occ) (all_occurrences ids h) ([], [])"

text \<open>Deleting copies, each at its own version.\<close>

fun delete_copies :: "('n, 'v) segment_params \<Rightarrow> point_id list \<Rightarrow> ('n, 'v, unit) seg_op" where
  "delete_copies p [] s = (s, Inr ())"
| "delete_copies p (e # es) s =
    (case sg_point_version s e of
       None \<Rightarrow> delete_copies p es s
     | Some version \<Rightarrow>
         (case sg_delete_point p version e s of
            (s1, Inl err) \<Rightarrow> (s1, Inl err)
          | (s1, Inr _) \<Rightarrow> delete_copies p es s1))"

type_synonym ('n, 'v, 'a) holder_op = "('n, 'v) segment_holder \<Rightarrow> ('n, 'v) segment_holder \<times> (seg_error, 'a) result"

fun delete_points_from_segments :: "('n, 'v) segment_params \<Rightarrow> points_per_segment \<Rightarrow> ('n, 'v, unit) holder_op" where
  "delete_points_from_segments p [] h = (h, Inr ())"
| "delete_points_from_segments p ((i, points) # to_delete) h =
    (case sh_get h i of
       None \<Rightarrow> (h, Inl SegPanic)
     | Some s \<Rightarrow>
         (case delete_copies p points s of
            (s1, Inl err) \<Rightarrow> (sh_put i s1 h, Inl err)
          | (s1, Inr _) \<Rightarrow> delete_points_from_segments p to_delete (sh_put i s1 h)))"

definition deduplicate_points :: "('n, 'v) segment_params \<Rightarrow> point_id list \<Rightarrow> ('n, 'v, unit) holder_op" where
  "deduplicate_points p points h = delete_points_from_segments p (snd (find_points_to_update_and_delete points h)) h"

text \<open>\<open>apply_points\<close>: the operation on a point gets the segment and the state it carries along, and answers whether it applied.\<close>

type_synonym ('n, 'v, 'c) point_step = "point_id \<Rightarrow> segment_id \<Rightarrow> 'c \<Rightarrow> ('n, 'v, bool \<times> 'c) holder_op"

fun apply_to_points :: "('n, 'v, 'c) point_step \<Rightarrow> segment_id \<Rightarrow> point_id list \<Rightarrow> nat \<times> 'c \<Rightarrow> ('n, 'v, nat \<times> 'c) holder_op" where
  "apply_to_points f i [] (n, c) h = (h, Inr (n, c))"
| "apply_to_points f i (e # es) (n, c) h =
    (case f e i c h of
       (h1, Inl err) \<Rightarrow> (h1, Inl err)
     | (h1, Inr (applied, c1)) \<Rightarrow> apply_to_points f i es (n + of_bool applied, c1) h1)"

fun apply_to_segments :: "('n, 'v, 'c) point_step \<Rightarrow> points_per_segment \<Rightarrow> nat \<times> 'c \<Rightarrow> ('n, 'v, nat \<times> 'c) holder_op" where
  "apply_to_segments f [] nc h = (h, Inr nc)"
| "apply_to_segments f ((i, points) # to_update) nc h =
    (if sh_get h i = None then (h, Inl SegPanic)
     else (case apply_to_points f i points nc h of
             (h1, Inl err) \<Rightarrow> (h1, Inl err)
           | (h1, Inr nc1) \<Rightarrow> apply_to_segments f to_update nc1 h1))"

definition apply_points ::
  "('n, 'v) segment_params \<Rightarrow> point_id list \<Rightarrow> ('n, 'v, 'c) point_step \<Rightarrow> 'c \<Rightarrow> ('n, 'v, nat \<times> 'c) holder_op" where
  "apply_points p ids f c h =
     (case find_points_to_update_and_delete ids h of
        (to_update, to_delete) \<Rightarrow>
          (case delete_points_from_segments p to_delete h of
             (h1, Inl err) \<Rightarrow> (h1, Inl err)
           | (h1, Inr _) \<Rightarrow> apply_to_segments f to_update (0, c) h1))"

section \<open>Moving a point out of a segment that takes no writes\<close>

fun all_vectors_loop :: "('n, 'v) point_segment \<Rightarrow> point_id \<Rightarrow> string list \<Rightarrow> 'v named_vectors \<Rightarrow> (seg_error, 'v named_vectors) result" where
  "all_vectors_loop s e [] result = Inr result"
| "all_vectors_loop s e (name # names) result =
    (case sg_vector s name e of
       Inl err \<Rightarrow> Inl err
     | Inr None \<Rightarrow> all_vectors_loop s e names result
     | Inr (Some v) \<Rightarrow> all_vectors_loop s e names (AList.update name v result))"

definition all_vectors :: "('n, 'v) point_segment \<Rightarrow> point_id \<Rightarrow> (seg_error, 'v named_vectors) result" where
  "all_vectors s e = all_vectors_loop s e (hm_keys (sg_vector_data s)) []"

type_synonym ('n, 'v) cow_op = "point_id \<Rightarrow> 'v named_vectors \<times> 'n payload \<Rightarrow> 'v named_vectors \<times> 'n payload"

text \<open>The closure of \<open>apply_points_with_conditional_move\<close>; \<open>target\<close> is the appendable segment the copy goes to.\<close>

definition move_point ::
  "('n, 'v) segment_params \<Rightarrow> u64 \<Rightarrow> ('n, 'v) cow_op \<Rightarrow> segment_id \<Rightarrow> point_id \<Rightarrow> segment_id \<Rightarrow> ('n, 'v, unit) holder_op" where
  "move_point p op_num cow target e i h =
     (case (sh_get h i, sh_get h target) of
        (Some s, Some t) \<Rightarrow>
          (let h1 = h\<lparr>sh_flush_dependency := add_dependency i target op_num (sh_flush_dependency h)\<rparr>
           in case and_then (all_vectors s e) (\<lambda>vectors. map_sum (\<lambda>e. e) (Pair vectors) (sg_payload p s e)) of
                Inl err \<Rightarrow> (h1, Inl err)
              | Inr data \<Rightarrow>
                  (case sg_upsert_point p op_num e (fst (cow e data)) t of
                     (t1, Inl err) \<Rightarrow> (sh_put target t1 h1, Inl err)
                   | (t1, Inr _) \<Rightarrow>
                       (case sg_set_full_payload p op_num e (snd (cow e data)) t1 of
                          (t2, Inl err) \<Rightarrow> (sh_put target t2 h1, Inl err)
                        | (t2, Inr _) \<Rightarrow>
                            (let h2 = sh_put target t2 h1
                             in if sg_point_is_deferred t2 e then (h2, Inr ())
                                else (case sg_delete_point p op_num e s of
                                        (s1, Inl err) \<Rightarrow> (sh_put i s1 h2, Inl err)
                                      | (s1, Inr _) \<Rightarrow> (sh_put i s1 h2, Inr ()))))))
      | _ \<Rightarrow> (h, Inl SegPanic))"

definition conditional_move_step ::
  "('n, 'v) segment_params \<Rightarrow> u64 \<Rightarrow> (point_id \<Rightarrow> ('n, 'v, bool) seg_op) \<Rightarrow> ('n, 'v) cow_op \<Rightarrow> (point_id \<Rightarrow> segment_id \<Rightarrow> segment_id list \<Rightarrow> segment_id) \<Rightarrow>
    segment_id list \<Rightarrow> ('n, 'v, point_id set) point_step" where
  "conditional_move_step p op_num point_operation cow pick appendable e i applied_points h =
     (case sh_get h i of
        None \<Rightarrow> (h, Inl SegPanic)
      | Some s \<Rightarrow>
          (if (case sg_point_version s e of Some version \<Rightarrow> version \<ge> op_num | None \<Rightarrow> False)
           then (h, Inr (False, insert e applied_points))
           else if sg_appendable s
           then (case point_operation e s of
                   (s1, Inl err) \<Rightarrow> (sh_put i s1 h, Inl err)
                 | (s1, Inr applied) \<Rightarrow> (sh_put i s1 h, Inr (applied, insert e applied_points)))
           else if appendable = [] then (h, Inl ServiceError)
           else (case move_point p op_num cow (pick e i appendable) e i h of
                   (h1, Inl err) \<Rightarrow> (h1, Inl err)
                 | (h1, Inr _) \<Rightarrow> (h1, Inr (True, insert e applied_points)))))"

definition apply_points_with_conditional_move ::
  "('n, 'v) segment_params \<Rightarrow> u64 \<Rightarrow> point_id list \<Rightarrow> (point_id \<Rightarrow> ('n, 'v, bool) seg_op) \<Rightarrow> ('n, 'v) cow_op \<Rightarrow>
    (point_id \<Rightarrow> segment_id \<Rightarrow> segment_id list \<Rightarrow> segment_id) \<Rightarrow> ('n, 'v, point_id set) holder_op" where
  "apply_points_with_conditional_move p op_num ids point_operation cow pick h =
     (case apply_points p ids (conditional_move_step p op_num point_operation cow pick (hm_keys (sh_appendable h))) {} h of
        (h1, Inl err) \<Rightarrow> (h1, Inl err)
      | (h1, Inr (_, applied_points)) \<Rightarrow> (h1, Inr applied_points))"

text \<open>The points of a list that are in some segment; the walk stops when all were found.\<close>

fun select_loop :: "('n, 'v) point_segment list \<Rightarrow> point_id list \<Rightarrow> point_id set \<Rightarrow> point_id set" where
  "select_loop [] remaining existing = existing"
| "select_loop (s # segments) remaining existing =
    (let existing1 = existing \<union> set (filter (sg_has_point s) remaining);
         remaining1 = filter (\<lambda>e. \<not> sg_has_point s e) remaining
     in if remaining1 = [] then existing1 else select_loop segments remaining1 existing1)"

definition select_existing_points :: "point_id list \<Rightarrow> ('n, 'v) segment_holder \<Rightarrow> point_id set" where
  "select_existing_points ids h =
     (if ids = [] then {} else select_loop (map snd (sh_non_appendable h) @ map snd (sh_appendable h)) ids {})"

section \<open>Removing duplicates after an interrupted optimization\<close>

text \<open>\<open>sort_unstable_by_key\<close> by falling version, then by segment: the copies comes in the order of the segments and \<open>sort_key\<close> is
  stable. A point without a version sorts last.\<close>

definition falling_version :: "u64 option \<Rightarrow> nat" where
  "falling_version version = (case version of Some v \<Rightarrow> unat (- v - 1) | None \<Rightarrow> 2 ^ 64)"

type_synonym dedup_point = "segment_id \<times> u64 option \<times> bool"

text \<open>The loop over the copies of a point, with what was kept so far; it yields the segments to remove it from.\<close>

fun dedup_loop :: "u64 option \<Rightarrow> bool \<Rightarrow> dedup_point list \<Rightarrow> bool \<times> bool \<Rightarrow> segment_id list" where
  "dedup_loop latest visible [] kept = []"
| "dedup_loop latest visible ((i, version, is_deferred) # points) (kept_deferred, kept_non_deferred) =
    (if is_deferred then (if kept_deferred then [i] else []) @ dedup_loop latest visible points (True, kept_non_deferred)
     else if version = latest \<and> \<not> kept_non_deferred then dedup_loop latest visible points (kept_deferred, True)
     else (if visible then [i] else []) @ dedup_loop latest visible points (kept_deferred, kept_non_deferred))"

definition dedup_group :: "dedup_point list \<Rightarrow> segment_id list" where
  "dedup_group copies =
     (if length copies < 2 then []
      else (let points = sort_key (\<lambda>(i, version, is_deferred). falling_version version) copies;
                latest = fst (snd (hd points));
                visible = list_ex (\<lambda>(i, version, is_deferred). version = latest \<and> \<not> is_deferred) points
            in dedup_loop latest visible points (False, False)))"

definition point_group :: "point_id \<Rightarrow> (segment_id, ('n, 'v) point_segment) btree \<Rightarrow> dedup_point list" where
  "point_group e segments =
     map (\<lambda>(i, s). (i, sg_point_version s e, sg_point_is_deferred s e)) (filter (\<lambda>(i, s). sg_has_point s e) segments)"

definition sg_iter_points :: "('n, 'v) point_segment \<Rightarrow> point_id list" where
  "sg_iter_points s = pm_iter_external (it_mappings (sg_id_tracker s))"

definition find_duplicated_points :: "('n, 'v) segment_holder \<Rightarrow> points_per_segment" where
  "find_duplicated_points h =
     (let segments = fold (\<lambda>(i, s) m. bt_insert i s m) (sh_iter h) [];
          ids = remdups (sort (concat (map (\<lambda>(i, s). sg_iter_points s) segments)))
      in fold (\<lambda>e m. fold (\<lambda>i. push_entry i e) (dedup_group (point_group e segments)) m) ids [])"

section \<open>Flushing\<close>

datatype component_flush = Flushed | Cancelled | Failed

text \<open>The flusher of a segment captures its version; running it flushes the components in order, then saves the state.\<close>

definition sg_flusher :: "bool \<Rightarrow> ('n, 'v) point_segment \<Rightarrow> u64 option" where
  "sg_flusher force s =
     (case sg_version s of
        None \<Rightarrow> None
      | Some version \<Rightarrow> if \<not> force \<and> sg_persisted_version s = Some version then None else Some version)"

fun flush_components :: "component_flush list \<Rightarrow> component_flush" where
  "flush_components [] = Flushed"
| "flush_components (Flushed # components) = flush_components components"
| "flush_components (failure # components) = failure"

record flush_env =
  fe_alive :: "segment_id \<Rightarrow> bool"
  fe_components :: "segment_id \<Rightarrow> component_flush list"
  fe_state_saved :: "segment_id \<Rightarrow> bool"

definition run_segment_flusher :: "flush_env \<Rightarrow> segment_id \<Rightarrow> u64 \<Rightarrow> ('n, 'v, unit) seg_op" where
  "run_segment_flusher env i version s =
     (if \<not> fe_alive env i then (s, Inr ())
      else (case flush_components (fe_components env i) of
              Cancelled \<Rightarrow> (s, Inr ())
            | Failed \<Rightarrow> (s, Inl ServiceError)
            | Flushed \<Rightarrow>
                (if (case sg_persisted_version s of Some persisted \<Rightarrow> persisted > version | None \<Rightarrow> False) then (s, Inr ())
                 else if \<not> fe_state_saved env i then (s, Inl ServiceError)
                 else (s\<lparr>sg_persisted_version := Some version\<rparr>, Inr ()))))"

definition lock_order :: "('n, 'v) segment_holder \<Rightarrow> segment_id list" where
  "lock_order h = hm_keys (sh_non_appendable h) @ hm_keys (sh_appendable h)"

definition sort_segment_ids_by_flush_dependency :: "('n, 'v) segment_holder \<Rightarrow> segment_id list \<Rightarrow> segment_id list" where
  "sort_segment_ids_by_flush_dependency h segment_ids =
     (case topo_collect (sort_elements (sh_flush_dependency h) segment_ids) of
        (sorted_keys, iter) \<Rightarrow> sorted_keys @ into_unordered_vec iter)"

definition captured_flushers :: "bool \<Rightarrow> ('n, 'v) segment_holder \<Rightarrow> (segment_id \<times> u64) list option" where
  "captured_flushers force h =
     (let ids = lock_order h;
          segment_reads = List.map_filter (\<lambda>i. map_option (Pair i) (sh_get h i)) ids
      in map_option (List.map_filter (\<lambda>(i, s). map_option (Pair i) (sg_flusher force s)))
           (sort_permutation segment_reads ids (sort_segment_ids_by_flush_dependency h)))"

fun run_flushers :: "flush_env \<Rightarrow> (segment_id \<times> u64) list \<Rightarrow> ('n, 'v, unit) holder_op" where
  "run_flushers env [] h = (h, Inr ())"
| "run_flushers env ((i, version) # flushers) h =
    (case sh_get h i of
       None \<Rightarrow> run_flushers env flushers h
     | Some s \<Rightarrow>
         (case run_segment_flusher env i version s of
            (s1, Inl err) \<Rightarrow> (sh_put i s1 h, Inl err)
          | (s1, Inr _) \<Rightarrow> run_flushers env flushers (sh_put i s1 h)))"

text \<open>The loop keeps the largest persisted version and the smallest one of a segment with changes that are not.\<close>

fun persisted_loop :: "('n, 'v) point_segment list \<Rightarrow> u64 \<times> u64 \<times> bool \<Rightarrow> u64 \<times> u64 \<times> bool" where
  "persisted_loop [] acc = acc"
| "persisted_loop (s # segments) (max_persisted, min_unsaved, has_unsaved) =
    (let unsaved = sg_current_version s > sg_persistent_version s
     in persisted_loop segments
       (max max_persisted (sg_persistent_version s),
        if unsaved then min min_unsaved (sg_persistent_version s) else min_unsaved, has_unsaved \<or> unsaved))"

definition get_max_persisted_version :: "('n, 'v) segment_holder \<Rightarrow> u64" where
  "get_max_persisted_version h =
     (case persisted_loop (List.map_filter (sh_get h) (lock_order h)) (sh_version_overwrite h, - 1, False) of
        (max_persisted, min_unsaved, has_unsaved) \<Rightarrow> if has_unsaved then min_unsaved else max_persisted)"

definition max_applied_version :: "('n, 'v) segment_holder \<Rightarrow> u64" where
  "max_applied_version h = fold max (map sg_current_version (List.map_filter (sh_get h) (lock_order h))) 0"

text \<open>\<open>flush_all\<close> with \<open>sync\<close>; it panics without segments.\<close>

definition flush_all_sync :: "flush_env \<Rightarrow> bool \<Rightarrow> ('n, 'v, u64) holder_op" where
  "flush_all_sync env force h =
     (if lock_order h = [] then (h, Inl SegPanic)
      else (case captured_flushers force h of
              None \<Rightarrow> (h, Inl SegPanic)
            | Some flushers \<Rightarrow>
                (case run_flushers env flushers h of
                   (h1, Inl err) \<Rightarrow> (h1, Inl err)
                 | (h1, Inr _) \<Rightarrow>
                     (h1\<lparr>sh_flush_dependency :=
                        topo_retain (\<lambda>_ _ version. version > max_applied_version h) (sh_flush_dependency h1)\<rparr>,
                      Inr (get_max_persisted_version h1)))))"

end
