(* ===== verification/SegmentHolderFlush.thy ===== *)
theory SegmentHolderFlush
  imports SegmentHolder
begin

text \<open>
  Flushing the segments of a shard: the order keeps a moved point on disk at every moment, and the version that is acknowledged to
  the log lies below everything that is not on disk yet.
\<close>

section \<open>The segments of a holder\<close>

definition holder_wf :: "('n, 'v) segment_holder \<Rightarrow> bool" where
  "holder_wf h \<longleftrightarrow> bt_wf (sh_appendable h) \<and> bt_wf (sh_non_appendable h) \<and>
     set (hm_keys (sh_appendable h)) \<inter> set (hm_keys (sh_non_appendable h)) = {} \<and> topo_wf (sh_flush_dependency h)"

lemma lock_order_distinct: "holder_wf h \<Longrightarrow> distinct (lock_order h)"
  by (auto simp: holder_wf_def lock_order_def dest: bt_wf_distinct)

lemma sh_get_lock_order: "sh_get h i \<noteq> None \<longleftrightarrow> i \<in> set (lock_order h)"
  using map_of_eq_None_iff [of "sh_appendable h" i] map_of_eq_None_iff [of "sh_non_appendable h" i]
  by (auto simp: sh_get_def lock_order_def split: option.split)

lemma sh_get_put:
  "sh_get h i \<noteq> None \<Longrightarrow> sh_get (sh_put i s h) j = (if j = i then Some s else sh_get h j)"
  by (auto simp: sh_get_def sh_put_def map_of_update split: option.splits)

lemma sh_put_fields [simp]:
  "sh_flush_dependency (sh_put i s h) = sh_flush_dependency h"
  "sh_version_overwrite (sh_put i s h) = sh_version_overwrite h"
  by (simp_all add: sh_put_def)

lemma hm_keys_update_present: "map_of m k \<noteq> None \<Longrightarrow> hm_keys (AList.update k v m) = hm_keys m"
  using map_of_eq_None_iff [of m k] by (simp add: update_keys)

lemma sh_get_dependency [simp]: "sh_get (h\<lparr>sh_flush_dependency := d\<rparr>) i = sh_get h i"
  by (simp add: sh_get_def cong: option.case_cong)

lemma lock_order_put: "sh_get h i \<noteq> None \<Longrightarrow> lock_order (sh_put i s h) = lock_order h"
  using hm_keys_update_present [of "sh_appendable h" i s] hm_keys_update_present [of "sh_non_appendable h" i s]
  by (cases "map_of (sh_appendable h) i") (auto simp: lock_order_def sh_put_def sh_get_def)

section \<open>The order of the flushers\<close>

lemma sort_ids_perm:
  assumes "holder_wf h"
  shows "mset (sort_segment_ids_by_flush_dependency h (lock_order h)) = mset (lock_order h)"
proof -
  obtain emitted rest where c: "topo_collect (sort_elements (sh_flush_dependency h) (lock_order h)) = (emitted, rest)" by fastforce
  have "topo_wf (sh_flush_dependency h)" using assms by (simp add: holder_wf_def)
  from topo_sort_correct(1) [OF this lock_order_distinct [OF assms] c] show ?thesis
    by (simp add: sort_segment_ids_by_flush_dependency_def c)
qed

text \<open>Without circles an element comes after all it depends on.\<close>

lemma sort_ids_order:
  assumes "holder_wf h" "acyclicP (depends (sh_flush_dependency h) (lock_order h))"
    and "depends (sh_flush_dependency h) (lock_order h) i d"
    and "sort_segment_ids_by_flush_dependency h (lock_order h) = xs @ i # ys"
  shows "d \<in> set xs"
proof -
  obtain emitted rest where c: "topo_collect (sort_elements (sh_flush_dependency h) (lock_order h)) = (emitted, rest)" by fastforce
  have wf: "topo_wf (sh_flush_dependency h)" using assms(1) by (simp add: holder_wf_def)
  note topo = topo_sort_correct [OF wf lock_order_distinct [OF assms(1)] c]
  have "emitted = xs @ i # ys" using assms(4) topo(4) [OF assms(2)] by (simp add: sort_segment_ids_by_flush_dependency_def c)
  then show ?thesis using topo(2) [of "length xs" d] assms(3) by simp
qed

lemma map_filter_all: "(\<And>x. x \<in> set xs \<Longrightarrow> f x = Some (g x)) \<Longrightarrow> List.map_filter f xs = map g xs"
  by (induction xs) (auto simp: map_filter_simps)

lemma map_filter_cong: "(\<And>x. x \<in> set xs \<Longrightarrow> f x = g x) \<Longrightarrow> List.map_filter f xs = List.map_filter g xs"
  by (induction xs) (auto simp: map_filter_simps split: option.split)

lemma map_filter_map: "List.map_filter f (map g xs) = List.map_filter (f \<circ> g) xs"
  by (induction xs) (auto simp: map_filter_simps split: option.split)

lemma captured_flushers_eq:
  assumes "holder_wf h"
  shows "captured_flushers force h =
    Some (List.map_filter (\<lambda>i. Option.bind (sh_get h i) (\<lambda>s. map_option (Pair i) (sg_flusher force s)))
      (sort_segment_ids_by_flush_dependency h (lock_order h)))"
proof -
  let ?ids = "lock_order h" and ?sort = "sort_segment_ids_by_flush_dependency h"
  let ?reads = "map (\<lambda>i. (i, the (sh_get h i))) ?ids"
  have some: "sh_get h i = Some (the (sh_get h i))" if "i \<in> set ?ids" for i
    using sh_get_lock_order [of h i] that by auto
  have "List.map_filter (\<lambda>i. map_option (Pair i) (sh_get h i)) ?ids = ?reads"
    using some by (intro map_filter_all) (metis option.map(2))
  moreover have "sort_permutation ?reads ?ids ?sort = Some (map (\<lambda>k. the (map_of (zip ?ids ?reads) k)) (?sort ?ids))"
    using lock_order_distinct [OF assms] sort_ids_perm [OF assms] by (intro sort_permutation_correct) simp_all
  moreover have "map (\<lambda>k. the (map_of (zip ?ids ?reads) k)) (?sort ?ids) = map (\<lambda>i. (i, the (sh_get h i))) (?sort ?ids)"
  proof (rule map_cong [OF refl])
    fix i assume "i \<in> set (?sort ?ids)"
    then have "i \<in> set ?ids" using mset_eq_setD [OF sort_ids_perm [OF assms]] by simp
    then show "the (map_of (zip ?ids ?reads) i) = (i, the (sh_get h i))" by (simp add: map_of_zip_map)
  qed
  moreover have "List.map_filter (\<lambda>(i, s). map_option (Pair i) (sg_flusher force s)) (map (\<lambda>i. (i, the (sh_get h i))) (?sort ?ids)) =
      List.map_filter (\<lambda>i. Option.bind (sh_get h i) (\<lambda>s. map_option (Pair i) (sg_flusher force s))) (?sort ?ids)"
    unfolding map_filter_map
  proof (rule map_filter_cong)
    fix i assume "i \<in> set (?sort ?ids)"
    then have "i \<in> set ?ids" using mset_eq_setD [OF sort_ids_perm [OF assms]] by simp
    then show "((\<lambda>(i, s). map_option (Pair i) (sg_flusher force s)) \<circ> (\<lambda>i. (i, the (sh_get h i)))) i =
        Option.bind (sh_get h i) (\<lambda>s. map_option (Pair i) (sg_flusher force s))"
      using some by (metis (no_types, lifting) bind.bind_lunit comp_apply prod.case)
  qed
  ultimately show ?thesis by (simp add: captured_flushers_def Let_def)
qed

section \<open>Running the flushers\<close>

lemma run_flushers_put:
  "sh_get h i = Some s \<Longrightarrow> run_flushers env ((i, version) # flushers) h =
    (case run_segment_flusher env i version s of
       (s1, Inl err) \<Rightarrow> (sh_put i s1 h, Inl err) | (s1, Inr _) \<Rightarrow> run_flushers env flushers (sh_put i s1 h))"
  by simp

lemma run_flushers_other:
  "i \<notin> fst ` set flushers \<Longrightarrow> sh_get (fst (run_flushers env flushers h)) i = sh_get h i"
proof (induction env flushers h rule: run_flushers.induct)
  case (2 env j version flushers h)
  show ?case
  proof (cases "sh_get h j")
    case None
    then show ?thesis using 2 by simp
  next
    case (Some s)
    obtain s1 r where r: "run_segment_flusher env j version s = (s1, r)" by fastforce
    have put: "sh_get (sh_put j s1 h) i = sh_get h i" using 2(3) Some by (simp add: sh_get_put)
    show ?thesis
    proof (cases r)
      case (Inl err)
      then show ?thesis using Some r put by simp
    next
      case (Inr u)
      then show ?thesis using 2(2) [OF Some r [symmetric] Inr] 2(3) Some r put by simp
    qed
  qed
qed simp

lemma run_flushers_prefix:
  assumes "distinct (map fst (fs @ (i, v) # fs'))" "run_flushers env (fs @ (i, v) # fs') h = (h1, r)"
    and "sh_get h1 i \<noteq> sh_get h i" "(j, w) \<in> set fs" "sh_get h j = Some t"
  shows "\<exists>t1. sh_get h1 j = Some t1 \<and> run_segment_flusher env j w t = (t1, Inr ())"
  using assms
proof (induction fs arbitrary: h)
  case (Cons a fs)
  obtain k x where a: "a = (k, x)" by (cases a)
  show ?case
  proof (cases "sh_get h k")
    case None
    then show ?thesis using Cons by (auto simp: a)
  next
    case (Some s)
    obtain s1 r1 where r1: "run_segment_flusher env k x s = (s1, r1)" by fastforce
    have other: "sh_get (sh_put k s1 h) l = sh_get h l" if "l \<noteq> k" for l using that Some by (simp add: sh_get_put)
    have ik: "i \<noteq> k" using Cons.prems(1) by (auto simp: a)
    show ?thesis
    proof (cases r1)
      case (Inl err)
      then show ?thesis using Cons.prems(2,3) Some r1 other [OF ik] by (auto simp: a)
    next
      case (Inr u)
      then have rest: "run_flushers env (fs @ (i, v) # fs') (sh_put k s1 h) = (h1, r)"
        using Cons.prems(2) Some r1 by (simp add: a)
      show ?thesis
      proof (cases "j = k")
        case False
        then show ?thesis
          using Cons.IH [OF _ rest] Cons.prems(1,3-5) other [OF ik] other [OF False] by (simp add: a)
      next
        case True
        have jw: "j \<notin> fst ` set fs" "w = x" using Cons.prems(1,4) True by (auto simp: a rev_image_eqI)
        have "j \<notin> fst ` set (fs @ (i, v) # fs')" using Cons.prems(1) True by (auto simp: a)
        then have "sh_get h1 j = Some s1"
          using run_flushers_other [of j "fs @ (i, v) # fs'" env "sh_put k s1 h"] rest True Some by (simp add: sh_get_put)
        then show ?thesis using r1 Inr True jw(2) Some Cons.prems(5) by simp
      qed
    qed
  qed
qed simp

lemma flush_components_cancelled: "flush_components cs = Cancelled \<Longrightarrow> Cancelled \<in> set cs"
  by (induction cs rule: flush_components.induct) auto

text \<open>A flusher that did its work, when nothing was cancelled.\<close>

lemma run_segment_flusher_done:
  assumes "run_segment_flusher env i version s = (s1, Inr ())" "fe_alive env i" "Cancelled \<notin> set (fe_components env i)"
  shows "\<exists>w. sg_persisted_version s1 = Some w \<and> version \<le> w"
proof -
  have "flush_components (fe_components env i) \<noteq> Cancelled" using assms(3) flush_components_cancelled by blast
  then show ?thesis
    using assms(1,2) by (auto simp: run_segment_flusher_def split: if_splits component_flush.splits option.splits)
qed

section \<open>What may be acknowledged\<close>

lemma persisted_loop_spec:
  assumes "persisted_loop segments (m, n, b) = (m', n', b')"
  shows "n' \<le> n \<and> (b \<longrightarrow> b') \<and>
    (\<forall>s \<in> set segments. sg_persistent_version s < sg_current_version s \<longrightarrow> b' \<and> n' \<le> sg_persistent_version s)"
  using assms
proof (induction segments arbitrary: m n b)
  case (Cons s segments)
  let ?unsaved = "sg_current_version s > sg_persistent_version s"
  have "persisted_loop segments (max m (sg_persistent_version s), if ?unsaved then min n (sg_persistent_version s) else n, b \<or> ?unsaved) =
      (m', n', b')" using Cons.prems by (simp add: Let_def)
  from Cons.IH [OF this] show ?case by (auto split: if_splits)
qed simp

lemma max_persisted_version_safe:
  assumes "sh_get h i = Some s"
  shows "sg_current_version s \<le> sg_persistent_version s \<or> get_max_persisted_version h \<le> sg_persistent_version s"
proof -
  let ?segments = "List.map_filter (sh_get h) (lock_order h)"
  obtain m n b where l: "persisted_loop ?segments (sh_version_overwrite h, - 1, False) = (m, n, b)" by (metis prod_cases3)
  have "i \<in> set (lock_order h)" using assms sh_get_lock_order [of h i] by simp
  then have "s \<in> set ?segments" using assms by (auto simp: List.map_filter_def intro!: rev_image_eqI)
  then show ?thesis
    using persisted_loop_spec [OF l] l by (auto simp: get_max_persisted_version_def not_le)
qed

section \<open>Properties\<close>

text \<open>C32: The version \<open>flush_all\<close> returns, up to which the log is acknowledged and may be dropped, lies below the version of every
  change that is not on disk: each segment is either saved completely or persisted at least up to that version.\<close>

theorem acknowledged_version_is_persisted:
  assumes "flush_all_sync env force h = (h1, Inr version)" "sh_get h1 i = Some s"
  shows "sg_current_version s \<le> sg_persistent_version s \<or> version \<le> sg_persistent_version s"
proof -
  obtain h2 where h2: "h1 = h2\<lparr>sh_flush_dependency := topo_retain (\<lambda>_ _ v. v > max_applied_version h) (sh_flush_dependency h2)\<rparr>"
    "version = get_max_persisted_version h2"
    using assms(1) by (auto simp: flush_all_sync_def split: if_splits option.splits prod.splits sum.splits)
  have "sh_get h2 i = Some s" using assms(2) by (simp add: h2)
  from max_persisted_version_safe [OF this] show ?thesis by (simp add: h2(2))
qed

definition idle_segment :: "bool \<Rightarrow> u64 \<Rightarrow> u64 option \<Rightarrow> (nat, nat) point_segment" where
  "idle_segment appendable version persisted = \<lparr>sg_version = Some version, sg_persisted_version = persisted,
     sg_version_tracker = \<lparr>vt_vector = [], vt_payload = None\<rparr>,
     sg_id_tracker = \<lparr>it_versions = [], it_mappings = pm_default, it_pending_versions = [], it_pending_mappings = [], it_expected_len = 0\<rparr>,
     sg_vector_data = [], sg_payload_index = new_payload_index 1 [], sg_appendable = appendable, sg_error_status = None, sg_deferred = None\<rparr>"

text \<open>A point was moved out of segment 1 into segment 2 by operation 5.\<close>

definition demo_holder :: "(nat, nat) segment_holder" where
  "demo_holder = \<lparr>sh_appendable = [(2, idle_segment True 5 (Some 3))], sh_non_appendable = [(1, idle_segment False 5 (Some 4))],
     sh_id_source = 3, sh_version_overwrite = 0, sh_flush_dependency = add_dependency 1 2 5 []\<rparr>"

definition demo_env :: "component_flush \<Rightarrow> flush_env" where
  "demo_env outcome = \<lparr>fe_alive = (\<lambda>_. True), fe_components = (\<lambda>i. if i = 1 then [Flushed, outcome] else [Flushed]),
     fe_state_saved = (\<lambda>_. True)\<rparr>"

lemma demo_flush:
  "flush_all_sync (demo_env Flushed) False demo_holder =
     (demo_holder\<lparr>sh_appendable := [(2, idle_segment True 5 (Some 5))], sh_non_appendable := [(1, idle_segment False 5 (Some 5))],
        sh_flush_dependency := []\<rparr>, Inr 5)"
  "flush_all_sync (demo_env Cancelled) False demo_holder =
     (demo_holder\<lparr>sh_appendable := [(2, idle_segment True 5 (Some 5))], sh_flush_dependency := []\<rparr>, Inr 4)"
  by (code_simp, code_simp)

theorem acknowledged_version_is_persisted_witness:
  "sg_current_version (idle_segment False 5 (Some 4)) \<le> sg_persistent_version (idle_segment False 5 (Some 4)) \<or>
   (4 :: u64) \<le> sg_persistent_version (idle_segment False 5 (Some 4))"
  by (rule acknowledged_version_is_persisted [OF demo_flush(2), of 1]) code_simp

text \<open>C9: A point that moved to another segment is on disk at every moment: whenever the flush has brought the old segment to disk,
  without the point, the segment with the copy was brought to disk before, also when a flush fails later or half way. It needs
  that no flush is cancelled and that the dependencies have no circle.\<close>

theorem flush_keeps_moved_points:
  assumes wf: "holder_wf h" "acyclicP (depends (sh_flush_dependency h) (lock_order h))"
    and env: "\<And>i. fe_alive env i \<and> Cancelled \<notin> set (fe_components env i)"
    and run: "flush_all_sync env force h = (h1, r)"
    and dep: "depends (sh_flush_dependency h) (lock_order h) i d"
    and changed: "sh_get h1 i \<noteq> sh_get h i"
    and copy: "sh_get h d = Some t" "sg_version t = Some v"
  shows "\<exists>t1 w. sh_get h1 d = Some t1 \<and> sg_persisted_version t1 = Some w \<and> v \<le> w"
proof -
  let ?f = "\<lambda>i. Option.bind (sh_get h i) (\<lambda>s. map_option (Pair i) (sg_flusher force s))"
  let ?ids = "sort_segment_ids_by_flush_dependency h (lock_order h)"
  let ?fl = "List.map_filter ?f ?ids"
  have "\<exists>h2 r2. run_flushers env ?fl h = (h2, r2) \<and> (\<forall>i. sh_get h1 i = sh_get h2 i)"
    using run changed captured_flushers_eq [OF wf(1), of force]
    by (auto simp: flush_all_sync_def split: if_splits prod.splits sum.splits)
  then obtain h2 r2 where h2: "run_flushers env ?fl h = (h2, r2)" and get: "\<And>i. sh_get h1 i = sh_get h2 i" by blast
  have dist: "distinct ?ids"
    using mset_eq_imp_distinct_iff [OF sort_ids_perm [OF wf(1)]] lock_order_distinct [OF wf(1)] by blast
  have fst_f: "fst x = j" if "?f j = Some x" for j x using that by (auto simp: bind_eq_Some_conv)
  have ids_fl: "map fst (List.map_filter ?f js) = filter (\<lambda>j. ?f j \<noteq> None) js" for js
    using fst_f by (induction js) (auto simp: map_filter_simps split: option.split)
  have "i \<in> fst ` set ?fl"
    using run_flushers_other [of i ?fl env h] changed h2 get by auto
  then have "i \<in> set (filter (\<lambda>j. ?f j \<noteq> None) ?ids)" unfolding ids_fl [symmetric] by simp
  then obtain x where i: "i \<in> set ?ids" "?f i = Some (i, x)" using fst_f by fastforce
  obtain xs ys where ids: "?ids = xs @ i # ys" using split_list [OF i(1)] by blast
  have dx: "d \<in> set xs" by (rule sort_ids_order [OF wf dep ids])
  have fl: "?fl = List.map_filter ?f xs @ (i, x) # List.map_filter ?f ys"
    using i(2) by (simp add: ids List.map_filter_def)
  have dist_fl: "distinct (map fst ?fl)" unfolding ids_fl using dist by simp
  show ?thesis
  proof (cases "sg_flusher force t")
    case None
    then have "sg_persisted_version t = Some v" using copy(2) by (auto simp: sg_flusher_def split: if_splits)
    moreover have "d \<notin> fst ` set ?fl"
    proof
      assume "d \<in> fst ` set ?fl"
      then have "d \<in> set (filter (\<lambda>j. ?f j \<noteq> None) ?ids)" unfolding ids_fl [symmetric] by simp
      then show False using None copy(1) by simp
    qed
    then have "sh_get h1 d = Some t" using run_flushers_other [of d ?fl env h] h2 copy(1) by (simp add: get)
    ultimately show ?thesis by blast
  next
    case (Some w)
    then have "w = v" using copy(2) by (auto simp: sg_flusher_def split: if_splits)
    have "?f d = Some (d, v)" using Some copy(1) \<open>w = v\<close> by simp
    then have mem: "(d, v) \<in> set (List.map_filter ?f xs)" using dx by (force simp: List.map_filter_def)
    obtain t1 where "sh_get h2 d = Some t1" "run_segment_flusher env d v t = (t1, Inr ())"
      using run_flushers_prefix [where i = i and v = x and fs' = "List.map_filter ?f ys" and env = env and ?h1.0 = h2 and r = r2, OF _ _ _ mem copy(1)] dist_fl h2 changed
      unfolding fl by (auto simp: get)
    then show ?thesis using run_segment_flusher_done [of env d v t t1] env by (auto simp: get)
  qed
qed

theorem flush_keeps_moved_points_witness:
  "\<exists>t1 w. sh_get (fst (flush_all_sync (demo_env Flushed) False demo_holder)) 2 = Some t1 \<and> sg_persisted_version t1 = Some w \<and> 5 \<le> w"
proof (rule flush_keeps_moved_points [where env = "demo_env Flushed" and h = demo_holder and i = 1 and force = False])
  have dep: "depends (sh_flush_dependency demo_holder) (lock_order demo_holder) = (\<lambda>i d. i = 1 \<and> d = 2)"
    by (auto simp: depends_def demo_holder_def lock_order_def add_dependency_def fun_eq_iff split: if_splits)
  show "depends (sh_flush_dependency demo_holder) (lock_order demo_holder) 1 2" by (simp add: dep)
  have "{(i :: u64, d :: u64). i = 1 \<and> d = 2} = {(1, 2)}" by auto
  moreover have "acyclic {(1 :: u64, 2 :: u64)}"
  proof -
    have "acyclic ({} :: (u64 \<times> u64) set)" by (simp add: acyclic_def)
    then show ?thesis by (simp add: acyclic_insert)
  qed
  ultimately show "acyclicP (depends (sh_flush_dependency demo_holder) (lock_order demo_holder))"
    by (simp add: dep)
  show "holder_wf demo_holder" by (simp add: holder_wf_def demo_holder_def topo_wf_def add_dependency_def)
  show "fe_alive (demo_env Flushed) i \<and> Cancelled \<notin> set (fe_components (demo_env Flushed) i)" for i
    by (simp add: demo_env_def)
  show "sh_get (fst (flush_all_sync (demo_env Flushed) False demo_holder)) 1 \<noteq> sh_get demo_holder 1"
    "sh_get demo_holder 2 = Some (idle_segment True 5 (Some 3))"
    by (simp_all add: demo_flush) (simp_all add: demo_holder_def sh_get_def idle_segment_def)
  show "sg_version (idle_segment True 5 (Some 3)) = Some 5" by (simp add: idle_segment_def)
qed (rule prod.collapse [symmetric])

end
