(* ===== verification/Spec2Isabelle.thy ===== *)
theory Spec2Isabelle
  imports ConsensusLoop WalDelta ClockSet ReplicaState DomTree JsonPathText MapIndex IdTrackerVersions SegmentFiles SegmentHolderFlush
begin

text \<open>
  A verification development for the two Rust services under \<open>src/external_nodes\<close>: the vector database
  \<open>qdrant\<close> and the headless browser \<open>obscura\<close>. It models the parts of them that keep state and whose
  errors lose data: the write-ahead log and what is built on it (the log of operations of a shard, its
  recovery from another replica, the Raft log), the logical clocks of the replicas, the storage of
  payloads in fixed blocks (\<open>gridstore\<close>), the payloads of the points with the indexes on their fields, and
  the DOM tree of the browser.

  \<^bold>\<open>Conventions.\<close> A struct is a record and an enum a datatype, with the names of the source. \<open>Result\<close> is a
  sum with the error on the left, \<open>?\<close> is \<open>and_then\<close>. A panic, a failing assertion or index, and an
  \<open>unreachable!\<close> are an error value. A \<open>HashMap\<close> is an association list, whose order stands for the
  unspecified iteration order. Clock ticks, checksums and bitmask words are machine words and wrap; sizes,
  indices and positions are natural numbers, with the bound under which the code's integers do not overflow
  as a hypothesis where it matters. A mapped file is the bytes it holds; file system calls succeed.
  Methods on \<open>&mut self\<close> return the new state. Locks are not modelled: an operation is one step, and what
  runs later (a flusher) is its own step.

  \<^bold>\<open>Theories, in the order of their imports.\<close>

  \<^item> \<open>Prelude\<close>, \<open>Bytes\<close>: results, hash maps, the binary search of the standard library, slices of buffers and
    little-endian numbers.

  \<^item> \<open>WalSegment\<close> (\<open>lib/wal/src/segment.rs\<close>): one segment file, its entries in a chain of checksums, appending,
    truncating, flushing and opening after a crash. The lemmas show that the in-memory index and the bytes agree,
    and that what was flushed survives any later unflushed change.

  \<^item> \<open>WalLog\<close> (\<open>lib/wal/src/lib.rs\<close>, \<open>segment_creator.rs\<close>): the log as closed segments, an open one and a
    prefetched one. The locale \<open>indexed_log\<close> is the interface the two users of the log rely on; it is
    interpreted for this log.

  \<^item> \<open>SerdeWal\<close> (\<open>lib/shard/src/wal.rs\<close>): the typed log of a shard with acknowledgement and retention.

  \<^item> \<open>ClockMap\<close>, \<open>ClockSet\<close> (\<open>local_shard/clock_map.rs\<close>, \<open>replica_set/clock_set.rs\<close>): the newest tick a replica
    has seen of every clock, and the pool of clocks a peer hands out.

  \<^item> \<open>WalDelta\<close> (\<open>lib/collection/src/wal_delta.rs\<close>): writing with clock tags, and the part of the log a lagging
    replica is missing. Soundness: replaying the delta leaves out no operation the replica lacks.

  \<^item> \<open>ConsensusWal\<close> (\<open>content_manager/consensus/consensus_wal.rs\<close>): the Raft log over the write-ahead log, with
    its offset between the two kinds of index; a refinement of the list of entries of Raft.

  \<^item> \<open>ConsensusState\<close>, \<open>ConsensusManager\<close> (\<open>consensus/persistent.rs\<close>, \<open>entry_queue.rs\<close>, \<open>consensus_manager.rs\<close>): what a peer
    keeps of the consensus in its state file, and the state machine that applies committed entries. The outcomes of
    the saves are an input, the collections a record of functions. \<open>ConsensusApply\<close> follows the progress through failing
    saves and restarts, \<open>ConsensusSnapshot\<close> installing and taking snapshots, compaction and the first voter,
    \<open>ConsensusLoop\<close> (\<open>src/consensus.rs\<close>) one round of the loop around the Raft node, which is a parameter.

  \<^item> \<open>ReplicaState\<close> (\<open>replica_set/replica_set_state.rs\<close>): the states of the replicas of a shard and their classes.

  \<^item> \<open>DomTree\<close> (\<open>obscura-dom/src/tree.rs\<close>, one operation of \<open>obscura-js\<close>): nodes in an arena linked by indices;
    the lists of children as an abstraction, its invariant over all reachable trees, and the effect of
    inserting and removing.

  \<^item> \<open>GridBits\<close>, \<open>GridBitmask\<close> (\<open>lib/gridstore/src/bitmask\<close>, \<open>config.rs\<close>): the bitmask of used blocks and the
    summary of its regions; both searches are first a search over bits.

  \<^item> \<open>GridTracker\<close> (\<open>tracker.rs\<close>): pointers of values, pending updates, and what a flush writes and releases.

  \<^item> \<open>GridPages\<close>, \<open>Gridstore\<close> (\<open>pages.rs\<close>, \<open>gridstore/mod.rs\<close>, \<open>view.rs\<close>, and the mapped files of
    \<open>lib/common\<close>): reading and writing values over pages, the store, its flushers and its iteration.
    \<open>GridstoreInv\<close> and \<open>GridstoreFlush\<close> hold the invariant (\<open>gs_ok\<close>: every pointer still needed has its own
    marked blocks) and what each operation does to it. \<open>GridstoreHistory\<close> states a specification with three
    maps, the live values, those a flusher has captured, and those on disk, and a locale for machines whose
    steps may run out of room; it is interpreted for the store. \<open>GridstoreProps\<close> holds the properties.

  \<^item> \<open>JsonPath\<close>, \<open>JsonPathText\<close> (\<open>lib/segment/src/json_path\<close>, \<open>merge_map\<close>, \<open>PayloadSelector\<close>): JSON values, paths
    into them, reading, setting, removing and filtering by path, the test whether setting a path can change
    what another path reads, and the text form of a path. A \<open>serde_json\<close> map keeps the order of insertion: it is
    an association list with unique keys, which every operation is shown to keep.

  \<^item> \<open>PayloadStorage\<close> (\<open>lib/segment/src/payload_storage\<close>): payloads in memory and in the grid store. The locale
    \<open>payload_store\<close> is the contract of the two and of the enum over them; a sequence of operations answers the
    same on both.

  \<^item> \<open>FlagStorage\<close> (\<open>lib/segment/src/common/flags\<close>): growable sets of points on disk with a buffer of changes.
    A roaring bitmap is a finite set. They are a second instance of the locale of \<open>GridstoreHistory\<close>.

  \<^item> \<open>FieldIndexes\<close>, \<open>PayloadIndex\<close>, \<open>MapIndex\<close> (\<open>lib/segment/src/index\<close>): the null and bool indexes over two sets of
    flags (locale \<open>field_index_laws\<close>), the payload index that keeps them in step with the stored payloads, and the
    keyword index, its filters, estimates and reloading.

  \<^bold>\<open>Parameters and hypotheses.\<close> The checksum function, the Raft and CBOR codecs, the conversions of a value to
    bytes, LZ4, the qualified names of html5ever, the type of JSON numbers, \<open>MINIMAL_MMAP_SIZE\<close> (it depends on the
    build) and the floating point size of an except estimate are arguments of the definitions that use them; the codecs
    are assumed to decode what they encode. A crash of the process keeps what was written to mapped files; the
    log's model of a crash also loses what was not flushed.

  \<^bold>\<open>Loops.\<close> Loops that count down or walk a list are recursive functions with a measure. The walks over sibling,
    parent and child links of the DOM and the iteration of the grid store, which the code itself does not
    bound, are partial functions; that they return in every reachable state is proved, and one
    theorem shows a call after which a walk does not return.

  \<^bold>\<open>What the properties found.\<close> Several of them state a behaviour the code surely does not intend:
    unflushed truncation, the Raft log dropped when an append falls below its first entry, writes hidden after dropping
    all records, blocks leaked by a replaced and then deleted value, live blocks freed when two
    flushers of the same updates run, region sizes of $2^{15}$ blocks and more, two of \<open>insertBefore\<close>, indexes that
  stay behind when an enclosing field of the payload is removed, the two readings of null inside an array, and
  an estimate of zero for an except condition on unknown values.

  \<^bold>\<open>Not modelled.\<close> The Python and JavaScript application around the services; of qdrant, the vector
    indexes and segments, the optimizers, the network interface with its generated types, the asynchronous
    transfer of shards, and the read-only reader of the grid store; of obscura, the page, network and script
    engines, which call V8, html5ever and an HTTP client. Planned next: the queue and the application of consensus
    operations, shard key and alias maps, and the cookie store and robots rules of obscura.
\<close>

end
